(* ===== verification/Prelude.thy ===== *)
theory Prelude
  imports Main "HOL-Library.Word" "HOL-Library.Multiset" "HOL-Library.Code_Target_Nat"
begin

unbundle bit_operations_syntax

text \<open>
  Shared vocabulary of the development.

  \<^item> \<open>outcome\<close> is Rust's \<open>Result\<close> together with the third way a Rust call can end, a panic
    (an \<open>expect\<close> on \<open>None\<close>, an index out of range). Every modelled operation that can
    panic in the source can be \<open>Panic\<close> in the model, so freedom from panics is a theorem.
  \<^item> \<open>bindR\<close> is the \<open>?\<close> operator on a pure result; \<open>bindS\<close> is \<open>?\<close> for an operation on
    \<open>&mut self\<close>: the state is returned on the error path too, because the source may have
    changed it before it returned the error.
  \<^item> \<open>iterS\<close> is the loop \<open>for x in xs { op(x)?; }\<close> over a mutable state.
  \<^item> \<open>usize\<close> is modelled as \<open>nat\<close> with the bound \<open>usize_max\<close> written out wherever the source
    checks or saturates; \<open>u8\<close>, \<open>u16\<close>, \<open>u32\<close> and \<open>u64\<close> are words wherever the source wraps,
    masks, or reads them from bytes.
\<close>

section \<open>Machine integers\<close>

type_synonym u8 = "8 word"
type_synonym u16 = "16 word"
type_synonym u32 = "32 word"
type_synonym u64 = "64 word"
type_synonym usize = nat
type_synonym bytes = "u8 list"

definition usize_max :: usize where
  "usize_max = 2 ^ 64 - 1"

definition checked_add_us :: "usize \<Rightarrow> usize \<Rightarrow> usize option" where
  "checked_add_us a b = (if a + b \<le> usize_max then Some (a + b) else None)"

definition checked_mul_us :: "usize \<Rightarrow> usize \<Rightarrow> usize option" where
  "checked_mul_us a b = (if a * b \<le> usize_max then Some (a * b) else None)"

definition sat_add_us :: "usize \<Rightarrow> usize \<Rightarrow> usize" where
  "sat_add_us a b = min (a + b) usize_max"

definition sat_mul_us :: "usize \<Rightarrow> usize \<Rightarrow> usize" where
  "sat_mul_us a b = min (a * b) usize_max"

definition div_ceil :: "usize \<Rightarrow> usize \<Rightarrow> usize" where
  "div_ceil a b = (if a mod b = 0 then a div b else a div b + 1)"

definition checked_add :: "'a::len word \<Rightarrow> 'a word \<Rightarrow> 'a word option" where
  "checked_add a b = (if unat a + unat b < 2 ^ LENGTH('a) then Some (a + b) else None)"

definition checked_mul :: "'a::len word \<Rightarrow> 'a word \<Rightarrow> 'a word option" where
  "checked_mul a b = (if unat a * unat b < 2 ^ LENGTH('a) then Some (a * b) else None)"

text \<open>The generation counters of the slot and page tables: \<open>g.wrapping_add(1).max(1)\<close>.\<close>

definition next_generation :: "u64 \<Rightarrow> u64" where
  "next_generation g = max (g + 1) 1"

lemma next_generation_neq [simp]: "next_generation g \<noteq> g" "g \<noteq> next_generation g"
proof -
  have "next_generation g \<noteq> g"
  proof
    assume eq: "next_generation g = g"
    show False
    proof (cases "g + 1 = 0")
      case True
      then have "g = - 1" by (simp add: eq_neg_iff_add_eq_0)
      with eq True show False by (simp add: next_generation_def)
    next
      case False
      then have "1 \<le> g + 1" by (metis word_coorder.not_eq_extremum linorder_not_less word_less_1)
      with eq show False by (simp add: next_generation_def max_def split: if_splits)
    qed
  qed
  then show "next_generation g \<noteq> g" "g \<noteq> next_generation g" by auto
qed

text \<open>The counter runs through the nonzero values only, in a cycle of \<open>2 ^ 64 - 1\<close> steps.\<close>

lemma unat_u64_less: "unat g < 2 ^ 64" for g :: u64
proof -
  have "unat g < 2 ^ LENGTH(64)" by (rule unsigned_less)
  then show ?thesis by simp
qed

lemma next_generation_nonzero: "next_generation g \<noteq> 0"
proof -
  have "1 \<le> next_generation g" unfolding next_generation_def by (rule max.cobounded2)
  then show ?thesis by auto
qed

lemma unat_next_generation:
  "unat (next_generation g) = (if unat g = 2 ^ 64 - 1 then 1 else unat g + 1)"
proof (cases "unat g = 2 ^ 64 - 1")
  case True
  then have "unat (g + 1) = 0" by (simp add: unat_word_ariths)
  then have "g + 1 = 0" by (metis unsigned_0 word_unat_eq_iff)
  with True show ?thesis by (simp add: next_generation_def)
next
  case False
  have "unat g < 2 ^ 64" by (rule unat_u64_less)
  with False have "unat g + 1 < 2 ^ 64" by linarith
  then have u: "unat (g + 1) = unat g + 1" by (simp add: unat_word_ariths)
  then have "1 \<le> g + 1" by (simp only: word_le_nat_alt) simp
  then have "max (g + 1) 1 = g + 1" by (simp only: max.absorb1)
  with u False show ?thesis by (simp add: next_generation_def)
qed

lemma unat_next_generation_pow:
  assumes "g \<noteq> 0"
  shows "unat ((next_generation ^^ k) g) = (unat g - 1 + k) mod (2 ^ 64 - 1) + 1"
proof (induction k)
  case 0
  have "0 < unat g" "unat g < 2 ^ 64"
    using assms unat_u64_less [of g] by (simp_all add: unat_gt_0)
  then show ?case by simp
next
  case (Suc k)
  let ?M = "2 ^ 64 - 1 :: nat"
  let ?x = "unat g - 1 + k"
  have "unat (next_generation ((next_generation ^^ k) g)) = (if ?x mod ?M + 1 = ?M then 1 else ?x mod ?M + 1 + 1)"
    unfolding unat_next_generation Suc.IH by simp
  also have "\<dots> = Suc ?x mod ?M + 1"
    by (simp only: mod_Suc) auto
  finally show ?case by simp
qed

lemma next_generation_pow_neq:
  assumes "0 < k" "k < 2 ^ 64 - 1"
  shows "(next_generation ^^ k) g \<noteq> g"
proof (cases "g = 0")
  case True
  from assms obtain j where "k = Suc j" by (cases k) auto
  then show ?thesis using True next_generation_nonzero by simp
next
  case False
  let ?M = "2 ^ 64 - 1 :: nat"
  have x: "unat g - 1 < ?M" "0 < unat g"
    using False unat_u64_less [of g] by (simp_all add: unat_gt_0)
  have neq: "(y + k) mod m \<noteq> y" if "y < m" "k < m" for y m :: nat
    using that assms(1) by (cases "y + k < m") (auto simp: le_mod_geq)
  have "(unat g - 1 + k) mod ?M \<noteq> unat g - 1" by (rule neq [OF x(1) assms(2)])
  then show ?thesis using unat_next_generation_pow [OF False, of k] x(2) by auto
qed

lemma unat_of_nat_small:
  "n < 2 ^ LENGTH('a) \<Longrightarrow> unat (of_nat n :: 'a::len word) = n"
  by (simp add: unsigned_of_nat take_bit_nat_eq_self)

lemma checked_add_us_Some_iff: "checked_add_us a b = Some c \<longleftrightarrow> c = a + b \<and> a + b \<le> usize_max"
  by (auto simp: checked_add_us_def)

lemma checked_mul_us_Some_iff: "checked_mul_us a b = Some c \<longleftrightarrow> c = a * b \<and> a * b \<le> usize_max"
  by (auto simp: checked_mul_us_def)

lemma checked_add_Some_iff:
  "checked_add a b = Some c \<longleftrightarrow> unat c = unat a + unat b"
  for a b c :: "'a::len word"
proof
  assume "checked_add a b = Some c"
  then show "unat c = unat a + unat b"
    by (auto simp: checked_add_def unat_word_ariths split: if_splits)
next
  assume eq: "unat c = unat a + unat b"
  then have lt: "unat a + unat b < 2 ^ LENGTH('a)"
    by (metis unsigned_less)
  then have "unat (a + b) = unat c"
    by (simp add: unat_word_ariths eq)
  with lt show "checked_add a b = Some c"
    by (simp add: checked_add_def word_unat_eq_iff)
qed

lemma checked_mul_Some_iff:
  "checked_mul a b = Some c \<longleftrightarrow> unat c = unat a * unat b"
  for a b c :: "'a::len word"
proof
  assume "checked_mul a b = Some c"
  then show "unat c = unat a * unat b"
    by (auto simp: checked_mul_def unat_word_ariths split: if_splits)
next
  assume eq: "unat c = unat a * unat b"
  then have lt: "unat a * unat b < 2 ^ LENGTH('a)"
    by (metis unsigned_less)
  then have "unat (a * b) = unat c"
    by (simp add: unat_word_ariths eq)
  with lt show "checked_mul a b = Some c"
    by (simp add: checked_mul_def word_unat_eq_iff)
qed

lemma div_ceil_bounds: "0 < b \<Longrightarrow> a \<le> div_ceil a b * b \<and> div_ceil a b * b < a + b"
proof -
  assume b: "0 < b"
  have eq: "a div b * b + a mod b = a" by simp
  have lt: "a mod b < b" using b by simp
  show ?thesis
  proof (cases "a mod b = 0")
    case True
    with eq b show ?thesis by (simp add: div_ceil_def)
  next
    case False
    have "(a div b + 1) * b = a div b * b + b" by simp
    with False eq lt show ?thesis by (simp only: div_ceil_def if_False) linarith
  qed
qed

lemma div_ceil_unique:
  assumes "a \<le> d * b" "d * b < a + b"
  shows "div_ceil a b = d"
proof -
  have b: "0 < b" using assms by (cases b) auto
  from div_ceil_bounds [OF b, of a] assms
  have "div_ceil a b * b < (d + 1) * b" "d * b < (div_ceil a b + 1) * b"
    by (simp_all only: distrib_right) linarith+
  then have "div_ceil a b < d + 1" "d < div_ceil a b + 1"
    by (simp_all only: mult_less_cancel2)
  then show ?thesis by simp
qed

lemma div_ceil_Suc:
  assumes "0 < b"
  shows "div_ceil (n + 1) b = (if n mod b = 0 then div_ceil n b + 1 else div_ceil n b)"
proof (rule div_ceil_unique)
  let ?d = "div_ceil n b"
  have bounds: "n \<le> ?d * b" "?d * b < n + b" using div_ceil_bounds [OF assms, of n] by auto
  have eq: "n = ?d * b" if "n mod b = 0" using that by (auto simp: div_ceil_def)
  have ne: "n \<noteq> ?d * b" if "n mod b \<noteq> 0" using that by (metis mod_mult_self2_is_0)
  show "n + 1 \<le> (if n mod b = 0 then ?d + 1 else ?d) * b"
    using bounds eq ne assms by (cases "n mod b = 0") auto
  show "(if n mod b = 0 then ?d + 1 else ?d) * b < n + 1 + b"
    using bounds eq by (cases "n mod b = 0") auto
qed

lemma div_ceil_0 [simp]: "div_ceil 0 b = 0"
  by (simp add: div_ceil_def)

section \<open>Results, panics and the question-mark operator\<close>

datatype ('a, 'e) outcome = Ok 'a | Err 'e | Panic

definition bindR :: "('a, 'e) outcome \<Rightarrow> ('a \<Rightarrow> ('b, 'e) outcome) \<Rightarrow> ('b, 'e) outcome" where
  "bindR r k = (case r of Ok x \<Rightarrow> k x | Err e \<Rightarrow> Err e | Panic \<Rightarrow> Panic)"

definition bindS ::
  "('a, 'e) outcome \<times> 's \<Rightarrow> ('a \<Rightarrow> 's \<Rightarrow> ('b, 'e) outcome \<times> 's) \<Rightarrow> ('b, 'e) outcome \<times> 's" where
  "bindS m k = (case m of (Ok x, s) \<Rightarrow> k x s | (Err e, s) \<Rightarrow> (Err e, s) | (Panic, s) \<Rightarrow> (Panic, s))"

definition ok_or :: "'a option \<Rightarrow> 'e \<Rightarrow> ('a, 'e) outcome" where
  "ok_or x e = (case x of Some v \<Rightarrow> Ok v | None \<Rightarrow> Err e)"

definition map_err :: "('e \<Rightarrow> 'f) \<Rightarrow> ('a, 'e) outcome \<Rightarrow> ('a, 'f) outcome" where
  "map_err f r = (case r of Ok x \<Rightarrow> Ok x | Err e \<Rightarrow> Err (f e) | Panic \<Rightarrow> Panic)"

fun iterS ::
  "('x \<Rightarrow> 's \<Rightarrow> (unit, 'e) outcome \<times> 's) \<Rightarrow> 'x list \<Rightarrow> 's \<Rightarrow> (unit, 'e) outcome \<times> 's" where
  "iterS f [] s = (Ok (), s)"
| "iterS f (x # xs) s = bindS (f x s) (\<lambda>_ s'. iterS f xs s')"

fun iterR :: "('x \<Rightarrow> (unit, 'e) outcome) \<Rightarrow> 'x list \<Rightarrow> (unit, 'e) outcome" where
  "iterR f [] = Ok ()"
| "iterR f (x # xs) = bindR (f x) (\<lambda>_. iterR f xs)"

lemma bindR_simps [simp]:
  "bindR (Ok x) k = k x" "bindR (Err e) k = Err e" "bindR Panic k = Panic"
  by (simp_all add: bindR_def)

lemma bindS_simps [simp]:
  "bindS (Ok x, s) k = k x s" "bindS (Err e, s) k = (Err e, s)" "bindS (Panic, s) k = (Panic, s)"
  by (simp_all add: bindS_def)

lemma ok_or_simps [simp]: "ok_or (Some x) e = Ok x" "ok_or None e = Err e"
  by (simp_all add: ok_or_def)

lemma bindR_Ok_iff: "bindR r k = Ok y \<longleftrightarrow> (\<exists>x. r = Ok x \<and> k x = Ok y)"
  by (cases r) auto

lemma bindR_Err_iff: "bindR r k = Err e \<longleftrightarrow> r = Err e \<or> (\<exists>x. r = Ok x \<and> k x = Err e)"
  by (cases r) auto

lemma bindR_Panic_iff: "bindR r k = Panic \<longleftrightarrow> r = Panic \<or> (\<exists>x. r = Ok x \<and> k x = Panic)"
  by (cases r) auto

lemma bindS_Ok_iff: "bindS m k = (Ok y, s') \<longleftrightarrow> (\<exists>x s. m = (Ok x, s) \<and> k x s = (Ok y, s'))"
  by (auto simp: bindS_def split: prod.splits outcome.splits)

lemma ok_or_Ok_iff [simp]: "ok_or x e = Ok y \<longleftrightarrow> x = Some y"
  by (cases x) auto

lemma ok_or_Err_iff [simp]: "ok_or x e = Err e' \<longleftrightarrow> x = None \<and> e' = e"
  by (cases x) auto

lemma ok_or_Panic [simp]: "ok_or x e \<noteq> Panic"
  by (cases x) auto

lemma map_err_Ok_iff [simp]: "map_err f r = Ok y \<longleftrightarrow> r = Ok y"
  by (cases r) (auto simp: map_err_def)

lemma iterR_Ok_iff: "iterR f xs = Ok () \<longleftrightarrow> (\<forall>x \<in> set xs. f x = Ok ())"
  by (induction xs) (auto simp: bindR_Ok_iff)

text \<open>\<open>outcome_iffs\<close> opens a successful run into the successes of its steps.\<close>

named_theorems outcome_iffs \<open>inversion of successful outcomes\<close>

lemmas [outcome_iffs] =
  bindR_Ok_iff bindS_Ok_iff ok_or_Ok_iff iterR_Ok_iff map_err_Ok_iff

section \<open>Lists\<close>

text \<open>\<open>Vec::get\<close>.\<close>

definition list_get :: "'a list \<Rightarrow> nat \<Rightarrow> 'a option" where
  "list_get xs i = (if i < length xs then Some (xs ! i) else None)"

lemma list_get_Some_iff: "list_get xs i = Some x \<longleftrightarrow> i < length xs \<and> xs ! i = x"
  by (auto simp: list_get_def)

lemma list_get_None_iff: "list_get xs i = None \<longleftrightarrow> length xs \<le> i"
  by (auto simp: list_get_def)

lemma list_get_append1 [simp]: "i < length xs \<Longrightarrow> list_get (xs @ ys) i = list_get xs i"
  by (simp add: list_get_def nth_append)

lemma list_get_length [simp]: "list_get (xs @ [x]) (length xs) = Some x"
  by (simp add: list_get_def)

lemma length_filter_update:
  "i < length xs \<Longrightarrow>
    length (filter P (xs[i := y])) + (if P (xs ! i) then 1 else 0) =
    length (filter P xs) + (if P y then 1 else 0)"
proof (induction xs arbitrary: i)
  case Nil
  then show ?case by simp
next
  case (Cons x xs)
  then show ?case by (cases i) auto
qed

lemma all_set_update:
  "(\<forall>x \<in> set xs. P x) \<Longrightarrow> P y \<Longrightarrow> (\<forall>x \<in> set (xs[i := y]). P x)"
  using set_update_subset_insert [of xs i y] by auto

lemma image_unat_inj: "inj_on unat A"
  by (rule inj_onI) (simp add: word_unat_eq_iff)

end
