(* ===== verification/Paged_Pool.thy ===== *)
theory Paged_Pool
  imports Prelude
begin

text \<open>
  The page pool of the paged CUDA KV cache (\<open>src/src/inference/cuda_paged_kv.rs\<close>,
  \<open>CudaKvPageLayout\<close>, \<open>CudaKvPageHandle\<close>, \<open>CudaKvPagePool\<close>): page geometry, the vector of
  page entries with their generations and reference counts, the free stack and the counters.

  The abstract contract of the pool is a multiset of handles, \<open>held\<close>: a handle occurs in it
  once per outstanding reference. The locale \<open>refcounted_pages\<close> states that contract (retain
  adds one occurrence, release removes one, a handle outside the multiset is stale) and derives
  what whole loops of retains and releases do; the pool is an interpretation of it.
\<close>

section \<open>Page geometry\<close>

definition CUDA_KV_PAGE_TOKENS :: usize where
  "CUDA_KV_PAGE_TOKENS = 16"

datatype page_storage = PageF16 | PageQ8_0

record page_layout =
  layer_count :: usize
  kv_head_count :: usize
  head_dim :: usize
  storage :: page_storage

datatype page_error =
    InvalidLayout
  | LayoutOverflow
  | ZeroCapacity
  | CapacityExhausted usize usize
  | StaleHandle
  | ReferenceOverflow
  | SequenceMismatch
  | ConcurrentMutation

definition row_bytes :: "page_layout \<Rightarrow> (usize, page_error) outcome" where
  "row_bytes l =
     (case storage l of
        PageF16 \<Rightarrow> ok_or (checked_mul_us (head_dim l) 2) LayoutOverflow
      | PageQ8_0 \<Rightarrow>
          if head_dim l mod 32 \<noteq> 0 then Err InvalidLayout
          else ok_or (checked_mul_us (head_dim l div 32) 34) LayoutOverflow)"

definition page_bytes :: "page_layout \<Rightarrow> (usize, page_error) outcome" where
  "page_bytes l =
     (if layer_count l = 0 \<or> kv_head_count l = 0 \<or> head_dim l = 0 then Err InvalidLayout
      else bindR (row_bytes l) (\<lambda>row.
        ok_or
          (Option.bind (checked_mul_us (layer_count l) (kv_head_count l)) (\<lambda>v.
           Option.bind (checked_mul_us v CUDA_KV_PAGE_TOKENS) (\<lambda>v.
           Option.bind (checked_mul_us v 2) (\<lambda>v.
           checked_mul_us v row))))
          LayoutOverflow))"

section \<open>Pool state\<close>

record page_handle =
  ph_index :: u32
  ph_generation :: u64

text \<open>\<open>CudaKvPageState\<close>; the \<open>NonZeroUsize\<close> reference count is a number that the invariant
  keeps above zero.\<close>

datatype page_state = Vacant | Live usize

record page_entry =
  pe_generation :: u64
  pe_state :: page_state

text \<open>
  \<open>CudaKvPagePool\<close>. The last two fields are this pool's contribution to the process-wide
  atomics \<open>CUDA_KV_PAGE_ALLOCATION_FAILURES\<close> and \<open>CUDA_KV_RECLAIMED_PAGES\<close>, which
  \<open>fetch_add\<close> lets wrap. The \<open>u64\<close> counters that saturate are numbers capped at
  \<^term>\<open>usize_max\<close>.
\<close>

record page_pool =
  pool_layout :: page_layout
  pool_page_bytes :: usize
  capacity_pages :: usize
  pages :: "page_entry list"
  free :: "u32 list"
  allocated_pages :: usize
  high_watermark_pages :: usize
  total_allocations :: usize
  allocation_failures :: usize
  reclaimed_pages :: usize
  failures_total :: u64
  reclaimed_total :: u64

definition pool_new :: "page_layout \<Rightarrow> usize \<Rightarrow> (page_pool, page_error) outcome" where
  "pool_new l capacity =
     (if capacity = 0 then Err ZeroCapacity
      else bindR (page_bytes l) (\<lambda>b.
        Ok \<lparr>pool_layout = l, pool_page_bytes = b, capacity_pages = capacity, pages = [],
            free = [], allocated_pages = 0, high_watermark_pages = 0, total_allocations = 0,
            allocation_failures = 0, reclaimed_pages = 0, failures_total = 0,
            reclaimed_total = 0\<rparr>))"

section \<open>Pool operations\<close>

text \<open>\<open>allocate_one\<close>: take the most recently freed index, or append a vacant entry (its index is
  \<open>self.pages.len() as u32\<close>, which truncates); indexing \<open>self.pages\<close> out of range panics.\<close>

definition take_index :: "page_pool \<Rightarrow> u32 \<times> page_pool" where
  "take_index p =
     (if free p \<noteq> [] then (last (free p), p\<lparr>free := butlast (free p)\<rparr>)
      else (of_nat (length (pages p)),
            p\<lparr>pages := pages p @ [\<lparr>pe_generation = 0, pe_state = Vacant\<rparr>]\<rparr>))"

definition allocate_one :: "page_pool \<Rightarrow> (page_handle, page_error) outcome \<times> page_pool" where
  "allocate_one p =
     (let (index, p1) = take_index p in
      case list_get (pages p1) (unat index) of
        None \<Rightarrow> (Panic, p1)
      | Some entry \<Rightarrow>
          let g = next_generation (pe_generation entry);
              n = allocated_pages p1 + 1
          in (Ok \<lparr>ph_index = index, ph_generation = g\<rparr>,
              p1\<lparr>pages := (pages p1)[unat index := \<lparr>pe_generation = g, pe_state = Live 1\<rparr>],
                 allocated_pages := n,
                 high_watermark_pages := max (high_watermark_pages p1) n,
                 total_allocations := sat_add_us (total_allocations p1) 1\<rparr>))"

text \<open>The loop \<open>for _ in 0..count { handles.push(self.allocate_one()); }\<close>.\<close>

fun allocate_many ::
  "nat \<Rightarrow> page_handle list \<Rightarrow> page_pool \<Rightarrow> (page_handle list, page_error) outcome \<times> page_pool" where
  "allocate_many 0 hs p = (Ok hs, p)"
| "allocate_many (Suc n) hs p = bindS (allocate_one p) (\<lambda>h p'. allocate_many n (hs @ [h]) p')"

definition reserve ::
  "usize \<Rightarrow> page_pool \<Rightarrow> (page_handle list, page_error) outcome \<times> page_pool" where
  "reserve n p =
     (let available = capacity_pages p - allocated_pages p in
      if available < n then
        (Err (CapacityExhausted n available),
         p\<lparr>allocation_failures := sat_add_us (allocation_failures p) 1,
           failures_total := failures_total p + 1\<rparr>)
      else allocate_many n [] p)"

definition is_live :: "page_entry \<Rightarrow> bool" where
  "is_live e = (case pe_state e of Live _ \<Rightarrow> True | Vacant \<Rightarrow> False)"

definition validate :: "page_pool \<Rightarrow> page_handle \<Rightarrow> bool" where
  "validate p h =
     (case list_get (pages p) (unat (ph_index h)) of
        None \<Rightarrow> False
      | Some e \<Rightarrow> pe_generation e = ph_generation h \<and> is_live e)"

text \<open>\<open>live_entry\<close>, and \<open>live_entry_mut\<close>, which differs in the mutability of the result only.\<close>

definition live_entry :: "page_pool \<Rightarrow> page_handle \<Rightarrow> (page_entry, page_error) outcome" where
  "live_entry p h =
     ok_or (case list_get (pages p) (unat (ph_index h)) of
              None \<Rightarrow> None
            | Some e \<Rightarrow>
                if pe_generation e = ph_generation h \<and> is_live e then Some e else None)
       StaleHandle"

definition references :: "page_pool \<Rightarrow> page_handle \<Rightarrow> (usize, page_error) outcome" where
  "references p h =
     bindR (live_entry p h) (\<lambda>e. case pe_state e of Live n \<Rightarrow> Ok n | Vacant \<Rightarrow> Panic)"

definition set_state :: "page_handle \<Rightarrow> page_state \<Rightarrow> page_pool \<Rightarrow> page_pool" where
  "set_state h st p =
     p\<lparr>pages := (pages p)[unat (ph_index h) :=
         (pages p ! unat (ph_index h))\<lparr>pe_state := st\<rparr>]\<rparr>"

definition retain :: "page_handle \<Rightarrow> page_pool \<Rightarrow> (unit, page_error) outcome \<times> page_pool" where
  "retain h p =
     (case live_entry p h of
        Ok e \<Rightarrow>
          (case pe_state e of
             Vacant \<Rightarrow> (Panic, p)
           | Live n \<Rightarrow>
               (case checked_add_us n 1 of
                  None \<Rightarrow> (Err ReferenceOverflow, p)
                | Some m \<Rightarrow> (Ok (), set_state h (Live m) p)))
      | Err x \<Rightarrow> (Err x, p)
      | Panic \<Rightarrow> (Panic, p))"

definition can_retain :: "page_pool \<Rightarrow> page_handle \<Rightarrow> (unit, page_error) outcome" where
  "can_retain p h =
     bindR (references p h) (\<lambda>n.
       case checked_add_us n 1 of None \<Rightarrow> Err ReferenceOverflow | Some _ \<Rightarrow> Ok ())"

definition release :: "page_handle \<Rightarrow> page_pool \<Rightarrow> (unit, page_error) outcome \<times> page_pool" where
  "release h p =
     (case live_entry p h of
        Ok e \<Rightarrow>
          (case pe_state e of
             Vacant \<Rightarrow> (Panic, p)
           | Live n \<Rightarrow>
               if n > 1 then (Ok (), set_state h (Live (n - 1)) p)
               else
                 (Ok (),
                  (set_state h Vacant p)
                    \<lparr>free := free p @ [ph_index h],
                     allocated_pages := allocated_pages p - 1,
                     reclaimed_pages := sat_add_us (reclaimed_pages p) 1,
                     reclaimed_total := reclaimed_total p + 1\<rparr>))
      | Err x \<Rightarrow> (Err x, p)
      | Panic \<Rightarrow> (Panic, p))"

record pool_snapshot =
  snap_layout :: page_layout
  snap_capacity_pages :: usize
  snap_resident_pages :: usize
  snap_allocated_pages :: usize
  snap_free_pages :: usize
  snap_shared_pages :: usize
  snap_high_watermark_pages :: usize
  snap_total_allocations :: usize
  snap_allocation_failures :: usize
  snap_reclaimed_pages :: usize
  snap_page_bytes :: usize
  snap_allocated_bytes :: usize

definition is_shared :: "page_entry \<Rightarrow> bool" where
  "is_shared e = (case pe_state e of Live n \<Rightarrow> n > 1 | Vacant \<Rightarrow> False)"

definition snapshot :: "page_pool \<Rightarrow> pool_snapshot" where
  "snapshot p =
     \<lparr>snap_layout = pool_layout p, snap_capacity_pages = capacity_pages p,
      snap_resident_pages = length (pages p), snap_allocated_pages = allocated_pages p,
      snap_free_pages = length (free p),
      snap_shared_pages = length (filter is_shared (pages p)),
      snap_high_watermark_pages = high_watermark_pages p,
      snap_total_allocations = total_allocations p,
      snap_allocation_failures = allocation_failures p,
      snap_reclaimed_pages = reclaimed_pages p, snap_page_bytes = pool_page_bytes p,
      snap_allocated_bytes = sat_mul_us (allocated_pages p) (pool_page_bytes p)\<rparr>"

section \<open>The contract of reference-counted pages\<close>

text \<open>
  What a client of the pool relies on: \<open>held\<close> abstracts the pool to the multiset of
  outstanding references and \<open>inv\<close> is the pool's own well-formedness.
\<close>

locale refcounted_pages =
  fixes held :: "'p \<Rightarrow> 'h multiset"
    and inv :: "'p \<Rightarrow> bool"
    and acquire :: "'h \<Rightarrow> 'p \<Rightarrow> (unit, 'e) outcome \<times> 'p"
    and drop_ref :: "'h \<Rightarrow> 'p \<Rightarrow> (unit, 'e) outcome \<times> 'p"
    and limit :: nat
  assumes acquire_law:
      "inv p \<Longrightarrow> h \<in># held p \<Longrightarrow> count (held p) h < limit \<Longrightarrow>
        \<exists>p'. acquire h p = (Ok (), p') \<and> inv p' \<and> held p' = add_mset h (held p)"
    and drop_law:
      "inv p \<Longrightarrow> h \<in># held p \<Longrightarrow>
        \<exists>p'. drop_ref h p = (Ok (), p') \<and> inv p' \<and> held p' = held p - {#h#}"
begin

text \<open>Releasing a list of handles that are all held gives back exactly those references.\<close>

lemma drop_all:
  "inv p \<Longrightarrow> mset hs \<subseteq># held p \<Longrightarrow>
    \<exists>p'. iterS drop_ref hs p = (Ok (), p') \<and> inv p' \<and> held p' = held p - mset hs"
proof (induction hs arbitrary: p)
  case Nil
  then show ?case by simp
next
  case (Cons h hs)
  from Cons.prems(2) have "h \<in># held p"
    by (simp add: insert_subset_eq_iff)
  with Cons.prems(1) obtain p1 where
    p1: "drop_ref h p = (Ok (), p1)" "inv p1" "held p1 = held p - {#h#}"
    using drop_law by blast
  from Cons.prems(2) have "mset hs \<subseteq># held p1"
    by (simp add: p1(3) insert_subset_eq_iff)
  from Cons.IH [OF p1(2) this] p1 show ?case
    by auto
qed

text \<open>Retaining a list of held handles adds one reference per occurrence, provided no count
  reaches the limit on the way.\<close>

lemma acquire_all:
  "inv p \<Longrightarrow> set hs \<subseteq> set_mset (held p) \<Longrightarrow>
    (\<And>h. h \<in> set hs \<Longrightarrow> count (held p) h + count (mset hs) h \<le> limit) \<Longrightarrow>
    \<exists>p'. iterS acquire hs p = (Ok (), p') \<and> inv p' \<and> held p' = held p + mset hs"
proof (induction hs arbitrary: p)
  case Nil
  then show ?case by simp
next
  case (Cons h hs)
  have "count (held p) h < limit"
    using Cons.prems(3) [of h] by simp
  with Cons.prems(1,2) obtain p1 where
    p1: "acquire h p = (Ok (), p1)" "inv p1" "held p1 = add_mset h (held p)"
    using acquire_law [of p h] by auto
  have sub: "set hs \<subseteq> set_mset (held p1)"
    using Cons.prems(2) by (auto simp: p1(3))
  have lim: "count (held p1) k + count (mset hs) k \<le> limit" if "k \<in> set hs" for k
    using Cons.prems(3) [of k] that by (auto simp: p1(3) split: if_splits)
  from Cons.IH [OF p1(2) sub lim] p1 show ?case
    by auto
qed

end

section \<open>The multiset of outstanding references\<close>

definition entry_refs :: "page_entry \<Rightarrow> nat" where
  "entry_refs e = (case pe_state e of Live n \<Rightarrow> n | Vacant \<Rightarrow> 0)"

definition handle_at :: "page_pool \<Rightarrow> nat \<Rightarrow> page_handle" where
  "handle_at p i = \<lparr>ph_index = of_nat i, ph_generation = pe_generation (pages p ! i)\<rparr>"

definition held :: "page_pool \<Rightarrow> page_handle multiset" where
  "held p = (\<Sum>i<length (pages p). replicate_mset (entry_refs (pages p ! i)) (handle_at p i))"

definition refs_of :: "page_pool \<Rightarrow> page_handle \<Rightarrow> nat" where
  "refs_of p h =
     (case list_get (pages p) (unat (ph_index h)) of
        Some e \<Rightarrow> if pe_generation e = ph_generation h then entry_refs e else 0
      | None \<Rightarrow> 0)"

definition pool_inv :: "page_pool \<Rightarrow> bool" where
  "pool_inv p \<longleftrightarrow>
     length (pages p) \<le> capacity_pages p \<and> capacity_pages p \<le> 2 ^ 32 \<and>
     distinct (free p) \<and>
     unat ` set (free p) = {i. i < length (pages p) \<and> pe_state (pages p ! i) = Vacant} \<and>
     (\<forall>e \<in> set (pages p). pe_state e \<noteq> Live 0 \<and> entry_refs e \<le> usize_max) \<and>
     allocated_pages p = length (filter is_live (pages p)) \<and>
     allocated_pages p \<le> high_watermark_pages p \<and> high_watermark_pages p \<le> capacity_pages p"

lemma count_held:
  assumes "length (pages p) \<le> 2 ^ 32"
  shows "count (held p) h = refs_of p h"
proof -
  let ?i = "unat (ph_index h)"
  have hit: "handle_at p i = h \<longleftrightarrow> i = ?i \<and> pe_generation (pages p ! i) = ph_generation h"
    if "i < length (pages p)" for i
  proof -
    have "i < 2 ^ 32" using that assms by simp
    then have "unat (of_nat i :: u32) = i"
      by (intro unat_of_nat_small) simp
    then have "of_nat i = ph_index h \<longleftrightarrow> i = ?i"
      by (auto simp: word_unat_eq_iff)
    then show ?thesis
      by (cases h) (auto simp: handle_at_def)
  qed
  have "count (held p) h =
      (\<Sum>i<length (pages p). if handle_at p i = h then entry_refs (pages p ! i) else 0)"
    unfolding held_def count_sum by (rule sum.cong) auto
  also have "\<dots> = (\<Sum>i<length (pages p).
      if i = ?i then (if pe_generation (pages p ! i) = ph_generation h
                      then entry_refs (pages p ! i) else 0) else 0)"
    by (rule sum.cong) (auto simp: hit)
  also have "\<dots> = refs_of p h"
    by (simp add: sum.delta refs_of_def list_get_def)
  finally show ?thesis .
qed

lemma pool_inv_length: "pool_inv p \<Longrightarrow> length (pages p) \<le> 2 ^ 32"
  by (simp add: pool_inv_def)

lemma count_held_inv: "pool_inv p \<Longrightarrow> count (held p) h = refs_of p h"
  by (rule count_held) (rule pool_inv_length)

lemma live_entry_Ok_iff:
  "live_entry p h = Ok e \<longleftrightarrow>
    list_get (pages p) (unat (ph_index h)) = Some e \<and> pe_generation e = ph_generation h \<and> is_live e"
  by (auto simp: live_entry_def split: option.splits)

lemma live_entry_cases: "live_entry p h = Err StaleHandle \<or> (\<exists>e. live_entry p h = Ok e)"
  by (auto simp: live_entry_def split: option.splits)

lemma live_entry_not_Panic [simp]: "live_entry p h \<noteq> Panic"
  using live_entry_cases [of p h] by auto

lemma is_live_iff: "is_live e \<longleftrightarrow> (\<exists>n. pe_state e = Live n)"
  by (cases "pe_state e") (auto simp: is_live_def)

lemma entry_refs_simps [simp]:
  "pe_state e = Live n \<Longrightarrow> entry_refs e = n" "pe_state e = Vacant \<Longrightarrow> entry_refs e = 0"
  by (simp_all add: entry_refs_def)

text \<open>A live handle is exactly one that is held, and its entry carries its reference count.\<close>

lemma live_entry_held:
  assumes "pool_inv p"
  shows "(\<exists>e. live_entry p h = Ok e) \<longleftrightarrow> h \<in># held p"
proof -
  have cnt: "count (held p) h = refs_of p h"
    using assms by (rule count_held_inv)
  have pos: "pe_state e \<noteq> Live 0" if "list_get (pages p) i = Some e" for e i
    using assms that by (auto simp: pool_inv_def list_get_Some_iff dest: nth_mem)
  have "(\<exists>e. live_entry p h = Ok e) \<longleftrightarrow> 0 < refs_of p h"
  proof (cases "list_get (pages p) (unat (ph_index h))")
    case None
    then show ?thesis by (simp add: live_entry_Ok_iff refs_of_def)
  next
    case (Some e)
    with pos [OF Some] show ?thesis
      by (cases "pe_state e") (auto simp: live_entry_Ok_iff refs_of_def is_live_iff)
  qed
  with cnt show ?thesis
    by (simp add: count_greater_zero_iff [symmetric] del: count_greater_zero_iff)
qed

lemma live_entry_state:
  assumes "pool_inv p" "live_entry p h = Ok e"
  obtains n where "pe_state e = Live n" "0 < n" "n \<le> usize_max" "count (held p) h = n"
    "pages p ! unat (ph_index h) = e" "unat (ph_index h) < length (pages p)"
    "pe_generation e = ph_generation h"
proof -
  from assms(2) have e: "list_get (pages p) (unat (ph_index h)) = Some e"
      "pe_generation e = ph_generation h" "is_live e"
    by (simp_all add: live_entry_Ok_iff)
  then obtain n where n: "pe_state e = Live n" by (auto simp: is_live_iff)
  from e have mem: "e \<in> set (pages p)" by (auto simp: list_get_Some_iff dest: nth_mem)
  with assms(1) n have "0 < n" "n \<le> usize_max"
    by (auto simp: pool_inv_def)
  moreover have "count (held p) h = n"
    using assms(1) e n by (simp add: count_held_inv refs_of_def)
  ultimately show thesis using that e n by (auto simp: list_get_Some_iff)
qed

lemma stale_iff:
  "pool_inv p \<Longrightarrow> live_entry p h = Err StaleHandle \<longleftrightarrow> h \<notin># held p"
  using live_entry_cases [of p h] live_entry_held [of p h] by auto

lemma references_eq:
  assumes "pool_inv p"
  shows "references p h = (if h \<in># held p then Ok (count (held p) h) else Err StaleHandle)"
proof (cases "h \<in># held p")
  case True
  with assms obtain e where e: "live_entry p h = Ok e" using live_entry_held by blast
  then obtain n where "pe_state e = Live n" "count (held p) h = n"
    using live_entry_state [OF assms] by metis
  with True e show ?thesis by (simp add: references_def)
next
  case False
  with assms have "live_entry p h = Err StaleHandle" by (simp add: stale_iff)
  with False show ?thesis by (simp add: references_def)
qed

lemma validate_iff: "pool_inv p \<Longrightarrow> validate p h \<longleftrightarrow> h \<in># held p"
proof -
  assume inv: "pool_inv p"
  have "validate p h \<longleftrightarrow> (\<exists>e. live_entry p h = Ok e)"
    by (auto simp: validate_def live_entry_Ok_iff split: option.splits)
  with inv show ?thesis by (simp add: live_entry_held)
qed

text \<open>Changing the state of one entry changes the references of its handle only.\<close>

lemma refs_of_set_state:
  assumes "unat (ph_index h) < length (pages p)"
    and "pe_generation (pages p ! unat (ph_index h)) = ph_generation h"
  shows "refs_of (set_state h st p) k =
    (if k = h then (case st of Live n \<Rightarrow> n | Vacant \<Rightarrow> 0) else refs_of p k)"
proof (cases "ph_index k = ph_index h")
  case True
  show ?thesis
  proof (cases "ph_generation k = ph_generation h")
    case gen: True
    with True have "k = h" by simp
    with assms show ?thesis
      by (simp add: refs_of_def set_state_def list_get_def entry_refs_def)
  next
    case False
    with True assms show ?thesis
      by (auto simp: refs_of_def set_state_def list_get_def)
  qed
next
  case False
  then have "unat (ph_index k) \<noteq> unat (ph_index h)" by (simp add: word_unat_eq_iff)
  with False show ?thesis
    by (auto simp: refs_of_def set_state_def list_get_def split: option.splits)
qed

section \<open>The operations keep the invariant and act on the multiset\<close>

lemma pool_inv_set_Live:
  assumes inv: "pool_inv p" and i: "unat (ph_index h) < length (pages p)"
    and live: "is_live (pages p ! unat (ph_index h))" and m: "0 < m" "m \<le> usize_max"
  shows "pool_inv (set_state h (Live m) p)"
proof -
  let ?i = "unat (ph_index h)"
  let ?e = "(pages p ! ?i)\<lparr>pe_state := Live m\<rparr>"
  have len: "length (filter is_live ((pages p)[?i := ?e])) = length (filter is_live (pages p))"
    using length_filter_update [OF i, of is_live ?e] live by (simp add: is_live_def)
  have vac: "{j. j < length (pages p) \<and> pe_state ((pages p)[?i := ?e] ! j) = Vacant} =
      {j. j < length (pages p) \<and> pe_state (pages p ! j) = Vacant}"
    using live i by (auto simp: nth_list_update is_live_iff)
  have all: "\<forall>e \<in> set ((pages p)[?i := ?e]). pe_state e \<noteq> Live 0 \<and> entry_refs e \<le> usize_max"
    using inv m by (intro all_set_update) (auto simp: pool_inv_def)
  from inv show ?thesis
    by (simp add: pool_inv_def set_state_def len vac all)
qed

lemma retain_law:
  assumes "pool_inv p" "h \<in># held p" "count (held p) h < usize_max"
  shows "\<exists>p'. retain h p = (Ok (), p') \<and> pool_inv p' \<and> held p' = add_mset h (held p)"
proof -
  from assms obtain e where e: "live_entry p h = Ok e" using live_entry_held by blast
  obtain n where n: "pe_state e = Live n" "0 < n" "count (held p) h = n"
      "pages p ! unat (ph_index h) = e" "unat (ph_index h) < length (pages p)"
      "pe_generation e = ph_generation h"
    using live_entry_state [OF assms(1) e] by metis
  let ?p' = "set_state h (Live (n + 1)) p"
  have inv: "pool_inv ?p'"
    using assms n by (intro pool_inv_set_Live) (auto simp: is_live_iff)
  have "retain h p = (Ok (), ?p')"
    using e n assms(3) by (simp add: retain_def checked_add_us_def)
  moreover have "held ?p' = add_mset h (held p)"
    by (rule multiset_eqI)
      (use n inv assms(1) in \<open>auto simp: count_held_inv refs_of_set_state\<close>)
  ultimately show ?thesis using inv by blast
qed

lemma retain_stale: "pool_inv p \<Longrightarrow> h \<notin># held p \<Longrightarrow> retain h p = (Err StaleHandle, p)"
  using stale_iff [of p h] by (simp add: retain_def)

lemma can_retain_eq:
  "pool_inv p \<Longrightarrow> can_retain p h =
    (if h \<notin># held p then Err StaleHandle
     else if count (held p) h < usize_max then Ok () else Err ReferenceOverflow)"
  by (simp add: can_retain_def references_eq checked_add_us_def)

lemma retain_overflow:
  assumes "pool_inv p" "h \<in># held p" "count (held p) h = usize_max"
  shows "retain h p = (Err ReferenceOverflow, p)"
proof -
  from assms obtain e where e: "live_entry p h = Ok e" using live_entry_held by blast
  obtain n where "pe_state e = Live n" "count (held p) h = n"
    using live_entry_state [OF assms(1) e] by metis
  with e assms(3) show ?thesis by (simp add: retain_def checked_add_us_def)
qed

text \<open>Releasing the last reference vacates the entry and pushes its index on the free stack.\<close>

lemma pool_inv_vacate:
  assumes inv: "pool_inv p" and i: "unat (ph_index h) < length (pages p)"
    and live: "is_live (pages p ! unat (ph_index h))"
  shows "pool_inv ((set_state h Vacant p)
      \<lparr>free := free p @ [ph_index h], allocated_pages := allocated_pages p - 1,
       reclaimed_pages := r, reclaimed_total := t\<rparr>)"
proof -
  let ?i = "unat (ph_index h)"
  let ?e = "(pages p ! ?i)\<lparr>pe_state := Vacant\<rparr>"
  have len: "length (filter is_live ((pages p)[?i := ?e])) = allocated_pages p - 1"
    using length_filter_update [OF i, of is_live ?e] live inv
    by (simp add: is_live_def pool_inv_def)
  have free: "unat ` set (free p) = {j. j < length (pages p) \<and> pe_state (pages p ! j) = Vacant}"
    using inv by (simp add: pool_inv_def)
  then have "?i \<notin> unat ` set (free p)"
    using live by (auto simp: is_live_iff)
  then have new: "ph_index h \<notin> set (free p)" by auto
  have vac: "{j. j < length (pages p) \<and> pe_state ((pages p)[?i := ?e] ! j) = Vacant} =
      insert ?i (unat ` set (free p))"
    unfolding free using i by (auto simp: nth_list_update)
  have all: "\<forall>e \<in> set ((pages p)[?i := ?e]). pe_state e \<noteq> Live 0 \<and> entry_refs e \<le> usize_max"
    using inv by (intro all_set_update) (auto simp: pool_inv_def)
  from inv show ?thesis
    by (auto simp: pool_inv_def set_state_def len vac all new)
qed

lemma refs_of_more [simp]:
  "refs_of (p\<lparr>free := f, allocated_pages := a, reclaimed_pages := r, reclaimed_total := t\<rparr>) = refs_of p"
  by (rule ext) (simp add: refs_of_def)

lemma release_law:
  assumes "pool_inv p" "h \<in># held p"
  shows "\<exists>p'. release h p = (Ok (), p') \<and> pool_inv p' \<and> held p' = held p - {#h#}"
proof -
  from assms obtain e where e: "live_entry p h = Ok e" using live_entry_held by blast
  obtain n where n: "pe_state e = Live n" "0 < n" "n \<le> usize_max" "count (held p) h = n"
      "pages p ! unat (ph_index h) = e" "unat (ph_index h) < length (pages p)"
      "pe_generation e = ph_generation h"
    using live_entry_state [OF assms(1) e] by metis
  have live: "is_live (pages p ! unat (ph_index h))" using n by (simp add: is_live_iff)
  define p' where "p' = snd (release h p)"
  have res: "release h p = (Ok (), p')"
    using e n by (simp add: release_def p'_def)
  have inv: "pool_inv p'"
    using e n live pool_inv_vacate [OF assms(1)] pool_inv_set_Live [OF assms(1)]
    by (simp add: release_def p'_def)
  have refs: "refs_of p' k = (if k = h then n - 1 else refs_of p k)" for k
    using e n by (simp add: release_def p'_def refs_of_set_state)
  have "held p' = held p - {#h#}"
    by (rule multiset_eqI)
      (use n inv assms(1) refs in \<open>auto simp: count_held_inv\<close>)
  with res inv show ?thesis by blast
qed

lemma release_stale: "pool_inv p \<Longrightarrow> h \<notin># held p \<Longrightarrow> release h p = (Err StaleHandle, p)"
  using stale_iff [of p h] by (simp add: release_def)

interpretation pool: refcounted_pages held pool_inv retain release usize_max
  by unfold_locales (fact retain_law, fact release_law)

section \<open>Allocation\<close>

text \<open>With no free index every page is live, so below capacity there is room for one more.\<close>

lemma no_free_all_live:
  assumes "pool_inv p" "free p = []"
  shows "allocated_pages p = length (pages p)"
proof -
  have "is_live e" if "e \<in> set (pages p)" for e
  proof -
    from that obtain j where j: "j < length (pages p)" "e = pages p ! j"
      by (metis in_set_conv_nth)
    from assms have "{j. j < length (pages p) \<and> pe_state (pages p ! j) = Vacant} = {}"
      by (simp add: pool_inv_def)
    with j have "pe_state e \<noteq> Vacant" by auto
    then show ?thesis by (cases "pe_state e") (auto simp: is_live_def)
  qed
  then have "filter is_live (pages p) = pages p" by (simp add: filter_id_conv)
  with assms(1) show ?thesis by (simp add: pool_inv_def)
qed

text \<open>What holds between \<open>take_index\<close> and the moment the entry goes live: the invariant, except
  that the taken index is vacant and no longer on the free stack.\<close>

definition taken :: "u32 \<Rightarrow> page_pool \<Rightarrow> bool" where
  "taken i p \<longleftrightarrow>
     length (pages p) \<le> capacity_pages p \<and> capacity_pages p \<le> 2 ^ 32 \<and>
     unat i < length (pages p) \<and> pe_state (pages p ! unat i) = Vacant \<and>
     distinct (free p) \<and>
     unat ` set (free p) =
       {j. j < length (pages p) \<and> pe_state (pages p ! j) = Vacant} - {unat i} \<and>
     (\<forall>e \<in> set (pages p). pe_state e \<noteq> Live 0 \<and> entry_refs e \<le> usize_max) \<and>
     allocated_pages p = length (filter is_live (pages p)) \<and>
     allocated_pages p < capacity_pages p \<and>
     high_watermark_pages p \<le> capacity_pages p"

lemma take_index_stack:
  assumes inv: "pool_inv p" and room: "allocated_pages p < capacity_pages p" and f: "free p \<noteq> []"
  shows "taken (last (free p)) (p\<lparr>free := butlast (free p)\<rparr>)"
proof -
  let ?i = "last (free p)"
  have img: "unat ` set (free p) = {j. j < length (pages p) \<and> pe_state (pages p ! j) = Vacant}"
    using inv by (simp add: pool_inv_def)
  have split: "free p = butlast (free p) @ [?i]" using f by simp
  have d: "distinct (butlast (free p))" "?i \<notin> set (butlast (free p))"
    using inv split by (metis pool_inv_def distinct_append distinct_butlast disjoint_iff list.set_intros(1))+
  have s: "set (free p) = insert ?i (set (butlast (free p)))"
    by (subst split) simp
  have "unat ?i \<notin> unat ` set (butlast (free p))"
    using d(2) by (auto simp: word_unat_eq_iff [symmetric])
  moreover have "unat ` set (free p) = insert (unat ?i) (unat ` set (butlast (free p)))"
    by (simp only: s image_insert)
  ultimately have img': "unat ` set (butlast (free p)) =
      {j. j < length (pages p) \<and> pe_state (pages p ! j) = Vacant} - {unat ?i}"
    unfolding img by blast
  have "unat ?i \<in> unat ` set (free p)" using f by simp
  then have "unat ?i < length (pages p)" "pe_state (pages p ! unat ?i) = Vacant"
    unfolding img by auto
  with inv room d(1) img' show ?thesis
    by (simp add: taken_def pool_inv_def)
qed

lemma take_index_grow:
  assumes inv: "pool_inv p" and room: "allocated_pages p < capacity_pages p" and f: "free p = []"
  shows "taken (of_nat (length (pages p)))
    (p\<lparr>pages := pages p @ [\<lparr>pe_generation = 0, pe_state = Vacant\<rparr>]\<rparr>)"
proof -
  let ?n = "length (pages p)"
  have lt: "?n < capacity_pages p" using no_free_all_live [OF inv f] room by simp
  moreover have "capacity_pages p \<le> 2 ^ 32" using inv by (simp add: pool_inv_def)
  ultimately have "?n < 2 ^ LENGTH(32)" by simp
  then have u: "unat (of_nat ?n :: u32) = ?n" by (rule unat_of_nat_small)
  have "{j. j < ?n \<and> pe_state (pages p ! j) = Vacant} = {}"
    using inv f by (simp add: pool_inv_def)
  then have "{j. j < Suc ?n \<and> pe_state ((pages p @ [\<lparr>pe_generation = 0, pe_state = Vacant\<rparr>]) ! j) = Vacant}
      - {?n} = {}"
    by (auto simp: nth_append)
  with inv room lt f u show ?thesis
    by (auto simp: taken_def pool_inv_def is_live_def)
qed

lemma refs_of_free [simp]: "refs_of (p\<lparr>free := f\<rparr>) = refs_of p"
  by (rule ext) (simp add: refs_of_def)

lemma refs_of_append_vacant [simp]:
  "refs_of (p\<lparr>pages := pages p @ [\<lparr>pe_generation = g, pe_state = Vacant\<rparr>]\<rparr>) = refs_of p"
  by (rule ext) (auto simp: refs_of_def list_get_def nth_append less_Suc_eq
      split: option.splits)

lemma take_index_law:
  assumes "pool_inv p" "allocated_pages p < capacity_pages p" "take_index p = (i, p1)"
  shows "taken i p1" "refs_of p1 = refs_of p" "allocated_pages p1 = allocated_pages p"
    "capacity_pages p1 = capacity_pages p"
  using assms take_index_stack [OF assms(1,2)] take_index_grow [OF assms(1,2)]
  by (auto simp: take_index_def split: if_splits)

lemma taken_fill:
  assumes "taken i p"
  shows "pool_inv (p\<lparr>pages := (pages p)[unat i := \<lparr>pe_generation = g, pe_state = Live 1\<rparr>],
    allocated_pages := allocated_pages p + 1,
    high_watermark_pages := max (high_watermark_pages p) (allocated_pages p + 1),
    total_allocations := t\<rparr>)"
proof -
  let ?e = "\<lparr>pe_generation = g, pe_state = Live 1\<rparr>"
  have i: "unat i < length (pages p)" "pe_state (pages p ! unat i) = Vacant"
    using assms by (simp_all add: taken_def)
  have len: "length (filter is_live ((pages p)[unat i := ?e])) = length (filter is_live (pages p)) + 1"
    using length_filter_update [OF i(1), of is_live ?e] i(2) by (simp add: is_live_def)
  have vac: "{j. j < length (pages p) \<and> pe_state ((pages p)[unat i := ?e] ! j) = Vacant} =
      {j. j < length (pages p) \<and> pe_state (pages p ! j) = Vacant} - {unat i}"
    using i by (auto simp: nth_list_update)
  have all: "\<forall>e \<in> set ((pages p)[unat i := ?e]). pe_state e \<noteq> Live 0 \<and> entry_refs e \<le> usize_max"
    using assms by (intro all_set_update) (auto simp: taken_def usize_max_def)
  from assms show ?thesis
    by (simp add: pool_inv_def taken_def len vac all del: One_nat_def)
qed

lemma allocate_one_law:
  assumes inv: "pool_inv p" and room: "allocated_pages p < capacity_pages p"
  shows "\<exists>h p'. allocate_one p = (Ok h, p') \<and> pool_inv p' \<and> held p' = add_mset h (held p) \<and>
    (\<forall>k \<in># held p. ph_index k \<noteq> ph_index h) \<and>
    allocated_pages p' = allocated_pages p + 1 \<and> capacity_pages p' = capacity_pages p"
proof -
  obtain i p1 where ti: "take_index p = (i, p1)" by (cases "take_index p")
  note t = take_index_law [OF inv room ti]
  let ?entry = "pages p1 ! unat i"
  let ?g = "next_generation (pe_generation ?entry)"
  define p' where "p' = snd (allocate_one p)"
  let ?h = "\<lparr>ph_index = i, ph_generation = ?g\<rparr>"
  have i: "unat i < length (pages p1)" "pe_state ?entry = Vacant"
    using t(1) by (simp_all add: taken_def)
  have res: "allocate_one p = (Ok ?h, p')"
    using ti i by (simp add: allocate_one_def p'_def list_get_def Let_def)
  have inv': "pool_inv p'"
    using ti i taken_fill [OF t(1)] by (simp add: allocate_one_def p'_def list_get_def Let_def)
  have zero: "refs_of p k = 0" if "ph_index k = i" for k
    unfolding t(2) [symmetric] using that i by (simp add: refs_of_def list_get_def)
  then have fresh: "\<forall>k \<in># held p. ph_index k \<noteq> i"
    by (auto simp: count_held_inv [OF inv] set_mset_def)
  have refs: "refs_of p' k = (if k = ?h then 1 else refs_of p k)" for k
  proof (cases "ph_index k = i")
    case True
    then show ?thesis
      using zero [OF True] ti i
      by (cases k) (auto simp: allocate_one_def p'_def list_get_def Let_def refs_of_def)
  next
    case False
    then have "unat (ph_index k) \<noteq> unat i" by (simp add: word_unat_eq_iff)
    then have "refs_of p' k = refs_of p1 k"
      using ti i by (simp add: allocate_one_def p'_def list_get_def Let_def refs_of_def)
    with False t(2) show ?thesis by auto
  qed
  have "held p' = add_mset ?h (held p)"
    by (rule multiset_eqI)
      (use refs zero in \<open>auto simp: count_held_inv [OF inv] count_held_inv [OF inv']\<close>)
  moreover have "allocated_pages p' = allocated_pages p + 1" "capacity_pages p' = capacity_pages p"
    using ti i t(3,4) by (simp_all add: allocate_one_def p'_def list_get_def Let_def)
  ultimately show ?thesis using res inv' fresh by auto
qed

text \<open>The allocation loop hands out \<open>n\<close> handles with distinct, previously unheld indices.\<close>

lemma allocate_many_law:
  assumes "pool_inv p" "n \<le> capacity_pages p - allocated_pages p"
  shows "\<exists>new p'. allocate_many n hs p = (Ok (hs @ new), p') \<and> length new = n \<and> pool_inv p' \<and>
    held p' = held p + mset new \<and> distinct (map ph_index new) \<and>
    (\<forall>k \<in># held p. ph_index k \<notin> ph_index ` set new) \<and>
    allocated_pages p' = allocated_pages p + n \<and> capacity_pages p' = capacity_pages p"
  using assms
proof (induction n arbitrary: hs p)
  case 0
  then show ?case by simp
next
  case (Suc n)
  then have room: "allocated_pages p < capacity_pages p" by simp
  from allocate_one_law [OF Suc.prems(1) room] obtain h p1 where
    a: "allocate_one p = (Ok h, p1)" "pool_inv p1" "held p1 = add_mset h (held p)"
      "\<forall>k \<in># held p. ph_index k \<noteq> ph_index h"
      "allocated_pages p1 = allocated_pages p + 1" "capacity_pages p1 = capacity_pages p"
    by blast
  have "n \<le> capacity_pages p1 - allocated_pages p1" using Suc.prems(2) a by simp
  from Suc.IH [OF a(2) this, of "hs @ [h]"] obtain new p' where
    b: "allocate_many n (hs @ [h]) p1 = (Ok ((hs @ [h]) @ new), p')" "length new = n"
      "pool_inv p'" "held p' = held p1 + mset new" "distinct (map ph_index new)"
      "\<forall>k \<in># held p1. ph_index k \<notin> ph_index ` set new"
      "allocated_pages p' = allocated_pages p1 + n" "capacity_pages p' = capacity_pages p1"
    by blast
  show ?case
    by (rule exI [of _ "h # new"], rule exI [of _ p']) (use a b in auto)
qed

lemma reserve_law:
  assumes "pool_inv p" "n \<le> capacity_pages p - allocated_pages p"
  shows "\<exists>hs p'. reserve n p = (Ok hs, p') \<and> length hs = n \<and> pool_inv p' \<and>
    held p' = held p + mset hs \<and> distinct (map ph_index hs) \<and>
    (\<forall>k \<in># held p. ph_index k \<notin> ph_index ` set hs) \<and>
    allocated_pages p' = allocated_pages p + n \<and> capacity_pages p' = capacity_pages p"
  using allocate_many_law [OF assms, of "[]"] assms(2) by (auto simp: reserve_def Let_def)

lemma reserve_exhausted:
  assumes "pool_inv p" "capacity_pages p - allocated_pages p < n"
  shows "\<exists>p'. reserve n p = (Err (CapacityExhausted n (capacity_pages p - allocated_pages p)), p') \<and>
    pool_inv p' \<and> held p' = held p"
  using assms by (auto simp: reserve_def Let_def pool_inv_def held_def handle_at_def)

text \<open>The number of distinct held handles is \<open>allocated_pages\<close>, and the resident pages are the
  allocated ones and the free ones.\<close>

lemma free_allocated:
  assumes "pool_inv p"
  shows "length (free p) + allocated_pages p = length (pages p)"
proof -
  have vac: "pe_state e = Vacant \<longleftrightarrow> \<not> is_live e" for e
    by (cases "pe_state e") (auto simp: is_live_def)
  have "length (free p) = card (unat ` set (free p))"
  proof -
    have "distinct (free p)" using assms by (simp add: pool_inv_def)
    then show ?thesis by (simp only: card_image [OF image_unat_inj] distinct_card)
  qed
  also have "\<dots> = length (filter (\<lambda>e. \<not> is_live e) (pages p))"
    using assms by (simp add: pool_inv_def vac length_filter_conv_card)
  finally show ?thesis
    using assms sum_length_filter_compl [of is_live "pages p"] by (simp add: pool_inv_def)
qed

section \<open>Stale handles stay stale\<close>

text \<open>
  What the owner of a pool may do with its pages after a release: reserve pages, retain and release
  handles, in any order and with any handles. A run returns the handles it handed out.
\<close>

datatype pool_op = Op_Reserve usize | Op_Retain page_handle | Op_Release page_handle

fun pool_op_step :: "pool_op \<Rightarrow> page_pool \<Rightarrow> page_handle list \<times> page_pool" where
  "pool_op_step (Op_Reserve n) p =
     (case reserve n p of (Ok hs, p') \<Rightarrow> (hs, p') | (_, p') \<Rightarrow> ([], p'))"
| "pool_op_step (Op_Retain h) p = ([], snd (retain h p))"
| "pool_op_step (Op_Release h) p = ([], snd (release h p))"

fun pool_run :: "pool_op list \<Rightarrow> page_pool \<Rightarrow> page_handle list \<times> page_pool" where
  "pool_run [] p = ([], p)"
| "pool_run (x # xs) p =
     (let (hs, p1) = pool_op_step x p; (hs', p2) = pool_run xs p1 in (hs @ hs', p2))"

text \<open>The page of \<open>k\<close> was reissued \<open>m\<close> times since \<open>k\<close> was released: its generation is that of \<open>k\<close>
  advanced \<open>m\<close> times, and it is vacant when \<open>m\<close> is 0.\<close>

definition aged :: "page_pool \<Rightarrow> page_handle \<Rightarrow> nat \<Rightarrow> bool" where
  "aged p k m \<longleftrightarrow> (\<exists>e. list_get (pages p) (unat (ph_index k)) = Some e \<and>
     pe_generation e = (next_generation ^^ m) (ph_generation k) \<and> (m = 0 \<longrightarrow> pe_state e = Vacant))"

definition reissues :: "page_handle \<Rightarrow> page_handle list \<Rightarrow> nat" where
  "reissues k hs = length (filter (\<lambda>h. ph_index h = ph_index k) hs)"

lemma reissues_simps [simp]:
  "reissues k [] = 0"
  "reissues k (h # hs) = (if ph_index h = ph_index k then 1 else 0) + reissues k hs"
  "reissues k (xs @ ys) = reissues k xs + reissues k ys"
  by (simp_all add: reissues_def)

lemma allocate_one_generation:
  assumes "allocate_one p = (Ok h, p')" "list_get (pages p) (unat (ph_index h)) = Some e"
  shows "ph_generation h = next_generation (pe_generation e)"
    "\<exists>e'. list_get (pages p') (unat (ph_index h)) = Some e' \<and> pe_generation e' = ph_generation h"
  using assms
  by (auto simp: allocate_one_def take_index_def Let_def list_get_def nth_append
      split: if_splits option.splits prod.splits)

lemma allocate_one_frame:
  assumes "allocate_one p = (Ok h, p')" "i < length (pages p)" "i \<noteq> unat (ph_index h)"
  shows "list_get (pages p') i = list_get (pages p) i"
  using assms
  by (auto simp: allocate_one_def take_index_def Let_def list_get_def nth_append
      split: if_splits option.splits prod.splits)

lemma aged_not_held:
  assumes "aged p k m" "m < 2 ^ 64 - 1" "pool_inv p"
  shows "k \<notin># held p"
proof -
  from assms(1) obtain e where e: "list_get (pages p) (unat (ph_index k)) = Some e"
    "pe_generation e = (next_generation ^^ m) (ph_generation k)" "m = 0 \<longrightarrow> pe_state e = Vacant"
    by (auto simp: aged_def)
  have "refs_of p k = 0"
  proof (cases "m = 0")
    case True
    with e show ?thesis by (simp add: refs_of_def)
  next
    case False
    then have "pe_generation e \<noteq> ph_generation k"
      using next_generation_pow_neq [of m] assms(2) e(2) by simp
    with e(1) show ?thesis by (simp add: refs_of_def)
  qed
  then show ?thesis using count_held_inv [OF assms(3), of k] by (simp add: count_eq_zero_iff)
qed

lemma aged_allocate_one:
  assumes "aged p k m" "allocate_one p = (Ok h, p')" "m + reissues k [h] < 2 ^ 64 - 1"
  shows "h \<noteq> k \<and> aged p' k (m + reissues k [h])"
proof -
  from assms(1) obtain e where e: "list_get (pages p) (unat (ph_index k)) = Some e"
    "pe_generation e = (next_generation ^^ m) (ph_generation k)" "m = 0 \<longrightarrow> pe_state e = Vacant"
    by (auto simp: aged_def)
  show ?thesis
  proof (cases "ph_index h = ph_index k")
    case True
    then have "ph_generation h = (next_generation ^^ Suc m) (ph_generation k)"
      "\<exists>e'. list_get (pages p') (unat (ph_index k)) = Some e' \<and> pe_generation e' = ph_generation h"
      using allocate_one_generation [OF assms(2), of e] e by simp_all
    moreover have "(next_generation ^^ Suc m) (ph_generation k) \<noteq> ph_generation k"
      using assms(3) True by (intro next_generation_pow_neq) simp_all
    ultimately show ?thesis using True unfolding aged_def by auto
  next
    case False
    then have "unat (ph_index k) \<noteq> unat (ph_index h)" by (simp add: word_unat_eq_iff)
    then have "list_get (pages p') (unat (ph_index k)) = Some e"
      using allocate_one_frame [OF assms(2)] e(1) by (simp add: list_get_Some_iff)
    with False e show ?thesis by (auto simp: aged_def)
  qed
qed

lemma aged_allocate_many:
  "pool_inv p \<Longrightarrow> n \<le> capacity_pages p - allocated_pages p \<Longrightarrow> aged p k m \<Longrightarrow>
    allocate_many n hs p = (Ok (hs @ new), p') \<Longrightarrow> m + reissues k new < 2 ^ 64 - 1 \<Longrightarrow>
    k \<notin> set new \<and> aged p' k (m + reissues k new)"
proof (induction n arbitrary: hs p m new)
  case 0
  then show ?case by simp
next
  case (Suc n)
  then have room: "allocated_pages p < capacity_pages p" by simp
  from allocate_one_law [OF Suc.prems(1) room] obtain h p1 where
    a: "allocate_one p = (Ok h, p1)" "pool_inv p1"
      "allocated_pages p1 = allocated_pages p + 1" "capacity_pages p1 = capacity_pages p"
    by blast
  have n: "n \<le> capacity_pages p1 - allocated_pages p1" using Suc.prems(2) a by simp
  from allocate_many_law [OF a(2) n, of "hs @ [h]"] obtain more where
    "allocate_many n (hs @ [h]) p1 = (Ok ((hs @ [h]) @ more), p')"
    using Suc.prems(4) a(1) by auto
  moreover from this have new: "new = h # more" using Suc.prems(4) a(1) by simp
  moreover have "h \<noteq> k \<and> aged p1 k (m + reissues k [h])"
    using Suc.prems(5) new by (intro aged_allocate_one [OF Suc.prems(3) a(1)]) simp
  ultimately show ?case
    using Suc.IH [OF a(2) n, of "m + reissues k [h]" "hs @ [h]" more] Suc.prems(5) by (auto simp: add.assoc)
qed

text \<open>Retaining and releasing change no generation and revive no page.\<close>

lemma aged_set_state:
  "aged p k m \<Longrightarrow> is_live (pages p ! unat (ph_index h)) \<Longrightarrow> aged (set_state h st p) k m"
  by (cases "unat (ph_index h) = unat (ph_index k)")
    (auto simp: aged_def set_state_def list_get_def is_live_def split: if_splits)

lemma aged_more [simp]:
  "aged (p\<lparr>free := f, allocated_pages := a, reclaimed_pages := r, reclaimed_total := t\<rparr>) k m = aged p k m"
  by (simp add: aged_def)

lemma live_entry_is_live: "live_entry p h = Ok e \<Longrightarrow> is_live (pages p ! unat (ph_index h))"
  by (auto simp: live_entry_Ok_iff list_get_Some_iff)

lemma aged_retain: "aged p k m \<Longrightarrow> aged (snd (retain h p)) k m"
  using live_entry_is_live [of p h]
  by (auto simp: retain_def aged_set_state split: outcome.splits page_state.splits option.splits)

lemma aged_release: "aged p k m \<Longrightarrow> aged (snd (release h p)) k m"
  using live_entry_is_live [of p h]
  by (auto simp: release_def aged_set_state split: outcome.splits page_state.splits)

lemma retain_inv: "pool_inv p \<Longrightarrow> pool_inv (snd (retain h p))"
proof (cases "h \<in># held p")
  case True
  assume inv: "pool_inv p"
  have "count (held p) h \<le> usize_max"
    using live_entry_held [OF inv, of h] live_entry_state [OF inv] True by metis
  then consider "count (held p) h < usize_max" | "count (held p) h = usize_max" by linarith
  then show ?thesis
    using retain_law [OF inv True] retain_overflow [OF inv True] inv by cases auto
qed (simp add: retain_stale)

lemma release_inv: "pool_inv p \<Longrightarrow> pool_inv (snd (release h p))"
  using release_law [of p h] release_stale [of p h] by (cases "h \<in># held p") auto

lemma aged_step:
  assumes "pool_inv p" "aged p k m" "pool_op_step x p = (hs, p')" "m + reissues k hs < 2 ^ 64 - 1"
  shows "pool_inv p' \<and> k \<notin> set hs \<and> aged p' k (m + reissues k hs)"
proof (cases x)
  case (Op_Reserve n)
  show ?thesis
  proof (cases "n \<le> capacity_pages p - allocated_pages p")
    case True
    then have r: "reserve n p = allocate_many n [] p" by (simp add: reserve_def Let_def)
    with reserve_law [OF assms(1) True] Op_Reserve assms(3)
    have "allocate_many n [] p = (Ok ([] @ hs), p')" "pool_inv p'" by auto
    with aged_allocate_many [OF assms(1) True assms(2) this(1) assms(4)] show ?thesis by simp
  next
    case False
    then show ?thesis
      using reserve_exhausted [OF assms(1), of n] Op_Reserve assms(2,3)
      by (auto simp: reserve_def Let_def aged_def)
  qed
next
  case (Op_Retain h)
  then show ?thesis using assms aged_retain retain_inv by auto
next
  case (Op_Release h)
  then show ?thesis using assms aged_release release_inv by auto
qed

lemma aged_run:
  "pool_inv p \<Longrightarrow> aged p k m \<Longrightarrow> pool_run xs p = (hs, p') \<Longrightarrow> m + reissues k hs < 2 ^ 64 - 1 \<Longrightarrow>
    pool_inv p' \<and> k \<notin> set hs \<and> aged p' k (m + reissues k hs)"
proof (induction xs arbitrary: p m hs)
  case Nil
  then show ?case by simp
next
  case (Cons x xs)
  obtain hs1 p1 where x: "pool_op_step x p = (hs1, p1)" by (cases "pool_op_step x p")
  obtain hs2 where xs: "pool_run xs p1 = (hs2, p')" "hs = hs1 @ hs2"
    using Cons.prems(3) x by (auto split: prod.splits)
  have "pool_inv p1 \<and> k \<notin> set hs1 \<and> aged p1 k (m + reissues k hs1)"
    using Cons.prems(4) xs(2) by (intro aged_step [OF Cons.prems(1,2) x]) simp
  with Cons.IH [of p1 "m + reissues k hs1" hs2] xs Cons.prems(4) show ?case by (simp add: add.assoc)
qed

lemma release_last_ages:
  assumes inv: "pool_inv p" and one: "count (held p) h = 1" and res: "release h p = (Ok (), p')"
  shows "pool_inv p' \<and> aged p' h 0"
proof -
  have mem: "h \<in># held p" using one by (metis count_eq_zero_iff zero_neq_one)
  obtain e where e: "live_entry p h = Ok e" using inv mem live_entry_held by blast
  obtain n where n: "pe_state e = Live n" "count (held p) h = n" "pages p ! unat (ph_index h) = e"
      "unat (ph_index h) < length (pages p)" "pe_generation e = ph_generation h"
    using live_entry_state [OF inv e] by metis
  have "aged p' h 0"
    using res e n one by (auto simp: release_def aged_def set_state_def list_get_def)
  with release_inv [OF inv, of h] res show ?thesis by simp
qed

section \<open>Properties of the pool\<close>

lemma row_bytes_Ok_iff:
  "row_bytes l = Ok n \<longleftrightarrow>
    (storage l = PageF16 \<and> n = head_dim l * 2 \<and> n \<le> usize_max) \<or>
    (storage l = PageQ8_0 \<and> head_dim l mod 32 = 0 \<and> n = head_dim l div 32 * 34 \<and> n \<le> usize_max)"
  by (cases "storage l") (auto simp: row_bytes_def checked_mul_us_Some_iff)

text \<open>The bytes of one row of a head: two bytes per value, or 34 bytes per block of 32.\<close>

definition row_bytes_exact :: "page_layout \<Rightarrow> nat" where
  "row_bytes_exact l =
     (case storage l of PageF16 \<Rightarrow> head_dim l * 2 | PageQ8_0 \<Rightarrow> head_dim l div 32 * 34)"

definition layout_ok :: "page_layout \<Rightarrow> bool" where
  "layout_ok l \<longleftrightarrow> layer_count l > 0 \<and> kv_head_count l > 0 \<and> head_dim l > 0 \<and>
     (storage l = PageQ8_0 \<longrightarrow> head_dim l mod 32 = 0)"

lemma row_bytes_exact_pos: "layout_ok l \<Longrightarrow> 0 < row_bytes_exact l"
  by (auto simp: row_bytes_exact_def layout_ok_def split: page_storage.splits)

lemma checked_mul_chain:
  assumes "0 < a" "0 < b" "0 < r"
  shows "Option.bind (checked_mul_us a b) (\<lambda>v. Option.bind (checked_mul_us v 16) (\<lambda>v.
      Option.bind (checked_mul_us v 2) (\<lambda>v. checked_mul_us v r))) =
    (if a * b * 16 * 2 * r \<le> usize_max then Some (a * b * 16 * 2 * r) else None)"
proof (cases "a * b * 16 * 2 * r \<le> usize_max")
  case True
  have "a * b * 16 * 2 \<le> a * b * 16 * 2 * r" using assms by simp
  with True have "a * b * 16 * 2 \<le> usize_max" by (rule le_trans [rotated])
  moreover from this have "a * b * 16 \<le> usize_max" "a * b \<le> usize_max" by linarith+
  ultimately show ?thesis using True by (simp add: checked_mul_us_def)
next
  case False
  then show ?thesis by (auto simp: checked_mul_us_def bind_eq_None_conv)
qed

text \<open>Page geometry. \<open>page_bytes\<close> succeeds exactly on the well-formed layouts whose exact
  page size (layers times KV heads times 16 tokens times 2 for K and V times the row bytes) fits
  in a \<open>usize\<close>, and then returns that size; on a well-formed layout it fails only because the
  exact size does not fit, never because an intermediate product overflowed first.
\<close>
theorem page_bytes_exact:
  "page_bytes l =
     (let n = layer_count l * kv_head_count l * 16 * 2 * row_bytes_exact l in
      if \<not> layout_ok l then Err InvalidLayout
      else if n \<le> usize_max then Ok n else Err LayoutOverflow)"
proof (cases "layout_ok l")
  case False
  then show ?thesis
    by (auto simp: page_bytes_def layout_ok_def row_bytes_def Let_def split: page_storage.splits)
next
  case True
  let ?r = "row_bytes_exact l" and ?a = "layer_count l" and ?b = "kv_head_count l"
  have pos: "0 < ?a" "0 < ?b" "0 < ?r"
    using True row_bytes_exact_pos by (auto simp: layout_ok_def)
  have row: "row_bytes l = (if ?r \<le> usize_max then Ok ?r else Err LayoutOverflow)"
    using True by (auto simp: row_bytes_def row_bytes_exact_def layout_ok_def checked_mul_us_def
        split: page_storage.splits)
  show ?thesis
  proof (cases "?r \<le> usize_max")
    case r: True
    then show ?thesis
      using True pos
      by (auto simp: page_bytes_def row CUDA_KV_PAGE_TOKENS_def checked_mul_chain Let_def layout_ok_def)
  next
    case False
    have "?r \<le> ?a * ?b * 16 * 2 * ?r" using pos by simp
    with False have "\<not> ?a * ?b * 16 * 2 * ?r \<le> usize_max" by linarith
    with False True show ?thesis
      by (auto simp: page_bytes_def row Let_def layout_ok_def)
  qed
qed

lemma pool_new_inv:
  "pool_new l c = Ok p \<Longrightarrow> c \<le> 2 ^ 32 \<Longrightarrow> pool_inv p \<and> held p = {#}"
  by (auto simp: pool_new_def bindR_Ok_iff pool_inv_def held_def split: if_splits)

text \<open>Reservation. On a well-formed pool a reservation of \<open>n\<close> pages either succeeds with
  exactly \<open>n\<close> handles whose page indices are pairwise distinct and none of which was held before,
  each held exactly once afterwards, or fails without taking a page; it succeeds exactly when
  \<open>n\<close> pages are available. It never panics and keeps the pool well formed.
\<close>
theorem reserve_correct:
  assumes "pool_inv p"
  shows "(\<exists>hs p'. reserve n p = (Ok hs, p') \<and> n \<le> capacity_pages p - allocated_pages p \<and>
            length hs = n \<and> distinct (map ph_index hs) \<and> held p' = held p + mset hs \<and>
            (\<forall>h \<in> set hs. h \<notin># held p \<and> references p' h = Ok 1) \<and> pool_inv p') \<or>
         (\<exists>p'. reserve n p = (Err (CapacityExhausted n (capacity_pages p - allocated_pages p)), p') \<and>
            capacity_pages p - allocated_pages p < n \<and> held p' = held p \<and> pool_inv p')"
proof (cases "n \<le> capacity_pages p - allocated_pages p")
  case True
  from reserve_law [OF assms True] obtain hs p' where
    r: "reserve n p = (Ok hs, p')" "length hs = n" "pool_inv p'" "held p' = held p + mset hs"
      "distinct (map ph_index hs)" "\<forall>k \<in># held p. ph_index k \<notin> ph_index ` set hs"
    by blast
  have "h \<notin># held p \<and> references p' h = Ok 1" if h: "h \<in> set hs" for h
  proof -
    from h r(6) have n: "h \<notin># held p" by auto
    have "distinct hs" using r(5) by (simp add: distinct_map)
    then have "count (mset hs) h = 1" using h by (simp add: distinct_count_atmost_1)
    with n have "count (held p') h = 1" using r(4) by (simp add: not_in_iff)
    moreover have "h \<in># held p'" using r(4) h by simp
    ultimately show ?thesis using n r(3) by (simp add: references_eq)
  qed
  with True r show ?thesis by blast
next
  case False
  with reserve_exhausted [OF assms] show ?thesis by (simp add: not_le) blast
qed

definition demo_layout :: page_layout where
  "demo_layout = \<lparr>layer_count = 2, kv_head_count = 1, head_dim = 32, storage = PageQ8_0\<rparr>"

definition demo_pool :: page_pool where
  "demo_pool =
     \<lparr>pool_layout = demo_layout, pool_page_bytes = 2176, capacity_pages = 3, pages = [],
      free = [], allocated_pages = 0, high_watermark_pages = 0, total_allocations = 0,
      allocation_failures = 0, reclaimed_pages = 0, failures_total = 0, reclaimed_total = 0\<rparr>"

lemma demo_pool_new: "pool_new demo_layout 3 = Ok demo_pool"
  by code_simp

lemma demo_pool_inv: "pool_inv demo_pool" "held demo_pool = {#}"
  using pool_new_inv [OF demo_pool_new] by simp_all

theorem reserve_correct_witness:
  "pool_inv demo_pool \<and> (\<exists>hs p'. reserve 2 demo_pool = (Ok hs, p') \<and> length hs = 2 \<and> held p' = mset hs)"
  using reserve_correct [OF demo_pool_inv(1), of 2] demo_pool_inv
  by (auto simp: demo_pool_def)

text \<open>C33. No use after free. Once the last reference to a page is released its handle is stale, and
  it stays so whatever is then reserved, retained and released, by any handles, while the page is
  reissued fewer than 2^64 - 1 times (the period of the generation counter, which skips 0): the
  handle is never handed out again, it does not validate, and it can be neither retained nor
  released. Two leases of one page are therefore never mistaken for each other.
\<close>
theorem released_handle_stays_stale:
  assumes "pool_inv p" and "count (held p) h = 1" and "release h p = (Ok (), p1)"
    and "pool_run ops p1 = (hs, p2)" and "reissues h hs < 2 ^ 64 - 1"
  shows "h \<notin> set hs \<and> retain h p2 = (Err StaleHandle, p2) \<and> release h p2 = (Err StaleHandle, p2) \<and>
    \<not> validate p2 h"
proof -
  from release_last_ages [OF assms(1-3)] have "pool_inv p1" "aged p1 h 0" by simp_all
  from aged_run [OF this assms(4)] assms(5)
  have r: "pool_inv p2" "h \<notin> set hs" "aged p2 h (reissues h hs)" by simp_all
  from aged_not_held [OF r(3) assms(5) r(1)] r(1,2) show ?thesis
    by (simp add: retain_stale release_stale validate_iff)
qed

definition demo_handle :: page_handle where
  "demo_handle = \<lparr>ph_index = 0, ph_generation = 1\<rparr>"

definition demo_pool1 :: page_pool where
  "demo_pool1 = snd (reserve 1 demo_pool)"

lemma demo_reserve1: "reserve 1 demo_pool = (Ok [demo_handle], demo_pool1)"
  by code_simp

lemma demo_pool1_inv: "pool_inv demo_pool1" "held demo_pool1 = {#demo_handle#}"
  using reserve_law [OF demo_pool_inv(1), of 1] demo_reserve1 demo_pool_inv(2)
  by (simp_all add: demo_pool_def)

definition demo_pool2 :: page_pool where
  "demo_pool2 = snd (release demo_handle demo_pool1)"

definition demo_ops :: "pool_op list" where
  "demo_ops = [Op_Reserve 1, Op_Retain demo_handle, Op_Release (demo_handle\<lparr>ph_generation := 2\<rparr>), Op_Reserve 2]"

definition demo_handed :: "page_handle list" where
  "demo_handed = [demo_handle\<lparr>ph_generation := 2\<rparr>, demo_handle\<lparr>ph_generation := 3\<rparr>,
     \<lparr>ph_index = 1, ph_generation = 1\<rparr>]"

lemma demo_release: "release demo_handle demo_pool1 = (Ok (), demo_pool2)"
  by code_simp

lemma demo_run: "pool_run demo_ops demo_pool2 = (demo_handed, snd (pool_run demo_ops demo_pool2))"
  by code_simp

theorem released_handle_stays_stale_witness:
  "demo_handle \<notin> set demo_handed \<and> length demo_handed = 3 \<and>
   \<not> validate (snd (pool_run demo_ops demo_pool2)) demo_handle"
  using released_handle_stays_stale [OF demo_pool1_inv(1) _ demo_release demo_run]
  by (simp add: demo_pool1_inv demo_handed_def demo_handle_def)

end
