(* ===== verification/Paged_Table.thy ===== *)
theory Paged_Table
  imports Paged_Pool
begin

text \<open>
  Page tables of the paged CUDA KV cache (\<open>src/src/inference/cuda_paged_kv.rs\<close>,
  \<open>PendingCudaKvAppend\<close>, \<open>PendingCudaKvBatchAppend\<close>, \<open>CudaKvPageTable\<close>): two-phase appends
  (prepare, then commit or abort), copy-on-write of shared pages, forking, truncation and
  release. A table operation works on a table and on the pool of \<open>Paged_Pool\<close>; the lemmas rest
  on the pool's contract, the multiset \<open>held\<close> of outstanding references.
\<close>

section \<open>Pending appends and tables\<close>

datatype pending_kind = Existing | New | CopyOnWrite page_handle

record pending_append =
  pa_sequence_id :: u64
  pa_expected_tokens :: usize
  pa_logical_page :: usize
  pa_token_offset :: usize
  pa_target :: page_handle
  pa_kind :: pending_kind

definition copy_source :: "pending_append \<Rightarrow> page_handle option" where
  "copy_source a =
     (case pa_kind a of CopyOnWrite source \<Rightarrow> Some source | Existing \<Rightarrow> None | New \<Rightarrow> None)"

record pending_batch =
  pb_sequence_id :: u64
  pb_expected_tokens :: usize
  pb_additions :: "pending_append list"

definition allocates :: "pending_append \<Rightarrow> bool" where
  "allocates a = (case pa_kind a of New \<Rightarrow> True | CopyOnWrite _ \<Rightarrow> True | Existing \<Rightarrow> False)"

definition batch_allocated_pages :: "pending_batch \<Rightarrow> page_handle list" where
  "batch_allocated_pages b = map pa_target (filter allocates (pb_additions b))"

definition batch_copy_on_write_pages :: "pending_batch \<Rightarrow> (page_handle \<times> page_handle) list" where
  "batch_copy_on_write_pages b =
     List.map_filter
       (\<lambda>a. case pa_kind a of CopyOnWrite source \<Rightarrow> Some (source, pa_target a) | _ \<Rightarrow> None)
       (pb_additions b)"

record page_table =
  pt_sequence_id :: u64
  pt_pages :: "page_handle list"
  pt_tokens :: usize

definition table_new :: "u64 \<Rightarrow> page_table" where
  "table_new sid = \<lparr>pt_sequence_id = sid, pt_pages = [], pt_tokens = 0\<rparr>"

definition logical_to_physical :: "page_table \<Rightarrow> usize \<Rightarrow> (page_handle \<times> usize) option" where
  "logical_to_physical t pos =
     (if pt_tokens t \<le> pos then None
      else map_option (\<lambda>page. (page, pos mod CUDA_KV_PAGE_TOKENS))
             (list_get (pt_pages t) (pos div CUDA_KV_PAGE_TOKENS)))"

section \<open>Planning\<close>

text \<open>One iteration of the loop of \<open>planned_pages_after_batch\<close>.\<close>

definition plan_one ::
  "pending_append \<Rightarrow> page_handle list \<Rightarrow> (page_handle list, page_error) outcome" where
  "plan_one a ps =
     (case pa_kind a of
        Existing \<Rightarrow>
          if list_get ps (pa_logical_page a) \<noteq> Some (pa_target a) then Err ConcurrentMutation
          else Ok ps
      | New \<Rightarrow>
          if pa_logical_page a \<noteq> length ps then Err ConcurrentMutation else Ok (ps @ [pa_target a])
      | CopyOnWrite source \<Rightarrow>
          if list_get ps (pa_logical_page a) \<noteq> Some source then Err ConcurrentMutation
          else Ok (ps[pa_logical_page a := pa_target a]))"

fun plan_all ::
  "pending_append list \<Rightarrow> page_handle list \<Rightarrow> (page_handle list, page_error) outcome" where
  "plan_all [] ps = Ok ps"
| "plan_all (a # as) ps = bindR (plan_one a ps) (plan_all as)"

definition planned_pages_after_batch ::
  "page_table \<Rightarrow> pending_batch \<Rightarrow> (page_handle list, page_error) outcome" where
  "planned_pages_after_batch t b =
     (if pb_sequence_id b \<noteq> pt_sequence_id t \<or> pb_expected_tokens b \<noteq> pt_tokens t
      then Err ConcurrentMutation
      else plan_all (pb_additions b) (pt_pages t))"

section \<open>Prepare and abort\<close>

text \<open>\<open>pool.reserve(1)?.pop().expect("one page was reserved")\<close>.\<close>

definition reserve_one :: "page_pool \<Rightarrow> (page_handle, page_error) outcome \<times> page_pool" where
  "reserve_one p =
     bindS (reserve 1 p) (\<lambda>hs p'. if hs = [] then (Panic, p') else (Ok (last hs), p'))"

definition choose_target ::
  "page_table \<Rightarrow> page_pool \<Rightarrow> (page_handle \<times> pending_kind, page_error) outcome \<times> page_pool" where
  "choose_target t p =
     (let logical_page = pt_tokens t div CUDA_KV_PAGE_TOKENS in
      if logical_page = length (pt_pages t) then
        bindS (reserve_one p) (\<lambda>target p'. (Ok (target, New), p'))
      else
        case list_get (pt_pages t) logical_page of
          None \<Rightarrow> (Panic, p)
        | Some source \<Rightarrow>
            bindS (references p source, p) (\<lambda>n p'.
              if n = 1 then (Ok (source, Existing), p')
              else bindS (reserve_one p') (\<lambda>target p''. (Ok (target, CopyOnWrite source), p''))))"

definition prepare_append ::
  "page_table \<Rightarrow> page_pool \<Rightarrow> (pending_append, page_error) outcome \<times> page_pool" where
  "prepare_append t p =
     bindS (choose_target t p) (\<lambda>tk p'.
       (Ok \<lparr>pa_sequence_id = pt_sequence_id t, pa_expected_tokens = pt_tokens t,
            pa_logical_page = pt_tokens t div CUDA_KV_PAGE_TOKENS,
            pa_token_offset = pt_tokens t mod CUDA_KV_PAGE_TOKENS,
            pa_target = fst tk, pa_kind = snd tk\<rparr>, p'))"

definition abort_append ::
  "pending_append \<Rightarrow> page_pool \<Rightarrow> (unit, page_error) outcome \<times> page_pool" where
  "abort_append a p = (if allocates a then release (pa_target a) p else (Ok (), p))"

definition abort_append_batch ::
  "pending_batch \<Rightarrow> page_pool \<Rightarrow> (unit, page_error) outcome \<times> page_pool" where
  "abort_append_batch b p = iterS abort_append (rev (pb_additions b)) p"

text \<open>The simulated table of \<open>prepare_append_batch\<close> after one prepared append.\<close>

definition simulate ::
  "page_table \<Rightarrow> pending_append \<Rightarrow> (page_table, page_error) outcome" where
  "simulate t a =
     bindR
       (case pa_kind a of
          New \<Rightarrow> Ok (pt_pages t @ [pa_target a])
        | CopyOnWrite source \<Rightarrow>
            if list_get (pt_pages t) (pa_logical_page a) \<noteq> Some source then Err ConcurrentMutation
            else Ok ((pt_pages t)[pa_logical_page a := pa_target a])
        | Existing \<Rightarrow> Ok (pt_pages t))
       (\<lambda>ps. Ok (t\<lparr>pt_pages := ps, pt_tokens := pt_tokens t + 1\<rparr>))"

fun prepare_loop ::
  "nat \<Rightarrow> page_table \<Rightarrow> pending_append list \<Rightarrow> page_pool \<Rightarrow>
    (pending_append list, page_error) outcome \<times> page_pool" where
  "prepare_loop 0 sim additions p = (Ok additions, p)"
| "prepare_loop (Suc n) sim additions p =
     (case prepare_append sim p of
        (Panic, p') \<Rightarrow> (Panic, p')
      | (Err e, p') \<Rightarrow> bindS (iterS abort_append (rev additions) p') (\<lambda>_ p''. (Err e, p''))
      | (Ok a, p') \<Rightarrow>
          bindS (simulate sim a, p') (\<lambda>sim' p''. prepare_loop n sim' (additions @ [a]) p''))"

definition prepare_append_batch ::
  "page_table \<Rightarrow> usize \<Rightarrow> page_pool \<Rightarrow> (pending_batch, page_error) outcome \<times> page_pool" where
  "prepare_append_batch t n p =
     bindS (prepare_loop n t [] p) (\<lambda>additions p'.
       (Ok \<lparr>pb_sequence_id = pt_sequence_id t, pb_expected_tokens = pt_tokens t,
            pb_additions = additions\<rparr>, p'))"

section \<open>Commit\<close>

definition validate_append ::
  "page_table \<Rightarrow> page_pool \<Rightarrow> pending_append \<Rightarrow> (unit, page_error) outcome" where
  "validate_append t p a =
     (if pa_sequence_id a \<noteq> pt_sequence_id t then Err SequenceMismatch
      else if pa_expected_tokens a \<noteq> pt_tokens t
        \<or> pa_logical_page a \<noteq> pt_tokens t div CUDA_KV_PAGE_TOKENS
        \<or> pa_token_offset a \<noteq> pt_tokens t mod CUDA_KV_PAGE_TOKENS then Err ConcurrentMutation
      else if \<not> validate p (pa_target a) then Err StaleHandle
      else
        case pa_kind a of
          Existing \<Rightarrow>
            if list_get (pt_pages t) (pa_logical_page a) \<noteq> Some (pa_target a)
            then Err ConcurrentMutation else Ok ()
        | New \<Rightarrow>
            if pa_logical_page a \<noteq> length (pt_pages t) then Err ConcurrentMutation else Ok ()
        | CopyOnWrite source \<Rightarrow>
            if list_get (pt_pages t) (pa_logical_page a) \<noteq> Some source then Err ConcurrentMutation
            else bindR (references p source) (\<lambda>n. if n < 2 then Err ConcurrentMutation else Ok ()))"

definition commit_append ::
  "pending_append \<Rightarrow> page_table \<times> page_pool \<Rightarrow>
    (page_handle \<times> usize, page_error) outcome \<times> (page_table \<times> page_pool)" where
  "commit_append a tp =
     (let (t, p) = tp in
      bindS (validate_append t p a, (t, p)) (\<lambda>_ _.
      bindS
        (case pa_kind a of
           Existing \<Rightarrow> (Ok (), (t, p))
         | New \<Rightarrow> (Ok (), (t\<lparr>pt_pages := pt_pages t @ [pa_target a]\<rparr>, p))
         | CopyOnWrite source \<Rightarrow>
             (case release source p of
                (Ok _, p') \<Rightarrow>
                  if pa_logical_page a < length (pt_pages t)
                  then (Ok (), (t\<lparr>pt_pages := (pt_pages t)[pa_logical_page a := pa_target a]\<rparr>, p'))
                  else (Panic, (t, p'))
              | (Err e, p') \<Rightarrow> (Err e, (t, p'))
              | (Panic, p') \<Rightarrow> (Panic, (t, p'))))
        (\<lambda>_ (t', p').
          (Ok (pa_target a, pa_token_offset a), (t'\<lparr>pt_tokens := pt_tokens t' + 1\<rparr>, p')))))"

text \<open>The validation loop of \<open>commit_append_batch\<close>: the pool is fixed, the table is simulated.
  Indexing \<open>simulation.pages\<close> out of range panics.\<close>

fun validate_loop ::
  "page_table \<Rightarrow> page_pool \<Rightarrow> pending_append list \<Rightarrow> (unit, page_error) outcome" where
  "validate_loop sim p [] = Ok ()"
| "validate_loop sim p (a # as) =
     bindR (validate_append sim p a) (\<lambda>_.
       case pa_kind a of
         Existing \<Rightarrow> validate_loop (sim\<lparr>pt_tokens := pt_tokens sim + 1\<rparr>) p as
       | New \<Rightarrow>
           validate_loop (sim\<lparr>pt_pages := pt_pages sim @ [pa_target a],
             pt_tokens := pt_tokens sim + 1\<rparr>) p as
       | CopyOnWrite _ \<Rightarrow>
           if pa_logical_page a < length (pt_pages sim)
           then validate_loop (sim\<lparr>pt_pages := (pt_pages sim)[pa_logical_page a := pa_target a],
             pt_tokens := pt_tokens sim + 1\<rparr>) p as
           else Panic)"

definition commit_unit ::
  "pending_append \<Rightarrow> page_table \<times> page_pool \<Rightarrow>
    (unit, page_error) outcome \<times> (page_table \<times> page_pool)" where
  "commit_unit a tp = bindS (commit_append a tp) (\<lambda>_ tp'. (Ok (), tp'))"

definition commit_append_batch ::
  "pending_batch \<Rightarrow> page_table \<times> page_pool \<Rightarrow>
    (unit, page_error) outcome \<times> (page_table \<times> page_pool)" where
  "commit_append_batch b tp =
     (let (t, p) = tp in
      if pb_sequence_id b \<noteq> pt_sequence_id t \<or> pb_expected_tokens b \<noteq> pt_tokens t
      then (Err ConcurrentMutation, tp)
      else bindS (validate_loop t p (pb_additions b), tp) (\<lambda>_ tp'.
        iterS commit_unit (pb_additions b) tp'))"

section \<open>Fork, release and truncate\<close>

definition fork ::
  "page_table \<Rightarrow> u64 \<Rightarrow> page_pool \<Rightarrow> (page_table, page_error) outcome \<times> page_pool" where
  "fork t child_sequence_id p =
     bindS (iterR (can_retain p) (pt_pages t), p) (\<lambda>_ p'.
     bindS (iterS retain (pt_pages t) p') (\<lambda>_ p''.
       (Ok \<lparr>pt_sequence_id = child_sequence_id, pt_pages = pt_pages t, pt_tokens = pt_tokens t\<rparr>, p'')))"

definition check_live :: "page_pool \<Rightarrow> page_handle \<Rightarrow> (unit, page_error) outcome" where
  "check_live p h = bindR (live_entry p h) (\<lambda>_. Ok ())"

text \<open>\<open>release_all\<close>; the \<open>drain(..)\<close> empties the page vector even when a release fails.\<close>

definition release_all ::
  "page_table \<times> page_pool \<Rightarrow> (unit, page_error) outcome \<times> (page_table \<times> page_pool)" where
  "release_all tp =
     (let (t, p) = tp in
      bindS (iterR (check_live p) (pt_pages t), tp) (\<lambda>_ _.
        case iterS release (pt_pages t) p of
          (Ok _, p') \<Rightarrow> (Ok (), (t\<lparr>pt_pages := [], pt_tokens := 0\<rparr>, p'))
        | (Err e, p') \<Rightarrow> (Err e, (t\<lparr>pt_pages := []\<rparr>, p'))
        | (Panic, p') \<Rightarrow> (Panic, (t\<lparr>pt_pages := []\<rparr>, p'))))"

text \<open>\<open>truncate\<close>; slicing \<open>self.pages[keep_pages..]\<close> past the end panics.\<close>

definition truncate ::
  "usize \<Rightarrow> page_table \<times> page_pool \<Rightarrow> (unit, page_error) outcome \<times> (page_table \<times> page_pool)" where
  "truncate n tp =
     (let (t, p) = tp; keep = div_ceil n CUDA_KV_PAGE_TOKENS in
      if pt_tokens t \<le> n then (Ok (), tp)
      else if length (pt_pages t) < keep then (Panic, tp)
      else bindS (iterR (check_live p) (drop keep (pt_pages t)), tp) (\<lambda>_ _.
        case iterS release (drop keep (pt_pages t)) p of
          (Ok _, p') \<Rightarrow> (Ok (), (t\<lparr>pt_pages := take keep (pt_pages t), pt_tokens := n\<rparr>, p'))
        | (Err e, p') \<Rightarrow> (Err e, (t\<lparr>pt_pages := take keep (pt_pages t)\<rparr>, p'))
        | (Panic, p') \<Rightarrow> (Panic, (t\<lparr>pt_pages := take keep (pt_pages t)\<rparr>, p'))))"

section \<open>Well-formed tables and prepared appends\<close>

definition table_wf :: "page_table \<Rightarrow> bool" where
  "table_wf t \<longleftrightarrow> distinct (pt_pages t) \<and> length (pt_pages t) = div_ceil (pt_tokens t) CUDA_KV_PAGE_TOKENS"

text \<open>The table after an append, and what makes a pending append right for a table and a pool.\<close>

definition apply_append :: "pending_append \<Rightarrow> page_table \<Rightarrow> page_table" where
  "apply_append a t =
     t\<lparr>pt_pages :=
         (case pa_kind a of
            Existing \<Rightarrow> pt_pages t
          | New \<Rightarrow> pt_pages t @ [pa_target a]
          | CopyOnWrite _ \<Rightarrow> (pt_pages t)[pa_logical_page a := pa_target a]),
       pt_tokens := pt_tokens t + 1\<rparr>"

definition append_ok :: "page_table \<Rightarrow> page_pool \<Rightarrow> pending_append \<Rightarrow> bool" where
  "append_ok t p a \<longleftrightarrow>
     pa_sequence_id a = pt_sequence_id t \<and> pa_expected_tokens a = pt_tokens t \<and>
     pa_logical_page a = pt_tokens t div CUDA_KV_PAGE_TOKENS \<and>
     pa_token_offset a = pt_tokens t mod CUDA_KV_PAGE_TOKENS \<and>
     count (held p) (pa_target a) = 1 \<and>
     (case pa_kind a of
        Existing \<Rightarrow> list_get (pt_pages t) (pa_logical_page a) = Some (pa_target a)
      | New \<Rightarrow> pa_logical_page a = length (pt_pages t) \<and> pa_target a \<notin> set (pt_pages t)
      | CopyOnWrite source \<Rightarrow>
          list_get (pt_pages t) (pa_logical_page a) = Some source \<and>
          2 \<le> count (held p) source \<and> pa_target a \<notin> set (pt_pages t))"

fun append_chain :: "page_table \<Rightarrow> page_pool \<Rightarrow> pending_append list \<Rightarrow> bool" where
  "append_chain t p [] = True"
| "append_chain t p (a # as) = (append_ok t p a \<and> append_chain (apply_append a t) p as)"

fun apply_all :: "pending_append list \<Rightarrow> page_table \<Rightarrow> page_table" where
  "apply_all [] t = t"
| "apply_all (a # as) t = apply_all as (apply_append a t)"

lemma apply_all_append [simp]: "apply_all (as @ [a]) t = apply_append a (apply_all as t)"
  by (induction as arbitrary: t) auto

lemma append_chain_append:
  "append_chain t p (as @ [a]) \<longleftrightarrow> append_chain t p as \<and> append_ok (apply_all as t) p a"
  by (induction as arbitrary: t) auto

lemma apply_append_fields [simp]:
  "pt_tokens (apply_append a t) = pt_tokens t + 1"
  "pt_sequence_id (apply_append a t) = pt_sequence_id t"
  by (simp_all add: apply_append_def)

lemma apply_all_fields [simp]:
  "pt_tokens (apply_all as t) = pt_tokens t + length as"
  "pt_sequence_id (apply_all as t) = pt_sequence_id t"
  by (induction as arbitrary: t) auto

lemma div_ceil_16_Suc:
  "div_ceil (n + 1) 16 = (if n mod 16 = 0 then div_ceil n 16 + 1 else div_ceil n 16)"
  by (rule div_ceil_Suc) simp

lemma table_wf_page_index:
  assumes "table_wf t"
  shows "pt_tokens t div 16 \<le> length (pt_pages t)"
    "pt_tokens t div 16 = length (pt_pages t) \<longleftrightarrow> pt_tokens t mod 16 = 0"
  using assms by (auto simp: table_wf_def div_ceil_def CUDA_KV_PAGE_TOKENS_def split: if_splits)

lemma table_wf_apply:
  assumes wf: "table_wf t" and ok: "append_ok t p a"
  shows "table_wf (apply_append a t)"
proof -
  have lp: "pa_logical_page a = pt_tokens t div 16"
    using ok by (simp add: append_ok_def CUDA_KV_PAGE_TOKENS_def)
  have len: "length (pt_pages t) = div_ceil (pt_tokens t) 16" and d: "distinct (pt_pages t)"
    using wf by (simp_all add: table_wf_def CUDA_KV_PAGE_TOKENS_def)
  note idx = table_wf_page_index [OF wf]
  show ?thesis
  proof (cases "pa_kind a")
    case Existing
    then have "pt_tokens t mod 16 \<noteq> 0"
      using ok idx lp by (auto simp: append_ok_def list_get_Some_iff)
    then have "div_ceil (pt_tokens t + 1) 16 = div_ceil (pt_tokens t) 16"
      by (simp only: div_ceil_16_Suc if_False)
    with Existing len d show ?thesis
      by (simp add: table_wf_def apply_append_def CUDA_KV_PAGE_TOKENS_def)
  next
    case New
    then have m: "pt_tokens t mod 16 = 0" and "pa_target a \<notin> set (pt_pages t)"
      using ok idx lp by (auto simp: append_ok_def)
    moreover have "div_ceil (pt_tokens t + 1) 16 = div_ceil (pt_tokens t) 16 + 1"
      by (simp only: div_ceil_16_Suc m if_True refl)
    ultimately show ?thesis
      using New len d by (simp add: table_wf_def apply_append_def CUDA_KV_PAGE_TOKENS_def)
  next
    case (CopyOnWrite source)
    then have "pt_tokens t mod 16 \<noteq> 0" "pa_target a \<notin> set (pt_pages t)"
      using ok idx lp by (auto simp: append_ok_def list_get_Some_iff)
    moreover from this have "div_ceil (pt_tokens t + 1) 16 = div_ceil (pt_tokens t) 16"
      by (simp only: div_ceil_16_Suc if_False)
    ultimately show ?thesis
      using CopyOnWrite len d
      by (simp add: table_wf_def apply_append_def CUDA_KV_PAGE_TOKENS_def distinct_list_update
          disjoint_iff)
  qed
qed

section \<open>Preparing\<close>

lemma reserve_one_cases:
  assumes "pool_inv p"
  shows "(\<exists>h p'. reserve_one p = (Ok h, p') \<and> pool_inv p' \<and> held p' = add_mset h (held p) \<and>
            h \<notin># held p \<and> allocated_pages p < capacity_pages p) \<or>
         (\<exists>p'. reserve_one p = (Err (CapacityExhausted 1 0), p') \<and> pool_inv p' \<and> held p' = held p \<and>
            capacity_pages p \<le> allocated_pages p)"
proof (cases "1 \<le> capacity_pages p - allocated_pages p")
  case True
  from reserve_law [OF assms True] obtain hs p' where
    r: "reserve 1 p = (Ok hs, p')" "length hs = 1" "pool_inv p'" "held p' = held p + mset hs"
      "\<forall>k \<in># held p. ph_index k \<notin> ph_index ` set hs"
    by blast
  then obtain h where "hs = [h]" by (auto simp: length_Suc_conv)
  with r True show ?thesis by (auto simp: reserve_one_def)
next
  case False
  with reserve_exhausted [OF assms, of 1] obtain p' where
    "reserve 1 p = (Err (CapacityExhausted 1 (capacity_pages p - allocated_pages p)), p')"
    "pool_inv p'" "held p' = held p" by auto
  with False show ?thesis by (auto simp: reserve_one_def)
qed

lemma prepare_append_law:
  assumes inv: "pool_inv p" and wf: "table_wf t" and own: "mset (pt_pages t) \<subseteq># held p"
  shows "(\<exists>a p'. prepare_append t p = (Ok a, p') \<and> pool_inv p' \<and> append_ok t p' a \<and>
            held p' = held p + (if allocates a then {#pa_target a#} else {#}) \<and>
            (allocates a \<longrightarrow> pa_target a \<notin># held p)) \<or>
         (\<exists>p'. prepare_append t p = (Err (CapacityExhausted 1 0), p') \<and> pool_inv p' \<and>
            held p' = held p \<and> capacity_pages p \<le> allocated_pages p)"
proof (cases "pt_tokens t div CUDA_KV_PAGE_TOKENS = length (pt_pages t)")
  case True
  have fresh: "h \<notin> set (pt_pages t)" if "h \<notin># held p" for h
    using mset_subset_eqD [OF own] that by auto
  from reserve_one_cases [OF inv] show ?thesis
  proof (elim disjE exE conjE)
    fix h p' assume "reserve_one p = (Ok h, p')" "pool_inv p'" "held p' = add_mset h (held p)"
      "h \<notin># held p"
    with True fresh [of h] show ?thesis
      by (intro disjI1)
        (simp add: prepare_append_def choose_target_def Let_def append_ok_def allocates_def not_in_iff)
  next
    fix p' assume "reserve_one p = (Err (CapacityExhausted 1 0), p')" "pool_inv p'"
      "held p' = held p" "capacity_pages p \<le> allocated_pages p"
    with True show ?thesis
      by (simp add: prepare_append_def choose_target_def Let_def)
  qed
next
  case False
  let ?lp = "pt_tokens t div CUDA_KV_PAGE_TOKENS"
  have lp: "?lp < length (pt_pages t)"
    using False table_wf_page_index(1) [OF wf] by (simp add: CUDA_KV_PAGE_TOKENS_def)
  let ?s = "pt_pages t ! ?lp"
  have s: "?s \<in># held p" using own lp by (meson mset_subset_eqD nth_mem_mset)
  have get: "list_get (pt_pages t) ?lp = Some ?s" using lp by (simp add: list_get_def)
  show ?thesis
  proof (cases "count (held p) ?s = 1")
    case True
    with False get s inv show ?thesis
      by (intro disjI1)
        (simp add: prepare_append_def choose_target_def Let_def append_ok_def allocates_def references_eq)
  next
    case cow: False
    have two: "2 \<le> count (held p) ?s"
      using s cow by (metis One_nat_def Suc_leI count_greater_zero_iff le_neq_implies_less numeral_2_eq_2)
    have fresh: "h \<notin> set (pt_pages t)" if "h \<notin># held p" for h
      using mset_subset_eqD [OF own] that by auto
    from reserve_one_cases [OF inv] show ?thesis
    proof (elim disjE exE conjE)
      fix h p' assume "reserve_one p = (Ok h, p')" "pool_inv p'" "held p' = add_mset h (held p)"
        "h \<notin># held p"
      with False get s inv cow two fresh [of h] show ?thesis
        by (intro disjI1)
          (simp add: prepare_append_def choose_target_def Let_def append_ok_def allocates_def
            references_eq not_in_iff)
    next
      fix p' assume "reserve_one p = (Err (CapacityExhausted 1 0), p')" "pool_inv p'"
        "held p' = held p" "capacity_pages p \<le> allocated_pages p"
      with False get s inv cow show ?thesis
        by (simp add: prepare_append_def choose_target_def Let_def references_eq)
    qed
  qed
qed

section \<open>Chains of prepared appends\<close>

definition alloc_targets :: "pending_append list \<Rightarrow> page_handle list" where
  "alloc_targets as = map pa_target (filter allocates as)"

definition cow_sources :: "pending_append list \<Rightarrow> page_handle list" where
  "cow_sources as = List.map_filter copy_source as"

lemma alloc_targets_simps [simp]:
  "alloc_targets [] = []"
  "alloc_targets (a # as) = (if allocates a then [pa_target a] else []) @ alloc_targets as"
  "alloc_targets (as @ bs) = alloc_targets as @ alloc_targets bs"
  by (simp_all add: alloc_targets_def)

lemma cow_sources_simps [simp]:
  "cow_sources [] = []"
  "cow_sources (a # as) = (case copy_source a of None \<Rightarrow> [] | Some s \<Rightarrow> [s]) @ cow_sources as"
  by (simp_all add: cow_sources_def map_filter_simps split: option.splits)

lemma set_pages_apply: "set (pt_pages (apply_append a t)) \<subseteq> insert (pa_target a) (set (pt_pages t))"
  using set_update_subset_insert [of "pt_pages t" "pa_logical_page a" "pa_target a"]
  by (auto simp: apply_append_def split: pending_kind.splits)

lemma append_ok_transfer:
  assumes "append_ok t p a"
    and "\<And>h. h \<in> insert (pa_target a) (set (pt_pages t)) \<Longrightarrow> count (held p') h = count (held p) h"
  shows "append_ok t p' a"
proof -
  have t: "count (held p') (pa_target a) = count (held p) (pa_target a)" by (rule assms(2)) simp
  show ?thesis
  proof (cases "pa_kind a")
    case (CopyOnWrite s)
    then have "s \<in> set (pt_pages t)"
      using assms(1) by (auto simp: append_ok_def list_get_Some_iff dest: nth_mem)
    then have "count (held p') s = count (held p) s" by (intro assms(2)) simp
    with CopyOnWrite t assms(1) show ?thesis by (auto simp: append_ok_def)
  qed (use t assms(1) in \<open>auto simp: append_ok_def\<close>)
qed

lemma append_chain_transfer:
  "append_chain t p as \<Longrightarrow>
    (\<And>h. h \<in> set (pt_pages t) \<union> pa_target ` set as \<Longrightarrow> count (held p') h = count (held p) h) \<Longrightarrow>
    append_chain t p' as"
proof (induction as arbitrary: t)
  case Nil
  then show ?case by simp
next
  case (Cons a as)
  have "append_ok t p' a"
    by (rule append_ok_transfer [of t p]) (use Cons.prems in auto)
  moreover have "append_chain (apply_append a t) p' as"
  proof (rule Cons.IH)
    show "append_chain (apply_append a t) p as" using Cons.prems(1) by simp
  next
    fix h assume "h \<in> set (pt_pages (apply_append a t)) \<union> pa_target ` set as"
    then have "h \<in> set (pt_pages t) \<union> pa_target ` set (a # as)"
      using set_pages_apply [of a t] by auto
    then show "count (held p') h = count (held p) h" by (rule Cons.prems(2))
  qed
  ultimately show ?case by simp
qed

lemma append_chain_targets: "append_chain t p as \<Longrightarrow> a \<in> set as \<Longrightarrow> count (held p) (pa_target a) = 1"
  by (induction as arbitrary: t) (auto simp: append_ok_def)

text \<open>An append trades the copied page for its copy, or adds the new page.\<close>

lemma mset_pages_apply:
  assumes "append_ok t p a"
  shows "mset (pt_pages (apply_append a t)) + (case copy_source a of None \<Rightarrow> {#} | Some s \<Rightarrow> {#s#}) =
    mset (pt_pages t) + (if allocates a then {#pa_target a#} else {#})"
proof (cases "pa_kind a")
  case (CopyOnWrite s)
  then have lp: "pa_logical_page a < length (pt_pages t)" "pt_pages t ! pa_logical_page a = s"
    using assms by (auto simp: append_ok_def list_get_Some_iff)
  then have "s \<in># mset (pt_pages t)" by (metis nth_mem_mset)
  with CopyOnWrite lp show ?thesis
    by (simp add: apply_append_def copy_source_def allocates_def mset_update)
qed (simp_all add: apply_append_def copy_source_def allocates_def)

lemma mset_pages_apply_all:
  "append_chain t p as \<Longrightarrow>
    mset (pt_pages (apply_all as t)) + mset (cow_sources as) = mset (pt_pages t) + mset (alloc_targets as)"
proof (induction as arbitrary: t)
  case Nil
  then show ?case by simp
next
  case (Cons a as)
  then have ok: "append_ok t p a" and ch: "append_chain (apply_append a t) p as" by simp_all
  let ?c = "case copy_source a of None \<Rightarrow> {#} | Some s \<Rightarrow> {#s#}"
  have "mset (pt_pages (apply_all (a # as) t)) + mset (cow_sources (a # as)) =
      (mset (pt_pages (apply_all as (apply_append a t))) + mset (cow_sources as)) + ?c"
    by (simp split: option.splits)
  also have "\<dots> = (mset (pt_pages (apply_append a t)) + ?c) + mset (alloc_targets as)"
    unfolding Cons.IH [OF ch] by (simp only: ac_simps)
  also have "\<dots> = mset (pt_pages t) + mset (alloc_targets (a # as))"
    unfolding mset_pages_apply [OF ok] by simp
  finally show ?case .
qed

lemma simulate_eq: "append_ok t p a \<Longrightarrow> simulate t a = Ok (apply_append a t)"
  by (auto simp: simulate_def append_ok_def apply_append_def split: pending_kind.splits)

lemma iterS_abort: "iterS abort_append as = iterS release (alloc_targets as)"
proof (induction as)
  case Nil
  show ?case by (simp add: fun_eq_iff)
next
  case (Cons a as)
  show ?case by (rule ext) (simp add: Cons abort_append_def [of a])
qed

lemma alloc_targets_rev: "mset (alloc_targets (rev as)) = mset (alloc_targets as)"
  by (simp add: alloc_targets_def rev_filter [symmetric] rev_map [symmetric])

text \<open>
  The prepare loop, started from table \<open>t\<close> and pool \<open>p0\<close>: it either ends with a chain of
  appends for \<open>t\<close> whose new pages are the only references it added, or gives every page back.
\<close>

lemma prepare_loop_law:
  assumes "pool_inv p" "append_chain t p as" "table_wf (apply_all as t)"
    "held p = held p0 + mset (alloc_targets as)" "mset (pt_pages t) \<subseteq># held p0"
  shows "(\<exists>bs p'. prepare_loop n (apply_all as t) as p = (Ok bs, p') \<and> pool_inv p' \<and>
            append_chain t p' bs \<and> table_wf (apply_all bs t) \<and> length bs = length as + n \<and>
            held p' = held p0 + mset (alloc_targets bs)) \<or>
         (\<exists>p'. prepare_loop n (apply_all as t) as p = (Err (CapacityExhausted 1 0), p') \<and>
            pool_inv p' \<and> held p' = held p0)"
  using assms
proof (induction n arbitrary: as p)
  case 0
  then show ?case by simp
next
  case (Suc n)
  let ?s = "apply_all as t"
  have "mset (pt_pages ?s) \<subseteq># mset (pt_pages t) + mset (alloc_targets as)"
    using mset_pages_apply_all [OF Suc.prems(2)] by (metis mset_subset_eq_add_left)
  also have "\<dots> \<subseteq># held p"
    unfolding Suc.prems(4) using Suc.prems(5) by simp
  finally have own: "mset (pt_pages ?s) \<subseteq># held p" .
  from prepare_append_law [OF Suc.prems(1,3) own] show ?case
  proof (elim disjE exE conjE)
    fix a p'
    assume a: "prepare_append ?s p = (Ok a, p')" "pool_inv p'" "append_ok ?s p' a"
      "held p' = held p + (if allocates a then {#pa_target a#} else {#})"
      "allocates a \<longrightarrow> pa_target a \<notin># held p"
    have heldin: "h \<in># held p" if "h \<in> set (pt_pages t) \<union> pa_target ` set as" for h
      using that
    proof
      assume "h \<in> set (pt_pages t)"
      then show ?thesis using mset_subset_eqD [OF Suc.prems(5)] Suc.prems(4) by simp
    next
      assume "h \<in> pa_target ` set as"
      then have "count (held p) h = 1" using append_chain_targets [OF Suc.prems(2)] by auto
      then show ?thesis by (metis count_eq_zero_iff zero_neq_one)
    qed
    have "append_chain t p' as"
      by (rule append_chain_transfer [OF Suc.prems(2)]) (use a(4,5) heldin in \<open>auto split: if_splits\<close>)
    then have ch: "append_chain t p' (as @ [a])"
      using a(3) by (simp add: append_chain_append)
    have h: "held p' = held p0 + mset (alloc_targets (as @ [a]))"
      using a(4) Suc.prems(4) by simp
    have wf: "table_wf (apply_all (as @ [a]) t)"
      using table_wf_apply [OF Suc.prems(3) a(3)] by simp
    have step: "prepare_loop (Suc n) ?s as p = prepare_loop n (apply_all (as @ [a]) t) (as @ [a]) p'"
      using a(1) simulate_eq [OF a(3)] by simp
    show ?case
      using Suc.IH [OF a(2) ch wf h Suc.prems(5)] unfolding step by simp
  next
    fix p'
    assume e: "prepare_append ?s p = (Err (CapacityExhausted 1 0), p')" "pool_inv p'" "held p' = held p"
    have "mset (alloc_targets (rev as)) \<subseteq># held p'"
      unfolding e(3) Suc.prems(4) alloc_targets_rev by simp
    from pool.drop_all [OF e(2) this] obtain p'' where
      "iterS release (alloc_targets (rev as)) p' = (Ok (), p'')" "pool_inv p''" "held p'' = held p0"
      using e(3) Suc.prems(4) by (auto simp: alloc_targets_rev)
    with e(1) show ?case by (simp add: iterS_abort)
  qed
qed

section \<open>Committing\<close>

lemma validate_append_Ok:
  "pool_inv p \<Longrightarrow> append_ok t p a \<Longrightarrow> validate_append t p a = Ok ()"
proof -
  assume inv: "pool_inv p" and ok: "append_ok t p a"
  have "pa_target a \<in># held p"
    using ok by (metis append_ok_def count_eq_zero_iff zero_neq_one)
  moreover have "s \<in># held p" if "2 \<le> count (held p) s" for s
    using that by (metis count_eq_zero_iff not_numeral_le_zero)
  ultimately show ?thesis
    using inv ok
    by (auto simp: validate_append_def append_ok_def validate_iff references_eq
        split: pending_kind.splits)
qed

lemma commit_append_law:
  assumes inv: "pool_inv p" and ok: "append_ok t p a"
  shows "\<exists>p'. commit_append a (t, p) = (Ok (pa_target a, pa_token_offset a), (apply_append a t, p')) \<and>
    pool_inv p' \<and> held p' = held p - (case copy_source a of None \<Rightarrow> {#} | Some s \<Rightarrow> {#s#})"
proof (cases "pa_kind a")
  case (CopyOnWrite s)
  have lp: "pa_logical_page a < length (pt_pages t)" and "2 \<le> count (held p) s"
    using ok CopyOnWrite by (auto simp: append_ok_def list_get_Some_iff)
  then have "s \<in># held p" by (metis count_eq_zero_iff not_numeral_le_zero)
  from release_law [OF inv this] obtain p' where
    "release s p = (Ok (), p')" "pool_inv p'" "held p' = held p - {#s#}" by blast
  with CopyOnWrite lp show ?thesis
    by (simp add: commit_append_def validate_append_Ok [OF inv ok] apply_append_def copy_source_def)
qed (use inv in \<open>simp_all add: commit_append_def validate_append_Ok [OF inv ok] apply_append_def
      copy_source_def\<close>)

lemma distinct_apply:
  "append_ok t p a \<Longrightarrow> distinct (pt_pages t) \<Longrightarrow> distinct (pt_pages (apply_append a t))"
  by (auto simp: append_ok_def apply_append_def distinct_list_update split: pending_kind.splits)

text \<open>After a copy-on-write append the table no longer refers to the source page.\<close>

lemma cow_source_gone:
  assumes ok: "append_ok t p a" and d: "distinct (pt_pages t)" and k: "copy_source a = Some s"
  shows "s \<notin> set (pt_pages (apply_append a t))"
proof -
  from k have kind: "pa_kind a = CopyOnWrite s"
    by (auto simp: copy_source_def split: pending_kind.splits)
  with ok have lp: "pa_logical_page a < length (pt_pages t)" "pt_pages t ! pa_logical_page a = s"
    and t: "pa_target a \<notin> set (pt_pages t)"
    by (auto simp: append_ok_def list_get_Some_iff)
  from lp t have "s \<noteq> pa_target a" by (metis nth_mem)
  moreover have "pt_pages t ! j \<noteq> s" if "j < length (pt_pages t)" "j \<noteq> pa_logical_page a" for j
    using d lp that by (metis nth_eq_iff_index_eq)
  ultimately have "(pt_pages t)[pa_logical_page a := pa_target a] ! i \<noteq> s"
    if "i < length (pt_pages t)" for i
    using that by (cases "i = pa_logical_page a") auto
  with kind show ?thesis
    by (auto simp: apply_append_def in_set_conv_nth)
qed

lemma commit_loop_law:
  "pool_inv p \<Longrightarrow> append_chain t p as \<Longrightarrow> distinct (pt_pages t) \<Longrightarrow>
    \<exists>p'. iterS commit_unit as (t, p) = (Ok (), (apply_all as t, p')) \<and> pool_inv p' \<and>
      held p' = held p - mset (cow_sources as)"
proof (induction as arbitrary: t p)
  case Nil
  then show ?case by simp
next
  case (Cons a as)
  then have ok: "append_ok t p a" and ch: "append_chain (apply_append a t) p as" by simp_all
  from commit_append_law [OF Cons.prems(1) ok] obtain p1 where
    c: "commit_append a (t, p) = (Ok (pa_target a, pa_token_offset a), (apply_append a t, p1))"
      "pool_inv p1" "held p1 = held p - (case copy_source a of None \<Rightarrow> {#} | Some s \<Rightarrow> {#s#})"
    by blast
  have "append_chain (apply_append a t) p1 as"
  proof (rule append_chain_transfer [OF ch])
    fix h assume h: "h \<in> set (pt_pages (apply_append a t)) \<union> pa_target ` set as"
    show "count (held p1) h = count (held p) h"
    proof (cases "copy_source a")
      case None
      then show ?thesis by (simp add: c(3))
    next
      case (Some s)
      have two: "2 \<le> count (held p) s"
        using ok Some by (auto simp: append_ok_def copy_source_def split: pending_kind.splits)
      have "h \<noteq> s"
        using h cow_source_gone [OF ok Cons.prems(3) Some] append_chain_targets [OF ch] two by force
      with Some show ?thesis by (simp add: c(3))
    qed
  qed
  from Cons.IH [OF c(2) this distinct_apply [OF ok Cons.prems(3)]] obtain p' where
    r: "iterS commit_unit as (apply_append a t, p1) = (Ok (), (apply_all as (apply_append a t), p'))"
      "pool_inv p'" "held p' = held p1 - mset (cow_sources as)" by blast
  have "held p' = held p - mset (cow_sources (a # as))"
    using r(3) c(3) by (simp split: option.splits)
  moreover have "iterS commit_unit (a # as) (t, p) = (Ok (), (apply_all (a # as) t, p'))"
    using r(1) c(1) by (simp add: commit_unit_def)
  ultimately show ?case using r(2) by blast
qed

lemma validate_loop_Ok:
  "pool_inv p \<Longrightarrow> append_chain t p as \<Longrightarrow> validate_loop t p as = Ok ()"
proof (induction as arbitrary: t)
  case Nil
  then show ?case by simp
next
  case (Cons a as)
  then have ok: "append_ok t p a" and IH: "validate_loop (apply_append a t) p as = Ok ()" by simp_all
  show ?case
  proof (cases "pa_kind a")
    case (CopyOnWrite s)
    with ok have "pa_logical_page a < length (pt_pages t)"
      by (simp add: append_ok_def list_get_Some_iff)
    with CopyOnWrite IH show ?thesis
      by (simp add: validate_append_Ok [OF Cons.prems(1) ok] apply_append_def)
  qed (use IH in \<open>simp_all add: validate_append_Ok [OF Cons.prems(1) ok] apply_append_def\<close>)
qed

lemma plan_all_Ok: "append_chain t p as \<Longrightarrow> plan_all as (pt_pages t) = Ok (pt_pages (apply_all as t))"
proof (induction as arbitrary: t)
  case Nil
  then show ?case by simp
next
  case (Cons a as)
  then have "plan_one a (pt_pages t) = Ok (pt_pages (apply_append a t))"
    by (auto simp: plan_one_def append_ok_def apply_append_def split: pending_kind.splits)
  with Cons show ?case by simp
qed

section \<open>Whole operations\<close>

lemma prepare_append_batch_law:
  assumes "pool_inv p" "table_wf t" "mset (pt_pages t) \<subseteq># held p"
  shows "(\<exists>as p'. prepare_append_batch t n p =
             (Ok \<lparr>pb_sequence_id = pt_sequence_id t, pb_expected_tokens = pt_tokens t,
                  pb_additions = as\<rparr>, p') \<and>
            pool_inv p' \<and> append_chain t p' as \<and> table_wf (apply_all as t) \<and> length as = n \<and>
            held p' = held p + mset (alloc_targets as)) \<or>
         (\<exists>p'. prepare_append_batch t n p = (Err (CapacityExhausted 1 0), p') \<and> pool_inv p' \<and>
            held p' = held p)"
  using prepare_loop_law [of p t "[]" p n] assms
  by (auto simp: prepare_append_batch_def)

lemma commit_append_batch_law:
  assumes "pool_inv p" "append_chain t p as" "distinct (pt_pages t)"
    "b = \<lparr>pb_sequence_id = pt_sequence_id t, pb_expected_tokens = pt_tokens t, pb_additions = as\<rparr>"
  shows "\<exists>p'. commit_append_batch b (t, p) = (Ok (), (apply_all as t, p')) \<and> pool_inv p' \<and>
    held p' = held p - mset (cow_sources as)"
  using commit_loop_law [OF assms(1-3)] validate_loop_Ok [OF assms(1,2)] assms(4)
  by (auto simp: commit_append_batch_def)

lemma abort_append_batch_law:
  assumes "pool_inv p" "mset (alloc_targets (pb_additions b)) \<subseteq># held p"
  shows "\<exists>p'. abort_append_batch b p = (Ok (), p') \<and> pool_inv p' \<and>
    held p' = held p - mset (alloc_targets (pb_additions b))"
  using pool.drop_all [OF assms(1), of "alloc_targets (rev (pb_additions b))"] assms(2)
  by (simp add: abort_append_batch_def iterS_abort alloc_targets_rev)

text \<open>Prepare and commit together move exactly the table's references to its new pages.\<close>

lemma append_batch_law:
  assumes inv: "pool_inv p" and wf: "table_wf t" and own: "mset (pt_pages t) \<subseteq># held p"
    and prep: "prepare_append_batch t n p = (Ok b, p1)"
  shows "\<exists>as p2. b = \<lparr>pb_sequence_id = pt_sequence_id t, pb_expected_tokens = pt_tokens t,
        pb_additions = as\<rparr> \<and> append_chain t p1 as \<and> length as = n \<and> pool_inv p1 \<and>
      held p1 = held p + mset (alloc_targets as) \<and>
      commit_append_batch b (t, p1) = (Ok (), (apply_all as t, p2)) \<and> pool_inv p2 \<and>
      table_wf (apply_all as t) \<and>
      held p2 = held p - mset (pt_pages t) + mset (pt_pages (apply_all as t))"
proof -
  from prepare_append_batch_law [OF inv wf own, of n] prep obtain as where
    a: "b = \<lparr>pb_sequence_id = pt_sequence_id t, pb_expected_tokens = pt_tokens t, pb_additions = as\<rparr>"
      "pool_inv p1" "append_chain t p1 as" "table_wf (apply_all as t)" "length as = n"
      "held p1 = held p + mset (alloc_targets as)"
    by auto
  have d: "distinct (pt_pages t)" using wf by (simp add: table_wf_def)
  from commit_append_batch_law [OF a(2,3) d a(1)] obtain p2 where
    c: "commit_append_batch b (t, p1) = (Ok (), (apply_all as t, p2))" "pool_inv p2"
      "held p2 = held p1 - mset (cow_sources as)" by blast
  obtain rest where rest: "held p = mset (pt_pages t) + rest"
    using own by (metis subset_mset.add_diff_inverse)
  have "held p1 = rest + (mset (pt_pages (apply_all as t)) + mset (cow_sources as))"
    unfolding mset_pages_apply_all [OF a(3)] a(6) rest by (simp add: ac_simps)
  then have "held p2 = held p - mset (pt_pages t) + mset (pt_pages (apply_all as t))"
    unfolding c(3) rest by (simp add: ac_simps)
  with a c show ?thesis by blast
qed

lemma fork_law:
  assumes inv: "pool_inv p" and d: "distinct (pt_pages t)" and own: "mset (pt_pages t) \<subseteq># held p"
  shows "(\<exists>p'. fork t sid p = (Ok (t\<lparr>pt_sequence_id := sid\<rparr>), p') \<and> pool_inv p' \<and>
            held p' = held p + mset (pt_pages t)) \<or>
         fork t sid p = (Err ReferenceOverflow, p)"
proof (cases "\<forall>h \<in> set (pt_pages t). count (held p) h < usize_max")
  case True
  have sub: "set (pt_pages t) \<subseteq> set_mset (held p)" using mset_subset_eqD [OF own] by auto
  have "iterR (can_retain p) (pt_pages t) = Ok ()"
    using True sub inv by (auto simp: iterR_Ok_iff can_retain_eq)
  moreover have "count (held p) h + count (mset (pt_pages t)) h \<le> usize_max"
    if "h \<in> set (pt_pages t)" for h
    using True that d by (auto simp: distinct_count_atmost_1 Suc_le_eq)
  from pool.acquire_all [OF inv sub this] obtain p' where
    "iterS retain (pt_pages t) p = (Ok (), p')" "pool_inv p'" "held p' = held p + mset (pt_pages t)"
    by blast
  ultimately show ?thesis by (simp add: fork_def)
next
  case False
  have sub: "h \<in># held p" if "h \<in> set (pt_pages t)" for h using mset_subset_eqD [OF own] that by auto
  have "iterR (can_retain p) hs = Err ReferenceOverflow"
    if "set hs \<subseteq> set (pt_pages t)" "\<exists>h \<in> set hs. \<not> count (held p) h < usize_max" for hs
    using that by (induction hs) (auto simp: can_retain_eq [OF inv] sub)
  with False show ?thesis by (auto simp: fork_def)
qed

lemma check_live_all:
  "pool_inv p \<Longrightarrow> mset hs \<subseteq># held p \<Longrightarrow> iterR (check_live p) hs = Ok ()"
proof -
  assume inv: "pool_inv p" and sub: "mset hs \<subseteq># held p"
  have "check_live p h = Ok ()" if "h \<in> set hs" for h
  proof -
    have "h \<in># held p" using mset_subset_eqD [OF sub] that by auto
    then show ?thesis using live_entry_held [OF inv, of h] by (auto simp: check_live_def)
  qed
  then show ?thesis by (simp add: iterR_Ok_iff)
qed

lemma release_all_law:
  assumes "pool_inv p" "mset (pt_pages t) \<subseteq># held p"
  shows "\<exists>p'. release_all (t, p) = (Ok (), (t\<lparr>pt_pages := [], pt_tokens := 0\<rparr>, p')) \<and> pool_inv p' \<and>
    held p' = held p - mset (pt_pages t)"
  using pool.drop_all [OF assms] check_live_all [OF assms] by (auto simp: release_all_def)

lemma div_ceil_mono: "0 < b \<Longrightarrow> a \<le> c \<Longrightarrow> div_ceil a b \<le> div_ceil c b"
proof -
  assume b: "0 < b" and ac: "a \<le> c"
  have "div_ceil a b * b < a + b" "c \<le> div_ceil c b * b" using div_ceil_bounds [OF b] by auto
  with ac have "div_ceil a b * b < (div_ceil c b + 1) * b" by (simp only: distrib_right)
  then show ?thesis by (simp only: mult_less_cancel2) simp
qed

lemma truncate_law:
  assumes inv: "pool_inv p" and wf: "table_wf t" and own: "mset (pt_pages t) \<subseteq># held p"
    and n: "n < pt_tokens t"
  shows "\<exists>p'. truncate n (t, p) =
      (Ok (), (t\<lparr>pt_pages := take (div_ceil n 16) (pt_pages t), pt_tokens := n\<rparr>, p')) \<and> pool_inv p' \<and>
    held p' = held p - mset (drop (div_ceil n 16) (pt_pages t)) \<and>
    table_wf (t\<lparr>pt_pages := take (div_ceil n 16) (pt_pages t), pt_tokens := n\<rparr>)"
proof -
  let ?k = "div_ceil n 16"
  have k: "?k \<le> length (pt_pages t)"
    using wf n div_ceil_mono [of 16 n "pt_tokens t"] by (simp add: table_wf_def CUDA_KV_PAGE_TOKENS_def)
  have "mset (drop ?k (pt_pages t)) \<subseteq># mset (pt_pages t)"
    by (metis append_take_drop_id mset_append mset_subset_eq_add_right)
  then have sub: "mset (drop ?k (pt_pages t)) \<subseteq># held p" using own by (rule subset_mset.order_trans)
  from pool.drop_all [OF inv sub] check_live_all [OF inv sub] k n wf show ?thesis
    by (auto simp: truncate_def table_wf_def CUDA_KV_PAGE_TOKENS_def)
qed

lemma table_wf_new [simp]: "table_wf (table_new sid)"
  by (simp add: table_wf_def table_new_def)

end
