(* ===== verification/Paged_Memory.thy ===== *)
theory Paged_Memory
  imports Paged_Table
begin

text \<open>
  What the page tables promise about the rows of the KV cache. The device memory is a function
  from pages and offsets to rows. An append of several tokens runs in the order of
  \<open>prepare_paged_append\<close> and \<open>commit_paged_append\<close> (\<open>src/src/inference.rs\<close>): the batch is
  prepared, every page pair of \<open>copy_on_write_pages\<close> is copied, the kernel writes the new rows
  through the planned pages, and the batch is committed. The kernel is not modelled; the relation
  \<open>kernel_wrote\<close> states the one thing the tables rely on: it writes the rows of the new
  positions, through the page list it is given, and nothing else.

  The theorems: a batch is a transaction (all of it or nothing, planned pages are the committed
  pages), the appending sequence reads its old rows followed by the new ones, and no other
  sequence, forked or not, sees any change.
\<close>

section \<open>Rows, copies and writes\<close>

type_synonym 'kv page_memory = "page_handle \<Rightarrow> usize \<Rightarrow> 'kv"

text \<open>The rows a sequence reads: position by position through \<^const>\<open>logical_to_physical\<close>.\<close>

definition table_view :: "'kv page_memory \<Rightarrow> page_table \<Rightarrow> 'kv option list" where
  "table_view m t = map (\<lambda>pos. map_option (\<lambda>(h, off). m h off) (logical_to_physical t pos)) [0..<pt_tokens t]"

text \<open>The loop of \<open>prepare_paged_append\<close> over \<open>pending.copy_on_write_pages()\<close>.\<close>

fun copy_pages :: "(page_handle \<times> page_handle) list \<Rightarrow> 'kv page_memory \<Rightarrow> 'kv page_memory" where
  "copy_pages [] m = m"
| "copy_pages ((source, target) # cs) m = copy_pages cs (m(target := m source))"

definition kernel_wrote ::
  "'kv page_memory \<Rightarrow> page_handle list \<Rightarrow> usize \<Rightarrow> 'kv list \<Rightarrow> 'kv page_memory \<Rightarrow> bool" where
  "kernel_wrote m ps base rows m' \<longleftrightarrow>
     (\<forall>i < length rows. m' (ps ! ((base + i) div CUDA_KV_PAGE_TOKENS)) ((base + i) mod CUDA_KV_PAGE_TOKENS) = rows ! i) \<and>
     (\<forall>h off. (\<forall>i < length rows. h \<noteq> ps ! ((base + i) div CUDA_KV_PAGE_TOKENS) \<or> off \<noteq> (base + i) mod CUDA_KV_PAGE_TOKENS) \<longrightarrow>
        m' h off = m h off)"

section \<open>The shape of a prepared batch\<close>

text \<open>The page that the next token goes to is not shared.\<close>

definition head_private :: "page_table \<Rightarrow> page_pool \<Rightarrow> bool" where
  "head_private t p \<longleftrightarrow> pt_tokens t mod 16 = 0 \<or>
     (\<exists>h. list_get (pt_pages t) (pt_tokens t div 16) = Some h \<and> count (held p) h = 1)"

lemma append_target_at:
  assumes "append_ok t p a"
  shows "list_get (pt_pages (apply_append a t)) (pt_tokens t div 16) = Some (pa_target a)"
  using assms
  by (auto simp: append_ok_def apply_append_def list_get_def nth_append CUDA_KV_PAGE_TOKENS_def
      split: pending_kind.splits if_splits)

lemma head_private_apply:
  assumes "append_ok t p a"
  shows "head_private (apply_append a t) p"
proof (cases "(pt_tokens t + 1) mod 16 = 0")
  case False
  then have "(pt_tokens t + 1) div 16 = pt_tokens t div 16" by (simp add: div_Suc)
  moreover have "count (held p) (pa_target a) = 1" using assms by (simp add: append_ok_def)
  ultimately show ?thesis
    using append_target_at [OF assms] by (simp add: head_private_def)
qed (simp add: head_private_def)

lemma head_private_step:
  assumes "append_ok t p a" "head_private t p" "table_wf t"
  shows "copy_source a = None" "\<exists>ext. pt_pages (apply_append a t) = pt_pages t @ ext"
proof -
  have "pa_kind a \<noteq> CopyOnWrite s" for s
  proof
    assume k: "pa_kind a = CopyOnWrite s"
    then have s: "list_get (pt_pages t) (pt_tokens t div 16) = Some s" "2 \<le> count (held p) s"
      using assms(1) by (auto simp: append_ok_def CUDA_KV_PAGE_TOKENS_def)
    then have "pt_tokens t mod 16 \<noteq> 0"
      using table_wf_page_index [OF assms(3)] by (auto simp: list_get_Some_iff)
    with s assms(2) show False by (auto simp: head_private_def)
  qed
  then show "copy_source a = None" "\<exists>ext. pt_pages (apply_append a t) = pt_pages t @ ext"
    by (auto simp: copy_source_def apply_append_def split: pending_kind.splits)
qed

lemma head_private_chain:
  "append_chain t p as \<Longrightarrow> head_private t p \<Longrightarrow> table_wf t \<Longrightarrow>
    cow_sources as = [] \<and> (\<exists>ext. pt_pages (apply_all as t) = pt_pages t @ ext)"
proof (induction as arbitrary: t)
  case Nil
  then show ?case by simp
next
  case (Cons a as)
  then have ok: "append_ok t p a" and ch: "append_chain (apply_append a t) p as" by simp_all
  note step = head_private_step [OF ok Cons.prems(2,3)]
  from Cons.IH [OF ch head_private_apply [OF ok] table_wf_apply [OF Cons.prems(3) ok]] step
  show ?case by auto
qed

text \<open>The pages of the new positions are the targets of the appends, each referenced once.\<close>

lemma private_page_kept:
  "append_chain t p as \<Longrightarrow> list_get (pt_pages t) k = Some h \<Longrightarrow> count (held p) h = 1 \<Longrightarrow>
    list_get (pt_pages (apply_all as t)) k = Some h"
proof (induction as arbitrary: t)
  case Nil
  then show ?case by simp
next
  case (Cons a as)
  then have ok: "append_ok t p a" by simp
  have "list_get (pt_pages (apply_append a t)) k = Some h"
    using ok Cons.prems(2,3)
    by (auto simp: append_ok_def apply_append_def list_get_def nth_append nth_list_update
        split: pending_kind.splits if_splits)
  with Cons show ?case by simp
qed

lemma chain_targets_at:
  "append_chain t p as \<Longrightarrow> i < length as \<Longrightarrow>
    list_get (pt_pages (apply_all as t)) ((pt_tokens t + i) div 16) = Some (pa_target (as ! i)) \<and>
    count (held p) (pa_target (as ! i)) = 1"
proof (induction as arbitrary: t i)
  case Nil
  then show ?case by simp
next
  case (Cons a as)
  then have ok: "append_ok t p a" and ch: "append_chain (apply_append a t) p as" by simp_all
  have one: "count (held p) (pa_target a) = 1" using ok by (simp add: append_ok_def)
  show ?case
  proof (cases i)
    case 0
    with private_page_kept [OF ch append_target_at [OF ok] one] one show ?thesis by simp
  next
    case (Suc j)
    with Cons.IH [OF ch, of j] Cons.prems(2) show ?thesis by simp
  qed
qed

lemma copy_pages_cow_free: "cow_sources as = [] \<Longrightarrow> batch_copy_on_write_pages \<lparr>pb_sequence_id = s, pb_expected_tokens = n, pb_additions = as\<rparr> = []"
  by (induction as)
    (auto simp: batch_copy_on_write_pages_def cow_sources_def List.map_filter_def copy_source_def
      split: pending_kind.splits option.splits if_splits)

text \<open>
  A batch copies at most one page, the partly filled last page of the table, and changes the page
  list only there and past its end.
\<close>

lemma batch_shape:
  assumes ch: "append_chain t p as" and wf: "table_wf t"
    and b: "b = \<lparr>pb_sequence_id = s, pb_expected_tokens = n, pb_additions = as\<rparr>"
  shows "batch_copy_on_write_pages b = [] \<and> (\<exists>ext. pt_pages (apply_all as t) = pt_pages t @ ext) \<or>
    (\<exists>source a. let k = pt_tokens t div 16 in
       k < length (pt_pages t) \<and> pt_pages t ! k = source \<and> a \<in> set as \<and> allocates a \<and>
       batch_copy_on_write_pages b = [(source, pa_target a)] \<and>
       (\<exists>ext. pt_pages (apply_all as t) = (pt_pages t)[k := pa_target a] @ ext))"
proof (cases as)
  case Nil
  then show ?thesis by (simp add: b batch_copy_on_write_pages_def)
next
  case (Cons a bs)
  then have ok: "append_ok t p a" and ch': "append_chain (apply_append a t) p bs" using ch by simp_all
  from head_private_chain [OF ch' head_private_apply [OF ok] table_wf_apply [OF wf ok]]
  obtain ext where ext: "cow_sources bs = []"
    "pt_pages (apply_all bs (apply_append a t)) = pt_pages (apply_append a t) @ ext" by blast
  have rest: "batch_copy_on_write_pages \<lparr>pb_sequence_id = s, pb_expected_tokens = n, pb_additions = bs\<rparr> = []"
    by (rule copy_pages_cow_free [OF ext(1)])
  show ?thesis
  proof (cases "pa_kind a")
    case (CopyOnWrite src)
    have "pt_tokens t div 16 < length (pt_pages t)" "pt_pages t ! (pt_tokens t div 16) = src"
      "pa_logical_page a = pt_tokens t div 16"
      using ok CopyOnWrite by (auto simp: append_ok_def list_get_Some_iff CUDA_KV_PAGE_TOKENS_def)
    moreover have "batch_copy_on_write_pages b = [(src, pa_target a)]"
      using rest CopyOnWrite Cons b by (simp add: batch_copy_on_write_pages_def map_filter_simps)
    moreover have "allocates a" using CopyOnWrite by (simp add: allocates_def)
    ultimately show ?thesis
      using ext(2) CopyOnWrite Cons
      by (intro disjI2 exI [of _ src] exI [of _ a]) (simp add: apply_append_def Let_def)
  qed (use rest Cons b ext(2) in \<open>simp_all add: batch_copy_on_write_pages_def map_filter_simps apply_append_def\<close>)
qed

section \<open>What the sequences read\<close>

lemma logical_to_physical_wf:
  assumes "table_wf t" "pos < pt_tokens t"
  shows "pos div 16 < length (pt_pages t)"
    "logical_to_physical t pos = Some (pt_pages t ! (pos div 16), pos mod 16)"
proof -
  have "pt_tokens t \<le> length (pt_pages t) * 16"
    using assms(1) div_ceil_bounds [of 16 "pt_tokens t"] by (simp add: table_wf_def CUDA_KV_PAGE_TOKENS_def)
  with assms(2) show "pos div 16 < length (pt_pages t)" by (simp add: div_less_iff_less_mult)
  with assms(2) show "logical_to_physical t pos = Some (pt_pages t ! (pos div 16), pos mod 16)"
    by (simp add: logical_to_physical_def list_get_def CUDA_KV_PAGE_TOKENS_def)
qed

lemma table_view_eq:
  "table_wf t \<Longrightarrow> table_view m t = map (\<lambda>pos. Some (m (pt_pages t ! (pos div 16)) (pos mod 16))) [0..<pt_tokens t]"
  by (simp add: table_view_def logical_to_physical_wf)

text \<open>The pages an append writes or copies to are in no other table.\<close>

lemma target_not_elsewhere:
  assumes own: "mset (pt_pages t) + mset us \<subseteq># held p"
    and held: "held p1 = held p + mset (alloc_targets as)" and one: "count (held p1) h = 1"
    and h: "h \<in> set (pt_pages t) \<or> h \<in> set (alloc_targets as)"
  shows "h \<notin> set us"
proof
  assume u: "h \<in> set us"
  have "count (mset (pt_pages t) + mset us) h \<le> count (held p) h" using own by (rule mset_subset_eq_count)
  moreover have "0 < count (mset us) h" using u by simp
  moreover have "0 < count (mset (pt_pages t)) h \<or> 0 < count (mset (alloc_targets as)) h"
    using h by auto
  ultimately have "2 \<le> count (held p1) h" unfolding held count_union by linarith
  with one show False by simp
qed

lemma chain_target_origin:
  "append_chain t p as \<Longrightarrow> a \<in> set as \<Longrightarrow> pa_target a \<in> set (pt_pages t) \<or> pa_target a \<in> set (alloc_targets as)"
proof (induction as arbitrary: t)
  case Nil
  then show ?case by simp
next
  case (Cons a' as)
  then have ok: "append_ok t p a'" and ch: "append_chain (apply_append a' t) p as" by simp_all
  have first: "pa_target a' \<in> set (pt_pages t) \<or> pa_target a' \<in> set (alloc_targets (a' # as))"
    using ok by (auto simp: append_ok_def allocates_def list_get_Some_iff in_set_conv_nth split: pending_kind.splits)
  show ?case
  proof (cases "a = a'")
    case True
    with first show ?thesis by simp
  next
    case False
    with Cons.IH [OF ch] Cons.prems(2) set_pages_apply [of a' t] first show ?thesis by auto
  qed
qed

lemma copy_pages_other: "h \<notin> snd ` set cs \<Longrightarrow> copy_pages cs m h = m h"
  by (induction cs m rule: copy_pages.induct) auto

lemma batch_copy_targets:
  assumes "batch_copy_on_write_pages b = [(source, pa_target a)]" "a \<in> set as" "allocates a"
  shows "snd ` set (batch_copy_on_write_pages b) \<subseteq> set (alloc_targets as)"
  using assms by (auto simp: alloc_targets_def)

text \<open>The pages of the whole batch, position by position.\<close>

lemma batch_page_before:
  assumes ch: "append_chain t p as" and wf: "table_wf t" "table_wf (apply_all as t)"
    and b: "b = \<lparr>pb_sequence_id = s, pb_expected_tokens = n, pb_additions = as\<rparr>"
    and pos: "pos < pt_tokens t"
  shows "copy_pages (batch_copy_on_write_pages b) m (pt_pages (apply_all as t) ! (pos div 16)) =
    m (pt_pages t ! (pos div 16))"
proof -
  note idx = logical_to_physical_wf(1) [OF wf(1) pos]
  have d: "distinct (pt_pages (apply_all as t))" using wf(2) by (simp add: table_wf_def)
  from batch_shape [OF ch wf(1) b] show ?thesis
  proof (elim disjE exE conjE)
    fix ext assume "batch_copy_on_write_pages b = []" "pt_pages (apply_all as t) = pt_pages t @ ext"
    with idx show ?thesis by (simp add: nth_append)
  next
    fix source a
    assume "let k = pt_tokens t div 16 in
       k < length (pt_pages t) \<and> pt_pages t ! k = source \<and> a \<in> set as \<and> allocates a \<and>
       batch_copy_on_write_pages b = [(source, pa_target a)] \<and>
       (\<exists>ext. pt_pages (apply_all as t) = (pt_pages t)[k := pa_target a] @ ext)"
    then obtain ext where k: "pt_tokens t div 16 < length (pt_pages t)"
      "pt_pages t ! (pt_tokens t div 16) = source" "a \<in> set as" "allocates a"
      "batch_copy_on_write_pages b = [(source, pa_target a)]"
      "pt_pages (apply_all as t) = (pt_pages t)[pt_tokens t div 16 := pa_target a] @ ext"
      by (auto simp: Let_def)
    show ?thesis
    proof (cases "pos div 16 = pt_tokens t div 16")
      case True
      with k idx show ?thesis by (simp add: nth_append)
    next
      case False
      have eq: "pt_pages (apply_all as t) ! (pos div 16) = pt_pages t ! (pos div 16)"
        using False idx k(6) by (simp add: nth_append)
      have "pt_pages t ! (pos div 16) \<noteq> pa_target a"
        using nth_eq_iff_index_eq [OF d [unfolded k(6)], of "pos div 16" "pt_tokens t div 16"] False idx k(1)
        by (simp add: nth_append)
      with eq k(5) show ?thesis by simp
    qed
  qed
qed

lemma table_rows_after:
  assumes ch: "append_chain t p as" and wf: "table_wf t" "table_wf (apply_all as t)"
    and b: "b = \<lparr>pb_sequence_id = s, pb_expected_tokens = n, pb_additions = as\<rparr>"
    and len: "length rows = length as"
    and k: "kernel_wrote (copy_pages (batch_copy_on_write_pages b) m) (pt_pages (apply_all as t)) (pt_tokens t) rows m'"
  shows "table_view m' (apply_all as t) = table_view m t @ map Some rows"
proof -
  let ?ps = "pt_pages (apply_all as t)"
  let ?N = "pt_tokens t"
  have d: "distinct ?ps" using wf(2) by (simp add: table_wf_def)
  have old: "m' (?ps ! (pos div 16)) (pos mod 16) = m (pt_pages t ! (pos div 16)) (pos mod 16)"
    if pos: "pos < ?N" for pos
  proof -
    have "?ps ! (pos div 16) \<noteq> ?ps ! ((?N + i) div 16) \<or> pos mod 16 \<noteq> (?N + i) mod 16"
      if i: "i < length rows" for i
    proof -
      have "pos div 16 < length ?ps" "(?N + i) div 16 < length ?ps"
        using logical_to_physical_wf(1) [OF wf(2)] pos i len by auto
      moreover have "pos div 16 \<noteq> (?N + i) div 16 \<or> pos mod 16 \<noteq> (?N + i) mod 16"
        using pos by (metis div_mod_decomp not_add_less1)
      ultimately show ?thesis using d by (auto simp: nth_eq_iff_index_eq)
    qed
    then have "m' (?ps ! (pos div 16)) (pos mod 16) =
        copy_pages (batch_copy_on_write_pages b) m (?ps ! (pos div 16)) (pos mod 16)"
      using k by (auto simp: kernel_wrote_def CUDA_KV_PAGE_TOKENS_def)
    with batch_page_before [OF ch wf b pos, of m] show ?thesis by simp
  qed
  have new: "m' (?ps ! ((?N + i) div 16)) ((?N + i) mod 16) = rows ! i" if "i < length rows" for i
    using k that by (simp add: kernel_wrote_def CUDA_KV_PAGE_TOKENS_def)
  show ?thesis
    unfolding table_view_eq [OF wf(1)] table_view_eq [OF wf(2)]
  proof (rule nth_equalityI)
    fix i assume i: "i < length (map (\<lambda>pos. Some (m' (?ps ! (pos div 16)) (pos mod 16))) [0..<pt_tokens (apply_all as t)])"
    show "map (\<lambda>pos. Some (m' (?ps ! (pos div 16)) (pos mod 16))) [0..<pt_tokens (apply_all as t)] ! i =
        (map (\<lambda>pos. Some (m (pt_pages t ! (pos div 16)) (pos mod 16))) [0..<?N] @ map Some rows) ! i"
    proof (cases "i < ?N")
      case True
      with old [of i] show ?thesis by (simp add: nth_append)
    next
      case False
      with new [of "i - ?N"] i len show ?thesis by (simp add: nth_append)
    qed
  qed (simp add: len)
qed

lemma other_rows_kept:
  assumes ch: "append_chain t p1 as" and wf: "table_wf t" "table_wf (apply_all as t)" "table_wf u"
    and own: "mset (pt_pages t) + mset (pt_pages u) \<subseteq># held p"
    and held: "held p1 = held p + mset (alloc_targets as)"
    and b: "b = \<lparr>pb_sequence_id = s, pb_expected_tokens = n, pb_additions = as\<rparr>"
    and len: "length rows = length as"
    and k: "kernel_wrote (copy_pages (batch_copy_on_write_pages b) m) (pt_pages (apply_all as t)) (pt_tokens t) rows m'"
  shows "table_view m' u = table_view m u"
proof -
  let ?ps = "pt_pages (apply_all as t)"
  have same: "m' h off = m h off" if h: "h \<in> set (pt_pages u)" for h off
  proof -
    have elsewhere: "pa_target a \<noteq> h" if "a \<in> set as" for a
      using target_not_elsewhere [OF own held append_chain_targets [OF ch that] chain_target_origin [OF ch that]] h
      by auto
    have "h \<noteq> ?ps ! ((pt_tokens t + i) div 16)" if "i < length rows" for i
      using chain_targets_at [OF ch, of i] that len elsewhere [of "as ! i"] by (auto simp: list_get_Some_iff)
    then have "m' h off = copy_pages (batch_copy_on_write_pages b) m h off"
      using k by (auto simp: kernel_wrote_def CUDA_KV_PAGE_TOKENS_def)
    also have "\<dots> = m h off"
      using batch_shape [OF ch wf(1) b] by (auto simp: Let_def dest: elsewhere)
    finally show ?thesis .
  qed
  have "m' (pt_pages u ! (pos div 16)) (pos mod 16) = m (pt_pages u ! (pos div 16)) (pos mod 16)"
    if "pos < pt_tokens u" for pos
    by (rule same) (use logical_to_physical_wf(1) [OF wf(3) that] in simp)
  then show ?thesis by (simp add: table_view_eq [OF wf(3)])
qed

section \<open>Properties\<close>


text \<open>C1. Copy-on-write isolation. When a sequence appends a batch, copying first, then writing the new
  rows through the planned pages, then committing, it afterwards reads its old rows followed by
  the new ones; and any other sequence that holds pages of its own references, shared with it by
  a fork or not, reads exactly what it read before.\<close>

theorem append_isolated:
  assumes "pool_inv p" "table_wf t" "table_wf u" "mset (pt_pages t) + mset (pt_pages u) \<subseteq># held p"
    and "prepare_append_batch t (length rows) p = (Ok b, p1)"
    and "planned_pages_after_batch t b = Ok ps"
    and "kernel_wrote (copy_pages (batch_copy_on_write_pages b) m) ps (pt_tokens t) rows m'"
    and "commit_append_batch b (t, p1) = (Ok (), (t', p2))"
  shows "table_view m' t' = table_view m t @ map Some rows \<and> table_view m' u = table_view m u"
proof -
  have own: "mset (pt_pages t) \<subseteq># held p" using assms(4) by (metis mset_subset_eq_add_left subset_mset.order_trans)
  from append_batch_law [OF assms(1,2) own assms(5)] obtain as where
    a: "b = \<lparr>pb_sequence_id = pt_sequence_id t, pb_expected_tokens = pt_tokens t, pb_additions = as\<rparr>"
      "append_chain t p1 as" "length as = length rows" "held p1 = held p + mset (alloc_targets as)"
      "table_wf (apply_all as t)" "t' = apply_all as t"
    using assms(8) by auto
  have ps: "ps = pt_pages (apply_all as t)"
    using plan_all_Ok [OF a(2)] assms(6) a(1) by (simp add: planned_pages_after_batch_def)
  have len: "length rows = length as" using a(3) by simp
  show ?thesis
    using table_rows_after [OF a(2) assms(2) a(5) a(1) len assms(7) [unfolded ps]]
      other_rows_kept [OF a(2) assms(2) a(5) assms(3,4) a(4) a(1) len assms(7) [unfolded ps]]
    by (simp add: a(6))
qed

section \<open>A shared page, concretely\<close>

text \<open>One sequence with one token on one page, forked: the next append must copy the page.\<close>

definition parent_table :: page_table where
  "parent_table = \<lparr>pt_sequence_id = 1, pt_pages = [demo_handle], pt_tokens = 1\<rparr>"

definition child_table :: page_table where
  "child_table = \<lparr>pt_sequence_id = 2, pt_pages = [demo_handle], pt_tokens = 1\<rparr>"

definition shared_pool :: page_pool where
  "shared_pool = snd (fork parent_table 2 demo_pool1)"

definition shared_batch :: pending_batch where
  "shared_batch = (case fst (prepare_append_batch parent_table 1 shared_pool) of Ok b \<Rightarrow> b)"

definition copied_handle :: page_handle where
  "copied_handle = \<lparr>ph_index = 1, ph_generation = 1\<rparr>"

lemma table_wf_parent: "table_wf parent_table"
  by code_simp

lemma table_wf_child: "table_wf child_table"
  by code_simp

lemma shared_fork: "fork parent_table 2 demo_pool1 = (Ok child_table, shared_pool)"
  by code_simp

lemma shared_pool_inv: "pool_inv shared_pool" "held shared_pool = {#demo_handle, demo_handle#}"
proof -
  have "distinct (pt_pages parent_table)" "mset (pt_pages parent_table) \<subseteq># held demo_pool1"
    by (simp_all add: parent_table_def demo_pool1_inv)
  from fork_law [OF demo_pool1_inv(1) this, of 2] shared_fork
  show "pool_inv shared_pool" "held shared_pool = {#demo_handle, demo_handle#}"
    by (auto simp: demo_pool1_inv(2) parent_table_def)
qed

lemma shared_prepare:
  "prepare_append_batch parent_table 1 shared_pool = (Ok shared_batch, snd (prepare_append_batch parent_table 1 shared_pool))"
  by code_simp

lemma shared_copies: "batch_copy_on_write_pages shared_batch = [(demo_handle, copied_handle)]"
  by code_simp

lemma shared_planned: "planned_pages_after_batch parent_table shared_batch = Ok [copied_handle]"
  by code_simp

lemma shared_commit:
  "commit_append_batch shared_batch (parent_table, snd (prepare_append_batch parent_table 1 shared_pool)) =
    (Ok (), (parent_table\<lparr>pt_pages := [copied_handle], pt_tokens := 2\<rparr>,
      snd (snd (commit_append_batch shared_batch (parent_table, snd (prepare_append_batch parent_table 1 shared_pool))))))"
  by code_simp


theorem append_isolated_witness:
  "table_view ((\<lambda>_ _. 7)(copied_handle := (\<lambda>_. 7)(1 := 42 :: nat)))
      (parent_table\<lparr>pt_pages := [copied_handle], pt_tokens := 2\<rparr>) = [Some 7, Some 42] \<and>
    table_view ((\<lambda>_ _. 7)(copied_handle := (\<lambda>_. 7)(1 := 42 :: nat))) child_table = [Some 7]"
proof -
  let ?m = "\<lambda>_ _. 7 :: nat"
  have own: "mset (pt_pages parent_table) + mset (pt_pages child_table) \<subseteq># held shared_pool"
    by (simp add: shared_pool_inv parent_table_def child_table_def)
  have prep: "prepare_append_batch parent_table (length [42 :: nat]) shared_pool =
      (Ok shared_batch, snd (prepare_append_batch parent_table 1 shared_pool))"
    using shared_prepare by simp
  have kern: "kernel_wrote (copy_pages (batch_copy_on_write_pages shared_batch) ?m) [copied_handle]
      (pt_tokens parent_table) [42] ((\<lambda>_ _. 7)(copied_handle := (\<lambda>_. 7)(1 := 42)))"
    unfolding shared_copies by (auto simp: kernel_wrote_def parent_table_def CUDA_KV_PAGE_TOKENS_def)
  have views: "table_view ?m parent_table = [Some 7]" "table_view ?m child_table = [Some 7]"
    by code_simp+
  from append_isolated [OF shared_pool_inv(1) table_wf_parent table_wf_child own prep shared_planned kern shared_commit]
  show ?thesis by (simp add: views)
qed

end
