(* ===== verification/Device_Pages.thy ===== *)
theory Device_Pages
  imports Paged_Pool
begin

text \<open>
  The device side of the paged KV cache (\<open>CudaDeviceKvPageStore\<close> of \<open>src/src/cuda_resident.rs\<close>): a slot
  for every page index, with the generation and the bytes of the page that occupies it.

  The store is a map from handles to the bytes of their pages (\<open>dev_page\<close>); the lemmas say what every
  operation does to that map, on success and on every failure. The CUDA driver is a parameter: it
  answers the \<open>n\<close>-th call, and the store counts its calls.
\<close>

section \<open>The driver and the store\<close>

record driver =
  dr_alloc_fails :: "nat \<Rightarrow> bool"
  dr_copy_fails :: "nat \<Rightarrow> bool"
  dr_sync_fails :: "nat \<Rightarrow> bool"

datatype device_error =
    DeviceLayout page_error
  | SlotOccupied
  | AllocationFailed
  | ByteCountOverflow
  | CopyStale
  | CopyFailed
  | SyncFailed
  | DeviceStale
  | LayerOutOfRange
  | EmptyPageTable
  | TableUploadFailed
  | StoreDisabled

record device_page =
  dp_generation :: u64
  dp_keys :: "bytes list"
  dp_values :: "bytes list"

record device_store =
  ds_layout :: page_layout
  ds_side_bytes :: usize
  ds_pages :: "device_page option list"
  ds_allocated :: usize
  ds_high :: usize
  ds_calls :: nat

definition device_new :: "page_layout \<Rightarrow> (device_store, device_error) outcome" where
  "device_new l =
     bindR (map_err DeviceLayout (page_bytes l)) (\<lambda>b.
       Ok \<lparr>ds_layout = l, ds_side_bytes = b div layer_count l div 2, ds_pages = [], ds_allocated = 0,
           ds_high = 0, ds_calls = 0\<rparr>)"

text \<open>\<open>allocate_side\<close>: one allocation of zeroed bytes per layer, up to the first that fails.\<close>

fun alloc_side :: "driver \<Rightarrow> nat \<Rightarrow> usize \<Rightarrow> nat \<Rightarrow> bytes list option \<times> nat" where
  "alloc_side d 0 sz n = (Some [], n)"
| "alloc_side d (Suc k) sz n =
     (if dr_alloc_fails d n then (None, n + 1)
      else case alloc_side d k sz (n + 1) of
             (None, n') \<Rightarrow> (None, n')
           | (Some bs, n') \<Rightarrow> (Some (replicate sz 0 # bs), n'))"

definition slot_of :: "device_store \<Rightarrow> page_handle \<Rightarrow> device_page option" where
  "slot_of s h = (case list_get (ds_pages s) (unat (ph_index h)) of Some (Some pg) \<Rightarrow> Some pg | _ \<Rightarrow> None)"

text \<open>\<open>resize_with(index + 1, || None)\<close> when the vector is too short, and the assignment.\<close>

definition put_slot :: "page_handle \<Rightarrow> device_page option \<Rightarrow> device_store \<Rightarrow> device_store" where
  "put_slot h pg s =
     (let i = unat (ph_index h);
          ps = (if length (ds_pages s) \<le> i then ds_pages s @ replicate (i + 1 - length (ds_pages s)) None else ds_pages s)
      in s\<lparr>ds_pages := ps[i := pg]\<rparr>)"

text \<open>The byte count is updated after the page is in place: when it overflows the page stays.\<close>

definition device_allocate :: "driver \<Rightarrow> page_handle \<Rightarrow> device_store \<Rightarrow> (unit, device_error) outcome \<times> device_store" where
  "device_allocate d h s =
     (if slot_of s h \<noteq> None then (Err SlotOccupied, s)
      else
        case alloc_side d (layer_count (ds_layout s)) (ds_side_bytes s) (ds_calls s) of
          (None, n) \<Rightarrow> (Err AllocationFailed, s\<lparr>ds_calls := n\<rparr>)
        | (Some ks, n) \<Rightarrow>
            (case alloc_side d (layer_count (ds_layout s)) (ds_side_bytes s) n of
               (None, n') \<Rightarrow> (Err AllocationFailed, s\<lparr>ds_calls := n'\<rparr>)
             | (Some vs, n') \<Rightarrow>
                 let s1 = (put_slot h (Some \<lparr>dp_generation = ph_generation h, dp_keys = ks, dp_values = vs\<rparr>) s)\<lparr>ds_calls := n'\<rparr>
                 in (case Option.bind (checked_mul_us (ds_side_bytes s) (layer_count (ds_layout s))) (\<lambda>b. checked_mul_us b 2) of
                       None \<Rightarrow> (Err ByteCountOverflow, s1)
                     | Some b \<Rightarrow>
                         (case checked_add_us (ds_allocated s1) b of
                            None \<Rightarrow> (Err ByteCountOverflow, s1)
                          | Some a \<Rightarrow> (Ok (), s1\<lparr>ds_allocated := a, ds_high := max (ds_high s1) a\<rparr>)))))"

definition device_validate :: "device_store \<Rightarrow> page_handle \<Rightarrow> bool" where
  "device_validate s h = (case slot_of s h of Some pg \<Rightarrow> dp_generation pg = ph_generation h | None \<Rightarrow> False)"

text \<open>A number of copies in a row, up to the first that fails.\<close>

fun copy_calls :: "driver \<Rightarrow> nat \<Rightarrow> nat \<Rightarrow> bool \<times> nat" where
  "copy_calls d 0 n = (True, n)"
| "copy_calls d (Suc k) n = (if dr_copy_fails d n then (False, n + 1) else copy_calls d k (n + 1))"

text \<open>The upload of the host copies, layer by layer, keys before values; a failure leaves the layers
  before it written.\<close>

fun upload_layers :: "driver \<Rightarrow> bytes list \<Rightarrow> bytes list \<Rightarrow> nat list \<Rightarrow> device_page \<Rightarrow> nat \<Rightarrow> bool \<times> device_page \<times> nat" where
  "upload_layers d ks vs [] pg n = (True, pg, n)"
| "upload_layers d ks vs (l # ls) pg n =
     (if dr_copy_fails d n then (False, pg, n + 1)
      else
        let pg1 = pg\<lparr>dp_keys := (dp_keys pg)[l := ks ! l]\<rparr> in
        if dr_copy_fails d (n + 1) then (False, pg1, n + 2)
        else upload_layers d ks vs ls (pg1\<lparr>dp_values := (dp_values pg1)[l := vs ! l]\<rparr>) (n + 2))"

definition device_copy ::
  "driver \<Rightarrow> page_handle \<Rightarrow> page_handle \<Rightarrow> device_store \<Rightarrow> (unit, device_error) outcome \<times> device_store" where
  "device_copy d source target s =
     (if source = target \<or> \<not> device_validate s source \<or> \<not> device_validate s target then (Err CopyStale, s)
      else
        case (slot_of s source, slot_of s target) of
          (Some sp, Some tp) \<Rightarrow>
            let layers = layer_count (ds_layout s);
                (ok, n) = copy_calls d (2 * layers) (ds_calls s)
            in if \<not> ok then (Err CopyFailed, s\<lparr>ds_calls := n\<rparr>)
               else if dr_sync_fails d n then (Err SyncFailed, s\<lparr>ds_calls := n + 1\<rparr>)
               else
                 let (ok', tp', n') = upload_layers d (dp_keys sp) (dp_values sp) [0..<layers] tp (n + 1);
                     s1 = (put_slot target (Some tp') s)\<lparr>ds_calls := n'\<rparr>
                 in if \<not> ok' then (Err CopyFailed, s1)
                    else if dr_sync_fails d n' then (Err SyncFailed, s1\<lparr>ds_calls := n' + 1\<rparr>)
                    else (Ok (), s1\<lparr>ds_calls := n' + 1\<rparr>)
        | _ \<Rightarrow> (Panic, s))"

definition device_release :: "driver \<Rightarrow> page_handle \<Rightarrow> device_store \<Rightarrow> (unit, device_error) outcome \<times> device_store" where
  "device_release d h s =
     (if \<not> device_validate s h then (Err DeviceStale, s)
      else if dr_sync_fails d (ds_calls s) then (Err SyncFailed, s\<lparr>ds_calls := ds_calls s + 1\<rparr>)
      else
        (Ok (), (put_slot h None s)
           \<lparr>ds_allocated := ds_allocated s - ds_side_bytes s * layer_count (ds_layout s) * 2, ds_calls := ds_calls s + 1\<rparr>))"

section \<open>Pointer tables\<close>

text \<open>The device addresses of the key and value bytes of a page and a layer are the driver's; \<open>ptr\<close> stands
  for them.\<close>

fun layer_pointers ::
  "(page_handle \<Rightarrow> nat \<Rightarrow> u64 \<times> u64) \<Rightarrow> device_store \<Rightarrow> page_handle list \<Rightarrow> nat \<Rightarrow> ((u64 \<times> u64) list, device_error) outcome" where
  "layer_pointers ptr s [] layer = (if layer_count (ds_layout s) \<le> layer then Err LayerOutOfRange else Ok [])"
| "layer_pointers ptr s (h # hs) layer =
     (if layer_count (ds_layout s) \<le> layer then Err LayerOutOfRange
      else if \<not> device_validate s h then Err DeviceStale
      else bindR (layer_pointers ptr s hs layer) (\<lambda>ps. Ok (ptr h layer # ps)))"

text \<open>The two uploads of \<open>upload_layer_pointer_tables\<close>: the key addresses, then the value addresses.\<close>

definition upload_layer_pointer_tables ::
  "driver \<Rightarrow> (page_handle \<Rightarrow> nat \<Rightarrow> u64 \<times> u64) \<Rightarrow> page_handle list \<Rightarrow> nat \<Rightarrow> device_store \<Rightarrow>
     (u64 list \<times> u64 list, device_error) outcome \<times> device_store" where
  "upload_layer_pointer_tables d ptr handles layer s =
     bindS (layer_pointers ptr s handles layer, s) (\<lambda>ps s.
       if dr_copy_fails d (ds_calls s) then (Err TableUploadFailed, s\<lparr>ds_calls := ds_calls s + 1\<rparr>)
       else if dr_copy_fails d (ds_calls s + 1) then (Err TableUploadFailed, s\<lparr>ds_calls := ds_calls s + 2\<rparr>)
       else (Ok (map fst ps, map snd ps), s\<lparr>ds_calls := ds_calls s + 2\<rparr>))"

text \<open>One row of the batched table: the row's pointers, padded with zeros to the stride.\<close>

fun pointer_rows ::
  "(page_handle \<Rightarrow> nat \<Rightarrow> u64 \<times> u64) \<Rightarrow> device_store \<Rightarrow> usize \<Rightarrow> (nat \<times> page_handle list) list \<Rightarrow> ((u64 \<times> u64) list, device_error) outcome" where
  "pointer_rows ptr s stride [] = Ok []"
| "pointer_rows ptr s stride ((layer, row) # rows) =
     bindR (layer_pointers ptr s row layer) (\<lambda>ps.
       bindR (pointer_rows ptr s stride rows) (\<lambda>rest.
         Ok (ps @ replicate (stride - length ps) (0, 0) @ rest)))"

definition batched_pointer_tables ::
  "(page_handle \<Rightarrow> nat \<Rightarrow> u64 \<times> u64) \<Rightarrow> device_store \<Rightarrow> page_handle list list \<Rightarrow> nat \<Rightarrow> ((u64 \<times> u64) list \<times> usize, device_error) outcome" where
  "batched_pointer_tables ptr s handles layers =
     (let stride = fold max (map length handles) 0 in
      if handles = [] \<or> stride = 0 then Err EmptyPageTable
      else bindR (pointer_rows ptr s stride (List.product [0..<layers] handles)) (\<lambda>ps. Ok (ps, stride)))"

record device_snap =
  dsn_resident_pages :: usize
  dsn_allocated_bytes :: usize
  dsn_high_watermark_bytes :: usize

definition device_snapshot :: "device_store \<Rightarrow> device_snap" where
  "device_snapshot s =
     \<lparr>dsn_resident_pages = length (filter (\<lambda>p. p \<noteq> None) (ds_pages s)), dsn_allocated_bytes = ds_allocated s,
      dsn_high_watermark_bytes = ds_high s\<rparr>"

section \<open>The store as a map\<close>

definition dev_page :: "device_store \<Rightarrow> page_handle \<rightharpoonup> bytes list \<times> bytes list" where
  "dev_page s h = (case slot_of s h of
     Some pg \<Rightarrow> if dp_generation pg = ph_generation h then Some (dp_keys pg, dp_values pg) else None | None \<Rightarrow> None)"

definition page_size :: "device_store \<Rightarrow> usize" where
  "page_size s = ds_side_bytes s * layer_count (ds_layout s) * 2"

definition resident :: "device_store \<Rightarrow> nat" where
  "resident s = length (filter (\<lambda>p. p \<noteq> None) (ds_pages s))"

definition full_page :: "device_store \<Rightarrow> bytes list \<times> bytes list \<Rightarrow> bool" where
  "full_page s = (\<lambda>(ks, vs). length ks = layer_count (ds_layout s) \<and> length vs = layer_count (ds_layout s) \<and>
     (\<forall>b \<in> set ks \<union> set vs. length b = ds_side_bytes s))"

definition dev_inv :: "device_store \<Rightarrow> bool" where
  "dev_inv s \<longleftrightarrow> ds_allocated s = page_size s * resident s \<and> ds_allocated s \<le> ds_high s \<and>
     (\<forall>pg. Some pg \<in> set (ds_pages s) \<longrightarrow> full_page s (dp_keys pg, dp_values pg))"

definition same_shape :: "device_store \<Rightarrow> device_store \<Rightarrow> bool" where
  "same_shape s s' \<longleftrightarrow> ds_layout s' = ds_layout s \<and> ds_side_bytes s' = ds_side_bytes s"

definition zero_page :: "device_store \<Rightarrow> bytes list \<times> bytes list" where
  "zero_page s = (let side = replicate (layer_count (ds_layout s)) (replicate (ds_side_bytes s) 0) in (side, side))"

lemma device_validate_iff: "device_validate s h \<longleftrightarrow> h \<in> dom (dev_page s)"
  by (auto simp: device_validate_def dev_page_def split: option.splits if_splits)

lemma slot_of_index: "ph_index k = ph_index h \<Longrightarrow> slot_of s k = slot_of s h"
  by (simp add: slot_of_def)

text \<open>The vector that \<open>put_slot\<close> assigns into.\<close>

definition padded :: "page_handle \<Rightarrow> device_store \<Rightarrow> device_page option list" where
  "padded h s = (let i = unat (ph_index h) in
     if length (ds_pages s) \<le> i then ds_pages s @ replicate (i + 1 - length (ds_pages s)) None else ds_pages s)"

lemma padded:
  "unat (ph_index h) < length (padded h s)" "ds_pages (put_slot h pg s) = (padded h s)[unat (ph_index h) := pg]"
  "unat (ph_index k) < length (padded h s) \<Longrightarrow> padded h s ! unat (ph_index k) = slot_of s k"
  "length (padded h s) \<le> unat (ph_index k) \<Longrightarrow> slot_of s k = None"
  "length (filter (\<lambda>p. p \<noteq> None) (padded h s)) = resident s"
  by (auto simp: padded_def put_slot_def Let_def slot_of_def list_get_def nth_append resident_def split: option.splits if_splits)

lemma slot_of_put: "slot_of (put_slot h pg s) k = (if ph_index k = ph_index h then pg else slot_of s k)"
proof -
  have i: "unat (ph_index k) = unat (ph_index h) \<longleftrightarrow> ph_index k = ph_index h" by (simp add: word_unat_eq_iff)
  show ?thesis
  proof (cases "unat (ph_index k) < length (padded h s)")
    case True
    then have "slot_of (put_slot h pg s) k = (padded h s)[unat (ph_index h) := pg] ! unat (ph_index k)"
      by (simp add: slot_of_def [of "put_slot h pg s"] list_get_def padded(2) split: option.splits)
    then show ?thesis using True padded(3) [OF True] i padded(1) by (auto simp: nth_list_update)
  next
    case False
    then have "slot_of (put_slot h pg s) k = None" by (simp add: slot_of_def list_get_def padded(2))
    moreover have "ph_index k \<noteq> ph_index h" using False padded(1) i by auto
    ultimately show ?thesis using False padded(4) [of h s k] by simp
  qed
qed

lemma put_slot_fields [simp]:
  "ds_layout (put_slot h pg s) = ds_layout s" "ds_side_bytes (put_slot h pg s) = ds_side_bytes s"
  "ds_allocated (put_slot h pg s) = ds_allocated s" "ds_high (put_slot h pg s) = ds_high s" "ds_calls (put_slot h pg s) = ds_calls s"
  by (simp_all add: put_slot_def Let_def)

lemma slot_of_fields [simp]:
  "slot_of (s\<lparr>ds_calls := n\<rparr>) = slot_of s" "slot_of (s\<lparr>ds_allocated := a\<rparr>) = slot_of s" "slot_of (s\<lparr>ds_high := b\<rparr>) = slot_of s"
  by (simp_all add: slot_of_def fun_eq_iff)

lemma dev_page_fields [simp]:
  "dev_page (s\<lparr>ds_calls := n\<rparr>) = dev_page s" "dev_page (s\<lparr>ds_allocated := a\<rparr>) = dev_page s" "dev_page (s\<lparr>ds_high := b\<rparr>) = dev_page s"
  by (simp_all add: dev_page_def fun_eq_iff)

lemma resident_fields [simp]:
  "resident (s\<lparr>ds_calls := n\<rparr>) = resident s" "resident (s\<lparr>ds_allocated := a\<rparr>) = resident s" "resident (s\<lparr>ds_high := b\<rparr>) = resident s"
  by (simp_all add: resident_def)

lemma page_size_fields [simp]:
  "page_size (s\<lparr>ds_calls := n\<rparr>) = page_size s" "page_size (s\<lparr>ds_allocated := a\<rparr>) = page_size s" "page_size (s\<lparr>ds_high := b\<rparr>) = page_size s"
  "page_size (put_slot h pg s) = page_size s"
  by (simp_all add: page_size_def)

text \<open>Putting a page into a slot, or taking it out, changes the count of pages by one.\<close>

lemma resident_put:
  "resident (put_slot h (Some pg) s) = resident s + (if slot_of s h = None then 1 else 0)"
  "slot_of s h = Some q \<Longrightarrow> resident (put_slot h None s) + 1 = resident s"
proof -
  have cnt: "length (filter (\<lambda>p. p \<noteq> None) ((padded h s)[unat (ph_index h) := q])) + (if slot_of s h \<noteq> None then 1 else 0) =
      resident s + (if q \<noteq> None then 1 else 0)" for q
    using length_filter_update [OF padded(1), of "\<lambda>p. p \<noteq> None" h s q] padded(3) [OF padded(1)] padded(5) [of h s] by simp
  show "resident (put_slot h (Some pg) s) = resident s + (if slot_of s h = None then 1 else 0)"
    using cnt [of "Some pg"] by (auto simp: resident_def [of "put_slot h (Some pg) s"] padded(2))
  show "slot_of s h = Some q \<Longrightarrow> resident (put_slot h None s) + 1 = resident s"
    using cnt [of None] by (simp add: resident_def [of "put_slot h None s"] padded(2))
qed

lemma pages_put:
  assumes "Some pg \<in> set (ds_pages (put_slot h q s))"
  shows "q = Some pg \<or> Some pg \<in> set (ds_pages s)"
proof -
  let ?i = "unat (ph_index h)"
  have "set (ps[?i := q]) \<subseteq> insert q (set ps)" for ps by (rule set_update_subset_insert)
  with assms show ?thesis by (fastforce simp: put_slot_def Let_def split: if_splits)
qed

lemma slot_mem: "slot_of s h = Some pg \<Longrightarrow> Some pg \<in> set (ds_pages s)"
  by (auto simp: slot_of_def list_get_def split: option.splits if_splits) (metis nth_mem)

lemma full_page_fields [simp]: "full_page (put_slot h pg s) = full_page s" "full_page (s\<lparr>ds_calls := n\<rparr>) = full_page s"
  "full_page (s\<lparr>ds_allocated := a\<rparr>) = full_page s" "full_page (s\<lparr>ds_high := b\<rparr>) = full_page s"
  by (simp_all add: full_page_def fun_eq_iff)

lemma dev_inv_calls [simp]: "dev_inv (s\<lparr>ds_calls := n\<rparr>) \<longleftrightarrow> dev_inv s"
  by (simp add: dev_inv_def)

lemma same_shape_simps [simp]: "same_shape s s" "same_shape s (s\<lparr>ds_calls := n\<rparr>)" "same_shape s (put_slot h pg s)"
  by (simp_all add: same_shape_def)

section \<open>What the operations do to the map\<close>

lemma alloc_side_Some: "alloc_side d k sz n = (Some bs, n') \<Longrightarrow> bs = replicate k (replicate sz 0)"
proof (induction k arbitrary: n bs)
  case (Suc k)
  then show ?case by (auto split: if_splits prod.splits option.splits)
qed simp

text \<open>An allocation in a free slot gives a page of zeros, or fails and changes nothing.\<close>

lemma device_allocate_law:
  assumes inv: "dev_inv s" and free: "\<forall>k \<in> dom (dev_page s). ph_index k \<noteq> ph_index h"
    and room: "page_size s * (resident s + 1) \<le> usize_max"
  shows "\<exists>s'. same_shape s s' \<and> dev_inv s' \<and>
    (device_allocate d h s = (Ok (), s') \<and> dev_page s' = (dev_page s)(h \<mapsto> zero_page s) \<and> resident s' = resident s + 1 \<or>
     device_allocate d h s = (Err AllocationFailed, s') \<and> dev_page s' = dev_page s \<and> resident s' = resident s)"
proof -
  let ?L = "layer_count (ds_layout s)" and ?B = "ds_side_bytes s"
  have slot: "slot_of s h = None"
  proof (cases "slot_of s h")
    case (Some pg)
    let ?k = "h\<lparr>ph_generation := dp_generation pg\<rparr>"
    have "?k \<in> dom (dev_page s)" using Some slot_of_index [of ?k h s] by (simp add: dev_page_def domIff)
    then have "ph_index ?k \<noteq> ph_index h" using free by blast
    then show ?thesis by simp
  qed simp
  obtain a n where a: "alloc_side d ?L ?B (ds_calls s) = (a, n)" by (cases "alloc_side d ?L ?B (ds_calls s)")
  show ?thesis
  proof (cases a)
    case None
    with a slot inv show ?thesis by (intro exI [of _ "s\<lparr>ds_calls := n\<rparr>"]) (simp add: device_allocate_def)
  next
    case (Some ks)
    obtain b n' where b: "alloc_side d ?L ?B n = (b, n')" by (cases "alloc_side d ?L ?B n")
    show ?thesis
    proof (cases b)
      case None
      with a Some b slot inv show ?thesis by (intro exI [of _ "s\<lparr>ds_calls := n'\<rparr>"]) (simp add: device_allocate_def)
    next
      case (Some vs)
      let ?pg = "\<lparr>dp_generation = ph_generation h, dp_keys = ks, dp_values = vs\<rparr>"
      let ?s1 = "(put_slot h (Some ?pg) s)\<lparr>ds_calls := n'\<rparr>" and ?t = "page_size s * (resident s + 1)"
      let ?s2 = "?s1\<lparr>ds_allocated := ?t, ds_high := max (ds_high s) ?t\<rparr>"
      have kv: "ks = replicate ?L (replicate ?B 0)" "vs = replicate ?L (replicate ?B 0)"
        using a b \<open>a = Some ks\<close> Some alloc_side_Some by blast+
      have le: "page_size s \<le> usize_max" using room by (metis add.commute le_add1 mult_Suc_right order_trans plus_1_eq_Suc)
      then have m: "checked_mul_us ?B ?L = Some (?B * ?L)" "checked_mul_us (?B * ?L) 2 = Some (page_size s)"
        by (auto simp: checked_mul_us_def page_size_def)
      have add: "checked_add_us (ds_allocated s) (page_size s) = Some ?t"
        using inv room by (simp add: checked_add_us_def dev_inv_def algebra_simps)
      have call: "device_allocate d h s = (Ok (), ?s2)"
        using a b \<open>a = Some ks\<close> Some slot by (simp add: device_allocate_def Let_def m add)
      have page: "dev_page ?s2 k = ((dev_page s)(h \<mapsto> zero_page s)) k" for k
      proof (cases "ph_index k = ph_index h")
        case True
        with free have "dev_page s k = None" by (metis domIff)
        with True show ?thesis
          by (cases "k = h") (auto simp: dev_page_def slot_of_put kv zero_page_def Let_def)
      qed (auto simp: dev_page_def slot_of_put)
      have "full_page s (ks, vs)" by (auto simp: full_page_def kv)
      then have "dev_inv ?s2"
        using inv slot pages_put by (fastforce simp: dev_inv_def resident_put)
      moreover have "same_shape s ?s2" by (simp add: same_shape_def)
      moreover have "resident ?s2 = resident s + 1" using slot by (simp add: resident_put)
      ultimately show ?thesis using call page by (intro exI [of _ ?s2]) (simp add: fun_eq_iff)
    qed
  qed
qed

text \<open>A release takes the page out of the map, unless the driver cannot synchronize.\<close>

lemma device_release_law:
  assumes inv: "dev_inv s" and h: "h \<in> dom (dev_page s)" and sync: "\<not> dr_sync_fails d (ds_calls s)"
  shows "\<exists>s'. device_release d h s = (Ok (), s') \<and> same_shape s s' \<and> dev_inv s' \<and> dev_page s' = (dev_page s)(h := None) \<and>
    resident s' + 1 = resident s"
proof -
  let ?s' = "(put_slot h None s)\<lparr>ds_allocated := ds_allocated s - page_size s, ds_calls := ds_calls s + 1\<rparr>"
  from h obtain pg where pg: "slot_of s h = Some pg" "dp_generation pg = ph_generation h"
    by (auto simp: dev_page_def split: option.splits if_splits)
  have r: "resident (put_slot h None s) + 1 = resident s" by (rule resident_put(2) [OF pg(1)])
  have "device_release d h s = (Ok (), ?s')"
    using h sync by (simp add: device_release_def device_validate_iff page_size_def)
  moreover have "dev_page ?s' k = ((dev_page s)(h := None)) k" for k
    using pg slot_of_index [of k h s] by (cases "ph_index k = ph_index h"; cases "k = h") (auto simp: dev_page_def slot_of_put)
  moreover have "dev_inv ?s'"
  proof -
    have "ds_allocated s - page_size s = page_size s * resident (put_slot h None s)"
      using inv r by (simp add: dev_inv_def flip: r)
    with inv pages_put show ?thesis by (fastforce simp: dev_inv_def)
  qed
  ultimately show ?thesis using r by (intro exI [of _ ?s']) (simp add: same_shape_def fun_eq_iff)
qed

lemma full_page_update:
  "full_page s (ks, vs) \<Longrightarrow> length b = ds_side_bytes s \<Longrightarrow> full_page s (ks[l := b], vs)"
  "full_page s (ks, vs) \<Longrightarrow> length b = ds_side_bytes s \<Longrightarrow> full_page s (ks, vs[l := b])"
  using set_update_subset_insert [of ks l b] set_update_subset_insert [of vs l b] by (auto simp: full_page_def)

lemma upload_layers_law:
  assumes "full_page s (ks, vs)" "set ls \<subseteq> {..<layer_count (ds_layout s)}"
  shows "full_page s (dp_keys pg, dp_values pg) \<Longrightarrow> upload_layers d ks vs ls pg n = (ok, pg', n') \<Longrightarrow>
    dp_generation pg' = dp_generation pg \<and> full_page s (dp_keys pg', dp_values pg') \<and>
    (ok \<longrightarrow> (\<forall>l < layer_count (ds_layout s). dp_keys pg' ! l = (if l \<in> set ls then ks ! l else dp_keys pg ! l) \<and>
      dp_values pg' ! l = (if l \<in> set ls then vs ! l else dp_values pg ! l)))"
  using assms(2)
proof (induction ls arbitrary: pg n)
  case (Cons l ls)
  let ?pg1 = "pg\<lparr>dp_keys := (dp_keys pg)[l := ks ! l]\<rparr>"
  let ?pg2 = "?pg1\<lparr>dp_values := (dp_values pg)[l := vs ! l]\<rparr>"
  have l: "l < layer_count (ds_layout s)" using Cons.prems(3) by simp
  with assms(1) have "ks ! l \<in> set ks" "vs ! l \<in> set vs" by (auto simp: full_page_def)
  with assms(1) have b: "length (ks ! l) = ds_side_bytes s" "length (vs ! l) = ds_side_bytes s" by (auto simp: full_page_def)
  have f1: "full_page s (dp_keys ?pg1, dp_values ?pg1)" using full_page_update(1) [OF Cons.prems(1) b(1)] by simp
  have f2: "full_page s (dp_keys ?pg2, dp_values ?pg2)" using full_page_update(2) [OF f1 b(2)] by simp
  show ?case
  proof (cases "dr_copy_fails d n \<or> dr_copy_fails d (n + 1)")
    case True
    with Cons.prems(1,2) f1 show ?thesis by (auto simp: Let_def split: if_splits)
  next
    case False
    then have "upload_layers d ks vs ls ?pg2 (n + 2) = (ok, pg', n')" using Cons.prems(2) by (simp add: Let_def)
    from Cons.IH [OF f2 this] Cons.prems(3) have IH: "dp_generation pg' = dp_generation pg" "full_page s (dp_keys pg', dp_values pg')"
      "ok \<longrightarrow> (\<forall>j < layer_count (ds_layout s). dp_keys pg' ! j = (if j \<in> set ls then ks ! j else dp_keys ?pg2 ! j) \<and>
        dp_values pg' ! j = (if j \<in> set ls then vs ! j else dp_values ?pg2 ! j))" by auto
    have len: "length (dp_keys pg) = layer_count (ds_layout s)" "length (dp_values pg) = layer_count (ds_layout s)"
      using Cons.prems(1) by (auto simp: full_page_def)
    show ?thesis using IH len by (auto simp: nth_list_update)
  qed
qed simp

text \<open>A copy makes the target page equal to the source page, or fails with nothing but the target page
  changed.\<close>

lemma device_copy_law:
  assumes inv: "dev_inv s" and src: "source \<in> dom (dev_page s)" and tgt: "target \<in> dom (dev_page s)" and ne: "source \<noteq> target"
  shows "\<exists>s'. same_shape s s' \<and> dev_inv s' \<and> resident s' = resident s \<and>
    (device_copy d source target s = (Ok (), s') \<and> dev_page s' = (dev_page s)(target := dev_page s source) \<or>
     (\<exists>e c. device_copy d source target s = (Err e, s') \<and> dev_page s' = (dev_page s)(target \<mapsto> c)))"
proof -
  let ?L = "layer_count (ds_layout s)"
  from src tgt obtain sp tp where sp: "slot_of s source = Some sp" "dp_generation sp = ph_generation source"
    and tp: "slot_of s target = Some tp" "dp_generation tp = ph_generation target"
    by (auto simp: dev_page_def split: option.splits if_splits)
  have full: "full_page s (dp_keys sp, dp_values sp)" "full_page s (dp_keys tp, dp_values tp)"
    using inv slot_mem [OF sp(1)] slot_mem [OF tp(1)] by (auto simp: dev_inv_def)
  have keep: "(dev_page s)(target \<mapsto> (dp_keys tp, dp_values tp)) = dev_page s" using tp by (simp add: fun_upd_idem_iff dev_page_def)
  have put: "dev_page ((put_slot target (Some q) s)\<lparr>ds_calls := m\<rparr>) = (dev_page s)(target \<mapsto> (dp_keys q, dp_values q)) \<and>
      dev_inv ((put_slot target (Some q) s)\<lparr>ds_calls := m\<rparr>) \<and> resident ((put_slot target (Some q) s)\<lparr>ds_calls := m\<rparr>) = resident s"
    if "dp_generation q = dp_generation tp" "full_page s (dp_keys q, dp_values q)" for q m
  proof -
    have "dev_page (put_slot target (Some q) s) k = ((dev_page s)(target \<mapsto> (dp_keys q, dp_values q))) k" for k
      using tp that(1) slot_of_index [of k target s]
      by (cases "ph_index k = ph_index target"; cases "k = target") (auto simp: dev_page_def slot_of_put)
    moreover have "dev_inv (put_slot target (Some q) s)" using inv that(2) tp(1) pages_put by (fastforce simp: dev_inv_def resident_put)
    ultimately show ?thesis using tp(1) by (simp add: fun_eq_iff resident_put)
  qed
  have val: "device_validate s source" "device_validate s target" using src tgt by (simp_all add: device_validate_iff)
  obtain ok n where r: "copy_calls d (2 * ?L) (ds_calls s) = (ok, n)" by (cases "copy_calls d (2 * ?L) (ds_calls s)")
  obtain ok' tp' n' where u: "upload_layers d (dp_keys sp) (dp_values sp) [0..<?L] tp (n + 1) = (ok', tp', n')"
    by (cases "upload_layers d (dp_keys sp) (dp_values sp) [0..<?L] tp (n + 1)")
  have sub: "set [0..<?L] \<subseteq> {..<?L}" by auto
  have law: "dp_generation tp' = dp_generation tp" "full_page s (dp_keys tp', dp_values tp')"
    "ok' \<Longrightarrow> \<forall>l < ?L. dp_keys tp' ! l = dp_keys sp ! l \<and> dp_values tp' ! l = dp_values sp ! l"
    using upload_layers_law [OF full(1) sub full(2) u] by auto
  show ?thesis
  proof (cases "\<not> ok \<or> dr_sync_fails d n")
    case True
    then have "\<exists>e m. device_copy d source target s = (Err e, s\<lparr>ds_calls := m\<rparr>)"
      using ne val sp tp r by (auto simp: device_copy_def Let_def)
    then obtain e m where "device_copy d source target s = (Err e, s\<lparr>ds_calls := m\<rparr>)" by blast
    moreover have "\<exists>c. dev_page s = (dev_page s)(target \<mapsto> c)" using keep by metis
    ultimately show ?thesis using inv by (intro exI [of _ "s\<lparr>ds_calls := m\<rparr>"]) simp
  next
    case False
    show ?thesis
    proof (cases "ok' \<and> \<not> dr_sync_fails d n'")
      case True
      have "dp_keys tp' = dp_keys sp" "dp_values tp' = dp_values sp"
        using law(2,3) True full(1) by (auto simp: full_page_def intro!: nth_equalityI)
      then have "(dev_page s)(target \<mapsto> (dp_keys tp', dp_values tp')) = (dev_page s)(target := dev_page s source)"
        using sp by (simp add: dev_page_def)
      moreover have "device_copy d source target s = (Ok (), (put_slot target (Some tp') s)\<lparr>ds_calls := n' + 1\<rparr>)"
        using False True ne val sp tp r u by (simp add: device_copy_def Let_def)
      ultimately show ?thesis
        using put [OF law(1,2), of "n' + 1"] by (intro exI [of _ "(put_slot target (Some tp') s)\<lparr>ds_calls := n' + 1\<rparr>"]) (simp add: same_shape_def)
    next
      case bad: False
      have "\<exists>e m. device_copy d source target s = (Err e, (put_slot target (Some tp') s)\<lparr>ds_calls := m\<rparr>)"
        using False bad ne val sp tp r u by (auto simp: device_copy_def Let_def)
      then obtain e m where "device_copy d source target s = (Err e, (put_slot target (Some tp') s)\<lparr>ds_calls := m\<rparr>)" by blast
      then show ?thesis using put [OF law(1,2), of m]
        by (intro exI [of _ "(put_slot target (Some tp') s)\<lparr>ds_calls := m\<rparr>"]) (auto simp: same_shape_def simp del: fun_upd_apply)
    qed
  qed
qed

lemma device_new_law:
  assumes "device_new l = Ok s"
  shows "dev_inv s \<and> dev_page s = (\<lambda>_. None) \<and> resident s = 0 \<and> ds_calls s = 0"
  using assms by (auto simp: device_new_def dev_inv_def resident_def dev_page_def slot_of_def list_get_def fun_eq_iff outcome_iffs)

end
