(* ===== verification/Paged_Client.thy ===== *)
theory Paged_Client
  imports Paged_Table Device_Pages
begin

text \<open>
  The owner of the paged KV cache (\<open>ResidentCudaPagedKv\<close> and the paged methods of
  \<open>ResidentCudaSlot\<close>, \<open>src/src/inference.rs\<close>): the pool, one page table per live sequence, the record
  of the tokens its rows hold, the retained prefix of a finished conversation, and the device store.

  Every operation of the source that changes this state is a definition below, with its rollbacks. The
  engine's kernels are parameters: given the pages a row will occupy they return a result or fail, and
  may write the device pages.
\<close>

section \<open>State\<close>

datatype client_error =
    KvDisabled
  | TableMissing
  | TableExists
  | CapacityOverflow
  | CountsDiffer
  | KernelFailed
  | PoolError page_error
  | DeviceError device_error
  | RollbackFailed client_error

type_synonym seq_id = u64

record paged_kv =
  pk_pool :: page_pool
  pk_tables :: "seq_id \<rightharpoonup> page_table"
  pk_tokens :: "seq_id \<rightharpoonup> u32 list"
  pk_cached :: "(page_table \<times> u32 list) option"

record client =
  cl_kv :: "paged_kv option"
  cl_store :: "device_store option"

type_synonym 'r kernel = "page_handle list \<Rightarrow> device_store \<Rightarrow> 'r option \<times> device_store"
type_synonym 'r batch_kernel = "page_handle list list \<Rightarrow> device_store \<Rightarrow> 'r option \<times> device_store"

definition paged_kv_new :: "page_layout \<Rightarrow> usize \<Rightarrow> (paged_kv, client_error) outcome" where
  "paged_kv_new l capacity =
     bindR (map_err PoolError (pool_new l capacity)) (\<lambda>p.
       Ok \<lparr>pk_pool = p, pk_tables = (\<lambda>_. None), pk_tokens = (\<lambda>_. None), pk_cached = None\<rparr>)"

text \<open>The pool of an engine: pages for \<open>sequence_capacity\<close> sequences of the longest paged context.\<close>

definition SPLITK_THRESHOLD :: usize where
  "SPLITK_THRESHOLD = 512"

definition paged_kv_for_engine :: "usize \<Rightarrow> page_layout \<Rightarrow> usize \<Rightarrow> (paged_kv, client_error) outcome" where
  "paged_kv_for_engine max_pos l sequence_capacity =
     bindR
       (ok_or
          (Option.bind (map_option (\<lambda>n. div_ceil n CUDA_KV_PAGE_TOKENS) (checked_mul_us (min max_pos SPLITK_THRESHOLD) sequence_capacity))
             (\<lambda>pages. if 0 < pages then Some pages else None))
          CapacityOverflow)
       (paged_kv_new l)"

text \<open>The engine's page calls: the store must be enabled.\<close>

definition engine_call ::
  "(device_store \<Rightarrow> (unit, device_error) outcome \<times> device_store) \<Rightarrow> client \<Rightarrow> (unit, client_error) outcome \<times> client" where
  "engine_call f c =
     (case cl_store c of
        None \<Rightarrow> (Err (DeviceError StoreDisabled), c)
      | Some s \<Rightarrow> (case f s of (r, s') \<Rightarrow> (map_err DeviceError r, c\<lparr>cl_store := Some s'\<rparr>)))"

abbreviation engine_allocate :: "driver \<Rightarrow> page_handle \<Rightarrow> client \<Rightarrow> (unit, client_error) outcome \<times> client" where
  "engine_allocate d h \<equiv> engine_call (device_allocate d h)"
abbreviation engine_release :: "driver \<Rightarrow> page_handle \<Rightarrow> client \<Rightarrow> (unit, client_error) outcome \<times> client" where
  "engine_release d h \<equiv> engine_call (device_release d h)"
abbreviation engine_copy :: "driver \<Rightarrow> page_handle \<Rightarrow> page_handle \<Rightarrow> client \<Rightarrow> (unit, client_error) outcome \<times> client" where
  "engine_copy d s t \<equiv> engine_call (device_copy d s t)"

definition on_pool :: "(page_pool \<Rightarrow> ('a, page_error) outcome \<times> page_pool) \<Rightarrow> client \<Rightarrow> ('a, client_error) outcome \<times> client" where
  "on_pool f c =
     (case cl_kv c of
        None \<Rightarrow> (Err KvDisabled, c)
      | Some kv \<Rightarrow> (case f (pk_pool kv) of (r, p) \<Rightarrow> (map_err PoolError r, c\<lparr>cl_kv := Some (kv\<lparr>pk_pool := p\<rparr>)\<rparr>)))"

section \<open>Tables\<close>

text \<open>The table of a newly selected sequence (in \<open>select_resident_cuda_sequence\<close>); inserting over an
  existing table is an error of the source, after the insertion.\<close>

definition open_table :: "seq_id \<Rightarrow> client \<Rightarrow> (unit, client_error) outcome \<times> client" where
  "open_table sid c =
     (case cl_kv c of
        None \<Rightarrow> (Ok (), c)
      | Some kv \<Rightarrow>
          (if pk_tables kv sid = None then Ok () else Err TableExists,
           c\<lparr>cl_kv := Some (kv\<lparr>pk_tables := (pk_tables kv)(sid \<mapsto> table_new sid)\<rparr>)\<rparr>))"

definition paged_sequence_len :: "seq_id \<Rightarrow> client \<Rightarrow> (usize, client_error) outcome" where
  "paged_sequence_len sid c =
     (case cl_kv c of
        None \<Rightarrow> Err TableMissing
      | Some kv \<Rightarrow> ok_or (map_option pt_tokens (pk_tables kv sid)) TableMissing)"

definition paged_sequence_pages :: "seq_id \<Rightarrow> client \<Rightarrow> (page_handle list, client_error) outcome" where
  "paged_sequence_pages sid c =
     (case cl_kv c of
        None \<Rightarrow> Err TableMissing
      | Some kv \<Rightarrow> ok_or (map_option pt_pages (pk_tables kv sid)) TableMissing)"

fun exclusive_pages :: "page_pool \<Rightarrow> page_handle list \<Rightarrow> (page_handle list, page_error) outcome" where
  "exclusive_pages p [] = Ok []"
| "exclusive_pages p (h # hs) =
     bindR (references p h) (\<lambda>n. bindR (exclusive_pages p hs) (\<lambda>xs. Ok (if n = 1 then h # xs else xs)))"

definition release_paged_table :: "driver \<Rightarrow> page_table \<Rightarrow> client \<Rightarrow> (unit, client_error) outcome \<times> client" where
  "release_paged_table d t c =
     (case cl_kv c of
        None \<Rightarrow> (Err KvDisabled, c)
      | Some kv \<Rightarrow>
          bindS (map_err PoolError (exclusive_pages (pk_pool kv) (pt_pages t)), c) (\<lambda>exclusive c.
          bindS (iterS (engine_release d) exclusive c) (\<lambda>_ c.
          on_pool (\<lambda>p. case release_all (t, p) of (r, (_, p')) \<Rightarrow> (r, p')) c)))"

definition evict_paged_prefix :: "driver \<Rightarrow> client \<Rightarrow> (bool, client_error) outcome \<times> client" where
  "evict_paged_prefix d c =
     (case cl_kv c of
        None \<Rightarrow> (Ok False, c)
      | Some kv \<Rightarrow>
          (case pk_cached kv of
             None \<Rightarrow> (Ok False, c)
           | Some (t, toks) \<Rightarrow>
               bindS (release_paged_table d t (c\<lparr>cl_kv := Some (kv\<lparr>pk_cached := None\<rparr>)\<rparr>)) (\<lambda>_ c. (Ok True, c))))"

section \<open>The retained prefix\<close>

text \<open>The loop of \<open>resident_prefix_len\<close> (\<open>src/src/cuda_resident.rs\<close>), up to a limit within both lists.\<close>

fun common_len :: "nat \<Rightarrow> u32 list \<Rightarrow> u32 list \<Rightarrow> nat" where
  "common_len n (x # xs) (y # ys) = (if n \<noteq> 0 \<and> x = y then 1 + common_len (n - 1) xs ys else 0)"
| "common_len _ _ _ = 0"

definition resident_prefix_len :: "u32 list \<Rightarrow> usize \<Rightarrow> u32 list \<Rightarrow> usize" where
  "resident_prefix_len res filled toks = common_len (min (min (length res) filled) (length toks)) res toks"

definition adopt_paged_prefix :: "seq_id \<Rightarrow> u32 list \<Rightarrow> usize \<Rightarrow> client \<Rightarrow> (usize, client_error) outcome \<times> client" where
  "adopt_paged_prefix sid toks max_reuse c =
     (case cl_kv c of
        None \<Rightarrow> (Ok 0, c)
      | Some kv \<Rightarrow>
          (case pk_cached kv of
             None \<Rightarrow> (Ok 0, c)
           | Some (ct, ctoks) \<Rightarrow>
               let reuse = min (resident_prefix_len ctoks (pt_tokens ct) toks) max_reuse in
               if reuse = 0 then (Ok 0, c)
               else if (case pk_tables kv sid of None \<Rightarrow> True | Some t \<Rightarrow> pt_tokens t \<noteq> 0) then (Ok 0, c)
               else
                 (case fork ct sid (pk_pool kv) of
                    (Ok child, p) \<Rightarrow>
                      (case Paged_Table.truncate reuse (child, p) of
                         (Ok _, (child', p')) \<Rightarrow>
                           (Ok reuse, c\<lparr>cl_kv := Some (kv\<lparr>pk_pool := p', pk_tables := (pk_tables kv)(sid \<mapsto> child'),
                              pk_tokens := (pk_tokens kv)(sid \<mapsto> take reuse toks)\<rparr>)\<rparr>)
                       | (Err e, (child', p')) \<Rightarrow>
                           (Err (PoolError e), c\<lparr>cl_kv := Some (kv\<lparr>pk_pool := snd (snd (release_all (child', p')))\<rparr>)\<rparr>)
                       | (Panic, (child', p')) \<Rightarrow> (Panic, c\<lparr>cl_kv := Some (kv\<lparr>pk_pool := p'\<rparr>)\<rparr>))
                  | (Err e, p) \<Rightarrow> (Ok 0, c\<lparr>cl_kv := Some (kv\<lparr>pk_pool := p\<rparr>)\<rparr>)
                  | (Panic, p) \<Rightarrow> (Panic, c\<lparr>cl_kv := Some (kv\<lparr>pk_pool := p\<rparr>)\<rparr>))))"

definition set_paged_tokens :: "seq_id \<Rightarrow> u32 list \<Rightarrow> client \<Rightarrow> client" where
  "set_paged_tokens sid toks c =
     (case cl_kv c of
        None \<Rightarrow> c
      | Some kv \<Rightarrow> c\<lparr>cl_kv := Some (kv\<lparr>pk_tokens := (pk_tokens kv)(sid \<mapsto> toks)\<rparr>)\<rparr>)"

definition record_paged_token :: "seq_id \<Rightarrow> usize \<Rightarrow> u32 \<Rightarrow> client \<Rightarrow> client" where
  "record_paged_token sid pos tok c =
     (case cl_kv c of
        None \<Rightarrow> c
      | Some kv \<Rightarrow>
          let filled = (case pk_tables kv sid of None \<Rightarrow> 0 | Some t \<Rightarrow> pt_tokens t) in
          (case pk_tokens kv sid of
             None \<Rightarrow> c
           | Some rec \<Rightarrow>
               if length rec = pos \<and> pos < filled
               then c\<lparr>cl_kv := Some (kv\<lparr>pk_tokens := (pk_tokens kv)(sid \<mapsto> rec @ [tok])\<rparr>)\<rparr> else c))"

section \<open>Appends\<close>

record pending_row =
  pr_sequence_id :: seq_id
  pr_pending :: pending_batch
  pr_allocated :: "page_handle list"
  pr_planned :: "page_handle list"

definition plan_paged_append :: "seq_id \<Rightarrow> usize \<Rightarrow> client \<Rightarrow> (pending_batch \<times> page_handle list, client_error) outcome \<times> client" where
  "plan_paged_append sid n c =
     (case cl_kv c of
        None \<Rightarrow> (Err KvDisabled, c)
      | Some kv \<Rightarrow>
          (case pk_tables kv sid of
             None \<Rightarrow> (Err TableMissing, c)
           | Some t \<Rightarrow>
               bindS (on_pool (prepare_append_batch t n) c) (\<lambda>b c.
               bindS (map_err PoolError (planned_pages_after_batch t b), c) (\<lambda>planned c. (Ok (b, planned), c)))))"

text \<open>The device allocations, with the pages allocated so far.\<close>

fun allocate_pages :: "driver \<Rightarrow> page_handle list \<Rightarrow> page_handle list \<Rightarrow> client \<Rightarrow> (unit, client_error) outcome \<times> page_handle list \<times> client" where
  "allocate_pages d [] acc c = (Ok (), acc, c)"
| "allocate_pages d (h # hs) acc c =
     (case engine_allocate d h c of
        (Ok _, c') \<Rightarrow> allocate_pages d hs (acc @ [h]) c'
      | (Err e, c') \<Rightarrow> (Err e, acc, c')
      | (Panic, c') \<Rightarrow> (Panic, acc, c'))"

text \<open>Giving up a prepared append: the device pages go back in reverse, whatever the driver answers, and the
  pool takes its pages back.\<close>

definition undo_prepare :: "driver \<Rightarrow> page_handle list \<Rightarrow> pending_batch \<Rightarrow> client_error \<Rightarrow> client \<Rightarrow> ('a, client_error) outcome \<times> client" where
  "undo_prepare d acc b e c =
     (case on_pool (abort_append_batch b) (foldl (\<lambda>c h. snd (engine_release d h c)) c (rev acc)) of
        (Ok _, c') \<Rightarrow> (Err e, c')
      | (Err e', c') \<Rightarrow> (Err (RollbackFailed e'), c')
      | (Panic, c') \<Rightarrow> (Panic, c'))"

text \<open>The device side of \<open>prepare_paged_append\<close>: allocate the new pages, copy the shared ones.\<close>

definition fill_device ::
  "driver \<Rightarrow> seq_id \<Rightarrow> pending_batch \<Rightarrow> page_handle list \<Rightarrow> client \<Rightarrow> (pending_row, client_error) outcome \<times> client" where
  "fill_device d sid b planned c =
     (case allocate_pages d (batch_allocated_pages b) [] c of
        (Ok _, acc, c1) \<Rightarrow>
          (case iterS (\<lambda>(s, t). engine_copy d s t) (batch_copy_on_write_pages b) c1 of
             (Ok _, c2) \<Rightarrow>
               (Ok \<lparr>pr_sequence_id = sid, pr_pending = b, pr_allocated = batch_allocated_pages b, pr_planned = planned\<rparr>, c2)
           | (Err e, c2) \<Rightarrow> undo_prepare d acc b e c2
           | (Panic, c2) \<Rightarrow> (Panic, c2))
      | (Err e, acc, c1) \<Rightarrow> undo_prepare d acc b e c1
      | (Panic, acc, c1) \<Rightarrow> (Panic, c1))"

definition prepare_paged_append :: "driver \<Rightarrow> seq_id \<Rightarrow> usize \<Rightarrow> client \<Rightarrow> (pending_row, client_error) outcome \<times> client" where
  "prepare_paged_append d sid n c =
     bindS
       (case plan_paged_append sid n c of
          (Err e, c1) \<Rightarrow>
            bindS (evict_paged_prefix d c1) (\<lambda>evicted c2. if evicted then plan_paged_append sid n c2 else (Err e, c2))
        | r \<Rightarrow> r)
       (\<lambda>(b, planned) c1. fill_device d sid b planned c1)"

definition commit_paged_append :: "pending_row \<Rightarrow> client \<Rightarrow> (unit, client_error) outcome \<times> client" where
  "commit_paged_append row c =
     (case cl_kv c of
        None \<Rightarrow> (Err KvDisabled, c)
      | Some kv \<Rightarrow>
          (case pk_tables kv (pr_sequence_id row) of
             None \<Rightarrow> (Err TableMissing, c)
           | Some t \<Rightarrow>
               (case commit_append_batch (pr_pending row) (t, pk_pool kv) of
                  (r, (t', p)) \<Rightarrow>
                    (map_err PoolError r,
                     c\<lparr>cl_kv := Some (kv\<lparr>pk_pool := p, pk_tables := (pk_tables kv)(pr_sequence_id row \<mapsto> t')\<rparr>)\<rparr>))))"

definition abort_paged_append :: "driver \<Rightarrow> pending_row \<Rightarrow> client \<Rightarrow> (unit, client_error) outcome \<times> client" where
  "abort_paged_append d row c =
     bindS (iterS (engine_release d) (rev (pr_allocated row)) c) (\<lambda>_ c. on_pool (abort_append_batch (pr_pending row)) c)"

definition abort_paged_appends :: "driver \<Rightarrow> pending_row list \<Rightarrow> client \<Rightarrow> (unit, client_error) outcome \<times> client" where
  "abort_paged_appends d rows c = iterS (abort_paged_append d) (rev rows) c"

definition run_kernel :: "('p \<Rightarrow> device_store \<Rightarrow> 'r option \<times> device_store) \<Rightarrow> 'p \<Rightarrow> client \<Rightarrow> 'r option \<times> client" where
  "run_kernel k planned c =
     (case cl_store c of
        None \<Rightarrow> (None, c)
      | Some s \<Rightarrow> (case k planned s of (r, s') \<Rightarrow> (r, c\<lparr>cl_store := Some s'\<rparr>)))"

text \<open>What \<open>prefill_paged_append\<close> and \<open>forward_paged_append\<close> have in common: prepare, run the kernel, commit;
  when the kernel fails, abort.\<close>

definition append_with_kernel :: "driver \<Rightarrow> 'r kernel \<Rightarrow> seq_id \<Rightarrow> usize \<Rightarrow> client \<Rightarrow> ('r, client_error) outcome \<times> client" where
  "append_with_kernel d k sid n c =
     bindS (prepare_paged_append d sid n c) (\<lambda>row c1.
       case run_kernel k (pr_planned row) c1 of
         (Some r, c2) \<Rightarrow> bindS (commit_paged_append row c2) (\<lambda>_ c3. (Ok r, c3))
       | (None, c2) \<Rightarrow>
           (case abort_paged_append d row c2 of
              (Ok _, c3) \<Rightarrow> (Err KernelFailed, c3)
            | (Err e, c3) \<Rightarrow> (Err (RollbackFailed e), c3)
            | (Panic, c3) \<Rightarrow> (Panic, c3)))"

definition prefill_paged_append :: "driver \<Rightarrow> unit kernel \<Rightarrow> seq_id \<Rightarrow> usize \<Rightarrow> client \<Rightarrow> (unit, client_error) outcome \<times> client" where
  "prefill_paged_append d k sid n c = append_with_kernel d k sid n c"

definition forward_paged_append :: "driver \<Rightarrow> 'r kernel \<Rightarrow> seq_id \<Rightarrow> client \<Rightarrow> ('r, client_error) outcome \<times> client" where
  "forward_paged_append d k sid c = append_with_kernel d k sid 1 c"

text \<open>The batched lanes (\<open>forward_paged_batch_append\<close> and \<open>prefill_paged_batch_append\<close>, which differ in the
  kernel): prepare one row per sequence, run one kernel, commit the rows in order.\<close>

fun prepare_rows :: "driver \<Rightarrow> seq_id list \<Rightarrow> pending_row list \<Rightarrow> client \<Rightarrow> (pending_row list, client_error) outcome \<times> client" where
  "prepare_rows d [] rows c = (Ok rows, c)"
| "prepare_rows d (sid # sids) rows c =
     (case prepare_paged_append d sid 1 c of
        (Ok row, c1) \<Rightarrow> prepare_rows d sids (rows @ [row]) c1
      | (Err e, c1) \<Rightarrow>
          (case abort_paged_appends d rows c1 of
             (Ok _, c2) \<Rightarrow> (Err e, c2)
           | (Err e', c2) \<Rightarrow> (Err (RollbackFailed e'), c2)
           | (Panic, c2) \<Rightarrow> (Panic, c2))
      | (Panic, c1) \<Rightarrow> (Panic, c1))"

definition paged_batch_append ::
  "driver \<Rightarrow> 'r batch_kernel \<Rightarrow> seq_id list \<Rightarrow> usize list \<Rightarrow> client \<Rightarrow> ('r, client_error) outcome \<times> client" where
  "paged_batch_append d k sids positions c =
     (if length sids \<noteq> length positions then (Err CountsDiffer, c)
      else bindS (prepare_rows d sids [] c) (\<lambda>rows c1.
        case run_kernel k (map pr_planned rows) c1 of
          (Some r, c2) \<Rightarrow> bindS (iterS commit_paged_append rows c2) (\<lambda>_ c3. (Ok r, c3))
        | (None, c2) \<Rightarrow>
            (case abort_paged_appends d rows c2 of
               (Ok _, c3) \<Rightarrow> (Err KernelFailed, c3)
             | (Err e, c3) \<Rightarrow> (Err (RollbackFailed e), c3)
             | (Panic, c3) \<Rightarrow> (Panic, c3))))"

section \<open>The end of a sequence\<close>

definition release_paged_sequence :: "driver \<Rightarrow> seq_id \<Rightarrow> client \<Rightarrow> (unit, client_error) outcome \<times> client" where
  "release_paged_sequence d sid c =
     (case cl_kv c of
        None \<Rightarrow> (Err KvDisabled, c)
      | Some kv \<Rightarrow>
          (case pk_tables kv sid of
             None \<Rightarrow> (Err TableMissing, c)
           | Some t \<Rightarrow>
               let toks = (case pk_tokens kv sid of None \<Rightarrow> [] | Some r \<Rightarrow> r);
                   kv1 = kv\<lparr>pk_tables := (pk_tables kv)(sid := None), pk_tokens := (pk_tokens kv)(sid := None)\<rparr>
               in if toks = [] \<or> length toks \<noteq> pt_tokens t then release_paged_table d t (c\<lparr>cl_kv := Some kv1\<rparr>)
                  else
                    let c1 = c\<lparr>cl_kv := Some (kv1\<lparr>pk_cached := Some (t, toks)\<rparr>)\<rparr>
                    in (case pk_cached kv of
                          None \<Rightarrow> (Ok (), c1)
                        | Some (old, _) \<Rightarrow> release_paged_table d old c1)))"

section \<open>Ownership\<close>

text \<open>The references the client's tables and the retained prefix hold.\<close>

definition table_refs :: "(seq_id \<rightharpoonup> page_table) \<Rightarrow> page_handle multiset" where
  "table_refs m = (\<Sum>x \<in> dom m. mset (pt_pages (the (m x))))"

definition cached_refs :: "(page_table \<times> u32 list) option \<Rightarrow> page_handle multiset" where
  "cached_refs cached = (case cached of None \<Rightarrow> {#} | Some (t, _) \<Rightarrow> mset (pt_pages t))"

text \<open>The invariant, with the references \<open>X\<close> of appends under way: every reference of the pool belongs to a
  table, to the retained prefix or to \<open>X\<close>, and the device holds exactly the pages of the pool.\<close>

definition kv_inv :: "page_handle multiset \<Rightarrow> paged_kv \<Rightarrow> device_store \<Rightarrow> bool" where
  "kv_inv X kv s \<longleftrightarrow> pool_inv (pk_pool kv) \<and> finite (dom (pk_tables kv)) \<and>
     (\<forall>sid t. pk_tables kv sid = Some t \<longrightarrow> table_wf t \<and> pt_sequence_id t = sid) \<and>
     (\<forall>t toks. pk_cached kv = Some (t, toks) \<longrightarrow> table_wf t \<and> toks \<noteq> [] \<and> length toks = pt_tokens t) \<and>
     held (pk_pool kv) = table_refs (pk_tables kv) + cached_refs (pk_cached kv) + X \<and>
     dev_inv s \<and> dom (dev_page s) = set_mset (held (pk_pool kv)) \<and> resident s = card (set_mset (held (pk_pool kv))) \<and>
     page_size s * 2 ^ 32 \<le> usize_max"

abbreviation owner :: "paged_kv \<Rightarrow> device_store \<Rightarrow> client" where
  "owner kv s \<equiv> \<lparr>cl_kv = Some kv, cl_store = Some s\<rparr>"

lemma held_index:
  assumes "pool_inv p" "h \<in># held p" "k \<in># held p" "ph_index h = ph_index k"
  shows "h = k"
proof -
  from assms obtain e e' where "live_entry p h = Ok e" "live_entry p k = Ok e'" using live_entry_held by blast
  then have "ph_generation h = ph_generation k" using assms(4) by (auto simp: live_entry_Ok_iff)
  with assms(4) show ?thesis by simp
qed

lemma card_held:
  assumes "pool_inv p"
  shows "card (set_mset (held p)) \<le> 2 ^ 32"
proof -
  have inj: "inj_on ph_index (set_mset (held p))" using held_index [OF assms] by (auto intro: inj_onI)
  have "card (set_mset (held p)) = card (unat ` ph_index ` set_mset (held p))"
    using card_image [OF inj] card_image [OF image_unat_inj, of "ph_index ` set_mset (held p)"] by simp
  also have "\<dots> \<le> card {..<(2::nat) ^ 32}"
  proof (rule card_mono)
    have "unat (w :: u32) < 2 ^ 32" for w using unsigned_less [of w, where ?'a = nat] by simp
    then show "unat ` ph_index ` set_mset (held p) \<subseteq> {..<2 ^ 32}" by blast
  qed simp
  finally show ?thesis by simp
qed

lemma table_refs_remove:
  assumes "finite (dom m)"
  shows "table_refs m = table_refs (m(x := None)) + (case m x of None \<Rightarrow> {#} | Some t \<Rightarrow> mset (pt_pages t))"
proof (cases "m x")
  case None
  then show ?thesis by (simp add: fun_upd_idem)
next
  case (Some t)
  then have "x \<in> dom m" by auto
  from sum.remove [OF assms this, of "\<lambda>x. mset (pt_pages (the (m x)))"] Some
  show ?thesis by (auto simp: table_refs_def add.commute intro: sum.cong)
qed

lemma table_refs_update:
  assumes "finite (dom m)"
  shows "table_refs (m(x \<mapsto> t)) = table_refs (m(x := None)) + mset (pt_pages t)"
  using table_refs_remove [of "m(x \<mapsto> t)" x] assms by (simp del: fun_upd_apply) (simp add: fun_upd_same)

lemma kv_inv_owned:
  assumes "kv_inv X kv s"
  shows "pk_tables kv sid = Some t \<Longrightarrow> mset (pt_pages t) \<subseteq># held (pk_pool kv)"
    "pk_cached kv = Some (t, toks) \<Longrightarrow> mset (pt_pages t) \<subseteq># held (pk_pool kv)"
    "X \<subseteq># held (pk_pool kv)"
proof -
  note h = assms [unfolded kv_inv_def]
  show "pk_tables kv sid = Some t \<Longrightarrow> mset (pt_pages t) \<subseteq># held (pk_pool kv)"
    using h table_refs_remove [of "pk_tables kv" sid] by (auto simp: ac_simps)
  show "pk_cached kv = Some (t, toks) \<Longrightarrow> mset (pt_pages t) \<subseteq># held (pk_pool kv)"
    using h by (auto simp: cached_refs_def ac_simps)
  show "X \<subseteq># held (pk_pool kv)" using h by simp
qed

lemma engine_call_owner [simp]:
  "engine_call f (owner kv s) = (map_err DeviceError (fst (f s)), owner kv (snd (f s)))"
  by (simp add: engine_call_def split_beta)

lemma on_pool_owner [simp]:
  "on_pool f (owner kv s) = (map_err PoolError (fst (f (pk_pool kv))), owner (kv\<lparr>pk_pool := snd (f (pk_pool kv))\<rparr>) s)"
  by (simp add: on_pool_def split_beta)

lemma map_err_simps [simp]: "map_err f (Ok x) = Ok x" "map_err f (Err e) = Err (f e)" "map_err f Panic = Panic"
  by (simp_all add: map_err_def)

text \<open>Releasing a list of device pages, when the driver can synchronize.\<close>

lemma device_release_all:
  assumes "\<And>n. \<not> dr_sync_fails d n"
  shows "dev_inv s \<Longrightarrow> distinct hs \<Longrightarrow> set hs \<subseteq> dom (dev_page s) \<Longrightarrow>
    \<exists>s'. iterS (engine_release d) hs (owner kv s) = (Ok (), owner kv s') \<and> foldl (\<lambda>c h. snd (engine_release d h c)) (owner kv s) hs = owner kv s' \<and>
      same_shape s s' \<and> dev_inv s' \<and> dom (dev_page s') = dom (dev_page s) - set hs \<and> resident s' + length hs = resident s \<and>
      (\<forall>k. k \<notin> set hs \<longrightarrow> dev_page s' k = dev_page s k)"
proof (induction hs arbitrary: s)
  case (Cons h hs)
  from device_release_law [OF Cons.prems(1) _ assms, of h] Cons.prems(3) obtain s1 where
    s1: "device_release d h s = (Ok (), s1)" "same_shape s s1" "dev_inv s1" "dev_page s1 = (dev_page s)(h := None)" "resident s1 + 1 = resident s"
    by auto
  have "set hs \<subseteq> dom (dev_page s1)" using Cons.prems(2,3) s1(4) by auto
  from Cons.IH [OF s1(3) _ this] Cons.prems(2) obtain s' where
    s': "iterS (engine_release d) hs (owner kv s1) = (Ok (), owner kv s')" "foldl (\<lambda>c h. snd (engine_release d h c)) (owner kv s1) hs = owner kv s'"
      "same_shape s1 s'" "dev_inv s'" "dom (dev_page s') = dom (dev_page s1) - set hs" "resident s' + length hs = resident s1"
      "\<forall>k. k \<notin> set hs \<longrightarrow> dev_page s' k = dev_page s1 k"
    by auto
  have "dom (dev_page s') = dom (dev_page s) - set (h # hs)" using s'(5) s1(4) by auto
  moreover have "same_shape s s'" using s1(2) s'(3) by (simp add: same_shape_def)
  ultimately show ?case using s1 s' by (intro exI [of _ s']) simp
qed simp

section \<open>Releasing a table\<close>

lemma exclusive_pages_eq:
  "pool_inv p \<Longrightarrow> set hs \<subseteq> set_mset (held p) \<Longrightarrow> exclusive_pages p hs = Ok (filter (\<lambda>h. count (held p) h = 1) hs)"
  by (induction hs) (auto simp: references_eq)

text \<open>Dropping one reference to each page of a list vacates the pages that had only one.\<close>

lemma set_mset_diff_distinct:
  assumes "distinct hs" "mset hs \<subseteq># M"
  shows "set_mset (M - mset hs) = set_mset M - set (filter (\<lambda>h. count M h = 1) hs)"
proof -
  have "count (mset hs) x = (if x \<in> set hs then 1 else 0)" for x using assms(1) by (simp add: distinct_count_atmost_1)
  then have "x \<in># M - mset hs \<longleftrightarrow> x \<in># M \<and> \<not> (x \<in> set hs \<and> count M x = 1)" for x
    using mset_subset_eqD [OF assms(2), of x] by (auto simp: in_diff_count intro: Suc_lessI)
  then show ?thesis by auto
qed

lemma release_paged_table_law:
  assumes sync: "\<And>n. \<not> dr_sync_fails d n" and inv: "kv_inv (X + mset (pt_pages t)) kv s" and dist: "distinct (pt_pages t)"
  shows "\<exists>p' s'. release_paged_table d t (owner kv s) = (Ok (), owner (kv\<lparr>pk_pool := p'\<rparr>) s') \<and> kv_inv X (kv\<lparr>pk_pool := p'\<rparr>) s' \<and>
    (\<forall>k \<in># held p'. dev_page s' k = dev_page s k)"
proof -
  let ?p = "pk_pool kv" and ?ps = "pt_pages t"
  let ?ex = "filter (\<lambda>h. count (held ?p) h = 1) ?ps"
  note k = inv [unfolded kv_inv_def]
  have sub: "mset ?ps \<subseteq># held ?p" using kv_inv_owned(3) [OF inv] by (meson mset_subset_eq_add_right subset_mset.order_trans)
  have pinv: "pool_inv ?p" using k by blast
  have in_held: "set ?ps \<subseteq> set_mset (held ?p)" using mset_subset_eqD [OF sub] by auto
  then have exdom: "set ?ex \<subseteq> dom (dev_page s)" using k by auto
  have dex: "distinct ?ex" using dist by simp
  from device_release_all [OF sync _ dex exdom, where kv = kv] k obtain s' where
    s': "iterS (engine_release d) ?ex (owner kv s) = (Ok (), owner kv s')" "same_shape s s'" "dev_inv s'"
      "dom (dev_page s') = dom (dev_page s) - set ?ex" "resident s' + length ?ex = resident s"
      "\<forall>h. h \<notin> set ?ex \<longrightarrow> dev_page s' h = dev_page s h" by blast
  from release_all_law [OF pinv sub] obtain p' where
    p': "release_all (t, ?p) = (Ok (), (t\<lparr>pt_pages := [], pt_tokens := 0\<rparr>, p'))" "pool_inv p'" "held p' = held ?p - mset ?ps" by blast
  have held': "set_mset (held p') = set_mset (held ?p) - set ?ex" unfolding p'(3) by (rule set_mset_diff_distinct [OF dist sub])
  have call: "release_paged_table d t (owner kv s) = (Ok (), owner (kv\<lparr>pk_pool := p'\<rparr>) s')"
    by (simp add: release_paged_table_def exclusive_pages_eq [OF pinv in_held] s'(1) p'(1) del: One_nat_def)
  have "card (set_mset (held p')) = card (set_mset (held ?p)) - card (set ?ex)"
    unfolding held' by (rule card_Diff_subset) (use in_held in auto)
  then have "resident s' = card (set_mset (held p'))" using s'(5) distinct_card [OF dex] k by simp
  moreover have "dom (dev_page s') = set_mset (held p')" using s'(4) held' k by simp
  moreover have "held p' = table_refs (pk_tables kv) + cached_refs (pk_cached kv) + X" using p'(3) k by simp
  moreover have "page_size s' = page_size s" using s'(2) by (simp add: same_shape_def page_size_def)
  ultimately have "kv_inv X (kv\<lparr>pk_pool := p'\<rparr>) s'" using k p'(2) s'(3) by (simp add: kv_inv_def)
  moreover have "\<forall>h \<in># held p'. dev_page s' h = dev_page s h" using s'(6) held' by auto
  ultimately show ?thesis using call by blast
qed

lemma evict_paged_prefix_law:
  assumes sync: "\<And>n. \<not> dr_sync_fails d n" and inv: "kv_inv X kv s"
  shows "\<exists>b p' s'. evict_paged_prefix d (owner kv s) = (Ok b, owner (kv\<lparr>pk_pool := p', pk_cached := None\<rparr>) s') \<and>
    kv_inv X (kv\<lparr>pk_pool := p', pk_cached := None\<rparr>) s' \<and> (\<forall>k \<in># held p'. dev_page s' k = dev_page s k)"
proof (cases "pk_cached kv")
  case None
  with inv have "kv_inv X (kv\<lparr>pk_cached := None\<rparr>) s" by (simp add: kv_inv_def)
  with None show ?thesis
    by (intro exI [of _ False] exI [of _ "pk_pool kv"] exI [of _ s]) (simp add: evict_paged_prefix_def)
next
  case (Some ct)
  obtain t toks where ct: "ct = (t, toks)" by (cases ct)
  let ?kv = "kv\<lparr>pk_cached := None\<rparr>"
  have "kv_inv (X + mset (pt_pages t)) ?kv s" using inv Some ct by (simp add: kv_inv_def cached_refs_def ac_simps)
  moreover have "distinct (pt_pages t)" using inv Some ct by (auto simp: kv_inv_def table_wf_def)
  ultimately obtain p' s' where r: "release_paged_table d t (owner ?kv s) = (Ok (), owner (?kv\<lparr>pk_pool := p'\<rparr>) s')"
    "kv_inv X (?kv\<lparr>pk_pool := p'\<rparr>) s'" "\<forall>k \<in># held p'. dev_page s' k = dev_page s k"
    using release_paged_table_law [OF sync] by blast
  moreover have "?kv\<lparr>pk_pool := p'\<rparr> = kv\<lparr>pk_pool := p', pk_cached := None\<rparr>" by simp
  ultimately show ?thesis using Some ct
    by (intro exI [of _ True] exI [of _ p'] exI [of _ s']) (simp add: evict_paged_prefix_def)
qed

section \<open>Appending\<close>

lemma plan_paged_append_law:
  assumes inv: "kv_inv X kv s" and t: "pk_tables kv sid = Some t"
  shows "\<exists>p'. pool_inv p' \<and>
    ((\<exists>as. plan_paged_append sid n (owner kv s) =
        (Ok (\<lparr>pb_sequence_id = sid, pb_expected_tokens = pt_tokens t, pb_additions = as\<rparr>, pt_pages (apply_all as t)), owner (kv\<lparr>pk_pool := p'\<rparr>) s) \<and>
        append_chain t p' as \<and> table_wf (apply_all as t) \<and> length as = n \<and> held p' = held (pk_pool kv) + mset (alloc_targets as)) \<or>
     (\<exists>e. plan_paged_append sid n (owner kv s) = (Err e, owner (kv\<lparr>pk_pool := p'\<rparr>) s) \<and> held p' = held (pk_pool kv)))"
proof -
  let ?b = "\<lambda>as. \<lparr>pb_sequence_id = pt_sequence_id t, pb_expected_tokens = pt_tokens t, pb_additions = as\<rparr>"
  have wf: "pool_inv (pk_pool kv)" "table_wf t" "pt_sequence_id t = sid" using inv t by (auto simp: kv_inv_def)
  from prepare_append_batch_law [OF wf(1,2) kv_inv_owned(1) [OF inv t], of n] show ?thesis
  proof (elim disjE exE conjE)
    fix as p' assume a: "prepare_append_batch t n (pk_pool kv) = (Ok (?b as), p')" "pool_inv p'" "append_chain t p' as"
      "table_wf (apply_all as t)" "length as = n" "held p' = held (pk_pool kv) + mset (alloc_targets as)"
    then have "planned_pages_after_batch t (?b as) = Ok (pt_pages (apply_all as t))"
      by (simp add: planned_pages_after_batch_def plan_all_Ok)
    with a t wf(3) show ?thesis by (intro exI [of _ p'] conjI disjI1 exI [of _ as]) (simp_all add: plan_paged_append_def)
  next
    fix p' assume "prepare_append_batch t n (pk_pool kv) = (Err (CapacityExhausted 1 0), p')" "pool_inv p'" "held p' = held (pk_pool kv)"
    with t show ?thesis by (intro exI [of _ p']) (simp add: plan_paged_append_def)
  qed
qed

lemma allocate_pages_law:
  "dev_inv s \<Longrightarrow> distinct (map ph_index hs) \<Longrightarrow> (\<forall>h \<in> set hs. \<forall>k \<in> dom (dev_page s). ph_index k \<noteq> ph_index h) \<Longrightarrow>
    page_size s * (resident s + length hs) \<le> usize_max \<Longrightarrow>
    \<exists>s' got r. allocate_pages d hs acc (owner kv s) = (r, acc @ got, owner kv s') \<and> (r = Ok () \<and> got = hs \<or> (\<exists>e rest. r = Err e \<and> hs = got @ rest)) \<and>
      same_shape s s' \<and> dev_inv s' \<and> dom (dev_page s') = dom (dev_page s) \<union> set got \<and> resident s' = resident s + length got \<and>
      (\<forall>k. k \<notin> set got \<longrightarrow> dev_page s' k = dev_page s k)"
proof (induction hs arbitrary: s acc)
  case (Cons h hs)
  have room: "page_size s * (resident s + 1) \<le> usize_max"
    by (rule order_trans [OF _ Cons.prems(4)]) (simp del: mult_Suc_right)
  have free: "\<forall>k \<in> dom (dev_page s). ph_index k \<noteq> ph_index h" using Cons.prems(3) by simp
  from device_allocate_law [OF Cons.prems(1) free room, of d] obtain s1 where s1: "same_shape s s1" "dev_inv s1"
    and cases: "device_allocate d h s = (Ok (), s1) \<and> dev_page s1 = (dev_page s)(h \<mapsto> zero_page s) \<and> resident s1 = resident s + 1 \<or>
      device_allocate d h s = (Err AllocationFailed, s1) \<and> dev_page s1 = dev_page s \<and> resident s1 = resident s" by blast
  from cases show ?case
  proof (elim disjE conjE)
    assume a: "device_allocate d h s = (Ok (), s1)" "dev_page s1 = (dev_page s)(h \<mapsto> zero_page s)" "resident s1 = resident s + 1"
    have free1: "\<forall>x \<in> set hs. \<forall>k \<in> dom (dev_page s1). ph_index k \<noteq> ph_index x"
      using Cons.prems(2,3) a(2) by (auto simp: image_iff)
    have room1: "page_size s1 * (resident s1 + length hs) \<le> usize_max"
      using Cons.prems(4) s1(1) a(3) by (simp add: page_size_def same_shape_def)
    from Cons.IH [OF s1(2) _ free1 room1, of "acc @ [h]"] Cons.prems(2) obtain s' got r where
      IH: "allocate_pages d hs (acc @ [h]) (owner kv s1) = (r, (acc @ [h]) @ got, owner kv s')"
        "r = Ok () \<and> got = hs \<or> (\<exists>e rest. r = Err e \<and> hs = got @ rest)"
        "same_shape s1 s'" "dev_inv s'" "dom (dev_page s') = dom (dev_page s1) \<union> set got" "resident s' = resident s1 + length got"
        "\<forall>k. k \<notin> set got \<longrightarrow> dev_page s' k = dev_page s1 k" by auto
    have "same_shape s s'" using s1(1) IH(3) by (simp add: same_shape_def)
    moreover have "dom (dev_page s') = dom (dev_page s) \<union> set (h # got)" using IH(5) a(2) by auto
    moreover have "r = Ok () \<and> h # got = h # hs \<or> (\<exists>e rest. r = Err e \<and> h # hs = (h # got) @ rest)" using IH(2) by auto
    ultimately show ?thesis using IH a
      by (intro exI [of _ s'] exI [of _ "h # got"] exI [of _ r]) simp
  next
    assume a: "device_allocate d h s = (Err AllocationFailed, s1)" "dev_page s1 = dev_page s" "resident s1 = resident s"
    then show ?thesis using s1
      by (intro exI [of _ s1] exI [of _ "[]"] exI [of _ "Err (DeviceError AllocationFailed)"]) simp
  qed
qed simp

lemma copy_loop_law:
  "dev_inv s \<Longrightarrow> (\<forall>(a, b) \<in> set cs. a \<in> dom (dev_page s) \<and> b \<in> dom (dev_page s) \<and> a \<noteq> b) \<Longrightarrow>
    \<exists>s' r. iterS (\<lambda>(a, b). engine_copy d a b) cs (owner kv s) = (r, owner kv s') \<and> r \<noteq> Panic \<and>
      same_shape s s' \<and> dev_inv s' \<and> dom (dev_page s') = dom (dev_page s) \<and> resident s' = resident s \<and>
      (\<forall>k. k \<notin> snd ` set cs \<longrightarrow> dev_page s' k = dev_page s k)"
proof (induction cs arbitrary: s)
  case (Cons x cs)
  obtain a b where x: "x = (a, b)" by (cases x)
  with Cons.prems(2) have ab: "a \<in> dom (dev_page s)" "b \<in> dom (dev_page s)" "a \<noteq> b" by auto
  from device_copy_law [OF Cons.prems(1) ab, of d] obtain s1 r where
    s1: "device_copy d a b s = (r, s1)" "r \<noteq> Panic" "same_shape s s1" "dev_inv s1" "resident s1 = resident s" and
    pg: "\<exists>c. dev_page s1 = (dev_page s)(b \<mapsto> c)"
  proof (elim exE conjE disjE)
    fix s' assume a: "device_copy d a b s = (Ok (), s')" "dev_page s' = (dev_page s)(b := dev_page s a)"
      "same_shape s s'" "dev_inv s'" "resident s' = resident s"
    then have "\<exists>c. dev_page s' = (dev_page s)(b \<mapsto> c)" using ab(1) by (metis domD)
    then show ?thesis using a by (intro that [of "Ok ()" s']) simp_all
  next
    fix s' e c assume "device_copy d a b s = (Err e, s')" "dev_page s' = (dev_page s)(b \<mapsto> c)"
      "same_shape s s'" "dev_inv s'" "resident s' = resident s"
    then show ?thesis using that [of "Err e" s'] by blast
  qed
  from pg obtain c where pg': "dev_page s1 = (dev_page s)(b \<mapsto> c)" ..
  then have d1: "dom (dev_page s1) = dom (dev_page s)" "\<forall>k. k \<noteq> b \<longrightarrow> dev_page s1 k = dev_page s k"
    using insert_absorb [OF ab(2)] by simp_all
  show ?case
  proof (cases r)
    case (Ok u)
    from Cons.IH [OF s1(4)] Cons.prems(2) d1(1) obtain s' r' where
      IH: "iterS (\<lambda>(a, b). engine_copy d a b) cs (owner kv s1) = (r', owner kv s')" "r' \<noteq> Panic" "same_shape s1 s'" "dev_inv s'"
        "dom (dev_page s') = dom (dev_page s1)" "resident s' = resident s1" "\<forall>k. k \<notin> snd ` set cs \<longrightarrow> dev_page s' k = dev_page s1 k" by auto
    have "same_shape s s'" using s1(3) IH(3) by (simp add: same_shape_def)
    then show ?thesis using Ok s1 IH x d1 by (intro exI [of _ s'] exI [of _ r']) simp
  next
    case (Err e)
    then show ?thesis using s1 x d1 by (intro exI [of _ s1] exI [of _ "Err (DeviceError e)"]) simp
  qed (use s1(2) in simp)
qed simp

text \<open>After the pool has reserved the pages of an append, the device side either brings the store to the pool
  or gives everything back.\<close>

definition row_of :: "page_table \<Rightarrow> pending_append list \<Rightarrow> pending_row" where
  "row_of t as =
     \<lparr>pr_sequence_id = pt_sequence_id t,
      pr_pending = \<lparr>pb_sequence_id = pt_sequence_id t, pb_expected_tokens = pt_tokens t, pb_additions = as\<rparr>,
      pr_allocated = alloc_targets as, pr_planned = pt_pages (apply_all as t)\<rparr>"

lemma batch_allocated [simp]: "batch_allocated_pages b = alloc_targets (pb_additions b)"
  by (simp add: batch_allocated_pages_def alloc_targets_def)

lemma fresh_targets:
  assumes "append_chain t p' as" "held p' = held p + mset (alloc_targets as)"
  shows "distinct (alloc_targets as)" "h \<in> set (alloc_targets as) \<Longrightarrow> h \<notin># held p"
proof -
  have one: "count (held p') h = 1" if "h \<in> set (alloc_targets as)" for h
    using append_chain_targets [OF assms(1)] that by (auto simp: alloc_targets_def)
  have c: "count (held p) h + count (mset (alloc_targets as)) h = 1" if "h \<in> set (alloc_targets as)" for h
    using one [OF that] assms(2) by simp
  have pos: "0 < count (mset (alloc_targets as)) h" if "h \<in> set (alloc_targets as)" for h using that by simp
  have "count (mset (alloc_targets as)) h = (if h \<in> set (alloc_targets as) then 1 else 0)" for h
  proof (cases "h \<in> set (alloc_targets as)")
    case True
    with c [OF True] pos [OF True] show ?thesis by (simp del: count_greater_zero_iff)
  qed (simp add: count_eq_zero_iff)
  then show "distinct (alloc_targets as)" by (simp add: distinct_count_atmost_1)
  show "h \<in> set (alloc_targets as) \<Longrightarrow> h \<notin># held p" using c [of h] pos [of h] by (simp add: not_in_iff del: count_greater_zero_iff)
qed

lemma chain_copies:
  assumes "append_chain t p as"
  shows "(a, b) \<in> set (batch_copy_on_write_pages \<lparr>pb_sequence_id = i, pb_expected_tokens = n, pb_additions = as\<rparr>) \<Longrightarrow>
    2 \<le> count (held p) a \<and> count (held p) b = 1 \<and> b \<in> set (alloc_targets as)"
  using assms
proof (induction as arbitrary: t)
  case (Cons x as)
  then have ok: "append_ok t p x" and ch: "append_chain (apply_append x t) p as" by simp_all
  show ?case
  proof (cases "pa_kind x = CopyOnWrite a \<and> b = pa_target x")
    case True
    with ok show ?thesis by (auto simp: append_ok_def alloc_targets_def allocates_def)
  next
    case False
    with Cons.prems(1) have "(a, b) \<in> set (batch_copy_on_write_pages \<lparr>pb_sequence_id = i, pb_expected_tokens = n, pb_additions = as\<rparr>)"
      by (auto simp: batch_copy_on_write_pages_def map_filter_simps split: pending_kind.splits)
    from Cons.IH [OF this ch] show ?thesis by (auto simp: alloc_targets_def)
  qed
qed (simp add: batch_copy_on_write_pages_def map_filter_simps)

lemma kv_inv_pool:
  assumes "kv_inv X kv s" "pool_inv p'" "held p' = held (pk_pool kv) + Y" "dev_inv s'" "same_shape s s'"
    "dom (dev_page s') = set_mset (held p')" "resident s' = card (set_mset (held p'))"
  shows "kv_inv (X + Y) (kv\<lparr>pk_pool := p'\<rparr>) s'"
  using assms by (simp add: kv_inv_def page_size_def same_shape_def ac_simps)

lemma undo_prepare_law:
  assumes sync: "\<And>n. \<not> dr_sync_fails d n" and inv: "kv_inv X kv s" and p': "pool_inv p'" "held p' = held (pk_pool kv) + mset (alloc_targets as)"
    and got: "distinct got" "set got \<inter> set_mset (held (pk_pool kv)) = {}"
    and s1: "dev_inv s1" "same_shape s s1" "dom (dev_page s1) = set_mset (held (pk_pool kv)) \<union> set got" "resident s1 = resident s + length got"
    and b: "pb_additions b = as"
  shows "\<exists>p2 s2. undo_prepare d got b e (owner (kv\<lparr>pk_pool := p'\<rparr>) s1) = (Err e, owner (kv\<lparr>pk_pool := p2\<rparr>) s2) \<and>
    kv_inv X (kv\<lparr>pk_pool := p2\<rparr>) s2 \<and> held p2 = held (pk_pool kv) \<and> (\<forall>k. k \<notin> set got \<longrightarrow> dev_page s2 k = dev_page s1 k)"
proof -
  let ?kv = "kv\<lparr>pk_pool := p'\<rparr>"
  have "set (rev got) \<subseteq> dom (dev_page s1)" using s1(3) by simp
  from device_release_all [OF sync s1(1) _ this, where kv = ?kv] got(1) obtain s2 where
    s2: "foldl (\<lambda>c h. snd (engine_release d h c)) (owner ?kv s1) (rev got) = owner ?kv s2" "same_shape s1 s2" "dev_inv s2"
      "dom (dev_page s2) = dom (dev_page s1) - set got" "resident s2 + length got = resident s1" "\<forall>k. k \<notin> set got \<longrightarrow> dev_page s2 k = dev_page s1 k"
    by auto
  have "mset (alloc_targets (pb_additions b)) \<subseteq># held p'" using p'(2) b by simp
  from abort_append_batch_law [OF p'(1) this] obtain p2 where
    p2: "abort_append_batch b p' = (Ok (), p2)" "pool_inv p2" "held p2 = held (pk_pool kv)" using p'(2) b by auto
  have "undo_prepare d got b e (owner ?kv s1) = (Err e, owner (kv\<lparr>pk_pool := p2\<rparr>) s2)"
    unfolding undo_prepare_def s2(1) using p2(1) by simp
  moreover have "dom (dev_page s2) = set_mset (held p2)" using s2(4) s1(3) got(2) p2(3) by auto
  moreover have "resident s2 = card (set_mset (held p2))" using s2(5) s1(4) inv p2(3) by (simp add: kv_inv_def)
  moreover have "same_shape s s2" using s1(2) s2(2) by (simp add: same_shape_def)
  ultimately show ?thesis using kv_inv_pool [OF inv p2(2), of "{#}" s2] p2(3) s2(3,6) by (intro exI [of _ p2] exI [of _ s2]) auto
qed

lemma fill_device_law:
  assumes sync: "\<And>n. \<not> dr_sync_fails d n" and inv: "kv_inv X kv s" and t: "pk_tables kv sid = Some t"
    and p': "pool_inv p'" "append_chain t p' as" "held p' = held (pk_pool kv) + mset (alloc_targets as)"
  shows "\<exists>r p2 s2. fill_device d sid (pr_pending (row_of t as)) (pr_planned (row_of t as)) (owner (kv\<lparr>pk_pool := p'\<rparr>) s) =
      (r, owner (kv\<lparr>pk_pool := p2\<rparr>) s2) \<and> (\<forall>k \<in># held (pk_pool kv). dev_page s2 k = dev_page s k) \<and>
    (r = Ok (row_of t as) \<and> p2 = p' \<and> kv_inv (X + mset (alloc_targets as)) (kv\<lparr>pk_pool := p2\<rparr>) s2 \<or>
     (\<exists>e. r = Err e \<and> kv_inv X (kv\<lparr>pk_pool := p2\<rparr>) s2))"
proof -
  let ?kv = "kv\<lparr>pk_pool := p'\<rparr>" and ?hs = "alloc_targets as" and ?b = "pr_pending (row_of t as)"
  note k = inv [unfolded kv_inv_def]
  note fresh = fresh_targets [OF p'(2,3)]
  have sid: "pt_sequence_id t = sid" using k t by blast
  have set': "set_mset (held p') = set_mset (held (pk_pool kv)) \<union> set ?hs" using p'(3) by simp
  have inj: "inj_on ph_index (set_mset (held p'))" using held_index [OF p'(1)] by (auto intro: inj_onI)
  have di: "distinct (map ph_index ?hs)"
    unfolding distinct_map by (intro conjI fresh(1) inj_on_subset [OF inj]) (use set' in auto)
  have free: "\<forall>h \<in> set ?hs. \<forall>x \<in> dom (dev_page s). ph_index x \<noteq> ph_index h"
  proof (intro ballI notI)
    fix h x assume "h \<in> set ?hs" "x \<in> dom (dev_page s)" "ph_index x = ph_index h"
    moreover from this have "x \<in># held (pk_pool kv)" using k by simp
    ultimately have "x = h" using held_index [OF p'(1), of x h] set' by simp
    with \<open>x \<in># held (pk_pool kv)\<close> \<open>h \<in> set ?hs\<close> fresh(2) show False by blast
  qed
  have card': "card (set_mset (held p')) = resident s + length ?hs"
    unfolding set' using k distinct_card [OF fresh(1)] fresh(2) by (subst card_Un_disjoint) auto
  have "page_size s * (resident s + length ?hs) \<le> page_size s * 2 ^ 32"
    using card_held [OF p'(1)] unfolding card' by (intro mult_le_mono2)
  then have room: "page_size s * (resident s + length ?hs) \<le> usize_max" using k by linarith
  have "dev_inv s" using k by blast
  from allocate_pages_law [OF this di free room, of d "[]" ?kv] obtain s1 got r where
    al: "allocate_pages d ?hs [] (owner ?kv s) = (r, got, owner ?kv s1)" "r = Ok () \<and> got = ?hs \<or> (\<exists>e rest. r = Err e \<and> ?hs = got @ rest)"
      "same_shape s s1" "dev_inv s1" "dom (dev_page s1) = dom (dev_page s) \<union> set got" "resident s1 = resident s + length got"
      "\<forall>x. x \<notin> set got \<longrightarrow> dev_page s1 x = dev_page s x" by auto
  have gsub: "set got \<subseteq> set ?hs" "distinct got" using al(2) fresh(1) by auto
  have gheld: "set got \<inter> set_mset (held (pk_pool kv)) = {}" using gsub(1) fresh(2) by blast
  have old: "dev_page s1 x = dev_page s x" if "x \<in># held (pk_pool kv)" for x using al(7) gheld that by blast
  have bb: "pb_additions ?b = as" "batch_allocated_pages ?b = ?hs" by (simp_all add: row_of_def)
  have d1: "dom (dev_page s1) = set_mset (held (pk_pool kv)) \<union> set got" using al(5) k by simp
  note undo = undo_prepare_law [OF sync inv p'(1,3) gsub(2) gheld _ _ _ _ bb(1)]
  from al(2) show ?thesis
  proof (elim disjE conjE exE)
    fix e rest assume r: "r = Err e"
    from undo [OF al(4,3) d1 al(6), of e] obtain p2 s2 where
      "undo_prepare d got ?b e (owner ?kv s1) = (Err e :: (pending_row, client_error) outcome, owner (kv\<lparr>pk_pool := p2\<rparr>) s2)" "kv_inv X (kv\<lparr>pk_pool := p2\<rparr>) s2"
      "\<forall>x. x \<notin> set got \<longrightarrow> dev_page s2 x = dev_page s1 x" by blast
    then show ?thesis using r al(1) bb(2) old gheld
      by (intro exI [of _ "Err e"] exI [of _ p2] exI [of _ s2]) (auto simp: fill_device_def)
  next
    assume r: "r = Ok ()" "got = ?hs"
    have cp: "\<forall>(x, y) \<in> set (batch_copy_on_write_pages ?b). x \<in> dom (dev_page s1) \<and> y \<in> dom (dev_page s1) \<and> x \<noteq> y"
    proof (intro ballI, clarify)
      fix x y assume "(x, y) \<in> set (batch_copy_on_write_pages ?b)"
      then have c: "2 \<le> count (held p') x" "count (held p') y = 1" using chain_copies [OF p'(2)] by (auto simp: row_of_def)
      then have "x \<in># held p'" "y \<in># held p'" by (auto simp flip: count_greater_zero_iff)
      with c d1 r set' show "x \<in> dom (dev_page s1) \<and> y \<in> dom (dev_page s1) \<and> x \<noteq> y" by auto
    qed
    have tg: "snd ` set (batch_copy_on_write_pages ?b) \<subseteq> set ?hs" using chain_copies [OF p'(2)] by (force simp: row_of_def)
    from copy_loop_law [OF al(4) cp, of d ?kv] obtain s2 r2 where
      c: "iterS (\<lambda>(a, b). engine_copy d a b) (batch_copy_on_write_pages ?b) (owner ?kv s1) = (r2, owner ?kv s2)" "r2 \<noteq> Panic"
        "same_shape s1 s2" "dev_inv s2" "dom (dev_page s2) = dom (dev_page s1)" "resident s2 = resident s1"
        "\<forall>x. x \<notin> snd ` set (batch_copy_on_write_pages ?b) \<longrightarrow> dev_page s2 x = dev_page s1 x" by blast
    have ss: "same_shape s s2" using al(3) c(3) by (simp add: same_shape_def)
    have old2: "dev_page s2 x = dev_page s x" if "x \<in># held (pk_pool kv)" for x
    proof -
      have "x \<notin> set ?hs" using that fresh(2) by blast
      then have "x \<notin> snd ` set (batch_copy_on_write_pages ?b)" using tg by blast
      with c(7) old [OF that] show ?thesis by simp
    qed
    show ?thesis
    proof (cases r2)
      case (Ok u)
      have "kv_inv (X + mset ?hs) (kv\<lparr>pk_pool := p'\<rparr>) s2"
        by (rule kv_inv_pool [OF inv p'(1,3) c(4) ss]) (use c(5,6) d1 r set' card' al(6) in auto)
      moreover have "fill_device d sid ?b (pr_planned (row_of t as)) (owner ?kv s) = (Ok (row_of t as), owner (kv\<lparr>pk_pool := p'\<rparr>) s2)"
        using al(1) r c(1) Ok bb(2) sid by (simp add: fill_device_def) (simp add: row_of_def)
      ultimately show ?thesis using old2 by (intro exI [of _ "Ok (row_of t as)"] exI [of _ p'] exI [of _ s2]) simp
    next
      case (Err e)
      from undo [OF c(4) ss, of e] c(5,6) d1 al(6) obtain p2 s3 where
        u: "undo_prepare d got ?b e (owner ?kv s2) = (Err e :: (pending_row, client_error) outcome, owner (kv\<lparr>pk_pool := p2\<rparr>) s3)" "kv_inv X (kv\<lparr>pk_pool := p2\<rparr>) s3"
          "\<forall>x. x \<notin> set got \<longrightarrow> dev_page s3 x = dev_page s2 x" by auto
      have "fill_device d sid ?b (pr_planned (row_of t as)) (owner ?kv s) = (Err e, owner (kv\<lparr>pk_pool := p2\<rparr>) s3)"
        using al(1) r c(1) Err bb(2) u(1) by (simp add: fill_device_def)
      moreover have "dev_page s3 x = dev_page s x" if "x \<in># held (pk_pool kv)" for x
      proof -
        have "x \<notin> set got" using that gheld by blast
        with u(3) old2 [OF that] show ?thesis by simp
      qed
      ultimately show ?thesis using u(2) by (intro exI [of _ "Err e"] exI [of _ p2] exI [of _ s3]) simp
    qed (use c(2) in simp)
  qed
qed

text \<open>What an operation leaves alone: the pages of the live sequences keep their bytes.\<close>

definition rows_kept :: "paged_kv \<Rightarrow> device_store \<Rightarrow> device_store \<Rightarrow> bool" where
  "rows_kept kv s s' \<longleftrightarrow> (\<forall>h \<in># table_refs (pk_tables kv). dev_page s' h = dev_page s h)"

lemma table_refs_held: "kv_inv X kv s \<Longrightarrow> h \<in># table_refs (pk_tables kv) \<Longrightarrow> h \<in># held (pk_pool kv)"
  by (simp add: kv_inv_def)

lemma kv_inv_same_held:
  assumes "kv_inv X kv s" "pool_inv p'" "held p' = held (pk_pool kv)"
  shows "kv_inv X (kv\<lparr>pk_pool := p'\<rparr>) s"
  using assms by (simp add: kv_inv_def)

lemma plan_Err:
  assumes inv: "kv_inv X kv s" and t: "pk_tables kv sid = Some t" and e: "fst (plan_paged_append sid n (owner kv s)) = Err e"
  shows "\<exists>p'. plan_paged_append sid n (owner kv s) = (Err e, owner (kv\<lparr>pk_pool := p'\<rparr>) s) \<and> kv_inv X (kv\<lparr>pk_pool := p'\<rparr>) s"
  using plan_paged_append_law [OF inv t, of n] e kv_inv_same_held [OF inv] by auto

lemma plan_fill_Ok:
  assumes sync: "\<And>n. \<not> dr_sync_fails d n" and inv: "kv_inv X kv s" and t: "pk_tables kv sid = Some t"
    and ok: "plan_paged_append sid n (owner kv s) = (Ok bp, c1)"
  shows "\<exists>as r p2 s2. fill_device d sid (fst bp) (snd bp) c1 = (r, owner (kv\<lparr>pk_pool := p2\<rparr>) s2) \<and> rows_kept kv s s2 \<and>
    (r = Ok (row_of t as) \<and> kv_inv (X + mset (alloc_targets as)) (kv\<lparr>pk_pool := p2\<rparr>) s2 \<and> append_chain t p2 as \<and>
       table_wf (apply_all as t) \<and> length as = n \<or> (\<exists>e. r = Err e \<and> kv_inv X (kv\<lparr>pk_pool := p2\<rparr>) s2))"
proof -
  have sid: "pt_sequence_id t = sid" using inv t by (auto simp: kv_inv_def)
  from plan_paged_append_law [OF inv t, of n] ok obtain p' as where
    p': "pool_inv p'" "append_chain t p' as" "held p' = held (pk_pool kv) + mset (alloc_targets as)"
    and bp: "bp = (pr_pending (row_of t as), pr_planned (row_of t as))" "c1 = owner (kv\<lparr>pk_pool := p'\<rparr>) s"
    and wf: "table_wf (apply_all as t)" "length as = n" by (auto simp: row_of_def sid)
  from fill_device_law [OF sync inv t p'] obtain r p2 s2 where
    f: "fill_device d sid (pr_pending (row_of t as)) (pr_planned (row_of t as)) (owner (kv\<lparr>pk_pool := p'\<rparr>) s) = (r, owner (kv\<lparr>pk_pool := p2\<rparr>) s2)"
      "\<forall>k \<in># held (pk_pool kv). dev_page s2 k = dev_page s k"
      "r = Ok (row_of t as) \<and> p2 = p' \<and> kv_inv (X + mset (alloc_targets as)) (kv\<lparr>pk_pool := p2\<rparr>) s2 \<or>
       (\<exists>e. r = Err e \<and> kv_inv X (kv\<lparr>pk_pool := p2\<rparr>) s2)" by blast
  have "rows_kept kv s s2" using f(2) table_refs_held [OF inv] by (simp add: rows_kept_def)
  with f p'(2) bp wf show ?thesis
    by (intro exI [of _ as] exI [of _ r] exI [of _ p2] exI [of _ s2]) auto
qed

lemma prepare_paged_append_law:
  assumes sync: "\<And>n. \<not> dr_sync_fails d n" and inv: "kv_inv X kv s" and t: "pk_tables kv sid = Some t"
  shows "\<exists>r kv' s'. prepare_paged_append d sid n (owner kv s) = (r, owner kv' s') \<and>
    pk_tables kv' = pk_tables kv \<and> pk_tokens kv' = pk_tokens kv \<and> rows_kept kv s s' \<and> pk_cached kv' \<in> {pk_cached kv, None} \<and>
    ((\<exists>as. r = Ok (row_of t as) \<and> kv_inv (X + mset (alloc_targets as)) kv' s' \<and> append_chain t (pk_pool kv') as \<and>
        table_wf (apply_all as t) \<and> length as = n) \<or> (\<exists>e. r = Err e \<and> kv_inv X kv' s'))"
proof (cases "plan_paged_append sid n (owner kv s)")
  case (Pair pr c1)
  show ?thesis
  proof (cases pr)
    case (Ok bp)
    from plan_fill_Ok [OF sync inv t, of n bp c1] Pair Ok obtain as r p2 s2 where
      f: "fill_device d sid (fst bp) (snd bp) c1 = (r, owner (kv\<lparr>pk_pool := p2\<rparr>) s2)" "rows_kept kv s s2"
        "r = Ok (row_of t as) \<and> kv_inv (X + mset (alloc_targets as)) (kv\<lparr>pk_pool := p2\<rparr>) s2 \<and> append_chain t p2 as \<and>
         table_wf (apply_all as t) \<and> length as = n \<or> (\<exists>e. r = Err e \<and> kv_inv X (kv\<lparr>pk_pool := p2\<rparr>) s2)" by blast
    have "prepare_paged_append d sid n (owner kv s) = (r, owner (kv\<lparr>pk_pool := p2\<rparr>) s2)"
      using Pair Ok f(1) by (simp add: prepare_paged_append_def split_beta)
    with f(2,3) show ?thesis by (intro exI [of _ r] exI [of _ "kv\<lparr>pk_pool := p2\<rparr>"] exI [of _ s2]) auto
  next
    case (Err e)
    with Pair plan_Err [OF inv t, of n e] obtain p1 where
      p1: "c1 = owner (kv\<lparr>pk_pool := p1\<rparr>) s" "kv_inv X (kv\<lparr>pk_pool := p1\<rparr>) s" by auto
    let ?kv1 = "kv\<lparr>pk_pool := p1\<rparr>"
    from evict_paged_prefix_law [OF sync p1(2)] obtain b p2 s2 where
      ev: "evict_paged_prefix d (owner ?kv1 s) = (Ok b, owner (?kv1\<lparr>pk_pool := p2, pk_cached := None\<rparr>) s2)"
        "kv_inv X (?kv1\<lparr>pk_pool := p2, pk_cached := None\<rparr>) s2" "\<forall>k \<in># held p2. dev_page s2 k = dev_page s k" by blast
    let ?kv2 = "?kv1\<lparr>pk_pool := p2, pk_cached := None\<rparr>"
    have kept: "rows_kept kv s s2" using ev(3) table_refs_held [OF ev(2)] by (simp add: rows_kept_def)
    show ?thesis
    proof (cases b)
      case False
      then have "prepare_paged_append d sid n (owner kv s) = (Err e, owner ?kv2 s2)"
        using Pair Err p1(1) ev(1) by (simp add: prepare_paged_append_def)
      with ev(2) kept show ?thesis by (intro exI [of _ "Err e"] exI [of _ ?kv2] exI [of _ s2]) simp
    next
      case True
      have t2: "pk_tables ?kv2 sid = Some t" using t by simp
      obtain pr2 c2 where pl: "plan_paged_append sid n (owner ?kv2 s2) = (pr2, c2)" by (cases "plan_paged_append sid n (owner ?kv2 s2)")
      have step: "prepare_paged_append d sid n (owner kv s) = bindS (pr2, c2) (\<lambda>(b, planned) c. fill_device d sid b planned c)"
        using Pair Err p1(1) ev(1) True pl by (simp add: prepare_paged_append_def)
      show ?thesis
      proof (cases pr2)
        case (Ok bp)
        from plan_fill_Ok [OF sync ev(2) t2, of n bp c2] pl Ok obtain as r p3 s3 where
          f: "fill_device d sid (fst bp) (snd bp) c2 = (r, owner (?kv2\<lparr>pk_pool := p3\<rparr>) s3)" "rows_kept ?kv2 s2 s3"
            "r = Ok (row_of t as) \<and> kv_inv (X + mset (alloc_targets as)) (?kv2\<lparr>pk_pool := p3\<rparr>) s3 \<and> append_chain t p3 as \<and>
             table_wf (apply_all as t) \<and> length as = n \<or> (\<exists>e. r = Err e \<and> kv_inv X (?kv2\<lparr>pk_pool := p3\<rparr>) s3)" by blast
        have "prepare_paged_append d sid n (owner kv s) = (r, owner (?kv2\<lparr>pk_pool := p3\<rparr>) s3)"
          using step Ok f(1) by (simp add: split_beta)
        moreover have "rows_kept kv s s3" using kept f(2) by (simp add: rows_kept_def)
        ultimately show ?thesis using f(3) by (intro exI [of _ r] exI [of _ "?kv2\<lparr>pk_pool := p3\<rparr>"] exI [of _ s3]) auto
      next
        case (Err e')
        with pl plan_Err [OF ev(2) t2, of n e'] obtain p3 where
          "c2 = owner (?kv2\<lparr>pk_pool := p3\<rparr>) s2" "kv_inv X (?kv2\<lparr>pk_pool := p3\<rparr>) s2" by auto
        with step Err kept show ?thesis by (intro exI [of _ "Err e'"] exI [of _ "?kv2\<lparr>pk_pool := p3\<rparr>"] exI [of _ s2]) simp
      next
        case Panic
        with pl plan_paged_append_law [OF ev(2) t2, of n] show ?thesis by auto
      qed
    qed
  next
    case Panic
    with Pair plan_paged_append_law [OF inv t, of n] show ?thesis by auto
  qed
qed

lemma count_two_mem: "2 \<le> count M x \<Longrightarrow> x \<in># M"
  by (metis count_eq_zero_iff not_numeral_le_zero)

lemma cow_sources_distinct:
  "append_chain t p as \<Longrightarrow> distinct (pt_pages t) \<Longrightarrow>
    distinct (cow_sources as) \<and> set (cow_sources as) \<subseteq> set (pt_pages t) \<and> (\<forall>x \<in> set (cow_sources as). 2 \<le> count (held p) x)"
proof (induction as arbitrary: t)
  case (Cons a as)
  then have ok: "append_ok t p a" and ch: "append_chain (apply_append a t) p as" by simp_all
  from Cons.IH [OF ch distinct_apply [OF ok Cons.prems(2)]] have IH: "distinct (cow_sources as)"
    "set (cow_sources as) \<subseteq> set (pt_pages (apply_append a t))" "\<forall>x \<in> set (cow_sources as). 2 \<le> count (held p) x" by auto
  have "pa_target a \<notin> set (cow_sources as)" using IH(3) ok by (auto simp: append_ok_def)
  with IH(2) set_pages_apply [of a t] have sub: "set (cow_sources as) \<subseteq> set (pt_pages t)" by blast
  show ?case
  proof (cases "copy_source a")
    case None
    with IH sub show ?thesis by simp
  next
    case (Some x)
    have "x \<in> set (pt_pages t)" "2 \<le> count (held p) x"
      using ok Some by (auto simp: append_ok_def copy_source_def list_get_Some_iff split: pending_kind.splits)
    moreover have "x \<notin> set (cow_sources as)" using cow_source_gone [OF ok Cons.prems(2) Some] IH(2) by blast
    ultimately show ?thesis using Some IH sub by simp
  qed
qed simp

lemma kv_inv_update:
  assumes "kv_inv Y kv s" "pool_inv p'" "finite (dom m)" "\<forall>x u. m x = Some u \<longrightarrow> table_wf u \<and> pt_sequence_id u = x"
    "held p' = table_refs m + cached_refs (pk_cached kv) + X" "dom (dev_page s) = set_mset (held p')" "resident s = card (set_mset (held p'))"
  shows "kv_inv X (kv\<lparr>pk_pool := p', pk_tables := m\<rparr>) s"
proof -
  have "dev_inv s" "page_size s * 2 ^ 32 \<le> usize_max"
    "\<forall>t toks. pk_cached kv = Some (t, toks) \<longrightarrow> table_wf t \<and> toks \<noteq> [] \<and> length toks = pt_tokens t"
    using assms(1) unfolding kv_inv_def by blast+
  with assms(2-) show ?thesis by (simp add: kv_inv_def)
qed

lemma commit_paged_append_law:
  assumes inv: "kv_inv (X + mset (alloc_targets as)) kv s" and t: "pk_tables kv sid = Some t"
    and ch: "append_chain t (pk_pool kv) as" and wf: "table_wf (apply_all as t)"
  defines "m \<equiv> (pk_tables kv)(sid \<mapsto> apply_all as t)"
  shows "\<exists>p'. commit_paged_append (row_of t as) (owner kv s) = (Ok (), owner (kv\<lparr>pk_pool := p', pk_tables := m\<rparr>) s) \<and>
    kv_inv X (kv\<lparr>pk_pool := p', pk_tables := m\<rparr>) s \<and> held p' = held (pk_pool kv) - mset (cow_sources as)"
proof -
  let ?p = "pk_pool kv"
  note k = inv [unfolded kv_inv_def]
  have sid: "pt_sequence_id t = sid" "distinct (pt_pages t)" "pool_inv ?p" "finite (dom (pk_tables kv))"
    using k t by (auto simp: table_wf_def)
  note cow = cow_sources_distinct [OF ch sid(2)]
  from commit_append_batch_law [OF sid(3) ch sid(2) refl] obtain p' where
    p': "commit_append_batch \<lparr>pb_sequence_id = pt_sequence_id t, pb_expected_tokens = pt_tokens t, pb_additions = as\<rparr> (t, ?p) =
        (Ok (), (apply_all as t, p'))" "pool_inv p'" "held p' = held ?p - mset (cow_sources as)" by blast
  have sub: "mset (cow_sources as) \<subseteq># held ?p"
  proof (rule mset_subset_eqI)
    fix x show "count (mset (cow_sources as)) x \<le> count (held ?p) x"
      using cow by (cases "x \<in> set (cow_sources as)") (auto simp: distinct_count_atmost_1 dest!: count_two_mem)
  qed
  have same: "set_mset (held p') = set_mset (held ?p)"
    unfolding p'(3) using set_mset_diff_distinct [OF _ sub] cow by (force simp: filter_empty_conv)
  let ?rest = "table_refs ((pk_tables kv)(sid := None)) + cached_refs (pk_cached kv) + X"
  have "held ?p = ?rest + (mset (pt_pages t) + mset (alloc_targets as))"
    using k table_refs_remove [OF sid(4), of sid] t by (simp add: ac_simps)
  also have "\<dots> = ?rest + mset (pt_pages (apply_all as t)) + mset (cow_sources as)"
    unfolding mset_pages_apply_all [OF ch, symmetric] by (simp add: ac_simps)
  finally have "held p' = ?rest + mset (pt_pages (apply_all as t))" unfolding p'(3) by simp
  then have held: "held p' = table_refs m + cached_refs (pk_cached kv) + X"
    unfolding m_def table_refs_update [OF sid(4)] by (simp add: ac_simps)
  have tables: "\<forall>x u. m x = Some u \<longrightarrow> table_wf u \<and> pt_sequence_id u = x"
    using k wf sid(1) by (auto simp: m_def)
  have fin: "finite (dom m)" using sid(4) by (simp add: m_def)
  have dev: "dom (dev_page s) = set_mset (held p')" "resident s = card (set_mset (held p'))" unfolding same using k by blast+
  have "kv_inv X (kv\<lparr>pk_pool := p', pk_tables := m\<rparr>) s"
    by (rule kv_inv_update [OF inv p'(2) fin tables held dev])
  moreover have "commit_paged_append (row_of t as) (owner kv s) = (Ok (), owner (kv\<lparr>pk_pool := p', pk_tables := m\<rparr>) s)"
    using t sid(1) p'(1) by (simp add: commit_paged_append_def row_of_def m_def)
  ultimately show ?thesis using p'(3) by blast
qed

lemma abort_paged_append_law:
  assumes sync: "\<And>n. \<not> dr_sync_fails d n" and inv: "kv_inv (X + mset (alloc_targets as)) kv s"
    and ch: "append_chain t (pk_pool kv) as"
  shows "\<exists>p' s'. abort_paged_append d (row_of t as) (owner kv s) = (Ok (), owner (kv\<lparr>pk_pool := p'\<rparr>) s') \<and>
    kv_inv X (kv\<lparr>pk_pool := p'\<rparr>) s' \<and> (\<forall>h. h \<notin> set (alloc_targets as) \<longrightarrow> dev_page s' h = dev_page s h)"
proof -
  let ?p = "pk_pool kv" and ?hs = "alloc_targets as"
  note k = inv [unfolded kv_inv_def]
  have sub: "mset ?hs \<subseteq># held ?p" using kv_inv_owned(3) [OF inv] by (meson mset_subset_eq_add_right subset_mset.order_trans)
  have one: "count (held ?p) h = 1" if "h \<in> set ?hs" for h
    using append_chain_targets [OF ch] that by (auto simp: alloc_targets_def)
  have "count (mset ?hs) h \<le> 1" for h
  proof (cases "h \<in> set ?hs")
    case True
    with mset_subset_eq_count [OF sub, of h] one [OF True] show ?thesis by simp
  next
    case False
    then have "count (mset ?hs) h = 0" by (metis count_eq_zero_iff set_mset_mset)
    then show ?thesis by linarith
  qed
  then have dist: "distinct ?hs"
    by (metis count_eq_zero_iff distinct_count_atmost_1 le_less less_one set_mset_mset)
  have in_dom: "set (rev ?hs) \<subseteq> dom (dev_page s)" using k mset_subset_eqD [OF sub] by auto
  from device_release_all [OF sync _ _ in_dom, where kv = kv] k dist obtain s' where
    s': "iterS (engine_release d) (rev ?hs) (owner kv s) = (Ok (), owner kv s')" "same_shape s s'" "dev_inv s'"
      "dom (dev_page s') = dom (dev_page s) - set ?hs" "resident s' + length ?hs = resident s"
      "\<forall>h. h \<notin> set ?hs \<longrightarrow> dev_page s' h = dev_page s h" by auto
  have pinv: "pool_inv ?p" using k by blast
  from abort_append_batch_law [OF pinv, of "pr_pending (row_of t as)"] sub obtain p' where
    p': "abort_append_batch (pr_pending (row_of t as)) ?p = (Ok (), p')" "pool_inv p'" "held p' = held ?p - mset ?hs" by (auto simp: row_of_def)
  have "filter (\<lambda>h. count (held ?p) h = 1) ?hs = ?hs" using one by (intro filter_True) auto
  with set_mset_diff_distinct [OF dist sub] have set': "set_mset (held p') = set_mset (held ?p) - set ?hs" unfolding p'(3) by (simp only:)
  then have "card (set_mset (held p')) = card (set_mset (held ?p)) - length ?hs"
    using card_Diff_subset [of "set ?hs" "set_mset (held ?p)"] mset_subset_eqD [OF sub] distinct_card [OF dist] by auto
  then have "resident s' = card (set_mset (held p'))" using s'(5) k by simp
  moreover have "dom (dev_page s') = set_mset (held p')" using s'(4) set' k by simp
  moreover have "held p' = table_refs (pk_tables kv) + cached_refs (pk_cached kv) + X" using p'(3) k by simp
  moreover have "page_size s' = page_size s" using s'(2) by (simp add: same_shape_def page_size_def)
  ultimately have "kv_inv X (kv\<lparr>pk_pool := p'\<rparr>) s'" using k p'(2) s'(3) by (simp add: kv_inv_def)
  moreover have "abort_paged_append d (row_of t as) (owner kv s) = (Ok (), owner (kv\<lparr>pk_pool := p'\<rparr>) s')"
  proof -
    have "pr_allocated (row_of t as) = ?hs" by (simp add: row_of_def)
    then show ?thesis using s'(1) p'(1) by (simp add: abort_paged_append_def)
  qed
  ultimately show ?thesis using s'(6) by blast
qed

end
