(* ===== verification/Paged_Lifecycle.thy ===== *)
theory Paged_Lifecycle
  imports Paged_Client
begin

text \<open>
  The life of sequences in the paged cache: every operation of \<open>Paged_Client\<close> keeps the exact ownership of
  pages, on the pool and on the device, and what the retained prefix gives to a new sequence.
\<close>

section \<open>Kernels and appends\<close>

text \<open>A kernel reads and writes the bytes of pages; it neither adds nor removes any.\<close>

definition kernel_frame :: "('p \<Rightarrow> device_store \<Rightarrow> 'r option \<times> device_store) \<Rightarrow> bool" where
  "kernel_frame k \<longleftrightarrow> (\<forall>x s r s'. dev_inv s \<longrightarrow> k x s = (r, s') \<longrightarrow>
     same_shape s s' \<and> dev_inv s' \<and> dom (dev_page s') = dom (dev_page s) \<and> resident s' = resident s)"

lemma kv_inv_kernel:
  assumes "kv_inv X kv s" "kernel_frame k"
  shows "\<exists>r s'. run_kernel k x (owner kv s) = (r, owner kv s') \<and> kv_inv X kv s'"
proof -
  obtain r s' where ks: "k x s = (r, s')" by (cases "k x s")
  have "dev_inv s" using assms(1) by (simp add: kv_inv_def)
  with assms(2) ks have "same_shape s s'" "dev_inv s'" "dom (dev_page s') = dom (dev_page s)" "resident s' = resident s"
    unfolding kernel_frame_def by blast+
  with assms(1) have "kv_inv X kv s'" by (simp add: kv_inv_def same_shape_def page_size_def)
  with ks show ?thesis by (simp add: run_kernel_def)
qed

lemma kv_inv_tokens: "kv_inv X kv s \<Longrightarrow> kv_inv X (kv\<lparr>pk_tokens := f\<rparr>) s"
  unfolding kv_inv_def by simp

lemma prepare_missing:
  assumes sync: "\<And>n. \<not> dr_sync_fails d n" and inv: "kv_inv X kv s" and t: "pk_tables kv sid = None"
  shows "\<exists>kv' s'. prepare_paged_append d sid n (owner kv s) = (Err TableMissing, owner kv' s') \<and> kv_inv X kv' s' \<and>
    pk_tables kv' = pk_tables kv \<and> pk_tokens kv' = pk_tokens kv \<and> pk_cached kv' = None"
proof -
  from evict_paged_prefix_law [OF sync inv] obtain b p' s' where
    ev: "evict_paged_prefix d (owner kv s) = (Ok b, owner (kv\<lparr>pk_pool := p', pk_cached := None\<rparr>) s')"
      "kv_inv X (kv\<lparr>pk_pool := p', pk_cached := None\<rparr>) s'" by blast
  have "prepare_paged_append d sid n (owner kv s) = (Err TableMissing, owner (kv\<lparr>pk_pool := p', pk_cached := None\<rparr>) s')"
    using t ev(1) by (simp add: prepare_paged_append_def plan_paged_append_def)
  with ev(2) show ?thesis by (intro exI [of _ "kv\<lparr>pk_pool := p', pk_cached := None\<rparr>"] exI [of _ s']) simp
qed

lemma append_with_kernel_law:
  assumes sync: "\<And>n. \<not> dr_sync_fails d n" and inv: "kv_inv X kv s" and kernel: "kernel_frame k"
  shows "\<exists>r kv' s'. append_with_kernel d k sid n (owner kv s) = (r, owner kv' s') \<and> kv_inv X kv' s' \<and> pk_tokens kv' = pk_tokens kv \<and>
    ((\<exists>v t as. r = Ok v \<and> pk_tables kv sid = Some t \<and> pk_tables kv' = (pk_tables kv)(sid \<mapsto> apply_all as t) \<and> length as = n) \<or>
     (\<exists>e. r = Err e \<and> pk_tables kv' = pk_tables kv))"
proof (cases "pk_tables kv sid")
  case None
  from prepare_missing [OF sync inv None, of n] show ?thesis by (auto simp: append_with_kernel_def)
next
  case (Some t)
  from prepare_paged_append_law [OF sync inv Some, of n] obtain r kv1 s1 where
    pr: "prepare_paged_append d sid n (owner kv s) = (r, owner kv1 s1)" "pk_tables kv1 = pk_tables kv" "pk_tokens kv1 = pk_tokens kv"
    and cases: "(\<exists>as. r = Ok (row_of t as) \<and> kv_inv (X + mset (alloc_targets as)) kv1 s1 \<and> append_chain t (pk_pool kv1) as \<and>
        table_wf (apply_all as t) \<and> length as = n) \<or> (\<exists>e. r = Err e \<and> kv_inv X kv1 s1)" by blast
  from cases show ?thesis
  proof (elim disjE exE conjE)
    fix e assume "r = Err e" "kv_inv X kv1 s1"
    with pr show ?thesis by (intro exI [of _ "Err e"] exI [of _ kv1] exI [of _ s1]) (simp add: append_with_kernel_def)
  next
    fix as assume r: "r = Ok (row_of t as)" and i1: "kv_inv (X + mset (alloc_targets as)) kv1 s1"
      and ch: "append_chain t (pk_pool kv1) as" and wf: "table_wf (apply_all as t)" and n: "length as = n"
    have t1: "pk_tables kv1 sid = Some t" using pr(2) Some by simp
    from kv_inv_kernel [OF i1 kernel, of "pr_planned (row_of t as)"] obtain v s2 where
      k: "run_kernel k (pr_planned (row_of t as)) (owner kv1 s1) = (v, owner kv1 s2)" "kv_inv (X + mset (alloc_targets as)) kv1 s2" by blast
    show ?thesis
    proof (cases v)
      case (Some w)
      from commit_paged_append_law [OF k(2) t1 ch wf] obtain p' where
        c: "commit_paged_append (row_of t as) (owner kv1 s2) = (Ok (), owner (kv1\<lparr>pk_pool := p', pk_tables := (pk_tables kv1)(sid \<mapsto> apply_all as t)\<rparr>) s2)"
          "kv_inv X (kv1\<lparr>pk_pool := p', pk_tables := (pk_tables kv1)(sid \<mapsto> apply_all as t)\<rparr>) s2" by blast
      have "append_with_kernel d k sid n (owner kv s) =
          (Ok w, owner (kv1\<lparr>pk_pool := p', pk_tables := (pk_tables kv1)(sid \<mapsto> apply_all as t)\<rparr>) s2)"
        using pr(1) r k(1) Some c(1) by (simp add: append_with_kernel_def)
      then show ?thesis using c(2) pr(2,3) \<open>pk_tables kv sid = Some t\<close> n
        by (intro exI [of _ "Ok w"] exI [of _ "kv1\<lparr>pk_pool := p', pk_tables := (pk_tables kv1)(sid \<mapsto> apply_all as t)\<rparr>"] exI [of _ s2]) auto
    next
      case None
      from abort_paged_append_law [OF sync k(2) ch] obtain p' s3 where
        a: "abort_paged_append d (row_of t as) (owner kv1 s2) = (Ok (), owner (kv1\<lparr>pk_pool := p'\<rparr>) s3)" "kv_inv X (kv1\<lparr>pk_pool := p'\<rparr>) s3" by blast
      have "append_with_kernel d k sid n (owner kv s) = (Err KernelFailed, owner (kv1\<lparr>pk_pool := p'\<rparr>) s3)"
        using pr(1) r k(1) None a(1) by (simp add: append_with_kernel_def)
      then show ?thesis using a(2) pr(2,3)
        by (intro exI [of _ "Err KernelFailed"] exI [of _ "kv1\<lparr>pk_pool := p'\<rparr>"] exI [of _ s3]) simp
    qed
  qed
qed

section \<open>Adopting the retained prefix\<close>

lemma common_len_law:
  "n \<le> length xs \<Longrightarrow> n \<le> length ys \<Longrightarrow>
    common_len n xs ys \<le> n \<and> take (common_len n xs ys) xs = take (common_len n xs ys) ys \<and>
    (common_len n xs ys < n \<longrightarrow> xs ! common_len n xs ys \<noteq> ys ! common_len n xs ys)"
proof (induction n xs ys rule: common_len.induct)
  case (1 n x xs y ys)
  then show ?case by (cases n) auto
qed auto

lemma resident_prefix_len_law:
  "resident_prefix_len res filled toks \<le> min (min (length res) filled) (length toks) \<and>
   take (resident_prefix_len res filled toks) res = take (resident_prefix_len res filled toks) toks"
  using common_len_law [of "min (min (length res) filled) (length toks)" res toks] by (simp add: resident_prefix_len_def)

lemma resident_prefix_len_maximal:
  fixes res toks :: "u32 list" and filled limit :: nat
  defines "n \<equiv> min (resident_prefix_len res filled toks) limit"
    and "bound \<equiv> min limit (min (length toks) (min (length res) filled))"
  shows "n \<le> bound \<and> (\<forall>i < n. toks ! i = res ! i) \<and> (n < bound \<longrightarrow> toks ! n \<noteq> res ! n)"
proof -
  let ?b = "min (min (length res) filled) (length toks)"
  let ?m = "resident_prefix_len res filled toks"
  have law: "?m \<le> ?b" "take ?m res = take ?m toks" "?m < ?b \<longrightarrow> res ! ?m \<noteq> toks ! ?m"
    using common_len_law [of ?b res toks] by (simp_all add: resident_prefix_len_def)
  have same: "toks ! i = res ! i" if "i < ?m" for i
    using that law(2) by (metis nth_take)
  have "n \<le> ?m" "n \<le> bound" unfolding n_def bound_def using law(1) by linarith+
  moreover have "toks ! n \<noteq> res ! n" if "n < bound"
  proof -
    have "n = ?m" "?m < ?b" using that unfolding n_def bound_def by linarith+
    with law(3) show ?thesis by metis
  qed
  ultimately show ?thesis using same by auto
qed

text \<open>The table a sequence gets from the retained one: its first pages.\<close>

definition shared_table :: "seq_id \<Rightarrow> usize \<Rightarrow> page_table \<Rightarrow> page_table" where
  "shared_table sid n t = \<lparr>pt_sequence_id = sid, pt_pages = take (div_ceil n 16) (pt_pages t), pt_tokens = n\<rparr>"

lemma truncate_forked:
  assumes "pool_inv p" "table_wf t" "mset (pt_pages t) \<subseteq># held p" "n \<le> pt_tokens t"
  shows "\<exists>p'. Paged_Table.truncate n (t\<lparr>pt_sequence_id := sid\<rparr>, p) = (Ok (), (shared_table sid n t, p')) \<and> pool_inv p' \<and>
    held p' + mset (drop (div_ceil n 16) (pt_pages t)) = held p \<and> table_wf (shared_table sid n t)"
proof (cases "n < pt_tokens t")
  case True
  let ?t = "t\<lparr>pt_sequence_id := sid\<rparr>"
  have wf: "table_wf ?t" "mset (pt_pages ?t) \<subseteq># held p" "n < pt_tokens ?t" using assms True by (simp_all add: table_wf_def)
  have eq: "?t\<lparr>pt_pages := take (div_ceil n 16) (pt_pages ?t), pt_tokens := n\<rparr> = shared_table sid n t"
    by (simp add: shared_table_def)
  have "mset (drop (div_ceil n 16) (pt_pages t)) \<subseteq># mset (pt_pages t)"
    by (metis append_take_drop_id mset_append mset_subset_eq_add_right)
  then have "mset (drop (div_ceil n 16) (pt_pages t)) \<subseteq># held p" using assms(3) by (rule subset_mset.order_trans)
  with truncate_law [OF assms(1) wf] show ?thesis unfolding eq by auto
next
  case False
  with assms(4) have n: "n = pt_tokens t" by simp
  have len: "length (pt_pages t) = div_ceil n 16" using assms(2) n by (simp add: table_wf_def CUDA_KV_PAGE_TOKENS_def)
  then have "shared_table sid n t = t\<lparr>pt_sequence_id := sid\<rparr>" using n by (simp add: shared_table_def)
  then show ?thesis using assms len n by (intro exI [of _ p]) (simp add: Paged_Table.truncate_def table_wf_def)
qed

lemma adopt_law:
  assumes inv: "kv_inv X kv s"
  shows "\<exists>n kv'. adopt_paged_prefix sid toks max_reuse (owner kv s) = (Ok n, owner kv' s) \<and> kv_inv X kv' s \<and> pk_cached kv' = pk_cached kv \<and>
    (n = 0 \<and> pk_tables kv' = pk_tables kv \<and> pk_tokens kv' = pk_tokens kv \<and>
       (\<forall>ct ctoks t. pk_cached kv = Some (ct, ctoks) \<and> pk_tables kv sid = Some t \<and> pt_tokens t = 0 \<longrightarrow>
          min (resident_prefix_len ctoks (pt_tokens ct) toks) max_reuse = 0 \<or> fst (fork ct sid (pk_pool kv)) = Err ReferenceOverflow) \<or>
     (\<exists>ct ctoks. pk_cached kv = Some (ct, ctoks) \<and> pk_tables kv sid \<noteq> None \<and> 0 < n \<and> n = min (resident_prefix_len ctoks (pt_tokens ct) toks) max_reuse \<and>
        take n toks = take n ctoks \<and> pk_tables kv' = (pk_tables kv)(sid \<mapsto> shared_table sid n ct) \<and>
        pk_tokens kv' = (pk_tokens kv)(sid \<mapsto> take n toks)))"
proof -
  show ?thesis
  proof (cases "pk_cached kv")
    case None
    then have "adopt_paged_prefix sid toks max_reuse (owner kv s) = (Ok 0, owner kv s)" by (simp add: adopt_paged_prefix_def)
    then show ?thesis using inv None by (intro exI [of _ 0] exI [of _ kv]) simp
  next
    case (Some cc)
    obtain ct ctoks where cc: "cc = (ct, ctoks)" by (cases cc)
    define n where "n = min (resident_prefix_len ctoks (pt_tokens ct) toks) max_reuse"
    show ?thesis
    proof (cases "n = 0 \<or> (case pk_tables kv sid of None \<Rightarrow> True | Some t \<Rightarrow> pt_tokens t \<noteq> 0)")
      case True
      then have "adopt_paged_prefix sid toks max_reuse (owner kv s) = (Ok 0, owner kv s)"
        using Some cc by (auto simp: adopt_paged_prefix_def n_def Let_def)
      then show ?thesis using inv True Some cc unfolding n_def by (intro exI [of _ 0] exI [of _ kv]) (auto split: option.splits)
    next
      case False
      then obtain t0 where n: "0 < n" and t0: "pk_tables kv sid = Some t0" "pt_tokens t0 = 0" by (auto split: option.splits)
      note k = inv [unfolded kv_inv_def]
      have wf: "pool_inv (pk_pool kv)" "table_wf ct" "table_wf t0" "finite (dom (pk_tables kv))" using k Some cc t0 by blast+
      have own: "mset (pt_pages ct) \<subseteq># held (pk_pool kv)" using kv_inv_owned(2) [OF inv] Some cc by blast
      have t0p: "pt_pages t0 = []" using wf(3) t0(2) by (simp add: table_wf_def)
      have res: "n \<le> pt_tokens ct" "take n toks = take n ctoks"
      proof -
        let ?m = "resident_prefix_len ctoks (pt_tokens ct) toks"
        have "?m \<le> pt_tokens ct" "take ?m ctoks = take ?m toks" using resident_prefix_len_law [of ctoks "pt_tokens ct" toks] by auto
        then show "n \<le> pt_tokens ct" "take n toks = take n ctoks" unfolding n_def by (auto simp: min_def) (metis min.absorb1 nat_le_linear take_take)
      qed
      have d: "distinct (pt_pages ct)" using wf(2) by (simp add: table_wf_def)
      from fork_law [OF wf(1) d own, of sid] show ?thesis
      proof (elim disjE exE conjE)
        assume full: "fork ct sid (pk_pool kv) = (Err ReferenceOverflow, pk_pool kv)"
        then have "adopt_paged_prefix sid toks max_reuse (owner kv s) = (Ok 0, owner kv s)"
          using Some cc n t0 by (simp add: adopt_paged_prefix_def n_def [symmetric] Let_def)
        then show ?thesis using inv full Some cc by (intro exI [of _ 0] exI [of _ kv]) simp
      next
        fix p assume f: "fork ct sid (pk_pool kv) = (Ok (ct\<lparr>pt_sequence_id := sid\<rparr>), p)" "pool_inv p" "held p = held (pk_pool kv) + mset (pt_pages ct)"
        have "mset (pt_pages ct) \<subseteq># held p" using f(3) by simp
        from truncate_forked [OF f(2) wf(2) this res(1), of sid] obtain p' where
          tr: "Paged_Table.truncate n (ct\<lparr>pt_sequence_id := sid\<rparr>, p) = (Ok (), (shared_table sid n ct, p'))" "pool_inv p'"
            "held p' + mset (drop (div_ceil n 16) (pt_pages ct)) = held p" "table_wf (shared_table sid n ct)" by blast
        let ?take = "mset (take (div_ceil n 16) (pt_pages ct))" and ?drop = "mset (drop (div_ceil n 16) (pt_pages ct))"
        let ?m = "(pk_tables kv)(sid \<mapsto> shared_table sid n ct)"
        let ?kv = "kv\<lparr>pk_pool := p', pk_tables := ?m, pk_tokens := (pk_tokens kv)(sid \<mapsto> take n toks)\<rparr>"
        have "mset (pt_pages ct) = ?take + ?drop" by (metis append_take_drop_id mset_append)
        then have held': "held p' = held (pk_pool kv) + ?take" using tr(3) f(3) by simp
        have "set_mset ?take \<subseteq> set_mset (held (pk_pool kv))"
          using mset_subset_eqD [OF own] by (auto dest: in_set_takeD)
        then have same: "set_mset (held p') = set_mset (held (pk_pool kv))" using held' by auto
        have refs: "table_refs ((pk_tables kv)(sid := None)) = table_refs (pk_tables kv)"
          using table_refs_remove [OF wf(4), of sid] t0(1) t0p by simp
        have "held (pk_pool kv) = table_refs (pk_tables kv) + cached_refs (pk_cached kv) + X" using k by blast
        then have own': "held p' = table_refs ?m + cached_refs (pk_cached kv) + X"
          unfolding held' table_refs_update [OF wf(4)] refs by (simp add: shared_table_def ac_simps)
        have tabs: "\<forall>x u. ?m x = Some u \<longrightarrow> table_wf u \<and> pt_sequence_id u = x"
          using k tr(4) by (auto simp: shared_table_def)
        have fin: "finite (dom ?m)" using wf(4) by simp
        have dev: "dom (dev_page s) = set_mset (held p')" "resident s = card (set_mset (held p'))" unfolding same using k by blast+
        have "kv_inv X (kv\<lparr>pk_pool := p', pk_tables := ?m\<rparr>) s"
          by (rule kv_inv_update [OF inv tr(2) fin tabs own' dev])
        then have "kv_inv X ?kv s" by (rule kv_inv_tokens)
        moreover have "adopt_paged_prefix sid toks max_reuse (owner kv s) = (Ok n, owner ?kv s)"
          using Some cc n t0 f(1) tr(1) by (simp add: adopt_paged_prefix_def n_def [symmetric] Let_def)
        ultimately show ?thesis using Some cc n res(2) n_def t0(1)
          by (intro exI [of _ n] exI [of _ ?kv] conjI disjI2 exI [of _ ct] exI [of _ ctoks]) simp_all
      qed
    qed
  qed
qed

section \<open>Opening and ending sequences\<close>

lemma open_table_law:
  assumes inv: "kv_inv X kv s" and new: "pk_tables kv sid = None"
  shows "\<exists>kv'. open_table sid (owner kv s) = (Ok (), owner kv' s) \<and> kv_inv X kv' s \<and> pk_tables kv' = (pk_tables kv)(sid \<mapsto> table_new sid)"
proof -
  let ?m = "(pk_tables kv)(sid \<mapsto> table_new sid)"
  note k = inv [unfolded kv_inv_def]
  have fin: "finite (dom (pk_tables kv))" using k by blast
  have "table_refs ((pk_tables kv)(sid := None)) = table_refs (pk_tables kv)" using new by (simp add: fun_upd_idem)
  then have held: "held (pk_pool kv) = table_refs ?m + cached_refs (pk_cached kv) + X"
    using k unfolding table_refs_update [OF fin] by (simp add: table_new_def)
  have "\<forall>x u. ?m x = Some u \<longrightarrow> table_wf u \<and> pt_sequence_id u = x" using k by (auto simp: table_new_def table_wf_def)
  from kv_inv_update [OF inv _ _ this held] have "kv_inv X (kv\<lparr>pk_pool := pk_pool kv, pk_tables := ?m\<rparr>) s" using k by simp
  then have "kv_inv X (kv\<lparr>pk_tables := ?m\<rparr>) s" by simp
  then show ?thesis using new by (simp add: open_table_def)
qed

lemma tables_removed:
  assumes inv: "kv_inv X kv s" and t: "pk_tables kv sid = Some t"
  defines "kv1 \<equiv> kv\<lparr>pk_tables := (pk_tables kv)(sid := None), pk_tokens := (pk_tokens kv)(sid := None)\<rparr>"
  shows "kv_inv (X + mset (pt_pages t)) kv1 s"
proof -
  note k = inv [unfolded kv_inv_def]
  have fin: "finite (dom (pk_tables kv))" using k by blast
  have held: "held (pk_pool kv) = table_refs ((pk_tables kv)(sid := None)) + cached_refs (pk_cached kv) + (X + mset (pt_pages t))"
    using k table_refs_remove [OF fin, of sid] t by (simp add: ac_simps)
  have "kv_inv (X + mset (pt_pages t)) (kv\<lparr>pk_pool := pk_pool kv, pk_tables := (pk_tables kv)(sid := None)\<rparr>) s"
    by (rule kv_inv_update [OF inv _ _ _ held]) (use k in auto)
  then have "kv_inv (X + mset (pt_pages t)) (kv\<lparr>pk_tables := (pk_tables kv)(sid := None)\<rparr>) s" by simp
  then show ?thesis unfolding kv1_def by (rule kv_inv_tokens)
qed

lemma release_sequence_law:
  assumes sync: "\<And>n. \<not> dr_sync_fails d n" and inv: "kv_inv X kv s" and t: "pk_tables kv sid = Some t"
  shows "\<exists>kv' s'. release_paged_sequence d sid (owner kv s) = (Ok (), owner kv' s') \<and> kv_inv X kv' s' \<and>
    pk_tables kv' = (pk_tables kv)(sid := None) \<and> pk_tokens kv' = (pk_tokens kv)(sid := None) \<and>
    (\<forall>toks. pk_tokens kv sid = Some toks \<and> toks \<noteq> [] \<and> length toks = pt_tokens t \<longrightarrow> pk_cached kv' = Some (t, toks))"
proof -
  let ?toks = "case pk_tokens kv sid of None \<Rightarrow> [] | Some r \<Rightarrow> r"
  let ?kv1 = "kv\<lparr>pk_tables := (pk_tables kv)(sid := None), pk_tokens := (pk_tokens kv)(sid := None)\<rparr>"
  have wf: "table_wf t" using inv t by (auto simp: kv_inv_def)
  note i1 = tables_removed [OF inv t]
  show ?thesis
  proof (cases "?toks = [] \<or> length ?toks \<noteq> pt_tokens t")
    case True
    from release_paged_table_law [OF sync i1] wf obtain p' s' where
      r: "release_paged_table d t (owner ?kv1 s) = (Ok (), owner (?kv1\<lparr>pk_pool := p'\<rparr>) s')" "kv_inv X (?kv1\<lparr>pk_pool := p'\<rparr>) s'"
      by (auto simp: table_wf_def)
    have "release_paged_sequence d sid (owner kv s) = (Ok (), owner (?kv1\<lparr>pk_pool := p'\<rparr>) s')"
      using t True r(1) by (simp add: release_paged_sequence_def Let_def)
    with r(2) True show ?thesis by (intro exI [of _ "?kv1\<lparr>pk_pool := p'\<rparr>"] exI [of _ s']) auto
  next
    case False
    let ?kv2 = "?kv1\<lparr>pk_cached := Some (t, ?toks)\<rparr>"
    show ?thesis
    proof (cases "pk_cached kv")
      case None
      then have "kv_inv X ?kv2 s" using i1 wf False by (simp add: kv_inv_def cached_refs_def ac_simps)
      moreover have "release_paged_sequence d sid (owner kv s) = (Ok (), owner ?kv2 s)"
        using t False None by (simp add: release_paged_sequence_def Let_def)
      ultimately show ?thesis by (intro exI [of _ ?kv2] exI [of _ s]) auto
    next
      case (Some oc)
      obtain old ot where oc: "oc = (old, ot)" by (cases oc)
      have "kv_inv (X + mset (pt_pages old)) ?kv2 s" using i1 wf False Some oc by (simp add: kv_inv_def cached_refs_def ac_simps)
      moreover have "distinct (pt_pages old)" using inv Some oc by (auto simp: kv_inv_def table_wf_def)
      ultimately obtain p' s' where
        r: "release_paged_table d old (owner ?kv2 s) = (Ok (), owner (?kv2\<lparr>pk_pool := p'\<rparr>) s')" "kv_inv X (?kv2\<lparr>pk_pool := p'\<rparr>) s'"
        using release_paged_table_law [OF sync] by blast
      have "release_paged_sequence d sid (owner kv s) = (Ok (), owner (?kv2\<lparr>pk_pool := p'\<rparr>) s')"
        using t False Some oc r(1) by (simp add: release_paged_sequence_def Let_def)
      with r(2) show ?thesis by (intro exI [of _ "?kv2\<lparr>pk_pool := p'\<rparr>"] exI [of _ s']) auto
    qed
  qed
qed

end
