(* ===== verification/Paged_Batch.thy ===== *)
theory Paged_Batch
  imports Paged_Lifecycle
begin

text \<open>
  The batched appends of \<open>src/src/inference.rs\<close> (\<open>forward_paged_batch_append\<close>, \<open>prefill_paged_batch_append\<close>):
  several rows have an append under way at once. As long as no row shares its tail page, preparing one row
  leaves the others valid, also when it evicts the retained prefix, and the batch commits or aborts as a whole.

  The client's runs are a step relation over all of its operations; the exact ownership of pages holds in
  every state they reach. The last section runs a batch that does share a tail page, and leaks.
\<close>

section \<open>Rows under way\<close>

text \<open>The page the next token of a table goes to is held by nobody else.\<close>

definition private_tail :: "page_pool \<Rightarrow> page_table \<Rightarrow> bool" where
  "private_tail p t \<longleftrightarrow>
     (case list_get (pt_pages t) (pt_tokens t div CUDA_KV_PAGE_TOKENS) of
        None \<Rightarrow> True | Some h \<Rightarrow> count (held p) h = 1)"

definition row_ready :: "paged_kv \<Rightarrow> page_table \<times> pending_append \<Rightarrow> bool" where
  "row_ready kv r \<longleftrightarrow>
     (case r of (t, a) \<Rightarrow>
        pk_tables kv (pt_sequence_id t) = Some t \<and> append_ok t (pk_pool kv) a \<and> copy_source a = None \<and>
        table_wf (apply_append a t))"

definition batch_refs :: "(page_table \<times> pending_append) list \<Rightarrow> page_handle multiset" where
  "batch_refs rows = mset (alloc_targets (map snd rows))"

lemma batch_refs_simps [simp]:
  "batch_refs [] = {#}" "batch_refs (r # rows) = mset (alloc_targets [snd r]) + batch_refs rows"
  "batch_refs (rows @ rows') = batch_refs rows + batch_refs rows'"
  by (simp_all add: batch_refs_def)

abbreviation pending_rows :: "(page_table \<times> pending_append) list \<Rightarrow> pending_row list" where
  "pending_rows rows \<equiv> map (\<lambda>(t, a). row_of t [a]) rows"

lemma table_refs_member: "finite (dom m) \<Longrightarrow> m x = Some t \<Longrightarrow> h \<in> set (pt_pages t) \<Longrightarrow> h \<in># table_refs m"
  using table_refs_remove [of m x] by simp

lemma row_target:
  assumes "finite (dom (pk_tables kv))" "row_ready kv r" "r \<in> set rows"
  shows "pa_target (snd r) \<in># table_refs (pk_tables kv) + batch_refs rows"
proof -
  obtain t a where r: "r = (t, a)" by (cases r)
  show ?thesis
  proof (cases "allocates a")
    case True
    then have "pa_target a \<in># batch_refs rows" using assms(3) r by (force simp: batch_refs_def alloc_targets_def)
    then show ?thesis using r by simp
  next
    case False
    then have "pa_target a \<in> set (pt_pages t)" "pk_tables kv (pt_sequence_id t) = Some t"
      using assms(2) r by (auto simp: row_ready_def append_ok_def allocates_def list_get_Some_iff split: pending_kind.splits) (metis nth_mem)
    then show ?thesis using table_refs_member [OF assms(1)] r by auto
  qed
qed

lemma row_ready_kept:
  assumes "row_ready kv (t, a)" "pk_tables kv' (pt_sequence_id t) = Some t" "count (held (pk_pool kv')) (pa_target a) = 1"
  shows "row_ready kv' (t, a)"
  using assms by (auto simp: row_ready_def append_ok_def copy_source_def split: pending_kind.splits)

text \<open>A reference that is the only one to its page stays so while the pool drops others and takes pages in that
  are themselves referenced once.\<close>

lemma single_kept:
  assumes "count (held p) h = 1" "h \<in># R" "held p' = R + (C + B)" "R + C \<subseteq># held p" "\<And>x. x \<in># B \<Longrightarrow> count (held p') x = 1"
  shows "count (held p') h = 1"
proof -
  have r: "1 \<le> count R h" using assms(2) by (simp add: Suc_le_eq)
  have "count B h = 0"
  proof (rule ccontr)
    assume "count B h \<noteq> 0"
    then have "count (held p') h = 1" "1 \<le> count B h" using assms(5) by (simp_all add: count_eq_zero_iff [symmetric] del: count_eq_zero_iff)
    then show False using r assms(3) by simp
  qed
  moreover have "count R h + count C h \<le> 1" using mset_subset_eq_count [OF assms(4), of h] assms(1) by simp
  ultimately show ?thesis using r unfolding assms(3) by (simp only: count_union)
qed

lemma kv_inv_held: "kv_inv X kv s \<Longrightarrow> held (pk_pool kv) = table_refs (pk_tables kv) + cached_refs (pk_cached kv) + X"
  unfolding kv_inv_def by blast

lemma cached_refs_le: "c' \<in> {c, None} \<Longrightarrow> cached_refs c' \<subseteq># cached_refs c"
  by (auto simp: cached_refs_def)

lemma single_prepared:
  assumes inv: "kv_inv X kv s" and inv': "kv_inv (X + B) kv' s'" and same: "pk_tables kv' = pk_tables kv" "pk_cached kv' \<in> {pk_cached kv, None}"
    and B: "\<And>x. x \<in># B \<Longrightarrow> count (held (pk_pool kv')) x = 1"
    and h: "count (held (pk_pool kv)) h = 1" "h \<in># table_refs (pk_tables kv) + X"
  shows "count (held (pk_pool kv')) h = 1"
proof (rule single_kept [OF h(1,2) _ _ B])
  show "held (pk_pool kv') = table_refs (pk_tables kv) + X + (cached_refs (pk_cached kv') + B)"
    using kv_inv_held [OF inv'] same(1) by (simp add: ac_simps)
  show "table_refs (pk_tables kv) + X + cached_refs (pk_cached kv') \<subseteq># held (pk_pool kv)"
    using kv_inv_held [OF inv] cached_refs_le [OF same(2)] by (simp add: ac_simps)
qed

lemma private_tail_kept:
  assumes "private_tail (pk_pool kv) t" "pk_tables kv x = Some t" "finite (dom (pk_tables kv))"
    and "\<And>h. count (held (pk_pool kv)) h = 1 \<Longrightarrow> h \<in># table_refs (pk_tables kv) \<Longrightarrow> count (held (pk_pool kv')) h = 1"
  shows "private_tail (pk_pool kv') t"
proof (cases "list_get (pt_pages t) (pt_tokens t div CUDA_KV_PAGE_TOKENS)")
  case (Some h)
  then have "h \<in> set (pt_pages t)" by (auto simp: list_get_Some_iff)
  moreover have "count (held (pk_pool kv)) h = 1" using assms(1) Some by (simp add: private_tail_def)
  ultimately have "count (held (pk_pool kv')) h = 1" using table_refs_member [OF assms(3,2)] assms(4) by blast
  with Some show ?thesis by (simp add: private_tail_def)
qed (simp add: private_tail_def)

lemma private_no_copy:
  assumes "private_tail p t" "append_ok t p a"
  shows "copy_source a = None"
  using assms by (auto simp: private_tail_def append_ok_def copy_source_def split: pending_kind.splits)

section \<open>Preparing, committing and aborting a batch\<close>

lemma prepare_row:
  assumes sync: "\<And>n. \<not> dr_sync_fails d n" and inv: "kv_inv (batch_refs rows) kv s" and ready: "\<forall>r \<in> set rows. row_ready kv r"
    and priv: "\<forall>t. pk_tables kv sid = Some t \<longrightarrow> private_tail (pk_pool kv) t"
  shows "\<exists>r kv' s'. prepare_paged_append d sid 1 (owner kv s) = (r, owner kv' s') \<and> pk_tables kv' = pk_tables kv \<and>
    pk_tokens kv' = pk_tokens kv \<and>
    (\<forall>x t. pk_tables kv x = Some t \<and> private_tail (pk_pool kv) t \<longrightarrow> private_tail (pk_pool kv') t) \<and>
    ((\<exists>t a. r = Ok (row_of t [a]) \<and> pt_sequence_id t = sid \<and> kv_inv (batch_refs (rows @ [(t, a)])) kv' s' \<and>
        (\<forall>r \<in> set (rows @ [(t, a)]). row_ready kv' r)) \<or>
     (\<exists>e. r = Err e \<and> kv_inv (batch_refs rows) kv' s' \<and> (\<forall>r \<in> set rows. row_ready kv' r)))"
proof -
  have fin: "finite (dom (pk_tables kv))" using inv unfolding kv_inv_def by blast
  have step: "(\<forall>r \<in> set rows. row_ready kv' r) \<and>
      (\<forall>x t. pk_tables kv x = Some t \<and> private_tail (pk_pool kv) t \<longrightarrow> private_tail (pk_pool kv') t)"
    if i: "kv_inv (batch_refs rows + B) kv' s'" and same: "pk_tables kv' = pk_tables kv" "pk_cached kv' \<in> {pk_cached kv, None}"
      and B: "\<And>x. x \<in># B \<Longrightarrow> count (held (pk_pool kv')) x = 1" for B kv' s'
  proof (intro conjI ballI allI impI)
    note single = single_prepared [OF inv i same B]
    fix r assume r: "r \<in> set rows"
    obtain t a where ta: "r = (t, a)" by (cases r)
    have rdy: "row_ready kv (t, a)" using ready r ta by blast
    then have "count (held (pk_pool kv)) (pa_target a) = 1" "pk_tables kv (pt_sequence_id t) = Some t"
      by (simp_all add: row_ready_def append_ok_def)
    then have "count (held (pk_pool kv')) (pa_target a) = 1" "pk_tables kv' (pt_sequence_id t) = Some t"
      using row_target [OF fin rdy] r ta single same(1) by auto
    then show "row_ready kv' r" unfolding ta by (intro row_ready_kept [OF rdy])
  next
    note single = single_prepared [OF inv i same B]
    fix x t assume "pk_tables kv x = Some t \<and> private_tail (pk_pool kv) t"
    then show "private_tail (pk_pool kv') t"
      by (intro private_tail_kept [of kv t x kv', OF _ _ fin] single) simp_all
  qed
  show ?thesis
  proof (cases "pk_tables kv sid")
    case None
    from prepare_missing [OF sync inv None, of 1] obtain kv' s' where
      m: "prepare_paged_append d sid 1 (owner kv s) = (Err TableMissing, owner kv' s')" "kv_inv (batch_refs rows) kv' s'"
        "pk_tables kv' = pk_tables kv" "pk_tokens kv' = pk_tokens kv" "pk_cached kv' = None" by blast
    have "kv_inv (batch_refs rows + {#}) kv' s'" using m(2) by simp
    from step [OF this m(3)] m show ?thesis by (intro exI [of _ "Err TableMissing"] exI [of _ kv'] exI [of _ s']) auto
  next
    case (Some t)
    from prepare_paged_append_law [OF sync inv Some, of 1] obtain r kv' s' where
      pr: "prepare_paged_append d sid 1 (owner kv s) = (r, owner kv' s')" "pk_tables kv' = pk_tables kv" "pk_tokens kv' = pk_tokens kv"
        "pk_cached kv' \<in> {pk_cached kv, None}"
      and cases: "(\<exists>as. r = Ok (row_of t as) \<and> kv_inv (batch_refs rows + mset (alloc_targets as)) kv' s' \<and> append_chain t (pk_pool kv') as \<and>
          table_wf (apply_all as t) \<and> length as = 1) \<or> (\<exists>e. r = Err e \<and> kv_inv (batch_refs rows) kv' s')" by blast
    from cases show ?thesis
    proof (elim disjE exE conjE)
      fix e assume e: "r = Err e" "kv_inv (batch_refs rows) kv' s'"
      then have "kv_inv (batch_refs rows + {#}) kv' s'" by simp
      from step [OF this pr(2,4)] pr e show ?thesis by (intro exI [of _ "Err e"] exI [of _ kv'] exI [of _ s']) auto
    next
      fix as assume r: "r = Ok (row_of t as)" and i: "kv_inv (batch_refs rows + mset (alloc_targets as)) kv' s'"
        and ch: "append_chain t (pk_pool kv') as" and wf: "table_wf (apply_all as t)" and len: "length as = 1"
      obtain a where a: "as = [a]" using len by (metis length_0_conv length_Suc_conv One_nat_def)
      have "count (held (pk_pool kv')) x = 1" if "x \<in># mset (alloc_targets as)" for x
        using append_chain_targets [OF ch] that by (auto simp: alloc_targets_def)
      note st = step [OF i pr(2,4) this]
      have "pt_sequence_id t = sid" using inv Some unfolding kv_inv_def by blast
      moreover have "private_tail (pk_pool kv') t" using st priv Some by blast
      with ch a have "copy_source a = None" by (auto intro: private_no_copy)
      ultimately have "row_ready kv' (t, a)" using ch wf a pr(2) Some by (simp add: row_ready_def)
      moreover have "kv_inv (batch_refs (rows @ [(t, a)])) kv' s'" using i a by simp
      ultimately show ?thesis using st r a \<open>pt_sequence_id t = sid\<close> pr(1-3)
        by (intro exI [of _ r] exI [of _ kv'] exI [of _ s'] conjI disjI1 exI [of _ t] exI [of _ a]) auto
    qed
  qed
qed

lemma commit_row:
  assumes inv: "kv_inv (X + batch_refs ((t, a) # rows)) kv s" and ready: "\<forall>r \<in> set ((t, a) # rows). row_ready kv r"
    and dist: "distinct (map (pt_sequence_id \<circ> fst) ((t, a) # rows))"
  shows "\<exists>kv'. commit_paged_append (row_of t [a]) (owner kv s) = (Ok (), owner kv' s) \<and> kv_inv (X + batch_refs rows) kv' s \<and>
    pk_tables kv' = (pk_tables kv)(pt_sequence_id t \<mapsto> apply_append a t) \<and> pk_tokens kv' = pk_tokens kv \<and>
    (\<forall>r \<in> set rows. row_ready kv' r)"
proof -
  have rdy: "pk_tables kv (pt_sequence_id t) = Some t" "append_ok t (pk_pool kv) a" "copy_source a = None" "table_wf (apply_append a t)"
    using ready by (simp_all add: row_ready_def)
  have i: "kv_inv (X + batch_refs rows + mset (alloc_targets [a])) kv s" using inv by (simp add: ac_simps)
  have ch: "append_chain t (pk_pool kv) [a]" "table_wf (apply_all [a] t)" using rdy by simp_all
  let ?m = "(pk_tables kv)(pt_sequence_id t \<mapsto> apply_append a t)"
  from commit_paged_append_law [OF i rdy(1) ch] obtain p' where
    c: "commit_paged_append (row_of t [a]) (owner kv s) = (Ok (), owner (kv\<lparr>pk_pool := p', pk_tables := ?m\<rparr>) s)"
      "kv_inv (X + batch_refs rows) (kv\<lparr>pk_pool := p', pk_tables := ?m\<rparr>) s" "held p' = held (pk_pool kv)"
    using rdy(3) by (auto simp: cow_sources_def)
  have "row_ready (kv\<lparr>pk_pool := p', pk_tables := ?m\<rparr>) r" if "r \<in> set rows" for r
  proof -
    obtain u b where r: "r = (u, b)" by (cases r)
    have old: "row_ready kv (u, b)" using ready that r by simp
    moreover have "pt_sequence_id u \<noteq> pt_sequence_id t" using dist that r by force
    ultimately show ?thesis unfolding r using c(3) by (intro row_ready_kept [OF old]) (simp_all add: row_ready_def append_ok_def)
  qed
  with c show ?thesis by (intro exI [of _ "kv\<lparr>pk_pool := p', pk_tables := ?m\<rparr>"]) simp
qed

lemma commit_rows:
  "kv_inv (X + batch_refs rows) kv s \<Longrightarrow> \<forall>r \<in> set rows. row_ready kv r \<Longrightarrow> distinct (map (pt_sequence_id \<circ> fst) rows) \<Longrightarrow>
    \<exists>kv'. iterS commit_paged_append (pending_rows rows) (owner kv s) = (Ok (), owner kv' s) \<and> kv_inv X kv' s \<and>
      pk_tables kv' = pk_tables kv ++ map_of (map (\<lambda>(t, a). (pt_sequence_id t, apply_append a t)) rows) \<and> pk_tokens kv' = pk_tokens kv"
proof (induction rows arbitrary: kv)
  case Nil
  then show ?case by auto
next
  case (Cons r rows)
  obtain t a where r: "r = (t, a)" by (cases r)
  from commit_row [OF Cons.prems [unfolded r]] obtain kv1 where
    c: "commit_paged_append (row_of t [a]) (owner kv s) = (Ok (), owner kv1 s)" "kv_inv (X + batch_refs rows) kv1 s"
      "pk_tables kv1 = (pk_tables kv)(pt_sequence_id t \<mapsto> apply_append a t)" "pk_tokens kv1 = pk_tokens kv"
      "\<forall>r \<in> set rows. row_ready kv1 r" by blast
  from Cons.IH [OF c(2,5)] Cons.prems(3) obtain kv' where
    k: "iterS commit_paged_append (pending_rows rows) (owner kv1 s) = (Ok (), owner kv' s)" "kv_inv X kv' s"
      "pk_tables kv' = pk_tables kv1 ++ map_of (map (\<lambda>(t, a). (pt_sequence_id t, apply_append a t)) rows)"
      "pk_tokens kv' = pk_tokens kv1" by auto
  let ?m = "map_of (map (\<lambda>(t, a). (pt_sequence_id t, apply_append a t)) rows)"
  have "pt_sequence_id t \<notin> dom ?m" using Cons.prems(3) r
    by (simp add: dom_map_of_conv_image_fst image_image split_beta comp_def)
  then have "pk_tables kv' = pk_tables kv ++ map_of (map (\<lambda>(t, a). (pt_sequence_id t, apply_append a t)) (r # rows))"
    unfolding k(3) c(3) r by (simp add: map_add_upd_left)
  moreover have "iterS commit_paged_append (pending_rows (r # rows)) (owner kv s) = (Ok (), owner kv' s)" using c(1) k(1) r by simp
  ultimately show ?case using k(2,4) c(4) by (intro exI [of _ kv']) (simp del: map_of.simps list.map)
qed

lemma abort_rows:
  assumes sync: "\<And>n. \<not> dr_sync_fails d n"
  shows "kv_inv (X + batch_refs rows) kv s \<Longrightarrow> \<forall>r \<in> set rows. row_ready kv r \<Longrightarrow>
    \<exists>kv' s'. abort_paged_appends d (pending_rows rows) (owner kv s) = (Ok (), owner kv' s') \<and> kv_inv X kv' s' \<and>
      pk_tables kv' = pk_tables kv \<and> pk_tokens kv' = pk_tokens kv"
proof (induction rows arbitrary: kv s rule: rev_induct)
  case Nil
  then show ?case by (auto simp: abort_paged_appends_def)
next
  case (snoc r rows)
  obtain t a where r: "r = (t, a)" by (cases r)
  have rdy: "append_chain t (pk_pool kv) [a]" using snoc.prems(2) r by (simp add: row_ready_def)
  have i: "kv_inv (X + batch_refs rows + mset (alloc_targets [a])) kv s" using snoc.prems(1) r by (simp add: ac_simps)
  from abort_paged_append_law [OF sync i rdy] obtain p' s1 where
    a: "abort_paged_append d (row_of t [a]) (owner kv s) = (Ok (), owner (kv\<lparr>pk_pool := p'\<rparr>) s1)"
      "kv_inv (X + batch_refs rows) (kv\<lparr>pk_pool := p'\<rparr>) s1" by blast
  let ?kv1 = "kv\<lparr>pk_pool := p'\<rparr>"
  have fin: "finite (dom (pk_tables kv))" using i unfolding kv_inv_def by blast
  have "row_ready ?kv1 q" if q: "q \<in> set rows" for q
  proof -
    obtain u b where ub: "q = (u, b)" by (cases q)
    have old: "row_ready kv (u, b)" using snoc.prems(2) q ub by simp
    have one: "count (held (pk_pool kv)) (pa_target b) = 1" using old by (simp add: row_ready_def append_ok_def)
    have tgt: "pa_target b \<in># table_refs (pk_tables kv) + batch_refs rows" using row_target [OF fin old] q ub by simp
    have "held p' = table_refs (pk_tables kv) + batch_refs rows + ((cached_refs (pk_cached kv) + X) + {#})"
      using kv_inv_held [OF a(2)] by (simp add: ac_simps)
    moreover have "table_refs (pk_tables kv) + batch_refs rows + (cached_refs (pk_cached kv) + X) \<subseteq># held (pk_pool kv)"
      using kv_inv_held [OF i] by (simp add: ac_simps)
    ultimately have "count (held p') (pa_target b) = 1" by (rule single_kept [OF one tgt]) simp
    then show ?thesis unfolding ub using old by (intro row_ready_kept [OF old]) (simp_all add: row_ready_def)
  qed
  with snoc.IH [OF a(2)] obtain kv' s' where
    k: "abort_paged_appends d (pending_rows rows) (owner ?kv1 s1) = (Ok (), owner kv' s')" "kv_inv X kv' s'"
      "pk_tables kv' = pk_tables kv" "pk_tokens kv' = pk_tokens kv" by auto
  with a r show ?case by (intro exI [of _ kv'] exI [of _ s']) (simp add: abort_paged_appends_def)
qed

lemma prepare_rows_law:
  assumes sync: "\<And>n. \<not> dr_sync_fails d n"
  shows "kv_inv (batch_refs rows) kv s \<Longrightarrow> \<forall>r \<in> set rows. row_ready kv r \<Longrightarrow>
    \<forall>sid \<in> set sids. \<forall>t. pk_tables kv sid = Some t \<longrightarrow> private_tail (pk_pool kv) t \<Longrightarrow>
    \<exists>r kv' s'. prepare_rows d sids (pending_rows rows) (owner kv s) = (r, owner kv' s') \<and> pk_tables kv' = pk_tables kv \<and>
      pk_tokens kv' = pk_tokens kv \<and>
      ((\<exists>rows'. r = Ok (pending_rows rows') \<and> kv_inv (batch_refs rows') kv' s' \<and> (\<forall>r \<in> set rows'. row_ready kv' r) \<and>
          map (pt_sequence_id \<circ> fst) rows' = map (pt_sequence_id \<circ> fst) rows @ sids) \<or>
       (\<exists>e. r = Err e \<and> kv_inv {#} kv' s'))"
proof (induction sids arbitrary: rows kv s)
  case Nil
  then show ?case by auto
next
  case (Cons sid sids)
  have priv: "\<forall>t. pk_tables kv sid = Some t \<longrightarrow> private_tail (pk_pool kv) t" using Cons.prems(3) by simp
  from prepare_row [OF sync Cons.prems(1,2) priv] obtain r kv1 s1 where
    pr: "prepare_paged_append d sid 1 (owner kv s) = (r, owner kv1 s1)" "pk_tables kv1 = pk_tables kv" "pk_tokens kv1 = pk_tokens kv"
      "\<forall>x t. pk_tables kv x = Some t \<and> private_tail (pk_pool kv) t \<longrightarrow> private_tail (pk_pool kv1) t"
    and cases: "(\<exists>t a. r = Ok (row_of t [a]) \<and> pt_sequence_id t = sid \<and> kv_inv (batch_refs (rows @ [(t, a)])) kv1 s1 \<and>
        (\<forall>r \<in> set (rows @ [(t, a)]). row_ready kv1 r)) \<or>
     (\<exists>e. r = Err e \<and> kv_inv (batch_refs rows) kv1 s1 \<and> (\<forall>r \<in> set rows. row_ready kv1 r))" by blast
  from cases show ?case
  proof (elim disjE exE conjE)
    fix t a assume r: "r = Ok (row_of t [a])" "pt_sequence_id t = sid" and i: "kv_inv (batch_refs (rows @ [(t, a)])) kv1 s1"
      and rdy: "\<forall>r \<in> set (rows @ [(t, a)]). row_ready kv1 r"
    have "\<forall>sid \<in> set sids. \<forall>t. pk_tables kv1 sid = Some t \<longrightarrow> private_tail (pk_pool kv1) t"
      using Cons.prems(3) pr(2,4) by auto
    from Cons.IH [OF i rdy this] pr r show ?case by auto
  next
    fix e assume e: "r = Err e" "kv_inv (batch_refs rows) kv1 s1" "\<forall>r \<in> set rows. row_ready kv1 r"
    then have "kv_inv ({#} + batch_refs rows) kv1 s1" by simp
    from abort_rows [OF sync this e(3)] e(1) pr(1-3) show ?case by auto
  qed
qed

lemma batch_append_law:
  assumes sync: "\<And>n. \<not> dr_sync_fails d n" and inv: "kv_inv {#} kv s" and kernel: "kernel_frame k" and dist: "distinct sids"
    and priv: "\<forall>sid \<in> set sids. \<forall>t. pk_tables kv sid = Some t \<longrightarrow> private_tail (pk_pool kv) t"
  shows "\<exists>r kv' s'. paged_batch_append d k sids positions (owner kv s) = (r, owner kv' s') \<and> kv_inv {#} kv' s' \<and>
    pk_tokens kv' = pk_tokens kv \<and>
    ((\<exists>v. r = Ok v \<and> (\<forall>sid. if sid \<in> set sids then \<exists>t a. pk_tables kv sid = Some t \<and> pk_tables kv' sid = Some (apply_append a t)
        else pk_tables kv' sid = pk_tables kv sid)) \<or> (\<exists>e. r = Err e \<and> pk_tables kv' = pk_tables kv))"
proof (cases "length sids = length positions")
  case False
  with inv show ?thesis by (auto simp: paged_batch_append_def)
next
  case True
  have "kv_inv (batch_refs []) kv s" "\<forall>r \<in> set []. row_ready kv r" using inv by simp_all
  from prepare_rows_law [OF sync this priv, simplified list.map append_Nil] obtain r kv1 s1 where
    pr: "prepare_rows d sids [] (owner kv s) = (r, owner kv1 s1)" "pk_tables kv1 = pk_tables kv" "pk_tokens kv1 = pk_tokens kv"
    and cases: "(\<exists>rows. r = Ok (pending_rows rows) \<and> kv_inv (batch_refs rows) kv1 s1 \<and> (\<forall>r \<in> set rows. row_ready kv1 r) \<and>
          map (pt_sequence_id \<circ> fst) rows = sids) \<or> (\<exists>e. r = Err e \<and> kv_inv {#} kv1 s1)" by blast
  from cases show ?thesis
  proof (elim disjE exE conjE)
    fix e assume "r = Err e" "kv_inv {#} kv1 s1"
    with pr True show ?thesis
      by (intro exI [of _ "Err e"] exI [of _ kv1] exI [of _ s1]) (simp add: paged_batch_append_def)
  next
    fix rows assume r: "r = Ok (pending_rows rows)" and i: "kv_inv (batch_refs rows) kv1 s1"
      and rdy: "\<forall>r \<in> set rows. row_ready kv1 r" and ids: "map (pt_sequence_id \<circ> fst) rows = sids"
    from kv_inv_kernel [OF i kernel, of "map pr_planned (pending_rows rows)"] obtain v s2 where
      k: "run_kernel k (map pr_planned (pending_rows rows)) (owner kv1 s1) = (v, owner kv1 s2)" "kv_inv (batch_refs rows) kv1 s2" by blast
    have i2: "kv_inv ({#} + batch_refs rows) kv1 s2" using k(2) by simp
    show ?thesis
    proof (cases v)
      case None
      from abort_rows [OF sync i2 rdy] obtain kv' s' where
        a: "abort_paged_appends d (pending_rows rows) (owner kv1 s2) = (Ok (), owner kv' s')" "kv_inv {#} kv' s'"
          "pk_tables kv' = pk_tables kv" "pk_tokens kv' = pk_tokens kv" using pr(2,3) by auto
      have "paged_batch_append d k sids positions (owner kv s) = (Err KernelFailed, owner kv' s')"
        using True pr(1) r k(1) None a(1) by (simp add: paged_batch_append_def)
      with a(2-) show ?thesis by (intro exI [of _ "Err KernelFailed"] exI [of _ kv'] exI [of _ s']) simp
    next
      case (Some w)
      let ?m = "map_of (map (\<lambda>(t, a). (pt_sequence_id t, apply_append a t)) rows)"
      from commit_rows [OF i2 rdy] ids dist obtain kv' where
        c: "iterS commit_paged_append (pending_rows rows) (owner kv1 s2) = (Ok (), owner kv' s2)" "kv_inv {#} kv' s2"
          "pk_tables kv' = pk_tables kv ++ ?m" "pk_tokens kv' = pk_tokens kv" using pr(2,3) by auto
      have "if sid \<in> set sids then \<exists>t a. pk_tables kv sid = Some t \<and> pk_tables kv' sid = Some (apply_append a t)
          else pk_tables kv' sid = pk_tables kv sid" for sid
      proof (cases "?m sid")
        case None
        then have "sid \<notin> set sids" unfolding ids [symmetric] by (auto simp: map_of_eq_None_iff image_image split_beta)
        with None c(3) show ?thesis by (simp add: map_add_def)
      next
        case (Some u)
        then obtain t a where ta: "(t, a) \<in> set rows" "sid = pt_sequence_id t" "u = apply_append a t" by (auto dest!: map_of_SomeD)
        then have "pk_tables kv sid = Some t" using rdy pr(2) by (auto simp: row_ready_def)
        moreover have "sid \<in> set sids" unfolding ids [symmetric] using ta by force
        ultimately show ?thesis using Some ta(3) c(3) by auto
      qed
      moreover have "paged_batch_append d k sids positions (owner kv s) = (Ok w, owner kv' s2)"
        using True pr(1) r k(1) Some c(1) by (simp add: paged_batch_append_def)
      ultimately show ?thesis using c(2,4) by (intro exI [of _ "Ok w"] exI [of _ kv'] exI [of _ s2]) blast
    qed
  qed
qed

section \<open>Runs of the client\<close>

text \<open>\<open>ResidentCudaPagedForward\<close>: a sampled token or the logits.\<close>

datatype paged_forward = Sampled u32 | Logits "u32 list"

definition sync_ok :: "driver \<Rightarrow> bool" where
  "sync_ok d \<longleftrightarrow> (\<forall>n. \<not> dr_sync_fails d n)"

inductive client_step :: "client \<Rightarrow> client \<Rightarrow> bool" where
  step_open: "open_table sid c = (Ok (), c') \<Longrightarrow> client_step c c'"
| step_adopt: "adopt_paged_prefix sid toks n c = (r, c') \<Longrightarrow> client_step c c'"
| step_prefill: "sync_ok d \<Longrightarrow> kernel_frame k \<Longrightarrow> prefill_paged_append d k sid n c = (r, c') \<Longrightarrow> client_step c c'"
| step_forward: "sync_ok d \<Longrightarrow> kernel_frame k \<Longrightarrow>
    forward_paged_append d k sid c = (r :: (paged_forward, client_error) outcome, c') \<Longrightarrow> client_step c c'"
| step_batch: "sync_ok d \<Longrightarrow> kernel_frame k \<Longrightarrow> distinct sids \<Longrightarrow>
    \<forall>kv sid t. cl_kv c = Some kv \<longrightarrow> sid \<in> set sids \<longrightarrow> pk_tables kv sid = Some t \<longrightarrow> private_tail (pk_pool kv) t \<Longrightarrow>
    paged_batch_append d k sids positions c = (r :: (paged_forward list, client_error) outcome, c') \<Longrightarrow> client_step c c'"
| step_set_tokens: "client_step c (set_paged_tokens sid toks c)"
| step_record_token: "client_step c (record_paged_token sid pos tok c)"
| step_release: "sync_ok d \<Longrightarrow> release_paged_sequence d sid c = (r, c') \<Longrightarrow> client_step c c'"
| step_evict: "sync_ok d \<Longrightarrow> evict_paged_prefix d c = (r, c') \<Longrightarrow> client_step c c'"

definition client_inv :: "client \<Rightarrow> bool" where
  "client_inv c \<longleftrightarrow> (\<exists>kv s. c = owner kv s \<and> kv_inv {#} kv s)"

lemma client_invI: "kv_inv {#} kv s \<Longrightarrow> client_inv (owner kv s)"
  by (auto simp: client_inv_def)

lemma open_ok_new: "open_table sid (owner kv s) = (Ok (), c) \<Longrightarrow> pk_tables kv sid = None"
  by (simp add: open_table_def split: if_splits)

lemma client_step_inv:
  assumes "client_step c c'" "client_inv c"
  shows "client_inv c'"
proof -
  from assms(2) obtain kv s where c: "c = owner kv s" and inv: "kv_inv {#} kv s" by (auto simp: client_inv_def)
  from assms(1) show ?thesis
  proof cases
    case (step_open sid)
    with open_table_law [OF inv, of sid] open_ok_new c show ?thesis by (auto intro: client_invI)
  next
    case (step_adopt sid toks n r)
    with adopt_law [OF inv, of sid toks n] c show ?thesis by (auto intro: client_invI)
  next
    case (step_prefill d k sid n r)
    then have sync: "\<And>n. \<not> dr_sync_fails d n" by (simp add: sync_ok_def)
    from append_with_kernel_law [OF sync inv step_prefill(2), of sid n] step_prefill(3) c show ?thesis
      by (auto simp: prefill_paged_append_def intro: client_invI)
  next
    case (step_forward d k sid r)
    then have sync: "\<And>n. \<not> dr_sync_fails d n" by (simp add: sync_ok_def)
    from append_with_kernel_law [OF sync inv step_forward(2), of sid 1] step_forward(3) c show ?thesis
      by (auto simp: forward_paged_append_def intro: client_invI)
  next
    case (step_batch d k sids positions r)
    then have sync: "\<And>n. \<not> dr_sync_fails d n" by (simp add: sync_ok_def)
    have "\<forall>sid \<in> set sids. \<forall>t. pk_tables kv sid = Some t \<longrightarrow> private_tail (pk_pool kv) t" using step_batch(4) c by simp
    from batch_append_law [OF sync inv step_batch(2,3) this, of positions] step_batch(5) c show ?thesis
      by (auto intro: client_invI)
  next
    case (step_set_tokens sid toks)
    then show ?thesis using c kv_inv_tokens [OF inv] by (auto simp: set_paged_tokens_def intro: client_invI)
  next
    case (step_record_token sid pos tok)
    then show ?thesis using c kv_inv_tokens [OF inv] inv
      by (auto simp: record_paged_token_def Let_def intro: client_invI split: option.splits)
  next
    case (step_release d sid r)
    then have sync: "\<And>n. \<not> dr_sync_fails d n" by (simp add: sync_ok_def)
    show ?thesis
    proof (cases "pk_tables kv sid")
      case None
      with step_release(2) c inv show ?thesis by (auto simp: release_paged_sequence_def intro: client_invI)
    next
      case (Some t)
      from release_sequence_law [OF sync inv Some] step_release(2) c show ?thesis by (auto intro: client_invI)
    qed
  next
    case (step_evict d r)
    then have sync: "\<And>n. \<not> dr_sync_fails d n" by (simp add: sync_ok_def)
    from evict_paged_prefix_law [OF sync inv] step_evict(2) c show ?thesis by (auto intro: client_invI)
  qed
qed

lemma client_run_inv: "client_step\<^sup>*\<^sup>* c c' \<Longrightarrow> client_inv c \<Longrightarrow> client_inv c'"
  by (induction rule: rtranclp_induct) (auto intro: client_step_inv)

lemma client_init:
  assumes "paged_kv_new l cap = Ok kv" "device_new l = Ok s" "cap \<le> 2 ^ 32" "page_size s * 2 ^ 32 \<le> usize_max"
  shows "client_inv (owner kv s)"
proof (rule client_invI)
  from assms(1) obtain p where p: "pool_new l cap = Ok p"
    "kv = \<lparr>pk_pool = p, pk_tables = (\<lambda>_. None), pk_tokens = (\<lambda>_. None), pk_cached = None\<rparr>"
    by (cases "pool_new l cap") (auto simp: paged_kv_new_def)
  from pool_new_inv [OF p(1) assms(3)] device_new_law [OF assms(2)] assms(4) p(2)
  show "kv_inv {#} kv s" by (simp add: kv_inv_def table_refs_def cached_refs_def)
qed

lemma allocated_card:
  assumes "pool_inv p"
  shows "allocated_pages p = card (set_mset (held p))"
proof -
  let ?L = "{i. i < length (pages p) \<and> is_live (pages p ! i)}"
  have "inj_on (handle_at p) {..<length (pages p)}"
  proof (rule inj_onI)
    fix i j assume "i \<in> {..<length (pages p)}" "j \<in> {..<length (pages p)}" and eq: "handle_at p i = handle_at p j"
    then have "i < 2 ^ 32" "j < 2 ^ 32" using assms by (auto simp: pool_inv_def)
    moreover have "(of_nat i :: u32) = of_nat j" using eq by (simp add: handle_at_def)
    moreover have "unat (of_nat n :: u32) = n" if "n < 2 ^ 32" for n using that by (intro unat_of_nat_small) simp
    ultimately show "i = j" by metis
  qed
  then have inj: "inj_on (handle_at p) ?L" by (rule inj_on_subset) auto
  have live: "entry_refs (pages p ! i) \<noteq> 0 \<longleftrightarrow> is_live (pages p ! i)" if "i < length (pages p)" for i
  proof -
    have "pe_state (pages p ! i) \<noteq> Live 0" using assms nth_mem [OF that] by (auto simp: pool_inv_def)
    then show ?thesis by (auto simp: entry_refs_def is_live_def split: page_state.splits)
  qed
  have "set_mset (held p) = (\<Union>i<length (pages p). set_mset (replicate_mset (entry_refs (pages p ! i)) (handle_at p i)))"
    unfolding held_def by (rule set_mset_sum) simp
  also have "\<dots> = handle_at p ` ?L"
    using live by auto
  finally have "card (set_mset (held p)) = card ?L" using card_image [OF inj] by simp
  then show ?thesis using assms by (simp add: pool_inv_def length_filter_conv_card)
qed


text \<open>C6. Ownership of pages. Start from an empty pool (of at most 2^32 pages whose bytes a \<open>usize\<close> can
  count) and an empty device store, and run the client's operations in any order: the references of the pool are exactly
  those of the sequences' tables and of the retained prefix, the device holds the pages of the pool and no other, and the
  bytes it has allocated are those of the pool's live pages, which never exceed the capacity. No page leaks, none is freed
  while a table uses it. Allocations, copies and kernels may fail. The steps assume that synchronising the device
  (\<open>sync_ok\<close>) does not fail, that kernels touch no page but those they are given (\<open>kernel_frame\<close>), and that a batch names
  distinct sequences that own their tail pages alone (\<open>private_tail\<close>): the last section shows what a batch with a shared tail
  page can do.
\<close>
theorem client_pages_exact:
  assumes "paged_kv_new l cap = Ok kv0" "device_new l = Ok s0" "cap \<le> 2 ^ 32" "page_size s0 * 2 ^ 32 \<le> usize_max"
    and "client_step\<^sup>*\<^sup>* (owner kv0 s0) c"
  shows "\<exists>kv s. c = owner kv s \<and> held (pk_pool kv) = table_refs (pk_tables kv) + cached_refs (pk_cached kv) \<and>
    dom (dev_page s) = set_mset (held (pk_pool kv)) \<and>
    dsn_resident_pages (device_snapshot s) = allocated_pages (pk_pool kv) \<and>
    dsn_allocated_bytes (device_snapshot s) = page_size s * allocated_pages (pk_pool kv) \<and>
    allocated_pages (pk_pool kv) \<le> capacity_pages (pk_pool kv)"
proof -
  from client_run_inv [OF assms(5) client_init [OF assms(1-4)]] obtain kv s where
    c: "c = owner kv s" and inv: "kv_inv {#} kv s" by (auto simp: client_inv_def)
  have k: "pool_inv (pk_pool kv)" "dev_inv s" "dom (dev_page s) = set_mset (held (pk_pool kv))" "resident s = card (set_mset (held (pk_pool kv)))"
    using inv unfolding kv_inv_def by blast+
  have "allocated_pages (pk_pool kv) \<le> capacity_pages (pk_pool kv)" using k(1) by (simp add: pool_inv_def)
  moreover have "held (pk_pool kv) = table_refs (pk_tables kv) + cached_refs (pk_cached kv)" using kv_inv_held [OF inv] by simp
  moreover have "resident s = allocated_pages (pk_pool kv)" using k(4) allocated_card [OF k(1)] by simp
  moreover have "ds_allocated s = page_size s * resident s" using k(2) by (simp add: dev_inv_def)
  ultimately show ?thesis using c k(3) by (auto simp: device_snapshot_def resident_def)
qed

text \<open>A small pool and device, and a driver that never fails.\<close>

definition small_layout :: page_layout where
  "small_layout = \<lparr>layer_count = 1, kv_head_count = 1, head_dim = 1, storage = PageF16\<rparr>"

definition steady :: driver where
  "steady = \<lparr>dr_alloc_fails = (\<lambda>_. False), dr_copy_fails = (\<lambda>_. False), dr_sync_fails = (\<lambda>_. False)\<rparr>"

definition small_client :: "usize \<Rightarrow> client" where
  "small_client cap =
     \<lparr>cl_kv = (case paged_kv_new small_layout cap of Ok kv \<Rightarrow> Some kv | _ \<Rightarrow> None),
      cl_store = (case device_new small_layout of Ok s \<Rightarrow> Some s | _ \<Rightarrow> None)\<rparr>"

definition idle :: "'p \<Rightarrow> device_store \<Rightarrow> unit option \<times> device_store" where
  "idle = (\<lambda>_ s. (Some (), s))"

text \<open>A first sequence of seventeen tokens, ended and retained; a second one that adopts eight of them; a third
  one with no tokens.\<close>

definition first_turn :: client where
  "first_turn =
     snd (release_paged_sequence steady 1
       (set_paged_tokens 1 (replicate 17 7)
         (snd (prefill_paged_append steady idle 1 17 (snd (open_table 1 (small_client 3)))))))"

definition second_open :: client where
  "second_open = snd (open_table 2 first_turn)"

definition third_open :: client where
  "third_open = snd (open_table 3 (snd (adopt_paged_prefix 2 (replicate 17 7) 8 second_open)))"

lemma steady_sync: "sync_ok steady"
  by (simp add: sync_ok_def steady_def)

lemma idle_frame: "kernel_frame idle"
  by (simp add: kernel_frame_def idle_def same_shape_def)

lemma client_step_snd:
  "fst (open_table sid c) = Ok () \<Longrightarrow> client_step c (snd (open_table sid c))"
  "client_step c (snd (adopt_paged_prefix sid toks n c))"
  "client_step c (snd (prefill_paged_append steady idle sid n c))"
  "client_step c (snd (release_paged_sequence steady sid c))"
  by (rule step_open [of sid], metis prod.collapse)
    (rule step_adopt step_prefill [OF steady_sync idle_frame] step_release [OF steady_sync], rule prod.collapse [symmetric])+

lemma small_client_new:
  "\<exists>kv s. small_client 3 = owner kv s \<and> paged_kv_new small_layout 3 = Ok kv \<and> device_new small_layout = Ok s \<and>
     page_size s * 2 ^ 32 \<le> usize_max"
  by (simp add: small_client_def small_layout_def paged_kv_new_def pool_new_def device_new_def page_bytes_def row_bytes_def
      checked_mul_us_def CUDA_KV_PAGE_TOKENS_def page_size_def usize_max_def)

lemma first_turn_opens: "fst (open_table 1 (small_client 3)) = Ok ()" "fst (open_table 2 first_turn) = Ok ()"
  by code_simp+

lemma first_turn_run: "client_step\<^sup>*\<^sup>* (small_client 3) first_turn"
proof -
  let ?c1 = "snd (open_table 1 (small_client 3))"
  let ?c2 = "snd (prefill_paged_append steady idle 1 17 ?c1)"
  have "client_step (small_client 3) ?c1" by (rule client_step_snd(1) [OF first_turn_opens(1)])
  moreover have "client_step ?c1 ?c2" by (rule client_step_snd)
  moreover have "client_step ?c2 (set_paged_tokens 1 (replicate 17 7) ?c2)" by (rule step_set_tokens)
  moreover have "client_step (set_paged_tokens 1 (replicate 17 7) ?c2) first_turn" unfolding first_turn_def by (rule client_step_snd)
  ultimately show ?thesis by (meson r_into_rtranclp rtranclp_trans)
qed

lemma second_open_run: "client_step\<^sup>*\<^sup>* (small_client 3) second_open"
  using first_turn_run client_step_snd(1) [OF first_turn_opens(2)] unfolding second_open_def by (rule rtranclp.rtrancl_into_rtrancl)

theorem client_pages_exact_witness:
  "\<exists>kv s. second_open = owner kv s \<and> held (pk_pool kv) = table_refs (pk_tables kv) + cached_refs (pk_cached kv) \<and>
    dom (dev_page s) = set_mset (held (pk_pool kv)) \<and> dsn_resident_pages (device_snapshot s) = allocated_pages (pk_pool kv)"
proof -
  obtain kv0 s0 where new: "small_client 3 = owner kv0 s0" "paged_kv_new small_layout 3 = Ok kv0" "device_new small_layout = Ok s0"
    "page_size s0 * 2 ^ 32 \<le> usize_max" using small_client_new by blast
  have "(3::nat) \<le> 2 ^ 32" by simp
  from client_pages_exact [OF new(2,3) this new(4) second_open_run [unfolded new(1)]] show ?thesis by blast
qed

text \<open>C9. Prefix reuse. When a finished conversation is retained and a new sequence, with an empty table, adopts from it, the
  sequence starts with \<open>n\<close> tokens, where \<open>n\<close> is the length of the longest common prefix of the new prompt and the retained
  tokens within the limit and the tokens whose rows are stored: the tokens agree below \<open>n\<close> and, if \<open>n\<close> is below all the limits,
  differ at \<open>n\<close>. Its table holds the first \<open>n / 16\<close> (rounded up) pages of the retained one, no page is copied or written, the
  retained prefix stays as it was, and the ownership of pages stays exact. It is assumed that the reference count of no retained
  page is at its maximum.
\<close>
theorem adopt_shares_prefix:
  assumes "client_inv c" "cl_kv c = Some kv" "pk_cached kv = Some (ct, ctoks)" "pk_tables kv sid = Some t" "pt_tokens t = 0"
    and "fst (fork ct sid (pk_pool kv)) \<noteq> Err ReferenceOverflow"
  shows "\<exists>n kv'. adopt_paged_prefix sid toks limit c = (Ok n, c\<lparr>cl_kv := Some kv'\<rparr>) \<and> client_inv (c\<lparr>cl_kv := Some kv'\<rparr>) \<and>
    (let bound = min limit (min (length toks) (min (length ctoks) (pt_tokens ct))) in
       n \<le> bound \<and> (\<forall>i < n. toks ! i = ctoks ! i) \<and> (n < bound \<longrightarrow> toks ! n \<noteq> ctoks ! n)) \<and>
    pk_cached kv' = pk_cached kv \<and>
    (n = 0 \<and> pk_tables kv' = pk_tables kv \<or>
     0 < n \<and> pk_tokens kv' = (pk_tokens kv)(sid \<mapsto> take n toks) \<and>
     pk_tables kv' = (pk_tables kv)(sid \<mapsto>
       \<lparr>pt_sequence_id = sid, pt_pages = take (div_ceil n 16) (pt_pages ct), pt_tokens = n\<rparr>))"
proof -
  from assms(1,2) obtain s where c: "c = owner kv s" and inv: "kv_inv {#} kv s" by (auto simp: client_inv_def)
  define n where "n = min (resident_prefix_len ctoks (pt_tokens ct) toks) limit"
  from adopt_law [OF inv, of sid toks limit] obtain m kv' where
    a: "adopt_paged_prefix sid toks limit (owner kv s) = (Ok m, owner kv' s)" "kv_inv {#} kv' s" "pk_cached kv' = pk_cached kv"
    and cases: "(m = 0 \<and> pk_tables kv' = pk_tables kv \<and> n = 0) \<or>
      0 < m \<and> m = n \<and> take n toks = take n ctoks \<and> pk_tables kv' = (pk_tables kv)(sid \<mapsto> shared_table sid n ct) \<and>
        pk_tokens kv' = (pk_tokens kv)(sid \<mapsto> take n toks)"
    using assms(3-6) n_def by auto
  have "m = n" using cases by auto
  note max = resident_prefix_len_maximal [of ctoks "pt_tokens ct" toks limit, folded n_def]
  moreover have "shared_table sid n ct = \<lparr>pt_sequence_id = sid, pt_pages = take (div_ceil n 16) (pt_pages ct), pt_tokens = n\<rparr>"
    by (rule shared_table_def)
  moreover have "client_inv (c\<lparr>cl_kv := Some kv'\<rparr>)" using client_invI [OF a(2)] c by simp
  ultimately show ?thesis using a(1,3) cases c \<open>m = n\<close> by (intro exI [of _ n] exI [of _ kv']) (auto simp: Let_def)
qed

lemma second_open_run_value:
  "case cl_kv second_open of None \<Rightarrow> False | Some kv \<Rightarrow>
     (case pk_cached kv of None \<Rightarrow> False | Some (ct, toks) \<Rightarrow>
        toks = replicate 17 7 \<and> pt_tokens ct = 17 \<and> pk_tables kv 2 = Some (table_new 2) \<and>
        fst (fork ct 2 (pk_pool kv)) = Ok (ct\<lparr>pt_sequence_id := 2\<rparr>))"
  by code_simp

lemma second_open_view:
  "\<exists>kv ct. cl_kv second_open = Some kv \<and> pk_cached kv = Some (ct, replicate 17 7) \<and> pt_tokens ct = 17 \<and>
     pk_tables kv 2 = Some (table_new 2) \<and> fst (fork ct 2 (pk_pool kv)) = Ok (ct\<lparr>pt_sequence_id := 2\<rparr>)"
  using second_open_run_value by (simp split: option.splits prod.splits)

theorem adopt_shares_prefix_witness:
  "\<exists>kv'. adopt_paged_prefix 2 (replicate 9 7) 8 second_open = (Ok 8, second_open\<lparr>cl_kv := Some kv'\<rparr>) \<and>
    client_inv (second_open\<lparr>cl_kv := Some kv'\<rparr>) \<and> map_option pt_tokens (pk_tables kv' 2) = Some 8"
proof -
  obtain kv0 s0 where new: "small_client 3 = owner kv0 s0" "paged_kv_new small_layout 3 = Ok kv0" "device_new small_layout = Ok s0"
    "page_size s0 * 2 ^ 32 \<le> usize_max" using small_client_new by blast
  have "(3::nat) \<le> 2 ^ 32" by simp
  from client_run_inv [OF second_open_run] client_init [OF new(2,3) this new(4)] new(1) have inv: "client_inv second_open" by simp
  from second_open_view obtain ct kv where
    v: "cl_kv second_open = Some kv" "pk_cached kv = Some (ct, replicate 17 7)" "pt_tokens ct = 17" "pk_tables kv 2 = Some (table_new 2)"
      "fst (fork ct 2 (pk_pool kv)) = Ok (ct\<lparr>pt_sequence_id := 2\<rparr>)" by blast
  have t: "pt_tokens (table_new 2) = 0" by (simp add: table_new_def)
  have f: "fst (fork ct 2 (pk_pool kv)) \<noteq> Err ReferenceOverflow" unfolding v(5) by simp
  from adopt_shares_prefix [OF inv v(1,2,4) t f, of "replicate 9 7" 8] obtain n kv' where
    n: "adopt_paged_prefix 2 (replicate 9 7) 8 second_open = (Ok n, second_open\<lparr>cl_kv := Some kv'\<rparr>)" "client_inv (second_open\<lparr>cl_kv := Some kv'\<rparr>)"
      "n \<le> 8" "n < 8 \<longrightarrow> replicate 9 (7::u32) ! n \<noteq> replicate 17 7 ! n"
      "n = 0 \<and> pk_tables kv' = pk_tables kv \<or> 0 < n \<and> pk_tables kv' = (pk_tables kv)(2 \<mapsto>
       \<lparr>pt_sequence_id = 2, pt_pages = take (div_ceil n 16) (pt_pages ct), pt_tokens = n\<rparr>)"
    unfolding v(3) by (auto simp: Let_def)
  have "n = 8" using n(3,4) by (cases "n < 8") simp_all
  with n(1,2,5) show ?thesis by (intro exI [of _ kv']) auto
qed

text \<open>C8. Batched appends. When a batch names distinct sequences and each of them owns its tail page alone, a batched append
  either gives every sequence of the batch one more token and touches no other sequence, or fails and leaves every table as it
  was; whatever fails (pool, device allocation, copy, kernel) and even if the retained prefix is evicted on the way, the
  ownership of pages stays exact. It is assumed that synchronising the device does not fail and that the kernel touches no page
  but those it is given.
\<close>
theorem batch_append_atomic:
  assumes "client_inv c" "cl_kv c = Some kv" "sync_ok d" "kernel_frame k" "distinct sids"
    and "\<forall>sid t. sid \<in> set sids \<longrightarrow> pk_tables kv sid = Some t \<longrightarrow> private_tail (pk_pool kv) t"
  shows "\<exists>r kv' s'. paged_batch_append d k sids positions c = (r, owner kv' s') \<and> client_inv (owner kv' s') \<and>
    (case r of
       Ok v \<Rightarrow> \<forall>sid. if sid \<in> set sids
           then \<exists>t t'. pk_tables kv sid = Some t \<and> pk_tables kv' sid = Some t' \<and> pt_tokens t' = pt_tokens t + 1
           else pk_tables kv' sid = pk_tables kv sid
     | Err e \<Rightarrow> pk_tables kv' = pk_tables kv
     | Panic \<Rightarrow> False)"
proof -
  from assms(1,2) obtain s where c: "c = owner kv s" and inv: "kv_inv {#} kv s" by (auto simp: client_inv_def)
  have sync: "\<And>n. \<not> dr_sync_fails d n" using assms(3) by (simp add: sync_ok_def)
  have priv: "\<forall>sid \<in> set sids. \<forall>t. pk_tables kv sid = Some t \<longrightarrow> private_tail (pk_pool kv) t" using assms(6) by blast
  have tok: "pt_tokens (apply_append a t) = pt_tokens t + 1" for a t by (simp add: apply_append_def)
  from batch_append_law [OF sync inv assms(4,5) priv, of positions] obtain r kv' s' where
    b: "paged_batch_append d k sids positions (owner kv s) = (r, owner kv' s')" "kv_inv {#} kv' s'"
    and cases: "(\<exists>v. r = Ok v \<and> (\<forall>sid. if sid \<in> set sids then \<exists>t a. pk_tables kv sid = Some t \<and> pk_tables kv' sid = Some (apply_append a t)
        else pk_tables kv' sid = pk_tables kv sid)) \<or> (\<exists>e. r = Err e \<and> pk_tables kv' = pk_tables kv)" by blast
  from cases show ?thesis
  proof (elim disjE exE conjE)
    fix v assume v: "r = Ok v" and all: "\<forall>sid. if sid \<in> set sids then \<exists>t a. pk_tables kv sid = Some t \<and> pk_tables kv' sid = Some (apply_append a t)
        else pk_tables kv' sid = pk_tables kv sid"
    have "\<forall>sid. if sid \<in> set sids then \<exists>t t'. pk_tables kv sid = Some t \<and> pk_tables kv' sid = Some t' \<and> pt_tokens t' = pt_tokens t + 1
        else pk_tables kv' sid = pk_tables kv sid" using all tok by metis
    with b v client_invI [OF b(2)] c show ?thesis by (intro exI [of _ r] exI [of _ kv'] exI [of _ s']) simp
  next
    fix e assume "r = Err e" "pk_tables kv' = pk_tables kv"
    with b client_invI [OF b(2)] c show ?thesis by (intro exI [of _ r] exI [of _ kv'] exI [of _ s']) simp
  qed
qed

theorem batch_append_atomic_witness:
  "\<exists>kv' s'. paged_batch_append steady idle [2] [0] second_open = (Ok (), owner kv' s') \<and> client_inv (owner kv' s')"
proof -
  obtain kv0 s0 where new: "small_client 3 = owner kv0 s0" "paged_kv_new small_layout 3 = Ok kv0" "device_new small_layout = Ok s0"
    "page_size s0 * 2 ^ 32 \<le> usize_max" using small_client_new by blast
  have "(3::nat) \<le> 2 ^ 32" by simp
  from client_run_inv [OF second_open_run] client_init [OF new(2,3) this new(4)] new(1) have inv: "client_inv second_open" by simp
  from second_open_view obtain kv where v: "cl_kv second_open = Some kv" "pk_tables kv 2 = Some (table_new 2)" by blast
  have "private_tail (pk_pool kv) (table_new 2)" by (simp add: private_tail_def table_new_def list_get_def)
  then have priv: "\<forall>sid t. sid \<in> set [2] \<longrightarrow> pk_tables kv sid = Some t \<longrightarrow> private_tail (pk_pool kv) t" using v(2) by simp
  have ok: "fst (paged_batch_append steady idle [2] [0] second_open) = Ok ()" by code_simp
  from batch_append_atomic [OF inv v(1) steady_sync idle_frame _ priv, of "[0]"] ok show ?thesis by auto
qed

text \<open>A shared tail page, the case that \<open>private_tail\<close> excludes: the second sequence shares its tail page with the retained prefix when it is batched with
  the third, in a pool whose last free page the second row's copy takes: preparing the third row evicts the prefix, so the
  page the second row is to copy is no longer shared, and its commit is refused as a concurrent mutation after the kernel has
  run. The two pages prepared for the batch then belong to no table: releasing every sequence and the retained prefix leaves them allocated.
\<close>
theorem batch_eviction_leaks:
  "(case paged_batch_append steady idle [2, 3] [8, 0] third_open of
      (r, c) \<Rightarrow> r = Err (PoolError ConcurrentMutation) \<and>
        (let c' = snd (evict_paged_prefix steady (snd (release_paged_sequence steady 3 (snd (release_paged_sequence steady 2 c)))))
         in map_option (\<lambda>kv. (pk_tables kv 1, pk_tables kv 2, pk_tables kv 3, pk_cached kv, allocated_pages (pk_pool kv))) (cl_kv c') =
              Some (None, None, None, None, 2)))"
  by code_simp

end
