(* ===== verification/Sequence_Slots.thy ===== *)
theory Sequence_Slots
  imports Prelude
begin

text \<open>
  Ownership of the fixed CUDA sequence slots (\<open>src/src/inference/cuda_sequence.rs\<close>):
  sequence identifiers, leases with generations, and \<open>FixedCudaSequenceSlots\<close> with its
  operations acquire, validate, release, poison and teardown. The operations are composed into
  a step relation, and the theorems are about all of its runs: no sequence ever owns two slots,
  no slot two sequences, and a lease that was given back cannot be used again until the
  generation counter of its slot has gone once around its 64 bits.
\<close>

section \<open>Identifiers, leases and slots\<close>

text \<open>\<open>CudaSequenceId::next\<close> on the value of the process-wide counter: the identifier, and the
  counter afterwards (\<open>fetch_update\<close> returns the previous value; its closure never declines).\<close>

definition sequence_id_next :: "u64 \<Rightarrow> u64 \<times> u64" where
  "sequence_id_next current = (max current 1, next_generation current)"

record seq_lease =
  sl_sequence_id :: u64
  sl_slot_id :: usize
  sl_generation :: u64

datatype slot_acquisition = ExistingLease seq_lease | FreshLease seq_lease

fun acquisition_lease :: "slot_acquisition \<Rightarrow> seq_lease" where
  "acquisition_lease (ExistingLease l) = l"
| "acquisition_lease (FreshLease l) = l"

record slot_teardown =
  td_slot_id :: usize
  td_generation :: u64

datatype slot_state = VacantSlot | Occupied u64 | Poisoned

record slot_entry =
  se_generation :: u64
  se_state :: slot_state

datatype slot_error = InvalidCapacity usize | SlotsExhausted usize | StaleLease | StaleTeardown

type_synonym slots = "slot_entry list"

record slot_snapshot =
  ss_capacity :: usize
  ss_occupied :: usize
  ss_poisoned :: usize

section \<open>Operations\<close>

definition slots_new :: "usize \<Rightarrow> (slots, slot_error) outcome" where
  "slots_new capacity =
     (if \<not> (1 \<le> capacity \<and> capacity \<le> 8) then Err (InvalidCapacity capacity)
      else Ok (replicate capacity \<lparr>se_generation = 0, se_state = VacantSlot\<rparr>))"

text \<open>\<open>iter().enumerate().find(..)\<close>: the first index whose entry satisfies the predicate.\<close>

fun find_slot :: "(slot_entry \<Rightarrow> bool) \<Rightarrow> slots \<Rightarrow> (usize \<times> slot_entry) option" where
  "find_slot P [] = None"
| "find_slot P (e # es) =
     (if P e then Some (0, e) else map_option (\<lambda>(i, e'). (Suc i, e')) (find_slot P es))"

definition acquire_slot :: "u64 \<Rightarrow> slots \<Rightarrow> (slot_acquisition, slot_error) outcome \<times> slots" where
  "acquire_slot sid ss =
     (case find_slot (\<lambda>e. se_state e = Occupied sid) ss of
        Some (i, e) \<Rightarrow>
          (Ok (ExistingLease \<lparr>sl_sequence_id = sid, sl_slot_id = i, sl_generation = se_generation e\<rparr>), ss)
      | None \<Rightarrow>
          (case find_slot (\<lambda>e. se_state e = VacantSlot) ss of
             None \<Rightarrow> (Err (SlotsExhausted (length ss)), ss)
           | Some (i, e) \<Rightarrow>
               let g = next_generation (se_generation e) in
               (Ok (FreshLease \<lparr>sl_sequence_id = sid, sl_slot_id = i, sl_generation = g\<rparr>),
                ss[i := \<lparr>se_generation = g, se_state = Occupied sid\<rparr>])))"

definition validate_lease :: "slots \<Rightarrow> seq_lease \<Rightarrow> bool" where
  "validate_lease ss l =
     (case list_get ss (sl_slot_id l) of
        None \<Rightarrow> False
      | Some e \<Rightarrow> se_generation e = sl_generation l \<and> se_state e = Occupied (sl_sequence_id l))"

text \<open>\<open>self.slots[i].state = s\<close>; out of range the index panics.\<close>

definition put_state :: "usize \<Rightarrow> slot_state \<Rightarrow> 'a \<Rightarrow> slots \<Rightarrow> ('a, slot_error) outcome \<times> slots" where
  "put_state i st v ss =
     (if i < length ss then (Ok v, ss[i := (ss ! i)\<lparr>se_state := st\<rparr>]) else (Panic, ss))"

definition release_lease :: "seq_lease \<Rightarrow> slots \<Rightarrow> (usize, slot_error) outcome \<times> slots" where
  "release_lease l ss =
     (if \<not> validate_lease ss l then (Err StaleLease, ss)
      else put_state (sl_slot_id l) VacantSlot (sl_slot_id l) ss)"

definition poison_lease :: "seq_lease \<Rightarrow> slots \<Rightarrow> (slot_teardown, slot_error) outcome \<times> slots" where
  "poison_lease l ss =
     (if \<not> validate_lease ss l then (Err StaleLease, ss)
      else put_state (sl_slot_id l) Poisoned
             \<lparr>td_slot_id = sl_slot_id l, td_generation = sl_generation l\<rparr> ss)"

definition complete_teardown :: "slot_teardown \<Rightarrow> slots \<Rightarrow> (unit, slot_error) outcome \<times> slots" where
  "complete_teardown td ss =
     (case list_get ss (td_slot_id td) of
        None \<Rightarrow> (Err StaleTeardown, ss)
      | Some e \<Rightarrow>
          if se_generation e \<noteq> td_generation td \<or> se_state e \<noteq> Poisoned then (Err StaleTeardown, ss)
          else (Ok (), ss[td_slot_id td := e\<lparr>se_state := VacantSlot\<rparr>]))"

definition is_occupied :: "slot_entry \<Rightarrow> bool" where
  "is_occupied e = (case se_state e of Occupied _ \<Rightarrow> True | _ \<Rightarrow> False)"

definition slots_snapshot :: "slots \<Rightarrow> slot_snapshot" where
  "slots_snapshot ss =
     \<lparr>ss_capacity = length ss,
      ss_occupied = length (filter is_occupied ss),
      ss_poisoned = length (filter (\<lambda>e. se_state e = Poisoned) ss)\<rparr>"

section \<open>Runs\<close>

text \<open>The operations a client can call, and the state after one of them, whatever it returns.\<close>

datatype slot_op = Acquire u64 | Release seq_lease | Poison seq_lease | Teardown slot_teardown

inductive slot_step :: "slots \<Rightarrow> slot_op \<Rightarrow> slots \<Rightarrow> bool" where
  step_acquire: "acquire_slot sid ss = (r, ss') \<Longrightarrow> slot_step ss (Acquire sid) ss'"
| step_release: "release_lease l ss = (r, ss') \<Longrightarrow> slot_step ss (Release l) ss'"
| step_poison: "poison_lease l ss = (r, ss') \<Longrightarrow> slot_step ss (Poison l) ss'"
| step_teardown: "complete_teardown td ss = (r, ss') \<Longrightarrow> slot_step ss (Teardown td) ss'"

inductive slot_run :: "slots \<Rightarrow> slot_op list \<Rightarrow> slots \<Rightarrow> bool" where
  run_nil: "slot_run ss [] ss"
| run_cons: "slot_step ss op ss1 \<Longrightarrow> slot_run ss1 ops ss2 \<Longrightarrow> slot_run ss (op # ops) ss2"

inductive_cases slot_stepE: "slot_step ss op ss'"

inductive_simps slot_run_simps [simp]:
  "slot_run ss [] ss'"
  "slot_run ss (op # ops) ss'"

section \<open>Finding a slot\<close>

lemma find_slot_Some:
  "find_slot P ss = Some (i, e) \<Longrightarrow> i < length ss \<and> ss ! i = e \<and> P e \<and> (\<forall>j < i. \<not> P (ss ! j))"
proof (induction ss arbitrary: i)
  case Nil
  then show ?case by simp
next
  case (Cons x ss)
  show ?case
  proof (cases "P x")
    case True
    with Cons.prems show ?thesis by simp
  next
    case False
    with Cons.prems obtain j where j: "find_slot P ss = Some (j, e)" "i = Suc j" by auto
    with Cons.IH [OF j(1)] False show ?thesis by (auto simp: less_Suc_eq_0_disj)
  qed
qed

lemma find_slot_None_iff: "find_slot P ss = None \<longleftrightarrow> (\<forall>e \<in> set ss. \<not> P e)"
  by (induction ss) auto

section \<open>Invariant\<close>

text \<open>Every occupied slot belongs to a sequence of its own.\<close>

definition slots_inv :: "slots \<Rightarrow> bool" where
  "slots_inv ss \<longleftrightarrow> 1 \<le> length ss \<and> length ss \<le> 8 \<and>
     (\<forall>i < length ss. \<forall>j < length ss. \<forall>sid.
        se_state (ss ! i) = Occupied sid \<longrightarrow> se_state (ss ! j) = Occupied sid \<longrightarrow> i = j)"

lemma slots_inv_new: "slots_new n = Ok ss \<Longrightarrow> slots_inv ss"
  by (auto simp: slots_new_def slots_inv_def split: if_splits)

lemma slots_inv_update:
  assumes "slots_inv ss"
    and "\<And>sid j. se_state e = Occupied sid \<Longrightarrow> j < length ss \<Longrightarrow> j \<noteq> i \<Longrightarrow> se_state (ss ! j) \<noteq> Occupied sid"
  shows "slots_inv (ss[i := e])"
proof (cases "i < length ss")
  case True
  with assms show ?thesis unfolding slots_inv_def by (auto simp: nth_list_update split: if_splits)
qed (use assms in \<open>simp add: list_update_beyond\<close>)

lemma acquire_slot_inv: "slots_inv ss \<Longrightarrow> slots_inv (snd (acquire_slot sid ss))"
  by (auto simp: acquire_slot_def Let_def find_slot_None_iff split: option.splits
      intro!: slots_inv_update)

lemma put_state_inv:
  "put_state i st v ss = (r, ss') \<Longrightarrow> slots_inv ss \<Longrightarrow> (\<And>sid. st \<noteq> Occupied sid) \<Longrightarrow> slots_inv ss'"
  by (auto simp: put_state_def split: if_splits intro!: slots_inv_update)

lemma slot_step_inv: "slot_step ss op ss' \<Longrightarrow> slots_inv ss \<Longrightarrow> slots_inv ss'"
proof (induction rule: slot_step.induct)
  case (step_acquire sid ss r ss')
  then show ?case using acquire_slot_inv [of ss sid] by simp
next
  case (step_release l ss r ss')
  then show ?case
    by (auto simp: release_lease_def split: if_splits elim: put_state_inv)
next
  case (step_poison l ss r ss')
  then show ?case
    by (auto simp: poison_lease_def split: if_splits elim: put_state_inv)
next
  case (step_teardown td ss r ss')
  then show ?case
    by (auto simp: complete_teardown_def split: option.splits if_splits intro!: slots_inv_update)
qed

lemma slot_run_inv: "slot_run ss ops ss' \<Longrightarrow> slots_inv ss \<Longrightarrow> slots_inv ss'"
  by (induction rule: slot_run.induct) (auto intro: slot_step_inv)

section \<open>Leases and generations\<close>

text \<open>How one step moves one slot: a generation changes only when the slot is acquired, and a slot
  that is not occupied becomes occupied only so.\<close>

lemma slot_step_slot:
  assumes "slot_step ss op ss'" "i < length ss"
  shows "length ss' = length ss"
    and "(se_generation (ss' ! i) = se_generation (ss ! i) \<and>
           (\<not> is_occupied (ss ! i) \<longrightarrow> \<not> is_occupied (ss' ! i))) \<or>
         (\<exists>sid. op = Acquire sid \<and> se_generation (ss' ! i) = next_generation (se_generation (ss ! i)))"
  using assms
  by (induction rule: slot_step.induct)
    (auto simp: acquire_slot_def release_lease_def poison_lease_def put_state_def
      complete_teardown_def is_occupied_def Let_def nth_list_update list_get_Some_iff
      split: option.splits if_splits slot_state.splits dest: find_slot_Some)

definition is_acquire :: "slot_op \<Rightarrow> bool" where
  "is_acquire op = (case op of Acquire _ \<Rightarrow> True | _ \<Rightarrow> False)"

definition acquires :: "slot_op list \<Rightarrow> nat" where
  "acquires ops = length (filter is_acquire ops)"

lemma acquires_Cons [simp]:
  "acquires [] = 0" "acquires (op # ops) = (if is_acquire op then acquires ops + 1 else acquires ops)"
  by (simp_all add: acquires_def)

lemma slot_run_slot:
  "slot_run ss ops ss' \<Longrightarrow> i < length ss \<Longrightarrow>
    length ss' = length ss \<and>
    (\<exists>k \<le> acquires ops. se_generation (ss' ! i) = (next_generation ^^ k) (se_generation (ss ! i)) \<and>
      (k = 0 \<and> \<not> is_occupied (ss ! i) \<longrightarrow> \<not> is_occupied (ss' ! i)))"
proof (induction rule: slot_run.induct)
  case (run_nil ss)
  then show ?case by (auto intro: exI [of _ 0])
next
  case (run_cons ss op ss1 ops ss2)
  note step = slot_step_slot [OF run_cons.hyps(1) run_cons.prems]
  from run_cons.IH step(1) run_cons.prems obtain k where
    k: "length ss2 = length ss1" "k \<le> acquires ops"
      "se_generation (ss2 ! i) = (next_generation ^^ k) (se_generation (ss1 ! i))"
      "k = 0 \<and> \<not> is_occupied (ss1 ! i) \<longrightarrow> \<not> is_occupied (ss2 ! i)"
    by auto
  from step(2) show ?case
  proof (elim disjE exE conjE)
    assume "se_generation (ss1 ! i) = se_generation (ss ! i)"
      "\<not> is_occupied (ss ! i) \<longrightarrow> \<not> is_occupied (ss1 ! i)"
    with k step(1) show ?thesis by (auto intro!: exI [of _ k])
  next
    fix sid assume "op = Acquire sid" "se_generation (ss1 ! i) = next_generation (se_generation (ss ! i))"
    with k step(1) show ?thesis
      by (auto intro!: exI [of _ "Suc k"] simp: is_acquire_def funpow_swap1)
  qed
qed

lemma validate_lease_iff:
  "validate_lease ss l \<longleftrightarrow> sl_slot_id l < length ss \<and> se_generation (ss ! sl_slot_id l) = sl_generation l \<and>
    se_state (ss ! sl_slot_id l) = Occupied (sl_sequence_id l)"
  by (auto simp: validate_lease_def list_get_def)

text \<open>A lease whose slot was vacated or poisoned stays stale for \<open>2 ^ 64 - 2\<close> acquisitions.\<close>

lemma vacated_lease_stale:
  assumes i: "sl_slot_id l < length ss" and g: "se_generation (ss ! sl_slot_id l) = sl_generation l"
    and v: "\<not> is_occupied (ss ! sl_slot_id l)"
    and run: "slot_run ss ops ss'" and n: "acquires ops < 2 ^ 64 - 1"
  shows "\<not> validate_lease ss' l"
proof -
  let ?i = "sl_slot_id l"
  from slot_run_slot [OF run i] obtain k where
    k: "k \<le> acquires ops" "se_generation (ss' ! ?i) = (next_generation ^^ k) (sl_generation l)"
      "k = 0 \<longrightarrow> \<not> is_occupied (ss' ! ?i)" using g v by auto
  show ?thesis
  proof (cases "k = 0")
    case True
    with k show ?thesis by (auto simp: validate_lease_iff is_occupied_def)
  next
    case False
    then have "(next_generation ^^ k) (sl_generation l) \<noteq> sl_generation l"
      using k(1) n by (intro next_generation_pow_neq) linarith+
    with k(2) show ?thesis by (simp add: validate_lease_iff)
  qed
qed

section \<open>Properties\<close>

text \<open>C3. Mutual exclusion of the sequence slots: in every state reachable from a new table by any
  sequence of acquire, release, poison and teardown calls (with any arguments, also stale or
  invented leases), two leases that both validate agree on the slot exactly when they agree on
  the sequence, and then they are the same lease.\<close>

theorem leases_exclusive:
  assumes "slots_new n = Ok ss0" "slot_run ss0 ops ss"
    and "validate_lease ss l" "validate_lease ss l'"
    and "sl_slot_id l = sl_slot_id l' \<or> sl_sequence_id l = sl_sequence_id l'"
  shows "l = l'"
proof -
  have inv: "slots_inv ss" by (rule slot_run_inv [OF assms(2) slots_inv_new [OF assms(1)]])
  have "sl_slot_id l = sl_slot_id l'"
    using assms(3-5) inv unfolding validate_lease_iff slots_inv_def by auto
  then show ?thesis
    using assms(3,4) unfolding validate_lease_iff by (cases l, cases l') auto
qed

text \<open>Acquire, completely: it returns the lease the sequence already has and changes nothing; or
  takes the first vacant slot, leaves all the others as they are and returns a lease that
  validates; or, when every slot is occupied by another sequence or poisoned, reports the
  capacity and changes nothing.\<close>

theorem acquire_slot_cases:
  assumes "slots_inv ss"
  shows "\<exists>l. validate_lease ss l \<and> sl_sequence_id l = sid \<and> acquire_slot sid ss = (Ok (ExistingLease l), ss)
    \<or> (\<forall>e \<in> set ss. se_state e \<noteq> Occupied sid) \<and>
      (\<exists>i ss'. i < length ss \<and> se_state (ss ! i) = VacantSlot \<and> (\<forall>j < i. se_state (ss ! j) \<noteq> VacantSlot) \<and>
         acquire_slot sid ss = (Ok (FreshLease l), ss') \<and> sl_slot_id l = i \<and> sl_sequence_id l = sid \<and>
         validate_lease ss' l \<and> length ss' = length ss \<and> (\<forall>j. j \<noteq> i \<longrightarrow> ss' ! j = ss ! j) \<and>
         slots_inv ss')
    \<or> (\<forall>e \<in> set ss. se_state e \<noteq> Occupied sid \<and> se_state e \<noteq> VacantSlot) \<and>
      acquire_slot sid ss = (Err (SlotsExhausted (length ss)), ss)"
proof (cases "find_slot (\<lambda>e. se_state e = Occupied sid) ss")
  case (Some ie)
  then obtain i e where ie: "find_slot (\<lambda>e. se_state e = Occupied sid) ss = Some (i, e)" by (cases ie) auto
  let ?l = "\<lparr>sl_sequence_id = sid, sl_slot_id = i, sl_generation = se_generation e\<rparr>"
  have "validate_lease ss ?l" "acquire_slot sid ss = (Ok (ExistingLease ?l), ss)"
    using find_slot_Some [OF ie] ie by (simp_all add: validate_lease_iff acquire_slot_def)
  then show ?thesis by (intro exI [of _ ?l]) simp
next
  case None
  note free = None [unfolded find_slot_None_iff]
  show ?thesis
  proof (cases "find_slot (\<lambda>e. se_state e = VacantSlot) ss")
    case v: None
    then have "acquire_slot sid ss = (Err (SlotsExhausted (length ss)), ss)"
      using None by (simp add: acquire_slot_def)
    then show ?thesis using free v [unfolded find_slot_None_iff] by blast
  next
    case (Some ie)
    then obtain i e where ie: "find_slot (\<lambda>e. se_state e = VacantSlot) ss = Some (i, e)" by (cases ie) auto
    note f = find_slot_Some [OF ie]
    let ?g = "next_generation (se_generation e)"
    let ?l = "\<lparr>sl_sequence_id = sid, sl_slot_id = i, sl_generation = ?g\<rparr>"
    let ?ss = "ss[i := \<lparr>se_generation = ?g, se_state = Occupied sid\<rparr>]"
    have acq: "acquire_slot sid ss = (Ok (FreshLease ?l), ?ss)"
      using None ie by (simp add: acquire_slot_def Let_def)
    have "slots_inv ?ss" using acquire_slot_inv [OF assms, of sid] unfolding acq by simp
    with acq f free show ?thesis
      by (intro exI [of _ ?l] disjI2 disjI1) (simp add: validate_lease_iff)
  qed
qed

text \<open>A lease that was released, or whose slot was poisoned, is never accepted again: whatever
  operations follow, it does not validate, as long as fewer than \<open>2 ^ 64 - 1\<close> of them are
  acquisitions (after that many the generation of a slot could repeat).\<close>

theorem given_back_lease_stays_stale:
  assumes "validate_lease ss l" "slot_step ss op ss1" "op = Release l \<or> op = Poison l"
    and "slot_run ss1 ops ss2" "acquires ops < 2 ^ 64 - 1"
  shows "\<not> validate_lease ss2 l"
proof (rule vacated_lease_stale [OF _ _ _ assms(4,5)])
  note v = assms(1) [unfolded validate_lease_iff]
  obtain st where st: "ss1 = ss[sl_slot_id l := (ss ! sl_slot_id l)\<lparr>se_state := st\<rparr>]"
    "st = VacantSlot \<or> st = Poisoned"
    using assms(2,3) assms(1) v
    by (auto elim!: slot_stepE simp: release_lease_def poison_lease_def put_state_def)
  with v show "sl_slot_id l < length ss1" "se_generation (ss1 ! sl_slot_id l) = sl_generation l"
    "\<not> is_occupied (ss1 ! sl_slot_id l)"
    by (auto simp: is_occupied_def)
qed

definition two_slots :: slots where
  "two_slots = replicate 2 \<lparr>se_generation = 0, se_state = VacantSlot\<rparr>"

definition lease7 :: seq_lease where
  "lease7 = \<lparr>sl_sequence_id = 7, sl_slot_id = 0, sl_generation = 1\<rparr>"

lemma two_slots_new: "slots_new 2 = Ok two_slots"
  by (simp add: slots_new_def two_slots_def)

lemma acquire7: "acquire_slot 7 two_slots = (Ok (FreshLease lease7), snd (acquire_slot 7 two_slots))"
  by code_simp

lemma run7: "slot_run two_slots [Acquire 7] (snd (acquire_slot 7 two_slots))"
  using acquire7 by (auto intro: step_acquire)

theorem leases_exclusive_witness:
  "slot_run two_slots [Acquire 7] (snd (acquire_slot 7 two_slots)) \<and>
    (\<exists>l. fst (acquire_slot 7 (snd (acquire_slot 7 two_slots))) = Ok (ExistingLease l) \<and>
       validate_lease (snd (acquire_slot 7 two_slots)) l \<and> l = lease7)"
proof -
  let ?ss = "snd (acquire_slot 7 two_slots)" and ?l = "\<lparr>sl_sequence_id = 7, sl_slot_id = 0, sl_generation = 1\<rparr>"
  have v: "validate_lease ?ss lease7" "validate_lease ?ss ?l" by code_simp+
  have a: "fst (acquire_slot 7 ?ss) = Ok (ExistingLease ?l)" by code_simp
  have "?l = lease7"
    by (rule leases_exclusive [OF two_slots_new run7 v(2) v(1)]) (simp add: lease7_def)
  with run7 a v show ?thesis by blast
qed

theorem acquire_slot_cases_witness:
  "slots_inv two_slots \<and> (\<exists>l ss'. acquire_slot 7 two_slots = (Ok (FreshLease l), ss') \<and> validate_lease ss' l)"
proof -
  have inv: "slots_inv two_slots" by (rule slots_inv_new [OF two_slots_new])
  show ?thesis
    using acquire_slot_cases [OF inv, of 7] inv acquire7 by (auto simp: two_slots_def)
qed

theorem given_back_lease_stays_stale_witness:
  "\<not> validate_lease (snd (acquire_slot 8 (snd (release_lease lease7 (snd (acquire_slot 7 two_slots)))))) lease7"
proof (rule given_back_lease_stays_stale)
  show "validate_lease (snd (acquire_slot 7 two_slots)) lease7" by code_simp
  show "slot_step (snd (acquire_slot 7 two_slots)) (Release lease7)
      (snd (release_lease lease7 (snd (acquire_slot 7 two_slots))))"
    by (rule step_release) (rule prod.collapse [symmetric])
  show "slot_run (snd (release_lease lease7 (snd (acquire_slot 7 two_slots)))) [Acquire 8]
      (snd (acquire_slot 8 (snd (release_lease lease7 (snd (acquire_slot 7 two_slots))))))"
    by (auto intro!: step_acquire prod.collapse [symmetric])
qed (simp_all add: is_acquire_def)

end
