(* ===== verification/Kv_Banks.thy ===== *)
theory Kv_Banks
  imports Device_Pages
begin

text \<open>
  The two contiguous KV banks of the resident CUDA engine (\<open>enable_second_kv_slot\<close>, \<open>select_kv_slot\<close>,
  \<open>clear_kv_slot\<close> of \<open>CudaResidentDecode\<close>, \<open>src/src/cuda_resident.rs\<close>). The bank in use is spread over the fields
  \<open>active_kv_slot\<close>, \<open>cache_k\<close>, \<open>cache_v\<close> and \<open>filled\<close>; selecting another slot swaps them with the inactive bank.

  The abstract view is a map from slots to banks (\<open>bank_of\<close>): selecting does not change it, and clearing
  changes the cleared slot only, also when the driver fails half way.
\<close>

section \<open>Banks\<close>

record kv_bank =
  kb_slot :: usize
  kb_keys :: "bytes list"
  kb_values :: "bytes list"
  kb_filled :: usize

record kv_banks =
  ba_active :: kv_bank
  ba_inactive :: "kv_bank option"
  ba_paged :: bool
  ba_graphs :: bool
  ba_calls :: nat

datatype bank_error = PagedHasNoSlots | GraphsCaptured | BankAllocationFailed | SlotUnavailable | BankSyncFailed | ClearFailed

definition kv_slot_count :: "kv_banks \<Rightarrow> usize" where
  "kv_slot_count b = 1 + (if ba_inactive b = None then 0 else 1)"

definition kv_slot_filled :: "kv_banks \<Rightarrow> usize \<Rightarrow> usize option" where
  "kv_slot_filled b slot =
     (if slot = kb_slot (ba_active b) then Some (kb_filled (ba_active b))
      else case ba_inactive b of
             None \<Rightarrow> None
           | Some i \<Rightarrow> if kb_slot i = slot then Some (kb_filled i) else None)"

text \<open>One zeroed buffer of the length of every buffer given, up to the first allocation that fails.\<close>

fun alloc_like :: "driver \<Rightarrow> bytes list \<Rightarrow> nat \<Rightarrow> bytes list option \<times> nat" where
  "alloc_like d [] n = (Some [], n)"
| "alloc_like d (c # cs) n =
     (if dr_alloc_fails d n then (None, n + 1)
      else case alloc_like d cs (n + 1) of
             (None, n') \<Rightarrow> (None, n')
           | (Some bs, n') \<Rightarrow> (Some (replicate (length c) 0 # bs), n'))"

definition enable_second_kv_slot :: "driver \<Rightarrow> kv_banks \<Rightarrow> (unit, bank_error) outcome \<times> kv_banks" where
  "enable_second_kv_slot d b =
     (if ba_inactive b \<noteq> None then (Ok (), b)
      else if ba_paged b then (Err PagedHasNoSlots, b)
      else if ba_graphs b then (Err GraphsCaptured, b)
      else
        case alloc_like d (kb_keys (ba_active b)) (ba_calls b) of
          (None, n) \<Rightarrow> (Err BankAllocationFailed, b\<lparr>ba_calls := n\<rparr>)
        | (Some ks, n) \<Rightarrow>
            (case alloc_like d (kb_values (ba_active b)) n of
               (None, n') \<Rightarrow> (Err BankAllocationFailed, b\<lparr>ba_calls := n'\<rparr>)
             | (Some vs, n') \<Rightarrow>
                 (Ok (), b\<lparr>ba_inactive := Some \<lparr>kb_slot = 1, kb_keys = ks, kb_values = vs, kb_filled = 0\<rparr>, ba_calls := n'\<rparr>)))"

definition select_kv_slot :: "driver \<Rightarrow> usize \<Rightarrow> kv_banks \<Rightarrow> (unit, bank_error) outcome \<times> kv_banks" where
  "select_kv_slot d slot b =
     (if slot = kb_slot (ba_active b) then (Ok (), b)
      else case ba_inactive b of
             None \<Rightarrow> (Err SlotUnavailable, b)
           | Some i \<Rightarrow>
               if kb_slot i \<noteq> slot then (Err SlotUnavailable, b)
               else if dr_sync_fails d (ba_calls b) then (Err BankSyncFailed, b\<lparr>ba_calls := ba_calls b + 1\<rparr>)
               else (Ok (), b\<lparr>ba_active := i, ba_inactive := Some (ba_active b), ba_calls := ba_calls b + 1\<rparr>))"

text \<open>\<open>memset_zeros\<close> on one buffer after the other, up to the first that fails (a stream operation of the driver,
  like a copy).\<close>

fun zero_buffers :: "driver \<Rightarrow> bytes list \<Rightarrow> nat \<Rightarrow> bool \<times> bytes list \<times> nat" where
  "zero_buffers d [] n = (True, [], n)"
| "zero_buffers d (c # cs) n =
     (if dr_copy_fails d n then (False, c # cs, n + 1)
      else case zero_buffers d cs (n + 1) of (ok, cs', n') \<Rightarrow> (ok, replicate (length c) 0 # cs', n'))"

definition clear_kv_slot :: "driver \<Rightarrow> usize \<Rightarrow> kv_banks \<Rightarrow> (unit, bank_error) outcome \<times> kv_banks" where
  "clear_kv_slot d slot b =
     bindS (select_kv_slot d slot b) (\<lambda>_ b.
       let a = ba_active b;
           (ok, cs, n) = zero_buffers d (kb_keys a @ kb_values a) (ba_calls b);
           a' = a\<lparr>kb_keys := take (length (kb_keys a)) cs, kb_values := drop (length (kb_keys a)) cs\<rparr>
       in if \<not> ok then (Err ClearFailed, b\<lparr>ba_active := a', ba_calls := n\<rparr>)
          else if dr_sync_fails d n then (Err BankSyncFailed, b\<lparr>ba_active := a', ba_calls := n + 1\<rparr>)
          else (Ok (), b\<lparr>ba_active := a'\<lparr>kb_filled := 0\<rparr>, ba_calls := n + 1\<rparr>))"

section \<open>The banks as a map\<close>

definition banks_ok :: "kv_banks \<Rightarrow> bool" where
  "banks_ok b \<longleftrightarrow> (case ba_inactive b of None \<Rightarrow> True | Some i \<Rightarrow> kb_slot i \<noteq> kb_slot (ba_active b))"

definition bank_of :: "kv_banks \<Rightarrow> usize \<rightharpoonup> kv_bank" where
  "bank_of b slot =
     (if slot = kb_slot (ba_active b) then Some (ba_active b)
      else case ba_inactive b of None \<Rightarrow> None | Some i \<Rightarrow> if kb_slot i = slot then Some i else None)"

definition zeroed :: "kv_bank \<Rightarrow> kv_bank" where
  "zeroed k = k\<lparr>kb_keys := map (\<lambda>c. replicate (length c) 0) (kb_keys k),
                kb_values := map (\<lambda>c. replicate (length c) 0) (kb_values k), kb_filled := 0\<rparr>"

lemma select_law:
  assumes "banks_ok b" "select_kv_slot d slot b = (r, b')"
  shows "banks_ok b' \<and> bank_of b' = bank_of b \<and> (r = Ok () \<longrightarrow> kb_slot (ba_active b') = slot) \<and>
    (r = Ok () \<longleftrightarrow> slot = kb_slot (ba_active b) \<or> bank_of b slot \<noteq> None \<and> \<not> dr_sync_fails d (ba_calls b)) \<and> r \<noteq> Panic"
proof (cases "slot = kb_slot (ba_active b)")
  case True
  with assms show ?thesis by (auto simp: select_kv_slot_def)
next
  case False
  show ?thesis
  proof (cases "ba_inactive b")
    case None
    with False assms show ?thesis by (auto simp: select_kv_slot_def bank_of_def)
  next
    case (Some i)
    let ?b = "b\<lparr>ba_active := i, ba_inactive := Some (ba_active b), ba_calls := ba_calls b + 1\<rparr>"
    have "bank_of ?b = bank_of b" "bank_of (b\<lparr>ba_calls := n\<rparr>) = bank_of b" for n
      using assms(1) Some by (auto simp: bank_of_def banks_ok_def)
    with False Some assms show ?thesis
      by (auto simp: select_kv_slot_def banks_ok_def bank_of_def split: if_splits)
  qed
qed

lemma zero_buffers_law:
  "zero_buffers d cs n = (ok, cs', n') \<Longrightarrow> length cs' = length cs \<and> (ok \<longrightarrow> cs' = map (\<lambda>c. replicate (length c) 0) cs)"
proof (induction cs arbitrary: n cs')
  case (Cons c cs)
  then show ?case by (auto split: if_splits prod.splits)
qed simp

lemma bank_put:
  assumes "banks_ok b" "kb_slot a = kb_slot (ba_active b)"
  shows "banks_ok (b\<lparr>ba_active := a, ba_calls := n\<rparr>)" "bank_of (b\<lparr>ba_active := a, ba_calls := n\<rparr>) = (bank_of b)(kb_slot a \<mapsto> a)"
  using assms by (auto simp: banks_ok_def bank_of_def split: option.splits)

lemma clear_law:
  assumes ok: "banks_ok b" and run: "clear_kv_slot d slot b = (r, b')"
  shows "banks_ok b' \<and> r \<noteq> Panic \<and> (\<forall>s. s \<noteq> slot \<longrightarrow> bank_of b' s = bank_of b s) \<and>
    (r = Ok () \<longrightarrow> kb_slot (ba_active b') = slot \<and> bank_of b' slot = map_option zeroed (bank_of b slot))"
proof (cases "select_kv_slot d slot b")
  case (Pair r1 b1)
  note sel = select_law [OF ok Pair]
  show ?thesis
  proof (cases r1)
    case (Ok u)
    define a where "a = ba_active b1"
    obtain z cs n where z: "zero_buffers d (kb_keys a @ kb_values a) (ba_calls b1) = (z, cs, n)"
      by (cases "zero_buffers d (kb_keys a @ kb_values a) (ba_calls b1)") auto
    define a' where "a' = a\<lparr>kb_keys := take (length (kb_keys a)) cs, kb_values := drop (length (kb_keys a)) cs\<rparr>"
    have at: "kb_slot a = slot" using sel Ok by (auto simp: a_def)
    then have slot: "kb_slot a = slot" "bank_of b1 slot = Some a" by (simp_all add: bank_of_def a_def)
    have zero: "z \<Longrightarrow> a'\<lparr>kb_filled := 0\<rparr> = zeroed a" using zero_buffers_law [OF z] by (simp add: a'_def zeroed_def)
    have res: "(if \<not> z then (Err ClearFailed, b1\<lparr>ba_active := a', ba_calls := n\<rparr>)
         else if dr_sync_fails d n then (Err BankSyncFailed, b1\<lparr>ba_active := a', ba_calls := n + 1\<rparr>)
         else (Ok (), b1\<lparr>ba_active := a'\<lparr>kb_filled := 0\<rparr>, ba_calls := n + 1\<rparr>)) = (r, b')"
      using run Pair Ok z by (auto simp: clear_kv_slot_def Let_def a_def a'_def split: if_splits)
    have s: "kb_slot a' = kb_slot (ba_active b1)" "kb_slot (zeroed a) = kb_slot (ba_active b1)" by (simp_all add: a'_def zeroed_def a_def)
    note put = bank_put [OF conjunct1 [OF sel] s(1)] bank_put [OF conjunct1 [OF sel] s(2)]
    have eq: "bank_of b1 = bank_of b" "kb_slot a' = slot" "kb_slot (zeroed a) = slot" using sel slot(1) s by (simp_all add: a_def)
    have old: "bank_of b slot = Some a" using slot(2) eq(1) by simp
    consider "\<not> z" | "z" "dr_sync_fails d n" | "z" "\<not> dr_sync_fails d n" by blast
    then show ?thesis
    proof cases
      case 1
      with res have "r = Err ClearFailed" "b' = b1\<lparr>ba_active := a', ba_calls := n\<rparr>" by auto
      with put(1,2) eq show ?thesis by simp
    next
      case 2
      with res have "r = Err BankSyncFailed" "b' = b1\<lparr>ba_active := a', ba_calls := n + 1\<rparr>" by auto
      with put(1,2) eq show ?thesis by simp
    next
      case 3
      with res zero have "r = Ok ()" "b' = b1\<lparr>ba_active := zeroed a, ba_calls := n + 1\<rparr>" by auto
      with put(3,4) eq old show ?thesis by simp
    qed
  qed (use run Pair sel in \<open>auto simp: clear_kv_slot_def\<close>)
qed

lemma enable_law:
  assumes "kb_slot (ba_active b) = 0" "banks_ok b" "enable_second_kv_slot d b = (r, b')"
  shows "banks_ok b' \<and> bank_of b' 0 = bank_of b 0 \<and> (r = Ok () \<longrightarrow> kv_slot_count b' = 2)"
  using assms by (auto simp: enable_second_kv_slot_def banks_ok_def bank_of_def kv_slot_count_def split: if_splits option.splits prod.splits)

text \<open>The two KV banks are independent. Selecting a slot makes it the active one and moves no bytes between slots,
  and clearing a slot zeroes that slot's keys and values, forgets its rows and leaves every other slot as it was; the second
  holds whatever the driver answers, also when the clearing fails half way. Selecting succeeds exactly when the slot is
  active or exists and the driver synchronizes.
\<close>
theorem kv_slots_isolated:
  assumes "banks_ok b" "select_kv_slot d slot b = (r, b')" "clear_kv_slot d slot b = (q, b'')"
  shows "bank_of b' = bank_of b \<and> (r = Ok () \<longleftrightarrow> slot = kb_slot (ba_active b) \<or> bank_of b slot \<noteq> None \<and> \<not> dr_sync_fails d (ba_calls b)) \<and>
    (\<forall>s. s \<noteq> slot \<longrightarrow> bank_of b'' s = bank_of b s) \<and>
    (q = Ok () \<longrightarrow> bank_of b'' slot = map_option zeroed (bank_of b slot) \<and> kv_slot_filled b'' slot = Some 0)"
proof -
  note c = clear_law [OF assms(1,3)] and s = select_law [OF assms(1,2)]
  have "kv_slot_filled b'' slot = Some 0" if q: "q = Ok ()"
  proof -
    have a: "kb_slot (ba_active b'') = slot" "bank_of b'' slot = map_option zeroed (bank_of b slot)" using c q by blast+
    then obtain k where "ba_active b'' = zeroed k" by (cases "bank_of b slot") (auto simp: bank_of_def)
    with a(1) show ?thesis by (simp add: kv_slot_filled_def zeroed_def)
  qed
  with c s show ?thesis by blast
qed

definition two_banks :: kv_banks where
  "two_banks = \<lparr>ba_active = \<lparr>kb_slot = 0, kb_keys = [[1, 2]], kb_values = [[3]], kb_filled = 1\<rparr>,
     ba_inactive = Some \<lparr>kb_slot = 1, kb_keys = [[4, 5]], kb_values = [[6]], kb_filled = 1\<rparr>, ba_paged = False, ba_graphs = False, ba_calls = 0\<rparr>"

definition reliable :: driver where
  "reliable = \<lparr>dr_alloc_fails = (\<lambda>_. False), dr_copy_fails = (\<lambda>_. False), dr_sync_fails = (\<lambda>_. False)\<rparr>"

theorem kv_slots_isolated_witness:
  "bank_of (snd (clear_kv_slot reliable 1 two_banks)) 0 = bank_of two_banks 0 \<and>
   bank_of (snd (select_kv_slot reliable 1 two_banks)) = bank_of two_banks \<and>
   kv_slot_filled (snd (clear_kv_slot reliable 1 two_banks)) 1 = Some 0"
proof -
  have ok: "banks_ok two_banks" by (simp add: banks_ok_def two_banks_def)
  have q: "fst (clear_kv_slot reliable 1 two_banks) = Ok ()" by code_simp
  from kv_slots_isolated [OF ok, of reliable 1 "fst (select_kv_slot reliable 1 two_banks)" "snd (select_kv_slot reliable 1 two_banks)"
      "fst (clear_kv_slot reliable 1 two_banks)" "snd (clear_kv_slot reliable 1 two_banks)"] q
  show ?thesis by simp
qed

end
