(* ===== verification/Resident_Sequences.thy ===== *)
theory Resident_Sequences
  imports Paged_Batch Sequence_Slots Kv_Banks
begin

text \<open>
  How sequences come to the resident CUDA engine and leave it (\<open>select_resident_cuda_sequence\<close>,
  \<open>select_resident_cuda_sequence_or_teardown\<close>, \<open>release_resident_cuda_sequence\<close> of \<open>src/src/inference.rs\<close>). The engine's slot
  table, the paged client and the contiguous banks are composed the way the source composes them; every session keeps
  its lease.

  The runs of the system are a step relation: sessions select, work and end in any order, an engine is torn down and a new
  one built. The theorem: the page tables are those of the sequences that occupy slots, each of which has its session's valid
  lease, and selecting never fails; it only declines when all slots are taken.
\<close>

section \<open>The resident engine\<close>

record resident =
  rs_slots :: "slots option"
  rs_client :: client
  rs_banks :: kv_banks

datatype resident_error = ClientError client_error | BankError bank_error | SlotError slot_error

text \<open>The part of \<open>select_resident_cuda_sequence\<close> after the session's lease was found missing or stale.\<close>

definition acquire_sequence ::
  "driver \<Rightarrow> seq_id \<Rightarrow> slots \<Rightarrow> resident \<Rightarrow> (bool, resident_error) outcome \<times> resident \<times> seq_lease option" where
  "acquire_sequence d sid ss r =
     (case acquire_slot sid ss of
        (Err e, ss') \<Rightarrow>
          ((case e of SlotsExhausted _ \<Rightarrow> Ok False | _ \<Rightarrow> Err (SlotError e)), r\<lparr>rs_slots := Some ss'\<rparr>, None)
      | (Panic, ss') \<Rightarrow> (Panic, r\<lparr>rs_slots := Some ss'\<rparr>, None)
      | (Ok acquisition, ss') \<Rightarrow>
          let lease = acquisition_lease acquisition in
          if cl_kv (rs_client r) \<noteq> None then
            (case open_table sid (rs_client r) of
               (Ok _, c) \<Rightarrow> (Ok True, r\<lparr>rs_slots := Some ss', rs_client := c\<rparr>, Some lease)
             | (Err e, c) \<Rightarrow> (Err (ClientError e), r\<lparr>rs_slots := Some (snd (poison_lease lease ss')), rs_client := c\<rparr>, None)
             | (Panic, c) \<Rightarrow> (Panic, r\<lparr>rs_slots := Some ss', rs_client := c\<rparr>, None))
          else
            (case clear_kv_slot d (sl_slot_id lease) (rs_banks r) of
               (Ok _, b) \<Rightarrow> (Ok True, r\<lparr>rs_slots := Some ss', rs_banks := b\<rparr>, Some lease)
             | (Err e, b) \<Rightarrow> (Err (BankError e), r\<lparr>rs_slots := Some (snd (poison_lease lease ss')), rs_banks := b\<rparr>, None)
             | (Panic, b) \<Rightarrow> (Panic, r\<lparr>rs_slots := Some ss', rs_banks := b\<rparr>, None)))"

definition select_resident_cuda_sequence ::
  "driver \<Rightarrow> seq_id \<Rightarrow> resident \<Rightarrow> seq_lease option \<Rightarrow> (bool, resident_error) outcome \<times> resident \<times> seq_lease option" where
  "select_resident_cuda_sequence d sid r session_lease =
     (case rs_slots r of
        None \<Rightarrow> (Ok True, r, session_lease)
      | Some ss \<Rightarrow>
          (case session_lease of
             None \<Rightarrow> acquire_sequence d sid ss r
           | Some lease \<Rightarrow>
               if validate_lease ss lease then
                 (if cl_kv (rs_client r) = None then
                    (case select_kv_slot d (sl_slot_id lease) (rs_banks r) of
                       (res, b) \<Rightarrow> (bindR (map_err BankError res) (\<lambda>_. Ok True), r\<lparr>rs_banks := b\<rparr>, session_lease))
                  else (Ok True, r, session_lease))
               else acquire_sequence d sid ss r))"

text \<open>An error tears the engine down.\<close>

definition select_or_teardown ::
  "driver \<Rightarrow> seq_id \<Rightarrow> resident option \<Rightarrow> seq_lease option \<Rightarrow> (bool, resident_error) outcome \<times> resident option \<times> seq_lease option" where
  "select_or_teardown d sid guard session_lease =
     (case guard of
        None \<Rightarrow> (Ok False, None, session_lease)
      | Some r \<Rightarrow>
          (case select_resident_cuda_sequence d sid r session_lease of
             (Ok b, r', l) \<Rightarrow> (Ok b, Some r', l)
           | (Err e, _, _) \<Rightarrow> (Err e, None, None)
           | (Panic, r', l) \<Rightarrow> (Panic, Some r', l)))"

text \<open>The end of a session. \<open>Panic\<close> is a panic on the way; otherwise the result is the engine that is left.\<close>

definition release_resident_cuda_sequence ::
  "driver \<Rightarrow> seq_lease \<Rightarrow> resident option \<Rightarrow> (resident option, resident_error) outcome" where
  "release_resident_cuda_sequence d lease guard =
     (case guard of
        None \<Rightarrow> Ok None
      | Some r \<Rightarrow>
          (case rs_slots r of
             None \<Rightarrow> Ok guard
           | Some ss \<Rightarrow>
               if \<not> validate_lease ss lease then Ok guard
               else if cl_kv (rs_client r) \<noteq> None then
                 (case release_paged_sequence d (sl_sequence_id lease) (rs_client r) of
                    (Ok _, c) \<Rightarrow> Ok (Some (r\<lparr>rs_slots := Some (snd (release_lease lease ss)), rs_client := c\<rparr>))
                  | (Err _, _) \<Rightarrow> Ok None
                  | (Panic, _) \<Rightarrow> Panic)
               else
                 (case clear_kv_slot d (sl_slot_id lease) (rs_banks r) of
                    (Ok _, b) \<Rightarrow> Ok (Some (r\<lparr>rs_slots := Some (snd (release_lease lease ss)), rs_banks := b\<rparr>))
                  | (Err _, _) \<Rightarrow> Ok None
                  | (Panic, _) \<Rightarrow> Panic)))"

section \<open>The system\<close>

text \<open>What a session does with the engine between selecting its sequence and ending: the client's operations other
  than opening and releasing tables.\<close>

inductive client_work :: "client \<Rightarrow> client \<Rightarrow> bool" where
  work_adopt: "adopt_paged_prefix sid toks n c = (r, c') \<Longrightarrow> client_work c c'"
| work_prefill: "sync_ok d \<Longrightarrow> kernel_frame k \<Longrightarrow> prefill_paged_append d k sid n c = (r, c') \<Longrightarrow> client_work c c'"
| work_forward: "sync_ok d \<Longrightarrow> kernel_frame k \<Longrightarrow>
    forward_paged_append d k sid c = (r :: (paged_forward, client_error) outcome, c') \<Longrightarrow> client_work c c'"
| work_batch: "sync_ok d \<Longrightarrow> kernel_frame k \<Longrightarrow> distinct sids \<Longrightarrow>
    \<forall>kv sid t. cl_kv c = Some kv \<longrightarrow> sid \<in> set sids \<longrightarrow> pk_tables kv sid = Some t \<longrightarrow> private_tail (pk_pool kv) t \<Longrightarrow>
    paged_batch_append d k sids positions c = (r :: (paged_forward list, client_error) outcome, c') \<Longrightarrow> client_work c c'"
| work_set_tokens: "client_work c (set_paged_tokens sid toks c)"
| work_record_token: "client_work c (record_paged_token sid pos tok c)"

record resident_system =
  sy_guard :: "resident option"
  sy_leases :: "seq_id \<Rightarrow> seq_lease option"

text \<open>A newly built engine of the paged lane: empty slots, an empty pool and an empty device store.\<close>

definition fresh_resident :: "page_layout \<Rightarrow> usize \<Rightarrow> usize \<Rightarrow> kv_banks \<Rightarrow> (resident, resident_error) outcome" where
  "fresh_resident l page_capacity capacity banks =
     bindR (map_err SlotError (slots_new capacity)) (\<lambda>ss.
     bindR (map_err ClientError (paged_kv_new l page_capacity)) (\<lambda>kv.
     bindR (map_err (ClientError \<circ> DeviceError) (device_new l)) (\<lambda>s.
       Ok \<lparr>rs_slots = Some ss, rs_client = owner kv s, rs_banks = banks\<rparr>)))"

inductive system_step :: "resident_system \<Rightarrow> resident_system \<Rightarrow> bool" where
  sys_select: "select_or_teardown d sid (sy_guard y) (sy_leases y sid) = (r, guard, lease) \<Longrightarrow>
    system_step y \<lparr>sy_guard = guard, sy_leases = (sy_leases y)(sid := lease)\<rparr>"
| sys_work: "sy_guard y = Some r \<Longrightarrow> client_work (rs_client r) c \<Longrightarrow> system_step y (y\<lparr>sy_guard := Some (r\<lparr>rs_client := c\<rparr>)\<rparr>)"
| sys_end: "sync_ok d \<Longrightarrow> sy_leases y sid = Some lease \<Longrightarrow> release_resident_cuda_sequence d lease (sy_guard y) = Ok guard \<Longrightarrow>
    system_step y \<lparr>sy_guard = guard, sy_leases = (sy_leases y)(sid := None)\<rparr>"
| sys_teardown: "system_step y \<lparr>sy_guard = None, sy_leases = (sy_leases y)(sid := None)\<rparr>"
| sys_build: "sy_guard y = None \<Longrightarrow> fresh_resident l page_capacity capacity banks = Ok r \<Longrightarrow> page_capacity \<le> 2 ^ 32 \<Longrightarrow>
    (\<forall>s. device_new l = Ok s \<longrightarrow> page_size s * 2 ^ 32 \<le> usize_max) \<Longrightarrow> system_step y (y\<lparr>sy_guard := Some r\<rparr>)"

section \<open>Invariant\<close>

definition occupants :: "slots \<Rightarrow> seq_id set" where
  "occupants ss = {sid. \<exists>e \<in> set ss. se_state e = Occupied sid}"

definition engine_ok :: "(seq_id \<Rightarrow> seq_lease option) \<Rightarrow> resident \<Rightarrow> bool" where
  "engine_ok leases r \<longleftrightarrow> (\<exists>ss kv s. rs_slots r = Some ss \<and> rs_client r = owner kv s \<and> kv_inv {#} kv s \<and> slots_inv ss \<and>
     dom (pk_tables kv) = occupants ss \<and> (\<forall>e \<in> set ss. se_state e \<noteq> Poisoned) \<and>
     (\<forall>sid \<in> occupants ss. \<exists>l. leases sid = Some l \<and> validate_lease ss l))"

definition system_inv :: "resident_system \<Rightarrow> bool" where
  "system_inv y \<longleftrightarrow> (\<forall>sid l. sy_leases y sid = Some l \<longrightarrow> sl_sequence_id l = sid) \<and>
     (\<forall>r. sy_guard y = Some r \<longrightarrow> engine_ok (sy_leases y) r)"

text \<open>Work keeps the invariant of the pages and the set of tables.\<close>

lemma client_work_law:
  assumes "client_work (owner kv s) c" "kv_inv {#} kv s"
  shows "\<exists>kv' s'. c = owner kv' s' \<and> kv_inv {#} kv' s' \<and> dom (pk_tables kv') = dom (pk_tables kv)"
  using assms(1)
proof cases
  case (work_adopt sid toks n r)
  with adopt_law [OF assms(2), of sid toks n] show ?thesis by auto
next
  case (work_prefill d k sid n r)
  then have sync: "\<And>n. \<not> dr_sync_fails d n" by (simp add: sync_ok_def)
  from append_with_kernel_law [OF sync assms(2) work_prefill(2), of sid n] work_prefill(3) show ?thesis
    by (auto simp: prefill_paged_append_def)
next
  case (work_forward d k sid r)
  then have sync: "\<And>n. \<not> dr_sync_fails d n" by (simp add: sync_ok_def)
  from append_with_kernel_law [OF sync assms(2) work_forward(2), of sid 1] work_forward(3) show ?thesis
    by (auto simp: forward_paged_append_def)
next
  case (work_batch d k sids positions r)
  then have sync: "\<And>n. \<not> dr_sync_fails d n" by (simp add: sync_ok_def)
  have "\<forall>sid \<in> set sids. \<forall>t. pk_tables kv sid = Some t \<longrightarrow> private_tail (pk_pool kv) t" using work_batch(4) by simp
  from batch_append_law [OF sync assms(2) work_batch(2,3) this, of positions] work_batch(5) obtain kv' s' where
    b: "c = owner kv' s'" "kv_inv {#} kv' s'"
      "(\<forall>sid. if sid \<in> set sids then \<exists>t a. pk_tables kv sid = Some t \<and> pk_tables kv' sid = Some (apply_append a t)
        else pk_tables kv' sid = pk_tables kv sid) \<or> pk_tables kv' = pk_tables kv" by auto
  have "dom (pk_tables kv') = dom (pk_tables kv)"
  proof (rule set_eqI)
    fix sid
    from b(3) have "(\<exists>t a. pk_tables kv sid = Some t \<and> pk_tables kv' sid = Some (apply_append a t)) \<or> pk_tables kv' sid = pk_tables kv sid"
    proof
      assume "\<forall>sid. if sid \<in> set sids then \<exists>t a. pk_tables kv sid = Some t \<and> pk_tables kv' sid = Some (apply_append a t)
        else pk_tables kv' sid = pk_tables kv sid"
      from spec [OF this, of sid] show ?thesis by (auto split: if_splits)
    qed simp
    then show "sid \<in> dom (pk_tables kv') \<longleftrightarrow> sid \<in> dom (pk_tables kv)"
      by (elim disjE exE conjE) (simp_all add: domIff)
  qed
  with b show ?thesis by blast
next
  case (work_set_tokens sid toks)
  then show ?thesis using kv_inv_tokens [OF assms(2)] by (auto simp: set_paged_tokens_def)
next
  case (work_record_token sid pos tok)
  then show ?thesis using kv_inv_tokens [OF assms(2)] assms(2) by (auto simp: record_paged_token_def Let_def split: option.splits)
qed

section \<open>Selecting and ending\<close>

lemma occupants_nth: "x \<in> occupants ss \<longleftrightarrow> (\<exists>j < length ss. se_state (ss ! j) = Occupied x)"
  unfolding occupants_def by (auto simp: in_set_conv_nth) (metis nth_mem)

lemma occupants_take:
  assumes "i < length ss" "se_state (ss ! i) = VacantSlot" "se_state e = Occupied sid"
  shows "occupants (ss[i := e]) = insert sid (occupants ss)"
proof (rule set_eqI)
  fix x
  have "x \<in> occupants (ss[i := e]) \<longleftrightarrow> (\<exists>j < length ss. se_state (ss[i := e] ! j) = Occupied x)"
    by (simp add: occupants_nth)
  also have "\<dots> \<longleftrightarrow> x = sid \<or> (\<exists>j < length ss. se_state (ss ! j) = Occupied x)"
    using assms by (auto simp: nth_list_update split: if_splits) (metis slot_state.distinct(1))
  also have "\<dots> \<longleftrightarrow> x \<in> insert sid (occupants ss)" by (auto simp: occupants_nth)
  finally show "x \<in> occupants (ss[i := e]) \<longleftrightarrow> x \<in> insert sid (occupants ss)" .
qed

lemma occupants_free:
  assumes "slots_inv ss" "i < length ss" "se_state (ss ! i) = Occupied sid" "se_state e = VacantSlot"
  shows "occupants (ss[i := e]) = occupants ss - {sid}"
proof (rule set_eqI)
  fix x
  have "x \<in> occupants (ss[i := e]) \<longleftrightarrow> (\<exists>j < length ss. j \<noteq> i \<and> se_state (ss ! j) = Occupied x)"
    using assms(2,4) by (auto simp: occupants_nth nth_list_update split: if_splits)
  also have "\<dots> \<longleftrightarrow> x \<noteq> sid \<and> (\<exists>j < length ss. se_state (ss ! j) = Occupied x)"
    using assms(1-3) unfolding slots_inv_def by (metis slot_state.inject)
  also have "\<dots> \<longleftrightarrow> x \<in> occupants ss - {sid}" by (auto simp: occupants_nth)
  finally show "x \<in> occupants (ss[i := e]) \<longleftrightarrow> x \<in> occupants ss - {sid}" .
qed

lemma validate_other: "validate_lease ss l \<Longrightarrow> sl_slot_id l \<noteq> i \<Longrightarrow> validate_lease (ss[i := e]) l"
  by (simp add: validate_lease_iff)

lemma valid_occupant: "validate_lease ss l \<Longrightarrow> sl_sequence_id l \<in> occupants ss"
  by (auto simp: validate_lease_iff occupants_def intro: nth_mem)

lemma acquire_engine:
  assumes ss: "rs_slots r = Some ss" and c: "rs_client r = owner kv s" and inv: "kv_inv {#} kv s" and sinv: "slots_inv ss"
    and doms: "dom (pk_tables kv) = occupants ss" and clean: "\<forall>e \<in> set ss. se_state e \<noteq> Poisoned"
    and held: "\<forall>x \<in> occupants ss. \<exists>l. leases x = Some l \<and> validate_lease ss l" and new: "sid \<notin> occupants ss"
  shows "\<exists>b r' l'. acquire_sequence d sid ss r = (Ok b, r', l') \<and> engine_ok (leases(sid := l')) r' \<and>
    (\<forall>l. l' = Some l \<longrightarrow> sl_sequence_id l = sid) \<and> (b \<longleftrightarrow> (\<exists>e \<in> set ss. se_state e = VacantSlot))"
proof -
  have none: "find_slot (\<lambda>e. se_state e = Occupied sid) ss = None" using new by (auto simp: find_slot_None_iff occupants_def)
  show ?thesis
  proof (cases "find_slot (\<lambda>e. se_state e = VacantSlot) ss")
    case None
    then have "acquire_sequence d sid ss r = (Ok False, r\<lparr>rs_slots := Some ss\<rparr>, None)"
      using none by (simp add: acquire_sequence_def acquire_slot_def)
    moreover have "engine_ok (leases(sid := None)) (r\<lparr>rs_slots := Some ss\<rparr>)"
      unfolding engine_ok_def using assms by (intro exI [of _ ss] exI [of _ kv] exI [of _ s]) auto
    ultimately show ?thesis using None by (auto simp: find_slot_None_iff)
  next
    case (Some ie)
    obtain i e where ie: "ie = (i, e)" by (cases ie)
    note f = find_slot_Some [OF Some [unfolded ie]]
    let ?g = "next_generation (se_generation e)"
    let ?e = "\<lparr>se_generation = ?g, se_state = Occupied sid\<rparr>" and ?l = "\<lparr>sl_sequence_id = sid, sl_slot_id = i, sl_generation = ?g\<rparr>"
    have acq: "acquire_slot sid ss = (Ok (FreshLease ?l), ss[i := ?e])" using none Some ie by (simp add: acquire_slot_def Let_def)
    have t: "pk_tables kv sid = None" using new doms by auto
    from open_table_law [OF inv t] obtain kv' where
      o: "open_table sid (owner kv s) = (Ok (), owner kv' s)" "kv_inv {#} kv' s" "pk_tables kv' = (pk_tables kv)(sid \<mapsto> table_new sid)" by blast
    have run: "acquire_sequence d sid ss r = (Ok True, r\<lparr>rs_slots := Some (ss[i := ?e]), rs_client := owner kv' s\<rparr>, Some ?l)"
      using acq o(1) c by (simp add: acquire_sequence_def Let_def)
    have occ: "occupants (ss[i := ?e]) = insert sid (occupants ss)" using f by (intro occupants_take) auto
    have clean': "\<forall>e \<in> set (ss[i := ?e]). se_state e \<noteq> Poisoned"
      using clean set_update_subset_insert [of ss i ?e] by auto
    have leases': "\<exists>l. (leases(sid \<mapsto> ?l)) x = Some l \<and> validate_lease (ss[i := ?e]) l" if "x \<in> insert sid (occupants ss)" for x
    proof (cases "x = sid")
      case True
      with f show ?thesis by (simp add: validate_lease_iff)
    next
      case False
      with that held obtain l where l: "leases x = Some l" "validate_lease ss l" by auto
      then have "sl_slot_id l \<noteq> i" using f by (auto simp: validate_lease_iff)
      with l False show ?thesis by (auto intro: validate_other)
    qed
    have "slots_inv (ss[i := ?e])" using acquire_slot_inv [OF sinv, of sid] acq by simp
    moreover have "dom (pk_tables kv') = occupants (ss[i := ?e])" using o(3) doms occ by simp
    ultimately have "engine_ok (leases(sid \<mapsto> ?l)) (r\<lparr>rs_slots := Some (ss[i := ?e]), rs_client := owner kv' s\<rparr>)"
      unfolding engine_ok_def using o(2) clean' leases' occ
      by (intro exI [of _ "ss[i := ?e]"] exI [of _ kv'] exI [of _ s]) auto
    with run f show ?thesis by (auto intro!: exI [of _ True] bexI [of _ e] nth_mem)
  qed
qed

lemma select_engine:
  assumes "engine_ok leases r" "rs_slots r = Some ss" "\<forall>l. leases sid = Some l \<longrightarrow> sl_sequence_id l = sid"
  shows "\<exists>b r' l'. select_resident_cuda_sequence d sid r (leases sid) = (Ok b, r', l') \<and> engine_ok (leases(sid := l')) r' \<and>
    (\<forall>l. l' = Some l \<longrightarrow> sl_sequence_id l = sid) \<and> (b \<longleftrightarrow> sid \<in> occupants ss \<or> (\<exists>e \<in> set ss. se_state e = VacantSlot))"
proof -
  from assms(1,2) obtain kv s where k: "rs_client r = owner kv s" "kv_inv {#} kv s" "slots_inv ss"
    "dom (pk_tables kv) = occupants ss" "\<forall>e \<in> set ss. se_state e \<noteq> Poisoned"
    "\<forall>x \<in> occupants ss. \<exists>l. leases x = Some l \<and> validate_lease ss l" by (auto simp: engine_ok_def)
  show ?thesis
  proof (cases "sid \<in> occupants ss")
    case True
    with k(6) obtain l where l: "leases sid = Some l" "validate_lease ss l" by blast
    then have "select_resident_cuda_sequence d sid r (leases sid) = (Ok True, r, leases sid)"
      using assms(2) k(1) by (simp add: select_resident_cuda_sequence_def)
    moreover have "engine_ok (leases(sid := leases sid)) r" using assms(1) by simp
    ultimately show ?thesis using assms(3) True by blast
  next
    case False
    have "\<not> validate_lease ss l" if "leases sid = Some l" for l
      using valid_occupant [of ss l] assms(3) that False by auto
    then have "select_resident_cuda_sequence d sid r (leases sid) = acquire_sequence d sid ss r"
      using assms(2) by (simp add: select_resident_cuda_sequence_def split: option.splits)
    with acquire_engine [OF assms(2) k False, of d] False show ?thesis by simp
  qed
qed

lemma end_engine:
  assumes ok: "engine_ok leases r" and lease: "leases sid = Some l" "sl_sequence_id l = sid" and sync: "sync_ok d"
    and ids: "\<forall>x k. leases x = Some k \<longrightarrow> sl_sequence_id k = x"
    and rel: "release_resident_cuda_sequence d l (Some r) = Ok g" and g: "g = Some r'"
  shows "engine_ok (leases(sid := None)) r'"
proof -
  from ok obtain ss kv s where k: "rs_slots r = Some ss" "rs_client r = owner kv s" "kv_inv {#} kv s" "slots_inv ss"
    "dom (pk_tables kv) = occupants ss" "\<forall>e \<in> set ss. se_state e \<noteq> Poisoned"
    "\<forall>x \<in> occupants ss. \<exists>l. leases x = Some l \<and> validate_lease ss l" by (auto simp: engine_ok_def)
  show ?thesis
  proof (cases "validate_lease ss l")
    case False
    then have "sid \<notin> occupants ss" using k(7) lease(1) by auto
    then have "engine_ok (leases(sid := None)) r"
      unfolding engine_ok_def using k by (intro exI [of _ ss] exI [of _ kv] exI [of _ s]) auto
    moreover have "r' = r" using rel g k(1) False by (simp add: release_resident_cuda_sequence_def)
    ultimately show ?thesis by simp
  next
    case True
    then have sid: "sid \<in> occupants ss" using valid_occupant [OF True] lease(2) by simp
    then obtain t where t: "pk_tables kv sid = Some t" using k(5) by blast
    have sy: "\<And>n. \<not> dr_sync_fails d n" using sync by (simp add: sync_ok_def)
    from release_sequence_law [OF sy k(3) t] obtain kv' s' where
      p: "release_paged_sequence d sid (owner kv s) = (Ok (), owner kv' s')" "kv_inv {#} kv' s'" "pk_tables kv' = (pk_tables kv)(sid := None)" by blast
    define i e where "i = sl_slot_id l" and "e = (ss ! i)\<lparr>se_state := VacantSlot\<rparr>"
    have v: "i < length ss" "se_state (ss ! i) = Occupied sid" using True lease(2) by (simp_all add: validate_lease_iff i_def)
    have free: "snd (release_lease l ss) = ss[i := e]" unfolding release_lease_def put_state_def e_def i_def [symmetric] using True v(1) by simp
    have r': "r' = r\<lparr>rs_slots := Some (ss[i := e]), rs_client := owner kv' s'\<rparr>"
    proof -
      have "release_resident_cuda_sequence d l (Some r) =
          Ok (Some (r\<lparr>rs_slots := Some (snd (release_lease l ss)), rs_client := owner kv' s'\<rparr>))"
        unfolding release_resident_cuda_sequence_def using k(1,2) True p(1) lease(2) by simp
      with rel g free show ?thesis by simp
    qed
    have occ: "occupants (ss[i := e]) = occupants ss - {sid}" using k(4) v by (intro occupants_free) (auto simp: e_def)
    have leases': "\<exists>l'. (leases(sid := None)) x = Some l' \<and> validate_lease (ss[i := e]) l'" if "x \<in> occupants ss - {sid}" for x
    proof -
      have x: "x \<in> occupants ss" "x \<noteq> sid" using that by simp_all
      from bspec [OF k(7) x(1)] obtain l' where l': "leases x = Some l'" "validate_lease ss l'" by blast
      have "sl_slot_id l' \<noteq> i"
      proof
        assume "sl_slot_id l' = i"
        then have "sl_sequence_id l' = sid" using l'(2) v by (simp add: validate_lease_iff)
        with ids l'(1) x(2) show False by simp
      qed
      with l' x(2) show ?thesis by (simp add: validate_other)
    qed
    have "slots_inv (ss[i := e])" using k(4) by (intro slots_inv_update) (auto simp: e_def)
    moreover have "\<forall>e' \<in> set (ss[i := e]). se_state e' \<noteq> Poisoned"
      using k(6) set_update_subset_insert [of ss i e] by (auto simp: e_def)
    moreover have "dom (pk_tables kv') = occupants (ss[i := e])" using p(3) k(5) occ by auto
    ultimately show ?thesis unfolding engine_ok_def r' using p(2) leases' occ
      by (intro exI [of _ "ss[i := e]"] exI [of _ kv'] exI [of _ s']) auto
  qed
qed

lemma fresh_engine:
  assumes "fresh_resident l page_capacity capacity banks = Ok r" "page_capacity \<le> 2 ^ 32"
    "\<forall>s. device_new l = Ok s \<longrightarrow> page_size s * 2 ^ 32 \<le> usize_max"
  shows "engine_ok leases r"
proof -
  from assms(1) obtain ss kv s where n: "slots_new capacity = Ok ss" "paged_kv_new l page_capacity = Ok kv" "device_new l = Ok s"
    "r = \<lparr>rs_slots = Some ss, rs_client = owner kv s, rs_banks = banks\<rparr>"
    by (cases "slots_new capacity"; cases "paged_kv_new l page_capacity"; cases "device_new l") (auto simp: fresh_resident_def)
  have "client_inv (owner kv s)" using client_init [OF n(2,3) assms(2)] assms(3) n(3) by blast
  then have inv: "kv_inv {#} kv s" by (auto simp: client_inv_def)
  have occ: "occupants ss = {}" "\<forall>e \<in> set ss. se_state e \<noteq> Poisoned"
    using n(1) by (auto simp: slots_new_def occupants_def split: if_splits)
  have "dom (pk_tables kv) = {}" using n(2) by (cases "pool_new l page_capacity") (auto simp: paged_kv_new_def)
  then show ?thesis unfolding engine_ok_def using n(4) inv occ slots_inv_new [OF n(1)]
    by (intro exI [of _ ss] exI [of _ kv] exI [of _ s]) simp
qed

lemma system_step_inv:
  assumes "system_step y y'" "system_inv y"
  shows "system_inv y'"
proof -
  have ids: "\<forall>sid l. sy_leases y sid = Some l \<longrightarrow> sl_sequence_id l = sid" using assms(2) by (simp add: system_inv_def)
  have eng: "engine_ok (sy_leases y) r" if "sy_guard y = Some r" for r using assms(2) that by (simp add: system_inv_def)
  from assms(1) show ?thesis
  proof cases
    case (sys_select d sid r guard lease)
    show ?thesis
    proof (cases "sy_guard y")
      case None
      then have "guard = None" "lease = sy_leases y sid" using sys_select(2) by (simp_all add: select_or_teardown_def)
      with sys_select(1) ids show ?thesis by (simp add: system_inv_def)
    next
      case (Some q)
      then obtain ss where ss: "rs_slots q = Some ss" using eng [OF Some] by (auto simp: engine_ok_def)
      have "\<forall>l. sy_leases y sid = Some l \<longrightarrow> sl_sequence_id l = sid" using ids by blast
      from select_engine [OF eng [OF Some] ss this, of d] obtain b q' l' where
        q': "select_resident_cuda_sequence d sid q (sy_leases y sid) = (Ok b, q', l')" "engine_ok ((sy_leases y)(sid := l')) q'"
          "\<forall>l. l' = Some l \<longrightarrow> sl_sequence_id l = sid" by blast
      then have "guard = Some q'" "lease = l'" using sys_select(2) Some by (simp_all add: select_or_teardown_def)
      with sys_select(1) q'(2,3) ids show ?thesis by (simp add: system_inv_def)
    qed
  next
    case (sys_work r c)
    from eng [OF sys_work(2)] obtain ss kv s where e: "rs_slots r = Some ss" "rs_client r = owner kv s" "kv_inv {#} kv s" "slots_inv ss"
      "dom (pk_tables kv) = occupants ss" "\<forall>e \<in> set ss. se_state e \<noteq> Poisoned"
      "\<forall>x \<in> occupants ss. \<exists>l. sy_leases y x = Some l \<and> validate_lease ss l" by (auto simp: engine_ok_def)
    from client_work_law [OF sys_work(3) [unfolded e(2)] e(3)] obtain kv' s' where
      w: "c = owner kv' s'" "kv_inv {#} kv' s'" "dom (pk_tables kv') = dom (pk_tables kv)" by blast
    have "engine_ok (sy_leases y) (r\<lparr>rs_client := c\<rparr>)"
      unfolding engine_ok_def using w e by (intro exI [of _ ss] exI [of _ kv'] exI [of _ s']) simp
    with sys_work(1) ids show ?thesis by (simp add: system_inv_def)
  next
    case (sys_end d sid lease guard)
    have "engine_ok ((sy_leases y)(sid := None)) r'" if g: "guard = Some r'" for r'
    proof (cases "sy_guard y")
      case None
      with sys_end(4) g show ?thesis by (simp add: release_resident_cuda_sequence_def)
    next
      case (Some r)
      have sid: "sl_sequence_id lease = sid" using ids sys_end(3) by blast
      from end_engine [OF eng [OF Some] sys_end(3) sid sys_end(2) ids sys_end(4) [unfolded Some] g] show ?thesis .
    qed
    with sys_end(1) ids show ?thesis by (simp add: system_inv_def)
  next
    case (sys_teardown sid)
    with ids show ?thesis by (simp add: system_inv_def)
  next
    case (sys_build l page_capacity capacity banks r)
    from fresh_engine [OF sys_build(3-5)] sys_build(1) ids show ?thesis by (simp add: system_inv_def)
  qed
qed

definition idle_system :: resident_system where
  "idle_system = \<lparr>sy_guard = None, sy_leases = (\<lambda>_. None)\<rparr>"

lemma system_run_inv: "system_step\<^sup>*\<^sup>* idle_system y \<Longrightarrow> system_inv y"
proof (induction rule: rtranclp_induct)
  case base
  show ?case by (simp add: system_inv_def idle_system_def)
next
  case (step y z)
  then show ?case by (blast intro: system_step_inv)
qed

text \<open>C7. Sequences, slots and pages fit together, on the paged lane: whatever sessions do (select their sequence, work, end, in
  any order, with engines torn down and rebuilt in between), the sequences that have a page table are exactly those that occupy
  a slot, each of them has a session that holds a valid lease, and every page reference belongs to one of them or to the retained
  prefix. So selecting a sequence never finds a table of an earlier owner and never fails: it succeeds when the sequence has a
  slot or one is free, and declines otherwise. The steps are those of \<open>system_step\<close>: every engine has the paged lane (slots and a
  page pool of at most 2^32 pages), work and the end of a session assume that synchronising the device does not fail, and a
  batch names distinct sequences that own their tail pages alone. The other lane, two dense KV banks, is in \<open>Kv_Banks\<close>.
\<close>
theorem resident_sequences_exact:
  assumes "system_step\<^sup>*\<^sup>* idle_system y" "sy_guard y = Some r"
  shows "\<exists>ss kv s. rs_slots r = Some ss \<and> rs_client r = owner kv s \<and> dom (pk_tables kv) = occupants ss \<and>
    held (pk_pool kv) = table_refs (pk_tables kv) + cached_refs (pk_cached kv) \<and>
    (\<forall>sid \<in> occupants ss. \<exists>l. sy_leases y sid = Some l \<and> sl_sequence_id l = sid \<and> validate_lease ss l) \<and>
    (\<forall>d sid. \<exists>b g l. select_or_teardown d sid (Some r) (sy_leases y sid) = (Ok b, Some g, l) \<and>
       (b \<longleftrightarrow> sid \<in> occupants ss \<or> (\<exists>e \<in> set ss. se_state e = VacantSlot)))"
proof -
  note inv = system_run_inv [OF assms(1), unfolded system_inv_def]
  have eng: "engine_ok (sy_leases y) r" using inv assms(2) by blast
  then obtain ss kv s where e: "rs_slots r = Some ss" "rs_client r = owner kv s" "kv_inv {#} kv s" "dom (pk_tables kv) = occupants ss"
    "\<forall>x \<in> occupants ss. \<exists>l. sy_leases y x = Some l \<and> validate_lease ss l" by (auto simp: engine_ok_def)
  have "\<exists>b g l. select_or_teardown d sid (Some r) (sy_leases y sid) = (Ok b, Some g, l) \<and>
       (b \<longleftrightarrow> sid \<in> occupants ss \<or> (\<exists>e \<in> set ss. se_state e = VacantSlot))" for d sid
  proof -
    have "\<forall>l. sy_leases y sid = Some l \<longrightarrow> sl_sequence_id l = sid" using inv by blast
    from select_engine [OF eng e(1) this, of d] show ?thesis by (auto simp: select_or_teardown_def)
  qed
  moreover have "\<forall>sid \<in> occupants ss. \<exists>l. sy_leases y sid = Some l \<and> sl_sequence_id l = sid \<and> validate_lease ss l"
    using e(5) conjunct1 [OF inv] by blast
  moreover have "held (pk_pool kv) = table_refs (pk_tables kv) + cached_refs (pk_cached kv)" using kv_inv_held [OF e(3)] by simp
  ultimately show ?thesis using e by blast
qed

text \<open>An engine with two slots, and one session that has selected its sequence.\<close>

definition small_resident :: "resident option" where
  "small_resident = (case fresh_resident small_layout 3 2 two_banks of Ok r \<Rightarrow> Some r | _ \<Rightarrow> None)"

definition one_session :: resident_system where
  "one_session = (case select_or_teardown reliable 7 small_resident None of
     (_, guard, lease) \<Rightarrow> \<lparr>sy_guard = guard, sy_leases = (\<lambda>_. None)(7 := lease)\<rparr>)"

lemma small_resident_Some: "\<exists>r. small_resident = Some r \<and> fresh_resident small_layout 3 2 two_banks = Ok r"
proof -
  obtain kv s where "paged_kv_new small_layout 3 = Ok kv" "device_new small_layout = Ok s" using small_client_new by blast
  then show ?thesis by (simp add: small_resident_def fresh_resident_def slots_new_def)
qed

lemma one_session_run: "system_step\<^sup>*\<^sup>* idle_system one_session"
proof -
  obtain r where r: "small_resident = Some r" "fresh_resident small_layout 3 2 two_banks = Ok r" using small_resident_Some by blast
  obtain kv s where s: "device_new small_layout = Ok s" "page_size s * 2 ^ 32 \<le> usize_max" using small_client_new by blast
  let ?y = "idle_system\<lparr>sy_guard := Some r\<rparr>"
  have "system_step idle_system ?y"
    by (rule sys_build [OF _ r(2)]) (use s in \<open>auto simp: idle_system_def\<close>)
  moreover have "system_step ?y one_session"
  proof -
    obtain q guard lease where q: "select_or_teardown reliable 7 (Some r) None = (q, guard, lease)"
      by (cases "select_or_teardown reliable 7 (Some r) None") auto
    then have "select_or_teardown reliable 7 (sy_guard ?y) (sy_leases ?y 7) = (q, guard, lease)" by (simp add: idle_system_def)
    from sys_select [OF this] q r(1) show ?thesis by (simp add: one_session_def idle_system_def)
  qed
  ultimately show ?thesis by (meson converse_rtranclp_into_rtranclp r_into_rtranclp)
qed

lemma one_session_guard: "sy_guard one_session \<noteq> None" "map_option rs_slots (sy_guard one_session) =
    Some (Some [\<lparr>se_generation = 1, se_state = Occupied 7\<rparr>, \<lparr>se_generation = 0, se_state = VacantSlot\<rparr>])"
  by code_simp+

theorem resident_sequences_exact_witness:
  "\<exists>r kv s. sy_guard one_session = Some r \<and> rs_client r = owner kv s \<and> dom (pk_tables kv) = {7}"
proof -
  obtain r where r: "sy_guard one_session = Some r" using one_session_guard(1) by blast
  from resident_sequences_exact [OF one_session_run r] obtain ss kv s where
    k: "rs_slots r = Some ss" "rs_client r = owner kv s" "dom (pk_tables kv) = occupants ss" by blast
  have "occupants ss = {7}" using one_session_guard(2) r k(1) by (auto simp: occupants_def)
  with r k show ?thesis by simp
qed

end
