(* ===== verification/Continuous_Batch.thy ===== *)
theory Continuous_Batch
  imports Prelude
begin

text \<open>
  The cooperative scheduler of continuous batching (\<open>src/src/api/continuous_batch.rs\<close>): the
  waiting and active queues, admission, cancellation and the four kinds of scheduling rounds.
  The callbacks of the source are \<open>FnMut\<close> closures; here they are functions that take and return
  the state of the world they close over, so every order of calls the source makes is visible.
  A round returns the completed identifiers, the queues and the world, or \<open>Panic\<close> where an
  \<open>expect\<close>, an index or a slice of the source would.

  The theorems: a round keeps the queue order and loses or duplicates no task, never exceeds the
  slots and leaves no slot idle while work waits, and steps every active task exactly once. They
  hold for the round over whole groups that the engine runs. The paired round with a preference
  does panic on one kind of input, which is proved as well.
\<close>

section \<open>Tasks and queues\<close>

datatype step_outcome = Continue | Complete

record 't batch_task =
  tk_id :: u64
  tk_state :: 't

record 't cbatch =
  max_slots :: usize
  next_id :: u64
  waiting :: "'t batch_task list"
  active :: "'t batch_task list"

definition cbatch_new :: "usize \<Rightarrow> 't cbatch" where
  "cbatch_new n = \<lparr>max_slots = max n 1, next_id = 1, waiting = [], active = []\<rparr>"

definition admit :: "'t \<Rightarrow> 't cbatch \<Rightarrow> u64 \<times> 't cbatch" where
  "admit st b =
     (next_id b,
      b\<lparr>next_id := next_generation (next_id b),
        waiting := waiting b @ [\<lparr>tk_id = next_id b, tk_state = st\<rparr>]\<rparr>)"

text \<open>\<open>remove_task\<close>: the position of the first task with the identifier, then \<open>VecDeque::remove\<close>.\<close>

fun remove_task :: "u64 \<Rightarrow> 't batch_task list \<Rightarrow> ('t \<times> 't batch_task list) option" where
  "remove_task i [] = None"
| "remove_task i (t # ts) =
     (if tk_id t = i then Some (tk_state t, ts)
      else map_option (\<lambda>(st, ts'). (st, t # ts')) (remove_task i ts))"

definition cancel :: "u64 \<Rightarrow> 't cbatch \<Rightarrow> 't option \<times> 't cbatch" where
  "cancel i b =
     (case remove_task i (waiting b) of
        Some (st, ws) \<Rightarrow> (Some st, b\<lparr>waiting := ws\<rparr>)
      | None \<Rightarrow>
          (case remove_task i (active b) of
             Some (st, as) \<Rightarrow> (Some st, b\<lparr>active := as\<rparr>)
           | None \<Rightarrow> (None, b)))"

definition has_free_slot :: "'t cbatch \<Rightarrow> bool" where
  "has_free_slot b = (length (active b) + length (waiting b) < max_slots b)"

definition scheduled_len :: "'t cbatch \<Rightarrow> usize" where
  "scheduled_len b = min (max_slots b) (sat_add_us (length (active b)) (length (waiting b)))"

definition is_empty :: "'t cbatch \<Rightarrow> bool" where
  "is_empty b = (active b = [] \<and> waiting b = [])"

fun fill_loop ::
  "usize \<Rightarrow> 't batch_task list \<Rightarrow> 't batch_task list \<Rightarrow> 't batch_task list \<times> 't batch_task list" where
  "fill_loop m [] act = ([], act)"
| "fill_loop m (t # ws) act =
     (if length act < m then fill_loop m ws (act @ [t]) else (t # ws, act))"

definition fill_slots :: "'t cbatch \<Rightarrow> 't cbatch" where
  "fill_slots b =
     (let (ws, act) = fill_loop (max_slots b) (waiting b) (active b)
      in b\<lparr>waiting := ws, active := act\<rparr>)"

section \<open>Rounds\<close>

text \<open>The loop of \<open>run_round\<close>: \<open>n\<close> times pop the front, step it, push it back or complete it.\<close>

fun round_loop ::
  "(u64 \<Rightarrow> 't \<Rightarrow> 'w \<Rightarrow> step_outcome \<times> 't \<times> 'w) \<Rightarrow> nat \<Rightarrow> 't batch_task list \<Rightarrow> u64 list \<Rightarrow> 'w \<Rightarrow>
    (u64 list \<times> 't batch_task list \<times> 'w, unit) outcome" where
  "round_loop step 0 act completed w = Ok (completed, act, w)"
| "round_loop step (Suc n) [] completed w = Panic"
| "round_loop step (Suc n) (t # act) completed w =
     (case step (tk_id t) (tk_state t) w of
        (Continue, st, w') \<Rightarrow> round_loop step n (act @ [t\<lparr>tk_state := st\<rparr>]) completed w'
      | (Complete, st, w') \<Rightarrow> round_loop step n act (completed @ [tk_id t]) w')"

definition run_round ::
  "(u64 \<Rightarrow> 't \<Rightarrow> 'w \<Rightarrow> step_outcome \<times> 't \<times> 'w) \<Rightarrow> 't cbatch \<Rightarrow> 'w \<Rightarrow>
    (u64 list \<times> 't cbatch \<times> 'w, unit) outcome" where
  "run_round step b w =
     (let b0 = fill_slots b in
      bindR (round_loop step (length (active b0)) (active b0) [] w) (\<lambda>(completed, act, w').
        Ok (completed, fill_slots (b0\<lparr>active := act\<rparr>), w')))"

text \<open>\<open>iter_mut().map(key).collect()\<close> and \<open>iter().map(preferred).collect()\<close>.\<close>

fun run_keys ::
  "(u64 \<Rightarrow> 't \<Rightarrow> 'w \<Rightarrow> 'k option \<times> 't \<times> 'w) \<Rightarrow> 't batch_task list \<Rightarrow> 'w \<Rightarrow>
    'k option list \<times> 't batch_task list \<times> 'w" where
  "run_keys key [] w = ([], [], w)"
| "run_keys key (t # ts) w =
     (let (k, st, w1) = key (tk_id t) (tk_state t) w;
          (ks, ts', w2) = run_keys key ts w1
      in (k # ks, t\<lparr>tk_state := st\<rparr> # ts', w2))"

fun run_prefs ::
  "(u64 \<Rightarrow> 't \<Rightarrow> 'w \<Rightarrow> bool \<times> 'w) \<Rightarrow> 't batch_task list \<Rightarrow> 'w \<Rightarrow> bool list \<times> 'w" where
  "run_prefs preferred [] w = ([], w)"
| "run_prefs preferred (t # ts) w =
     (let (v, w1) = preferred (tk_id t) (tk_state t) w;
          (vs, w2) = run_prefs preferred ts w1
      in (v # vs, w2))"

definition round_order :: "bool list \<Rightarrow> nat list" where
  "round_order prefs =
     filter (\<lambda>i. prefs ! i) [0..<length prefs] @ filter (\<lambda>i. \<not> prefs ! i) [0..<length prefs]"

text \<open>The closing loop of a grouped round; a task without outcome panics.\<close>

fun settle ::
  "('t batch_task \<times> step_outcome) option list \<Rightarrow> (u64 list \<times> 't batch_task list, unit) outcome" where
  "settle [] = Ok ([], [])"
| "settle (None # rs) = Panic"
| "settle (Some (t, oc) # rs) =
     bindR (settle rs) (\<lambda>(completed, act).
       case oc of Continue \<Rightarrow> Ok (completed, t # act) | Complete \<Rightarrow> Ok (tk_id t # completed, act))"

subsection \<open>Groups of any size\<close>

text \<open>Taking the tasks of a group out of the task vector; taking one twice panics.\<close>

fun take_tasks ::
  "nat list \<Rightarrow> 't batch_task option list \<Rightarrow>
    (u64 list \<times> 't list \<times> 't batch_task option list, unit) outcome" where
  "take_tasks [] tasks = Ok ([], [], tasks)"
| "take_tasks (i # is) tasks =
     (case tasks ! i of
        None \<Rightarrow> Panic
      | Some t \<Rightarrow>
          bindR (take_tasks is (tasks[i := None])) (\<lambda>(ids, states, tasks').
            Ok (tk_id t # ids, tk_state t # states, tasks')))"

fun step_each ::
  "(u64 \<Rightarrow> 't \<Rightarrow> 'w \<Rightarrow> step_outcome \<times> 't \<times> 'w) \<Rightarrow> u64 list \<Rightarrow> 't list \<Rightarrow> 'w \<Rightarrow>
    step_outcome list \<times> 't list \<times> 'w" where
  "step_each step_one (i # ids) (st # states) w =
     (let (oc, st', w1) = step_one i st w; (ocs, sts, w2) = step_each step_one ids states w1
      in (oc # ocs, st' # sts, w2))"
| "step_each step_one _ states w = ([], states, w)"

text \<open>One group: a single task takes its scalar step, a larger group the group step; a group that
  declines takes scalar steps, a group that reports the wrong number of outcomes is completed.\<close>

definition dispatch_group ::
  "(u64 \<Rightarrow> 't \<Rightarrow> 'w \<Rightarrow> step_outcome \<times> 't \<times> 'w) \<Rightarrow>
    (u64 list \<Rightarrow> 't list \<Rightarrow> 'w \<Rightarrow> step_outcome list option \<times> 't list \<times> 'w) \<Rightarrow>
    u64 list \<Rightarrow> 't list \<Rightarrow> 'w \<Rightarrow> step_outcome list \<times> 't list \<times> 'w" where
  "dispatch_group step_one step_group ids states w =
     (if length states = 1 then step_each step_one ids states w
      else
        case step_group ids states w of
          (Some ocs, states', w') \<Rightarrow>
            (if length ocs = length states' then ocs else replicate (length states') Complete,
             states', w')
        | (None, states', w') \<Rightarrow> step_each step_one ids states' w')"

fun put_results ::
  "nat list \<Rightarrow> u64 list \<Rightarrow> 't list \<Rightarrow> step_outcome list \<Rightarrow>
    ('t batch_task \<times> step_outcome) option list \<Rightarrow> ('t batch_task \<times> step_outcome) option list" where
  "put_results (i # is) (d # ids) (st # states) (oc # ocs) rs =
     put_results is ids states ocs (rs[i := Some (\<lparr>tk_id = d, tk_state = st\<rparr>, oc)])"
| "put_results _ _ _ _ rs = rs"

text \<open>The loop over \<open>order\<close>; the list is the rest of the order, beginning with \<open>left_index\<close>. All of
  its indices come from \<open>0..round_len\<close>, so no index is out of range.\<close>

definition group_of ::
  "'k option list \<Rightarrow> ('t batch_task \<times> step_outcome) option list \<Rightarrow> nat \<Rightarrow> nat list \<Rightarrow> nat list" where
  "group_of keys results left rest =
     (case keys ! left of
        Some k \<Rightarrow> filter (\<lambda>i. results ! i = None \<and> keys ! i = Some k) (left # rest)
      | None \<Rightarrow> [left])"

fun group_loop ::
  "(u64 \<Rightarrow> 't \<Rightarrow> 'w \<Rightarrow> step_outcome \<times> 't \<times> 'w) \<Rightarrow>
    (u64 list \<Rightarrow> 't list \<Rightarrow> 'w \<Rightarrow> step_outcome list option \<times> 't list \<times> 'w) \<Rightarrow>
    'k option list \<Rightarrow> nat list \<Rightarrow> 't batch_task option list \<Rightarrow>
    ('t batch_task \<times> step_outcome) option list \<Rightarrow> 'w \<Rightarrow>
    (('t batch_task \<times> step_outcome) option list \<times> 'w, unit) outcome" where
  "group_loop step_one step_group keys [] tasks results w = Ok (results, w)"
| "group_loop step_one step_group keys (left # rest) tasks results w =
     (if results ! left \<noteq> None then group_loop step_one step_group keys rest tasks results w
      else
        let g = group_of keys results left rest in
        bindR (take_tasks g tasks) (\<lambda>(ids, states, tasks').
          let (ocs, states', w') = dispatch_group step_one step_group ids states w
          in group_loop step_one step_group keys rest tasks'
               (put_results g ids states' ocs results) w'))"

definition run_prioritized_grouped_round_n ::
  "(u64 \<Rightarrow> 't \<Rightarrow> 'w \<Rightarrow> bool \<times> 'w) \<Rightarrow> (u64 \<Rightarrow> 't \<Rightarrow> 'w \<Rightarrow> 'k option \<times> 't \<times> 'w) \<Rightarrow>
    (u64 \<Rightarrow> 't \<Rightarrow> 'w \<Rightarrow> step_outcome \<times> 't \<times> 'w) \<Rightarrow>
    (u64 list \<Rightarrow> 't list \<Rightarrow> 'w \<Rightarrow> step_outcome list option \<times> 't list \<times> 'w) \<Rightarrow>
    't cbatch \<Rightarrow> 'w \<Rightarrow> (u64 list \<times> 't cbatch \<times> 'w, unit) outcome" where
  "run_prioritized_grouped_round_n preferred key step_one step_group b w =
     (let b0 = fill_slots b;
          (keys, tasks, w1) = run_keys key (active b0) w;
          (prefs, w2) = run_prefs preferred tasks w1
      in bindR (group_loop step_one step_group keys (round_order prefs) (map Some tasks)
                  (replicate (length tasks) None) w2) (\<lambda>(results, w3).
         bindR (settle results) (\<lambda>(completed, act).
           Ok (completed, fill_slots (b0\<lparr>active := act\<rparr>), w3))))"

subsection \<open>Pairs\<close>

text \<open>
  The loop of \<open>run_prioritized_grouped_round\<close>. \<open>tasks.split_at_mut(right)\<close> gives the tasks before
  \<open>right\<close> and those from it on; \<open>left[left_index]\<close> panics unless the left index is before the
  right one.
\<close>

definition partner_of ::
  "'k option list \<Rightarrow> step_outcome option list \<Rightarrow> nat \<Rightarrow> nat list \<Rightarrow> nat option" where
  "partner_of keys outcomes left rest =
     (case keys ! left of
        None \<Rightarrow> None
      | Some k \<Rightarrow> List.find (\<lambda>r. outcomes ! r = None \<and> keys ! r = Some k) rest)"

definition step_at ::
  "(u64 \<Rightarrow> 't \<Rightarrow> 'w \<Rightarrow> step_outcome \<times> 't \<times> 'w) \<Rightarrow> nat \<Rightarrow>
    't batch_task list \<times> step_outcome option list \<times> 'w \<Rightarrow>
    't batch_task list \<times> step_outcome option list \<times> 'w" where
  "step_at step_one i s =
     (let (tasks, outcomes, w) = s;
          (oc, st, w') = step_one (tk_id (tasks ! i)) (tk_state (tasks ! i)) w
      in (tasks[i := (tasks ! i)\<lparr>tk_state := st\<rparr>], outcomes[i := Some oc], w'))"

fun pair_loop ::
  "(u64 \<Rightarrow> 't \<Rightarrow> 'w \<Rightarrow> step_outcome \<times> 't \<times> 'w) \<Rightarrow>
    (u64 \<Rightarrow> 't \<Rightarrow> u64 \<Rightarrow> 't \<Rightarrow> 'w \<Rightarrow> (step_outcome \<times> step_outcome) option \<times> 't \<times> 't \<times> 'w) \<Rightarrow>
    'k option list \<Rightarrow> nat list \<Rightarrow> 't batch_task list \<times> step_outcome option list \<times> 'w \<Rightarrow>
    ('t batch_task list \<times> step_outcome option list \<times> 'w, unit) outcome" where
  "pair_loop step_one step_pair keys [] s = Ok s"
| "pair_loop step_one step_pair keys (left # rest) (tasks, outcomes, w) =
     (if outcomes ! left \<noteq> None then pair_loop step_one step_pair keys rest (tasks, outcomes, w)
      else
        case partner_of keys outcomes left rest of
          None \<Rightarrow> pair_loop step_one step_pair keys rest (step_at step_one left (tasks, outcomes, w))
        | Some right \<Rightarrow>
            if right \<le> left then Panic
            else
              (case step_pair (tk_id (tasks ! left)) (tk_state (tasks ! left))
                      (tk_id (tasks ! right)) (tk_state (tasks ! right)) w of
                 (oc, lst, rst, w') \<Rightarrow>
                   let tasks' = tasks[left := (tasks ! left)\<lparr>tk_state := lst\<rparr>,
                                      right := (tasks ! right)\<lparr>tk_state := rst\<rparr>]
                   in case oc of
                        Some (lo, ro) \<Rightarrow>
                          pair_loop step_one step_pair keys rest
                            (tasks', outcomes[left := Some lo, right := Some ro], w')
                      | None \<Rightarrow>
                          pair_loop step_one step_pair keys rest
                            (step_at step_one right (step_at step_one left (tasks', outcomes, w')))))"

definition run_prioritized_grouped_round ::
  "(u64 \<Rightarrow> 't \<Rightarrow> 'w \<Rightarrow> bool \<times> 'w) \<Rightarrow> (u64 \<Rightarrow> 't \<Rightarrow> 'w \<Rightarrow> 'k option \<times> 't \<times> 'w) \<Rightarrow>
    (u64 \<Rightarrow> 't \<Rightarrow> 'w \<Rightarrow> step_outcome \<times> 't \<times> 'w) \<Rightarrow>
    (u64 \<Rightarrow> 't \<Rightarrow> u64 \<Rightarrow> 't \<Rightarrow> 'w \<Rightarrow> (step_outcome \<times> step_outcome) option \<times> 't \<times> 't \<times> 'w) \<Rightarrow>
    't cbatch \<Rightarrow> 'w \<Rightarrow> (u64 list \<times> 't cbatch \<times> 'w, unit) outcome" where
  "run_prioritized_grouped_round preferred key step_one step_pair b w =
     (let b0 = fill_slots b;
          (keys, tasks, w1) = run_keys key (active b0) w;
          (prefs, w2) = run_prefs preferred tasks w1
      in bindR (pair_loop step_one step_pair keys (round_order prefs)
                  (tasks, replicate (length tasks) None, w2)) (\<lambda>(tasks', outcomes, w3).
         bindR (settle (map (\<lambda>(t, oc). map_option (Pair t) oc) (zip tasks' outcomes))) (\<lambda>(completed, act).
           Ok (completed, fill_slots (b0\<lparr>active := act\<rparr>), w3))))"

definition run_grouped_round ::
  "(u64 \<Rightarrow> 't \<Rightarrow> 'w \<Rightarrow> 'k option \<times> 't \<times> 'w) \<Rightarrow>
    (u64 \<Rightarrow> 't \<Rightarrow> 'w \<Rightarrow> step_outcome \<times> 't \<times> 'w) \<Rightarrow>
    (u64 \<Rightarrow> 't \<Rightarrow> u64 \<Rightarrow> 't \<Rightarrow> 'w \<Rightarrow> (step_outcome \<times> step_outcome) option \<times> 't \<times> 't \<times> 'w) \<Rightarrow>
    't cbatch \<Rightarrow> 'w \<Rightarrow> (u64 list \<times> 't cbatch \<times> 'w, unit) outcome" where
  "run_grouped_round = run_prioritized_grouped_round (\<lambda>_ _ w. (False, w))"

section \<open>Filling the slots\<close>

definition task_ids :: "'t cbatch \<Rightarrow> u64 list" where
  "task_ids b = map tk_id (active b @ waiting b)"

lemma fill_loop_eq:
  "fill_loop m ws act = (drop (m - length act) ws, act @ take (m - length act) ws)"
proof (induction ws arbitrary: act)
  case Nil
  then show ?case by simp
next
  case (Cons t ws)
  show ?case
  proof (cases "length act < m")
    case True
    then have "m - length act = Suc (m - length (act @ [t]))" by simp
    then show ?thesis using True Cons.IH [of "act @ [t]"] by simp
  qed simp
qed

lemma fill_slots_fields [simp]:
  "max_slots (fill_slots b) = max_slots b" "next_id (fill_slots b) = next_id b"
  "waiting (fill_slots b) = drop (max_slots b - length (active b)) (waiting b)"
  "active (fill_slots b) = active b @ take (max_slots b - length (active b)) (waiting b)"
  by (simp_all add: fill_slots_def fill_loop_eq)

lemma fill_slots_queue: "active (fill_slots b) @ waiting (fill_slots b) = active b @ waiting b"
  by simp

lemma fill_slots_bound:
  "length (active b) \<le> max_slots b \<Longrightarrow>
    length (active (fill_slots b)) \<le> max_slots b \<and>
    (waiting (fill_slots b) \<noteq> [] \<longrightarrow> length (active (fill_slots b)) = max_slots b)"
  by auto

section \<open>Settling a round\<close>

text \<open>A vector of outcomes, one per identifier, in queue order.\<close>

definition answers :: "u64 list \<Rightarrow> ('t batch_task \<times> step_outcome) option list \<Rightarrow> bool" where
  "answers ids rs \<longleftrightarrow> length rs = length ids \<and>
     (\<forall>i < length ids. \<exists>t oc. rs ! i = Some (t, oc) \<and> tk_id t = ids ! i)"

lemma answers_Nil [simp]: "answers ids [] \<longleftrightarrow> ids = []"
  by (auto simp: answers_def)

lemma answers_Cons:
  "answers ids (r # rs) \<longleftrightarrow> (\<exists>t oc ids'. ids = tk_id t # ids' \<and> r = Some (t, oc) \<and> answers ids' rs)"
  by (cases ids) (auto simp: answers_def All_less_Suc2)

text \<open>What the closing loop makes of the answers: the completed identifiers and the tasks that go on,
  both in queue order.\<close>

definition completed_of :: "('t batch_task \<times> step_outcome) list \<Rightarrow> u64 list" where
  "completed_of rs = map (\<lambda>(t, _). tk_id t) (filter (\<lambda>(_, oc). oc = Complete) rs)"

definition continuing_of :: "('t batch_task \<times> step_outcome) list \<Rightarrow> 't batch_task list" where
  "continuing_of rs = map fst (filter (\<lambda>(_, oc). oc = Continue) rs)"

lemma settle_Some: "settle (map Some rs) = Ok (completed_of rs, continuing_of rs)"
proof (induction rs)
  case (Cons r rs)
  obtain t oc where "r = (t, oc)" by (cases r)
  with Cons show ?case by (cases oc) (simp_all add: completed_of_def continuing_of_def)
qed (simp add: completed_of_def continuing_of_def)

lemma answers_Some: "answers ids rs \<longleftrightarrow> (\<exists>qs. rs = map Some qs \<and> map (\<lambda>(t, _). tk_id t) qs = ids)"
proof
  assume a: "answers ids rs"
  then have "\<forall>r \<in> set rs. r \<noteq> None" by (auto simp: answers_def in_set_conv_nth) (metis option.distinct(1))
  then have rs: "rs = map Some (map the rs)" by (simp add: map_idI)
  moreover have "map (\<lambda>(t, _). tk_id t) (map the rs) = ids"
  proof (rule nth_equalityI)
    show "length (map (\<lambda>(t, _). tk_id t) (map the rs)) = length ids" using a by (simp add: answers_def)
    fix i assume "i < length (map (\<lambda>(t, _). tk_id t) (map the rs))"
    then have i: "i < length rs" by simp
    then obtain t oc where "rs ! i = Some (t, oc)" "tk_id t = ids ! i" using a by (auto simp: answers_def)
    with i show "map (\<lambda>(t, _). tk_id t) (map the rs) ! i = ids ! i" by simp
  qed
  ultimately show "\<exists>qs. rs = map Some qs \<and> map (\<lambda>(t, _). tk_id t) qs = ids" by blast
next
  show "\<exists>qs. rs = map Some qs \<and> map (\<lambda>(t, _). tk_id t) qs = ids \<Longrightarrow> answers ids rs"
    by (auto simp: answers_def split: prod.split)
qed

lemma completed_of_ids:
  assumes "distinct (map (\<lambda>(t, _). tk_id t) rs)"
  shows "completed_of rs = filter (\<lambda>i. i \<in> set (completed_of rs)) (map (\<lambda>(t, _). tk_id t) rs) \<and>
    map tk_id (continuing_of rs) = filter (\<lambda>i. i \<notin> set (completed_of rs)) (map (\<lambda>(t, _). tk_id t) rs)"
  using assms
proof (induction rs)
  case (Cons r rs)
  obtain t oc where r: "r = (t, oc)" by (cases r)
  from Cons.prems r have d: "tk_id t \<notin> set (map (\<lambda>(t, _). tk_id t) rs)" "distinct (map (\<lambda>(t, _). tk_id t) rs)" by auto
  have sub: "set (completed_of rs) \<subseteq> set (map (\<lambda>(t, _). tk_id t) rs)" by (auto simp: completed_of_def)
  have cons: "completed_of (r # rs) = (if oc = Complete then tk_id t # completed_of rs else completed_of rs)"
    "continuing_of (r # rs) = (if oc = Continue then t # continuing_of rs else continuing_of rs)"
    by (simp_all add: r completed_of_def continuing_of_def)
  have f: "filter (\<lambda>i. i = tk_id t \<or> i \<in> set (completed_of rs)) (map (\<lambda>(t, _). tk_id t) rs) =
        filter (\<lambda>i. i \<in> set (completed_of rs)) (map (\<lambda>(t, _). tk_id t) rs)"
      "filter (\<lambda>i. i \<noteq> tk_id t \<and> i \<notin> set (completed_of rs)) (map (\<lambda>(t, _). tk_id t) rs) =
        filter (\<lambda>i. i \<notin> set (completed_of rs)) (map (\<lambda>(t, _). tk_id t) rs)"
    using d(1) by (auto intro: filter_cong)
  show ?case
    unfolding cons using Cons.IH [OF d(2)] sub d(1) r f by (cases oc) auto
qed (simp_all add: completed_of_def continuing_of_def)

lemma settle_answers:
  assumes "answers ids rs" "distinct ids"
  shows "\<exists>completed act. settle rs = Ok (completed, act) \<and> set completed \<subseteq> set ids \<and>
      completed = filter (\<lambda>i. i \<in> set completed) ids \<and>
      map tk_id act = filter (\<lambda>i. i \<notin> set completed) ids"
proof -
  from assms(1) obtain qs where qs: "rs = map Some qs" "map (\<lambda>(t, _). tk_id t) qs = ids"
    by (auto simp: answers_Some)
  have d: "distinct (map (\<lambda>(t, _). tk_id t) qs)" using assms(2) qs(2) by simp
  have "set (completed_of qs) \<subseteq> set ids" unfolding qs(2) [symmetric] by (auto simp: completed_of_def)
  moreover have "settle rs = Ok (completed_of qs, continuing_of qs)" using qs(1) settle_Some by simp
  ultimately show ?thesis using completed_of_ids [OF d] qs(2) by auto
qed

section \<open>Running a round over groups\<close>

lemma run_keys_shape:
  "run_keys key ts w = (ks, ts', w') \<Longrightarrow> length ks = length ts \<and> map tk_id ts' = map tk_id ts"
  by (induction ts arbitrary: ks ts' w w') (auto split: prod.splits)

lemma run_prefs_shape: "run_prefs preferred ts w = (vs, w') \<Longrightarrow> length vs = length ts"
  by (induction ts arbitrary: vs w w') (auto split: prod.splits)

lemma round_order_perm: "distinct (round_order prefs)" "set (round_order prefs) = {0..<length prefs}"
  by (auto simp: round_order_def)

text \<open>Tasks not yet answered are still in the task vector.\<close>

definition round_inv ::
  "u64 list \<Rightarrow> 't batch_task option list \<Rightarrow> ('t batch_task \<times> step_outcome) option list \<Rightarrow> bool" where
  "round_inv ids tasks rs \<longleftrightarrow> length tasks = length ids \<and> length rs = length ids \<and>
     (\<forall>i < length ids. (rs ! i = None \<longrightarrow> (\<exists>t. tasks ! i = Some t \<and> tk_id t = ids ! i)) \<and>
        (\<forall>t oc. rs ! i = Some (t, oc) \<longrightarrow> tk_id t = ids ! i))"

lemma take_tasks_Ok:
  "distinct g \<Longrightarrow> \<forall>i \<in> set g. i < length tasks \<and> (\<exists>t. tasks ! i = Some t \<and> tk_id t = ids ! i) \<Longrightarrow>
    \<exists>states tasks'. take_tasks g tasks = Ok (map ((!) ids) g, states, tasks') \<and>
      length states = length g \<and> length tasks' = length tasks \<and>
      (\<forall>j. j \<notin> set g \<longrightarrow> tasks' ! j = tasks ! j)"
proof (induction g arbitrary: tasks)
  case Nil
  then show ?case by simp
next
  case (Cons i g)
  then obtain t where t: "i < length tasks" "tasks ! i = Some t" "tk_id t = ids ! i" by auto
  have "\<forall>j \<in> set g. j < length (tasks[i := None]) \<and> (\<exists>t. tasks[i := None] ! j = Some t \<and> tk_id t = ids ! j)"
    using Cons.prems by (auto simp: nth_list_update)
  with Cons.IH [of "tasks[i := None]"] Cons.prems(1) obtain states tasks' where
    "take_tasks g (tasks[i := None]) = Ok (map ((!) ids) g, states, tasks')"
    "length states = length g" "length tasks' = length tasks"
    "\<forall>j. j \<notin> set g \<longrightarrow> tasks' ! j = tasks[i := None] ! j" by auto
  with t show ?case by auto
qed

lemma put_results_nth:
  "distinct g \<Longrightarrow> length ids = length g \<Longrightarrow> length states = length g \<Longrightarrow> length ocs = length g \<Longrightarrow>
    \<forall>i \<in> set g. i < length rs \<Longrightarrow>
    length (put_results g ids states ocs rs) = length rs \<and>
    (\<forall>j. j \<notin> set g \<longrightarrow> put_results g ids states ocs rs ! j = rs ! j) \<and>
    (\<forall>k < length g. put_results g ids states ocs rs ! (g ! k) = Some (\<lparr>tk_id = ids ! k, tk_state = states ! k\<rparr>, ocs ! k))"
proof (induction g arbitrary: ids states ocs rs)
  case Nil
  then show ?case by simp
next
  case (Cons i g)
  then obtain d ids' st states' oc ocs' where
    e: "ids = d # ids'" "states = st # states'" "ocs = oc # ocs'" by (auto simp: length_Suc_conv)
  let ?rs = "rs[i := Some (\<lparr>tk_id = d, tk_state = st\<rparr>, oc)]"
  have IH: "length (put_results g ids' states' ocs' ?rs) = length ?rs \<and>
    (\<forall>j. j \<notin> set g \<longrightarrow> put_results g ids' states' ocs' ?rs ! j = ?rs ! j) \<and>
    (\<forall>k < length g. put_results g ids' states' ocs' ?rs ! (g ! k) = Some (\<lparr>tk_id = ids' ! k, tk_state = states' ! k\<rparr>, ocs' ! k))"
    by (rule Cons.IH) (use Cons.prems e in auto)
  show ?case
    using IH Cons.prems e by (auto simp: All_less_Suc2)
qed

lemma step_each_lengths:
  "length ids = length states \<Longrightarrow> step_each step_one ids states w = (ocs, states', w') \<Longrightarrow>
    length ocs = length states \<and> length states' = length states"
  by (induction step_one ids states w arbitrary: ocs states' w' rule: step_each.induct)
    (auto split: prod.splits)

text \<open>A slice callback can change the elements of the slice but not its length.\<close>

definition slice_callback ::
  "(u64 list \<Rightarrow> 't list \<Rightarrow> 'w \<Rightarrow> step_outcome list option \<times> 't list \<times> 'w) \<Rightarrow> bool" where
  "slice_callback f \<longleftrightarrow> (\<forall>ids states w. length (fst (snd (f ids states w))) = length states)"

lemma dispatch_group_lengths:
  assumes "slice_callback step_group" "length ids = length states"
    "dispatch_group step_one step_group ids states w = (ocs, states', w')"
  shows "length ocs = length states \<and> length states' = length states"
proof (cases "length states = 1")
  case True
  with step_each_lengths [OF assms(2), of step_one w ocs states' w'] assms(3) show ?thesis
    by (simp add: dispatch_group_def)
next
  case False
  obtain oc sts v where g: "step_group ids states w = (oc, sts, v)" by (cases "step_group ids states w") auto
  have "length sts = length states" using assms(1) g by (auto simp: slice_callback_def dest!: spec [of _ ids] spec [of _ states] spec [of _ w])
  with g False assms(2,3) step_each_lengths [of ids sts step_one v ocs states' w'] show ?thesis
    by (cases oc) (auto simp: dispatch_group_def split: if_splits)
qed

text \<open>
  An account of the answers given, read off the world: a scalar step adds its answer (the task with
  its new state, and the outcome), a group step that is not declined adds the answers of the members
  of the group, where a wrong number of outcomes counts as completion of all; a declined one and the
  other callbacks add nothing. An account may keep any view \<open>g\<close> of the answers. The theorems hold for
  every such account.
\<close>

definition group_answers :: "u64 list \<Rightarrow> 't list \<Rightarrow> step_outcome list \<Rightarrow> ('t batch_task \<times> step_outcome) list" where
  "group_answers ids states ocs =
     zip (map2 (\<lambda>i st. \<lparr>tk_id = i, tk_state = st\<rparr>) ids states)
       (if length ocs = length states then ocs else replicate (length states) Complete)"

definition step_account ::
  "('t batch_task \<times> step_outcome \<Rightarrow> 'a) \<Rightarrow> ('w \<Rightarrow> 'a multiset) \<Rightarrow>
    (u64 \<Rightarrow> 't \<Rightarrow> 'w \<Rightarrow> step_outcome \<times> 't \<times> 'w) \<Rightarrow>
    (u64 list \<Rightarrow> 't list \<Rightarrow> 'w \<Rightarrow> step_outcome list option \<times> 't list \<times> 'w) \<Rightarrow> bool" where
  "step_account g steps step_one step_group \<longleftrightarrow>
     (\<forall>i st w oc st' w'. step_one i st w = (oc, st', w') \<longrightarrow>
        steps w' = add_mset (g (\<lparr>tk_id = i, tk_state = st'\<rparr>, oc)) (steps w)) \<and>
     (\<forall>ids states w r states' w'. step_group ids states w = (r, states', w') \<longrightarrow>
        steps w' = steps w + (case r of Some ocs \<Rightarrow> mset (map g (group_answers ids states' ocs)) | None \<Rightarrow> {#}))"

definition quiet ::
  "('w \<Rightarrow> 'a multiset) \<Rightarrow> (u64 \<Rightarrow> 't \<Rightarrow> 'w \<Rightarrow> bool \<times> 'w) \<Rightarrow>
    (u64 \<Rightarrow> 't \<Rightarrow> 'w \<Rightarrow> 'k option \<times> 't \<times> 'w) \<Rightarrow> bool" where
  "quiet steps preferred key \<longleftrightarrow>
     (\<forall>i st w. steps (snd (preferred i st w)) = steps w) \<and>
     (\<forall>i st w. steps (snd (snd (key i st w))) = steps w)"

lemma step_each_account:
  "\<forall>i st w oc st' w'. step_one i st w = (oc, st', w') \<longrightarrow>
      steps w' = add_mset (g (\<lparr>tk_id = i, tk_state = st'\<rparr>, oc)) (steps w) \<Longrightarrow>
    length ids = length states \<Longrightarrow> step_each step_one ids states w = (ocs, states', w') \<Longrightarrow>
    steps w' = steps w + mset (map g (group_answers ids states' ocs))"
proof (induction step_one ids states w arbitrary: ocs states' w' rule: step_each.induct)
  case (1 step_one i ids st states w)
  obtain oc st' w1 where o: "step_one i st w = (oc, st', w1)" by (metis prod.exhaust)
  obtain ocs1 sts1 w2 where e: "step_each step_one ids states w1 = (ocs1, sts1, w2)" by (metis prod.exhaust)
  from "1.prems"(2) have len: "length ids = length states" by simp
  from "1.IH" [OF o [symmetric] refl refl "1.prems"(1) len e]
  have ih: "steps w2 = steps w1 + mset (map g (group_answers ids sts1 ocs1))" .
  have l: "length ocs1 = length sts1" using step_each_lengths [OF len e] by simp
  have "ocs = oc # ocs1" "states' = st' # sts1" "w' = w2" using "1.prems"(3) o e by simp_all
  moreover have "steps w1 = add_mset (g (\<lparr>tk_id = i, tk_state = st'\<rparr>, oc)) (steps w)" using "1.prems"(1) o by blast
  ultimately show ?case using ih l by (simp add: group_answers_def)
qed (auto simp: group_answers_def)

lemma dispatch_group_account:
  assumes "step_account g steps step_one step_group" "slice_callback step_group" "length ids = length states"
    "dispatch_group step_one step_group ids states w = (ocs, states', w')"
  shows "steps w' = steps w + mset (map g (group_answers ids states' ocs))"
proof -
  have one: "\<forall>i st w oc st' w'. step_one i st w = (oc, st', w') \<longrightarrow>
      steps w' = add_mset (g (\<lparr>tk_id = i, tk_state = st'\<rparr>, oc)) (steps w)"
    using assms(1) by (simp add: step_account_def)
  obtain r sts v where d: "step_group ids states w = (r, sts, v)" by (metis prod.exhaust)
  have grp: "steps v = steps w + (case r of Some ocs \<Rightarrow> mset (map g (group_answers ids sts ocs)) | None \<Rightarrow> {#})"
    using assms(1) d by (auto simp: step_account_def)
  have len: "length ids = length sts"
    using assms(2,3) d by (auto simp: slice_callback_def dest!: spec [of _ ids] spec [of _ states] spec [of _ w])
  show ?thesis
  proof (cases "length states = 1")
    case True
    then have "step_each step_one ids states w = (ocs, states', w')" using assms(4) by (simp add: dispatch_group_def)
    from step_each_account [OF one assms(3) this] show ?thesis .
  next
    case False
    show ?thesis
    proof (cases r)
      case None
      then have "step_each step_one ids sts v = (ocs, states', w')" using assms(4) False d by (simp add: dispatch_group_def)
      from step_each_account [OF one len this] grp None show ?thesis by simp
    next
      case (Some ocs0)
      then have "ocs = (if length ocs0 = length sts then ocs0 else replicate (length sts) Complete)"
        "states' = sts" "w' = v"
        using assms(4) False d by (auto simp: dispatch_group_def)
      with grp Some show ?thesis by (simp add: group_answers_def)
    qed
  qed
qed

definition undone :: "'r option list \<Rightarrow> nat list" where
  "undone rs = filter (\<lambda>i. rs ! i = None) [0..<length rs]"

lemma undone_split:
  assumes "distinct g" "\<forall>i \<in> set g. i < length rs \<and> rs ! i = None" "length rs' = length rs"
    "\<forall>j. j \<notin> set g \<longrightarrow> rs' ! j = rs ! j" "\<forall>i \<in> set g. rs' ! i \<noteq> None"
  shows "mset (undone rs) = mset (undone rs') + mset g"
proof -
  have g: "mset g = mset (filter (\<lambda>i. i \<in> set g) [0..<length rs])"
    using assms(1,2) by (subst set_eq_iff_mset_eq_distinct [symmetric]) auto
  have u: "undone rs' = filter (\<lambda>i. i \<notin> set g) (undone rs)"
    unfolding undone_def assms(3) filter_filter
  proof (rule filter_cong [OF refl])
    fix x show "(rs' ! x = None) = (rs ! x = None \<and> x \<notin> set g)"
      using assms(4,5) by (cases "x \<in> set g") auto
  qed
  have g': "filter (\<lambda>i. i \<in> set g) [0..<length rs] = filter (\<lambda>i. i \<in> set g) (undone rs)"
    unfolding undone_def filter_filter by (rule filter_cong) (use assms(2) in auto)
  show ?thesis unfolding g g' u by (simp add: multiset_partition [symmetric])
qed

text \<open>One group: it is answered, nothing else changes, and its members are stepped once.\<close>

lemma group_step:
  assumes inv: "round_inv ids tasks rs" and g: "distinct g" "\<forall>i \<in> set g. i < length ids \<and> rs ! i = None"
    and slice: "slice_callback step_group"
  shows "\<exists>states tasks' ocs states' w'.
    take_tasks g tasks = Ok (map ((!) ids) g, states, tasks') \<and>
    dispatch_group step_one step_group (map ((!) ids) g) states w = (ocs, states', w') \<and>
    (let rs' = put_results g (map ((!) ids) g) states' ocs rs in
     round_inv ids tasks' rs' \<and> (\<forall>j. j \<notin> set g \<longrightarrow> rs' ! j = rs ! j) \<and> (\<forall>i \<in> set g. rs' ! i \<noteq> None) \<and>
     mset (undone rs) = mset (undone rs') + mset g \<and>
     (step_account f steps step_one step_group \<longrightarrow> steps w' = steps w + mset (map (\<lambda>i. f (the (rs' ! i))) g)))"
proof -
  have "\<forall>i \<in> set g. i < length tasks \<and> (\<exists>t. tasks ! i = Some t \<and> tk_id t = ids ! i)"
    using inv g(2) by (auto simp: round_inv_def)
  from take_tasks_Ok [OF g(1) this] obtain states tasks' where
    t: "take_tasks g tasks = Ok (map ((!) ids) g, states, tasks')" "length states = length g"
      "length tasks' = length tasks" "\<forall>j. j \<notin> set g \<longrightarrow> tasks' ! j = tasks ! j" by blast
  obtain ocs states' w' where
    d: "dispatch_group step_one step_group (map ((!) ids) g) states w = (ocs, states', w')"
    by (cases "dispatch_group step_one step_group (map ((!) ids) g) states w") auto
  have len: "length ocs = length g" "length states' = length g"
    using dispatch_group_lengths [OF slice _ d] t(2) by auto
  let ?rs = "put_results g (map ((!) ids) g) states' ocs rs"
  have lrs: "length rs = length ids" using inv by (simp add: round_inv_def)
  have p: "length ?rs = length rs" "\<forall>j. j \<notin> set g \<longrightarrow> ?rs ! j = rs ! j"
    "\<forall>k < length g. ?rs ! (g ! k) = Some (\<lparr>tk_id = ids ! (g ! k), tk_state = states' ! k\<rparr>, ocs ! k)"
    using put_results_nth [OF g(1) _ len(2,1), of "map ((!) ids) g" rs] g(2) lrs by auto
  have some: "\<exists>t oc. ?rs ! i = Some (t, oc) \<and> tk_id t = ids ! i" if "i \<in> set g" for i
    using p(3) that by (auto simp: in_set_conv_nth)
  have inv': "round_inv ids tasks' ?rs"
    unfolding round_inv_def
  proof (intro conjI allI impI)
    fix i assume i: "i < length ids"
    show "\<exists>t. tasks' ! i = Some t \<and> tk_id t = ids ! i" if "?rs ! i = None"
      using that i some [of i] p(2) t(4) inv by (cases "i \<in> set g") (auto simp: round_inv_def)
    show "tk_id t = ids ! i" if "?rs ! i = Some (t, oc)" for t oc
      using that i some [of i] p(2) inv by (cases "i \<in> set g") (auto simp: round_inv_def)
  qed (use t(3) p(1) lrs inv in \<open>auto simp: round_inv_def\<close>)
  have none: "\<forall>i \<in> set g. ?rs ! i \<noteq> None" using some by fastforce
  have und: "mset (undone rs) = mset (undone ?rs) + mset g"
    by (rule undone_split) (use g lrs p none in auto)
  have "steps w' = steps w + mset (map (\<lambda>i. f (the (?rs ! i))) g)" if "step_account f steps step_one step_group"
  proof -
    have "map (\<lambda>i. the (?rs ! i)) g = group_answers (map ((!) ids) g) states' ocs"
      by (rule nth_equalityI) (use len p(3) in \<open>simp_all add: group_answers_def\<close>)
    then have "map f (map (\<lambda>i. the (?rs ! i)) g) = map f (group_answers (map ((!) ids) g) states' ocs)" by (rule arg_cong)
    then have "map (\<lambda>i. f (the (?rs ! i))) g = map f (group_answers (map ((!) ids) g) states' ocs)"
      by (simp only: list.map_comp comp_def)
    moreover have "steps w' = steps w + mset (map f (group_answers (map ((!) ids) g) states' ocs))"
      by (rule dispatch_group_account [OF that slice _ d]) (simp add: t(2))
    ultimately show ?thesis by simp
  qed
  with t(1) d inv' p(2) none und show ?thesis by (auto simp: Let_def)
qed

lemma group_of_props:
  assumes "rs ! left = None" "distinct (left # rest)"
  shows "distinct (group_of keys rs left rest)" "left \<in> set (group_of keys rs left rest)"
    "set (group_of keys rs left rest) \<subseteq> {i \<in> set (left # rest). rs ! i = None}"
  using assms by (auto simp: group_of_def split: option.splits)

lemma group_loop_law:
  "round_inv ids tasks rs \<Longrightarrow> distinct order \<Longrightarrow> set order \<subseteq> {0..<length ids} \<Longrightarrow> slice_callback step_group \<Longrightarrow>
    \<exists>tasks' rs' w'. group_loop step_one step_group keys order tasks rs w = Ok (rs', w') \<and>
      round_inv ids tasks' rs' \<and> (\<forall>i. rs ! i \<noteq> None \<longrightarrow> rs' ! i = rs ! i) \<and> (\<forall>i \<in> set order. rs' ! i \<noteq> None) \<and>
      (step_account f steps step_one step_group \<longrightarrow>
        steps w' + mset (map (\<lambda>i. f (the (rs' ! i))) (undone rs')) =
        steps w + mset (map (\<lambda>i. f (the (rs' ! i))) (undone rs)))"
proof (induction order arbitrary: tasks rs w)
  case Nil
  then show ?case by auto
next
  case (Cons left rest)
  show ?case
  proof (cases "rs ! left = None")
    case False
    with Cons.IH [OF Cons.prems(1) _ _ Cons.prems(4), of w] Cons.prems(2,3) show ?thesis by fastforce
  next
    case True
    let ?g = "group_of keys rs left rest"
    note gp = group_of_props [OF True Cons.prems(2), of keys]
    have "\<forall>i \<in> set ?g. i < length ids \<and> rs ! i = None" using gp(3) Cons.prems(3) by fastforce
    from group_step [OF Cons.prems(1) gp(1) this Cons.prems(4), of step_one w f steps]
    obtain states tasks1 ocs states' w1 where
      s: "take_tasks ?g tasks = Ok (map ((!) ids) ?g, states, tasks1)"
        "dispatch_group step_one step_group (map ((!) ids) ?g) states w = (ocs, states', w1)"
      and r: "let rs' = put_results ?g (map ((!) ids) ?g) states' ocs rs in
         round_inv ids tasks1 rs' \<and> (\<forall>j. j \<notin> set ?g \<longrightarrow> rs' ! j = rs ! j) \<and> (\<forall>i \<in> set ?g. rs' ! i \<noteq> None) \<and>
         mset (undone rs) = mset (undone rs') + mset ?g \<and>
         (step_account f steps step_one step_group \<longrightarrow> steps w1 = steps w + mset (map (\<lambda>i. f (the (rs' ! i))) ?g))"
      by blast
    define rs1 where "rs1 = put_results ?g (map ((!) ids) ?g) states' ocs rs"
    have r1: "round_inv ids tasks1 rs1" "\<forall>j. j \<notin> set ?g \<longrightarrow> rs1 ! j = rs ! j" "\<forall>i \<in> set ?g. rs1 ! i \<noteq> None"
      "mset (undone rs) = mset (undone rs1) + mset ?g"
      "step_account f steps step_one step_group \<longrightarrow> steps w1 = steps w + mset (map (\<lambda>i. f (the (rs1 ! i))) ?g)"
      using r by (auto simp: Let_def rs1_def)
    have eq: "group_loop step_one step_group keys (left # rest) tasks rs w =
        group_loop step_one step_group keys rest tasks1 rs1 w1"
      using True s by (simp add: Let_def rs1_def)
    from Cons.IH [OF r1(1) _ _ Cons.prems(4), of w1] Cons.prems(2,3) obtain tasks' rs' w' where
      l: "group_loop step_one step_group keys rest tasks1 rs1 w1 = Ok (rs', w')" "round_inv ids tasks' rs'"
        "\<forall>i. rs1 ! i \<noteq> None \<longrightarrow> rs' ! i = rs1 ! i" "\<forall>i \<in> set rest. rs' ! i \<noteq> None"
        "step_account f steps step_one step_group \<longrightarrow>
        steps w' + mset (map (\<lambda>i. f (the (rs' ! i))) (undone rs')) =
        steps w1 + mset (map (\<lambda>i. f (the (rs' ! i))) (undone rs1))"
      by auto
    have kept: "rs' ! i = rs ! i" if "rs ! i \<noteq> None" for i
      using that r1(2) l(3) gp(3) by (cases "i \<in> set ?g") auto
    have acc: "steps w' + mset (map (\<lambda>i. f (the (rs' ! i))) (undone rs')) =
        steps w + mset (map (\<lambda>i. f (the (rs' ! i))) (undone rs))" if "step_account f steps step_one step_group"
    proof -
      have "map (\<lambda>i. f (the (rs1 ! i))) ?g = map (\<lambda>i. f (the (rs' ! i))) ?g"
        using r1(3) l(3) by (intro map_cong refl) simp
      with r1(5) that have "steps w1 = steps w + mset (map (\<lambda>i. f (the (rs' ! i))) ?g)" by simp
      with l(5) that have "steps w' + mset (map (\<lambda>i. f (the (rs' ! i))) (undone rs')) =
          steps w + image_mset (\<lambda>i. f (the (rs' ! i))) (mset ?g + mset (undone rs1))" by (simp add: ac_simps)
      with r1(4) show ?thesis by (simp add: ac_simps)
    qed
    have "rs' ! left \<noteq> None" using gp(2) r1(3) l(3) by auto
    then show ?thesis unfolding eq using l kept acc by auto
  qed
qed

section \<open>Properties of the grouped round\<close>

lemma round_inv_start:
  "map tk_id tasks = ids \<Longrightarrow> round_inv ids (map Some tasks) (replicate (length tasks) None)"
  by (auto simp: round_inv_def)

lemma round_inv_answers: "round_inv ids tasks rs \<Longrightarrow> \<forall>i \<in> {0..<length ids}. rs ! i \<noteq> None \<Longrightarrow> answers ids rs"
  by (fastforce simp: round_inv_def answers_def)

text \<open>The queues after a round whose active tasks have been answered by \<open>qs\<close>.\<close>

lemma settled_queues:
  assumes ids0: "map (\<lambda>(t, _). tk_id t) qs = map tk_id (active b0)" and b0: "b0 = fill_slots b"
    and d: "distinct (task_ids b)" and bound: "length (active b) \<le> max_slots b"
  shows "completed_of qs = filter (\<lambda>i. i \<in> set (completed_of qs)) (map tk_id (active b0)) \<and>
    (let b' = fill_slots (b0\<lparr>active := continuing_of qs\<rparr>) in
     active b' @ waiting b' = continuing_of qs @ waiting b0 \<and>
     task_ids b' = filter (\<lambda>i. i \<notin> set (completed_of qs)) (task_ids b) \<and> length (active b') \<le> max_slots b' \<and>
     (waiting b' \<noteq> [] \<longrightarrow> length (active b') = max_slots b') \<and> max_slots b' = max_slots b)"
proof -
  let ?act = "continuing_of qs" let ?completed = "completed_of qs"
  have ids: "task_ids b = map tk_id (active b0) @ map tk_id (waiting b0)"
    unfolding task_ids_def b0 using fill_slots_queue [of b] by (metis map_append)
  then have d0: "distinct (map (\<lambda>(t, _). tk_id t) qs)" and
    disj: "set (map tk_id (active b0)) \<inter> set (map tk_id (waiting b0)) = {}" using d ids0 by auto
  have sub: "set ?completed \<subseteq> set (map tk_id (active b0))"
    unfolding ids0 [symmetric] by (auto simp: completed_of_def)
  note c = completed_of_ids [OF d0, unfolded ids0]
  let ?b = "b0\<lparr>active := ?act\<rparr>"
  have "length ?act \<le> length (active b0)" using c by (metis length_filter_le length_map)
  also have "\<dots> \<le> max_slots b" using fill_slots_bound [OF bound] b0 by simp
  finally have la: "length (active ?b) \<le> max_slots ?b" by (simp add: b0)
  have "filter (\<lambda>i. i \<notin> set ?completed) (map tk_id (waiting b0)) = map tk_id (waiting b0)"
    by (rule filter_True) (use sub disj in blast)
  moreover have q: "active (fill_slots ?b) @ waiting (fill_slots ?b) = ?act @ waiting b0"
    by (simp only: fill_slots_queue) simp
  moreover from q have "task_ids (fill_slots ?b) = map tk_id ?act @ map tk_id (waiting b0)"
    by (metis task_ids_def map_append)
  ultimately have "task_ids (fill_slots ?b) = filter (\<lambda>i. i \<notin> set ?completed) (task_ids b)"
    using c by (simp add: ids)
  with c q fill_slots_bound [OF la] show ?thesis
    by (simp add: Let_def b0 del: fill_slots_fields) (simp add: b0)
qed

lemma grouped_round_core:
  fixes key :: "u64 \<Rightarrow> 't \<Rightarrow> 'w \<Rightarrow> 'k option \<times> 't \<times> 'w"
  assumes slice: "slice_callback step_group"
    and k: "run_keys key (active (fill_slots b)) w = (keys, tasks, w1)"
    and pr: "run_prefs preferred tasks w1 = (prefs, w2)"
  shows "\<exists>qs w3. group_loop step_one step_group keys (round_order prefs) (map Some tasks)
      (replicate (length tasks) None) w2 = Ok (map Some qs, w3) \<and>
    map (\<lambda>(t, _). tk_id t) qs = map tk_id (active (fill_slots b)) \<and>
    (step_account f steps step_one step_group \<longrightarrow> steps w3 = steps w2 + mset (map f qs))"
proof -
  let ?ids = "map tk_id (active (fill_slots b))"
  have ids: "map tk_id tasks = ?ids" and lp: "length prefs = length ?ids"
    using run_keys_shape [OF k] run_prefs_shape [OF pr] by (auto dest: arg_cong [where f = length])
  have lt: "length tasks = length ?ids" using ids by (metis length_map)
  have sub: "set (round_order prefs) \<subseteq> {0..<length ?ids}" using round_order_perm(2) lp by auto
  from group_loop_law [OF round_inv_start [OF ids] round_order_perm(1) sub slice, of step_one keys w2 f steps]
  obtain tasks' rs w3 where r: "group_loop step_one step_group keys (round_order prefs) (map Some tasks)
      (replicate (length tasks) None) w2 = Ok (rs, w3)" "round_inv ?ids tasks' rs"
    "\<forall>i \<in> set (round_order prefs). rs ! i \<noteq> None"
    "step_account f steps step_one step_group \<longrightarrow> steps w3 + mset (map (\<lambda>i. f (the (rs ! i))) (undone rs)) =
       steps w2 + mset (map (\<lambda>i. f (the (rs ! i))) (undone (replicate (length tasks) (None :: ('t batch_task \<times> step_outcome) option))))"
    by blast
  have all: "\<forall>i \<in> {0..<length ?ids}. rs ! i \<noteq> None" using r(3) round_order_perm(2) lp by auto
  then have u1: "undone rs = []" using r(2) by (auto simp: undone_def round_inv_def filter_empty_conv)
  have u2: "undone (replicate (length tasks) (None :: ('t batch_task \<times> step_outcome) option)) = [0..<length ?ids]"
    unfolding undone_def lt by (simp add: filter_id_conv)
  from round_inv_answers [OF r(2) all] obtain qs where qs: "rs = map Some qs" "map (\<lambda>(t, _). tk_id t) qs = ?ids"
    by (auto simp: answers_Some)
  have lq: "length qs = length ?ids" using qs(2) by (metis length_map)
  have "map (\<lambda>i. f (the (rs ! i))) [0..<length ?ids] = map f qs"
    by (rule nth_equalityI) (use lq qs(1) in \<open>simp_all del: fill_slots_fields\<close>)
  then have "steps w3 = steps w2 + mset (map f qs)" if "step_account f steps step_one step_group"
    using r(4) that unfolding u1 u2 by (simp del: fill_slots_fields)
  with r(1) qs show ?thesis by blast
qed

lemma run_keys_quiet:
  "\<forall>i st w. steps (snd (snd (key i st w))) = steps w \<Longrightarrow> run_keys key ts w = (ks, ts', w') \<Longrightarrow> steps w' = steps w"
  by (induction ts arbitrary: ks ts' w w') (auto split: prod.splits, metis snd_conv)

lemma run_prefs_quiet:
  "\<forall>i st w. steps (snd (preferred i st w)) = steps w \<Longrightarrow> run_prefs preferred ts w = (vs, w') \<Longrightarrow> steps w' = steps w"
  by (induction ts arbitrary: vs w w') (auto split: prod.splits, metis snd_conv)

lemma grouped_round_n_law:
  assumes slice: "slice_callback step_group" and d: "distinct (task_ids b)"
    and bound: "length (active b) \<le> max_slots b"
  shows "\<exists>qs b' w'. run_prioritized_grouped_round_n preferred key step_one step_group b w = Ok (completed_of qs, b', w') \<and>
    map (\<lambda>(t, _). tk_id t) qs = map tk_id (active (fill_slots b)) \<and>
    active b' @ waiting b' = continuing_of qs @ waiting (fill_slots b) \<and>
    completed_of qs = filter (\<lambda>i. i \<in> set (completed_of qs)) (map tk_id (active (fill_slots b))) \<and>
    task_ids b' = filter (\<lambda>i. i \<notin> set (completed_of qs)) (task_ids b) \<and>
    length (active b') \<le> max_slots b' \<and> (waiting b' \<noteq> [] \<longrightarrow> length (active b') = max_slots b') \<and>
    max_slots b' = max_slots b \<and>
    (step_account f steps step_one step_group \<and> quiet steps preferred key \<longrightarrow> steps w' = steps w + mset (map f qs))"
proof -
  obtain keys tasks w1 where k: "run_keys key (active (fill_slots b)) w = (keys, tasks, w1)"
    by (cases "run_keys key (active (fill_slots b)) w") auto
  obtain prefs w2 where pr: "run_prefs preferred tasks w1 = (prefs, w2)"
    by (cases "run_prefs preferred tasks w1") auto
  from grouped_round_core [OF slice k pr, of step_one f steps] obtain qs w3 where
    g: "group_loop step_one step_group keys (round_order prefs) (map Some tasks)
        (replicate (length tasks) None) w2 = Ok (map Some qs, w3)"
      "map (\<lambda>(t, _). tk_id t) qs = map tk_id (active (fill_slots b))"
      "step_account f steps step_one step_group \<longrightarrow> steps w3 = steps w2 + mset (map f qs)"
    by blast
  have q: "steps w2 = steps w" if "quiet steps preferred key"
    using that run_keys_quiet [OF _ k, of steps] run_prefs_quiet [OF _ pr, of steps]
    unfolding quiet_def by metis
  have run: "run_prioritized_grouped_round_n preferred key step_one step_group b w =
      Ok (completed_of qs, fill_slots (fill_slots b\<lparr>active := continuing_of qs\<rparr>), w3)"
    using k pr g(1) settle_Some [of qs] by (simp add: run_prioritized_grouped_round_n_def Let_def)
  show ?thesis
    unfolding run using settled_queues [OF g(2) refl d bound] g(2,3) q
    by (intro exI [of _ qs]) (simp add: Let_def del: fill_slots_fields)
qed

text \<open>C4. The round the engine runs is a fair scheduler for any callbacks, in a batch whose identifiers
  are distinct and that has no more active tasks than slots: it returns (no \<open>expect\<close> and no index can
  fail); the active tasks are answered once each, by the outcome and the new state that their scalar
  or group step returned, which is what any log of the callbacks' answers shows; the tasks that
  answered \<open>Complete\<close> are reported and leave, those that answered \<open>Continue\<close> stay with their new state,
  in their old order and before the waiting ones; the slot limit holds, and no slot is idle while a
  task waits.\<close>

theorem grouped_round_n_fifo:
  assumes "slice_callback step_group" "distinct (task_ids b)" "length (active b) \<le> max_slots b"
    and "step_account (\<lambda>answer. answer) log step_one step_group" "quiet log preferred key"
  shows "\<exists>answers b' w'.
    run_prioritized_grouped_round_n preferred key step_one step_group b w = Ok (completed_of answers, b', w') \<and>
    log w' = log w + mset answers \<and>
    map (\<lambda>(t, _). tk_id t) answers = map tk_id (active (fill_slots b)) \<and>
    active b' @ waiting b' = continuing_of answers @ waiting (fill_slots b) \<and>
    task_ids b' = filter (\<lambda>i. i \<notin> set (completed_of answers)) (task_ids b) \<and>
    length (active b') \<le> max_slots b' \<and> (waiting b' \<noteq> [] \<longrightarrow> length (active b') = max_slots b') \<and>
    max_slots b' = max_slots b"
  using grouped_round_n_law [OF assms(1-3), of preferred key step_one w "\<lambda>answer. answer" log] assms(4,5) by auto

text \<open>In one round every active task is stepped exactly once, by its scalar step or as a member of
  one group that was not declined: whatever the account of the steps is, it grows by exactly the
  identifiers of the active tasks.\<close>

theorem grouped_round_n_steps_once:
  assumes "slice_callback step_group" "distinct (task_ids b)" "length (active b) \<le> max_slots b"
    and "step_account (\<lambda>(t, _). tk_id t) steps step_one step_group" "quiet steps preferred key"
    and "run_prioritized_grouped_round_n preferred key step_one step_group b w = (Ok (completed, b', w'))"
  shows "steps w' = steps w + mset (map tk_id (active (fill_slots b)))"
proof -
  obtain qs b1 w1 where q: "run_prioritized_grouped_round_n preferred key step_one step_group b w =
      (Ok (completed_of qs, b1, w1))"
    "map (\<lambda>(t, _). tk_id t) qs = map tk_id (active (fill_slots b))"
    "active b1 @ waiting b1 = continuing_of qs @ waiting (fill_slots b)"
    "step_account (\<lambda>(t, _). tk_id t) steps step_one step_group \<and> quiet steps preferred key \<longrightarrow>
      steps w1 = steps w + mset (map (\<lambda>(t, _). tk_id t) qs)"
    by (rule exE [OF grouped_round_n_law [OF assms(1-3), of preferred key step_one w "\<lambda>(t, _). tk_id t" steps]])
      (elim exE conjE, rule that, assumption, assumption, assumption)
  from q(1) assms(6) have "w1 = w'" by simp
  with q(2,4) assms(4,5) show ?thesis by (simp only: simp_thms)
qed

section \<open>The paired round\<close>

definition pair_inv :: "u64 list \<Rightarrow> 't batch_task list \<times> step_outcome option list \<times> 'w \<Rightarrow> bool" where
  "pair_inv ids s \<longleftrightarrow> (case s of (tasks, outcomes, w) \<Rightarrow> map tk_id tasks = ids \<and> length outcomes = length ids)"

definition outcomes_of :: "'t batch_task list \<times> step_outcome option list \<times> 'w \<Rightarrow> step_outcome option list" where
  "outcomes_of s = fst (snd s)"

lemma map_id_update: "i < length ts \<Longrightarrow> map tk_id (ts[i := (ts ! i)\<lparr>tk_state := st\<rparr>]) = map tk_id ts"
  by (simp add: map_update list_update_same_conv)

lemma step_at_inv:
  assumes "pair_inv ids s" "i < length ids"
  shows "pair_inv ids (step_at step_one i s)"
    "outcomes_of (step_at step_one i s) ! i \<noteq> None"
    "outcomes_of s ! j \<noteq> None \<Longrightarrow> outcomes_of (step_at step_one i s) ! j \<noteq> None"
proof -
  obtain tasks outcomes w where s: "s = (tasks, outcomes, w)" by (cases s) auto
  have l: "i < length tasks" "i < length outcomes" "map tk_id tasks = ids" "length outcomes = length ids"
    using assms by (auto simp: pair_inv_def s)
  show "pair_inv ids (step_at step_one i s)" "outcomes_of (step_at step_one i s) ! i \<noteq> None"
    using l by (auto simp: s step_at_def pair_inv_def outcomes_of_def map_id_update split: prod.splits)
  show "outcomes_of s ! j \<noteq> None \<Longrightarrow> outcomes_of (step_at step_one i s) ! j \<noteq> None"
    using l by (auto simp: s step_at_def outcomes_of_def nth_list_update split: prod.splits)
qed

text \<open>
  The tasks of one key that wait for their step, in the order of the round, are paired from the
  front. The pair of \<open>a\<close> and \<open>b\<close> panics when \<open>b\<close> does not come after \<open>a\<close> in the queue.
\<close>

fun bad_pair :: "nat list \<Rightarrow> bool" where
  "bad_pair (a # b # xs) = (b \<le> a \<or> bad_pair xs)"
| "bad_pair _ = False"

definition pending :: "'k option list \<Rightarrow> step_outcome option list \<Rightarrow> 'k \<Rightarrow> nat list \<Rightarrow> nat list" where
  "pending keys outcomes k order = filter (\<lambda>i. keys ! i = Some k \<and> outcomes ! i = None) order"

lemma find_in_filter: "List.find P xs = (case filter P xs of [] \<Rightarrow> None | x # _ \<Rightarrow> Some x)"
  by (induction xs) auto

lemma partner_of_pending:
  "partner_of keys outcomes left rest =
     (case keys ! left of
        None \<Rightarrow> None
      | Some k \<Rightarrow> (case pending keys outcomes k rest of [] \<Rightarrow> None | r # _ \<Rightarrow> Some r))"
  unfolding partner_of_def pending_def find_in_filter
  by (simp add: conj_commute cong: filter_cong split: option.split)

lemma pending_answered:
  "(\<And>i. i \<in> set rest \<Longrightarrow> (o' ! i = None) = (outcomes ! i = None \<and> i \<notin> A)) \<Longrightarrow>
    pending keys o' k rest = filter (\<lambda>i. i \<notin> A) (pending keys outcomes k rest)"
  unfolding pending_def filter_filter by (rule filter_cong) auto

lemma pending_skip: "outcomes ! left \<noteq> None \<Longrightarrow> pending keys outcomes k (left # rest) = pending keys outcomes k rest"
  by (simp add: pending_def)

lemma bad_pair_alone:
  assumes "partner_of keys outcomes left rest = None" "outcomes ! left = None"
  shows "bad_pair (pending keys outcomes k (left # rest)) = bad_pair (pending keys outcomes k rest)"
proof (cases "keys ! left = Some k")
  case True
  then have "pending keys outcomes k rest = []"
    using assms(1) by (auto simp: partner_of_pending split: list.splits)
  then show ?thesis using True assms(2) by (simp add: pending_def)
qed (simp add: pending_def)

lemma bad_pair_partner:
  assumes "partner_of keys outcomes left rest = Some right" "outcomes ! left = None" "distinct rest"
  shows "bad_pair (pending keys outcomes k (left # rest)) \<longleftrightarrow>
    (keys ! left = Some k \<and> right \<le> left) \<or> bad_pair (filter (\<lambda>i. i \<noteq> right) (pending keys outcomes k rest))"
proof -
  from assms(1) obtain k0 ps where k0: "keys ! left = Some k0" "pending keys outcomes k0 rest = right # ps"
    by (auto simp: partner_of_pending split: option.splits list.splits)
  show ?thesis
  proof (cases "k = k0")
    case True
    have "distinct (right # ps)" using assms(3) k0(2) by (metis distinct_filter pending_def)
    then have "filter (\<lambda>i. i \<noteq> right) (right # ps) = ps" by (auto simp: filter_id_conv)
    moreover have "pending keys outcomes k (left # rest) = left # pending keys outcomes k rest"
      using True k0(1) assms(2) by (simp add: pending_def)
    ultimately show ?thesis using True k0 by simp
  next
    case False
    have "right \<in> set (pending keys outcomes k0 rest)" using k0(2) by simp
    then have "keys ! right = Some k0" by (simp add: pending_def)
    then have "filter (\<lambda>i. i \<noteq> right) (pending keys outcomes k rest) = pending keys outcomes k rest"
      using False unfolding pending_def filter_filter by (intro filter_cong) auto
    then show ?thesis using False k0(1) by (simp add: pending_def)
  qed
qed

text \<open>The loop panics exactly when a pair of some key does; otherwise it answers every task.\<close>

lemma pair_loop_law:
  "pair_inv ids s \<Longrightarrow> distinct order \<Longrightarrow> set order \<subseteq> {0..<length ids} \<Longrightarrow>
    (if \<exists>k. bad_pair (pending keys (outcomes_of s) k order)
     then pair_loop step_one step_pair keys order s = Panic
     else \<exists>s'. pair_loop step_one step_pair keys order s = Ok s' \<and> pair_inv ids s' \<and>
       (\<forall>j. outcomes_of s ! j \<noteq> None \<longrightarrow> outcomes_of s' ! j \<noteq> None) \<and>
       (\<forall>j \<in> set order. outcomes_of s' ! j \<noteq> None))"
proof (induction order arbitrary: s)
  case Nil
  then show ?case by (auto simp: pending_def)
next
  case (Cons left rest)
  obtain tasks outcomes w where s: "s = (tasks, outcomes, w)" by (cases s) auto
  have tail: "distinct rest" "set rest \<subseteq> {0..<length ids}" "left < length ids" "left \<notin> set rest"
    using Cons.prems by auto
  text \<open>It is enough to answer \<open>left\<close> in a state that keeps what is answered, and as many bad pairs.\<close>
  have step: ?case if eq: "pair_loop step_one step_pair keys (left # rest) s = pair_loop step_one step_pair keys rest s1"
    and inv: "pair_inv ids s1" and l: "outcomes_of s1 ! left \<noteq> None"
    and mono: "\<And>j. outcomes_of s ! j \<noteq> None \<Longrightarrow> outcomes_of s1 ! j \<noteq> None"
    and bad: "\<And>k. bad_pair (pending keys outcomes k (left # rest)) = bad_pair (pending keys (outcomes_of s1) k rest)"
    for s1
  proof -
    have "(\<exists>k. bad_pair (pending keys (outcomes_of s) k (left # rest))) = (\<exists>k. bad_pair (pending keys (outcomes_of s1) k rest))"
      using bad by (simp add: s outcomes_of_def)
    then show ?thesis using Cons.IH [OF inv tail(1,2)] l mono unfolding eq by (auto split: if_splits)
  qed
  show ?case
  proof (cases "outcomes ! left = None")
    case False
    then show ?thesis
      by (intro step [of s]) (use Cons.prems(1) s False in \<open>auto simp: outcomes_of_def pending_skip\<close>)
  next
    case True
    have lo: "left < length outcomes" using Cons.prems(1) tail(3) by (simp add: s pair_inv_def)
    show ?thesis
    proof (cases "partner_of keys outcomes left rest")
      case None
      have same: "pending keys (outcomes_of (step_at step_one left s)) k rest = pending keys outcomes k rest" for k
      proof -
        have "(outcomes_of (step_at step_one left s) ! i = None) = (outcomes ! i = None \<and> i \<notin> {})" if "i \<in> set rest" for i
        proof -
          have "left \<noteq> i" using that tail(4) by blast
          then show ?thesis by (simp add: s step_at_def outcomes_of_def split: prod.splits)
        qed
        from pending_answered [OF this] show ?thesis by simp
      qed
      show ?thesis
        by (intro step [of "step_at step_one left s"])
          (use True None s step_at_inv [OF Cons.prems(1) tail(3)] bad_pair_alone [OF None True] same in auto)
    next
      case (Some right)
      then have r: "right \<in> set rest"
        by (auto simp: partner_of_def find_Some_iff split: option.splits)
      have rb: "right < length ids" "right \<noteq> left" using r tail by auto
      show ?thesis
      proof (cases "left < right")
        case False
        then have "right \<le> left" by simp
        moreover obtain k where "keys ! left = Some k" using Some by (auto simp: partner_of_def split: option.splits)
        ultimately have "bad_pair (pending keys (outcomes_of s) k (left # rest))"
          using bad_pair_partner [OF Some True tail(1), of k] by (simp add: s outcomes_of_def)
        moreover have "pair_loop step_one step_pair keys (left # rest) s = Panic"
          using True Some False by (simp add: s)
        ultimately show ?thesis by auto
      next
        case less: True
        have bad: "bad_pair (pending keys outcomes k (left # rest)) = bad_pair (pending keys o' k rest)"
          if "\<And>i. i \<in> set rest \<Longrightarrow> (o' ! i = None) = (outcomes ! i = None \<and> i \<notin> {right})" for o' k
          using bad_pair_partner [OF Some True tail(1), of k] less pending_answered [OF that, where k = k and keys = keys] by auto
        have lr: "left < right" "right < length ids" using less rb by auto
        obtain oc lst rst w' where p: "step_pair (tk_id (tasks ! left)) (tk_state (tasks ! left))
            (tk_id (tasks ! right)) (tk_state (tasks ! right)) w = (oc, lst, rst, w')"
          by (metis prod_cases4)
        define tasks' where "tasks' = tasks[left := (tasks ! left)\<lparr>tk_state := lst\<rparr>,
          right := (tasks ! right)\<lparr>tk_state := rst\<rparr>]"
        have lt: "length tasks = length ids" "map tk_id tasks = ids" "length outcomes = length ids"
          using Cons.prems(1) by (auto simp: s pair_inv_def)
        have ids': "map tk_id tasks' = ids"
          using lr lt(1) map_id_update [of left tasks lst]
            map_id_update [of right "tasks[left := (tasks ! left)\<lparr>tk_state := lst\<rparr>]" rst]
          unfolding tasks'_def lt(2) by simp
        show ?thesis
        proof (cases oc)
          case None
          let ?s0 = "(tasks', outcomes, w')"
          let ?s1 = "step_at step_one left ?s0"
          have i0: "pair_inv ids ?s0" using ids' lt by (simp add: pair_inv_def)
          note a = step_at_inv [OF i0 tail(3), where step_one = step_one]
          note b = step_at_inv [OF a(1) lr(2), where step_one = step_one]
          show ?thesis
          proof (rule step [of "step_at step_one right ?s1"])
            show "pair_loop step_one step_pair keys (left # rest) s =
                pair_loop step_one step_pair keys rest (step_at step_one right ?s1)"
              using True Some p None lr by (simp add: s tasks'_def Let_def)
            show "outcomes_of (step_at step_one right ?s1) ! left \<noteq> None" by (rule b(3) [OF a(2)])
            show "outcomes_of (step_at step_one right ?s1) ! j \<noteq> None" if "outcomes_of s ! j \<noteq> None" for j
              using that by (intro b(3) a(3)) (simp add: s outcomes_of_def)
            show "bad_pair (pending keys outcomes k (left # rest)) =
              bad_pair (pending keys (outcomes_of (step_at step_one right ?s1)) k rest)" for k
            by (rule bad) (use lr tail(3,4) lt in \<open>auto simp: step_at_def outcomes_of_def nth_list_update split: prod.splits\<close>)
          qed (rule b(1))
        next
          case (Some lo)
          obtain a b where lo: "lo = (a, b)" by (cases lo)
          show ?thesis
          proof (rule step [of "(tasks', outcomes[left := Some a, right := Some b], w')"])
            show "pair_loop step_one step_pair keys (left # rest) s =
                pair_loop step_one step_pair keys rest (tasks', outcomes[left := Some a, right := Some b], w')"
              using True \<open>partner_of keys outcomes left rest = Some right\<close> p Some lo lr
              by (simp add: s tasks'_def Let_def)
            show "bad_pair (pending keys outcomes k (left # rest)) =
                bad_pair (pending keys (outcomes_of (tasks', outcomes[left := Some a, right := Some b], w')) k rest)" for k
              by (rule bad) (use lr tail(3,4) lt in \<open>auto simp: outcomes_of_def nth_list_update\<close>)
          qed (use ids' lt lr tail(3) s in \<open>auto simp: pair_inv_def outcomes_of_def nth_list_update\<close>)
        qed
      qed
    qed
  qed
qed

lemma sorted_no_bad_pair: "sorted_wrt (<) xs \<Longrightarrow> \<not> bad_pair xs"
  by (induction xs rule: bad_pair.induct) auto

lemma run_prefs_none: "run_prefs (\<lambda>_ _ w. (False, w)) ts w = (replicate (length ts) False, w)"
  by (induction ts) auto

lemma round_order_none: "round_order (replicate n False) = [0..<n]"
  by (simp add: round_order_def filter_empty_conv filter_id_conv)

text \<open>The answers of a round of pairs.\<close>

lemma pair_answers:
  assumes ids: "map tk_id tasks = ids" and "length outcomes = length ids" and "\<forall>j < length ids. outcomes ! j \<noteq> None"
  shows "answers ids (map (\<lambda>(t, oc). map_option (Pair t) oc) (zip tasks outcomes))"
  unfolding answers_def
proof (intro conjI allI impI)
  have lt: "length tasks = length ids" using ids by (metis length_map)
  with assms(2) show "length (map (\<lambda>(t, oc). map_option (Pair t) oc) (zip tasks outcomes)) = length ids" by simp
  fix i assume i: "i < length ids"
  then obtain oc where "outcomes ! i = Some oc" using assms(3) by auto
  moreover have "tk_id (tasks ! i) = ids ! i" using i lt by (metis nth_map ids)
  ultimately show "\<exists>t oc. map (\<lambda>(t, oc). map_option (Pair t) oc) (zip tasks outcomes) ! i = Some (t, oc) \<and> tk_id t = ids ! i"
    using i lt assms(2) by simp
qed

text \<open>Pairing without a preference is safe: \<open>run_grouped_round\<close> returns for any callbacks, keeps the
  queue order, loses and duplicates no task, and respects the slots.\<close>

theorem grouped_round_fifo:
  assumes d: "distinct (task_ids b)" and bound: "length (active b) \<le> max_slots b"
  shows "\<exists>completed b' w'. run_grouped_round key step_one step_pair b w = Ok (completed, b', w') \<and>
    completed = filter (\<lambda>i. i \<in> set completed) (map tk_id (active (fill_slots b))) \<and>
    task_ids b' = filter (\<lambda>i. i \<notin> set completed) (task_ids b) \<and>
    length (active b') \<le> max_slots b' \<and> (waiting b' \<noteq> [] \<longrightarrow> length (active b') = max_slots b') \<and>
    max_slots b' = max_slots b"
proof -
  let ?ids = "map tk_id (active (fill_slots b))"
  obtain keys tasks w1 where k: "run_keys key (active (fill_slots b)) w = (keys, tasks, w1)"
    by (cases "run_keys key (active (fill_slots b)) w") auto
  have ids: "map tk_id tasks = ?ids" using run_keys_shape [OF k] by simp
  then have lt: "length tasks = length ?ids" by (metis length_map)
  have inv: "pair_inv ?ids (tasks, replicate (length tasks) None, w1)" using ids lt by (simp add: pair_inv_def)
  have "\<not> bad_pair (pending keys (replicate (length tasks) None) k [0..<length tasks])" for k
    by (intro sorted_no_bad_pair) (simp add: pending_def sorted_wrt_filter)
  then have none: "\<nexists>k. bad_pair (pending keys (outcomes_of (tasks, replicate (length tasks) None, w1)) k [0..<length tasks])"
    by (simp add: outcomes_of_def)
  have "distinct [0..<length tasks]" "set [0..<length tasks] \<subseteq> {0..<length ?ids}" using lt by auto
  from pair_loop_law [OF inv this, of keys step_one step_pair, unfolded if_not_P [OF none]] obtain tasks' outcomes w3 where
    p: "pair_loop step_one step_pair keys [0..<length tasks] (tasks, replicate (length tasks) None, w1) =
        Ok (tasks', outcomes, w3)" "map tk_id tasks' = ?ids" "length outcomes = length ?ids"
      "\<forall>j < length tasks. outcomes ! j \<noteq> None"
    by (auto simp: pair_inv_def outcomes_of_def)
  let ?rs = "map (\<lambda>(t, oc). map_option (Pair t) oc) (zip tasks' outcomes)"
  have "answers ?ids ?rs" using pair_answers [OF p(2,3)] p(4) lt by auto
  then obtain qs where qs: "?rs = map Some qs" "map (\<lambda>(t, _). tk_id t) qs = ?ids" by (auto simp: answers_Some)
  define completed act where "completed = completed_of qs" and "act = continuing_of qs"
  have s: "settle ?rs = Ok (completed, act)" "completed = filter (\<lambda>i. i \<in> set completed) ?ids"
      "let b' = fill_slots (fill_slots b\<lparr>active := act\<rparr>) in
       task_ids b' = filter (\<lambda>i. i \<notin> set completed) (task_ids b) \<and> length (active b') \<le> max_slots b' \<and>
       (waiting b' \<noteq> [] \<longrightarrow> length (active b') = max_slots b') \<and> max_slots b' = max_slots b"
    using settled_queues [OF qs(2) refl d bound] settle_Some [of qs] qs(1)
    unfolding completed_def act_def by (simp_all add: Let_def del: fill_slots_fields)
  have run: "run_grouped_round key step_one step_pair b w =
      Ok (completed, fill_slots (fill_slots b\<lparr>active := act\<rparr>), w3)"
    unfolding run_grouped_round_def run_prioritized_grouped_round_def
    using k p(1) s(1) by (simp add: Let_def run_prefs_none round_order_none del: fill_slots_fields)
  show ?thesis
    unfolding run using s(2,3) by (auto simp: Let_def simp del: fill_slots_fields)
qed

definition two_tasks :: "'t \<Rightarrow> 't \<Rightarrow> 't cbatch" where
  "two_tasks x y = snd (admit y (snd (admit x (cbatch_new 2))))"

lemma bad_pair_append:
  "sorted_wrt (<) xs \<Longrightarrow> sorted_wrt (<) ys \<Longrightarrow>
    bad_pair (xs @ ys) \<longleftrightarrow> odd (length xs) \<and> ys \<noteq> [] \<and> hd ys \<le> last xs"
proof (induction xs rule: induct_list012)
  case 1
  then show ?case using sorted_no_bad_pair by simp
next
  case (2 x)
  then show ?case using sorted_no_bad_pair [of "tl ys"] by (cases ys) auto
next
  case (3 x y zs)
  then show ?case by (cases zs) auto
qed

text \<open>With no task answered yet, the pairs that panic are read off the keys and preferences.\<close>

lemma bad_pair_tagged:
  fixes keys :: "'k option list" and prefs :: "bool list"
  defines "tagged k v \<equiv> filter (\<lambda>i. keys ! i = Some k \<and> prefs ! i = v) [0..<length prefs]"
  assumes none: "\<forall>i \<in> set [0..<length prefs]. outs ! i = None"
  shows "(\<exists>k. bad_pair (pending keys outs k (round_order prefs))) \<longleftrightarrow>
    (\<exists>k. odd (length (tagged k True)) \<and> tagged k False \<noteq> [] \<and> hd (tagged k False) < last (tagged k True))"
proof -
  have pend: "pending keys outs k (round_order prefs) = tagged k True @ tagged k False" for k
    unfolding pending_def round_order_def tagged_def filter_append filter_filter
    using none by (intro arg_cong2 [where f = append] filter_cong) auto
  have asc: "sorted_wrt (<) (tagged k v)" for k v by (simp add: tagged_def sorted_wrt_filter)
  have ne: "hd (tagged k False) \<noteq> last (tagged k True)" if "odd (length (tagged k True))" "tagged k False \<noteq> []" for k
  proof -
    have "tagged k True \<noteq> []" using that(1) by (cases "tagged k True") simp_all
    with that(2) have "hd (tagged k False) \<in> set (tagged k False)" "last (tagged k True) \<in> set (tagged k True)"
      using hd_in_set last_in_set by blast+
    then show ?thesis unfolding tagged_def by auto
  qed
  show ?thesis
    unfolding pend bad_pair_append [OF asc asc] using ne by (auto simp: order.strict_iff_order)
qed

text \<open>C37. The paired round with a preference panics, whatever the callbacks do, exactly when for some
  key an odd number of the preferred active tasks have it and the first unpreferred task with the
  key comes before the last preferred one: these two are then paired in the order later, earlier,
  and the split of the task vector at the earlier one has no place for the later one.\<close>

theorem prioritized_pair_round_panics:
  assumes "run_keys key (active (fill_slots b)) w = (keys, tasks, w1)" "run_prefs preferred tasks w1 = (prefs, w2)"
  defines "tagged k v \<equiv> filter (\<lambda>i. keys ! i = Some k \<and> prefs ! i = v) [0..<length prefs]"
  shows "run_prioritized_grouped_round preferred key step_one step_pair b w = Panic \<longleftrightarrow>
    (\<exists>k. odd (length (tagged k True)) \<and> tagged k False \<noteq> [] \<and> hd (tagged k False) < last (tagged k True))"
proof -
  let ?ids = "map tk_id (active (fill_slots b))"
  have ids: "map tk_id tasks = ?ids" and lp: "length prefs = length tasks"
    using run_keys_shape [OF assms(1)] run_prefs_shape [OF assms(2)] by auto
  then have lt: "length tasks = length ?ids" by (metis length_map)
  let ?s = "(tasks, replicate (length tasks) (None :: step_outcome option), w2)"
  have inv: "pair_inv ?ids ?s" using ids lt by (simp add: pair_inv_def)
  have sub: "set (round_order prefs) \<subseteq> {0..<length ?ids}" using round_order_perm(2) lp lt by auto
  have bad: "(\<exists>k. bad_pair (pending keys (outcomes_of ?s) k (round_order prefs))) \<longleftrightarrow>
      (\<exists>k. odd (length (tagged k True)) \<and> tagged k False \<noteq> [] \<and> hd (tagged k False) < last (tagged k True))"
    unfolding tagged_def by (rule bad_pair_tagged) (use lp in \<open>simp add: outcomes_of_def\<close>)
  note law = pair_loop_law [OF inv round_order_perm(1) sub, of keys step_one step_pair]
  show ?thesis
  proof (cases "\<exists>k. bad_pair (pending keys (outcomes_of ?s) k (round_order prefs))")
    case True
    with law have "pair_loop step_one step_pair keys (round_order prefs) ?s = Panic" by (simp only: if_True)
    then have "run_prioritized_grouped_round preferred key step_one step_pair b w = Panic"
      using assms(1,2) by (simp add: run_prioritized_grouped_round_def Let_def del: fill_slots_fields)
    with True bad show ?thesis by blast
  next
    case False
    with law obtain tasks' outcomes w3 where l: "pair_loop step_one step_pair keys (round_order prefs) ?s = Ok (tasks', outcomes, w3)"
      "map tk_id tasks' = ?ids" "length outcomes = length ?ids" "\<forall>j \<in> set (round_order prefs). outcomes ! j \<noteq> None"
      by (auto simp: pair_inv_def outcomes_of_def)
    have "answers ?ids (map (\<lambda>(t, oc). map_option (Pair t) oc) (zip tasks' outcomes))"
      using pair_answers [OF l(2,3)] l(4) round_order_perm(2) [of prefs] lp lt by simp
    then obtain qs where "map (\<lambda>(t, oc). map_option (Pair t) oc) (zip tasks' outcomes) = map Some qs"
      by (auto simp: answers_Some)
    then have "run_prioritized_grouped_round preferred key step_one step_pair b w \<noteq> Panic"
      using assms(1,2) l(1) settle_Some [of qs]
      by (simp add: run_prioritized_grouped_round_def Let_def del: fill_slots_fields)
    with False bad show ?thesis by blast
  qed
qed

section \<open>A concrete round\<close>

text \<open>Callbacks that keep a log: the world is the list of the answers given.\<close>

type_synonym answer_log = "(nat batch_task \<times> step_outcome) list"

definition log_outcome :: "nat \<Rightarrow> step_outcome" where
  "log_outcome st = (if st = 0 then Complete else Continue)"

definition log_one :: "u64 \<Rightarrow> nat \<Rightarrow> answer_log \<Rightarrow> step_outcome \<times> nat \<times> answer_log" where
  "log_one i st w = (log_outcome st, st - 1, w @ [(\<lparr>tk_id = i, tk_state = st - 1\<rparr>, log_outcome st)])"

definition log_group :: "u64 list \<Rightarrow> nat list \<Rightarrow> answer_log \<Rightarrow> step_outcome list option \<times> nat list \<times> answer_log" where
  "log_group ids states w =
     (let states' = map (\<lambda>st. st - 1) states; ocs = map log_outcome states in
      (Some ocs, states', w @ group_answers ids states' ocs))"

lemma log_callbacks:
  "slice_callback log_group" "step_account (\<lambda>answer. answer) mset log_one log_group"
  "quiet mset (\<lambda>i _ w. (i = 2, w)) (\<lambda>_ st w. (Some (), st, w))"
  by (simp_all add: slice_callback_def step_account_def quiet_def log_one_def log_group_def Let_def)

lemma log_callbacks_ids:
  "step_account (\<lambda>(t, _). tk_id t) (\<lambda>w. mset (map (\<lambda>(t, _). tk_id t) w)) log_one log_group"
  "quiet (\<lambda>w. mset (map (\<lambda>(t, _). tk_id t) w)) (\<lambda>i _ w. (i = 2, w)) (\<lambda>_ st w. (Some (), st, w))"
  by (simp_all add: step_account_def quiet_def log_one_def log_group_def Let_def)

lemma two_tasks_ok: "distinct (task_ids (two_tasks 0 (5::nat)))"
  "length (active (two_tasks 0 (5::nat))) \<le> max_slots (two_tasks 0 (5::nat))"
  by code_simp+

lemma two_tasks_round:
  "run_prioritized_grouped_round_n (\<lambda>i _ w. (i = 2, w)) (\<lambda>_ st w. (Some (), st, w)) log_one log_group
     (two_tasks (0::nat) 5) [] =
   Ok ([1], (two_tasks 0 5)\<lparr>waiting := [], active := [\<lparr>tk_id = 2, tk_state = 4\<rparr>]\<rparr>,
     [(\<lparr>tk_id = 2, tk_state = 4\<rparr>, Continue), (\<lparr>tk_id = 1, tk_state = 0\<rparr>, Complete)])"
  by code_simp

theorem grouped_round_n_fifo_witness:
  "\<exists>answers. completed_of answers = [1] \<and>
    mset answers = {#(\<lparr>tk_id = 2, tk_state = 4\<rparr>, Continue), (\<lparr>tk_id = 1, tk_state = (0::nat)\<rparr>, Complete)#}"
  using grouped_round_n_fifo [OF log_callbacks(1) two_tasks_ok log_callbacks(2,3), of "[]"]
  unfolding two_tasks_round by auto

theorem grouped_round_n_steps_once_witness:
  "mset [2, 1] = mset (map tk_id (active (fill_slots (two_tasks 0 (5::nat)))))"
  using grouped_round_n_steps_once [OF log_callbacks(1) two_tasks_ok log_callbacks_ids two_tasks_round] by simp

theorem prioritized_pair_round_panics_witness:
  "run_prioritized_grouped_round (\<lambda>i _ w. (i = 2, w)) (\<lambda>_ st w. (Some (), st, w)) log_one
     (\<lambda>_ s _ s' w. (None, s, s', w)) (two_tasks 0 5) [] = Panic"
proof -
  let ?key = "\<lambda>_ st w. (Some (), st, w)" and ?pref = "\<lambda>i _ w. (i = 2, w)"
  have k: "run_keys ?key (active (fill_slots (two_tasks (0::nat) 5))) ([] :: answer_log) =
      ([Some (), Some ()], [\<lparr>tk_id = 1, tk_state = 0\<rparr>, \<lparr>tk_id = 2, tk_state = 5\<rparr>], [])"
    by code_simp
  have p: "run_prefs ?pref [\<lparr>tk_id = 1, tk_state = (0::nat)\<rparr>, \<lparr>tk_id = 2, tk_state = 5\<rparr>] ([] :: answer_log) = ([False, True], [])"
    by code_simp
  show ?thesis
    unfolding prioritized_pair_round_panics [OF k p] by (intro exI [of _ "()"]) code_simp
qed

theorem grouped_round_fifo_witness:
  "\<exists>completed b' w'. run_grouped_round (\<lambda>_ st w. (Some (), st, w)) log_one (\<lambda>_ s _ s' w. (None, s, s', w))
      (two_tasks 0 5) [] = Ok (completed, b', w') \<and>
    task_ids b' = filter (\<lambda>i. i \<notin> set completed) (task_ids (two_tasks 0 (5::nat)))"
  using grouped_round_fifo [OF two_tasks_ok, where key = "\<lambda>_ st w. (Some (), st, w)" and step_one = log_one
      and step_pair = "\<lambda>_ s _ s' w. (None, s, s', w)" and w = "[]"]
  by blast

end
