(* ===== verification/Gguf_Wire.thy ===== *)
theory Gguf_Wire
  imports Prelude "HOL-Library.Char_ord"
begin

text \<open>
  The wire format of GGUF headers (\<open>src/src/gguf/reader.rs\<close>): metadata values, the byte cursor
  with its little-endian reads, strings and arrays. A file is the list of its bytes; the only
  failure of \<open>read_exact\<close> on it is the end of the file, other input errors of the operating
  system are not modelled. Signed integers are words read through \<open>sint\<close>, floats are their bit
  patterns, and a Rust \<open>String\<close> is the list of its UTF-8 bytes.

  The theorems: what \<open>write_value\<close>, the inverse of the format, produces is read back exactly,
  whatever follows it; and nothing that is read ever depends on bytes past it.
\<close>

section \<open>Values and errors\<close>

datatype metadata_value =
    MU8 u8
  | MI8 u8
  | MU16 u16
  | MI16 u16
  | MU32 u32
  | MI32 u32
  | MF32 u32
  | MBool bool
  | MString bytes
  | MArray "metadata_value list"
  | MU64 u64
  | MI64 u64
  | MF64 u64

text \<open>\<open>BackendError::InvalidGguf\<close> and \<open>BackendError::UnsupportedGguf\<close>, one constructor for each
  message of the reader.\<close>

datatype gguf_error =
    UnexpectedEof
  | CursorOverflow
  | StringTooLarge u64
  | InvalidUtf8
  | ArrayTooLarge u64
  | NestedArrays
  | UnsupportedValueType u32
  | BadMagic
  | UnsupportedVersion u32
  | NegativeCount
  | DuplicateMetadataKey bytes
  | NonIntegerAlignment
  | InvalidAlignment u64
  | TensorNameTooLong bytes
  | BadDimensionCount bytes u32
  | NegativeDimension bytes u64
  | AlignmentOverflow
  | DataStartBeyondEof
  | DuplicateTensorName bytes
  | NotContiguous bytes u64 u64
  | UnknownTensorType bytes
  | NotBlockMultiple bytes u64 u64
  | I2SNotMultiple bytes u64
  | ElementCountOverflow bytes
  | ByteSizeOverflow bytes
  | AbsoluteOffsetOverflow bytes
  | ByteRangeOverflow bytes
  | BeyondEof bytes
  | TensorOffsetOverflow
  | AmbiguousQ2Dialect
  | MissingMetadata bytes
  | WrongMetadataType bytes
  | MetadataOutOfRange bytes

section \<open>Little-endian integers and UTF-8\<close>

fun le_nat :: "bytes \<Rightarrow> nat" where
  "le_nat [] = 0"
| "le_nat (b # bs) = unat b + 256 * le_nat bs"

text \<open>\<open>from_le_bytes\<close>, on an array as long as the type is wide.\<close>

definition from_le_bytes :: "bytes \<Rightarrow> 'a::len word" where
  "from_le_bytes bs = of_nat (le_nat bs)"

text \<open>\<open>String::from_utf8\<close>: the well-formed byte sequences of the Unicode standard.\<close>

definition in_range :: "nat \<Rightarrow> nat \<Rightarrow> u8 \<Rightarrow> bool" where
  "in_range lo hi b = (lo \<le> unat b \<and> unat b \<le> hi)"

abbreviation cont_byte :: "u8 \<Rightarrow> bool" where
  "cont_byte \<equiv> in_range 0x80 0xBF"

fun utf8_valid :: "bytes \<Rightarrow> bool" where
  "utf8_valid [] = True"
| "utf8_valid (a # bs) =
     (if in_range 0 0x7F a then utf8_valid bs
      else if in_range 0xC2 0xDF a then
        (case bs of b # r \<Rightarrow> cont_byte b \<and> utf8_valid r | _ \<Rightarrow> False)
      else if in_range 0xE0 0xEF a then
        (case bs of b # c # r \<Rightarrow>
           (if unat a = 0xE0 then in_range 0xA0 0xBF b
            else if unat a = 0xED then in_range 0x80 0x9F b else cont_byte b) \<and>
           cont_byte c \<and> utf8_valid r
         | _ \<Rightarrow> False)
      else if in_range 0xF0 0xF4 a then
        (case bs of b # c # d # r \<Rightarrow>
           (if unat a = 0xF0 then in_range 0x90 0xBF b
            else if unat a = 0xF4 then in_range 0x80 0x8F b else cont_byte b) \<and>
           cont_byte c \<and> cont_byte d \<and> utf8_valid r
         | _ \<Rightarrow> False)
      else False)"

section \<open>The cursor\<close>

record cursor =
  cur_rest :: bytes
  cur_pos :: u64

type_synonym 'a reader = "cursor \<Rightarrow> ('a, gguf_error) outcome \<times> cursor"

text \<open>\<open>read_exact_into\<close> and \<open>read_bytes\<close>: on failure the source has consumed an unspecified part of
  the file, which nothing reads again, since every caller returns the error.\<close>

definition read_bytes :: "nat \<Rightarrow> bytes reader" where
  "read_bytes n c =
     (if length (cur_rest c) < n then (Err UnexpectedEof, c)
      else case checked_add (cur_pos c) (of_nat n) of
             None \<Rightarrow> (Err CursorOverflow, c)
           | Some pos \<Rightarrow>
               (Ok (take n (cur_rest c)), \<lparr>cur_rest = drop n (cur_rest c), cur_pos = pos\<rparr>))"

definition read_le :: "nat \<Rightarrow> 'a::len word reader" where
  "read_le n c = bindS (read_bytes n c) (\<lambda>bs c'. (Ok (from_le_bytes bs), c'))"

definition read_u8 :: "u8 reader" where "read_u8 = read_le 1"
definition read_u16 :: "u16 reader" where "read_u16 = read_le 2"
definition read_u32 :: "u32 reader" where "read_u32 = read_le 4"
definition read_u64 :: "u64 reader" where "read_u64 = read_le 8"

definition read_bool :: "bool reader" where
  "read_bool c = bindS (read_u8 c) (\<lambda>b c'. (Ok (b \<noteq> 0), c'))"

definition read_string :: "bytes reader" where
  "read_string c =
     bindS (read_u64 c) (\<lambda>len c1.
       if unat len > 16 * 1024 * 1024 then (Err (StringTooLarge len), c1)
       else bindS (read_bytes (unat len) c1) (\<lambda>bs c2.
         if utf8_valid bs then (Ok bs, c2) else (Err InvalidUtf8, c2)))"

section \<open>Metadata values\<close>

text \<open>\<open>read_value_of_type\<close> for every type but the array type 9, which an element never has.\<close>

definition read_scalar_of_type :: "u32 \<Rightarrow> metadata_value reader" where
  "read_scalar_of_type ty c =
     (if ty = 0 then bindS (read_u8 c) (\<lambda>v c'. (Ok (MU8 v), c'))
      else if ty = 1 then bindS (read_u8 c) (\<lambda>v c'. (Ok (MI8 v), c'))
      else if ty = 2 then bindS (read_u16 c) (\<lambda>v c'. (Ok (MU16 v), c'))
      else if ty = 3 then bindS (read_u16 c) (\<lambda>v c'. (Ok (MI16 v), c'))
      else if ty = 4 then bindS (read_u32 c) (\<lambda>v c'. (Ok (MU32 v), c'))
      else if ty = 5 then bindS (read_u32 c) (\<lambda>v c'. (Ok (MI32 v), c'))
      else if ty = 6 then bindS (read_u32 c) (\<lambda>v c'. (Ok (MF32 v), c'))
      else if ty = 7 then bindS (read_bool c) (\<lambda>v c'. (Ok (MBool v), c'))
      else if ty = 8 then bindS (read_string c) (\<lambda>v c'. (Ok (MString v), c'))
      else if ty = 10 then bindS (read_u64 c) (\<lambda>v c'. (Ok (MU64 v), c'))
      else if ty = 11 then bindS (read_u64 c) (\<lambda>v c'. (Ok (MI64 v), c'))
      else if ty = 12 then bindS (read_u64 c) (\<lambda>v c'. (Ok (MF64 v), c'))
      else (Err (UnsupportedValueType ty), c))"

fun read_elements :: "u32 \<Rightarrow> nat \<Rightarrow> metadata_value list reader" where
  "read_elements ty 0 c = (Ok [], c)"
| "read_elements ty (Suc n) c =
     bindS (read_scalar_of_type ty c) (\<lambda>v c1.
     bindS (read_elements ty n c1) (\<lambda>vs c2. (Ok (v # vs), c2)))"

definition read_value_of_type :: "u32 \<Rightarrow> metadata_value reader" where
  "read_value_of_type ty c =
     (if ty = 9 then
        bindS (read_u32 c) (\<lambda>element_ty c1.
          if element_ty = 9 then (Err NestedArrays, c1)
          else bindS (read_u64 c1) (\<lambda>len c2.
            if unat len > 1000000 then (Err (ArrayTooLarge len), c2)
            else bindS (read_elements element_ty (unat len) c2) (\<lambda>vs c3. (Ok (MArray vs), c3))))
      else read_scalar_of_type ty c)"

definition read_value :: "metadata_value reader" where
  "read_value c = bindS (read_u32 c) read_value_of_type"

section \<open>The inverse of the format\<close>

fun to_le :: "nat \<Rightarrow> nat \<Rightarrow> bytes" where
  "to_le 0 n = []"
| "to_le (Suc k) n = of_nat (n mod 256) # to_le k (n div 256)"

definition write_string :: "bytes \<Rightarrow> bytes" where
  "write_string s = to_le 8 (length s) @ s"

fun value_type :: "metadata_value \<Rightarrow> nat" where
  "value_type (MU8 _) = 0"
| "value_type (MI8 _) = 1"
| "value_type (MU16 _) = 2"
| "value_type (MI16 _) = 3"
| "value_type (MU32 _) = 4"
| "value_type (MI32 _) = 5"
| "value_type (MF32 _) = 6"
| "value_type (MBool _) = 7"
| "value_type (MString _) = 8"
| "value_type (MArray _) = 9"
| "value_type (MU64 _) = 10"
| "value_type (MI64 _) = 11"
| "value_type (MF64 _) = 12"

fun write_scalar :: "metadata_value \<Rightarrow> bytes" where
  "write_scalar (MU8 v) = to_le 1 (unat v)"
| "write_scalar (MI8 v) = to_le 1 (unat v)"
| "write_scalar (MU16 v) = to_le 2 (unat v)"
| "write_scalar (MI16 v) = to_le 2 (unat v)"
| "write_scalar (MU32 v) = to_le 4 (unat v)"
| "write_scalar (MI32 v) = to_le 4 (unat v)"
| "write_scalar (MF32 v) = to_le 4 (unat v)"
| "write_scalar (MBool v) = to_le 1 (if v then 1 else 0)"
| "write_scalar (MString s) = write_string s"
| "write_scalar (MArray vs) = []"
| "write_scalar (MU64 v) = to_le 8 (unat v)"
| "write_scalar (MI64 v) = to_le 8 (unat v)"
| "write_scalar (MF64 v) = to_le 8 (unat v)"

text \<open>An array is written with the type of its first element; an empty one with type 0.\<close>

definition element_type :: "metadata_value list \<Rightarrow> nat" where
  "element_type vs = (case vs of [] \<Rightarrow> 0 | v # _ \<Rightarrow> value_type v)"

definition write_body :: "metadata_value \<Rightarrow> bytes" where
  "write_body v =
     (case v of
        MArray vs \<Rightarrow> to_le 4 (element_type vs) @ to_le 8 (length vs) @ concat (map write_scalar vs)
      | _ \<Rightarrow> write_scalar v)"

definition write_value :: "metadata_value \<Rightarrow> bytes" where
  "write_value v = to_le 4 (value_type v) @ write_body v"

definition string_ok :: "bytes \<Rightarrow> bool" where
  "string_ok s = (length s \<le> 16 * 1024 * 1024 \<and> utf8_valid s)"

fun scalar_ok :: "metadata_value \<Rightarrow> bool" where
  "scalar_ok (MString s) = string_ok s"
| "scalar_ok (MArray vs) = False"
| "scalar_ok v = True"

definition value_ok :: "metadata_value \<Rightarrow> bool" where
  "value_ok v =
     (case v of
        MArray vs \<Rightarrow> length vs \<le> 1000000 \<and> list_all (\<lambda>e. scalar_ok e \<and> value_type e = element_type vs) vs
      | _ \<Rightarrow> scalar_ok v)"

section \<open>Reading back\<close>

lemma length_to_le [simp]: "length (to_le k n) = k"
  by (induction k arbitrary: n) auto

lemma le_nat_to_le: "le_nat (to_le k n) = n mod 256 ^ k"
proof (induction k arbitrary: n)
  case 0
  then show ?case by simp
next
  case (Suc k)
  have "unat (of_nat (n mod 256) :: u8) = n mod 256" by (rule unat_of_nat_small) simp
  then show ?case by (simp add: Suc mod_mult2_eq)
qed

lemma from_le_to_le:
  assumes "k * 8 = LENGTH('a::len)"
  shows "from_le_bytes (to_le k (unat v)) = (v :: 'a word)"
proof -
  have "(256::nat) ^ k = 2 ^ LENGTH('a)" unfolding assms [symmetric] mult.commute [of k] power_mult by simp
  moreover have "unat v < 2 ^ LENGTH('a)" by (rule unsigned_less)
  ultimately show ?thesis by (simp add: from_le_bytes_def le_nat_to_le)
qed

text \<open>A reader that consumes exactly the bytes \<open>bs\<close> and returns \<open>v\<close>, whatever follows them.\<close>

definition reads :: "'a reader \<Rightarrow> bytes \<Rightarrow> 'a \<Rightarrow> bool" where
  "reads r bs v \<longleftrightarrow> (\<forall>more pos. unat pos + length bs < 2 ^ 64 \<longrightarrow>
     r \<lparr>cur_rest = bs @ more, cur_pos = pos\<rparr> =
       (Ok v, \<lparr>cur_rest = more, cur_pos = pos + of_nat (length bs)\<rparr>))"

lemma reads_bind:
  assumes "reads r bs v" "reads (k v) cs w"
  shows "reads (\<lambda>c. bindS (r c) k) (bs @ cs) w"
  unfolding reads_def
proof (intro allI impI)
  fix more and pos :: u64 assume len: "unat pos + length (bs @ cs) < 2 ^ 64"
  have lt: "length bs < 2 ^ 64" using len by simp
  have pos: "unat (pos + of_nat (length bs) :: u64) = unat pos + length bs"
    using len lt by (simp add: unat_word_ariths unat_of_nat_small)
  have "r \<lparr>cur_rest = bs @ cs @ more, cur_pos = pos\<rparr> =
      (Ok v, \<lparr>cur_rest = cs @ more, cur_pos = pos + of_nat (length bs)\<rparr>)"
    using assms(1) len by (simp add: reads_def)
  moreover have "k v \<lparr>cur_rest = cs @ more, cur_pos = pos + of_nat (length bs)\<rparr> =
      (Ok w, \<lparr>cur_rest = more, cur_pos = pos + of_nat (length bs) + of_nat (length cs)\<rparr>)"
    using assms(2) len pos by (simp add: reads_def)
  ultimately show "bindS (r \<lparr>cur_rest = (bs @ cs) @ more, cur_pos = pos\<rparr>) k =
      (Ok w, \<lparr>cur_rest = more, cur_pos = pos + of_nat (length (bs @ cs))\<rparr>)"
    by (simp add: ac_simps)
qed

lemma reads_return [simp]: "reads (\<lambda>c. (Ok v, c)) [] v"
  by (simp add: reads_def)

lemma reads_map: "reads r bs v \<Longrightarrow> reads (\<lambda>c. bindS (r c) (\<lambda>x c'. (Ok (f x), c'))) bs (f v)"
  using reads_bind [of r bs v "\<lambda>x c'. (Ok (f x), c')" "[]"] by simp

lemma reads_bytes:
  assumes "length bs = n"
  shows "reads (read_bytes n) bs bs"
  unfolding reads_def
proof (intro allI impI)
  fix more and pos :: u64 assume len: "unat pos + length bs < 2 ^ 64"
  then have "checked_add pos (of_nat n) = Some (pos + of_nat n)"
    using assms by (simp add: checked_add_def unat_of_nat_small)
  then show "read_bytes n \<lparr>cur_rest = bs @ more, cur_pos = pos\<rparr> =
      (Ok bs, \<lparr>cur_rest = more, cur_pos = pos + of_nat (length bs)\<rparr>)"
    using assms by (simp add: read_bytes_def)
qed

lemma reads_le:
  assumes "k * 8 = LENGTH('a::len)"
  shows "reads (read_le k) (to_le k (unat v)) (v :: 'a word)"
proof -
  have "reads (\<lambda>c. bindS (read_bytes k c) (\<lambda>x c'. (Ok (from_le_bytes x :: 'a word), c'))) (to_le k (unat v))
      (from_le_bytes (to_le k (unat v)))"
    by (rule reads_map) (simp add: reads_bytes)
  then show ?thesis by (simp add: from_le_to_le [OF assms] read_le_def [abs_def])
qed

lemma reads_ints:
  "reads read_u8 (to_le 1 (unat a)) a" "reads read_u16 (to_le 2 (unat b)) b"
  "reads read_u32 (to_le 4 (unat c)) c" "reads read_u64 (to_le 8 (unat d)) d"
  unfolding read_u8_def read_u16_def read_u32_def read_u64_def
  by (rule reads_le, simp)+

lemma reads_u32_nat: "n < 2 ^ 32 \<Longrightarrow> reads read_u32 (to_le 4 n) (of_nat n)"
  using reads_ints(3) [of "of_nat n"] by (simp add: unat_of_nat_small)

lemma reads_u64_nat: "n < 2 ^ 64 \<Longrightarrow> reads read_u64 (to_le 8 n) (of_nat n)"
  using reads_ints(4) [of "of_nat n"] by (simp add: unat_of_nat_small)

lemma reads_string:
  assumes "string_ok s"
  shows "reads read_string (write_string s) s"
proof -
  have len: "length s \<le> 16 * 1024 * 1024" "utf8_valid s" using assms by (auto simp: string_ok_def)
  then have u: "unat (of_nat (length s) :: u64) = length s" by (intro unat_of_nat_small) simp
  have a: "reads read_u64 (to_le 8 (length s)) (of_nat (length s))" by (rule reads_u64_nat) (use len in simp)
  have b: "reads (\<lambda>c. bindS (read_bytes (length s) c) (\<lambda>bs c'. if utf8_valid bs then (Ok bs, c') else (Err InvalidUtf8, c'))) (s @ []) s"
    by (rule reads_bind [OF reads_bytes]) (use len in simp_all)
  have "reads (\<lambda>c. bindS (read_u64 c) (\<lambda>len c1.
       if unat len > 16 * 1024 * 1024 then (Err (StringTooLarge len), c1)
       else bindS (read_bytes (unat len) c1) (\<lambda>bs c2.
         if utf8_valid bs then (Ok bs, c2) else (Err InvalidUtf8, c2)))) (to_le 8 (length s) @ s) s"
    by (rule reads_bind [OF a]) (use b len u in simp)
  then show ?thesis by (simp add: read_string_def [abs_def] write_string_def)
qed

lemma reads_bool: "reads read_bool (to_le 1 (if v then 1 else 0)) v"
proof -
  have "reads (\<lambda>c. bindS (read_u8 c) (\<lambda>b c'. (Ok (b \<noteq> 0), c'))) (to_le 1 (unat (if v then 1 else 0 :: u8)))
      ((if v then 1 else 0 :: u8) \<noteq> 0)"
    by (rule reads_map [OF reads_ints(1)])
  then show ?thesis by (cases v) (simp_all add: read_bool_def [abs_def])
qed

lemmas reads_scalar_maps =
  reads_map [OF reads_ints(1)] reads_map [OF reads_ints(2)] reads_map [OF reads_ints(3)]
  reads_map [OF reads_ints(4)] reads_map [OF reads_bool] reads_map [OF reads_string]

lemma reads_scalar:
  assumes "scalar_ok v"
  shows "reads (read_scalar_of_type (of_nat (value_type v))) (write_scalar v) v"
proof (cases v)
  case (MString s)
  with assms show ?thesis using reads_map [OF reads_string, of s MString] by (simp add: read_scalar_of_type_def [abs_def])
next
  case (MBool b)
  then show ?thesis using reads_map [OF reads_bool, of MBool b] by (cases b) (simp_all add: read_scalar_of_type_def [abs_def])
qed (use assms reads_scalar_maps in \<open>simp_all add: read_scalar_of_type_def [abs_def]\<close>)

lemma reads_elements:
  "list_all (\<lambda>e. scalar_ok e \<and> value_type e = ty) vs \<Longrightarrow>
    reads (read_elements (of_nat ty) (length vs)) (concat (map write_scalar vs)) vs"
proof (induction vs)
  case Nil
  then show ?case by (simp add: reads_def)
next
  case (Cons v vs)
  then have v: "reads (read_scalar_of_type (of_nat ty)) (write_scalar v) v"
    and vs: "reads (read_elements (of_nat ty) (length vs)) (concat (map write_scalar vs)) vs"
    using reads_scalar [of v] by auto
  have "reads (\<lambda>c. bindS (read_scalar_of_type (of_nat ty) c) (\<lambda>v c1.
     bindS (read_elements (of_nat ty) (length vs) c1) (\<lambda>vs c2. (Ok (v # vs), c2))))
     (write_scalar v @ concat (map write_scalar vs)) (v # vs)"
    by (rule reads_bind [OF v]) (rule reads_map [OF vs])
  moreover have "read_elements (of_nat ty) (length (v # vs)) = (\<lambda>c. bindS (read_scalar_of_type (of_nat ty) c) (\<lambda>v c1.
     bindS (read_elements (of_nat ty) (length vs) c1) (\<lambda>vs c2. (Ok (v # vs), c2))))"
    by (simp add: fun_eq_iff)
  ultimately show ?case by simp
qed

lemma value_type_le: "value_type v \<le> 12"
  by (cases v) auto

lemma of_nat_u32_eq_9: "n \<le> 12 \<Longrightarrow> (of_nat n :: u32) = 9 \<longleftrightarrow> n = 9"
proof -
  assume n: "n \<le> 12"
  have "(of_nat n :: u32) = 9 \<longleftrightarrow> unat (of_nat n :: u32) = unat (9 :: u32)" by (rule word_unat_eq_iff)
  also have "unat (of_nat n :: u32) = n" using n by (intro unat_of_nat_small) simp
  also have "unat (9 :: u32) = 9" by simp
  finally show ?thesis .
qed

lemma element_type_array:
  assumes "value_ok (MArray vs)"
  shows "element_type vs \<le> 12" "element_type vs \<noteq> 9"
proof -
  show "element_type vs \<le> 12" by (cases vs) (simp_all add: element_type_def value_type_le)
  show "element_type vs \<noteq> 9"
  proof (cases vs)
    case (Cons v ws)
    with assms have "scalar_ok v" by (simp add: value_ok_def)
    with Cons show ?thesis by (cases v) (simp_all add: element_type_def)
  qed (simp add: element_type_def)
qed

lemma reads_array:
  assumes "value_ok (MArray vs)"
  shows "reads (read_value_of_type 9) (write_body (MArray vs)) (MArray vs)"
proof -
  note et = element_type_array [OF assms]
  have len: "length vs \<le> 1000000" and all: "list_all (\<lambda>e. scalar_ok e \<and> value_type e = element_type vs) vs"
    using assms by (auto simp: value_ok_def)
  have u: "unat (of_nat (length vs) :: u64) = length vs" by (rule unat_of_nat_small) (use len in simp)
  have n9: "(of_nat (element_type vs) :: u32) \<noteq> 9" using et by (simp add: of_nat_u32_eq_9)
  have r1: "reads read_u32 (to_le 4 (element_type vs)) (of_nat (element_type vs))"
    by (rule reads_u32_nat) (use et in simp)
  have r2: "reads read_u64 (to_le 8 (length vs)) (of_nat (length vs))"
    by (rule reads_u64_nat) (use len in simp)
  note r3 = reads_map [OF reads_elements [OF all], of MArray]
  have "reads (\<lambda>c1. bindS (read_u64 c1) (\<lambda>len c2.
            if unat len > 1000000 then (Err (ArrayTooLarge len), c2)
            else bindS (read_elements (of_nat (element_type vs)) (unat len) c2) (\<lambda>vs c3. (Ok (MArray vs), c3))))
      (to_le 8 (length vs) @ concat (map write_scalar vs)) (MArray vs)"
    by (rule reads_bind [OF r2]) (use r3 u len in simp)
  with reads_bind [OF r1, of "\<lambda>element_ty c1. if element_ty = 9 then (Err NestedArrays, c1)
          else bindS (read_u64 c1) (\<lambda>len c2.
            if unat len > 1000000 then (Err (ArrayTooLarge len), c2)
            else bindS (read_elements element_ty (unat len) c2) (\<lambda>vs c3. (Ok (MArray vs), c3)))"
      "to_le 8 (length vs) @ concat (map write_scalar vs)" "MArray vs"] n9
  show ?thesis by (simp add: read_value_of_type_def [abs_def] write_body_def)
qed

lemma reads_value_of_type:
  assumes "value_ok v"
  shows "reads (read_value_of_type (of_nat (value_type v))) (write_body v) v"
proof (cases "\<exists>vs. v = MArray vs")
  case True
  with assms reads_array show ?thesis by auto
next
  case False
  then have "value_type v \<noteq> 9" "scalar_ok v" "write_body v = write_scalar v"
    using assms by (cases v; simp add: value_ok_def write_body_def)+
  moreover from this have "(of_nat (value_type v) :: u32) \<noteq> 9" using of_nat_u32_eq_9 [OF value_type_le] by simp
  ultimately show ?thesis
    using reads_scalar [of v] by (simp add: read_value_of_type_def [abs_def])
qed

lemma reads_value: "value_ok v \<Longrightarrow> reads read_value (write_value v) v"
  unfolding read_value_def [abs_def] write_value_def
  by (rule reads_bind [where v = "of_nat (value_type v)"], rule reads_u32_nat)
    (use value_type_le [of v] reads_value_of_type [of v] in auto)

text \<open>The recursion of the source: an array reads its elements by the same function.\<close>

lemma read_elements_rec:
  "element_ty \<noteq> 9 \<Longrightarrow> read_elements element_ty (Suc n) c =
    bindS (read_value_of_type element_ty c) (\<lambda>v c1.
    bindS (read_elements element_ty n c1) (\<lambda>vs c2. (Ok (v # vs), c2)))"
  by (simp add: read_value_of_type_def)

section \<open>Reads stay inside the file\<close>

text \<open>A reader that is local: it only ever moves forward over the bytes, in step with the position,
  and never panics.\<close>

definition local_reader :: "'a reader \<Rightarrow> bool" where
  "local_reader r \<longleftrightarrow> (\<forall>c. fst (r c) \<noteq> Panic \<and>
     (\<exists>k \<le> length (cur_rest c). cur_rest (snd (r c)) = drop k (cur_rest c) \<and>
        unat (cur_pos (snd (r c))) = unat (cur_pos c) + k))"

lemma local_bind:
  assumes "local_reader r" "\<And>x. local_reader (k x)"
  shows "local_reader (\<lambda>c. bindS (r c) k)"
  unfolding local_reader_def
proof
  fix c
  obtain o1 c1 where r: "r c = (o1, c1)" by (cases "r c")
  from assms(1) r obtain m where m: "o1 \<noteq> Panic" "m \<le> length (cur_rest c)" "cur_rest c1 = drop m (cur_rest c)"
    "unat (cur_pos c1) = unat (cur_pos c) + m" by (auto simp: local_reader_def dest!: spec [of _ c])
  show "fst (bindS (r c) k) \<noteq> Panic \<and> (\<exists>n \<le> length (cur_rest c).
      cur_rest (snd (bindS (r c) k)) = drop n (cur_rest c) \<and>
      unat (cur_pos (snd (bindS (r c) k))) = unat (cur_pos c) + n)"
  proof (cases o1)
    case (Ok x)
    from assms(2) [of x] obtain n where "fst (k x c1) \<noteq> Panic" "n \<le> length (cur_rest c1)"
      "cur_rest (snd (k x c1)) = drop n (cur_rest c1)" "unat (cur_pos (snd (k x c1))) = unat (cur_pos c1) + n"
      by (auto simp: local_reader_def dest!: spec [of _ c1])
    with m r Ok show ?thesis by (auto intro!: exI [of _ "n + m"] simp: add.commute [of m n])
  next
    case (Err e)
    with m r show ?thesis by auto
  qed (use m in simp)
qed

lemma local_return [simp]: "local_reader (\<lambda>c. (Ok v, c))" "local_reader (\<lambda>c. (Err e, c))"
  by (auto simp: local_reader_def intro!: exI [of _ 0])

lemma local_if: "local_reader a \<Longrightarrow> local_reader b \<Longrightarrow> local_reader (\<lambda>c. if P then a c else b c)"
  by (cases P) auto

lemma local_read_bytes: "n < 2 ^ 64 \<Longrightarrow> local_reader (read_bytes n)"
  by (auto simp: local_reader_def read_bytes_def checked_add_Some_iff unat_of_nat_small
      split: option.splits intro!: exI [of _ 0] exI [of _ n])

lemma local_read_le: "n < 2 ^ 64 \<Longrightarrow> local_reader (read_le n)"
  unfolding read_le_def [abs_def] by (intro local_bind local_read_bytes local_return)

lemma local_ints: "local_reader read_u8" "local_reader read_u16" "local_reader read_u32" "local_reader read_u64"
  by (simp_all add: read_u8_def read_u16_def read_u32_def read_u64_def local_read_le)

lemma local_string: "local_reader read_string"
  unfolding read_string_def [abs_def]
  by (intro local_bind local_if local_ints local_return local_read_bytes) (use unat_u64_less in auto)

lemma local_bool: "local_reader read_bool"
  unfolding read_bool_def [abs_def] by (intro local_bind local_ints local_return)

lemma local_scalar: "local_reader (read_scalar_of_type ty)"
  unfolding read_scalar_of_type_def [abs_def]
  by (intro local_if local_bind local_ints local_string local_bool local_return)

lemma local_elements: "local_reader (read_elements ty n)"
proof (induction n)
  case 0
  have "read_elements ty 0 = (\<lambda>c. (Ok [], c))" by (simp add: fun_eq_iff)
  then show ?case by simp
next
  case (Suc n)
  have "read_elements ty (Suc n) = (\<lambda>c. bindS (read_scalar_of_type ty c) (\<lambda>v c1.
     bindS (read_elements ty n c1) (\<lambda>vs c2. (Ok (v # vs), c2))))" by (simp add: fun_eq_iff)
  then show ?case by (simp only:) (intro local_bind local_scalar Suc local_return)
qed

lemma local_value: "local_reader read_value"
  unfolding read_value_def [abs_def] read_value_of_type_def [abs_def]
  by (intro local_bind local_if local_ints local_scalar local_elements local_return)

section \<open>Reads depend only on what they consume\<close>

definition prefix_reader :: "'a reader \<Rightarrow> bool" where
  "prefix_reader r \<longleftrightarrow> (\<forall>c v c' xs. r c = (Ok v, c') \<longrightarrow>
     r (c\<lparr>cur_rest := cur_rest c @ xs\<rparr>) = (Ok v, c'\<lparr>cur_rest := cur_rest c' @ xs\<rparr>))"

lemma prefix_bind:
  assumes "prefix_reader r" "\<And>x. prefix_reader (k x)"
  shows "prefix_reader (\<lambda>c. bindS (r c) k)"
  unfolding prefix_reader_def
proof (intro allI impI)
  fix c v c' xs assume "bindS (r c) k = (Ok v, c')"
  then obtain x c1 where x: "r c = (Ok x, c1)" "k x c1 = (Ok v, c')" by (auto simp: bindS_Ok_iff)
  have "r (c\<lparr>cur_rest := cur_rest c @ xs\<rparr>) = (Ok x, c1\<lparr>cur_rest := cur_rest c1 @ xs\<rparr>)"
    "k x (c1\<lparr>cur_rest := cur_rest c1 @ xs\<rparr>) = (Ok v, c'\<lparr>cur_rest := cur_rest c' @ xs\<rparr>)"
    using assms(1) x(1) assms(2) [of x] x(2) by (auto simp: prefix_reader_def)
  then show "bindS (r (c\<lparr>cur_rest := cur_rest c @ xs\<rparr>)) k = (Ok v, c'\<lparr>cur_rest := cur_rest c' @ xs\<rparr>)"
    by simp
qed

lemma prefix_return [simp]:
  "prefix_reader (\<lambda>c. (Ok v, c))" "prefix_reader (\<lambda>c. (Err e, c))" "prefix_reader (\<lambda>c. (r, c))"
  by (auto simp: prefix_reader_def)

lemma prefix_if: "prefix_reader a \<Longrightarrow> prefix_reader b \<Longrightarrow> prefix_reader (\<lambda>c. if P then a c else b c)"
  by (cases P) auto

lemma prefix_read_bytes: "prefix_reader (read_bytes n)"
  by (auto simp: prefix_reader_def read_bytes_def split: if_splits option.splits)

lemma prefix_read_le: "prefix_reader (read_le n)"
  unfolding read_le_def [abs_def] by (intro prefix_bind prefix_read_bytes prefix_return)

lemma prefix_ints: "prefix_reader read_u8" "prefix_reader read_u16" "prefix_reader read_u32" "prefix_reader read_u64"
  by (simp_all add: read_u8_def read_u16_def read_u32_def read_u64_def prefix_read_le)

lemma prefix_string: "prefix_reader read_string"
  unfolding read_string_def [abs_def]
  by (intro prefix_bind prefix_if prefix_ints prefix_return prefix_read_bytes)

lemma prefix_bool: "prefix_reader read_bool"
  unfolding read_bool_def [abs_def] by (intro prefix_bind prefix_ints prefix_return)

lemma prefix_scalar: "prefix_reader (read_scalar_of_type ty)"
  unfolding read_scalar_of_type_def [abs_def]
  by (intro prefix_if prefix_bind prefix_ints prefix_string prefix_bool prefix_return)

lemma prefix_elements: "prefix_reader (read_elements ty n)"
proof (induction n)
  case 0
  have "read_elements ty 0 = (\<lambda>c. (Ok [], c))" by (simp add: fun_eq_iff)
  then show ?case by simp
next
  case (Suc n)
  have "read_elements ty (Suc n) = (\<lambda>c. bindS (read_scalar_of_type ty c) (\<lambda>v c1.
     bindS (read_elements ty n c1) (\<lambda>vs c2. (Ok (v # vs), c2))))" by (simp add: fun_eq_iff)
  then show ?case by (simp only:) (intro prefix_bind prefix_scalar Suc prefix_return)
qed

lemma prefix_value: "prefix_reader read_value"
  unfolding read_value_def [abs_def] read_value_of_type_def [abs_def]
  by (intro prefix_bind prefix_if prefix_ints prefix_scalar prefix_elements prefix_return)

section \<open>Properties\<close>

text \<open>C34. Metadata values survive the wire: for every value the format can carry (no nested array, arrays
  of one element type and at most a million elements, valid UTF-8 strings of at most 16 MiB),
  reading its bytes gives the value back, consumes exactly those bytes, whatever follows them,
  and moves the position by their number.\<close>

theorem read_write_value:
  assumes "value_ok v" "unat pos + length (write_value v) < 2 ^ 64"
  shows "read_value \<lparr>cur_rest = write_value v @ following, cur_pos = pos\<rparr> =
    (Ok v, \<lparr>cur_rest = following, cur_pos = pos + of_nat (length (write_value v))\<rparr>)"
  using reads_value [OF assms(1)] assms(2) by (simp add: reads_def)

text \<open>Reading a value from arbitrary bytes always returns a value or an error, never panics, only moves
  forward, never past the end, and the position counts exactly the bytes consumed.\<close>

theorem read_value_total:
  "\<exists>r c' k. read_value c = (r, c') \<and> r \<noteq> Panic \<and> k \<le> length (cur_rest c) \<and>
    cur_rest c' = drop k (cur_rest c) \<and> unat (cur_pos c') = unat (cur_pos c) + k"
  using local_value unfolding local_reader_def by (metis prod.collapse)

theorem read_write_value_witness:
  "read_value \<lparr>cur_rest = write_value (MArray [MString [104, 105], MString []]) @ [7], cur_pos = 24\<rparr> =
    (Ok (MArray [MString [104, 105], MString []]), \<lparr>cur_rest = [7], cur_pos = 58\<rparr>)"
proof -
  let ?v = "MArray [MString [104, 105], MString []]"
  have ok: "value_ok ?v" by code_simp
  have "length (write_value ?v) = 34" by code_simp
  with read_write_value [OF ok, of 24 "[7]"] show ?thesis by simp
qed

end
