(* ===== verification/Gguf_Directory.thy ===== *)
theory Gguf_Directory
  imports Gguf_Wire
begin

text \<open>
  GGUF headers (\<open>src/src/gguf/reader.rs\<close>): tensor types and their block layouts, byte sizes,
  alignment, the resolution of the two layouts that share type id 42, and the whole of
  \<open>read_metadata_with_len\<close>, from the magic to the checked tensor directory. The file is the list
  of its bytes and \<open>declared_len\<close> the length its tensors are checked against.

  The theorems: every accepted file has a directory whose tensors lie in order, aligned, disjoint
  and inside the declared length, with exact byte sizes; no input makes the parser panic; the
  result depends on the header bytes alone; a type 42 layout is accepted only when the directory
  singles it out.
\<close>

section \<open>Tensor types\<close>

datatype tensor_type =
    F32 | F16 | Q4_0 | Q4_1 | Q5_0 | Q5_1 | Q8_0 | Q8_1 | Q2K | Q3K | Q4K | Q5K | Q6K | Q8K
  | IQ4NL | IQ4XS | Tq1_0 | Tq2_0 | I2S | I8 | I16 | I32 | I64 | F64 | BF16 | NVFP4 | Q1_0
  | Q2_0 | Q2_0G64 | Q2_0G128 | Pq2_0 | Ptq1_0 | UnknownType u32

definition from_id :: "u32 \<Rightarrow> tensor_type" where
  "from_id v =
     (if v = 0 then F32 else if v = 1 then F16 else if v = 2 then Q4_0 else if v = 3 then Q4_1
      else if v = 6 then Q5_0 else if v = 7 then Q5_1 else if v = 8 then Q8_0 else if v = 9 then Q8_1
      else if v = 10 then Q2K else if v = 11 then Q3K else if v = 12 then Q4K else if v = 13 then Q5K
      else if v = 14 then Q6K else if v = 15 then Q8K else if v = 20 then IQ4NL else if v = 23 then IQ4XS
      else if v = 34 then Tq1_0 else if v = 35 then Tq2_0 else if v = 36 then I2S
      else if v = 24 then I8 else if v = 25 then I16 else if v = 26 then I32 else if v = 27 then I64
      else if v = 28 then F64 else if v = 30 then BF16 else if v = 40 then NVFP4 else if v = 41 then Q1_0
      else if v = 42 then Q2_0 else if v = 142 then Pq2_0 else if v = 143 then Ptq1_0
      else UnknownType v)"

fun layout :: "tensor_type \<Rightarrow> (u64 \<times> u64) option" where
  "layout F32 = Some (1, 4)"
| "layout F16 = Some (1, 2)"
| "layout Q4_0 = Some (32, 18)"
| "layout Q4_1 = Some (32, 20)"
| "layout Q5_0 = Some (32, 22)"
| "layout Q5_1 = Some (32, 24)"
| "layout Q8_0 = Some (32, 34)"
| "layout Q8_1 = Some (32, 36)"
| "layout Q2K = Some (256, 84)"
| "layout Q3K = Some (256, 110)"
| "layout Q4K = Some (256, 144)"
| "layout Q5K = Some (256, 176)"
| "layout Q6K = Some (256, 210)"
| "layout Q8K = Some (256, 292)"
| "layout IQ4NL = Some (32, 18)"
| "layout IQ4XS = Some (256, 136)"
| "layout Tq1_0 = Some (256, 54)"
| "layout Tq2_0 = Some (256, 66)"
| "layout I2S = None"
| "layout NVFP4 = Some (64, 36)"
| "layout Q1_0 = Some (128, 18)"
| "layout Q2_0 = None"
| "layout Q2_0G64 = Some (64, 18)"
| "layout Q2_0G128 = Some (128, 34)"
| "layout Pq2_0 = Some (128, 34)"
| "layout Ptq1_0 = Some (128, 28)"
| "layout I8 = Some (1, 1)"
| "layout I16 = Some (1, 2)"
| "layout BF16 = Some (1, 2)"
| "layout I32 = Some (1, 4)"
| "layout I64 = Some (1, 8)"
| "layout F64 = Some (1, 8)"
| "layout (UnknownType _) = None"

section \<open>Sizes and alignment\<close>

text \<open>The element product, with \<open>checked_mul\<close> at each dimension.\<close>

fun element_count :: "bytes \<Rightarrow> u64 list \<Rightarrow> u64 \<Rightarrow> (u64, gguf_error) outcome" where
  "element_count name [] acc = Ok acc"
| "element_count name (d # ds) acc =
     bindR (ok_or (checked_mul acc d) (ElementCountOverflow name)) (element_count name ds)"

definition tensor_nbytes :: "bytes \<Rightarrow> u64 list \<Rightarrow> tensor_type \<Rightarrow> (u64, gguf_error) outcome" where
  "tensor_nbytes name dims ty =
     (if ty = I2S then
        bindR (element_count name dims 1) (\<lambda>elements.
          if elements mod 4 \<noteq> 0 then Err (I2SNotMultiple name elements)
          else ok_or (checked_add (elements div 4) 32) (ByteSizeOverflow name))
      else
        case layout ty of
          None \<Rightarrow> Err (UnknownTensorType name)
        | Some (block_size, type_size) \<Rightarrow>
            let first_dim = (case dims of [] \<Rightarrow> 1 | d # _ \<Rightarrow> d) in
            if first_dim mod block_size \<noteq> 0 then Err (NotBlockMultiple name first_dim block_size)
            else bindR (element_count name dims 1) (\<lambda>elements.
              ok_or (checked_mul (elements div block_size) type_size) (ByteSizeOverflow name)))"

text \<open>\<open>align_to\<close>; \<open>alignment - 1\<close> underflows for alignment zero.\<close>

definition align_to :: "u64 \<Rightarrow> u64 \<Rightarrow> (u64, gguf_error) outcome" where
  "align_to v alignment =
     (if alignment = 0 then Panic
      else let add = alignment - 1 in
        case checked_add v add of
          Some s \<Rightarrow> Ok (s AND NOT add)
        | None \<Rightarrow> Err AlignmentOverflow)"

definition is_power_of_two :: "u64 \<Rightarrow> bool" where
  "is_power_of_two a = list_ex (\<lambda>k. a = 2 ^ k) [0..<64]"

section \<open>The tensor directory\<close>

type_synonym raw_tensor = "bytes \<times> u64 list \<times> tensor_type \<times> u64"

record tensor_descriptor =
  td_name :: bytes
  td_dimensions :: "u64 list"
  td_type :: tensor_type
  td_relative_offset :: u64
  td_absolute_offset :: u64
  td_n_bytes :: u64

text \<open>The loop of \<open>validate_tensor_directory\<close>, with its two variables.\<close>

fun validate_directory_loop ::
  "tensor_type \<Rightarrow> u64 \<Rightarrow> u64 \<Rightarrow> u64 \<Rightarrow> raw_tensor list \<Rightarrow> u64 \<Rightarrow> u64 \<Rightarrow> (bool, gguf_error) outcome" where
  "validate_directory_loop q2 start file_len alignment [] expected final_end = Ok (final_end = file_len)"
| "validate_directory_loop q2 start file_len alignment ((name, dims, raw_type, rel) # ts) expected final_end =
     (if rel \<noteq> expected then Err (NotContiguous name rel expected)
      else
        bindR (tensor_nbytes name dims (if raw_type = Q2_0 then q2 else raw_type)) (\<lambda>n_bytes.
        bindR (ok_or (Option.bind (checked_add start rel) (\<lambda>s. checked_add s n_bytes))
                 (ByteRangeOverflow name)) (\<lambda>final.
          if final > file_len then Err (BeyondEof name)
          else
            bindR (ok_or (checked_add rel n_bytes) TensorOffsetOverflow) (\<lambda>next.
            bindR (align_to next alignment) (\<lambda>expected'.
              validate_directory_loop q2 start file_len alignment ts expected' final)))))"

definition validate_tensor_directory ::
  "raw_tensor list \<Rightarrow> tensor_type \<Rightarrow> u64 \<Rightarrow> u64 \<Rightarrow> u64 \<Rightarrow> (bool, gguf_error) outcome" where
  "validate_tensor_directory raw q2 start file_len alignment =
     validate_directory_loop q2 start file_len alignment raw 0 start"

definition set_q2 :: "tensor_type \<Rightarrow> raw_tensor \<Rightarrow> raw_tensor" where
  "set_q2 resolved t = (case t of (name, dims, ty, rel) \<Rightarrow> (name, dims, if ty = Q2_0 then resolved else ty, rel))"

definition raw_type :: "raw_tensor \<Rightarrow> tensor_type" where
  "raw_type t = fst (snd (snd t))"

definition resolve_q2_0_dialect ::
  "raw_tensor list \<Rightarrow> u64 \<Rightarrow> u64 \<Rightarrow> u64 \<Rightarrow> (raw_tensor list, gguf_error) outcome" where
  "resolve_q2_0_dialect raw start file_len alignment =
     (if \<not> list_ex (\<lambda>t. raw_type t = Q2_0) raw then Ok raw
      else
        let result = (\<lambda>c. validate_tensor_directory raw c start file_len alignment);
            candidates = [Q2_0G64, Q2_0G128];
            structurally_valid = filter (\<lambda>c. case result c of Ok _ \<Rightarrow> True | _ \<Rightarrow> False) candidates;
            exact_tail = filter (\<lambda>c. result c = Ok True) candidates
        in if list_ex (\<lambda>c. result c = Panic) candidates then Panic
           else
             case exact_tail of
               [only] \<Rightarrow> Ok (map (set_q2 only) raw)
             | [] \<Rightarrow>
                 (case structurally_valid of
                    [only] \<Rightarrow> Ok (map (set_q2 only) raw)
                  | _ \<Rightarrow> Err AmbiguousQ2Dialect)
             | _ \<Rightarrow> Err AmbiguousQ2Dialect)"

text \<open>The last loop of \<open>read_metadata_with_len\<close>.\<close>

fun build_directory ::
  "u64 \<Rightarrow> u64 \<Rightarrow> u64 \<Rightarrow> bytes list \<Rightarrow> u64 \<Rightarrow> raw_tensor list \<Rightarrow> (tensor_descriptor list, gguf_error) outcome" where
  "build_directory start file_len alignment seen expected [] = Ok []"
| "build_directory start file_len alignment seen expected ((name, dims, ty, rel) # ts) =
     (if name \<in> set seen then Err (DuplicateTensorName name)
      else if rel \<noteq> expected then Err (NotContiguous name rel expected)
      else
        bindR (tensor_nbytes name dims ty) (\<lambda>n_bytes.
        bindR (ok_or (checked_add start rel) (AbsoluteOffsetOverflow name)) (\<lambda>abs_off.
        bindR (ok_or (checked_add abs_off n_bytes) (ByteRangeOverflow name)) (\<lambda>end_off.
          if end_off > file_len then Err (BeyondEof name)
          else
            bindR (ok_or (checked_add rel n_bytes) TensorOffsetOverflow) (\<lambda>next.
            bindR (align_to next alignment) (\<lambda>expected'.
            bindR (build_directory start file_len alignment (name # seen) expected' ts) (\<lambda>rest.
              Ok (\<lparr>td_name = name, td_dimensions = dims, td_type = ty, td_relative_offset = rel,
                   td_absolute_offset = abs_off, td_n_bytes = n_bytes\<rparr> # rest))))))))"

section \<open>Reading a header\<close>

record gguf_file =
  gf_version :: u32
  gf_tensor_count :: u64
  gf_metadata_count :: u64
  gf_alignment :: u64
  gf_data_start :: u64
  gf_metadata :: "bytes \<rightharpoonup> metadata_value"
  gf_tensors :: "tensor_descriptor list"

definition ascii :: "string \<Rightarrow> bytes" where
  "ascii s = map (\<lambda>c. of_nat (of_char c)) s"

definition DEFAULT_ALIGNMENT :: u64 where "DEFAULT_ALIGNMENT = 32"
definition GGML_MAX_DIMS :: nat where "GGML_MAX_DIMS = 4"
definition GGML_MAX_NAME :: nat where "GGML_MAX_NAME = 64"

fun read_metadata_entries :: "nat \<Rightarrow> (bytes \<rightharpoonup> metadata_value) \<Rightarrow> (bytes \<rightharpoonup> metadata_value) reader" where
  "read_metadata_entries 0 m c = (Ok m, c)"
| "read_metadata_entries (Suc n) m c =
     bindS (read_string c) (\<lambda>key c1.
     bindS (read_value c1) (\<lambda>v c2.
       if m key \<noteq> None then (Err (DuplicateMetadataKey key), c2)
       else read_metadata_entries n (m(key \<mapsto> v)) c2))"

definition header_alignment :: "(bytes \<rightharpoonup> metadata_value) \<Rightarrow> (u64, gguf_error) outcome" where
  "header_alignment m =
     bindR
       (case m (ascii ''general.alignment'') of
          None \<Rightarrow> Ok DEFAULT_ALIGNMENT
        | Some v \<Rightarrow>
            (case v of MU32 a \<Rightarrow> Ok (ucast a) | MU64 a \<Rightarrow> Ok a | _ \<Rightarrow> Err NonIntegerAlignment))
       (\<lambda>a. if a = 0 \<or> \<not> is_power_of_two a then Err (InvalidAlignment a) else Ok a)"

fun read_dimensions :: "bytes \<Rightarrow> nat \<Rightarrow> u64 list reader" where
  "read_dimensions name 0 c = (Ok [], c)"
| "read_dimensions name (Suc n) c =
     bindS (read_u64 c) (\<lambda>dim c1.
       if sint dim < 0 then (Err (NegativeDimension name dim), c1)
       else bindS (read_dimensions name n c1) (\<lambda>ds c2. (Ok (dim # ds), c2)))"

definition read_tensor_info :: "raw_tensor reader" where
  "read_tensor_info c =
     bindS (read_string c) (\<lambda>name c1.
       if GGML_MAX_NAME \<le> length name then (Err (TensorNameTooLong name), c1)
       else bindS (read_u32 c1) (\<lambda>n c2.
         if n = 0 \<or> unat n > GGML_MAX_DIMS then (Err (BadDimensionCount name n), c2)
         else bindS (read_dimensions name (unat n) c2) (\<lambda>dims c3.
              bindS (read_u32 c3) (\<lambda>ty c4.
              bindS (read_u64 c4) (\<lambda>rel c5. (Ok (name, dims, from_id ty, rel), c5))))))"

fun read_tensor_infos :: "nat \<Rightarrow> raw_tensor list reader" where
  "read_tensor_infos 0 c = (Ok [], c)"
| "read_tensor_infos (Suc n) c =
     bindS (read_tensor_info c) (\<lambda>t c1.
     bindS (read_tensor_infos n c1) (\<lambda>ts c2. (Ok (t # ts), c2)))"

text \<open>The part of \<open>read_metadata_with_len\<close> up to the cursor position after the tensor infos.\<close>

record raw_header =
  rh_version :: u32
  rh_tensor_count :: u64
  rh_metadata_count :: u64
  rh_metadata :: "bytes \<rightharpoonup> metadata_value"
  rh_alignment :: u64
  rh_tensors :: "raw_tensor list"

definition read_header :: "raw_header reader" where
  "read_header c =
     bindS (read_bytes 4 c) (\<lambda>magic c1.
       if magic \<noteq> ascii ''GGUF'' then (Err BadMagic, c1)
       else bindS (read_u32 c1) (\<lambda>version c2.
         if \<not> (2 \<le> version \<and> version \<le> 3) then (Err (UnsupportedVersion version), c2)
         else bindS (read_u64 c2) (\<lambda>tensor_count c3.
              bindS (read_u64 c3) (\<lambda>metadata_count c4.
                if sint tensor_count < 0 \<or> sint metadata_count < 0 then (Err NegativeCount, c4)
                else bindS (read_metadata_entries (unat metadata_count) Map.empty c4) (\<lambda>m c5.
                     bindS (header_alignment m, c5) (\<lambda>a c6.
                     bindS (read_tensor_infos (unat tensor_count) c6) (\<lambda>raw c7.
                       (Ok \<lparr>rh_version = version, rh_tensor_count = tensor_count,
                            rh_metadata_count = metadata_count, rh_metadata = m,
                            rh_alignment = a, rh_tensors = raw\<rparr>, c7))))))))"

definition finish_header :: "u64 \<Rightarrow> raw_header \<Rightarrow> u64 \<Rightarrow> (gguf_file, gguf_error) outcome" where
  "finish_header file_len h pos =
     bindR (align_to pos (rh_alignment h)) (\<lambda>start.
       if start > file_len then Err DataStartBeyondEof
       else
         bindR (resolve_q2_0_dialect (rh_tensors h) start file_len (rh_alignment h)) (\<lambda>raw.
         bindR (build_directory start file_len (rh_alignment h) [] 0 raw) (\<lambda>ts.
           Ok \<lparr>gf_version = rh_version h, gf_tensor_count = rh_tensor_count h,
               gf_metadata_count = rh_metadata_count h, gf_alignment = rh_alignment h,
               gf_data_start = start, gf_metadata = rh_metadata h, gf_tensors = ts\<rparr>)))"

definition read_metadata_with_len :: "bytes \<Rightarrow> u64 \<Rightarrow> (gguf_file, gguf_error) outcome" where
  "read_metadata_with_len file declared_len =
     (case read_header \<lparr>cur_rest = file, cur_pos = 0\<rparr> of
        (Ok h, c) \<Rightarrow> finish_header declared_len h (cur_pos c)
      | (Err e, c) \<Rightarrow> Err e
      | (Panic, c) \<Rightarrow> Panic)"

text \<open>\<open>read_metadata\<close>: the declared length is the length of the file.\<close>

definition read_metadata :: "bytes \<Rightarrow> (gguf_file, gguf_error) outcome" where
  "read_metadata file = read_metadata_with_len file (of_nat (length file))"

section \<open>Alignment\<close>

lemma and_not_mask: "w AND NOT (mask k) = push_bit k (drop_bit k w)" for w :: "'a::len word"
  by (rule bit_word_eqI) (auto simp: bit_simps)

lemma unat_and_not_mask: "unat (w AND NOT (mask k)) = unat w div 2 ^ k * 2 ^ k" for w :: u64
proof -
  have w: "unat w < 2 ^ 64" by (rule unat_u64_less)
  have "unat (drop_bit k w) = drop_bit k (take_bit 64 (unat w))" by (simp only: unsigned_drop_bit_eq) simp
  then have d: "unat (drop_bit k w) = unat w div 2 ^ k" using w by (simp only: take_bit_nat_eq_self drop_bit_eq_div)
  have "unat (push_bit k (drop_bit k w)) = take_bit 64 (push_bit k (unat w div 2 ^ k))"
    by (simp only: unsigned_push_bit_eq d) simp
  also have "\<dots> = take_bit 64 (unat w div 2 ^ k * 2 ^ k)" by (simp only: push_bit_eq_mult)
  also have "\<dots> = unat w div 2 ^ k * 2 ^ k"
    by (rule take_bit_nat_eq_self) (rule le_less_trans [OF div_times_less_eq_dividend w])
  finally show ?thesis by (simp only: and_not_mask)
qed

lemma unat_power_u64: "k < 64 \<Longrightarrow> unat (2 ^ k :: u64) = 2 ^ k"
proof -
  assume k: "k < 64"
  have "(2::nat) ^ k < 2 ^ LENGTH(64)" by (rule power_strict_increasing) (use k in simp_all)
  then have "unat (of_nat (2 ^ k) :: u64) = 2 ^ k" by (rule unat_of_nat_small)
  then show ?thesis by simp
qed

lemma is_power_of_two_iff: "is_power_of_two a \<longleftrightarrow> (\<exists>k < 64. a = 2 ^ k)"
  by (auto simp: is_power_of_two_def list_ex_iff)

lemma is_power_of_two_nonzero: "is_power_of_two a \<Longrightarrow> a \<noteq> 0"
proof
  assume "is_power_of_two a" "a = 0"
  then obtain k where "k < 64" "unat (2 ^ k :: u64) = 0" by (auto simp: is_power_of_two_iff)
  then show False by (simp add: unat_power_u64)
qed

text \<open>\<open>align_to\<close> is the least multiple of the alignment that is not below the value.\<close>

lemma align_to_eq:
  assumes "is_power_of_two a"
  shows "align_to v a =
    (if unat v + unat a - 1 < 2 ^ 64 then Ok (of_nat (div_ceil (unat v) (unat a) * unat a)) else Err AlignmentOverflow)"
proof -
  from assms obtain k where k: "k < 64" "a = 2 ^ k" by (auto simp: is_power_of_two_iff)
  have a0: "a \<noteq> 0" by (rule is_power_of_two_nonzero [OF assms])
  have ua: "unat a = 2 ^ k" "0 < unat a" using k unat_power_u64 by auto
  have add: "a - 1 = mask k" using k by (simp add: mask_eq_decr_exp)
  have uadd: "unat (a - 1) = unat a - 1" by (rule unat_minus_one [OF a0])
  show ?thesis
  proof (cases "unat v + unat a - 1 < 2 ^ 64")
    case True
    then have c: "checked_add v (a - 1) = Some (v + (a - 1))"
      using ua(2) by (simp add: checked_add_def uadd)
    then have us: "unat (v + (a - 1)) = unat v + (unat a - 1)"
      using uadd checked_add_Some_iff by metis
    let ?r = "unat (v + (a - 1)) div 2 ^ k * 2 ^ k"
    have "div_ceil (unat v) (unat a) = unat (v + (a - 1)) div 2 ^ k"
    proof (rule div_ceil_unique)
      have eq: "unat (v + (a - 1)) = ?r + unat (v + (a - 1)) mod 2 ^ k"
        by (rule div_mult_mod_eq [symmetric])
      have lt: "unat (v + (a - 1)) mod 2 ^ k < 2 ^ k" by simp
      show "unat v \<le> unat (v + (a - 1)) div 2 ^ k * unat a"
        unfolding ua(1) using eq us [unfolded ua(1)] lt by linarith
      have le: "?r \<le> unat (v + (a - 1))" by (rule div_times_less_eq_dividend)
      show "unat (v + (a - 1)) div 2 ^ k * unat a < unat v + unat a"
        unfolding ua(1) using us [unfolded ua(1)] le lt by linarith
    qed
    then have u: "unat ((v + (a - 1)) AND NOT (a - 1)) = div_ceil (unat v) (unat a) * unat a"
      using unat_and_not_mask [of "v + (a - 1)" k] unfolding add ua(1) by simp
    have "(v + (a - 1)) AND NOT (a - 1) = of_nat (unat ((v + (a - 1)) AND NOT (a - 1)))"
      by (rule word_unat_eq_iff [THEN iffD2]) (simp add: unat_of_nat_small)
    then have "(v + (a - 1)) AND NOT (a - 1) = of_nat (div_ceil (unat v) (unat a) * unat a)" by (simp only: u)
    with c True a0 show ?thesis by (simp add: align_to_def)
  next
    case False
    then have "checked_add v (a - 1) = None" using ua(2) by (simp add: checked_add_def uadd)
    with False a0 show ?thesis by (simp add: align_to_def)
  qed
qed

lemma align_to_Ok:
  assumes "is_power_of_two a" "align_to v a = Ok r"
  shows "unat r = div_ceil (unat v) (unat a) * unat a" "unat a dvd unat r" "unat v \<le> unat r" "unat r < unat v + unat a"
proof -
  have a: "0 < unat a" using is_power_of_two_nonzero [OF assms(1)] by (simp add: unat_gt_0)
  note b = div_ceil_bounds [OF a, of "unat v"]
  have lt: "unat v + unat a - 1 < 2 ^ 64" and r: "r = of_nat (div_ceil (unat v) (unat a) * unat a)"
    using assms(2) unfolding align_to_eq [OF assms(1)] by (auto split: if_splits)
  have "div_ceil (unat v) (unat a) * unat a < 2 ^ 64" using b lt by linarith
  then have "div_ceil (unat v) (unat a) * unat a < 2 ^ LENGTH(64)" by simp
  then show u: "unat r = div_ceil (unat v) (unat a) * unat a" unfolding r by (rule unat_of_nat_small)
  show "unat a dvd unat r" "unat v \<le> unat r" "unat r < unat v + unat a" using b unfolding u by auto
qed

lemma align_to_no_panic: "is_power_of_two a \<Longrightarrow> align_to v a \<noteq> Panic"
  by (simp add: align_to_eq)

section \<open>Byte sizes\<close>

definition shape_product :: "u64 list \<Rightarrow> nat" where
  "shape_product dims = prod_list (map unat dims)"

lemma element_count_Ok_iff:
  "element_count name ds acc = Ok n \<longleftrightarrow>
    (\<forall>k \<le> length ds. unat acc * shape_product (take k ds) < 2 ^ 64) \<and> unat n = unat acc * shape_product ds"
proof (induction ds arbitrary: acc)
  case Nil
  then show ?case using unat_u64_less [of acc] by (auto simp: shape_product_def word_unat_eq_iff)
next
  case (Cons d ds)
  have split: "(\<forall>k \<le> length (d # ds). P k) \<longleftrightarrow> P 0 \<and> (\<forall>k \<le> length ds. P (Suc k))" for P
    by (auto simp: All_less_Suc2 simp flip: less_Suc_eq_le)
  have "element_count name (d # ds) acc = Ok n \<longleftrightarrow>
      (\<exists>m. unat m = unat acc * unat d \<and> element_count name ds m = Ok n)"
    by (auto simp: bindR_Ok_iff checked_mul_Some_iff)
  also have "\<dots> \<longleftrightarrow> unat acc * unat d < 2 ^ 64 \<and>
      (\<forall>k \<le> length ds. unat acc * unat d * shape_product (take k ds) < 2 ^ 64) \<and>
      unat n = unat acc * unat d * shape_product ds"
  proof (intro iffI; elim exE conjE)
    fix m assume m: "unat m = unat acc * unat d" "element_count name ds m = Ok n"
    with Cons.IH [of m] unat_u64_less [of m] show "unat acc * unat d < 2 ^ 64 \<and>
      (\<forall>k \<le> length ds. unat acc * unat d * shape_product (take k ds) < 2 ^ 64) \<and>
      unat n = unat acc * unat d * shape_product ds" by simp
  next
    assume a: "unat acc * unat d < 2 ^ 64"
      "\<forall>k \<le> length ds. unat acc * unat d * shape_product (take k ds) < 2 ^ 64"
      "unat n = unat acc * unat d * shape_product ds"
    have m: "unat (of_nat (unat acc * unat d) :: u64) = unat acc * unat d"
      by (rule unat_of_nat_small) (use a(1) in simp)
    with a Cons.IH [of "of_nat (unat acc * unat d)"]
    show "\<exists>m. unat m = unat acc * unat d \<and> element_count name ds m = Ok n"
      by (intro exI [of _ "of_nat (unat acc * unat d)"]) simp
  qed
  also have "\<dots> \<longleftrightarrow> (\<forall>k \<le> length (d # ds). unat acc * shape_product (take k (d # ds)) < 2 ^ 64) \<and>
      unat n = unat acc * shape_product (d # ds)"
    unfolding split using unat_u64_less [of acc]
    by (auto simp: shape_product_def ac_simps dest: spec [of _ 0])
  finally show ?case .
qed

lemma layout_pos: "layout ty = Some (b, n) \<Longrightarrow> 0 < unat b \<and> 0 < unat n"
  by (cases ty) auto

text \<open>The size of a tensor in bytes, without machine arithmetic.\<close>

definition nbytes_exact :: "u64 list \<Rightarrow> tensor_type \<Rightarrow> nat option" where
  "nbytes_exact dims ty =
     (if ty = I2S then
        (if shape_product dims mod 4 = 0 then Some (shape_product dims div 4 + 32) else None)
      else
        case layout ty of
          None \<Rightarrow> None
        | Some (b, n) \<Rightarrow>
            if (case dims of [] \<Rightarrow> 1 | d # _ \<Rightarrow> unat d) mod unat b = 0
            then Some (shape_product dims div unat b * unat n) else None)"

definition no_overflow :: "u64 list \<Rightarrow> bool" where
  "no_overflow dims \<longleftrightarrow> (\<forall>k \<le> length dims. shape_product (take k dims) < 2 ^ 64)"

lemma word_mod_zero_iff: "a mod b = 0 \<longleftrightarrow> unat a mod unat b = 0" for a b :: u64
  by (simp add: word_unat_eq_iff unat_mod_distrib)

lemma tensor_nbytes_Ok_iff:
  "tensor_nbytes name dims ty = Ok n \<longleftrightarrow> no_overflow dims \<and> nbytes_exact dims ty = Some (unat n)"
proof (cases "ty = I2S")
  case True
  have "tensor_nbytes name dims ty = Ok n \<longleftrightarrow>
      (\<exists>e. element_count name dims 1 = Ok e \<and> unat e mod 4 = 0 \<and> unat n = unat e div 4 + 32)"
    by (cases "element_count name dims 1")
      (auto simp: tensor_nbytes_def True checked_add_Some_iff word_mod_zero_iff unat_div_distrib)
  also have "\<dots> \<longleftrightarrow> no_overflow dims \<and> shape_product dims mod 4 = 0 \<and> unat n = shape_product dims div 4 + 32"
  proof (intro iffI; elim exE conjE)
    fix e assume "element_count name dims 1 = Ok e" "unat e mod 4 = 0" "unat n = unat e div 4 + 32"
    then show "no_overflow dims \<and> shape_product dims mod 4 = 0 \<and> unat n = shape_product dims div 4 + 32"
      by (simp add: element_count_Ok_iff no_overflow_def)
  next
    assume a: "no_overflow dims" "shape_product dims mod 4 = 0" "unat n = shape_product dims div 4 + 32"
    then have "shape_product dims < 2 ^ LENGTH(64)" by (auto simp: no_overflow_def dest: spec [of _ "length dims"])
    then have "unat (of_nat (shape_product dims) :: u64) = shape_product dims" by (rule unat_of_nat_small)
    with a show "\<exists>e. element_count name dims 1 = Ok e \<and> unat e mod 4 = 0 \<and> unat n = unat e div 4 + 32"
      by (intro exI [of _ "of_nat (shape_product dims)"]) (simp add: element_count_Ok_iff no_overflow_def)
  qed
  finally show ?thesis using True by (auto simp: nbytes_exact_def)
next
  case False
  show ?thesis
  proof (cases "layout ty")
    case None
    with False show ?thesis by (simp add: tensor_nbytes_def nbytes_exact_def)
  next
    case (Some bn)
    obtain b m where bn: "bn = (b, m)" by (cases bn)
    let ?f = "case dims of [] \<Rightarrow> 1 | d # _ \<Rightarrow> d"
    have f: "unat ?f = (case dims of [] \<Rightarrow> 1 | d # _ \<Rightarrow> unat d)" by (cases dims) auto
    have "tensor_nbytes name dims ty = Ok n \<longleftrightarrow>
        unat ?f mod unat b = 0 \<and> (\<exists>e. element_count name dims 1 = Ok e \<and> unat n = unat e div unat b * unat m)"
      using False Some bn
      by (cases "element_count name dims 1")
        (auto simp: tensor_nbytes_def checked_mul_Some_iff word_mod_zero_iff unat_div_distrib Let_def)
    also have "\<dots> \<longleftrightarrow> unat ?f mod unat b = 0 \<and> no_overflow dims \<and> unat n = shape_product dims div unat b * unat m"
    proof -
      have "(\<exists>e. element_count name dims 1 = Ok e \<and> unat n = unat e div unat b * unat m) \<longleftrightarrow>
          no_overflow dims \<and> unat n = shape_product dims div unat b * unat m"
      proof (intro iffI; elim exE conjE)
        fix e assume "element_count name dims 1 = Ok e" "unat n = unat e div unat b * unat m"
        then show "no_overflow dims \<and> unat n = shape_product dims div unat b * unat m"
          by (simp add: element_count_Ok_iff no_overflow_def)
      next
        assume a: "no_overflow dims" "unat n = shape_product dims div unat b * unat m"
        then have "shape_product dims < 2 ^ LENGTH(64)" by (auto simp: no_overflow_def dest: spec [of _ "length dims"])
        then have "unat (of_nat (shape_product dims) :: u64) = shape_product dims" by (rule unat_of_nat_small)
        with a show "\<exists>e. element_count name dims 1 = Ok e \<and> unat n = unat e div unat b * unat m"
          by (intro exI [of _ "of_nat (shape_product dims)"]) (simp add: element_count_Ok_iff no_overflow_def)
      qed
      then show ?thesis by blast
    qed
    finally show ?thesis using False Some bn f by (auto simp: nbytes_exact_def)
  qed
qed

lemma tensor_nbytes_no_panic: "tensor_nbytes name dims ty \<noteq> Panic"
proof -
  have "element_count name ds acc \<noteq> Panic" for ds acc
    by (induction ds arbitrary: acc) (auto simp: bindR_Panic_iff)
  then show ?thesis
    by (auto simp: tensor_nbytes_def Let_def bindR_Panic_iff split: option.splits)
qed

section \<open>The accepted directory\<close>

text \<open>A descriptor inside the file, and a descriptor that ends before another begins.\<close>

definition tensor_placed :: "u64 \<Rightarrow> u64 \<Rightarrow> u64 \<Rightarrow> tensor_descriptor \<Rightarrow> bool" where
  "tensor_placed start file_len alignment t \<longleftrightarrow>
     unat (td_absolute_offset t) = unat start + unat (td_relative_offset t) \<and>
     unat (td_absolute_offset t) + unat (td_n_bytes t) \<le> unat file_len \<and>
     unat alignment dvd unat (td_relative_offset t) \<and>
     nbytes_exact (td_dimensions t) (td_type t) = Some (unat (td_n_bytes t)) \<and>
     no_overflow (td_dimensions t)"

definition ends_before :: "tensor_descriptor \<Rightarrow> tensor_descriptor \<Rightarrow> bool" where
  "ends_before s t \<longleftrightarrow>
     unat (td_absolute_offset s) + unat (td_n_bytes s) \<le> unat (td_absolute_offset t)"

lemma build_directory_Ok:
  "build_directory start file_len a seen expected raw = Ok ts \<Longrightarrow> is_power_of_two a \<Longrightarrow>
    unat a dvd unat expected \<Longrightarrow>
    map td_name ts = map fst raw \<and> distinct (map td_name ts) \<and> set (map td_name ts) \<inter> set seen = {} \<and>
    map td_type ts = map raw_type raw \<and> map td_dimensions ts = map (\<lambda>t. fst (snd t)) raw \<and>
    (\<forall>t \<in> set ts. tensor_placed start file_len a t \<and> unat expected \<le> unat (td_relative_offset t)) \<and>
    sorted_wrt ends_before ts"
proof (induction raw arbitrary: seen expected ts)
  case Nil
  then show ?case by simp
next
  case (Cons r rest)
  obtain name dims ty rel where r: "r = (name, dims, ty, rel)" by (cases r)
  from Cons.prems(1) obtain n ab en nx ex us where
    st: "name \<notin> set seen" "rel = expected" "tensor_nbytes name dims ty = Ok n" "unat ab = unat start + unat rel"
      "unat en = unat ab + unat n" "\<not> en > file_len" "unat nx = unat rel + unat n" "align_to nx a = Ok ex"
      "build_directory start file_len a (name # seen) ex rest = Ok us"
    and ts: "ts = \<lparr>td_name = name, td_dimensions = dims, td_type = ty, td_relative_offset = rel,
                   td_absolute_offset = ab, td_n_bytes = n\<rparr> # us" (is "_ = ?t # _")
    by (auto simp: r bindR_Ok_iff checked_add_Some_iff split: if_splits)
  note al = align_to_Ok [OF Cons.prems(2) st(8)]
  note IH = Cons.IH [OF st(9) Cons.prems(2) al(2)]
  have placed: "tensor_placed start file_len a ?t"
    using st Cons.prems(3) tensor_nbytes_Ok_iff [of name dims ty n]
    by (auto simp: tensor_placed_def word_less_nat_alt not_less)
  have le: "unat expected \<le> unat ex" using al(3) st(2,7) by simp
  have before: "ends_before ?t t" if "t \<in> set us" for t
  proof -
    have "unat ex \<le> unat (td_relative_offset t)" "unat (td_absolute_offset t) = unat start + unat (td_relative_offset t)"
      using IH that by (auto simp: tensor_placed_def)
    with al(3) st(4,7) show ?thesis by (simp add: ends_before_def)
  qed
  have "distinct (map td_name ts)" "set (map td_name ts) \<inter> set seen = {}"
    using conjunct1 [OF conjunct2 [OF IH]] conjunct1 [OF conjunct2 [OF conjunct2 [OF IH]]] st(1)
    unfolding ts by auto
  moreover have "map td_name ts = map fst (r # rest)" "map td_type ts = map raw_type (r # rest)"
    "map td_dimensions ts = map (\<lambda>t. fst (snd t)) (r # rest)"
    using IH unfolding ts r by (auto simp: raw_type_def)
  moreover have "\<forall>t \<in> set ts. tensor_placed start file_len a t \<and> unat expected \<le> unat (td_relative_offset t)"
    "sorted_wrt ends_before ts"
    using IH placed le before st(2) unfolding ts by (auto intro: order_trans)
  ultimately show ?case by blast
qed

lemma set_q2_simps [simp]:
  "fst (set_q2 r t) = fst t" "fst (snd (set_q2 r t)) = fst (snd t)"
  "raw_type (set_q2 r t) = (if raw_type t = Q2_0 then r else raw_type t)"
  by (cases t; simp add: set_q2_def raw_type_def)+

text \<open>What the two candidate layouts have to say, and which one is taken.\<close>

lemma resolve_q2_0_dialect_Ok:
  assumes "resolve_q2_0_dialect raw start file_len a = Ok raw'"
  shows "(\<forall>t \<in> set raw. raw_type t \<noteq> Q2_0) \<and> raw' = raw \<or>
    (\<exists>c other. {c, other} = {Q2_0G64, Q2_0G128} \<and> c \<noteq> other \<and> raw' = map (set_q2 c) raw \<and>
      (\<exists>exact. validate_tensor_directory raw c start file_len a = Ok exact \<and>
        (if exact then validate_tensor_directory raw other start file_len a \<noteq> Ok True
         else \<forall>e. validate_tensor_directory raw other start file_len a \<noteq> Ok e)))"
proof (cases "list_ex (\<lambda>t. raw_type t = Q2_0) raw")
  case False
  with assms show ?thesis by (auto simp: resolve_q2_0_dialect_def list_ex_iff)
next
  case True
  let ?a = "validate_tensor_directory raw Q2_0G64 start file_len a"
  let ?b = "validate_tensor_directory raw Q2_0G128 start file_len a"
  have "?a \<noteq> Panic" "?b \<noteq> Panic" using assms True by (auto simp: resolve_q2_0_dialect_def Let_def split: if_splits)
  then consider (a) "raw' = map (set_q2 Q2_0G64) raw" "\<exists>e. ?a = Ok e \<and> (if e then ?b \<noteq> Ok True else \<forall>e. ?b \<noteq> Ok e)"
    | (b) "raw' = map (set_q2 Q2_0G128) raw" "\<exists>e. ?b = Ok e \<and> (if e then ?a \<noteq> Ok True else \<forall>e. ?a \<noteq> Ok e)"
    using assms True
    by (cases ?a; cases ?b) (auto simp: resolve_q2_0_dialect_def Let_def split: if_splits)
  then show ?thesis
  proof cases
    case a
    then show ?thesis by (intro disjI2 exI [of _ Q2_0G64] exI [of _ Q2_0G128]) auto
  next
    case b
    then show ?thesis by (intro disjI2 exI [of _ Q2_0G128] exI [of _ Q2_0G64]) auto
  qed
qed

lemma resolve_q2_names:
  assumes "resolve_q2_0_dialect raw start file_len a = Ok raw'"
  shows "map fst raw' = map fst raw" "map (\<lambda>t. fst (snd t)) raw' = map (\<lambda>t. fst (snd t)) raw"
    "\<forall>t \<in> set raw'. raw_type t \<noteq> Q2_0"
proof -
  have "(\<forall>t \<in> set raw. raw_type t \<noteq> Q2_0) \<and> raw' = raw \<or>
      (\<exists>c \<in> {Q2_0G64, Q2_0G128}. raw' = map (set_q2 c) raw)"
    using resolve_q2_0_dialect_Ok [OF assms] by blast
  then show "map fst raw' = map fst raw" "map (\<lambda>t. fst (snd t)) raw' = map (\<lambda>t. fst (snd t)) raw"
    "\<forall>t \<in> set raw'. raw_type t \<noteq> Q2_0"
    by (auto split: if_splits)
qed

section \<open>Header fields\<close>

lemma read_dimensions_Ok: "read_dimensions name n c = (Ok ds, c') \<Longrightarrow> length ds = n \<and> (\<forall>d \<in> set ds. 0 \<le> sint d)"
  by (induction n arbitrary: c ds) (fastforce simp: bindS_Ok_iff split: if_splits)+

definition info_ok :: "raw_tensor \<Rightarrow> bool" where
  "info_ok t \<longleftrightarrow> length (fst t) < GGML_MAX_NAME \<and> 1 \<le> length (fst (snd t)) \<and> length (fst (snd t)) \<le> GGML_MAX_DIMS \<and>
     (\<forall>d \<in> set (fst (snd t)). 0 \<le> sint d)"

lemma unat_u32_zero: "unat x = 0 \<longleftrightarrow> x = 0" for x :: u32
  by (metis unsigned_0 word_unat_eq_iff)

lemma read_tensor_info_Ok: "read_tensor_info c = (Ok t, c') \<Longrightarrow> info_ok t"
  by (auto simp: read_tensor_info_def info_ok_def bindS_Ok_iff unat_u32_zero Suc_le_eq split: if_splits
      dest!: read_dimensions_Ok)

lemma read_tensor_infos_Ok: "read_tensor_infos n c = (Ok ts, c') \<Longrightarrow> length ts = n \<and> (\<forall>t \<in> set ts. info_ok t)"
  by (induction n arbitrary: c ts) (fastforce simp: bindS_Ok_iff dest: read_tensor_info_Ok)+

lemma header_alignment_Ok: "header_alignment m = Ok a \<Longrightarrow> is_power_of_two a"
  by (auto simp: header_alignment_def bindR_Ok_iff split: if_splits)

lemma read_header_Ok:
  assumes "read_header c = (Ok h, c')"
  shows "is_power_of_two (rh_alignment h)" "length (rh_tensors h) = unat (rh_tensor_count h)"
    "\<forall>t \<in> set (rh_tensors h). info_ok t" "2 \<le> rh_version h" "rh_version h \<le> 3"
    "take 4 (cur_rest c) = ascii ''GGUF''"
  using assms
  by (auto simp: read_header_def bindS_Ok_iff header_alignment_Ok split: if_splits
      dest!: read_tensor_infos_Ok) (auto simp: read_bytes_def split: if_splits option.splits)

section \<open>No panic, and no look past the header\<close>

text \<open>The readers of the header are local and depend on their prefix only.\<close>

lemma read_metadata_entries_fun:
  "read_metadata_entries 0 m = (\<lambda>c. (Ok m, c))"
  "read_metadata_entries (Suc n) m = (\<lambda>c. bindS (read_string c) (\<lambda>key c1.
     bindS (read_value c1) (\<lambda>v c2.
       if m key \<noteq> None then (Err (DuplicateMetadataKey key), c2)
       else read_metadata_entries n (m(key \<mapsto> v)) c2)))"
  by (simp_all add: fun_eq_iff)

lemma read_dimensions_fun:
  "read_dimensions name 0 = (\<lambda>c. (Ok [], c))"
  "read_dimensions name (Suc n) = (\<lambda>c. bindS (read_u64 c) (\<lambda>dim c1.
       if sint dim < 0 then (Err (NegativeDimension name dim), c1)
       else bindS (read_dimensions name n c1) (\<lambda>ds c2. (Ok (dim # ds), c2))))"
  by (simp_all add: fun_eq_iff)

lemma read_tensor_infos_fun:
  "read_tensor_infos 0 = (\<lambda>c. (Ok [], c))"
  "read_tensor_infos (Suc n) = (\<lambda>c. bindS (read_tensor_info c) (\<lambda>t c1.
     bindS (read_tensor_infos n c1) (\<lambda>ts c2. (Ok (t # ts), c2))))"
  by (simp_all add: fun_eq_iff)

lemma local_metadata_entries: "local_reader (read_metadata_entries n m)"
  by (induction n arbitrary: m)
    (simp_all only: read_metadata_entries_fun, intro local_return local_bind local_if local_string local_value,
      intro local_return local_bind local_if local_string local_value)

lemma local_dimensions: "local_reader (read_dimensions name n)"
  by (induction n)
    (simp_all only: read_dimensions_fun, intro local_return local_bind local_if local_ints,
      intro local_return local_bind local_if local_ints)

lemma local_tensor_info: "local_reader read_tensor_info"
  unfolding read_tensor_info_def [abs_def]
  by (intro local_return local_bind local_if local_ints local_string local_dimensions)

lemma local_tensor_infos: "local_reader (read_tensor_infos n)"
  by (induction n)
    (simp_all only: read_tensor_infos_fun, intro local_return local_bind local_tensor_info,
      intro local_return local_bind local_tensor_info)

lemma header_alignment_no_panic: "header_alignment m \<noteq> Panic"
  by (auto simp: header_alignment_def bindR_Panic_iff split: option.splits metadata_value.splits)

lemma local_outcome: "r \<noteq> Panic \<Longrightarrow> local_reader (\<lambda>c. (r, c))"
  by (auto simp: local_reader_def intro!: exI [of _ 0])

lemma local_header: "local_reader read_header"
  unfolding read_header_def [abs_def]
  by (intro local_return local_bind local_if local_ints local_read_bytes local_metadata_entries
      local_tensor_infos local_outcome header_alignment_no_panic) simp

lemma prefix_metadata_entries: "prefix_reader (read_metadata_entries n m)"
  by (induction n arbitrary: m)
    (simp_all only: read_metadata_entries_fun, intro prefix_return prefix_bind prefix_if prefix_string prefix_value,
      intro prefix_return prefix_bind prefix_if prefix_string prefix_value)

lemma prefix_dimensions: "prefix_reader (read_dimensions name n)"
  by (induction n)
    (simp_all only: read_dimensions_fun, intro prefix_return prefix_bind prefix_if prefix_ints,
      intro prefix_return prefix_bind prefix_if prefix_ints)

lemma prefix_tensor_info: "prefix_reader read_tensor_info"
  unfolding read_tensor_info_def [abs_def]
  by (intro prefix_return prefix_bind prefix_if prefix_ints prefix_string prefix_dimensions)

lemma prefix_tensor_infos: "prefix_reader (read_tensor_infos n)"
  by (induction n)
    (simp_all only: read_tensor_infos_fun, intro prefix_return prefix_bind prefix_tensor_info,
      intro prefix_return prefix_bind prefix_tensor_info)

lemma prefix_header: "prefix_reader read_header"
  unfolding read_header_def [abs_def]
  by (intro prefix_return prefix_bind prefix_if prefix_ints prefix_read_bytes prefix_metadata_entries
      prefix_tensor_infos)

lemma validate_directory_no_panic:
  "is_power_of_two a \<Longrightarrow> validate_directory_loop q2 start file_len a ts expected final_end \<noteq> Panic"
  by (induction ts arbitrary: expected final_end)
    (auto simp: bindR_Panic_iff tensor_nbytes_no_panic align_to_no_panic split: if_splits)

lemma resolve_no_panic: "is_power_of_two a \<Longrightarrow> resolve_q2_0_dialect raw start file_len a \<noteq> Panic"
  by (auto simp: resolve_q2_0_dialect_def Let_def validate_tensor_directory_def validate_directory_no_panic
      split: list.splits)

lemma build_directory_no_panic:
  "is_power_of_two a \<Longrightarrow> build_directory start file_len a seen expected raw \<noteq> Panic"
  by (induction raw arbitrary: seen expected)
    (auto simp: bindR_Panic_iff tensor_nbytes_no_panic align_to_no_panic split: if_splits)

lemma finish_header_no_panic: "is_power_of_two (rh_alignment h) \<Longrightarrow> finish_header file_len h pos \<noteq> Panic"
  by (auto simp: finish_header_def bindR_Panic_iff align_to_no_panic resolve_no_panic build_directory_no_panic
      split: if_splits)

section \<open>Properties\<close>

lemma read_metadata_with_len_Ok:
  "read_metadata_with_len file n = Ok g \<longleftrightarrow>
    (\<exists>h c. read_header \<lparr>cur_rest = file, cur_pos = 0\<rparr> = (Ok h, c) \<and> finish_header n h (cur_pos c) = Ok g)"
  by (auto simp: read_metadata_with_len_def split: prod.splits outcome.splits)

text \<open>C5. Every header the parser accepts describes a sound tensor directory: the names are distinct and
  shorter than 64 bytes, every tensor has one to four dimensions and a resolved type, its byte
  count is the exact size of its shape and type, its offset is a multiple of a power-of-two
  alignment, its bytes lie between the data start and the declared length, and every tensor ends
  before the next begins.\<close>

theorem accepted_directory_sound:
  assumes "read_metadata_with_len file n = Ok g"
  shows "length (gf_tensors g) = unat (gf_tensor_count g) \<and> distinct (map td_name (gf_tensors g)) \<and>
    is_power_of_two (gf_alignment g) \<and> unat (gf_alignment g) dvd unat (gf_data_start g) \<and>
    sorted_wrt ends_before (gf_tensors g) \<and>
    (\<forall>t \<in> set (gf_tensors g). tensor_placed (gf_data_start g) n (gf_alignment g) t \<and> td_type t \<noteq> Q2_0 \<and>
       length (td_name t) < 64 \<and> 1 \<le> length (td_dimensions t) \<and> length (td_dimensions t) \<le> 4)"
proof -
  from assms obtain h c where h: "read_header \<lparr>cur_rest = file, cur_pos = 0\<rparr> = (Ok h, c)"
    "finish_header n h (cur_pos c) = Ok g" by (auto simp: read_metadata_with_len_Ok)
  note hd = read_header_Ok [OF h(1)]
  from h(2) obtain start raw ts where
    f: "align_to (cur_pos c) (rh_alignment h) = Ok start"
      "resolve_q2_0_dialect (rh_tensors h) start n (rh_alignment h) = Ok raw"
      "build_directory start n (rh_alignment h) [] 0 raw = Ok ts"
    and g: "g = \<lparr>gf_version = rh_version h, gf_tensor_count = rh_tensor_count h,
               gf_metadata_count = rh_metadata_count h, gf_alignment = rh_alignment h,
               gf_data_start = start, gf_metadata = rh_metadata h, gf_tensors = ts\<rparr>"
    by (auto simp: finish_header_def bindR_Ok_iff split: if_splits)
  note r = resolve_q2_names [OF f(2)]
  have b: "map td_name ts = map fst raw" "distinct (map td_name ts)" "map td_type ts = map raw_type raw"
    "map td_dimensions ts = map (\<lambda>t. fst (snd t)) raw"
    "\<forall>t \<in> set ts. tensor_placed start n (rh_alignment h) t" "sorted_wrt ends_before ts"
    using build_directory_Ok [OF f(3) hd(1)] by auto
  have "length ts = unat (rh_tensor_count h)"
    using b(1) r(1) hd(2) by (metis length_map)
  moreover have "td_type t \<noteq> Q2_0 \<and> length (td_name t) < 64 \<and> 1 \<le> length (td_dimensions t) \<and> length (td_dimensions t) \<le> 4"
    if "t \<in> set ts" for t
  proof -
    have "td_type t \<in> set (map raw_type raw)" unfolding b(3) [symmetric] using that by simp
    moreover have "td_name t \<in> set (map fst (rh_tensors h))"
      unfolding r(1) [symmetric] b(1) [symmetric] using that by simp
    moreover have "td_dimensions t \<in> set (map (\<lambda>t. fst (snd t)) (rh_tensors h))"
      unfolding r(2) [symmetric] b(4) [symmetric] using that by simp
    ultimately show ?thesis
      using hd(3) r(3) by (auto simp: info_ok_def GGML_MAX_NAME_def GGML_MAX_DIMS_def)
  qed
  ultimately show ?thesis
    using b hd(1) align_to_Ok(2) [OF hd(1) f(1)] by (simp add: g)
qed

text \<open>C35. No file makes the parser panic: for all bytes and every declared length it returns a parsed
  header or an error.\<close>

theorem read_metadata_never_panics: "read_metadata_with_len file n \<noteq> Panic"
proof
  assume p: "read_metadata_with_len file n = Panic"
  obtain r c where r: "read_header \<lparr>cur_rest = file, cur_pos = 0\<rparr> = (r, c)"
    by (cases "read_header \<lparr>cur_rest = file, cur_pos = 0\<rparr>")
  have "r \<noteq> Panic" using local_header r by (auto simp: local_reader_def dest!: spec [of _ "\<lparr>cur_rest = file, cur_pos = 0\<rparr>"])
  then show False
    using p r finish_header_no_panic [OF read_header_Ok(1)] by (cases r) (auto simp: read_metadata_with_len_def)
qed

text \<open>A header prefix is enough: if the bytes of a file up to some point are accepted for a declared
  length, every longer file that begins with them is parsed to the same result.\<close>

theorem header_prefix_suffices:
  assumes "read_metadata_with_len file n = Ok g"
  shows "read_metadata_with_len (file @ following) n = Ok g"
proof -
  from assms obtain h c where h: "read_header \<lparr>cur_rest = file, cur_pos = 0\<rparr> = (Ok h, c)"
    "finish_header n h (cur_pos c) = Ok g" by (auto simp: read_metadata_with_len_Ok)
  have "read_header (\<lparr>cur_rest = file, cur_pos = 0\<rparr>\<lparr>cur_rest := file @ following\<rparr>) =
      (Ok h, c\<lparr>cur_rest := cur_rest c @ following\<rparr>)"
    using prefix_header h(1) by (auto simp: prefix_reader_def dest!: spec [of _ "\<lparr>cur_rest = file, cur_pos = 0\<rparr>"])
  with h(2) show ?thesis by (auto simp: read_metadata_with_len_Ok)
qed

text \<open>Type 42 is never guessed. When a directory contains tensors of the ambiguous type, a layout is
  chosen only if the whole directory validates under it and either it alone ends exactly at the
  end of the file, or neither ends there and the other layout does not validate; all the
  ambiguous tensors get that layout and nothing else changes. If both layouts validate with
  equally good ends, the file is refused.\<close>

theorem q2_dialect_resolution:
  assumes amb: "\<exists>t \<in> set raw. raw_type t = Q2_0"
    and a: "is_power_of_two a"
  shows "(\<exists>c other exact. {c, other} = {Q2_0G64, Q2_0G128} \<and> c \<noteq> other \<and>
       validate_tensor_directory raw c start n a = Ok exact \<and>
       (if exact then validate_tensor_directory raw other start n a \<noteq> Ok True
        else \<forall>e. validate_tensor_directory raw other start n a \<noteq> Ok e) \<and>
       resolve_q2_0_dialect raw start n a = Ok (map (set_q2 c) raw)) \<or>
    ((\<exists>e. validate_tensor_directory raw Q2_0G64 start n a = Ok e \<and>
          validate_tensor_directory raw Q2_0G128 start n a = Ok e) \<or>
     (\<forall>c \<in> {Q2_0G64, Q2_0G128}. \<forall>e. validate_tensor_directory raw c start n a \<noteq> Ok e)) \<and>
    resolve_q2_0_dialect raw start n a = Err AmbiguousQ2Dialect"
proof (cases "resolve_q2_0_dialect raw start n a")
  case (Ok raw')
  with resolve_q2_0_dialect_Ok [OF Ok] amb show ?thesis by metis
next
  case (Err e)
  have ex: "list_ex (\<lambda>t. raw_type t = Q2_0) raw" using amb by (simp add: list_ex_iff)
  have np: "validate_tensor_directory raw c start n a \<noteq> Panic" for c
    using a by (simp add: validate_tensor_directory_def validate_directory_no_panic)
  show ?thesis
    using Err ex np [of Q2_0G64] np [of Q2_0G128]
    by (cases "validate_tensor_directory raw Q2_0G64 start n a";
        cases "validate_tensor_directory raw Q2_0G128 start n a")
      (auto simp: resolve_q2_0_dialect_def Let_def split: if_splits)
next
  case Panic
  with a show ?thesis by (simp add: resolve_no_panic)
qed

text \<open>Alignment rounds up: with a power-of-two alignment, \<open>align_to\<close> gives the least multiple of it
  that is not below the value, and reports an overflow exactly when the sum it forms does not
  fit into 64 bits.\<close>

theorem align_to_least_multiple:
  assumes "is_power_of_two a"
  shows "(case align_to v a of
      Ok r \<Rightarrow> unat a dvd unat r \<and> unat v \<le> unat r \<and> (\<forall>m. unat a dvd m \<and> unat v \<le> m \<longrightarrow> unat r \<le> m)
    | Err e \<Rightarrow> e = AlignmentOverflow \<and> 2 ^ 64 \<le> unat v + unat a - 1
    | Panic \<Rightarrow> False)"
proof (cases "align_to v a")
  case (Ok r)
  note al = align_to_Ok [OF assms Ok]
  have "unat r \<le> m" if m: "unat a dvd m" "unat v \<le> m" for m
  proof (rule ccontr)
    assume "\<not> unat r \<le> m"
    then have "m + unat a \<le> unat r" using m(1) al(2) by (metis dvd_diff_nat dvd_imp_le add.commute le_diff_conv2 less_imp_le_nat not_le zero_less_diff)
    with al(4) m(2) show False by simp
  qed
  with Ok al show ?thesis by simp
next
  case (Err e)
  then show ?thesis unfolding align_to_eq [OF assms] by (auto split: if_splits)
next
  case Panic
  with align_to_no_panic [OF assms] show ?thesis by simp
qed

section \<open>A small header\<close>

text \<open>Version 3, no metadata, one tensor \<open>a\<close> of eight \<open>f32\<close> values; the tensor data is not part of it.\<close>

definition tiny_header :: bytes where
  "tiny_header = ascii ''GGUF'' @ to_le 4 3 @ to_le 8 1 @ to_le 8 0 @
     write_string (ascii ''a'') @ to_le 4 1 @ to_le 8 8 @ to_le 4 0 @ to_le 8 0"

definition tiny_gguf :: gguf_file where
  "tiny_gguf = (case read_metadata_with_len tiny_header 96 of Ok g \<Rightarrow> g)"

lemma tiny_header_parses: "read_metadata_with_len tiny_header 96 = Ok tiny_gguf"
proof -
  have "(case read_metadata_with_len tiny_header 96 of Ok _ \<Rightarrow> True | _ \<Rightarrow> False)" by code_simp
  then show ?thesis by (auto simp: tiny_gguf_def split: outcome.splits)
qed

theorem accepted_directory_sound_witness:
  "length (gf_tensors tiny_gguf) = unat (gf_tensor_count tiny_gguf) \<and> is_power_of_two (gf_alignment tiny_gguf) \<and>
    gf_tensors tiny_gguf \<noteq> [] \<and>
    tensor_placed (gf_data_start tiny_gguf) 96 (gf_alignment tiny_gguf) (hd (gf_tensors tiny_gguf))"
proof -
  have "gf_tensors tiny_gguf \<noteq> []" by code_simp
  with accepted_directory_sound [OF tiny_header_parses] show ?thesis by (simp add: hd_in_set)
qed

theorem header_prefix_suffices_witness:
  "read_metadata_with_len (tiny_header @ replicate 39 0) 96 = Ok tiny_gguf"
  by (rule header_prefix_suffices [OF tiny_header_parses])

definition ambiguous_raw :: "raw_tensor list" where
  "ambiguous_raw = [(ascii ''w'', [128], Q2_0, 0)]"

theorem q2_dialect_resolution_witness:
  "(\<exists>t \<in> set ambiguous_raw. raw_type t = Q2_0) \<and> is_power_of_two 32 \<and>
    resolve_q2_0_dialect ambiguous_raw 0 34 32 = Ok (map (set_q2 Q2_0G128) ambiguous_raw)"
proof -
  have amb: "\<exists>t \<in> set ambiguous_raw. raw_type t = Q2_0" by (simp add: ambiguous_raw_def raw_type_def)
  have p: "is_power_of_two 32" by code_simp
  have v: "\<exists>e. validate_tensor_directory ambiguous_raw Q2_0G64 0 34 32 = Err e"
    "validate_tensor_directory ambiguous_raw Q2_0G128 0 34 32 = Ok True"
  proof -
    have "(case validate_tensor_directory ambiguous_raw Q2_0G64 0 34 32 of Err e \<Rightarrow> True | _ \<Rightarrow> False)" by code_simp
    then show "\<exists>e. validate_tensor_directory ambiguous_raw Q2_0G64 0 34 32 = Err e" by (auto split: outcome.splits)
    show "validate_tensor_directory ambiguous_raw Q2_0G128 0 34 32 = Ok True" by code_simp
  qed
  from q2_dialect_resolution [OF amb p, of 0 34] v amb p show ?thesis
    by (auto simp: doubleton_eq_iff)
qed

theorem align_to_least_multiple_witness:
  "is_power_of_two 32 \<and> align_to 57 32 = Ok 64 \<and> \<not> (\<exists>m. 32 dvd m \<and> 57 \<le> m \<and> m < (64::nat))"
proof -
  have p: "is_power_of_two 32" by code_simp
  have a: "align_to 57 32 = Ok 64" by code_simp
  from align_to_least_multiple [OF p, of 57] p a show ?thesis by (auto simp: not_less [symmetric])
qed

end
