(* ===== verification/Utf8_Text.thy ===== *)
theory Utf8_Text
  imports Gguf_Wire
begin

text \<open>
  Rust's \<open>str\<close> as the tokenizer uses it. A string is the list of its Unicode scalar values; offsets
  into it are byte offsets of its UTF-8 form, as in the source, and a slice at an offset that is
  not a character boundary panics, as in Rust.

  The theorems: a slice between two boundaries never panics and slices concatenate; decoding what
  was encoded gives it back, also in front of bytes that are not valid; the validity test of the
  GGUF reader accepts exactly the encodings.
\<close>

section \<open>Characters\<close>

type_synonym rust_char = nat
type_synonym str = "rust_char list"

definition is_scalar :: "rust_char \<Rightarrow> bool" where
  "is_scalar c = (c < 0xD800 \<or> (0xE000 \<le> c \<and> c \<le> 0x10FFFF))"

definition len_utf8 :: "rust_char \<Rightarrow> usize" where
  "len_utf8 c = (if c < 0x80 then 1 else if c < 0x800 then 2 else if c < 0x10000 then 3 else 4)"

definition encode_utf8 :: "rust_char \<Rightarrow> bytes" where
  "encode_utf8 c = map of_nat
     (if c < 0x80 then [c]
      else if c < 0x800 then [0xC0 + c div 64, 0x80 + c mod 64]
      else if c < 0x10000 then [0xE0 + c div 4096, 0x80 + c div 64 mod 64, 0x80 + c mod 64]
      else [0xF0 + c div 262144, 0x80 + c div 4096 mod 64, 0x80 + c div 64 mod 64, 0x80 + c mod 64])"

definition as_bytes :: "str \<Rightarrow> bytes" where
  "as_bytes s = concat (map encode_utf8 s)"

definition str_len :: "str \<Rightarrow> usize" where
  "str_len s = sum_list (map len_utf8 s)"

lemma len_utf8_pos [simp]: "0 < len_utf8 c" "len_utf8 c \<noteq> 0"
  by (simp_all add: len_utf8_def)

lemma str_len_simps [simp]:
  "str_len [] = 0" "str_len (c # s) = len_utf8 c + str_len s" "str_len (s @ t) = str_len s + str_len t"
  by (simp_all add: str_len_def)

lemma str_len_0_iff [simp]: "str_len s = 0 \<longleftrightarrow> s = []"
  by (cases s) simp_all

lemma as_bytes_simps [simp]:
  "as_bytes [] = []" "as_bytes (c # s) = encode_utf8 c @ as_bytes s" "as_bytes (s @ t) = as_bytes s @ as_bytes t"
  by (simp_all add: as_bytes_def)

lemma length_encode_utf8 [simp]: "length (encode_utf8 c) = len_utf8 c"
  by (simp add: encode_utf8_def len_utf8_def)

lemma length_as_bytes [simp]: "length (as_bytes s) = str_len s"
  by (induction s) simp_all

lemma encode_utf8_not_Nil [simp]: "encode_utf8 c \<noteq> []"
  by (simp add: encode_utf8_def)

lemma as_bytes_Nil_iff [simp]: "as_bytes s = [] \<longleftrightarrow> s = []"
  by (cases s) simp_all

section \<open>Offsets, boundaries and slices\<close>

text \<open>\<open>&text[i..]\<close> and \<open>text.get(i..)\<close>: the first panics where the second is \<open>None\<close>.\<close>

fun get_from :: "str \<Rightarrow> usize \<Rightarrow> str option" where
  "get_from [] i = (if i = 0 then Some [] else None)"
| "get_from (c # s) i =
     (if i = 0 then Some (c # s)
      else if len_utf8 c \<le> i then get_from s (i - len_utf8 c) else None)"

text \<open>\<open>text.get(..i)\<close>.\<close>

fun get_to :: "str \<Rightarrow> usize \<Rightarrow> str option" where
  "get_to [] i = (if i = 0 then Some [] else None)"
| "get_to (c # s) i =
     (if i = 0 then Some []
      else if len_utf8 c \<le> i then map_option ((#) c) (get_to s (i - len_utf8 c)) else None)"

definition get_range :: "str \<Rightarrow> usize \<Rightarrow> usize \<Rightarrow> str option" where
  "get_range s i j =
     (case get_from s i of None \<Rightarrow> None | Some r \<Rightarrow> if i \<le> j then get_to r (j - i) else None)"

definition is_char_boundary :: "str \<Rightarrow> usize \<Rightarrow> bool" where
  "is_char_boundary s i = (get_from s i \<noteq> None)"

definition slice_from :: "str \<Rightarrow> usize \<Rightarrow> (str, 'e) outcome" where
  "slice_from s i = (case get_from s i of Some r \<Rightarrow> Ok r | None \<Rightarrow> Panic)"

definition slice_range :: "str \<Rightarrow> usize \<Rightarrow> usize \<Rightarrow> (str, 'e) outcome" where
  "slice_range s i j = (case get_range s i j of Some r \<Rightarrow> Ok r | None \<Rightarrow> Panic)"

text \<open>\<open>starts_with\<close> on strings, and \<open>chars().next()\<close> of a slice: the source's \<open>next_char\<close>.\<close>

fun starts_with :: "str \<Rightarrow> str \<Rightarrow> bool" where
  "starts_with s [] = True"
| "starts_with [] (c # p) = False"
| "starts_with (d # s) (c # p) = (c = d \<and> starts_with s p)"

definition first_char :: "str \<Rightarrow> rust_char option" where
  "first_char s = (case s of [] \<Rightarrow> None | c # _ \<Rightarrow> Some c)"

definition next_char :: "str \<Rightarrow> usize \<Rightarrow> (rust_char option, 'e) outcome" where
  "next_char s i = bindR (slice_from s i) (\<lambda>r. Ok (first_char r))"

text \<open>\<open>char_indices\<close>, for a string that starts at byte \<open>i\<close>.\<close>

fun char_indices :: "usize \<Rightarrow> str \<Rightarrow> (usize \<times> rust_char) list" where
  "char_indices i [] = []"
| "char_indices i (c # s) = (i, c) # char_indices (i + len_utf8 c) s"

text \<open>\<open>eq_ignore_ascii_case\<close>.\<close>

definition to_ascii_lowercase :: "rust_char \<Rightarrow> rust_char" where
  "to_ascii_lowercase c = (if 65 \<le> c \<and> c \<le> 90 then c + 32 else c)"

definition eq_ignore_ascii_case :: "str \<Rightarrow> str \<Rightarrow> bool" where
  "eq_ignore_ascii_case s t = (map to_ascii_lowercase s = map to_ascii_lowercase t)"

text \<open>String literals: the scalar values of ASCII characters.\<close>

fun code_point :: "char \<Rightarrow> rust_char" where
  "code_point (Char b0 b1 b2 b3 b4 b5 b6 b7) =
     (if b0 then 1 else 0) + (if b1 then 2 else 0) + (if b2 then 4 else 0) + (if b3 then 8 else 0) +
     (if b4 then 16 else 0) + (if b5 then 32 else 0) + (if b6 then 64 else 0) + (if b7 then 128 else 0)"

definition lit :: "string \<Rightarrow> str" where
  "lit s = map code_point s"

text \<open>A boundary splits the string.\<close>

lemma get_from_append [simp]: "get_from (p @ s) (str_len p) = Some s"
  by (induction p) (simp_all, cases s, simp_all)

lemma get_from_Some_iff: "get_from s i = Some r \<longleftrightarrow> (\<exists>p. s = p @ r \<and> i = str_len p)"
proof
  show "get_from s i = Some r \<Longrightarrow> \<exists>p. s = p @ r \<and> i = str_len p"
  proof (induction s i rule: get_from.induct)
    case (1 i)
    then show ?case by (auto split: if_splits)
  next
    case (2 c s i)
    show ?case
    proof (cases "i = 0")
      case True
      with 2(2) have "c # s = [] @ r \<and> i = str_len []" by simp
      then show ?thesis by blast
    next
      case False
      with 2(2) have len: "len_utf8 c \<le> i" and r: "get_from s (i - len_utf8 c) = Some r"
        by (auto split: if_splits)
      from 2(1) [OF False len r] obtain p where "s = p @ r" "i - len_utf8 c = str_len p" by blast
      with len have "c # s = (c # p) @ r \<and> i = str_len (c # p)" by simp
      then show ?thesis by blast
    qed
  qed
qed auto

lemma get_to_append [simp]: "get_to (p @ s) (str_len p) = Some p"
  by (induction p) (simp_all, cases s, simp_all)

lemma get_to_Some_iff: "get_to s i = Some p \<longleftrightarrow> (\<exists>r. s = p @ r) \<and> i = str_len p"
proof
  show "get_to s i = Some p \<Longrightarrow> (\<exists>r. s = p @ r) \<and> i = str_len p"
  proof (induction s i arbitrary: p rule: get_to.induct)
    case (1 i)
    then show ?case by (auto split: if_splits)
  next
    case (2 c s i)
    show ?case
    proof (cases "i = 0")
      case True
      with 2(2) show ?thesis by simp
    next
      case False
      with 2(2) obtain q where len: "len_utf8 c \<le> i" and p: "p = c # q"
        and q: "get_to s (i - len_utf8 c) = Some q"
        by (auto split: if_splits)
      from 2(1) [OF False len q] len p show ?thesis by auto
    qed
  qed
qed auto

lemma starts_with_iff: "starts_with s p \<longleftrightarrow> (\<exists>r. s = p @ r)"
  by (induction s p rule: starts_with.induct) auto

lemma boundary_iff: "is_char_boundary s i \<longleftrightarrow> (\<exists>p r. s = p @ r \<and> i = str_len p)"
  unfolding is_char_boundary_def by (auto simp: get_from_Some_iff)

lemma boundaryE:
  assumes "is_char_boundary s i"
  obtains p r where "s = p @ r" "i = str_len p"
  using assms boundary_iff by blast

lemma boundary_append [simp, intro]: "is_char_boundary (p @ r) (str_len p)"
  using boundary_iff by blast

lemma boundary_0 [simp, intro]: "is_char_boundary s 0"
  using boundary_append [of "[]" s] by simp

lemma boundary_len [simp, intro]: "is_char_boundary s (str_len s)"
  using boundary_append [of s "[]"] by simp

lemma boundary_le: "is_char_boundary s i \<Longrightarrow> i \<le> str_len s"
  by (auto simp: boundary_iff)

text \<open>Two splittings of a string are nested.\<close>

lemma str_len_le_prefix:
  assumes "p @ r = q @ t" "str_len p \<le> str_len q"
  shows "\<exists>u. q = p @ u \<and> r = u @ t"
proof -
  from assms(1) obtain us where "(p = q @ us \<and> us @ r = t) \<or> (p @ us = q \<and> r = us @ t)"
    by (auto simp: append_eq_append_conv2)
  then show ?thesis
  proof
    assume a: "p = q @ us \<and> us @ r = t"
    with assms(2) have "us = []" by auto
    with a show ?thesis by auto
  qed auto
qed

lemma slice_from_append [simp]: "slice_from (p @ r) (str_len p) = Ok r"
  by (simp add: slice_from_def)

lemma slice_from_0 [simp]: "slice_from s 0 = Ok s"
  using slice_from_append [of "[]" s] by simp

lemma next_char_append [simp]: "next_char (p @ r) (str_len p) = Ok (first_char r)"
  by (simp add: next_char_def)

lemma get_range_append [simp]: "get_range (p @ u @ r) (str_len p) (str_len p + str_len u) = Some u"
  by (simp add: get_range_def)

lemma slice_range_append [simp]: "slice_range (p @ u @ r) (str_len p) (str_len p + str_len u) = Ok u"
  by (simp add: slice_range_def)

lemma slice_range_split:
  assumes "is_char_boundary s i" "is_char_boundary s j" "i \<le> j"
  obtains p u r where "s = p @ u @ r" "i = str_len p" "j = str_len p + str_len u"
    "slice_range s i j = Ok u"
proof -
  from assms(1) obtain p r where p: "s = p @ r" "i = str_len p" by (rule boundaryE)
  from assms(2) obtain q t where q: "s = q @ t" "j = str_len q" by (rule boundaryE)
  from p q assms(3) obtain u where "q = p @ u" "r = u @ t"
    using str_len_le_prefix [of p r q t] by auto
  with p q that [of p u t] show thesis by simp
qed

lemma first_char_simps [simp]: "first_char [] = None" "first_char (c # s) = Some c"
  by (simp_all add: first_char_def)

text \<open>Reading the next character at a boundary, and stepping over it.\<close>

lemma next_char_boundary:
  assumes "is_char_boundary s i" "i < str_len s"
  obtains c where "next_char s i = Ok (Some c)"
    "is_char_boundary s (i + len_utf8 c)" "i + len_utf8 c \<le> str_len s"
proof -
  from assms(1) obtain p r where p: "s = p @ r" "i = str_len p" by (rule boundaryE)
  with assms(2) obtain c r' where r: "r = c # r'" by (cases r) auto
  have "is_char_boundary ((p @ [c]) @ r') (str_len (p @ [c]))" by blast
  with p r that [of c] show thesis by simp
qed

section \<open>Decoding\<close>

text \<open>One scalar value off the front of a byte sequence, as \<open>std::str::from_utf8\<close> validates it; and
  the longest valid prefix, whose length is \<open>Utf8Error::valid_up_to\<close>.\<close>

definition cont_bits :: "u8 \<Rightarrow> nat" where
  "cont_bits b = unat b - 0x80"

definition utf8_step :: "bytes \<Rightarrow> (rust_char \<times> bytes) option" where
  "utf8_step bs =
     (case bs of [] \<Rightarrow> None | a # r \<Rightarrow>
        if in_range 0 0x7F a then Some (unat a, r)
        else if in_range 0xC2 0xDF a then
          (case r of b # r' \<Rightarrow>
             if cont_byte b then Some ((unat a - 0xC0) * 64 + cont_bits b, r') else None
           | _ \<Rightarrow> None)
        else if in_range 0xE0 0xEF a then
          (case r of b # c # r' \<Rightarrow>
             if (if unat a = 0xE0 then in_range 0xA0 0xBF b
                 else if unat a = 0xED then in_range 0x80 0x9F b else cont_byte b) \<and> cont_byte c
             then Some ((unat a - 0xE0) * 4096 + cont_bits b * 64 + cont_bits c, r') else None
           | _ \<Rightarrow> None)
        else if in_range 0xF0 0xF4 a then
          (case r of b # c # d # r' \<Rightarrow>
             if (if unat a = 0xF0 then in_range 0x90 0xBF b
                 else if unat a = 0xF4 then in_range 0x80 0x8F b else cont_byte b)
                \<and> cont_byte c \<and> cont_byte d
             then Some ((unat a - 0xF0) * 262144 + cont_bits b * 4096 + cont_bits c * 64 + cont_bits d, r')
             else None
           | _ \<Rightarrow> None)
        else None)"

lemma utf8_step_length: "utf8_step bs = Some (c, r) \<Longrightarrow> length r < length bs"
  by (auto simp: utf8_step_def split: list.splits if_splits)

function utf8_prefix :: "bytes \<Rightarrow> str \<times> bytes" where
  "utf8_prefix bs =
     (case utf8_step bs of None \<Rightarrow> ([], bs)
      | Some (c, r) \<Rightarrow> (case utf8_prefix r of (s, rest) \<Rightarrow> (c # s, rest)))"
  by pat_completeness auto
termination by (relation "measure length") (auto dest: utf8_step_length)

declare utf8_prefix.simps [simp del]

text \<open>\<open>std::str::from_utf8\<close>: the string, or \<open>valid_up_to\<close>.\<close>

definition from_utf8 :: "bytes \<Rightarrow> (str, usize) outcome" where
  "from_utf8 bs =
     (case utf8_prefix bs of (s, rest) \<Rightarrow> if rest = [] then Ok s else Err (length bs - length rest))"


lemma unat_u8: "n < 256 \<Longrightarrow> unat (of_nat n :: u8) = n"
  using unat_of_nat_small [where 'a = 8, of n] by simp

lemma cont_byte_of [simp]: "cont_byte (of_nat (128 + n mod 64))"
  using unat_u8 [of "128 + n mod 64"] by (simp add: in_range_def)

lemma cont_bits_of [simp]: "cont_bits (of_nat (128 + n mod 64)) = n mod 64"
proof -
  have "unat (of_nat (128 + n mod 64) :: u8) = 128 + n mod 64" by (rule unat_u8) simp
  then show ?thesis by (simp only: cont_bits_def)
qed

lemma utf8_step_two:
  "unat a = 192 + x \<Longrightarrow> 2 \<le> x \<Longrightarrow> x < 32 \<Longrightarrow> cont_byte b \<Longrightarrow>
    utf8_step (a # b # r) = Some (x * 64 + cont_bits b, r)"
  by (simp add: utf8_step_def in_range_def)

lemma utf8_step_three:
  "unat a = 224 + x \<Longrightarrow> x < 16 \<Longrightarrow> cont_byte c \<Longrightarrow> cont_byte b \<Longrightarrow>
    (x = 0 \<longrightarrow> 160 \<le> unat b) \<Longrightarrow> (x = 13 \<longrightarrow> unat b \<le> 159) \<Longrightarrow>
    utf8_step (a # b # c # r) = Some (x * 4096 + cont_bits b * 64 + cont_bits c, r)"
  by (simp add: utf8_step_def in_range_def)

lemma utf8_step_four:
  "unat a = 240 + x \<Longrightarrow> x < 5 \<Longrightarrow> cont_byte c \<Longrightarrow> cont_byte d \<Longrightarrow> cont_byte b \<Longrightarrow>
    (x = 0 \<longrightarrow> 144 \<le> unat b) \<Longrightarrow> (x = 4 \<longrightarrow> unat b \<le> 143) \<Longrightarrow>
    utf8_step (a # b # c # d # r) =
      Some (x * 262144 + cont_bits b * 4096 + cont_bits c * 64 + cont_bits d, r)"
  by (simp add: utf8_step_def in_range_def)

text \<open>The digits of a scalar value in base 64.\<close>

lemma base64_digits:
  fixes c :: nat
  shows "c = c div 64 * 64 + c mod 64" "c div 64 = c div 4096 * 64 + c div 64 mod 64"
    "c div 4096 = c div 262144 * 64 + c div 4096 mod 64"
  using div_mult_mod_eq [of "c div 64" 64] div_mult_mod_eq [of "c div 4096" 64]
  by (simp_all add: div_mult2_eq [symmetric])

lemma utf8_step_1: "c < 128 \<Longrightarrow> utf8_step (of_nat c # r) = Some (c, r)"
  by (simp add: utf8_step_def in_range_def unat_u8)

lemma utf8_step_2:
  assumes "128 \<le> c" "c < 2048"
  shows "utf8_step (of_nat (192 + c div 64) # of_nat (128 + c mod 64) # r) = Some (c, r)"
proof -
  have d: "2 \<le> c div 64" "c div 64 < 32" using assms by auto
  have u: "unat (of_nat (192 + c div 64) :: u8) = 192 + c div 64" by (rule unat_u8) (use d in simp)
  show ?thesis using utf8_step_two [OF u d cont_byte_of] cont_bits_of base64_digits(1) [of c] by metis
qed

lemma utf8_step_3:
  assumes "2048 \<le> c" "c < 65536" "is_scalar c"
  shows "utf8_step (of_nat (224 + c div 4096) # of_nat (128 + c div 64 mod 64) # of_nat (128 + c mod 64) # r)
    = Some (c, r)"
proof -
  let ?a = "c div 4096" let ?b = "c div 64 mod 64"
  have d: "?a < 16" using assms by auto
  have u: "unat (of_nat (224 + ?a) :: u8) = 224 + ?a" by (rule unat_u8) (use d in simp)
  have v: "unat (of_nat (128 + ?b) :: u8) = 128 + ?b" by (rule unat_u8) simp
  note c64 = base64_digits(1,2) [of c]
  have eq: "?a * 4096 + ?b * 64 + c mod 64 = c" using c64 by linarith
  have lo: "?a = 0 \<longrightarrow> 160 \<le> unat (of_nat (128 + ?b) :: u8)"
    unfolding v using c64 assms(1) by linarith
  have hi: "?a = 13 \<longrightarrow> unat (of_nat (128 + ?b) :: u8) \<le> 159"
    unfolding v using c64 assms(3) unfolding is_scalar_def by linarith
  show ?thesis
    using utf8_step_three [OF u d cont_byte_of [of c] cont_byte_of lo hi, of r] unfolding cont_bits_of eq .
qed

lemma utf8_step_4:
  assumes "65536 \<le> c" "is_scalar c"
  shows "utf8_step (of_nat (240 + c div 262144) # of_nat (128 + c div 4096 mod 64)
      # of_nat (128 + c div 64 mod 64) # of_nat (128 + c mod 64) # r) = Some (c, r)"
proof -
  let ?a = "c div 262144" let ?b = "c div 4096 mod 64" let ?c = "c div 64 mod 64"
  have c: "c \<le> 1114111" using assms by (auto simp: is_scalar_def)
  then have d: "?a < 5" by auto
  have u: "unat (of_nat (240 + ?a) :: u8) = 240 + ?a" by (rule unat_u8) (use d in simp)
  have v: "unat (of_nat (128 + ?b) :: u8) = 128 + ?b" by (rule unat_u8) simp
  note c64 = base64_digits [of c]
  have eq: "?a * 262144 + ?b * 4096 + ?c * 64 + c mod 64 = c" using c64 by linarith
  have lo: "?a = 0 \<longrightarrow> 144 \<le> unat (of_nat (128 + ?b) :: u8)"
    unfolding v using c64 assms(1) by linarith
  have hi: "?a = 4 \<longrightarrow> unat (of_nat (128 + ?b) :: u8) \<le> 143" unfolding v using c64 c by linarith
  show ?thesis
    using utf8_step_four [OF u d cont_byte_of [of "c div 64"] cont_byte_of [of c] cont_byte_of lo hi, of r]
    unfolding cont_bits_of eq .
qed

lemma utf8_step_encode:
  assumes "is_scalar c"
  shows "utf8_step (encode_utf8 c @ r) = Some (c, r)"
proof -
  consider "c < 128" | "128 \<le> c" "c < 2048" | "2048 \<le> c" "c < 65536" | "65536 \<le> c" by linarith
  then show ?thesis
  proof cases
    case 1
    then show ?thesis using utf8_step_1 [of c r] by (simp add: encode_utf8_def)
  next
    case 2
    then have e: "encode_utf8 c = [of_nat (192 + c div 64), of_nat (128 + c mod 64)]"
      by (simp only: encode_utf8_def) simp
    show ?thesis unfolding e using utf8_step_2 [OF 2] by (simp only: append.simps)
  next
    case 3
    then have e: "encode_utf8 c = [of_nat (224 + c div 4096), of_nat (128 + c div 64 mod 64), of_nat (128 + c mod 64)]"
      by (simp only: encode_utf8_def) simp
    show ?thesis unfolding e using utf8_step_3 [OF 3 assms] by (simp only: append.simps)
  next
    case 4
    then have e: "encode_utf8 c = [of_nat (240 + c div 262144), of_nat (128 + c div 4096 mod 64),
        of_nat (128 + c div 64 mod 64), of_nat (128 + c mod 64)]"
      by (simp only: encode_utf8_def) simp
    show ?thesis unfolding e using utf8_step_4 [OF 4 assms] by (simp only: append.simps)
  qed
qed

text \<open>Decoding what was encoded, in front of any bytes.\<close>

lemma utf8_prefix_as_bytes:
  "list_all is_scalar s \<Longrightarrow>
    utf8_prefix (as_bytes s @ r) = (s @ fst (utf8_prefix r), snd (utf8_prefix r))"
proof (induction s)
  case (Cons c s)
  then show ?case
    by (subst utf8_prefix.simps) (simp add: utf8_step_encode)
qed simp

lemma utf8_prefix_Nil [simp]: "utf8_prefix [] = ([], [])"
  by (subst utf8_prefix.simps) (simp add: utf8_step_def)

lemma from_utf8_as_bytes: "list_all is_scalar s \<Longrightarrow> from_utf8 (as_bytes s) = Ok s"
  using utf8_prefix_as_bytes [of s "[]"] by (simp add: from_utf8_def)

text \<open>What decodes was an encoding, so the reader's test accepts exactly the encodings.\<close>

lemma utf8_valid_step: "utf8_valid bs \<longleftrightarrow> bs = [] \<or> (\<exists>c r. utf8_step bs = Some (c, r) \<and> utf8_valid r)"
proof (cases bs)
  case (Cons a r)
  show ?thesis
    unfolding Cons by (subst utf8_valid.simps(2)) (auto simp: utf8_step_def simp del: utf8_valid.simps split: list.splits)
qed simp

lemma utf8_valid_iff: "utf8_valid bs \<longleftrightarrow> snd (utf8_prefix bs) = []"
proof (induction bs rule: utf8_prefix.induct)
  case (1 bs)
  show ?case
  proof (cases "utf8_step bs")
    case None
    then show ?thesis by (subst utf8_valid_step, subst utf8_prefix.simps) simp
  next
    case (Some p)
    obtain c r where p: "p = (c, r)" by force
    with Some have "bs \<noteq> []" by (auto simp: utf8_step_def)
    with 1 Some p show ?thesis
      by (subst utf8_valid_step, subst utf8_prefix.simps) (simp split: prod.splits)
  qed
qed


lemma of_nat_cont: "cont_byte b \<Longrightarrow> of_nat (128 + cont_bits b) = b \<and> cont_bits b < 64"
  by (auto simp: in_range_def cont_bits_def)

lemma of_nat_lead: "m \<le> unat a \<Longrightarrow> of_nat (m + (unat a - m)) = a"
  by simp

lemma digits_2: "y < 64 \<Longrightarrow> (x * 64 + y) div 64 = x \<and> (x * 64 + y) mod 64 = y" for x y :: nat
  by auto

lemma digits_3:
  "y < 64 \<Longrightarrow> z < 64 \<Longrightarrow> (x * 4096 + y * 64 + z) div 4096 = x \<and>
    (x * 4096 + y * 64 + z) div 64 = x * 64 + y \<and> (x * 4096 + y * 64 + z) mod 64 = z" for x y z :: nat
  using digits_2 [of z "x * 64 + y"] digits_2 [of y x]
  by (auto simp: div_mult2_eq [of _ 64 64, simplified] algebra_simps)

lemma digits_4:
  "y < 64 \<Longrightarrow> z < 64 \<Longrightarrow> w < 64 \<Longrightarrow> (x * 262144 + y * 4096 + z * 64 + w) div 262144 = x \<and>
    (x * 262144 + y * 4096 + z * 64 + w) div 4096 = x * 64 + y \<and>
    (x * 262144 + y * 4096 + z * 64 + w) div 64 = x * 4096 + y * 64 + z \<and>
    (x * 262144 + y * 4096 + z * 64 + w) mod 64 = w" for x y z w :: nat
  using digits_2 [of w "x * 4096 + y * 64 + z"] digits_3 [of y z x]
  by (auto simp: div_mult2_eq [of _ 64 64, simplified] div_mult2_eq [of _ 64 4096, simplified] algebra_simps)

lemma utf8_step_sound:
  assumes "utf8_step bs = Some (c, r)"
  shows "is_scalar c \<and> bs = encode_utf8 c @ r"
proof -
  from assms obtain a t where bs: "bs = a # t" by (cases bs) (auto simp: utf8_step_def)
  consider (one) "in_range 0 0x7F a" "c = unat a" "r = t"
    | (two) b where "in_range 0xC2 0xDF a" "t = b # r" "cont_byte b" "c = (unat a - 0xC0) * 64 + cont_bits b"
    | (three) b d where "in_range 0xE0 0xEF a" "t = b # d # r" "cont_byte d" "cont_byte b"
        "unat a = 0xE0 \<longrightarrow> 0xA0 \<le> unat b" "unat a = 0xED \<longrightarrow> unat b \<le> 0x9F"
        "c = (unat a - 0xE0) * 4096 + cont_bits b * 64 + cont_bits d"
    | (four) b d e where "in_range 0xF0 0xF4 a" "t = b # d # e # r" "cont_byte d" "cont_byte e" "cont_byte b"
        "unat a = 0xF0 \<longrightarrow> 0x90 \<le> unat b" "unat a = 0xF4 \<longrightarrow> unat b \<le> 0x8F"
        "c = (unat a - 0xF0) * 262144 + cont_bits b * 4096 + cont_bits d * 64 + cont_bits e"
    using assms unfolding bs by (auto simp: utf8_step_def in_range_def split: list.splits if_splits)
  then show ?thesis
  proof cases
    case one
    then show ?thesis unfolding bs by (simp add: in_range_def is_scalar_def encode_utf8_def)
  next
    case two
    have x: "2 \<le> unat a - 192" "unat a - 192 < 32" "192 \<le> unat a" using two(1) by (auto simp: in_range_def)
    note y = of_nat_cont [OF two(3)]
    have c: "c div 64 = unat a - 192" "c mod 64 = cont_bits b"
      unfolding two(4) using digits_2 y by blast+
    have r: "128 \<le> c" "c < 2048" unfolding two(4) using x y by linarith+
    have "encode_utf8 c = [a, b]"
      using r y of_nat_lead [OF x(3)] unfolding encode_utf8_def c by simp
    then show ?thesis unfolding bs two(2) using r by (simp add: is_scalar_def)
  next
    case three
    let ?x = "unat a - 224"
    have x: "?x < 16" "224 \<le> unat a" using three(1) by (auto simp: in_range_def)
    note y = of_nat_cont [OF three(4)] and z = of_nat_cont [OF three(3)]
    have c: "c div 4096 = ?x" "c div 64 mod 64 = cont_bits b" "c mod 64 = cont_bits d"
      unfolding three(7) using digits_3 [of "cont_bits b" "cont_bits d" ?x] y z digits_2 by simp_all
    have lo: "?x = 0 \<Longrightarrow> 32 \<le> cont_bits b" and hi: "?x = 13 \<Longrightarrow> cont_bits b < 32"
      using three(4-6) x by (auto simp: cont_bits_def in_range_def)
    have r: "2048 \<le> c" "c < 65536" unfolding three(7) using x y z lo by linarith+
    have sc: "is_scalar c" unfolding is_scalar_def three(7) using x y z hi by (cases "?x = 13") linarith+
    have "encode_utf8 c = [a, b, d]"
      using r y z of_nat_lead [OF x(2)] unfolding encode_utf8_def c by simp
    then show ?thesis unfolding bs three(2) using sc by simp
  next
    case four
    let ?x = "unat a - 240"
    have x: "?x < 5" "240 \<le> unat a" using four(1) by (auto simp: in_range_def)
    note y = of_nat_cont [OF four(5)] and z = of_nat_cont [OF four(3)] and w = of_nat_cont [OF four(4)]
    have c: "c div 262144 = ?x" "c div 4096 mod 64 = cont_bits b" "c div 64 mod 64 = cont_bits d" "c mod 64 = cont_bits e"
      unfolding four(8) using digits_4 [of "cont_bits b" "cont_bits d" "cont_bits e" ?x] y z w digits_2
        digits_3 [of "cont_bits b" "cont_bits d" ?x] by simp_all
    have lo: "?x = 0 \<Longrightarrow> 16 \<le> cont_bits b" and hi: "?x = 4 \<Longrightarrow> cont_bits b < 16"
      using four(5-7) x by (auto simp: cont_bits_def in_range_def)
    have r: "65536 \<le> c" "c \<le> 1114111" unfolding four(8) using x y z w lo hi by linarith+
    have "encode_utf8 c = [a, b, d, e]"
      using r y z w of_nat_lead [OF x(2)] unfolding encode_utf8_def c by simp
    then show ?thesis unfolding bs four(2) using r by (simp add: is_scalar_def)
  qed
qed

lemma utf8_prefix_sound:
  "utf8_prefix bs = (s, rest) \<Longrightarrow> list_all is_scalar s \<and> bs = as_bytes s @ rest"
proof (induction bs arbitrary: s rest rule: utf8_prefix.induct)
  case (1 bs)
  show ?case
  proof (cases "utf8_step bs")
    case None
    with 1(2) show ?thesis by (subst (asm) utf8_prefix.simps) simp
  next
    case (Some p)
    obtain c r where p: "p = (c, r)" by force
    obtain s' rest' where q: "utf8_prefix r = (s', rest')" by force
    from 1(2) Some p q have "s = c # s'" "rest = rest'" by (subst (asm) utf8_prefix.simps, simp)+
    with 1(1) [OF Some p [symmetric] q] utf8_step_sound [of bs c r] Some p show ?thesis by simp
  qed
qed

theorem utf8_valid_exact: "utf8_valid bs \<longleftrightarrow> (\<exists>s. list_all is_scalar s \<and> bs = as_bytes s)"
proof
  assume "utf8_valid bs"
  then have "utf8_prefix bs = (fst (utf8_prefix bs), [])" by (simp add: utf8_valid_iff prod_eq_iff)
  from utf8_prefix_sound [OF this] show "\<exists>s. list_all is_scalar s \<and> bs = as_bytes s" by auto
next
  assume "\<exists>s. list_all is_scalar s \<and> bs = as_bytes s"
  then obtain s where "list_all is_scalar s" "bs = as_bytes s @ []" by auto
  then show "utf8_valid bs" by (simp add: utf8_valid_iff utf8_prefix_as_bytes del: append_Nil2)
qed

end
