(* ===== verification/Tokenizer_Base.thy ===== *)
theory Tokenizer_Base
  imports Utf8_Text
begin

text \<open>
  The vocabulary of the tokenizer (\<open>src/src/tokenizer/mod.rs\<close>): its errors, the character classes it
  splits text by, and the table of combining marks (\<open>src/src/tokenizer/mark_ranges.rs.inc\<close>) with
  its binary search.

  The Unicode tables behind \<open>char::is_alphabetic\<close>, \<open>char::is_numeric\<close> and \<open>get_general_category\<close> are
  parameters (record \<open>unicode_data\<close>); \<open>char::is_whitespace\<close> and the ASCII classes are written out.

  The theorem: the binary search finds a character exactly when one of the ranges contains it.
\<close>

section \<open>Errors, and the question mark on options\<close>

datatype special_name = NBos | NEos | NUnk | NEot | NEom | NSep | NPad | NMask

datatype tokenizer_error =
    TokenizerNotAvailable
  | UnsupportedModel str
  | UnsupportedPre "str option"
  | Gpt4oNotAdmitted
  | EmptyTokens
  | ScoresTooShort usize usize
  | TokenTypeTooShort usize usize
  | UnknownTokenType int
  | SpecialOutOfRange special_name u32 usize
  | TokenOutOfRange u32
  | NonByteCharacter str rust_char
  | MissingBpeToken str
  | MissingByteToken u8
  | NoUnknownToken
  | CursorError
  | MetadataError gguf_error

type_synonym 'a tres = "('a, tokenizer_error) outcome"

text \<open>\<open>bindO\<close> is \<open>?\<close> in a function that returns an \<open>Option\<close>; \<open>expectR\<close> is \<open>expect\<close>.\<close>

definition bindO :: "'a option tres \<Rightarrow> ('a \<Rightarrow> 'b option tres) \<Rightarrow> 'b option tres" where
  "bindO r k = bindR r (\<lambda>x. case x of None \<Rightarrow> Ok None | Some y \<Rightarrow> k y)"

definition expectR :: "'a option tres \<Rightarrow> 'a tres" where
  "expectR r = bindR r (\<lambda>x. case x of None \<Rightarrow> Panic | Some y \<Rightarrow> Ok y)"

text \<open>\<open>if let Some(end) = r { return end; }\<close>, and \<open>r.or_else(k)\<close>.\<close>

definition elseR :: "'a option tres \<Rightarrow> 'a tres \<Rightarrow> 'a tres" where
  "elseR r k = bindR r (\<lambda>x. case x of Some y \<Rightarrow> Ok y | None \<Rightarrow> k)"

definition orElseR :: "'a option tres \<Rightarrow> 'a option tres \<Rightarrow> 'a option tres" where
  "orElseR r k = bindR r (\<lambda>x. case x of Some y \<Rightarrow> Ok (Some y) | None \<Rightarrow> k)"

text \<open>\<open>Iterator::find_map\<close>.\<close>

fun find_map :: "('a \<Rightarrow> 'b option) \<Rightarrow> 'a list \<Rightarrow> 'b option" where
  "find_map f [] = None"
| "find_map f (x # xs) = (case f x of Some y \<Rightarrow> Some y | None \<Rightarrow> find_map f xs)"

lemma bindO_simps [simp]:
  "bindO (Ok (Some x)) k = k x" "bindO (Ok None) k = Ok None" "bindO (Err e) k = Err e" "bindO Panic k = Panic"
  by (simp_all add: bindO_def)

lemma expectR_simps [simp]: "expectR (Ok (Some x)) = Ok x" "expectR (Ok None) = Panic"
  by (simp_all add: expectR_def)

lemma elseR_simps [simp]: "elseR (Ok (Some x)) k = Ok x" "elseR (Ok None) k = k"
  by (simp_all add: elseR_def)

lemma orElseR_simps [simp]: "orElseR (Ok (Some x)) k = Ok (Some x)" "orElseR (Ok None) k = k"
  by (simp_all add: orElseR_def)

section \<open>Character classes\<close>

datatype general_category =
    UppercaseLetter | LowercaseLetter | TitlecaseLetter | ModifierLetter | OtherLetter
  | NonspacingMark | SpacingMark | EnclosingMark
  | DecimalNumber | LetterNumber | OtherNumber
  | ConnectorPunctuation | DashPunctuation | OpenPunctuation | ClosePunctuation
  | InitialPunctuation | FinalPunctuation | OtherPunctuation
  | MathSymbol | CurrencySymbol | ModifierSymbol | OtherSymbol
  | SpaceSeparator | LineSeparator | ParagraphSeparator
  | Control_Cc | Format_Cf | Surrogate_Cs | PrivateUse | Unassigned

record unicode_data =
  ud_alphabetic :: "rust_char \<Rightarrow> bool"
  ud_numeric :: "rust_char \<Rightarrow> bool"
  ud_category :: "rust_char \<Rightarrow> general_category"

definition is_letter :: "unicode_data \<Rightarrow> rust_char \<Rightarrow> bool" where
  "is_letter ud ch = ud_alphabetic ud ch"

definition is_number :: "unicode_data \<Rightarrow> rust_char \<Rightarrow> bool" where
  "is_number ud ch = ud_numeric ud ch"

text \<open>\<open>char::is_whitespace\<close>: the Unicode property \<open>White_Space\<close>.\<close>

definition is_whitespace :: "rust_char \<Rightarrow> bool" where
  "is_whitespace ch =
     ((9 \<le> ch \<and> ch \<le> 13) \<or> ch = 0x20 \<or> ch = 0x85 \<or> ch = 0xA0 \<or> ch = 0x1680 \<or> (0x2000 \<le> ch \<and> ch \<le> 0x200A) \<or>
      ch = 0x2028 \<or> ch = 0x2029 \<or> ch = 0x202F \<or> ch = 0x205F \<or> ch = 0x3000)"

definition is_ascii_lowercase :: "rust_char \<Rightarrow> bool" where
  "is_ascii_lowercase ch = (97 \<le> ch \<and> ch \<le> 122)"

definition is_ascii_uppercase :: "rust_char \<Rightarrow> bool" where
  "is_ascii_uppercase ch = (65 \<le> ch \<and> ch \<le> 90)"

definition is_letter_category :: "general_category \<Rightarrow> bool" where
  "is_letter_category g =
     (case g of UppercaseLetter \<Rightarrow> True | LowercaseLetter \<Rightarrow> True | TitlecaseLetter \<Rightarrow> True
      | ModifierLetter \<Rightarrow> True | OtherLetter \<Rightarrow> True | _ \<Rightarrow> False)"

definition is_number_category :: "general_category \<Rightarrow> bool" where
  "is_number_category g =
     (case g of DecimalNumber \<Rightarrow> True | LetterNumber \<Rightarrow> True | OtherNumber \<Rightarrow> True | _ \<Rightarrow> False)"

section \<open>Combining marks\<close>

datatype ordering = OLess | OEqual | OGreater

text \<open>\<open>slice::binary_search_by\<close>: the loop halves the window \<open>[base, base + sz)\<close>; only whether an
  equal element was found is used.\<close>

function search_window :: "('a \<Rightarrow> ordering) \<Rightarrow> 'a list \<Rightarrow> usize \<Rightarrow> usize \<Rightarrow> usize" where
  "search_window cmp xs base sz =
     (if 1 < sz then
        let half = sz div 2; mid = base + half in
        search_window cmp xs (if cmp (xs ! mid) = OGreater then base else mid) (sz - half)
      else base)"
  by pat_completeness auto
termination by (relation "measure (\<lambda>(_, _, _, sz). sz)") auto

declare search_window.simps [simp del]

definition binary_search_found :: "('a \<Rightarrow> ordering) \<Rightarrow> 'a list \<Rightarrow> bool" where
  "binary_search_found cmp xs =
     (xs \<noteq> [] \<and> cmp (xs ! search_window cmp xs 0 (length xs)) = OEqual)"

definition MARK_RANGES :: "(nat \<times> nat) list" where
  "MARK_RANGES = [
     (0x300, 0x36F), (0x483, 0x489), (0x591, 0x5BD), (0x5BF, 0x5BF), (0x5C1, 0x5C2), (0x5C4, 0x5C5),
     (0x5C7, 0x5C7), (0x610, 0x61A), (0x64B, 0x65F), (0x670, 0x670), (0x6D6, 0x6DC), (0x6DF, 0x6E4),
     (0x6E7, 0x6E8), (0x6EA, 0x6ED), (0x711, 0x711), (0x730, 0x74A), (0x7A6, 0x7B0), (0x7EB, 0x7F3),
     (0x7FD, 0x7FD), (0x816, 0x819), (0x81B, 0x823), (0x825, 0x827), (0x829, 0x82D), (0x859, 0x85B),
     (0x897, 0x89F), (0x8CA, 0x8E1), (0x8E3, 0x903), (0x93A, 0x93C), (0x93E, 0x94F), (0x951, 0x957),
     (0x962, 0x963), (0x981, 0x983), (0x9BC, 0x9BC), (0x9BE, 0x9C4), (0x9C7, 0x9C8), (0x9CB, 0x9CD),
     (0x9D7, 0x9D7), (0x9E2, 0x9E3), (0x9FE, 0x9FE), (0xA01, 0xA03), (0xA3C, 0xA3C), (0xA3E, 0xA42),
     (0xA47, 0xA48), (0xA4B, 0xA4D), (0xA51, 0xA51), (0xA70, 0xA71), (0xA75, 0xA75), (0xA81, 0xA83),
     (0xABC, 0xABC), (0xABE, 0xAC5), (0xAC7, 0xAC9), (0xACB, 0xACD), (0xAE2, 0xAE3), (0xAFA, 0xAFF),
     (0xB01, 0xB03), (0xB3C, 0xB3C), (0xB3E, 0xB44), (0xB47, 0xB48), (0xB4B, 0xB4D), (0xB55, 0xB57),
     (0xB62, 0xB63), (0xB82, 0xB82), (0xBBE, 0xBC2), (0xBC6, 0xBC8), (0xBCA, 0xBCD), (0xBD7, 0xBD7),
     (0xC00, 0xC04), (0xC3C, 0xC3C), (0xC3E, 0xC44), (0xC46, 0xC48), (0xC4A, 0xC4D), (0xC55, 0xC56),
     (0xC62, 0xC63), (0xC81, 0xC83), (0xCBC, 0xCBC), (0xCBE, 0xCC4), (0xCC6, 0xCC8), (0xCCA, 0xCCD),
     (0xCD5, 0xCD6), (0xCE2, 0xCE3), (0xCF3, 0xCF3), (0xD00, 0xD03), (0xD3B, 0xD3C), (0xD3E, 0xD44),
     (0xD46, 0xD48), (0xD4A, 0xD4D), (0xD57, 0xD57), (0xD62, 0xD63), (0xD81, 0xD83), (0xDCA, 0xDCA),
     (0xDCF, 0xDD4), (0xDD6, 0xDD6), (0xDD8, 0xDDF), (0xDF2, 0xDF3), (0xE31, 0xE31), (0xE34, 0xE3A),
     (0xE47, 0xE4E), (0xEB1, 0xEB1), (0xEB4, 0xEBC), (0xEC8, 0xECE), (0xF18, 0xF19), (0xF35, 0xF35),
     (0xF37, 0xF37), (0xF39, 0xF39), (0xF3E, 0xF3F), (0xF71, 0xF84), (0xF86, 0xF87), (0xF8D, 0xF97),
     (0xF99, 0xFBC), (0xFC6, 0xFC6), (0x102B, 0x103E), (0x1056, 0x1059), (0x105E, 0x1060), (0x1062, 0x1064),
     (0x1067, 0x106D), (0x1071, 0x1074), (0x1082, 0x108D), (0x108F, 0x108F), (0x109A, 0x109D), (0x135D, 0x135F),
     (0x1712, 0x1715), (0x1732, 0x1734), (0x1752, 0x1753), (0x1772, 0x1773), (0x17B4, 0x17D3), (0x17DD, 0x17DD),
     (0x180B, 0x180D), (0x180F, 0x180F), (0x1885, 0x1886), (0x18A9, 0x18A9), (0x1920, 0x192B), (0x1930, 0x193B),
     (0x1A17, 0x1A1B), (0x1A55, 0x1A5E), (0x1A60, 0x1A7C), (0x1A7F, 0x1A7F), (0x1AB0, 0x1ADD), (0x1AE0, 0x1AEB),
     (0x1B00, 0x1B04), (0x1B34, 0x1B44), (0x1B6B, 0x1B73), (0x1B80, 0x1B82), (0x1BA1, 0x1BAD), (0x1BE6, 0x1BF3),
     (0x1C24, 0x1C37), (0x1CD0, 0x1CD2), (0x1CD4, 0x1CE8), (0x1CED, 0x1CED), (0x1CF4, 0x1CF4), (0x1CF7, 0x1CF9),
     (0x1DC0, 0x1DFF), (0x20D0, 0x20F0), (0x2CEF, 0x2CF1), (0x2D7F, 0x2D7F), (0x2DE0, 0x2DFF), (0x302A, 0x302F),
     (0x3099, 0x309A), (0xA66F, 0xA672), (0xA674, 0xA67D), (0xA69E, 0xA69F), (0xA6F0, 0xA6F1), (0xA802, 0xA802),
     (0xA806, 0xA806), (0xA80B, 0xA80B), (0xA823, 0xA827), (0xA82C, 0xA82C), (0xA880, 0xA881), (0xA8B4, 0xA8C5),
     (0xA8E0, 0xA8F1), (0xA8FF, 0xA8FF), (0xA926, 0xA92D), (0xA947, 0xA953), (0xA980, 0xA983), (0xA9B3, 0xA9C0),
     (0xA9E5, 0xA9E5), (0xAA29, 0xAA36), (0xAA43, 0xAA43), (0xAA4C, 0xAA4D), (0xAA7B, 0xAA7D), (0xAAB0, 0xAAB0),
     (0xAAB2, 0xAAB4), (0xAAB7, 0xAAB8), (0xAABE, 0xAABF), (0xAAC1, 0xAAC1), (0xAAEB, 0xAAEF), (0xAAF5, 0xAAF6),
     (0xABE3, 0xABEA), (0xABEC, 0xABED), (0xFB1E, 0xFB1E), (0xFE00, 0xFE0F), (0xFE20, 0xFE2F), (0x101FD, 0x101FD),
     (0x102E0, 0x102E0), (0x10376, 0x1037A), (0x10A01, 0x10A03), (0x10A05, 0x10A06), (0x10A0C, 0x10A0F), (0x10A38, 0x10A3A),
     (0x10A3F, 0x10A3F), (0x10AE5, 0x10AE6), (0x10D24, 0x10D27), (0x10D69, 0x10D6D), (0x10EAB, 0x10EAC), (0x10EFA, 0x10EFF),
     (0x10F46, 0x10F50), (0x10F82, 0x10F85), (0x11000, 0x11002), (0x11038, 0x11046), (0x11070, 0x11070), (0x11073, 0x11074),
     (0x1107F, 0x11082), (0x110B0, 0x110BA), (0x110C2, 0x110C2), (0x11100, 0x11102), (0x11127, 0x11134), (0x11145, 0x11146),
     (0x11173, 0x11173), (0x11180, 0x11182), (0x111B3, 0x111C0), (0x111C9, 0x111CC), (0x111CE, 0x111CF), (0x1122C, 0x11237),
     (0x1123E, 0x1123E), (0x11241, 0x11241), (0x112DF, 0x112EA), (0x11300, 0x11303), (0x1133B, 0x1133C), (0x1133E, 0x11344),
     (0x11347, 0x11348), (0x1134B, 0x1134D), (0x11357, 0x11357), (0x11362, 0x11363), (0x11366, 0x1136C), (0x11370, 0x11374),
     (0x113B8, 0x113C0), (0x113C2, 0x113C2), (0x113C5, 0x113C5), (0x113C7, 0x113CA), (0x113CC, 0x113D0), (0x113D2, 0x113D2),
     (0x113E1, 0x113E2), (0x11435, 0x11446), (0x1145E, 0x1145E), (0x114B0, 0x114C3), (0x115AF, 0x115B5), (0x115B8, 0x115C0),
     (0x115DC, 0x115DD), (0x11630, 0x11640), (0x116AB, 0x116B7), (0x1171D, 0x1172B), (0x1182C, 0x1183A), (0x11930, 0x11935),
     (0x11937, 0x11938), (0x1193B, 0x1193E), (0x11940, 0x11940), (0x11942, 0x11943), (0x119D1, 0x119D7), (0x119DA, 0x119E0),
     (0x119E4, 0x119E4), (0x11A01, 0x11A0A), (0x11A33, 0x11A39), (0x11A3B, 0x11A3E), (0x11A47, 0x11A47), (0x11A51, 0x11A5B),
     (0x11A8A, 0x11A99), (0x11B60, 0x11B67), (0x11C2F, 0x11C36), (0x11C38, 0x11C3F), (0x11C92, 0x11CA7), (0x11CA9, 0x11CB6),
     (0x11D31, 0x11D36), (0x11D3A, 0x11D3A), (0x11D3C, 0x11D3D), (0x11D3F, 0x11D45), (0x11D47, 0x11D47), (0x11D8A, 0x11D8E),
     (0x11D90, 0x11D91), (0x11D93, 0x11D97), (0x11EF3, 0x11EF6), (0x11F00, 0x11F01), (0x11F03, 0x11F03), (0x11F34, 0x11F3A),
     (0x11F3E, 0x11F42), (0x11F5A, 0x11F5A), (0x13440, 0x13440), (0x13447, 0x13455), (0x1611E, 0x1612F), (0x16AF0, 0x16AF4),
     (0x16B30, 0x16B36), (0x16F4F, 0x16F4F), (0x16F51, 0x16F87), (0x16F8F, 0x16F92), (0x16FE4, 0x16FE4), (0x16FF0, 0x16FF1),
     (0x1BC9D, 0x1BC9E), (0x1CF00, 0x1CF2D), (0x1CF30, 0x1CF46), (0x1D165, 0x1D169), (0x1D16D, 0x1D172), (0x1D17B, 0x1D182),
     (0x1D185, 0x1D18B), (0x1D1AA, 0x1D1AD), (0x1D242, 0x1D244), (0x1DA00, 0x1DA36), (0x1DA3B, 0x1DA6C), (0x1DA75, 0x1DA75),
     (0x1DA84, 0x1DA84), (0x1DA9B, 0x1DA9F), (0x1DAA1, 0x1DAAF), (0x1E000, 0x1E006), (0x1E008, 0x1E018), (0x1E01B, 0x1E021),
     (0x1E023, 0x1E024), (0x1E026, 0x1E02A), (0x1E08F, 0x1E08F), (0x1E130, 0x1E136), (0x1E2AE, 0x1E2AE), (0x1E2EC, 0x1E2EF),
     (0x1E4EC, 0x1E4EF), (0x1E5EE, 0x1E5EF), (0x1E6E3, 0x1E6E3), (0x1E6E6, 0x1E6E6), (0x1E6EE, 0x1E6EF), (0x1E6F5, 0x1E6F5),
     (0x1E8D0, 0x1E8D6), (0x1E944, 0x1E94A), (0xE0100, 0xE01EF)]"

definition range_cmp :: "rust_char \<Rightarrow> nat \<times> nat \<Rightarrow> ordering" where
  "range_cmp cp r =
     (case r of (lo, hi) \<Rightarrow> if hi < cp then OLess else if lo > cp then OGreater else OEqual)"

definition is_mark :: "rust_char \<Rightarrow> bool" where
  "is_mark ch = binary_search_found (range_cmp ch) MARK_RANGES"

definition is_letter_class :: "unicode_data \<Rightarrow> bool \<Rightarrow> rust_char \<Rightarrow> bool" where
  "is_letter_class ud fold_marks ch = (is_letter ud ch \<or> (fold_marks \<and> is_mark ch))"

definition is_punctuation_for_bpe :: "unicode_data \<Rightarrow> bool \<Rightarrow> rust_char \<Rightarrow> bool" where
  "is_punctuation_for_bpe ud fold_marks ch =
     (\<not> is_whitespace ch \<and> \<not> is_letter_class ud fold_marks ch \<and> \<not> is_number ud ch)"

definition is_gpt4o_letter :: "unicode_data \<Rightarrow> rust_char \<Rightarrow> bool" where
  "is_gpt4o_letter ud ch = is_letter_category (ud_category ud ch)"

definition is_gpt4o_number :: "unicode_data \<Rightarrow> rust_char \<Rightarrow> bool" where
  "is_gpt4o_number ud ch = is_number_category (ud_category ud ch)"

definition is_gpt4o_upper_like :: "unicode_data \<Rightarrow> rust_char \<Rightarrow> bool" where
  "is_gpt4o_upper_like ud ch = (is_gpt4o_letter ud ch \<and> \<not> is_ascii_lowercase ch)"

definition is_gpt4o_lower_like :: "unicode_data \<Rightarrow> rust_char \<Rightarrow> bool" where
  "is_gpt4o_lower_like ud ch = (is_gpt4o_letter ud ch \<and> \<not> is_ascii_uppercase ch)"

definition is_gpt4o_punctuation :: "unicode_data \<Rightarrow> rust_char \<Rightarrow> bool" where
  "is_gpt4o_punctuation ud ch = (\<not> is_whitespace ch \<and> \<not> is_gpt4o_letter ud ch \<and> \<not> is_gpt4o_number ud ch)"

definition is_smollm_letter :: "unicode_data \<Rightarrow> rust_char \<Rightarrow> bool" where
  "is_smollm_letter ud ch = is_letter_category (ud_category ud ch)"

definition is_smollm_number :: "unicode_data \<Rightarrow> rust_char \<Rightarrow> bool" where
  "is_smollm_number ud ch = is_number_category (ud_category ud ch)"

definition is_smollm_punctuation :: "unicode_data \<Rightarrow> rust_char \<Rightarrow> bool" where
  "is_smollm_punctuation ud ch = (\<not> is_whitespace ch \<and> \<not> is_smollm_letter ud ch \<and> \<not> is_smollm_number ud ch)"

section \<open>The search is exact\<close>

text \<open>A comparison that is ordered along the list and equal at most once.\<close>

definition monotone_cmp :: "('a \<Rightarrow> ordering) \<Rightarrow> 'a list \<Rightarrow> bool" where
  "monotone_cmp cmp xs = (\<forall>i j. i < j \<longrightarrow> j < length xs \<longrightarrow>
     cmp (xs ! i) = OLess \<or> cmp (xs ! j) = OGreater)"

lemma search_window_finds:
  assumes mono: "monotone_cmp cmp xs" and eq: "cmp (xs ! k) = OEqual"
  shows "base \<le> k \<Longrightarrow> k < base + sz \<Longrightarrow> base + sz \<le> length xs \<Longrightarrow> search_window cmp xs base sz = k"
proof (induction sz arbitrary: base rule: less_induct)
  case (less sz)
  show ?case
  proof (cases "1 < sz")
    case False
    with less.prems show ?thesis by (subst search_window.simps) simp
  next
    case True
    define mid where "mid = base + sz div 2"
    have mid: "base < mid" "mid < base + sz" using True by (auto simp: mid_def)
    have "k < mid" if "cmp (xs ! mid) = OGreater"
      using mono [unfolded monotone_cmp_def, rule_format, of mid k] eq that mid less.prems
      by (metis linorder_neqE_nat order_less_le_trans ordering.distinct(1,3,5))
    moreover have "mid \<le> k" if "cmp (xs ! mid) \<noteq> OGreater"
    proof (rule ccontr)
      assume "\<not> mid \<le> k"
      then have "cmp (xs ! k) = OLess"
        using mono [unfolded monotone_cmp_def, rule_format, of k mid] mid less.prems that by simp
      with eq show False by simp
    qed
    ultimately show ?thesis
      using True mid less.prems less.IH [of "sz - sz div 2" base] less.IH [of "sz - sz div 2" mid]
      by (subst search_window.simps) (auto simp: Let_def mid_def)
  qed
qed

lemma search_window_bound: "0 < sz \<Longrightarrow> search_window cmp xs base sz < base + sz"
proof (induction sz arbitrary: base rule: less_induct)
  case (less sz)
  show ?case
  proof (cases "1 < sz")
    case True
    let ?b = "if cmp (xs ! (base + sz div 2)) = OGreater then base else base + sz div 2"
    have "search_window cmp xs ?b (sz - sz div 2) < ?b + (sz - sz div 2)"
      using less.IH [of "sz - sz div 2" ?b] True by auto
    with True show ?thesis by (subst search_window.simps) (auto simp: Let_def split: if_splits)
  next
    case False
    with less.prems show ?thesis by (subst search_window.simps) simp
  qed
qed

lemma binary_search_found_iff:
  assumes "monotone_cmp cmp xs"
  shows "binary_search_found cmp xs \<longleftrightarrow> (\<exists>x \<in> set xs. cmp x = OEqual)"
proof
  assume "binary_search_found cmp xs"
  then show "\<exists>x \<in> set xs. cmp x = OEqual"
    using search_window_bound [of "length xs" cmp xs 0] by (auto simp: binary_search_found_def)
next
  assume "\<exists>x \<in> set xs. cmp x = OEqual"
  then obtain k where "k < length xs" "cmp (xs ! k) = OEqual" by (auto simp: in_set_conv_nth)
  with search_window_finds [OF assms this(2), of 0 "length xs"] show "binary_search_found cmp xs"
    by (auto simp: binary_search_found_def)
qed

text \<open>The table: every range is nonempty and lies before the next.\<close>

fun ranges_ascend :: "(nat \<times> nat) list \<Rightarrow> bool" where
  "ranges_ascend ((lo, hi) # (lo', hi') # rs) = (lo \<le> hi \<and> hi < lo' \<and> ranges_ascend ((lo', hi') # rs))"
| "ranges_ascend [(lo, hi)] = (lo \<le> hi)"
| "ranges_ascend [] = True"

lemma ranges_ascend_Cons:
  "ranges_ascend (r # rs) \<longleftrightarrow> fst r \<le> snd r \<and> (\<forall>r' \<in> set rs. snd r < fst r') \<and> ranges_ascend rs"
proof (induction rs arbitrary: r)
  case Nil
  then show ?case by (cases r) simp
next
  case (Cons r' rs)
  have step: "ranges_ascend (r # r' # rs) \<longleftrightarrow> fst r \<le> snd r \<and> snd r < fst r' \<and> ranges_ascend (r' # rs)"
    by (cases r; cases r') simp
  have trans: "\<forall>q \<in> set rs. snd r < fst q"
    if "snd r < fst r'" "fst r' \<le> snd r'" "\<forall>q \<in> set rs. snd r' < fst q"
  proof
    fix q assume "q \<in> set rs"
    with that(3) have "snd r' < fst q" by blast
    with that(1,2) show "snd r < fst q" by linarith
  qed
  show ?case unfolding step Cons [of r'] using trans by auto
qed

lemma ranges_ascend_nth:
  "ranges_ascend rs \<Longrightarrow> i < j \<Longrightarrow> j < length rs \<Longrightarrow> snd (rs ! i) < fst (rs ! j)"
proof (induction rs arbitrary: i j)
  case (Cons r rs)
  then show ?case by (cases i; cases j) (auto simp: ranges_ascend_Cons)
qed simp

lemma ranges_ascend_nonempty: "ranges_ascend rs \<Longrightarrow> r \<in> set rs \<Longrightarrow> fst r \<le> snd r"
  by (induction rs) (auto simp: ranges_ascend_Cons)

lemma ranges_ascend_monotone: "ranges_ascend rs \<Longrightarrow> monotone_cmp (range_cmp cp) rs"
proof (unfold monotone_cmp_def, intro allI impI)
  fix i j
  assume "ranges_ascend rs" "i < j" "j < length rs"
  then have "snd (rs ! i) < fst (rs ! j)" "fst (rs ! j) \<le> snd (rs ! j)"
    using ranges_ascend_nth ranges_ascend_nonempty [of rs "rs ! j"] by auto
  then show "range_cmp cp (rs ! i) = OLess \<or> range_cmp cp (rs ! j) = OGreater"
    by (cases "rs ! i"; cases "rs ! j") (auto simp: range_cmp_def)
qed

lemma MARK_RANGES_ascend: "ranges_ascend MARK_RANGES"
  unfolding MARK_RANGES_def by code_simp

text \<open>The binary search of \<open>is_mark\<close> answers exactly whether a range of the generated table contains
  the character.\<close>

lemma range_cmp_OEqual: "range_cmp ch r = OEqual \<longleftrightarrow> fst r \<le> ch \<and> ch \<le> snd r"
  by (cases r) (auto simp: range_cmp_def)

theorem is_mark_iff: "is_mark ch \<longleftrightarrow> (\<exists>r \<in> set MARK_RANGES. fst r \<le> ch \<and> ch \<le> snd r)"
  unfolding is_mark_def binary_search_found_iff [OF ranges_ascend_monotone [OF MARK_RANGES_ascend]]
  by (simp only: range_cmp_OEqual)

end
