(* ===== verification/Bpe_Segments.thy ===== *)
theory Bpe_Segments
  imports Tokenizer_Base
begin

text \<open>
  The three pre-tokenizers of the byte-level BPE models (\<open>bpe_pretokenize_with\<close>,
  \<open>bpe_pretokenize_gpt4o\<close> and \<open>bpe_pretokenize_smollm\<close> of \<open>src/src/tokenizer/mod.rs\<close>) with all their
  helpers, on byte offsets as in the source. The outer loops advance to whatever offset the helpers
  return, so they are partial functions: \<open>None\<close> is a loop that does not end.

  The theorems: on every text the loops end, no slice panics, and the segments are nonempty and
  spell the text.
\<close>

section \<open>Runs of characters\<close>

text \<open>The loop \<open>while idx < text.len() { let ch = next_char(text, idx); if !p(ch) { break; } idx +=
  ch.len_utf8(); }\<close>, which the source writes out for every class. It gives \<open>None\<close> where
  \<open>next_char\<close> does; callers use \<open>?\<close> or \<open>expect\<close> on it.\<close>

function scan_while :: "(rust_char \<Rightarrow> bool) \<Rightarrow> str \<Rightarrow> usize \<Rightarrow> usize option tres" where
  "scan_while p s idx =
     (if idx < str_len s then
        bindO (next_char s idx) (\<lambda>ch. if p ch then scan_while p s (idx + len_utf8 ch) else Ok (Some idx))
      else Ok (Some idx))"
  by pat_completeness auto
termination
  by (relation "measure (\<lambda>(_, s, idx). str_len s - idx)") (auto intro!: diff_less_mono2)

definition consume_letters :: "unicode_data \<Rightarrow> str \<Rightarrow> usize \<Rightarrow> bool \<Rightarrow> usize tres" where
  "consume_letters ud s byte_start fold_marks = expectR (scan_while (is_letter_class ud fold_marks) s byte_start)"

definition consume_whitespace :: "str \<Rightarrow> usize \<Rightarrow> usize tres" where
  "consume_whitespace s byte_start = expectR (scan_while is_whitespace s byte_start)"

function digits_loop :: "unicode_data \<Rightarrow> str \<Rightarrow> usize \<Rightarrow> usize \<Rightarrow> usize \<Rightarrow> usize tres" where
  "digits_loop ud s max_digits idx n =
     (if idx < str_len s \<and> n < max_digits then
        bindR (expectR (next_char s idx)) (\<lambda>ch.
          if is_number ud ch then digits_loop ud s max_digits (idx + len_utf8 ch) (n + 1) else Ok idx)
      else Ok idx)"
  by pat_completeness auto
termination
  by (relation "measure (\<lambda>(_, _, max_digits, _, n). max_digits - n)") auto

definition consume_digits :: "unicode_data \<Rightarrow> str \<Rightarrow> usize \<Rightarrow> usize \<Rightarrow> usize tres" where
  "consume_digits ud s byte_start max_digits = digits_loop ud s max_digits byte_start 0"

function newline_loop :: "str \<Rightarrow> usize \<Rightarrow> usize option \<Rightarrow> usize option tres" where
  "newline_loop s idx last_newline_end =
     (if idx < str_len s then
        bindR (expectR (next_char s idx)) (\<lambda>ch.
          if is_whitespace ch then
            newline_loop s (idx + len_utf8 ch)
              (if ch = 10 \<or> ch = 13 then Some (idx + len_utf8 ch) else last_newline_end)
          else Ok last_newline_end)
      else Ok last_newline_end)"
  by pat_completeness auto
termination
  by (relation "measure (\<lambda>(s, idx, _). str_len s - idx)") (auto intro!: diff_less_mono2)

declare scan_while.simps [simp del] digits_loop.simps [simp del] newline_loop.simps [simp del]

definition consume_whitespace_with_newline :: "str \<Rightarrow> usize \<Rightarrow> usize option tres" where
  "consume_whitespace_with_newline s byte_start =
     bindR (expectR (next_char s byte_start)) (\<lambda>ch.
       if \<not> is_whitespace ch then Ok None else newline_loop s byte_start None)"

definition consume_whitespace_before_nonspace :: "str \<Rightarrow> usize \<Rightarrow> usize tres" where
  "consume_whitespace_before_nonspace s byte_start =
     bindR (consume_whitespace s byte_start) (\<lambda>whitespace_end.
       if whitespace_end = str_len s then Ok whitespace_end
       else
         bindR (slice_range s byte_start whitespace_end) (\<lambda>run.
           let chars = char_indices byte_start run in
           if 1 < length chars then Ok (fst (chars ! (length chars - 1))) else Ok whitespace_end))"

section \<open>Llama 3 and Qwen\<close>

definition CONTRACTIONS :: "str list" where
  "CONTRACTIONS = [[39, 115], [39, 116], [39, 114, 101], [39, 118, 101], [39, 109], [39, 108, 108], [39, 100]]"

definition find_suffix :: "(str \<Rightarrow> str \<Rightarrow> bool) \<Rightarrow> str \<Rightarrow> usize \<Rightarrow> usize option tres" where
  "find_suffix eq s byte_start =
     bindR (slice_from s byte_start) (\<lambda>rest.
       Ok (find_map (\<lambda>suffix.
             case get_to rest (str_len suffix) of
               Some candidate \<Rightarrow> if eq candidate suffix then Some (byte_start + str_len suffix) else None
             | None \<Rightarrow> None) CONTRACTIONS))"

definition consume_contraction :: "str \<Rightarrow> usize \<Rightarrow> usize option tres" where
  "consume_contraction = find_suffix eq_ignore_ascii_case"

definition consume_optional_prefix_letters :: "unicode_data \<Rightarrow> str \<Rightarrow> usize \<Rightarrow> bool \<Rightarrow> usize option tres" where
  "consume_optional_prefix_letters ud s byte_start fold_marks =
     bindR (expectR (next_char s byte_start)) (\<lambda>ch.
       if is_letter_class ud fold_marks ch then
         bindR (consume_letters ud s byte_start fold_marks) (\<lambda>e. Ok (Some e))
       else if ch = 13 \<or> ch = 10 \<or> is_number ud ch then Ok None
       else
         let next_idx = byte_start + len_utf8 ch in
         bindO (if next_idx < str_len s then next_char s next_idx else Ok None) (\<lambda>nx.
           if is_letter_class ud fold_marks nx then
             bindR (consume_letters ud s next_idx fold_marks) (\<lambda>e. Ok (Some e))
           else Ok None))"

definition consume_optional_space_punctuation :: "unicode_data \<Rightarrow> str \<Rightarrow> usize \<Rightarrow> bool \<Rightarrow> usize option tres" where
  "consume_optional_space_punctuation ud s byte_start fold_marks =
     bindR (expectR (next_char s byte_start)) (\<lambda>ch.
       bindO
         (if ch = 32 then
            let next_idx = byte_start + len_utf8 ch in
            bindO (if next_idx < str_len s then next_char s next_idx else Ok None) (\<lambda>nx.
              if is_punctuation_for_bpe ud fold_marks nx then Ok (Some next_idx) else Ok None)
          else if is_punctuation_for_bpe ud fold_marks ch then Ok (Some byte_start)
          else Ok None)
         (\<lambda>punctuation_start.
            bindR (expectR (scan_while (is_punctuation_for_bpe ud fold_marks) s punctuation_start)) (\<lambda>idx.
            bindR (expectR (scan_while (\<lambda>ch. ch = 10 \<or> ch = 13) s idx)) (\<lambda>idx'. Ok (Some idx')))))"

definition next_llama_bpe_segment_end :: "unicode_data \<Rightarrow> usize \<Rightarrow> bool \<Rightarrow> str \<Rightarrow> usize \<Rightarrow> usize tres" where
  "next_llama_bpe_segment_end ud digit_group_max fold_marks s byte_start =
     elseR (consume_contraction s byte_start)
      (elseR (consume_optional_prefix_letters ud s byte_start fold_marks)
        (bindR (expectR (next_char s byte_start)) (\<lambda>ch.
          if is_number ud ch then consume_digits ud s byte_start digit_group_max
          else
            elseR (consume_optional_space_punctuation ud s byte_start fold_marks)
             (elseR (consume_whitespace_with_newline s byte_start)
               (if is_whitespace ch then consume_whitespace_before_nonspace s byte_start
                else Ok (byte_start + len_utf8 ch))))))"

partial_function (option) segment_loop ::
  "(str \<Rightarrow> usize \<Rightarrow> usize tres) \<Rightarrow> str \<Rightarrow> usize \<Rightarrow> str list \<Rightarrow> str list tres option" where
  "segment_loop next_end s byte_start segments =
     (if byte_start < str_len s then
        (case next_end s byte_start of
           Ok byte_end \<Rightarrow>
             (case slice_range s byte_start byte_end of
                Ok segment \<Rightarrow> segment_loop next_end s byte_end (segments @ [segment])
              | Err e \<Rightarrow> Some (Err e)
              | Panic \<Rightarrow> Some Panic)
         | Err e \<Rightarrow> Some (Err e)
         | Panic \<Rightarrow> Some Panic)
      else Some (Ok segments))"

declare segment_loop.simps [code]

definition bpe_pretokenize_with :: "unicode_data \<Rightarrow> str \<Rightarrow> usize \<Rightarrow> bool \<Rightarrow> str list tres option" where
  "bpe_pretokenize_with ud s digit_group_max fold_marks =
     segment_loop (next_llama_bpe_segment_end ud digit_group_max fold_marks) s 0 []"

section \<open>GPT-4o and Tekken\<close>

function upper_loop :: "unicode_data \<Rightarrow> str \<Rightarrow> usize \<Rightarrow> usize option \<Rightarrow> (usize \<times> usize option) option tres" where
  "upper_loop ud s upper_end last_lower_like =
     (if upper_end < str_len s then
        bindO (next_char s upper_end) (\<lambda>ch.
          if is_gpt4o_upper_like ud ch then
            upper_loop ud s (upper_end + len_utf8 ch)
              (if is_gpt4o_lower_like ud ch then Some upper_end else last_lower_like)
          else Ok (Some (upper_end, last_lower_like)))
      else Ok (Some (upper_end, last_lower_like)))"
  by pat_completeness auto
termination
  by (relation "measure (\<lambda>(_, s, idx, _). str_len s - idx)") (auto intro!: diff_less_mono2)

declare upper_loop.simps [simp del]

definition consume_gpt4o_first_word_alternative :: "unicode_data \<Rightarrow> str \<Rightarrow> usize \<Rightarrow> usize option tres" where
  "consume_gpt4o_first_word_alternative ud s byte_start =
     bindO (upper_loop ud s byte_start None) (\<lambda>(upper_end, last_lower_like).
     bindR (next_char s upper_end) (\<lambda>nx.
     bindO
       (if (case nx of Some c \<Rightarrow> is_gpt4o_lower_like ud c | None \<Rightarrow> False) then Ok (Some upper_end)
        else Ok last_lower_like)
       (\<lambda>lower_start.
          bindO (scan_while (is_gpt4o_lower_like ud) s lower_start) (\<lambda>e.
            Ok (if lower_start < e then Some e else None)))))"

definition consume_gpt4o_second_word_alternative :: "unicode_data \<Rightarrow> str \<Rightarrow> usize \<Rightarrow> usize option tres" where
  "consume_gpt4o_second_word_alternative ud s byte_start =
     bindO (scan_while (is_gpt4o_upper_like ud) s byte_start) (\<lambda>e.
       if e = byte_start then Ok None else scan_while (is_gpt4o_lower_like ud) s e)"

definition consume_gpt4o_word :: "unicode_data \<Rightarrow> str \<Rightarrow> usize \<Rightarrow> bool \<Rightarrow> usize option tres" where
  "consume_gpt4o_word ud s byte_start word_takes_contraction =
     bindO (next_char s byte_start) (\<lambda>first.
     bindO
       (if is_gpt4o_letter ud first then Ok (Some byte_start)
        else if first \<noteq> 13 \<and> first \<noteq> 10 \<and> \<not> is_gpt4o_number ud first then
          let next_start = byte_start + len_utf8 first in
          bindO (next_char s next_start) (\<lambda>nx. if is_gpt4o_letter ud nx then Ok (Some next_start) else Ok None)
        else Ok None)
       (\<lambda>word_start.
          bindO
            (orElseR (consume_gpt4o_first_word_alternative ud s word_start)
                     (consume_gpt4o_second_word_alternative ud s word_start))
            (\<lambda>word_end.
               if \<not> word_takes_contraction then Ok (Some word_end)
               else bindR (consume_contraction s word_end) (\<lambda>e.
                      Ok (Some (case e of Some e' \<Rightarrow> e' | None \<Rightarrow> word_end))))))"

definition consume_gpt4o_punctuation :: "unicode_data \<Rightarrow> str \<Rightarrow> usize \<Rightarrow> usize option tres" where
  "consume_gpt4o_punctuation ud s byte_start =
     bindO (next_char s byte_start) (\<lambda>first.
     bindO
       (if first = 32 then
          let next_start = byte_start + len_utf8 first in
          bindO (next_char s next_start) (\<lambda>nx. if is_gpt4o_punctuation ud nx then Ok (Some next_start) else Ok None)
        else if is_gpt4o_punctuation ud first then Ok (Some byte_start)
        else Ok None)
       (\<lambda>cursor.
          bindO (scan_while (is_gpt4o_punctuation ud) s cursor) (\<lambda>cursor'.
            scan_while (\<lambda>ch. ch = 13 \<or> ch = 10 \<or> ch = 47) s cursor')))"

definition next_gpt4o_segment_end :: "unicode_data \<Rightarrow> usize \<Rightarrow> bool \<Rightarrow> str \<Rightarrow> usize \<Rightarrow> usize tres" where
  "next_gpt4o_segment_end ud digit_group_max word_takes_contraction s byte_start =
     elseR (consume_gpt4o_word ud s byte_start word_takes_contraction)
      (bindR (expectR (next_char s byte_start)) (\<lambda>ch.
        if is_gpt4o_number ud ch then consume_digits ud s byte_start digit_group_max
        else
          elseR (consume_gpt4o_punctuation ud s byte_start)
           (elseR (consume_whitespace_with_newline s byte_start)
             (if is_whitespace ch then consume_whitespace_before_nonspace s byte_start
              else Ok (byte_start + len_utf8 ch)))))"

definition bpe_pretokenize_gpt4o :: "unicode_data \<Rightarrow> str \<Rightarrow> usize \<Rightarrow> bool \<Rightarrow> str list tres option" where
  "bpe_pretokenize_gpt4o ud s digit_group_max word_takes_contraction =
     segment_loop (next_gpt4o_segment_end ud digit_group_max word_takes_contraction) s 0 []"

section \<open>SmolLM and Command R\<close>

definition consume_smollm_contraction :: "str \<Rightarrow> usize \<Rightarrow> usize option tres" where
  "consume_smollm_contraction = find_suffix (=)"

text \<open>The three loops over an optional space and a run of one class.\<close>

definition optional_space_run :: "(rust_char \<Rightarrow> bool) \<Rightarrow> str \<Rightarrow> usize \<Rightarrow> usize option tres" where
  "optional_space_run p s byte_start =
     bindO (next_char s byte_start) (\<lambda>first.
       let cursor = (if first = 32 then byte_start + 1 else byte_start) in
       bindR (next_char s cursor) (\<lambda>nx.
         if \<not> (case nx of Some c \<Rightarrow> p c | None \<Rightarrow> False) then Ok None
         else scan_while p s cursor))"

definition consume_smollm_optional_space_letters :: "unicode_data \<Rightarrow> str \<Rightarrow> usize \<Rightarrow> usize option tres" where
  "consume_smollm_optional_space_letters ud = optional_space_run (is_smollm_letter ud)"

definition consume_smollm_optional_space_numbers :: "unicode_data \<Rightarrow> str \<Rightarrow> usize \<Rightarrow> usize option tres" where
  "consume_smollm_optional_space_numbers ud = optional_space_run (is_smollm_number ud)"

definition consume_smollm_optional_space_punctuation :: "unicode_data \<Rightarrow> str \<Rightarrow> usize \<Rightarrow> usize option tres" where
  "consume_smollm_optional_space_punctuation ud = optional_space_run (is_smollm_punctuation ud)"

definition next_smollm_gpt2_segment_end :: "unicode_data \<Rightarrow> str \<Rightarrow> usize \<Rightarrow> usize tres" where
  "next_smollm_gpt2_segment_end ud s byte_start =
     elseR (consume_smollm_contraction s byte_start)
      (elseR (consume_smollm_optional_space_letters ud s byte_start)
        (elseR (consume_smollm_optional_space_numbers ud s byte_start)
          (elseR (consume_smollm_optional_space_punctuation ud s byte_start)
            (bindR (expectR (next_char s byte_start)) (\<lambda>ch.
              if is_whitespace ch then consume_whitespace_before_nonspace s byte_start
              else Ok (byte_start + len_utf8 ch))))))"

definition append_smollm_gpt2_segments :: "unicode_data \<Rightarrow> str \<Rightarrow> str list \<Rightarrow> str list tres option" where
  "append_smollm_gpt2_segments ud part output =
     segment_loop (next_smollm_gpt2_segment_end ud) part 0 output"

text \<open>The outer loop over \<open>char_indices\<close>; \<open>andThen\<close> runs what follows a loop that ended.\<close>

definition andThen :: "'a tres option \<Rightarrow> ('a \<Rightarrow> 'b tres option) \<Rightarrow> 'b tres option" where
  "andThen m k =
     (case m of None \<Rightarrow> None | Some (Ok x) \<Rightarrow> k x | Some (Err e) \<Rightarrow> Some (Err e) | Some Panic \<Rightarrow> Some Panic)"

fun smollm_loop ::
  "unicode_data \<Rightarrow> str \<Rightarrow> (usize \<times> rust_char) list \<Rightarrow> usize \<Rightarrow> str list \<Rightarrow> str list tres option" where
  "smollm_loop ud s [] partition_start segments =
     andThen (Some (slice_from s partition_start)) (\<lambda>part. append_smollm_gpt2_segments ud part segments)"
| "smollm_loop ud s ((byte_start, ch) # rest) partition_start segments =
     (if \<not> is_smollm_number ud ch then smollm_loop ud s rest partition_start segments
      else
        andThen (Some (slice_range s partition_start byte_start)) (\<lambda>part.
        andThen (append_smollm_gpt2_segments ud part segments) (\<lambda>segments'.
        let byte_end = byte_start + len_utf8 ch in
        andThen (Some (slice_range s byte_start byte_end)) (\<lambda>number.
          smollm_loop ud s rest byte_end (segments' @ [number])))))"

definition bpe_pretokenize_smollm :: "unicode_data \<Rightarrow> str \<Rightarrow> str list tres option" where
  "bpe_pretokenize_smollm ud s = smollm_loop ud s (char_indices 0 s) 0 []"


section \<open>The helpers at a boundary\<close>

text \<open>At the boundary behind a prefix \<open>pre\<close> of \<open>pre @ s\<close>, every helper is a function of \<open>s\<close> alone.\<close>

lemma next_char_behind [simp]:
  "next_char (pre @ c # s) (str_len pre + len_utf8 c) = Ok (first_char s)"
  using next_char_append [of "pre @ [c]" s] by simp

lemma scan_while_at:
  "scan_while p (pre @ s) (str_len pre) = Ok (Some (str_len pre + str_len (takeWhile p s)))"
proof (induction s arbitrary: pre)
  case Nil
  then show ?case by (subst scan_while.simps) simp
next
  case (Cons c s)
  from Cons [of "pre @ [c]"] show ?case by (subst scan_while.simps) (simp add: add.assoc)
qed

lemma scan_while_behind:
  "scan_while p (pre @ c # s) (str_len pre + len_utf8 c) =
     Ok (Some (str_len pre + len_utf8 c + str_len (takeWhile p s)))"
  using scan_while_at [of p "pre @ [c]" s] by simp

lemma digits_loop_at:
  "digits_loop ud (pre @ s) m (str_len pre) n =
     Ok (str_len pre + str_len (take (m - n) (takeWhile (is_number ud) s)))"
proof (induction s arbitrary: pre n)
  case Nil
  then show ?case by (subst digits_loop.simps) simp
next
  case (Cons c s)
  have "m - n = Suc (m - (n + 1))" if "n < m" using that by simp
  with Cons [of "pre @ [c]" "n + 1"] show ?case by (subst digits_loop.simps) (simp add: add.assoc)
qed

text \<open>The index of the last element with a property.\<close>

fun last_index :: "('a \<Rightarrow> bool) \<Rightarrow> 'a list \<Rightarrow> nat option" where
  "last_index f [] = None"
| "last_index f (x # xs) =
     (case last_index f xs of Some k \<Rightarrow> Some (Suc k) | None \<Rightarrow> if f x then Some 0 else None)"

abbreviation is_newline :: "rust_char \<Rightarrow> bool" where
  "is_newline c \<equiv> c = 10 \<or> c = 13"

lemma newline_loop_at:
  "newline_loop (pre @ s) (str_len pre) last_end =
     Ok (case last_index is_newline (takeWhile is_whitespace s) of
           Some k \<Rightarrow> Some (str_len pre + str_len (take (Suc k) s)) | None \<Rightarrow> last_end)"
proof (induction s arbitrary: pre last_end)
  case Nil
  then show ?case by (subst newline_loop.simps) simp
next
  case (Cons c s)
  from Cons [of "pre @ [c]"] show ?case
    by (subst newline_loop.simps) (auto simp: add.assoc split: option.splits)
qed

lemma upper_loop_at:
  "upper_loop ud (pre @ s) (str_len pre) last_lower =
     Ok (Some (str_len pre + str_len (takeWhile (is_gpt4o_upper_like ud) s),
        case last_index (is_gpt4o_lower_like ud) (takeWhile (is_gpt4o_upper_like ud) s) of
          Some k \<Rightarrow> Some (str_len pre + str_len (take k s)) | None \<Rightarrow> last_lower))"
proof (induction s arbitrary: pre last_lower)
  case Nil
  then show ?case by (subst upper_loop.simps) simp
next
  case (Cons c s)
  from Cons [of "pre @ [c]"] show ?case
    by (subst upper_loop.simps) (auto simp: add.assoc split: option.splits)
qed

lemma char_indices_length [simp]: "length (char_indices i s) = length s"
  by (induction s arbitrary: i) simp_all

lemma char_indices_append:
  "char_indices i (s @ t) = char_indices i s @ char_indices (i + str_len s) t"
  by (induction s arbitrary: i) (simp_all add: add.assoc)

lemma char_indices_last:
  assumes "s \<noteq> []"
  shows "fst (char_indices i s ! (length s - 1)) = i + str_len (butlast s)"
proof -
  have "fst (char_indices i (t @ [c]) ! (length (t @ [c]) - 1)) = i + str_len t" for t c
    by (simp add: char_indices_append nth_append)
  from this [of "butlast s" "last s"] assms show ?thesis by simp
qed

lemma str_len_takeWhile_eq: "str_len (takeWhile p s) = str_len s \<longleftrightarrow> takeWhile p s = s"
proof
  assume "str_len (takeWhile p s) = str_len s"
  moreover have "str_len s = str_len (takeWhile p s) + str_len (dropWhile p s)"
    using takeWhile_dropWhile_id [of p s] str_len_simps(3) by metis
  ultimately have "dropWhile p s = []" by simp
  then show "takeWhile p s = s" using takeWhile_dropWhile_id [of p s] by (metis append_Nil2)
qed (erule arg_cong)

lemma consume_whitespace_before_nonspace_at:
  "consume_whitespace_before_nonspace (pre @ s) (str_len pre) =
     (let w = takeWhile is_whitespace s in
      Ok (str_len pre + str_len (if w \<noteq> s \<and> 1 < length w then butlast w else w)))"
proof -
  let ?w = "takeWhile is_whitespace s"
  have s: "pre @ s = pre @ ?w @ dropWhile is_whitespace s" by simp
  have sl: "slice_range (pre @ s) (str_len pre) (str_len pre + str_len ?w) = Ok ?w"
    by (subst s) (rule slice_range_append)
  have end_iff: "str_len pre + str_len ?w = str_len (pre @ s) \<longleftrightarrow> ?w = s"
    using str_len_takeWhile_eq [of is_whitespace s] by simp
  show ?thesis
    using char_indices_last [of ?w "str_len pre"]
    unfolding consume_whitespace_before_nonspace_def consume_whitespace_def scan_while_at expectR_simps
      bindR_simps end_iff sl Let_def char_indices_length
    by (cases "?w = []") (simp_all del: takeWhile_eq_all_conv)
qed

lemma consume_whitespace_with_newline_at:
  "consume_whitespace_with_newline (pre @ c # s) (str_len pre) =
     Ok (map_option (\<lambda>k. str_len pre + str_len (take (Suc k) (c # s)))
          (last_index is_newline (takeWhile is_whitespace (c # s))))"
  by (auto simp: consume_whitespace_with_newline_def newline_loop_at split: option.splits)

end
