(* ===== verification/Bpe_Merge.thy ===== *)
theory Bpe_Merge
  imports Utf8_Text "HOL-Library.AList"
begin

text \<open>
  Byte-pair merging (\<open>BpeRegistry\<close> of \<open>src/src/tokenizer/mod.rs\<close>): the table of merge ranks and
  \<open>merge_symbols\<close>, which in each round picks the adjacent pair of lowest rank, leftmost first, and
  merges all its occurrences from left to right.

  The theorems: merging ends, keeps the spelled text and leaves no pair that could be merged; for a
  table in which a merge only uses pieces made by earlier merges it gives the result of the
  textbook algorithm, which merges one pair at a time.
\<close>

section \<open>The registry\<close>

record bpe_registry =
  ranks :: "((str \<times> str) \<times> usize) list"

text \<open>\<open>str::split_once\<close>.\<close>

fun split_once :: "rust_char \<Rightarrow> str \<Rightarrow> (str \<times> str) option" where
  "split_once d [] = None"
| "split_once d (c # s) =
     (if c = d then Some ([], s)
      else map_option (\<lambda>(l, r). (c # l, r)) (split_once d s))"

text \<open>\<open>enumerate\<close>, \<open>filter_map\<close> and \<open>collect\<close>: a later line for the same pair replaces its rank.\<close>

fun collect_ranks :: "usize \<Rightarrow> str list \<Rightarrow> ((str \<times> str) \<times> usize) list \<Rightarrow> ((str \<times> str) \<times> usize) list" where
  "collect_ranks rank [] acc = acc"
| "collect_ranks rank (merge # merges) acc =
     collect_ranks (rank + 1) merges
       (case split_once 32 merge of None \<Rightarrow> acc | Some pair \<Rightarrow> AList.update pair rank acc)"

definition from_merges :: "str list \<Rightarrow> bpe_registry" where
  "from_merges merges = \<lparr>ranks = collect_ranks 0 merges []\<rparr>"

definition registry_len :: "bpe_registry \<Rightarrow> usize" where
  "registry_len reg = length (ranks reg)"

definition registry_is_empty :: "bpe_registry \<Rightarrow> bool" where
  "registry_is_empty reg = (ranks reg = [])"

definition rank_of :: "bpe_registry \<Rightarrow> str \<Rightarrow> str \<Rightarrow> usize option" where
  "rank_of reg l r = map_of (ranks reg) (l, r)"

section \<open>Merging\<close>

text \<open>The candidates of a round, and the maximum of the heap under \<open>Ord for BpeMergeCandidate\<close>, which
  reverses both fields: the lowest rank, and the lowest index among equal ranks.\<close>

fun candidates_from :: "bpe_registry \<Rightarrow> usize \<Rightarrow> str list \<Rightarrow> (usize \<times> usize) list" where
  "candidates_from reg idx (a # b # rest) =
     (case rank_of reg a b of
        Some rank \<Rightarrow> (rank, idx) # candidates_from reg (idx + 1) (b # rest)
      | None \<Rightarrow> candidates_from reg (idx + 1) (b # rest))"
| "candidates_from reg idx _ = []"

definition candidate_before :: "usize \<times> usize \<Rightarrow> usize \<times> usize \<Rightarrow> bool" where
  "candidate_before a b = (fst a < fst b \<or> (fst a = fst b \<and> snd a < snd b))"

fun heap_pop :: "(usize \<times> usize) list \<Rightarrow> (usize \<times> usize) option" where
  "heap_pop [] = None"
| "heap_pop (a # as) =
     (case heap_pop as of None \<Rightarrow> Some a | Some b \<Rightarrow> Some (if candidate_before b a then b else a))"

text \<open>The inner loop of a round.\<close>

fun merge_pass :: "str \<Rightarrow> str \<Rightarrow> str list \<Rightarrow> str list" where
  "merge_pass l r (a # b # rest) =
     (if a = l \<and> b = r then (a @ b) # merge_pass l r rest else a # merge_pass l r (b # rest))"
| "merge_pass l r ss = ss"

text \<open>Adjacent pairs, and what the pop returns.\<close>

fun adjacent :: "'a list \<Rightarrow> ('a \<times> 'a) list" where
  "adjacent (a # b # rest) = (a, b) # adjacent (b # rest)"
| "adjacent _ = []"

lemma candidates_from_iff:
  "(k, j) \<in> set (candidates_from reg idx ss) \<longleftrightarrow>
     (\<exists>i. j = idx + i \<and> Suc i < length ss \<and> rank_of reg (ss ! i) (ss ! Suc i) = Some k)"
proof (induction reg idx ss rule: candidates_from.induct)
  case (1 reg idx a b rest)
  let ?Q = "\<lambda>i. Suc i < length (a # b # rest) \<and> rank_of reg ((a # b # rest) ! i) ((a # b # rest) ! Suc i) = Some k"
  have split: "(\<exists>i. j = idx + i \<and> ?Q i) \<longleftrightarrow> (j = idx \<and> ?Q 0) \<or> (\<exists>i. j = idx + Suc i \<and> ?Q (Suc i))"
    by (metis add_0_right not0_implies_Suc)
  show ?case unfolding split using 1 by (auto split: option.splits)
qed auto

lemma heap_pop_None [simp]: "heap_pop as = None \<longleftrightarrow> as = []"
  by (cases as) (auto split: option.splits)

lemma heap_pop_Some:
  "heap_pop as = Some a \<Longrightarrow> a \<in> set as \<and> (\<forall>b \<in> set as. \<not> candidate_before b a)"
proof (induction as arbitrary: a)
  case (Cons x xs)
  show ?case
  proof (cases "heap_pop xs")
    case None
    with Cons.prems show ?thesis by (auto simp: candidate_before_def)
  next
    case (Some b)
    from Cons.IH [OF Some] Cons.prems Some show ?thesis
      by (auto simp: candidate_before_def split: if_splits)
  qed
qed simp

lemma adjacent_iff: "p \<in> set (adjacent ss) \<longleftrightarrow> (\<exists>i. Suc i < length ss \<and> p = (ss ! i, ss ! Suc i))"
proof (induction ss rule: adjacent.induct)
  case (1 a b rest)
  let ?Q = "\<lambda>i. Suc i < length (a # b # rest) \<and> p = ((a # b # rest) ! i, (a # b # rest) ! Suc i)"
  have split: "(\<exists>i. ?Q i) \<longleftrightarrow> ?Q 0 \<or> (\<exists>i. ?Q (Suc i))" by (metis not0_implies_Suc)
  show ?case unfolding split using 1 by auto
qed auto

text \<open>The best pair: it is adjacent at the index, has the rank, no adjacent pair ranks lower, and no
  occurrence of an equally ranked pair lies further left.\<close>

lemma best_pair:
  assumes "heap_pop (candidates_from reg 0 ss) = Some (k, i)"
  shows "Suc i < length ss" "rank_of reg (ss ! i) (ss ! Suc i) = Some k"
    "\<And>a b n. (a, b) \<in> set (adjacent ss) \<Longrightarrow> rank_of reg a b = Some n \<Longrightarrow> k \<le> n"
    "\<And>j. j < i \<Longrightarrow> rank_of reg (ss ! j) (ss ! Suc j) \<noteq> Some k"
proof -
  from heap_pop_Some [OF assms]
  have mem: "(k, i) \<in> set (candidates_from reg 0 ss)"
    and min: "(n, j) \<in> set (candidates_from reg 0 ss) \<Longrightarrow> \<not> candidate_before (n, j) (k, i)" for n j
    by auto
  from mem show i: "Suc i < length ss" "rank_of reg (ss ! i) (ss ! Suc i) = Some k"
    by (auto simp: candidates_from_iff)
  show "k \<le> n" if "(a, b) \<in> set (adjacent ss)" "rank_of reg a b = Some n" for a b n
  proof -
    from that obtain j where "(n, j) \<in> set (candidates_from reg 0 ss)"
      by (auto simp: candidates_from_iff adjacent_iff)
    from min [OF this] show ?thesis by (auto simp: candidate_before_def)
  qed
  show "rank_of reg (ss ! j) (ss ! Suc j) \<noteq> Some k" if "j < i" for j
  proof
    assume "rank_of reg (ss ! j) (ss ! Suc j) = Some k"
    with that i have "(k, j) \<in> set (candidates_from reg 0 ss)" by (auto simp: candidates_from_iff)
    from min [OF this] that show False by (simp add: candidate_before_def)
  qed
qed

lemma no_pair: "heap_pop (candidates_from reg 0 ss) = None \<Longrightarrow> (a, b) \<in> set (adjacent ss) \<Longrightarrow> rank_of reg a b = None"
proof (rule ccontr)
  assume none: "heap_pop (candidates_from reg 0 ss) = None"
  assume "(a, b) \<in> set (adjacent ss)" "rank_of reg a b \<noteq> None"
  then obtain i k where "Suc i < length ss" "rank_of reg (ss ! i) (ss ! Suc i) = Some k"
    by (auto simp: adjacent_iff)
  then have "(k, i) \<in> set (candidates_from reg 0 ss)" by (auto simp: candidates_from_iff)
  with none show False by simp
qed

lemma merge_pass_length:
  "length (merge_pass l r ss) \<le> length ss"
  "(l, r) \<in> set (adjacent ss) \<Longrightarrow> length (merge_pass l r ss) < length ss"
proof (induction l r ss rule: merge_pass.induct)
  case (1 l r a b rest)
  { case 1
    with "1.IH" show ?case by (auto simp: le_SucI)
  next
    case 2
    with "1.IH" show ?case by (auto simp: less_Suc_eq_le le_SucI) }
qed auto

function merge_symbols :: "bpe_registry \<Rightarrow> str list \<Rightarrow> str list" where
  "merge_symbols reg symbols =
     (if 1 < length symbols then
        (case heap_pop (candidates_from reg 0 symbols) of
           None \<Rightarrow> symbols
         | Some (rank, index) \<Rightarrow>
             merge_symbols reg (merge_pass (symbols ! index) (symbols ! (index + 1)) symbols))
      else symbols)"
  by pat_completeness auto
termination
proof (relation "measure (\<lambda>(_, ss). length ss)")
  fix reg ss p k i
  assume "heap_pop (candidates_from reg 0 ss) = Some p" "(k, i) = p"
  then have "(ss ! i, ss ! (i + 1)) \<in> set (adjacent ss)"
    using best_pair(1) [of reg ss k i] by (auto simp: adjacent_iff)
  from merge_pass_length(2) [OF this]
  show "((reg, merge_pass (ss ! i) (ss ! (i + 1)) ss), (reg, ss)) \<in> measure (\<lambda>(_, ss). length ss)" by simp
qed simp

declare merge_symbols.simps [simp del]


text \<open>One round.\<close>

lemma merge_symbols_step:
  "heap_pop (candidates_from reg 0 ss) = Some (k, i) \<Longrightarrow>
    merge_symbols reg ss = merge_symbols reg (merge_pass (ss ! i) (ss ! Suc i) ss)"
  using best_pair(1) [of reg ss k i] by (subst merge_symbols.simps) simp

lemma merge_symbols_stop: "heap_pop (candidates_from reg 0 ss) = None \<Longrightarrow> merge_symbols reg ss = ss"
  by (subst merge_symbols.simps) simp

text \<open>Induction over the rounds.\<close>

lemma merge_rounds_induct [case_names stop step]:
  assumes "\<And>ss. heap_pop (candidates_from reg 0 ss) = None \<Longrightarrow> P ss"
    and "\<And>ss k i. heap_pop (candidates_from reg 0 ss) = Some (k, i) \<Longrightarrow>
      P (merge_pass (ss ! i) (ss ! Suc i) ss) \<Longrightarrow> P ss"
  shows "P ss"
proof (induction ss rule: length_induct)
  case (1 ss)
  show ?case
  proof (cases "heap_pop (candidates_from reg 0 ss)")
    case None
    then show ?thesis by (rule assms(1))
  next
    case (Some p)
    obtain k i where p: "p = (k, i)" by force
    have "(ss ! i, ss ! Suc i) \<in> set (adjacent ss)"
      using best_pair(1) [of reg ss k i] Some p by (auto simp: adjacent_iff)
    from merge_pass_length(2) [OF this] 1 assms(2) [OF Some [unfolded p]] show ?thesis by blast
  qed
qed

lemma concat_merge_pass [simp]: "concat (merge_pass l r ss) = concat ss"
  by (induction l r ss rule: merge_pass.induct) auto

lemma merge_pass_nonempty: "[] \<notin> set ss \<Longrightarrow> [] \<notin> set (merge_pass l r ss)"
  by (induction l r ss rule: merge_pass.induct) auto

lemma merge_pass_Nil_iff [simp]: "merge_pass l r ss = [] \<longleftrightarrow> ss = []"
  by (induction l r ss rule: merge_pass.induct) auto

text \<open>What merging promises to its callers: the text is kept, no piece is empty, and nothing is left
  to merge.\<close>

lemma merge_symbols_concat: "concat (merge_symbols reg ss) = concat ss"
  by (induction ss rule: merge_rounds_induct [of reg]) (simp_all add: merge_symbols_stop merge_symbols_step)

lemma merge_symbols_nonempty: "[] \<notin> set ss \<Longrightarrow> [] \<notin> set (merge_symbols reg ss)"
  by (induction ss rule: merge_rounds_induct [of reg])
    (simp_all add: merge_symbols_stop merge_symbols_step merge_pass_nonempty)

lemma merge_symbols_done: "(a, b) \<in> set (adjacent (merge_symbols reg ss)) \<Longrightarrow> rank_of reg a b = None"
  by (induction ss rule: merge_rounds_induct [of reg])
    (simp_all add: merge_symbols_stop merge_symbols_step no_pair)

section \<open>Merging one pair at a time\<close>

definition merge_at :: "nat \<Rightarrow> str list \<Rightarrow> str list" where
  "merge_at i ss = take i ss @ (ss ! i @ ss ! Suc i) # drop (i + 2) ss"

function merge_one_by_one :: "bpe_registry \<Rightarrow> str list \<Rightarrow> str list" where
  "merge_one_by_one reg ss =
     (case heap_pop (candidates_from reg 0 ss) of
        None \<Rightarrow> ss
      | Some (rank, i) \<Rightarrow> merge_one_by_one reg (merge_at i ss))"
  by pat_completeness auto
termination
proof (relation "measure (\<lambda>(_, ss). length ss)")
  fix reg ss p k i
  assume "heap_pop (candidates_from reg 0 ss) = Some p" "(k, i) = p"
  then have "Suc i < length ss" using best_pair(1) [of reg ss k i] by auto
  then show "((reg, merge_at i ss), (reg, ss)) \<in> measure (\<lambda>(_, ss). length ss)"
    by (auto simp: merge_at_def)
qed simp

declare merge_one_by_one.simps [simp del]

text \<open>In the table of a list of merges, the rank of a pair is the line it stands on, so no two pairs
  share a rank.\<close>

lemma collect_ranks_sound:
  assumes "\<And>p k. map_of acc p = Some k \<Longrightarrow> k < length pre \<and> split_once 32 (pre ! k) = Some p"
  shows "map_of (collect_ranks (length pre) merges acc) p = Some k \<Longrightarrow>
    k < length (pre @ merges) \<and> split_once 32 ((pre @ merges) ! k) = Some p"
  using assms
proof (induction merges arbitrary: pre acc)
  case (Cons m ms)
  have step: "map_of (case split_once 32 m of None \<Rightarrow> acc | Some pair \<Rightarrow> AList.update pair (length pre) acc) q = Some n
      \<Longrightarrow> n < length (pre @ [m]) \<and> split_once 32 ((pre @ [m]) ! n) = Some q" for q n
    using Cons.prems(2) [of q n]
    by (auto simp: update_conv' nth_append less_Suc_eq split: option.splits if_splits)
  show ?case
    using Cons.IH [of "pre @ [m]", OF _ step] Cons.prems(1) by simp
qed simp

lemma rank_of_from_merges:
  "rank_of (from_merges merges) a b = Some k \<Longrightarrow> k < length merges \<and> split_once 32 (merges ! k) = Some (a, b)"
  unfolding rank_of_def from_merges_def using collect_ranks_sound [of "[]" "[]" merges "(a, b)" k] by simp

text \<open>A trained table: a merge that uses a piece made by another merge comes after it.\<close>

definition trained :: "bpe_registry \<Rightarrow> bool" where
  "trained reg =
     (\<forall>a b c d k n. rank_of reg a b = Some k \<longrightarrow> rank_of reg c d = Some n \<longrightarrow>
         (c = a @ b \<or> d = a @ b) \<longrightarrow> k < n)"

lemma merge_pass_none: "(l, r) \<notin> set (adjacent ss) \<Longrightarrow> merge_pass l r ss = ss"
  by (induction l r ss rule: merge_pass.induct) auto

lemma merge_pass_behind:
  "(l, r) \<notin> set (adjacent (pre @ [x])) \<Longrightarrow> merge_pass l r (pre @ x # post) = pre @ merge_pass l r (x # post)"
proof (induction pre)
  case (Cons a pre)
  then show ?case by (cases pre) auto
qed simp

lemma adjacent_append:
  "set (adjacent (xs @ ys)) =
     set (adjacent xs) \<union> set (adjacent ys) \<union> (if xs = [] \<or> ys = [] then {} else {(last xs, hd ys)})"
proof (induction xs rule: adjacent.induct)
  case (1 a b rest)
  then show ?case by auto
next
  case "2_2"
  then show ?case by (cases ys) auto
qed simp

lemma pair_split:
  assumes "Suc i < length ss"
  shows "ss = take i ss @ ss ! i # ss ! Suc i # drop (i + 2) ss"
  using assms by (metis Cons_nth_drop_Suc Suc_lessD add_2_eq_Suc' append_take_drop_id)

text \<open>Merging the leftmost occurrence first does not change what the whole pass produces.\<close>

lemma merge_pass_merge_at:
  assumes i: "Suc i < length ss" and ne: "[] \<notin> set ss"
    and first: "\<And>j. j < i \<Longrightarrow> (ss ! j, ss ! Suc j) \<noteq> (ss ! i, ss ! Suc i)"
  shows "merge_pass (ss ! i) (ss ! Suc i) (merge_at i ss) = merge_pass (ss ! i) (ss ! Suc i) ss"
proof -
  define pre post l r where "pre = take i ss" and "post = drop (i + 2) ss" and "l = ss ! i" and "r = ss ! Suc i"
  have ss: "ss = pre @ l # r # post" unfolding pre_def post_def l_def r_def by (rule pair_split [OF i])
  have len: "length pre = i" using i by (simp add: pre_def)
  have "l \<noteq> []" "r \<noteq> []" using ne i by (auto simp: l_def r_def) (metis Suc_lessD nth_mem)+
  have free: "(l, r) \<notin> set (adjacent (pre @ [l]))"
  proof
    assume "(l, r) \<in> set (adjacent (pre @ [l]))"
    then obtain j where "Suc j < length (pre @ [l])" "(pre @ [l]) ! j = l" "(pre @ [l]) ! Suc j = r"
      by (auto simp: adjacent_iff)
    moreover from this(1) have "j < i" "(pre @ [l]) ! j = ss ! j" "(pre @ [l]) ! Suc j = ss ! Suc j"
      using len by (auto simp: ss nth_append less_Suc_eq)
    ultimately show False using first [of j] by (simp add: l_def r_def)
  qed
  moreover from this have "(l, r) \<notin> set (adjacent (pre @ [l @ r]))"
    using \<open>l \<noteq> []\<close> by (auto simp: adjacent_append)
  ultimately have "merge_pass l r ss = pre @ (l @ r) # merge_pass l r post"
    "merge_pass l r (pre @ (l @ r) # post) = pre @ merge_pass l r ((l @ r) # post)"
    unfolding ss by (simp_all add: merge_pass_behind)
  moreover have "merge_pass l r ((l @ r) # post) = (l @ r) # merge_pass l r post"
    using \<open>r \<noteq> []\<close> by (cases post) auto
  ultimately show ?thesis unfolding merge_at_def l_def r_def pre_def post_def by simp
qed


lemma adjacent_merge_at:
  assumes "Suc i < length ss" "(a, b) \<in> set (adjacent (merge_at i ss))"
  shows "(a, b) \<in> set (adjacent ss) \<or> a = ss ! i @ ss ! Suc i \<or> b = ss ! i @ ss ! Suc i"
proof -
  define pre post l r where "pre = take i ss" and "post = drop (i + 2) ss" and "l = ss ! i" and "r = ss ! Suc i"
  have ss: "ss = pre @ l # r # post" unfolding pre_def post_def l_def r_def by (rule pair_split [OF assms(1)])
  have m: "merge_at i ss = pre @ [l @ r] @ post" by (simp add: merge_at_def pre_def post_def l_def r_def)
  have "set (adjacent pre) \<subseteq> set (adjacent ss)" "set (adjacent post) \<subseteq> set (adjacent ss)"
    unfolding ss using adjacent_append [of pre "l # r # post"] adjacent_append [of "[l, r]" post] by auto
  moreover from assms(2) have "(a, b) \<in> set (adjacent pre) \<or> (a, b) \<in> set (adjacent post) \<or> a = l @ r \<or> b = l @ r"
    unfolding m by (cases post) (auto simp: adjacent_append split: if_splits)
  ultimately show ?thesis unfolding l_def r_def by blast
qed

lemma merge_one_step:
  "heap_pop (candidates_from reg 0 ss) = Some (k, i) \<Longrightarrow> merge_one_by_one reg ss = merge_one_by_one reg (merge_at i ss)"
  by (subst merge_one_by_one.simps) simp

lemma merge_at_nonempty: "Suc i < length ss \<Longrightarrow> [] \<notin> set ss \<Longrightarrow> [] \<notin> set (merge_at i ss)"
  unfolding merge_at_def by (auto dest: in_set_takeD in_set_dropD) (metis Suc_lessD nth_mem)

text \<open>Merging one at a time first merges all occurrences of the best pair.\<close>

lemma merge_one_by_one_pass:
  assumes reg: "reg = from_merges merges" and tr: "trained reg"
  shows "[] \<notin> set ss \<Longrightarrow> heap_pop (candidates_from reg 0 ss) = Some (k, i) \<Longrightarrow>
    merge_one_by_one reg ss = merge_one_by_one reg (merge_pass (ss ! i) (ss ! Suc i) ss)"
proof (induction ss arbitrary: i rule: length_induct)
  case (1 ss)
  let ?l = "ss ! i" and ?r = "ss ! Suc i" and ?s = "merge_at i ss"
  note best = best_pair [OF 1(3)]
  have lt: "length ?s < length ss" using best(1) by (simp add: merge_at_def)
  have first: "(ss ! j, ss ! Suc j) \<noteq> (?l, ?r)" if "j < i" for j
    using best(2) best(4) [OF that] by (metis prod.inject)
  note pass = merge_pass_merge_at [OF best(1) 1(2) first]
  have above: "k \<le> n" if "(a, b) \<in> set (adjacent ?s)" "rank_of reg a b = Some n" for a b n
    using adjacent_merge_at [OF best(1) that(1)] best(3) that(2)
      tr [unfolded trained_def, rule_format, OF best(2) that(2)] by (metis less_imp_le)
  have uniq: "a = ?l \<and> b = ?r" if "rank_of reg a b = Some k" for a b
    using rank_of_from_merges [OF that [unfolded reg]] rank_of_from_merges [OF best(2) [unfolded reg]] by simp
  show ?case
  proof (cases "(?l, ?r) \<in> set (adjacent ?s)")
    case False
    then show ?thesis using merge_one_step [OF 1(3)] pass by (simp add: merge_pass_none)
  next
    case True
    then obtain p where p: "heap_pop (candidates_from reg 0 ?s) = Some p"
      using no_pair [of reg ?s ?l ?r] best(2) by fastforce
    obtain n j where nj: "p = (n, j)" by force
    note best' = best_pair [OF p [unfolded nj]]
    have "n = k"
    proof (rule antisym)
      show "n \<le> k" using best'(3) [OF True best(2)] .
      have "(?s ! j, ?s ! Suc j) \<in> set (adjacent ?s)" using best'(1) by (auto simp: adjacent_iff)
      from above [OF this best'(2)] show "k \<le> n" .
    qed
    with best'(2) uniq have "?s ! j = ?l" "?s ! Suc j = ?r" by blast+
    with 1(1) [rule_format, OF lt merge_at_nonempty [OF best(1) 1(2)], of j] p nj \<open>n = k\<close>
    show ?thesis using merge_one_step [OF 1(3)] pass by simp
  qed
qed

text \<open>C26. Byte-pair merging is the textbook algorithm: although every round of \<open>merge_symbols\<close> merges all
  occurrences of the best pair at once, the result is that of merging, one at a time, the leftmost pair of lowest rank until
  no pair has a rank, for every list of nonempty symbols and every table in which no merge comes before the merges that make
  its pieces.\<close>

theorem merge_symbols_one_by_one:
  assumes "trained (from_merges merges)" "[] \<notin> set symbols"
  shows "merge_symbols (from_merges merges) symbols = merge_one_by_one (from_merges merges) symbols"
  using assms(2)
proof (induction symbols rule: merge_rounds_induct [of "from_merges merges"])
  case (stop ss)
  then show ?case by (subst merge_one_by_one.simps) (simp add: merge_symbols_stop)
next
  case (step ss k i)
  then show ?case
    using merge_one_by_one_pass [OF refl assms(1) step(3,1)] by (simp add: merge_symbols_step merge_pass_nonempty)
qed

definition small_merges :: "str list" where
  "small_merges = [lit ''a b'', lit ''b c'', lit ''ab ab'', lit ''nospace'']"

lemma trained_small: "trained (from_merges small_merges)"
proof -
  have "ranks (from_merges small_merges) = [((lit ''a'', lit ''b''), 0), ((lit ''b'', lit ''c''), 1), ((lit ''ab'', lit ''ab''), 2)]"
    by code_simp
  moreover have "lit ''a'' = [97]" "lit ''b'' = [98]" "lit ''c'' = [99]" "lit ''ab'' = [97, 98]" by code_simp+
  ultimately show ?thesis by (auto simp: trained_def rank_of_def split: if_splits)
qed

theorem merge_symbols_one_by_one_witness:
  "merge_one_by_one (from_merges small_merges) (map (\<lambda>c. [c]) (lit ''abababc'')) = [lit ''abab'', lit ''ab'', lit ''c'']"
proof -
  have "[] \<notin> set (map (\<lambda>c. [c]) (lit ''abababc''))" by auto
  moreover have "merge_symbols (from_merges small_merges) (map (\<lambda>c. [c]) (lit ''abababc'')) = [lit ''abab'', lit ''ab'', lit ''c'']"
    by code_simp
  ultimately show ?thesis using merge_symbols_one_by_one [OF trained_small] by metis
qed

end
