(* ===== verification/Special_Index.thy ===== *)
theory Special_Index
  imports Tokenizer_Base
begin

text \<open>
  Tokens and the index of special tokens (\<open>SpecialsIndex\<close> of \<open>src/src/tokenizer/mod.rs\<close>): patterns in
  buckets by first byte, longest first, with two bitsets of the bytes that can start a pattern.

  The theorems: at every offset the index finds what a scan of the whole vocabulary finds, and the
  search for the next special token, which runs over bytes, stops where a scan over characters stops.
\<close>

section \<open>Tokens\<close>

type_synonym token_id = u32

datatype token_kind = Undefined | Normal | Unknown | Control | UserDefined | Unused | Byte

definition kind_from_i32 :: "int \<Rightarrow> token_kind tres" where
  "kind_from_i32 v =
     (if v = 0 then Ok Undefined else if v = 1 then Ok Normal else if v = 2 then Ok Unknown
      else if v = 3 then Ok Control else if v = 4 then Ok UserDefined else if v = 5 then Ok Unused
      else if v = 6 then Ok Byte else Err (UnknownTokenType v))"

record token =
  t_id :: token_id
  t_text :: str
  t_score :: u32
  t_kind :: token_kind

definition ends_with :: "str \<Rightarrow> str \<Rightarrow> bool" where
  "ends_with s p = starts_with (rev s) (rev p)"

definition is_chat_control_marker :: "token \<Rightarrow> bool" where
  "is_chat_control_marker t =
     (t_kind t = UserDefined \<and> starts_with (t_text t) [60, 124] \<and> ends_with (t_text t) [124, 62])"

section \<open>The index\<close>

record special_pattern =
  p_text :: str
  p_is_control :: bool

record specials_index =
  si_vocab_len :: usize
  si_buckets :: "special_pattern list list"
  si_first_byte :: "u64 list list"
  si_chat_control_marker_texts :: "str set"

definition set_byte_bit :: "u64 list \<Rightarrow> u8 \<Rightarrow> u64 list" where
  "set_byte_bit st byte =
     st[unat (drop_bit 6 byte) := st ! unat (drop_bit 6 byte) OR push_bit (unat (byte AND 63)) 1]"

definition test_byte_bit :: "u64 list \<Rightarrow> u8 \<Rightarrow> bool" where
  "test_byte_bit st byte = (st ! unat (drop_bit 6 byte) AND push_bit (unat (byte AND 63)) 1 \<noteq> 0)"

text \<open>The loop body of \<open>SpecialsIndex::build\<close>.\<close>

definition index_token :: "specials_index \<Rightarrow> token \<Rightarrow> specials_index" where
  "index_token ix t =
     (let ix1 = (if is_chat_control_marker t
                 then ix\<lparr>si_chat_control_marker_texts := insert (t_text t) (si_chat_control_marker_texts ix)\<rparr> else ix);
          add = (\<lambda>is_control.
            case as_bytes (t_text t) of
              [] \<Rightarrow> ix1
            | first # _ \<Rightarrow>
                ix1\<lparr>si_buckets := (si_buckets ix1)[unat first := si_buckets ix1 ! unat first @
                       [\<lparr>p_text = t_text t, p_is_control = is_control\<rparr>]],
                    si_first_byte :=
                      (let fb = (si_first_byte ix1)[1 := set_byte_bit (si_first_byte ix1 ! 1) first]
                       in if \<not> is_control then fb[0 := set_byte_bit (fb ! 0) first] else fb)\<rparr>)
      in case t_kind t of UserDefined \<Rightarrow> add False | Control \<Rightarrow> add True | _ \<Rightarrow> ix1)"

definition index_build :: "token list \<Rightarrow> specials_index" where
  "index_build tokens =
     (let ix = foldl index_token
                 \<lparr>si_vocab_len = length tokens, si_buckets = replicate 256 [],
                  si_first_byte = replicate 2 (replicate 4 0), si_chat_control_marker_texts = {}\<rparr> tokens
      in ix\<lparr>si_buckets := map (sort_key (\<lambda>p. - int (str_len (p_text p)))) (si_buckets ix)\<rparr>)"

definition may_start :: "specials_index \<Rightarrow> bool \<Rightarrow> u8 \<Rightarrow> bool" where
  "may_start ix include_control byte =
     test_byte_bit (si_first_byte ix ! (if include_control then 1 else 0)) byte"

definition longest_at :: "specials_index \<Rightarrow> str \<Rightarrow> usize \<Rightarrow> bool \<Rightarrow> (str \<times> usize) option" where
  "longest_at ix s byte_start include_control =
     (case get_from s byte_start of
        None \<Rightarrow> None
      | Some rest \<Rightarrow>
          (case as_bytes rest of
             [] \<Rightarrow> None
           | first # _ \<Rightarrow>
               if \<not> may_start ix include_control first then None
               else map_option (\<lambda>p. (p_text p, str_len (p_text p)))
                 (find (\<lambda>p. (include_control \<or> \<not> p_is_control p) \<and> starts_with rest (p_text p))
                   (si_buckets ix ! unat first))))"

definition is_chat_control_marker_text :: "specials_index \<Rightarrow> str \<Rightarrow> bool" where
  "is_chat_control_marker_text ix s = (s \<in> si_chat_control_marker_texts ix)"

definition next_control_token_start :: "specials_index \<Rightarrow> str \<Rightarrow> usize \<Rightarrow> bool \<Rightarrow> usize option" where
  "next_control_token_start ix s byte_start include_control =
     (let bs = as_bytes s in
      find (\<lambda>idx. may_start ix include_control (bs ! idx) \<and> longest_at ix s idx include_control \<noteq> None)
        [byte_start..<length bs])"

section \<open>The scans the index replaces\<close>

definition eligible :: "bool \<Rightarrow> token \<Rightarrow> bool" where
  "eligible include_control t =
     ((t_kind t = UserDefined \<or> (include_control \<and> t_kind t = Control)) \<and> t_text t \<noteq> [])"

text \<open>\<open>max_by_key\<close> on the lengths: the last of the longest.\<close>

fun max_by_len :: "str list \<Rightarrow> str option" where
  "max_by_len [] = None"
| "max_by_len (x # xs) =
     (case max_by_len xs of None \<Rightarrow> Some x | Some y \<Rightarrow> if str_len x \<le> str_len y then Some y else Some x)"

definition scan_longest_at :: "token list \<Rightarrow> str \<Rightarrow> usize \<Rightarrow> bool \<Rightarrow> (str \<times> usize) option" where
  "scan_longest_at tokens s byte_start include_control =
     (case get_from s byte_start of
        None \<Rightarrow> None
      | Some rest \<Rightarrow>
          map_option (\<lambda>x. (x, str_len x))
            (max_by_len (filter (starts_with rest) (map t_text (filter (eligible include_control) tokens)))))"

definition scan_next_start :: "token list \<Rightarrow> str \<Rightarrow> usize \<Rightarrow> bool \<Rightarrow> usize option tres" where
  "scan_next_start tokens s byte_start include_control =
     bindR (slice_from s byte_start) (\<lambda>rest.
       Ok (find (\<lambda>idx. scan_longest_at tokens s idx include_control \<noteq> None)
         (map fst (char_indices byte_start rest))))"

section \<open>Bitsets of bytes\<close>

lemma unat_u8_less: "unat b < 256" for b :: u8
proof -
  have "unat b < 2 ^ LENGTH(8)" by (rule unsigned_less)
  then show ?thesis by simp
qed

lemma unat_drop_6: "unat (drop_bit 6 b) = unat b div 64" for b :: u8
  by (simp add: drop_bit_eq_div unat_div)

lemma unat_and_63: "unat (b AND 63) = unat b mod 64" for b :: u8
proof -
  have m: "(63 :: nat) = mask 6" by (simp add: mask_eq_exp_minus_1)
  have "unat (b AND 63) = unat b AND 63" by (simp add: unsigned_and_eq)
  also have "\<dots> = unat b mod 64" unfolding m take_bit_eq_mask [symmetric] by (simp add: take_bit_eq_mod)
  finally show ?thesis .
qed

lemma test_bit_word: "x AND push_bit n 1 \<noteq> 0 \<longleftrightarrow> bit x n" for x :: u64
  by (simp add: push_bit_eq_mult and_exp_eq_0_iff_not_bit)

lemma test_set_byte_bit:
  assumes "length st = 4"
  shows "test_byte_bit (set_byte_bit st a) b \<longleftrightarrow> test_byte_bit st b \<or> a = b"
proof -
  have lt: "unat a div 64 < 4" using unat_u8_less [of a] by auto
  have eq: "a = b \<longleftrightarrow> unat a div 64 = unat b div 64 \<and> unat a mod 64 = unat b mod 64"
    by (metis div_mult_mod_eq word_unat_eq_iff)
  have "bit (push_bit (unat a mod 64) 1 :: u64) (unat b mod 64) \<longleftrightarrow> unat a mod 64 = unat b mod 64"
    by (simp add: push_bit_eq_mult bit_exp_iff) auto
  then show ?thesis
    unfolding test_byte_bit_def set_byte_bit_def test_bit_word unat_drop_6 unat_and_63 eq
    using lt assms by (auto simp: nth_list_update bit_or_iff)
qed

lemma length_set_byte_bit [simp]: "length (set_byte_bit st a) = length st"
  by (simp add: set_byte_bit_def)

section \<open>What the index holds\<close>

definition first_byte :: "str \<Rightarrow> u8" where
  "first_byte s = hd (as_bytes s)"

lemma as_bytes_Cons_iff:
  assumes "s \<noteq> []"
  shows "\<exists>bs. as_bytes s = first_byte s # bs"
proof -
  have "as_bytes s \<noteq> []" using assms length_as_bytes [of s] by (metis list.size(3) str_len_0_iff)
  then show ?thesis unfolding first_byte_def by (metis list.collapse)
qed

text \<open>The index of a list of tokens, before the buckets are sorted.\<close>

definition pattern_of :: "token \<Rightarrow> special_pattern" where
  "pattern_of t = \<lparr>p_text = t_text t, p_is_control = (t_kind t = Control)\<rparr>"

definition indexes :: "token list \<Rightarrow> specials_index \<Rightarrow> bool" where
  "indexes tokens ix =
     (length (si_buckets ix) = 256 \<and>
      (\<exists>u c. si_first_byte ix = [u, c] \<and> length u = 4 \<and> length c = 4) \<and>
      (\<forall>b < 256. set (si_buckets ix ! b) =
         pattern_of ` {x \<in> set tokens. eligible True x \<and> unat (first_byte (t_text x)) = b}) \<and>
      (\<forall>ic b. may_start ix ic b \<longleftrightarrow> (\<exists>t \<in> set tokens. eligible ic t \<and> first_byte (t_text t) = b)) \<and>
      si_chat_control_marker_texts ix = t_text ` {x \<in> set tokens. is_chat_control_marker x})"

lemma indexes_empty:
  "indexes [] \<lparr>si_vocab_len = n, si_buckets = replicate 256 [],
     si_first_byte = replicate 2 (replicate 4 0), si_chat_control_marker_texts = {}\<rparr>"
proof -
  have "unat (drop_bit 6 b) < 4" for b :: u8
    unfolding unat_drop_6 using unat_u8_less [of b] by auto
  then show ?thesis
    by (auto simp: indexes_def may_start_def test_byte_bit_def numeral_2_eq_2)
qed


lemma index_token_eq:
  "index_token ix t =
     (let ix1 = (if is_chat_control_marker t
                 then ix\<lparr>si_chat_control_marker_texts := insert (t_text t) (si_chat_control_marker_texts ix)\<rparr> else ix);
          b = first_byte (t_text t); ctl = (t_kind t = Control) in
      if eligible True t then
        ix1\<lparr>si_buckets := (si_buckets ix1)[unat b := si_buckets ix1 ! unat b @ [\<lparr>p_text = t_text t, p_is_control = ctl\<rparr>]],
            si_first_byte :=
              (let fb = (si_first_byte ix1)[1 := set_byte_bit (si_first_byte ix1 ! 1) b]
               in if \<not> ctl then fb[0 := set_byte_bit (fb ! 0) b] else fb)\<rparr>
      else ix1)"
  using as_bytes_Cons_iff [of "t_text t"]
  by (cases "t_text t = []") (auto simp: index_token_def eligible_def Let_def split: token_kind.splits)

lemma may_start_two:
  "si_first_byte ix = [u, c] \<Longrightarrow> may_start ix ic b \<longleftrightarrow> test_byte_bit (if ic then c else u) b"
  by (simp add: may_start_def)

lemma index_token_first_byte:
  assumes fb: "si_first_byte ix = [u, c]" "length u = 4" "length c = 4"
  shows "\<exists>u' c'. si_first_byte (index_token ix t) = [u', c'] \<and> length u' = 4 \<and> length c' = 4 \<and>
    (\<forall>ic b. test_byte_bit (if ic then c' else u') b \<longleftrightarrow>
       test_byte_bit (if ic then c else u) b \<or> (eligible ic t \<and> first_byte (t_text t) = b))"
proof (cases "eligible True t")
  case False
  then have "\<not> eligible ic t" for ic by (cases ic) (auto simp: eligible_def)
  with False fb show ?thesis by (auto simp: index_token_eq Let_def)
next
  case True
  let ?b = "first_byte (t_text t)"
  show ?thesis
  proof (cases "t_kind t = Control")
    case c: True
    then have "\<not> eligible False t" by (simp add: eligible_def)
    with True c fb have "si_first_byte (index_token ix t) = [u, set_byte_bit c ?b]"
      by (simp add: index_token_eq Let_def)
    with fb True \<open>\<not> eligible False t\<close> show ?thesis by (auto simp: test_set_byte_bit)
  next
    case c: False
    with True have "eligible False t" by (simp add: eligible_def)
    with True c fb have "si_first_byte (index_token ix t) = [set_byte_bit u ?b, set_byte_bit c ?b]"
      by (simp add: index_token_eq Let_def)
    with fb True \<open>eligible False t\<close> show ?thesis by (auto simp: test_set_byte_bit)
  qed
qed

lemma index_token_indexes:
  assumes "indexes tokens ix"
  shows "indexes (tokens @ [t]) (index_token ix t)"
proof -
  let ?ix = "index_token ix t" and ?b = "first_byte (t_text t)"
  let ?pat = "\<lparr>p_text = t_text t, p_is_control = (t_kind t = Control)\<rparr>"
  from assms obtain u c where fb: "si_first_byte ix = [u, c]" "length u = 4" "length c = 4"
    and len: "length (si_buckets ix) = 256"
    and buckets: "b < 256 \<Longrightarrow> set (si_buckets ix ! b) = pattern_of ` {x \<in> set tokens. eligible True x \<and> unat (first_byte (t_text x)) = b}"
    and start: "may_start ix ic b' \<longleftrightarrow> (\<exists>t \<in> set tokens. eligible ic t \<and> first_byte (t_text t) = b')"
    and texts: "si_chat_control_marker_texts ix = t_text ` {x \<in> set tokens. is_chat_control_marker x}" for b ic b'
    unfolding indexes_def by blast
  obtain u' c' where fb': "si_first_byte ?ix = [u', c']" "length u' = 4" "length c' = 4"
    and bits: "test_byte_bit (if ic then c' else u') b \<longleftrightarrow>
       test_byte_bit (if ic then c else u) b \<or> (eligible ic t \<and> ?b = b)" for ic b
    using index_token_first_byte [OF fb, of t] by blast
  have start': "may_start ?ix ic b \<longleftrightarrow> (\<exists>x \<in> set (tokens @ [t]). eligible ic x \<and> first_byte (t_text x) = b)" for ic b
    unfolding may_start_two [OF fb'(1)] bits using start [of ic b] unfolding may_start_two [OF fb(1)] by auto
  have bk: "si_buckets ?ix = (if eligible True t then (si_buckets ix)[unat ?b := si_buckets ix ! unat ?b @ [?pat]] else si_buckets ix)"
    by (simp add: index_token_eq Let_def)
  have len': "length (si_buckets ?ix) = 256" by (simp add: bk len)
  have "set (si_buckets ?ix ! b) = set (si_buckets ix ! b) \<union> (if eligible True t \<and> unat ?b = b then {?pat} else {})" if "b < 256" for b
    unfolding bk using len that by (auto simp: nth_list_update)
  then have buckets': "b < 256 \<Longrightarrow> set (si_buckets ?ix ! b) = pattern_of ` {x \<in> set (tokens @ [t]). eligible True x \<and> unat (first_byte (t_text x)) = b}" for b
    using buckets by (auto simp: pattern_of_def)
  have texts': "si_chat_control_marker_texts ?ix = t_text ` {x \<in> set (tokens @ [t]). is_chat_control_marker x}"
    by (auto simp: index_token_eq Let_def texts)
  show ?thesis
    unfolding indexes_def using fb' len' buckets' start' texts' by blast
qed

lemma index_tokens_indexes: "indexes done_tokens ix \<Longrightarrow> indexes (done_tokens @ tokens) (foldl index_token ix tokens)"
proof (induction tokens arbitrary: done_tokens ix)
  case (Cons t tokens)
  from Cons.IH [OF index_token_indexes [OF Cons.prems]] show ?case by simp
qed simp

text \<open>The finished index: the same contents, with every bucket longest first.\<close>

lemma index_build_indexes: "indexes tokens (index_build tokens)"
proof -
  let ?ix0 = "\<lparr>si_vocab_len = length tokens, si_buckets = replicate 256 [],
     si_first_byte = replicate 2 (replicate 4 0), si_chat_control_marker_texts = {}\<rparr>"
  have "indexes tokens (foldl index_token ?ix0 tokens)"
    using index_tokens_indexes [OF indexes_empty, of tokens] by simp
  then show ?thesis unfolding indexes_def index_build_def Let_def by (simp add: may_start_def)
qed

lemma index_build_sorted:
  assumes "b < 256"
  shows "sorted (map (\<lambda>p. - int (str_len (p_text p))) (si_buckets (index_build tokens) ! b))"
  using assms index_build_indexes [of tokens] by (simp add: indexes_def index_build_def Let_def)


section \<open>The index finds what the scan finds\<close>

lemma max_by_len_None [simp]: "max_by_len xs = None \<longleftrightarrow> xs = []"
  by (cases xs) (auto split: option.splits)

lemma max_by_len_Some: "max_by_len xs = Some m \<Longrightarrow> m \<in> set xs \<and> (\<forall>x \<in> set xs. str_len x \<le> str_len m)"
proof (induction xs arbitrary: m)
  case (Cons x xs)
  show ?case
  proof (cases "max_by_len xs")
    case None
    with Cons.prems show ?thesis by auto
  next
    case (Some y)
    from Cons.IH [OF Some] Cons.prems Some show ?thesis by (auto split: if_splits)
  qed
qed simp

lemma find_sorted:
  "find P xs = Some p \<Longrightarrow> sorted (map f xs) \<Longrightarrow> q \<in> set xs \<Longrightarrow> P q \<Longrightarrow> f p \<le> f q"
  for f :: "'a \<Rightarrow> 'b::linorder"
  by (induction xs) (auto split: if_splits)

lemma starts_with_same_len: "starts_with s x \<Longrightarrow> starts_with s y \<Longrightarrow> str_len x = str_len y \<Longrightarrow> x = y"
  using str_len_le_prefix [of x _ y] by (fastforce simp: starts_with_iff)

lemma first_byte_prefix: "starts_with s x \<Longrightarrow> x \<noteq> [] \<Longrightarrow> first_byte x = first_byte s"
  by (auto simp: starts_with_iff first_byte_def neq_Nil_conv)

lemma eligible_pattern:
  "eligible ic t \<longleftrightarrow> eligible True t \<and> (ic \<or> \<not> p_is_control (pattern_of t))"
  by (auto simp: eligible_def pattern_of_def)

lemma longest_at_scan:
  "longest_at (index_build tokens) s byte_start ic = scan_longest_at tokens s byte_start ic"
proof (cases "get_from s byte_start")
  case None
  then show ?thesis by (simp add: longest_at_def scan_longest_at_def)
next
  case (Some rest)
  let ?ix = "index_build tokens"
  let ?M = "filter (starts_with rest) (map t_text (filter (eligible ic) tokens))"
  let ?P = "\<lambda>p. (ic \<or> \<not> p_is_control p) \<and> starts_with rest (p_text p)"
  show ?thesis
  proof (cases "rest = []")
    case True
    have "?M = []" unfolding True by (auto simp: filter_empty_conv eligible_def neq_Nil_conv)
    with Some True show ?thesis by (simp add: longest_at_def scan_longest_at_def)
  next
    case False
    then obtain bs where bytes: "as_bytes rest = first_byte rest # bs" using as_bytes_Cons_iff by blast
    let ?b = "first_byte rest" and ?bucket = "si_buckets ?ix ! unat (first_byte rest)"
    have b: "unat ?b < 256" by (rule unat_u8_less)
    from index_build_indexes [of tokens] b
    have bucket: "set ?bucket = pattern_of ` {x \<in> set tokens. eligible True x \<and> unat (first_byte (t_text x)) = unat ?b}"
      and start: "may_start ?ix ic ?b \<longleftrightarrow> (\<exists>x \<in> set tokens. eligible ic x \<and> first_byte (t_text x) = ?b)"
      unfolding indexes_def by blast+
    have into: "\<exists>p \<in> set ?bucket. ?P p \<and> p_text p = x" "may_start ?ix ic ?b" if "x \<in> set ?M" for x
    proof -
      from that obtain t where t: "t \<in> set tokens" "eligible ic t" "x = t_text t" "starts_with rest (t_text t)" by auto
      then have "first_byte (t_text t) = ?b" using first_byte_prefix [of rest "t_text t"] by (auto simp: eligible_def)
      with t show "\<exists>p \<in> set ?bucket. ?P p \<and> p_text p = x" "may_start ?ix ic ?b"
        unfolding bucket start using eligible_pattern [of ic t] by (auto simp: pattern_of_def)
    qed
    have outof: "p_text p \<in> set ?M" if "p \<in> set ?bucket" "?P p" for p
      using that unfolding bucket using eligible_pattern [of ic] by (auto simp: pattern_of_def)
    have found: "map_option (\<lambda>p. (p_text p, str_len (p_text p))) (find ?P ?bucket) = map_option (\<lambda>x. (x, str_len x)) (max_by_len ?M)"
    proof (cases "max_by_len ?M")
      case None
      then have "find ?P ?bucket = None" using outof by (auto simp: find_None_iff)
      with None show ?thesis by simp
    next
      case m: (Some m)
      note max = max_by_len_Some [OF m]
      from into [of m] max obtain q where q: "q \<in> set ?bucket" "?P q" "p_text q = m" by blast
      then obtain p where p: "find ?P ?bucket = Some p" using find_None_iff [of ?P ?bucket] by fastforce
      from p have "p \<in> set ?bucket" "?P p" by (auto simp: find_Some_iff)
      with outof max have "str_len (p_text p) \<le> str_len m" by blast
      moreover have "str_len m \<le> str_len (p_text p)"
        using find_sorted [OF p index_build_sorted [OF b] q(1,2)] q(3) by simp
      ultimately have "p_text p = m"
        using starts_with_same_len [of rest "p_text p" m] \<open>?P p\<close> q(2,3) by auto
      with m p show ?thesis by simp
    qed
    have "\<not> may_start ?ix ic ?b \<Longrightarrow> max_by_len ?M = None" using into(2) by fastforce
    with found Some bytes show ?thesis by (auto simp: longest_at_def scan_longest_at_def)
  qed
qed


text \<open>The character boundaries of a string, in order.\<close>

lemma boundary_behind: "is_char_boundary (pre @ c # s) j \<Longrightarrow> str_len pre < j \<Longrightarrow> str_len pre + len_utf8 c \<le> j"
proof -
  assume "is_char_boundary (pre @ c # s) j" "str_len pre < j"
  then obtain q r where q: "pre @ c # s = q @ r" "j = str_len q" by (auto elim: boundaryE)
  with \<open>str_len pre < j\<close> obtain u where u: "q = pre @ u" "c # s = u @ r"
    using str_len_le_prefix [of pre "c # s" q r] by auto
  with \<open>str_len pre < j\<close> q show ?thesis by (cases u) auto
qed

lemma boundaries_char_indices:
  "filter (is_char_boundary (pre @ s)) [str_len pre..<str_len (pre @ s)] = map fst (char_indices (str_len pre) s)"
proof (induction s arbitrary: pre)
  case (Cons c s)
  let ?i = "str_len pre" and ?B = "is_char_boundary (pre @ c # s)"
  have split: "[?i..<str_len (pre @ c # s)] = ?i # [Suc ?i..<?i + len_utf8 c] @ [?i + len_utf8 c..<str_len (pre @ c # s)]"
    using upt_add_eq_append [of ?i "?i + len_utf8 c" "str_len s"] upt_conv_Cons [of ?i "?i + len_utf8 c"]
    by (simp add: add.assoc)
  have "filter ?B [Suc ?i..<?i + len_utf8 c] = []"
    using boundary_behind [of pre c s] by (fastforce simp: filter_empty_conv)
  moreover have "?B ?i" by blast
  moreover have "filter ?B [?i + len_utf8 c..<str_len (pre @ c # s)] = map fst (char_indices (?i + len_utf8 c) s)"
    using Cons [of "pre @ [c]"] by (simp add: add.assoc)
  ultimately show ?case unfolding split by simp
qed simp

lemma find_filter_implied: "(\<And>x. P x \<Longrightarrow> Q x) \<Longrightarrow> find P (filter Q xs) = find P xs"
  by (induction xs) auto

lemma find_cong_pred: "(\<And>x. x \<in> set xs \<Longrightarrow> P x = Q x) \<Longrightarrow> find P xs = find Q xs"
  by (induction xs) auto

lemma longest_at_may_start:
  assumes "longest_at ix s idx ic \<noteq> None"
  shows "is_char_boundary s idx \<and> may_start ix ic (as_bytes s ! idx)"
proof -
  from assms obtain rest b bs where rest: "get_from s idx = Some rest" "as_bytes rest = b # bs" "may_start ix ic b"
    by (auto simp: longest_at_def split: option.splits list.splits if_splits)
  then obtain p where "s = p @ rest" "idx = str_len p" by (auto simp: get_from_Some_iff)
  then have "as_bytes s ! idx = b" using rest(2) length_as_bytes [of p] by (metis as_bytes_simps(3) nth_append_length)
  with rest show ?thesis by (simp add: is_char_boundary_def)
qed

lemma next_start_scan:
  assumes "is_char_boundary s byte_start"
  shows "scan_next_start tokens s byte_start ic = Ok (next_control_token_start (index_build tokens) s byte_start ic)"
proof -
  let ?ix = "index_build tokens" and ?L = "\<lambda>idx. scan_longest_at tokens s idx ic \<noteq> None"
  from assms obtain pre rest where s: "s = pre @ rest" "byte_start = str_len pre" by (rule boundaryE)
  have "next_control_token_start ?ix s byte_start ic = find ?L [byte_start..<str_len s]"
    unfolding next_control_token_start_def Let_def length_as_bytes longest_at_scan [symmetric]
    by (rule find_cong_pred) (use longest_at_may_start [of ?ix s _ ic] in auto)
  also have "\<dots> = find ?L (filter (is_char_boundary s) [byte_start..<str_len s])"
    using longest_at_may_start [of ?ix s _ ic] unfolding longest_at_scan
    by (intro find_filter_implied [symmetric]) blast
  also have "\<dots> = find ?L (map fst (char_indices byte_start rest))"
    unfolding s boundaries_char_indices ..
  finally show ?thesis by (simp add: scan_next_start_def s)
qed

text \<open>C27. The index of special tokens changes only the search, never the answer: for every vocabulary, text and offset
  the bucketed lookup gives the longest special token that a scan of the whole vocabulary gives there; the byte-wise search
  for the next special token gives the offset that the scan over characters gives from every boundary; and the set of
  chat-control markers answers as the vocabulary scan.\<close>

theorem specials_index_equals_scan:
  "longest_at (index_build tokens) s byte_start ic = scan_longest_at tokens s byte_start ic \<and>
   scan_next_start tokens s byte_start ic =
     (if is_char_boundary s byte_start then Ok (next_control_token_start (index_build tokens) s byte_start ic) else Panic) \<and>
   is_chat_control_marker_text (index_build tokens) marker = (\<exists>t. t \<in> set tokens \<and> t_text t = marker \<and> is_chat_control_marker t)"
proof (intro conjI)
  show "scan_next_start tokens s byte_start ic =
     (if is_char_boundary s byte_start then Ok (next_control_token_start (index_build tokens) s byte_start ic) else Panic)"
    using next_start_scan [of s byte_start tokens ic]
    by (auto simp: scan_next_start_def slice_from_def is_char_boundary_def)
  show "is_chat_control_marker_text (index_build tokens) marker = (\<exists>t. t \<in> set tokens \<and> t_text t = marker \<and> is_chat_control_marker t)"
    using index_build_indexes [of tokens] by (auto simp: indexes_def is_chat_control_marker_text_def)
qed (rule longest_at_scan)

end
