(* ===== verification/Tokenizer.thy ===== *)
theory Tokenizer
  imports Bpe_Segments Bpe_Merge Special_Index
begin

text \<open>
  The tokenizer record and its byte-level BPE half (\<open>Tokenizer\<close> of \<open>src/src/tokenizer/mod.rs\<close>): the
  alphabet that stands for bytes, encoding of text with special tokens, and decoding with bytes that
  are held until they form characters.
\<close>

section \<open>The tokenizer\<close>

datatype tokenizer_model = LlamaSpm | Gpt2Bpe | BertWordPiece

datatype bpe_pre_tokenizer = Llama3 | CommandR | SmolLm | Qwen2 | Qwen35 | Gpt4o | Tekken

definition digit_group_max :: "bpe_pre_tokenizer \<Rightarrow> usize" where
  "digit_group_max p =
     (case p of Llama3 \<Rightarrow> 3 | CommandR \<Rightarrow> 3 | SmolLm \<Rightarrow> 3 | Gpt4o \<Rightarrow> 3 | Qwen2 \<Rightarrow> 1 | Qwen35 \<Rightarrow> 1 | Tekken \<Rightarrow> 1)"

definition fold_marks :: "bpe_pre_tokenizer \<Rightarrow> bool" where
  "fold_marks p = (p = Qwen35)"

definition word_takes_contraction :: "bpe_pre_tokenizer \<Rightarrow> bool" where
  "word_takes_contraction p = (\<not> (p = Tekken \<or> p = CommandR \<or> p = SmolLm))"

definition uses_case_run_words :: "bpe_pre_tokenizer \<Rightarrow> bool" where
  "uses_case_run_words p = (p = Gpt4o \<or> p = Tekken)"

record special_tokens =
  sp_bos :: "token_id option"
  sp_eos :: "token_id option"
  sp_eot :: "token_id option"
  sp_eom :: "token_id option"
  sp_unk :: "token_id option"
  sp_sep :: "token_id option"
  sp_pad :: "token_id option"
  sp_mask :: "token_id option"
  sp_eog :: "token_id set"

record tokenizer_config =
  add_bos :: bool
  add_eos :: bool
  add_sep :: bool
  add_space_prefix :: bool
  remove_extra_whitespaces :: bool

record tokenizer =
  tk_model :: tokenizer_model
  tk_pre :: bpe_pre_tokenizer
  tk_tokens :: "token list"
  token_to_id :: "str \<Rightarrow> token_id option"
  byte_token_to_id :: "u8 \<Rightarrow> token_id option"
  bpe_ranks :: "((str \<times> str) \<times> usize) list"
  tk_registry :: bpe_registry
  tk_special :: special_tokens
  tk_config :: tokenizer_config
  tk_chat_template :: "str option"
  tk_specials_index :: "specials_index option"

definition SPM_SPACE :: rust_char where
  "SPM_SPACE = 0x2581"

definition get_token :: "tokenizer \<Rightarrow> token_id \<Rightarrow> token option" where
  "get_token tk tid = list_get (tk_tokens tk) (unat tid)"

definition token_text :: "tokenizer \<Rightarrow> token_id option \<Rightarrow> str option" where
  "token_text tk tid = map_option t_text (Option.bind tid (get_token tk))"

definition token_id_of :: "tokenizer \<Rightarrow> str \<Rightarrow> token_id option" where
  "token_id_of tk s = token_to_id tk s"

text \<open>\<open>OnceLock::get_or_init\<close>: an index set at load time, or built from the tokens.\<close>

definition specials_index_of :: "tokenizer \<Rightarrow> specials_index" where
  "specials_index_of tk =
     (case tk_specials_index tk of Some ix \<Rightarrow> ix | None \<Rightarrow> index_build (tk_tokens tk))"

definition longest_control_token_at :: "tokenizer \<Rightarrow> str \<Rightarrow> usize \<Rightarrow> bool \<Rightarrow> (str \<times> usize) option" where
  "longest_control_token_at tk = longest_at (specials_index_of tk)"

definition next_special_start :: "tokenizer \<Rightarrow> str \<Rightarrow> usize \<Rightarrow> bool \<Rightarrow> usize option" where
  "next_special_start tk = next_control_token_start (specials_index_of tk)"

text \<open>When the index is not built yet, the vocabulary scans compute the same answers; evaluation uses
  them.\<close>

lemma longest_control_token_at_code [code]:
  "longest_control_token_at tk s i ic =
     (case tk_specials_index tk of
        Some ix \<Rightarrow> longest_at ix s i ic | None \<Rightarrow> scan_longest_at (tk_tokens tk) s i ic)"
  by (simp add: longest_control_token_at_def specials_index_of_def longest_at_scan split: option.splits)

lemma next_special_start_code [code]:
  "next_special_start tk s i ic =
     (case tk_specials_index tk of
        Some ix \<Rightarrow> next_control_token_start ix s i ic
      | None \<Rightarrow>
          (case scan_next_start (tk_tokens tk) s i ic of
             Ok r \<Rightarrow> r | _ \<Rightarrow> next_control_token_start (index_build (tk_tokens tk)) s i ic))"
proof (cases "is_char_boundary s i")
  case True
  then show ?thesis
    by (simp add: next_special_start_def specials_index_of_def next_start_scan split: option.splits)
next
  case False
  then show ?thesis
    by (simp add: next_special_start_def specials_index_of_def scan_next_start_def slice_from_def
        is_char_boundary_def split: option.splits)
qed

definition is_special :: "tokenizer \<Rightarrow> token_id \<Rightarrow> bool" where
  "is_special tk tid =
     (let sp = tk_special tk in
      sp_bos sp = Some tid \<or> sp_eos sp = Some tid \<or> sp_eot sp = Some tid \<or> sp_eom sp = Some tid \<or>
      sp_sep sp = Some tid \<or> sp_pad sp = Some tid \<or> sp_mask sp = Some tid)"

section \<open>The byte alphabet\<close>

definition visible_byte :: "nat \<Rightarrow> bool" where
  "visible_byte b = ((33 \<le> b \<and> b \<le> 126) \<or> (161 \<le> b \<and> b \<le> 172) \<or> (174 \<le> b \<and> b \<le> 255))"

definition bpe_byte_to_char :: "u8 \<Rightarrow> rust_char" where
  "bpe_byte_to_char byte =
     (let b = unat byte in
      if visible_byte b then b else 256 + length (filter (\<lambda>c. \<not> visible_byte c) [0..<b]))"

definition bpe_char_to_byte :: "rust_char \<Rightarrow> u8 option" where
  "bpe_char_to_byte ch = find (\<lambda>b. bpe_byte_to_char b = ch) (map of_nat [0..<256])"

section \<open>Byte tokens and pending bytes\<close>

definition strip_prefix :: "str \<Rightarrow> str \<Rightarrow> str option" where
  "strip_prefix s p = (if starts_with s p then Some (drop (length p) s) else None)"

definition strip_suffix :: "str \<Rightarrow> str \<Rightarrow> str option" where
  "strip_suffix s p = (if ends_with s p then Some (take (length s - length p) s) else None)"

definition hex_digit :: "rust_char \<Rightarrow> nat option" where
  "hex_digit c =
     (if 48 \<le> c \<and> c \<le> 57 then Some (c - 48)
      else if 97 \<le> c \<and> c \<le> 102 then Some (c - 87)
      else if 65 \<le> c \<and> c \<le> 70 then Some (c - 55) else None)"

text \<open>\<open>u8::from_str_radix(_, 16)\<close> on two bytes: two digits, or a plus sign and one digit.\<close>

definition parse_hex2 :: "str \<Rightarrow> u8 option" where
  "parse_hex2 s =
     (case s of
        [a, b] \<Rightarrow>
          (if a = 43 then map_option of_nat (hex_digit b)
           else Option.bind (hex_digit a) (\<lambda>x. map_option (\<lambda>y. of_nat (16 * x + y)) (hex_digit b)))
      | _ \<Rightarrow> None)"

definition parse_byte_token :: "str \<Rightarrow> u8 option" where
  "parse_byte_token s =
     Option.bind (strip_prefix s [60, 48, 120]) (\<lambda>r.
     Option.bind (strip_suffix r [62]) (\<lambda>hex.
       if str_len hex \<noteq> 2 then None else parse_hex2 hex))"

definition flush_bytes :: "bytes \<Rightarrow> str \<Rightarrow> str" where
  "flush_bytes bytes txt =
     (if bytes = [] then txt
      else case from_utf8 bytes of
             Ok decoded \<Rightarrow> txt @ decoded
           | Err valid_up_to \<Rightarrow>
               txt @ (case from_utf8 (take valid_up_to bytes) of Ok p \<Rightarrow> p | _ \<Rightarrow> [])
           | Panic \<Rightarrow> txt)"

section \<open>Encoding\<close>

definition pretokenize :: "unicode_data \<Rightarrow> bpe_pre_tokenizer \<Rightarrow> str \<Rightarrow> str list tres option" where
  "pretokenize ud pre s =
     (if pre = CommandR \<or> pre = SmolLm then bpe_pretokenize_smollm ud s
      else if uses_case_run_words pre then
        bpe_pretokenize_gpt4o ud s (digit_group_max pre) (word_takes_contraction pre)
      else bpe_pretokenize_with ud s (digit_group_max pre) (fold_marks pre))"

fun push_symbols :: "tokenizer \<Rightarrow> str list \<Rightarrow> token_id list \<Rightarrow> token_id list tres" where
  "push_symbols tk [] out = Ok out"
| "push_symbols tk (symbol # symbols) out =
     bindR (ok_or (token_to_id tk symbol) (MissingBpeToken symbol)) (\<lambda>tid. push_symbols tk symbols (out @ [tid]))"

definition encode_bpe_segment :: "tokenizer \<Rightarrow> str \<Rightarrow> token_id list \<Rightarrow> token_id list tres" where
  "encode_bpe_segment tk segment out =
     (if segment = [] then Ok out
      else
        let symbols = map (\<lambda>byte. [bpe_byte_to_char byte]) (as_bytes segment);
            symbols = merge_symbols (tk_registry tk) symbols
        in push_symbols tk symbols out)"

fun encode_bpe_segments :: "tokenizer \<Rightarrow> str list \<Rightarrow> token_id list \<Rightarrow> token_id list tres" where
  "encode_bpe_segments tk [] out = Ok out"
| "encode_bpe_segments tk (segment # segments) out =
     bindR (encode_bpe_segment tk segment out) (encode_bpe_segments tk segments)"

partial_function (option) encode_bpe_loop ::
  "unicode_data \<Rightarrow> tokenizer \<Rightarrow> str \<Rightarrow> bool \<Rightarrow> usize \<Rightarrow> token_id list \<Rightarrow> token_id list tres option" where
  "encode_bpe_loop ud tk s parse_special byte_start out =
     (if byte_start < str_len s then
        (case Option.bind (longest_control_token_at tk s byte_start parse_special)
                (\<lambda>(txt, len). map_option (\<lambda>tid. (tid, len)) (token_to_id tk txt)) of
           Some (tid, len) \<Rightarrow> encode_bpe_loop ud tk s parse_special (byte_start + len) (out @ [tid])
         | None \<Rightarrow>
             let byte_end = (case next_special_start tk s byte_start parse_special of Some e \<Rightarrow> e | None \<Rightarrow> str_len s) in
             (case slice_range s byte_start byte_end of
                Err e \<Rightarrow> Some (Err e)
              | Panic \<Rightarrow> Some Panic
              | Ok raw \<Rightarrow>
                  (case pretokenize ud (tk_pre tk) raw of
                     None \<Rightarrow> None
                   | Some (Err e) \<Rightarrow> Some (Err e)
                   | Some Panic \<Rightarrow> Some Panic
                   | Some (Ok segments) \<Rightarrow>
                       (case encode_bpe_segments tk segments out of
                          Ok out' \<Rightarrow> encode_bpe_loop ud tk s parse_special byte_end out'
                        | Err e \<Rightarrow> Some (Err e)
                        | Panic \<Rightarrow> Some Panic))))
      else Some (Ok out))"

declare encode_bpe_loop.simps [code]

definition encode_bpe_text :: "unicode_data \<Rightarrow> tokenizer \<Rightarrow> str \<Rightarrow> bool \<Rightarrow> token_id list tres option" where
  "encode_bpe_text ud tk s parse_special = encode_bpe_loop ud tk s parse_special 0 []"

section \<open>Decoding\<close>

text \<open>The inner loop over the characters of a token.\<close>

fun push_token_bytes :: "token \<Rightarrow> bool \<Rightarrow> str \<Rightarrow> bytes \<Rightarrow> bytes tres" where
  "push_token_bytes t remove_special [] bs = Ok bs"
| "push_token_bytes t remove_special (ch # chs) bs =
     (case bpe_char_to_byte ch of
        Some byte \<Rightarrow> push_token_bytes t remove_special chs (bs @ [byte])
      | None \<Rightarrow>
          if \<not> remove_special \<or> t_kind t \<noteq> Control then Err (NonByteCharacter (t_text t) ch)
          else push_token_bytes t remove_special chs bs)"

fun decode_bpe_loop :: "tokenizer \<Rightarrow> bool \<Rightarrow> token_id list \<Rightarrow> bytes \<Rightarrow> str \<Rightarrow> str tres" where
  "decode_bpe_loop tk remove_special [] bs txt = Ok (flush_bytes bs txt)"
| "decode_bpe_loop tk remove_special (tid # ids) bs txt =
     (if remove_special \<and> is_special tk tid then decode_bpe_loop tk remove_special ids bs txt
      else
        bindR (ok_or (get_token tk tid) (TokenOutOfRange tid)) (\<lambda>t.
          if remove_special \<and> (t_kind t = Control \<or> is_chat_control_marker t) then
            decode_bpe_loop tk remove_special ids bs txt
          else if t_kind t = Control \<or> is_chat_control_marker t then
            decode_bpe_loop tk remove_special ids [] (flush_bytes bs txt @ t_text t)
          else
            bindR (push_token_bytes t remove_special (t_text t) bs) (\<lambda>bs'.
              decode_bpe_loop tk remove_special ids bs' txt)))"

definition decode_bpe :: "tokenizer \<Rightarrow> token_id list \<Rightarrow> bool \<Rightarrow> str tres" where
  "decode_bpe tk ids remove_special = decode_bpe_loop tk remove_special ids [] []"


section \<open>Consistent vocabularies\<close>

text \<open>What loading establishes between the token list, its hash map and the index of special tokens.\<close>

definition vocab_consistent :: "tokenizer \<Rightarrow> bool" where
  "vocab_consistent tk =
     ((\<forall>s i. token_to_id tk s = Some i \<longrightarrow> (\<exists>t. get_token tk i = Some t \<and> t_text t = s)) \<and>
      (\<forall>t \<in> set (tk_tokens tk). token_to_id tk (t_text t) \<noteq> None) \<and>
      specials_index_of tk = index_build (tk_tokens tk))"

text \<open>Tokenizers from a list of token texts and kinds, for the examples.\<close>

definition tokens_of :: "(str \<times> token_kind) list \<Rightarrow> token list" where
  "tokens_of xs = map (\<lambda>(i, t, k). \<lparr>t_id = of_nat i, t_text = t, t_score = 0, t_kind = k\<rparr>) (List.enumerate 0 xs)"

definition tokenizer_of :: "(str \<times> token_kind) list \<Rightarrow> str list \<Rightarrow> tokenizer" where
  "tokenizer_of xs merges =
     \<lparr>tk_model = Gpt2Bpe, tk_pre = Llama3, tk_tokens = tokens_of xs,
      token_to_id = map_of (map (\<lambda>t. (t_text t, t_id t)) (tokens_of xs)), byte_token_to_id = (\<lambda>_. None),
      bpe_ranks = ranks (from_merges merges), tk_registry = from_merges merges,
      tk_special = \<lparr>sp_bos = None, sp_eos = None, sp_eot = None, sp_eom = None, sp_unk = None, sp_sep = None,
        sp_pad = None, sp_mask = None, sp_eog = {}\<rparr>,
      tk_config = \<lparr>add_bos = False, add_eos = False, add_sep = False, add_space_prefix = False,
        remove_extra_whitespaces = False\<rparr>,
      tk_chat_template = None, tk_specials_index = None\<rparr>"

lemma vocab_consistent_of:
  assumes "length xs < 2 ^ 32"
  shows "vocab_consistent (tokenizer_of xs merges)"
proof -
  let ?ts = "tokens_of xs"
  have at: "?ts ! i = \<lparr>t_id = of_nat i, t_text = fst (xs ! i), t_score = 0, t_kind = snd (xs ! i)\<rparr>" if "i < length xs" for i
    using that by (simp add: tokens_of_def nth_enumerate_eq split: prod.splits)
  have len: "length ?ts = length xs" by (simp add: tokens_of_def)
  have "\<exists>t. get_token (tokenizer_of xs merges) tid = Some t \<and> t_text t = s"
    if look: "token_to_id (tokenizer_of xs merges) s = Some tid" for s tid
  proof -
    from look have "(s, tid) \<in> set (map (\<lambda>t. (t_text t, t_id t)) ?ts)"
      by (auto simp: tokenizer_of_def dest: map_of_SomeD)
    then obtain i where i: "i < length xs" "s = t_text (?ts ! i)" "tid = t_id (?ts ! i)"
      by (auto simp: in_set_conv_nth len)
    have "unat (of_nat i :: u32) = i" using i(1) assms by (intro unat_of_nat_small) simp
    with i at len show ?thesis by (simp add: get_token_def tokenizer_of_def list_get_def)
  qed
  moreover have "token_to_id (tokenizer_of xs merges) (t_text t) \<noteq> None" if "t \<in> set ?ts" for t
  proof -
    from that have "t_text t \<in> fst ` set (map (\<lambda>t. (t_text t, t_id t)) ?ts)" by force
    then show ?thesis by (simp add: tokenizer_of_def map_of_eq_None_iff del: set_map)
  qed
  ultimately show ?thesis
    by (simp add: vocab_consistent_def specials_index_of_def) (simp add: tokenizer_of_def)
qed

section \<open>Special tokens in a text, and whole characters in the pending bytes\<close>

text \<open>A special token found at an offset stands there; the next one starts at a later boundary.\<close>

lemma longest_special:
  assumes "vocab_consistent tk" "longest_control_token_at tk (pre @ r) (str_len pre) ps = Some (w, len)"
  shows "w \<noteq> []" "len = str_len w" "\<exists>r'. r = w @ r'" "\<exists>tid. token_to_id tk w = Some tid"
    "\<exists>t \<in> set (tk_tokens tk). eligible ps t \<and> t_text t = w"
proof -
  from assms have scan: "scan_longest_at (tk_tokens tk) (pre @ r) (str_len pre) ps = Some (w, len)"
    by (simp add: longest_control_token_at_def vocab_consistent_def longest_at_scan)
  then have max: "max_by_len (filter (starts_with r) (map t_text (filter (eligible ps) (tk_tokens tk)))) = Some w" "len = str_len w"
    by (auto simp: scan_longest_at_def)
  from max_by_len_Some [OF max(1)] obtain t where t: "t \<in> set (tk_tokens tk)" "eligible ps t" "t_text t = w" "starts_with r w"
    by auto
  then show "w \<noteq> []" "len = str_len w" "\<exists>r'. r = w @ r'" "\<exists>tid. token_to_id tk w = Some tid"
    using max(2) assms(1) by (auto simp: eligible_def starts_with_iff vocab_consistent_def)
  show "\<exists>t \<in> set (tk_tokens tk). eligible ps t \<and> t_text t = w" using t by blast
qed

lemma next_special_cases:
  assumes "longest_control_token_at tk (pre @ r) (str_len pre) ps = None" "r \<noteq> []"
  obtains u r' where "r = u @ r'" "u \<noteq> []"
    "(case next_special_start tk (pre @ r) (str_len pre) ps of Some e \<Rightarrow> e | None \<Rightarrow> str_len (pre @ r)) = str_len pre + str_len u"
proof (cases "next_special_start tk (pre @ r) (str_len pre) ps")
  case None
  with that [of r "[]"] assms(2) show thesis by simp
next
  case (Some e)
  then have e: "str_len pre \<le> e" "longest_control_token_at tk (pre @ r) e ps \<noteq> None"
    by (auto simp: next_special_start_def next_control_token_start_def longest_control_token_at_def Let_def find_Some_iff)
  then have "e \<noteq> str_len pre" using assms(1) by auto
  have "is_char_boundary (pre @ r) e"
    using e(2) longest_at_may_start by (auto simp: longest_control_token_at_def)
  then obtain p u r' where "pre @ r = p @ u @ r'" "str_len pre = str_len p" "e = str_len p + str_len u"
    using slice_range_split [OF boundary_append _ e(1)] by metis
  moreover from this have "p = pre" using str_len_le_prefix [of pre r p "u @ r'"] by auto
  ultimately have "r = u @ r'" "e = str_len pre + str_len u" by auto
  with Some that [of u r'] \<open>e \<noteq> str_len pre\<close> show thesis by auto
qed

lemma flush_as_bytes: "list_all is_scalar u \<Longrightarrow> flush_bytes (as_bytes u) t = t @ u"
  by (cases "u = []") (auto simp: flush_bytes_def from_utf8_as_bytes)

section \<open>Ids that encoding may produce\<close>

definition known_ids :: "tokenizer \<Rightarrow> token_id set" where
  "known_ids tk = ran (token_to_id tk) \<union> ran (byte_token_to_id tk) \<union> set_option (sp_unk (tk_special tk))"

definition adds_known :: "tokenizer \<Rightarrow> token_id list \<Rightarrow> token_id list \<Rightarrow> bool" where
  "adds_known tk out out' = (\<exists>ids. out' = out @ ids \<and> set ids \<subseteq> known_ids tk)"

lemma adds_known_refl [simp]: "adds_known tk out out"
  by (simp add: adds_known_def)

lemma adds_known_trans: "adds_known tk a b \<Longrightarrow> adds_known tk b c \<Longrightarrow> adds_known tk a c"
  unfolding adds_known_def by force

lemma adds_known_id: "tid \<in> known_ids tk \<Longrightarrow> adds_known tk out (out @ [tid])"
  by (simp add: adds_known_def)

lemma known_idsI:
  "token_to_id tk w = Some tid \<Longrightarrow> tid \<in> known_ids tk" "byte_token_to_id tk b = Some tid \<Longrightarrow> tid \<in> known_ids tk"
  "sp_unk (tk_special tk) = Some tid \<Longrightarrow> tid \<in> known_ids tk"
  by (auto simp: known_ids_def ran_def)

lemma push_symbols_known: "push_symbols tk symbols out = Ok out' \<Longrightarrow> adds_known tk out out'"
proof (induction symbols arbitrary: out)
  case (Cons symbol symbols)
  then obtain tid where tid: "token_to_id tk symbol = Some tid" "push_symbols tk symbols (out @ [tid]) = Ok out'"
    by (auto simp: bindR_Ok_iff)
  from adds_known_trans [OF adds_known_id [OF known_idsI(1) [OF tid(1)]] Cons.IH [OF tid(2)]] show ?case .
qed simp

lemma encode_bpe_segments_known: "encode_bpe_segments tk segments out = Ok out' \<Longrightarrow> adds_known tk out out'"
proof (induction segments arbitrary: out)
  case (Cons seg segments)
  then obtain out1 where o: "encode_bpe_segment tk seg out = Ok out1" "encode_bpe_segments tk segments out1 = Ok out'"
    by (auto simp: bindR_Ok_iff)
  have "adds_known tk out out1"
    using o(1) push_symbols_known by (auto simp: encode_bpe_segment_def Let_def split: if_splits)
  from adds_known_trans [OF this Cons.IH [OF o(2)]] show ?case .
qed simp

end
