(* ===== verification/Spm_Session.thy ===== *)
theory Spm_Session
  imports Tokenizer
begin

text \<open>
  SentencePiece segmentation (\<open>encode_spm_segment_reference\<close> of \<open>src/src/tokenizer/mod.rs\<close>): symbols as a
  doubly linked list in an array, a queue of candidate pairs that may be stale, and the walk over the
  surviving symbols.

  \<open>BinaryHeap::pop\<close> is a parameter that picks an entry of the queue, so that nothing depends on the
  order among entries that compare equal or hold a NaN; the locale \<open>entry_queue\<close> says what the session relies
  on, and the queue that pops a greatest entry of the source's order implements it. Both loops are partial
  functions.

  The theorems: for every choice of entries the session ends without a panic; its output is that of a
  partition of the segment into vocabulary tokens and single characters, in which no two neighbours
  join to a token, so that the branch which would re-split a merged span is never taken.
\<close>

section \<open>Symbols and bigrams\<close>

record symbol =
  sy_start :: usize
  sy_n :: usize
  sy_prev :: int
  sy_next :: int

record bigram =
  bg_left :: usize
  bg_right :: usize
  bg_score :: u32
  bg_size :: usize

type_synonym heap_pick = "bigram list \<Rightarrow> usize"
type_synonym rev_merge = "str \<Rightarrow> (usize \<times> usize) option"

text \<open>Indexing with \<open>usize\<close>, and with an \<open>i64\<close> that was cast.\<close>

definition index_at :: "'a list \<Rightarrow> usize \<Rightarrow> 'a tres" where
  "index_at xs i = (case list_get xs i of Some x \<Rightarrow> Ok x | None \<Rightarrow> Panic)"

definition index_cast :: "int \<Rightarrow> usize tres" where
  "index_cast i = (if 0 \<le> i then Ok (nat i) else Panic)"

text \<open>The initial symbols: one per character.\<close>

definition initial_symbols :: "str \<Rightarrow> symbol list" where
  "initial_symbols segment =
     map (\<lambda>(i, off, ch).
            \<lparr>sy_start = off, sy_n = len_utf8 ch, sy_prev = int i - 1,
             sy_next = (if off + len_utf8 ch = str_len segment then - 1 else int i + 1)\<rparr>)
       (List.enumerate 0 (char_indices 0 segment))"

definition try_add_bigram ::
  "tokenizer \<Rightarrow> str \<Rightarrow> symbol list \<Rightarrow> int \<Rightarrow> int \<Rightarrow> bigram list \<times> rev_merge \<Rightarrow> (bigram list \<times> rev_merge) tres" where
  "try_add_bigram tk segment symbols l r st =
     (if l = - 1 \<or> r = - 1 then Ok st
      else
        bindR (index_cast l) (\<lambda>left. bindR (index_cast r) (\<lambda>right.
        bindR (index_at symbols left) (\<lambda>sl. bindR (index_at symbols right) (\<lambda>sr.
          let start = sy_start sl in
          Ok (case get_range segment start (start + sy_n sl + sy_n sr) of
                None \<Rightarrow> st
              | Some w \<Rightarrow>
                  (case token_to_id tk w of
                     None \<Rightarrow> st
                   | Some tid \<Rightarrow>
                       (case get_token tk tid of
                          None \<Rightarrow> st
                        | Some t \<Rightarrow>
                            (fst st @ [\<lparr>bg_left = left, bg_right = right, bg_score = t_score t, bg_size = str_len w\<rparr>],
                             (snd st)(w \<mapsto> (left, right)))))))))))"

text \<open>The seeding loop \<open>for i in 1..symbols.len()\<close>.\<close>

fun seed_bigrams ::
  "tokenizer \<Rightarrow> str \<Rightarrow> symbol list \<Rightarrow> usize list \<Rightarrow> bigram list \<times> rev_merge \<Rightarrow> (bigram list \<times> rev_merge) tres" where
  "seed_bigrams tk segment symbols [] st = Ok st"
| "seed_bigrams tk segment symbols (i # is) st =
     bindR (try_add_bigram tk segment symbols (int i - 1) (int i) st) (seed_bigrams tk segment symbols is)"

text \<open>The body of the merge loop for a popped entry.\<close>

definition merge_bigram ::
  "tokenizer \<Rightarrow> str \<Rightarrow> bigram \<Rightarrow> symbol list \<Rightarrow> bigram list \<times> rev_merge \<Rightarrow>
    (symbol list \<times> bigram list \<times> rev_merge) tres" where
  "merge_bigram tk segment b symbols st =
     (let left = bg_left b; right = bg_right b in
      bindR (index_at symbols left) (\<lambda>sl.
        if sy_n sl = 0 then Ok (symbols, st)
        else
          bindR (index_at symbols right) (\<lambda>sr.
            if sy_n sr = 0 \<or> sy_n sl + sy_n sr \<noteq> bg_size b then Ok (symbols, st)
            else
              let symbols = symbols[left := sl\<lparr>sy_n := sy_n sl + sy_n sr\<rparr>];
                  symbols = symbols[right := (symbols ! right)\<lparr>sy_n := 0\<rparr>];
                  symbols = symbols[left := (symbols ! left)\<lparr>sy_next := sy_next (symbols ! right)\<rparr>];
                  next_right = sy_next (symbols ! right)
              in
              bindR (if 0 \<le> next_right
                     then bindR (index_at symbols (nat next_right)) (\<lambda>sn.
                            Ok (symbols[nat next_right := sn\<lparr>sy_prev := int left\<rparr>]))
                     else Ok symbols) (\<lambda>symbols.
              let prev = sy_prev (symbols ! left); nxt = sy_next (symbols ! left) in
              bindR (try_add_bigram tk segment symbols prev (int left) st) (\<lambda>st.
              bindR (try_add_bigram tk segment symbols (int left) nxt st) (\<lambda>st.
                Ok (symbols, st)))))))"

text \<open>\<open>f32::partial_cmp\<close> on the bits of two floats, and the order of the queue.\<close>

definition f32_is_nan :: "u32 \<Rightarrow> bool" where
  "f32_is_nan x = (unat x mod 2 ^ 31 > 0x7F800000)"

definition f32_key :: "u32 \<Rightarrow> int" where
  "f32_key x = (if unat x < 2 ^ 31 then int (unat x) else - int (unat x mod 2 ^ 31))"

definition f32_partial_cmp :: "u32 \<Rightarrow> u32 \<Rightarrow> ordering option" where
  "f32_partial_cmp x y =
     (if f32_is_nan x \<or> f32_is_nan y then None
      else Some (if f32_key x < f32_key y then OLess else if f32_key x = f32_key y then OEqual else OGreater))"

definition bigram_cmp :: "bigram \<Rightarrow> bigram \<Rightarrow> ordering" where
  "bigram_cmp a b =
     (case (case f32_partial_cmp (bg_score a) (bg_score b) of Some c \<Rightarrow> c | None \<Rightarrow> OEqual) of
        OEqual \<Rightarrow> if bg_left b < bg_left a then OLess else if bg_left b = bg_left a then OEqual else OGreater
      | c \<Rightarrow> c)"

text \<open>A queue that pops its first greatest entry: the index of an entry that no later one exceeds.\<close>

fun greatest_from :: "usize \<Rightarrow> bigram \<Rightarrow> usize \<Rightarrow> bigram list \<Rightarrow> usize" where
  "greatest_from i b j [] = i"
| "greatest_from i b j (x # xs) =
     (if bigram_cmp b x = OLess then greatest_from j x (Suc j) xs else greatest_from i b (Suc j) xs)"

definition greatest_entry :: heap_pick where
  "greatest_entry work = (case work of [] \<Rightarrow> 0 | b # bs \<Rightarrow> greatest_from 0 b 1 bs)"

definition heap_take :: "heap_pick \<Rightarrow> bigram list \<Rightarrow> (bigram \<times> bigram list) option" where
  "heap_take pick work =
     (if work = [] then None
      else let i = pick work in Some (work ! i, take i work @ drop (Suc i) work))"

partial_function (option) spm_merge_loop ::
  "heap_pick \<Rightarrow> tokenizer \<Rightarrow> str \<Rightarrow> symbol list \<Rightarrow> bigram list \<times> rev_merge \<Rightarrow> (symbol list \<times> rev_merge) tres option" where
  "spm_merge_loop pick tk segment symbols st =
     (case heap_take pick (fst st) of
        None \<Rightarrow> Some (Ok (symbols, snd st))
      | Some (b, work) \<Rightarrow>
          (case merge_bigram tk segment b symbols (work, snd st) of
             Ok (symbols', st') \<Rightarrow> spm_merge_loop pick tk segment symbols' st'
           | Err e \<Rightarrow> Some (Err e)
           | Panic \<Rightarrow> Some Panic))"

declare spm_merge_loop.simps [code]

section \<open>Output\<close>

fun push_byte_ids :: "tokenizer \<Rightarrow> bytes \<Rightarrow> token_id list \<Rightarrow> token_id list tres" where
  "push_byte_ids tk [] out = Ok out"
| "push_byte_ids tk (byte # bs) out =
     (case (case byte_token_to_id tk byte of Some tid \<Rightarrow> Some tid | None \<Rightarrow> sp_unk (tk_special tk)) of
        Some tid \<Rightarrow> push_byte_ids tk bs (out @ [tid])
      | None \<Rightarrow> Err (MissingByteToken byte))"

definition encode_unknown_symbol_bytes :: "tokenizer \<Rightarrow> str \<Rightarrow> token_id list \<Rightarrow> token_id list tres" where
  "encode_unknown_symbol_bytes tk sm out = push_byte_ids tk (as_bytes sm) out"

text \<open>The loop over the explicit stack; its top is the head of the list.\<close>

partial_function (option) resegment ::
  "tokenizer \<Rightarrow> str \<Rightarrow> symbol list \<Rightarrow> rev_merge \<Rightarrow> (usize \<times> usize) list \<Rightarrow> token_id list \<Rightarrow> token_id list tres option" where
  "resegment tk segment symbols rev_merge pending out =
     (case pending of
        [] \<Rightarrow> Some (Ok out)
      | (start, n) # pending \<Rightarrow>
          (case get_range segment start (start + n) of
             None \<Rightarrow> resegment tk segment symbols rev_merge pending out
           | Some w \<Rightarrow>
               (case token_to_id tk w of
                  Some tid \<Rightarrow> resegment tk segment symbols rev_merge pending (out @ [tid])
                | None \<Rightarrow>
                    (case rev_merge w of
                       None \<Rightarrow>
                         (case encode_unknown_symbol_bytes tk w out of
                            Ok out' \<Rightarrow> resegment tk segment symbols rev_merge pending out'
                          | Err e \<Rightarrow> Some (Err e) | Panic \<Rightarrow> Some Panic)
                     | Some (left, right) \<Rightarrow>
                         (case index_at symbols left of
                            Ok sl \<Rightarrow>
                              if sy_n sl < n then
                                (case index_at symbols right of
                                   Ok sr \<Rightarrow>
                                     resegment tk segment symbols rev_merge
                                       ((sy_start sl, sy_n sl) # (sy_start sr, sy_n sr) # pending) out
                                 | Err e \<Rightarrow> Some (Err e) | Panic \<Rightarrow> Some Panic)
                              else
                                (case encode_unknown_symbol_bytes tk w out of
                                   Ok out' \<Rightarrow> resegment tk segment symbols rev_merge pending out'
                                 | Err e \<Rightarrow> Some (Err e) | Panic \<Rightarrow> Some Panic)
                          | Err e \<Rightarrow> Some (Err e) | Panic \<Rightarrow> Some Panic)))))"

declare resegment.simps [code]

partial_function (option) walk_symbols ::
  "tokenizer \<Rightarrow> str \<Rightarrow> symbol list \<Rightarrow> rev_merge \<Rightarrow> int \<Rightarrow> token_id list \<Rightarrow> token_id list tres option" where
  "walk_symbols tk segment symbols rev_merge index out =
     (if index = - 1 then Some (Ok out)
      else
        (case bindR (index_cast index) (index_at symbols) of
           Ok sm \<Rightarrow>
             (case resegment tk segment symbols rev_merge [(sy_start sm, sy_n sm)] out of
                None \<Rightarrow> None
              | Some (Ok out') \<Rightarrow> walk_symbols tk segment symbols rev_merge (sy_next sm) out'
              | Some (Err e) \<Rightarrow> Some (Err e)
              | Some Panic \<Rightarrow> Some Panic)
         | Err e \<Rightarrow> Some (Err e)
         | Panic \<Rightarrow> Some Panic))"

declare walk_symbols.simps [code]

definition encode_spm_segment_reference ::
  "heap_pick \<Rightarrow> tokenizer \<Rightarrow> str \<Rightarrow> token_id list \<Rightarrow> token_id list tres option" where
  "encode_spm_segment_reference pick tk segment out =
     (let symbols = initial_symbols segment in
      if symbols = [] then Some (Ok out)
      else
        (case seed_bigrams tk segment symbols [1..<length symbols] ([], Map.empty) of
           Ok st \<Rightarrow>
             (case spm_merge_loop pick tk segment symbols st of
                None \<Rightarrow> None
              | Some (Ok (symbols, rev_merge)) \<Rightarrow> walk_symbols tk segment symbols rev_merge 0 out
              | Some (Err e) \<Rightarrow> Some (Err e)
              | Some Panic \<Rightarrow> Some Panic)
         | Err e \<Rightarrow> Some (Err e)
         | Panic \<Rightarrow> Some Panic))"


section \<open>The chain of live symbols\<close>

text \<open>\<open>linked sy p off c e\<close>: the entries of \<open>c\<close>, each an index with the text it spans, are linked in the array
  from the predecessor \<open>p\<close> at offset \<open>off\<close> to the successor \<open>e\<close>.\<close>

definition link :: "(usize \<times> str) list \<Rightarrow> int \<Rightarrow> int" where
  "link c e = (case c of [] \<Rightarrow> e | (j, _) # _ \<Rightarrow> int j)"

definition last_link :: "int \<Rightarrow> (usize \<times> str) list \<Rightarrow> int" where
  "last_link p c = (if c = [] then p else int (fst (last c)))"

definition spelled :: "(usize \<times> str) list \<Rightarrow> str" where
  "spelled c = concat (map snd c)"

fun linked :: "symbol list \<Rightarrow> int \<Rightarrow> usize \<Rightarrow> (usize \<times> str) list \<Rightarrow> int \<Rightarrow> bool" where
  "linked sy p off [] e = True"
| "linked sy p off ((i, w) # c) e =
     (i < length sy \<and> sy ! i = \<lparr>sy_start = off, sy_n = str_len w, sy_prev = p, sy_next = link c e\<rparr> \<and> w \<noteq> [] \<and>
      linked sy (int i) (off + str_len w) c e)"

lemma link_simps [simp]: "link [] e = e" "link ((j, w) # c) e = int j"
  by (simp_all add: link_def)

lemma link_append: "link (xs @ ys) e = link xs (link ys e)"
  by (cases xs) auto

lemma last_link_simps [simp]: "last_link p [] = p" "last_link p (xs @ [(i, w)]) = int i"
  by (simp_all add: last_link_def)

lemma last_link_Cons: "last_link p ((i, w) # xs) = last_link (int i) xs"
  by (simp add: last_link_def)

lemma spelled_simps [simp]:
  "spelled [] = []" "spelled ((i, w) # c) = w @ spelled c" "spelled (xs @ ys) = spelled xs @ spelled ys"
  by (simp_all add: spelled_def)

lemma linked_append:
  "linked sy p off (xs @ ys) e \<longleftrightarrow>
     linked sy p off xs (link ys e) \<and> linked sy (last_link p xs) (off + str_len (spelled xs)) ys e"
proof (induction xs arbitrary: p off)
  case (Cons x xs)
  then show ?case by (cases x) (auto simp: link_append last_link_Cons add.assoc)
qed simp

lemma linked_cong:
  "length sy' = length sy \<Longrightarrow> (\<And>i. i \<in> fst ` set c \<Longrightarrow> sy' ! i = sy ! i) \<Longrightarrow> linked sy' p off c e = linked sy p off c e"
proof (induction c arbitrary: p off)
  case (Cons x c)
  then show ?case by (cases x) auto
qed simp

lemma linked_entry:
  "linked sy p off c e \<Longrightarrow> (i, w) \<in> set c \<Longrightarrow> i < length sy \<and> sy_n (sy ! i) = str_len w \<and> w \<noteq> []"
proof (induction c arbitrary: p off)
  case (Cons x c)
  then show ?case by (cases x) auto
qed simp

section \<open>The invariant of the session\<close>

definition chain_ok :: "str \<Rightarrow> symbol list \<Rightarrow> (usize \<times> str) list \<Rightarrow> bool" where
  "chain_ok segment sy c =
     (c \<noteq> [] \<and> fst (hd c) = 0 \<and> distinct (map fst c) \<and> linked sy (- 1) 0 c (- 1) \<and> spelled c = segment \<and>
      (\<forall>j < length sy. j \<notin> fst ` set c \<longrightarrow> sy_n (sy ! j) = 0))"

definition bigram_ok :: "tokenizer \<Rightarrow> str \<Rightarrow> symbol list \<Rightarrow> (usize \<times> str) list \<Rightarrow> bigram \<Rightarrow> bool" where
  "bigram_ok tk segment sy c b =
     (bg_left b < length sy \<and> bg_right b < length sy \<and>
      (bg_left b \<in> fst ` set c \<longrightarrow> bg_right b \<in> fst ` set c \<longrightarrow> (bg_left b, bg_right b) \<in> set (adjacent (map fst c))) \<and>
      (\<exists>w. get_range segment (sy_start (sy ! bg_left b)) (sy_start (sy ! bg_left b) + bg_size b) = Some w \<and>
         token_to_id tk w \<noteq> None))"

definition queued :: "tokenizer \<Rightarrow> bigram list \<Rightarrow> (usize \<times> str) \<times> (usize \<times> str) \<Rightarrow> bool" where
  "queued tk work p =
     (case p of ((l, wl), (r, wr)) \<Rightarrow>
        token_to_id tk (wl @ wr) \<noteq> None \<longrightarrow>
        (\<exists>b \<in> set work. bg_left b = l \<and> bg_right b = r \<and> bg_size b = str_len (wl @ wr)))"

lemma live_iff:
  assumes "chain_ok segment sy c" "i < length sy"
  shows "sy_n (sy ! i) \<noteq> 0 \<longleftrightarrow> i \<in> fst ` set c"
proof -
  have "sy_n (sy ! i) \<noteq> 0" if "(i, w) \<in> set c" for w
    using linked_entry [of sy "- 1" 0 c "- 1" i w] assms(1) that by (simp add: chain_ok_def)
  with assms show ?thesis by (force simp: chain_ok_def)
qed

text \<open>A pair that is adjacent in the chain, with what is around it.\<close>

lemma adjacent_split: "(a, b) \<in> set (adjacent c) \<Longrightarrow> \<exists>xs ys. c = xs @ a # b # ys"
proof (induction c rule: adjacent.induct)
  case (1 x y c)
  show ?case
  proof (cases "(a, b) = (x, y)")
    case True
    then show ?thesis by (metis append_Nil prod.inject)
  next
    case False
    with 1 obtain xs ys where "y # c = xs @ a # b # ys" by auto
    then show ?thesis by (metis append_Cons)
  qed
qed auto

lemma adjacent_map_split:
  assumes "(i, j) \<in> set (adjacent (map fst c))"
  obtains xs wi wj ys where "c = xs @ (i, wi) # (j, wj) # ys"
proof -
  from adjacent_split [OF assms] obtain us vs where "map fst c = us @ i # j # vs" by blast
  then obtain xs zs where c: "c = xs @ zs" "map fst zs = i # j # vs" by (auto simp: map_eq_append_conv)
  then obtain wi wj ys where "zs = (i, wi) # (j, wj) # ys" by (auto simp: map_eq_Cons_conv)
  with c that show thesis by blast
qed

lemma adjacent_middle: "(a, b) \<in> set (adjacent (xs @ a # b # ys))"
  using adjacent_append [of xs "a # b # ys"] by auto

section \<open>Offering a pair\<close>

definition offered ::
  "tokenizer \<Rightarrow> usize \<Rightarrow> usize \<Rightarrow> str \<Rightarrow> bigram list \<times> rev_merge \<Rightarrow> bigram list \<times> rev_merge \<Rightarrow> bool" where
  "offered tk l r w st st' =
     (if token_to_id tk w = None then st' = st
      else \<exists>score. st' = (fst st @ [\<lparr>bg_left = l, bg_right = r, bg_score = score, bg_size = str_len w\<rparr>],
                          (snd st)(w \<mapsto> (l, r))))"

lemma get_range_middle:
  "segment = a @ w @ b \<Longrightarrow> get_range segment (str_len a) (str_len a + str_len w) = Some w"
  by simp

lemma try_add_bigram_adjacent:
  assumes voc: "vocab_consistent tk" and chain: "chain_ok segment sy (xs @ (l, wl) # (r, wr) # ys)"
  shows "\<exists>st'. try_add_bigram tk segment sy (int l) (int r) st = Ok st' \<and> offered tk l r (wl @ wr) st st'"
proof -
  from chain have lk: "l < length sy" "r < length sy" "sy_start (sy ! l) = str_len (spelled xs)"
    "sy_n (sy ! l) = str_len wl" "sy_n (sy ! r) = str_len wr"
    and seg: "segment = spelled xs @ (wl @ wr) @ spelled ys"
    by (auto simp: chain_ok_def linked_append)
  have "get_range segment (str_len (spelled xs)) (str_len (spelled xs) + str_len wl + str_len wr) = Some (wl @ wr)"
    using get_range_middle [OF seg] by (simp add: add.assoc)
  moreover have "get_token tk tid \<noteq> None" if "token_to_id tk (wl @ wr) = Some tid" for tid
    using voc that unfolding vocab_consistent_def by (metis option.distinct(1))
  ultimately show ?thesis
    using lk by (cases "token_to_id tk (wl @ wr)")
      (auto simp: try_add_bigram_def index_cast_def index_at_def list_get_def offered_def Let_def split: option.splits)
qed


text \<open>At the ends of the chain there is nothing to offer.\<close>

lemma try_add_bigram_end [simp]:
  "try_add_bigram tk segment sy (- 1) r st = Ok st" "try_add_bigram tk segment sy l (- 1) st = Ok st"
  by (simp_all add: try_add_bigram_def)

section \<open>Merging a pair in the array\<close>

definition merged_symbols :: "symbol list \<Rightarrow> usize \<Rightarrow> usize \<Rightarrow> symbol list" where
  "merged_symbols sy l r =
     (let sy' = sy[l := (sy ! l)\<lparr>sy_n := sy_n (sy ! l) + sy_n (sy ! r), sy_next := sy_next (sy ! r)\<rparr>, r := (sy ! r)\<lparr>sy_n := 0\<rparr>];
          k = sy_next (sy ! r)
      in if 0 \<le> k then sy'[nat k := (sy' ! nat k)\<lparr>sy_prev := int l\<rparr>] else sy')"

lemma length_merged_symbols [simp]: "length (merged_symbols sy l r) = length sy"
  by (simp add: merged_symbols_def Let_def)

lemma start_update: "sy_start y = sy_start (xs ! i) \<Longrightarrow> sy_start (xs[i := y] ! j) = sy_start (xs ! j)"
  by (cases "i < length xs") (auto simp: nth_list_update list_update_beyond)

lemma merged_symbols_start [simp]: "sy_start (merged_symbols sy l r ! i) = sy_start (sy ! i)"
  by (simp add: merged_symbols_def Let_def start_update)

lemma merged_symbols_other:
  "i \<noteq> l \<Longrightarrow> i \<noteq> r \<Longrightarrow> int i \<noteq> sy_next (sy ! r) \<Longrightarrow> merged_symbols sy l r ! i = sy ! i"
  by (cases "i < length sy") (auto simp: merged_symbols_def Let_def nth_list_update)

lemma linked_merged:
  assumes lk: "linked sy p off (xs @ (l, wl) # (r, wr) # ys) (- 1)"
    and dist: "distinct (map fst (xs @ (l, wl) # (r, wr) # ys))"
  shows "linked (merged_symbols sy l r) p off (xs @ (l, wl @ wr) # ys) (- 1)"
proof -
  from lk have xs: "linked sy p off xs (int l)"
    and at: "l < length sy" "r < length sy"
      "sy ! l = \<lparr>sy_start = off + str_len (spelled xs), sy_n = str_len wl, sy_prev = last_link p xs, sy_next = int r\<rparr>"
      "sy_n (sy ! r) = str_len wr" "sy_next (sy ! r) = link ys (- 1)" "wl \<noteq> []"
    and ys: "linked sy (int r) (off + str_len (spelled xs) + str_len wl + str_len wr) ys (- 1)"
    by (auto simp: linked_append)
  from dist have d: "l \<notin> fst ` set xs" "r \<notin> fst ` set xs" "l \<notin> fst ` set ys" "r \<notin> fst ` set ys" "l \<noteq> r"
    "fst ` set xs \<inter> fst ` set ys = {}" "distinct (map fst ys)" by auto
  have "sy_next (sy ! r) \<noteq> int i" if "i \<in> fst ` set xs" for i
    using that d(6) unfolding at(5) by (cases ys) force+
  then have 1: "linked (merged_symbols sy l r) p off xs (int l)"
    using xs d linked_cong [of "merged_symbols sy l r" sy xs p off "int l"]
    by (metis length_merged_symbols merged_symbols_other)
  have 2: "merged_symbols sy l r ! l =
      \<lparr>sy_start = off + str_len (spelled xs), sy_n = str_len (wl @ wr), sy_prev = last_link p xs, sy_next = link ys (- 1)\<rparr>"
    using at d by (cases ys) (auto simp: merged_symbols_def Let_def nth_list_update)
  have 3: "linked (merged_symbols sy l r) (int l) (off + str_len (spelled xs) + str_len (wl @ wr)) ys (- 1)"
  proof (cases ys)
    case (Cons y ys')
    obtain k w where y: "y = (k, w)" by (cases y)
    have k: "sy_next (sy ! r) = int k" "k \<noteq> l" "k \<noteq> r" "k \<notin> fst ` set ys'" using at(5) d Cons y by auto
    have "merged_symbols sy l r ! i = sy ! i" if i: "i \<in> fst ` set ys'" for i
    proof (rule merged_symbols_other)
      show "i \<noteq> l" "i \<noteq> r" "int i \<noteq> sy_next (sy ! r)" using i k d Cons by auto
    qed
    then have "linked (merged_symbols sy l r) (int k) o' ys' (- 1) = linked sy (int k) o' ys' (- 1)" for o'
      by (intro linked_cong) simp_all
    moreover have "merged_symbols sy l r ! k = (sy ! k)\<lparr>sy_prev := int l\<rparr>"
      using k ys Cons y by (auto simp: merged_symbols_def Let_def nth_list_update)
    ultimately show ?thesis using ys Cons y by (simp add: add.assoc)
  qed simp
  from 1 2 3 at show ?thesis by (simp add: linked_append)
qed

lemma chain_ok_merged:
  assumes chain: "chain_ok segment sy (xs @ (l, wl) # (r, wr) # ys)"
  shows "chain_ok segment (merged_symbols sy l r) (xs @ (l, wl @ wr) # ys)"
proof -
  let ?c = "xs @ (l, wl) # (r, wr) # ys"
  from chain have lk: "linked sy (- 1) 0 ?c (- 1)" and dist: "distinct (map fst ?c)"
    and rest: "fst (hd ?c) = 0" "spelled ?c = segment" "\<And>j. j < length sy \<Longrightarrow> j \<notin> fst ` set ?c \<Longrightarrow> sy_n (sy ! j) = 0"
    by (auto simp: chain_ok_def)
  have nxt: "sy_next (sy ! r) = link ys (- 1)" "l < length sy" "r < length sy" using lk by (auto simp: linked_append)
  have zero: "sy_n (merged_symbols sy l r ! j) = 0" if j: "j < length sy" "j \<notin> fst ` set (xs @ (l, wl @ wr) # ys)" for j
  proof (cases "j = r")
    case True
    have "link ys (- 1) \<noteq> int r" "l \<noteq> r" using dist by (cases ys; force)+
    then show ?thesis using True nxt by (auto simp: merged_symbols_def Let_def nth_list_update)
  next
    case False
    have "link ys (- 1) \<noteq> int j" using j by (cases ys) force+
    then have "merged_symbols sy l r ! j = sy ! j" using False j nxt by (intro merged_symbols_other) auto
    with rest(3) [OF j(1)] False j show ?thesis by auto
  qed
  have "fst (hd (xs @ (l, wl @ wr) # ys)) = 0" using rest(1) by (cases xs) auto
  then show ?thesis
    using linked_merged [OF lk dist] zero dist rest(2) by (auto simp: chain_ok_def)
qed


section \<open>The queue\<close>

locale entry_queue =
  fixes pick :: heap_pick
  assumes pick_inside: "work \<noteq> [] \<Longrightarrow> pick work < length work"
begin

lemma heap_take_Some:
  assumes "heap_take pick work = Some (b, rest)"
  shows "set work = insert b (set rest)" "length work = Suc (length rest)"
proof -
  from assms have i: "pick work < length work" "b = work ! pick work" "rest = take (pick work) work @ drop (Suc (pick work)) work"
    by (auto simp: heap_take_def Let_def pick_inside split: if_splits)
  then have "work = take (pick work) work @ b # drop (Suc (pick work)) work" by (metis id_take_nth_drop)
  with i(3) obtain pre post where "work = pre @ b # post" "rest = pre @ post" by blast
  then show "set work = insert b (set rest)" "length work = Suc (length rest)" by simp_all
qed

end

lemma greatest_from_inside: "i < j \<Longrightarrow> greatest_from i b j xs < j + length xs"
proof (induction xs arbitrary: i b j)
  case (Cons x xs)
  then show ?case using Cons.IH [of j "Suc j" x] Cons.IH [of i "Suc j" b] by simp
qed simp

interpretation greatest: entry_queue greatest_entry
proof
  show "greatest_entry work < length work" if "work \<noteq> []" for work
    using that greatest_from_inside [of 0 1 "hd work" "tl work"] by (cases work) (auto simp: greatest_entry_def)
qed

section \<open>A step of the merge loop\<close>

text \<open>Whether a popped entry is stale, in terms of the chain.\<close>

definition stale :: "symbol list \<Rightarrow> bigram \<Rightarrow> bool" where
  "stale sy b =
     (sy_n (sy ! bg_left b) = 0 \<or> sy_n (sy ! bg_right b) = 0 \<or>
      sy_n (sy ! bg_left b) + sy_n (sy ! bg_right b) \<noteq> bg_size b)"

lemma merge_bigram_stale:
  assumes "bg_left b < length sy" "bg_right b < length sy" "stale sy b"
  shows "merge_bigram tk segment b sy st = Ok (sy, st)"
  using assms by (auto simp: merge_bigram_def stale_def index_at_def list_get_def Let_def)

lemma fresh_split:
  assumes chain: "chain_ok segment sy c" and b: "bigram_ok tk segment sy c b" and fresh: "\<not> stale sy b"
  obtains xs wl wr ys where "c = xs @ (bg_left b, wl) # (bg_right b, wr) # ys" "token_to_id tk (wl @ wr) \<noteq> None"
proof -
  from b fresh have "(bg_left b, bg_right b) \<in> set (adjacent (map fst c))"
    using live_iff [OF chain] by (auto simp: bigram_ok_def stale_def)
  from adjacent_map_split [OF this] obtain xs wl wr ys where c: "c = xs @ (bg_left b, wl) # (bg_right b, wr) # ys" .
  with chain have lk: "sy_start (sy ! bg_left b) = str_len (spelled xs)" "sy_n (sy ! bg_left b) = str_len wl"
    "sy_n (sy ! bg_right b) = str_len wr" "segment = spelled xs @ (wl @ wr) @ spelled ys"
    by (auto simp: chain_ok_def linked_append)
  with fresh have "bg_size b = str_len (wl @ wr)" by (auto simp: stale_def)
  with b lk get_range_middle [OF lk(4)] have "token_to_id tk (wl @ wr) \<noteq> None" by (auto simp: bigram_ok_def)
  with c that show thesis by blast
qed

lemma merge_bigram_fresh:
  assumes chain: "chain_ok segment sy (xs @ (l, wl) # (r, wr) # ys)"
    and b: "bg_left b = l" "bg_right b = r" and fresh: "\<not> stale sy b"
  shows "merge_bigram tk segment b sy st =
     (let sy' = merged_symbols sy l r in
      bindR (try_add_bigram tk segment sy' (last_link (- 1) xs) (int l) st) (\<lambda>st.
      bindR (try_add_bigram tk segment sy' (int l) (link ys (- 1)) st) (\<lambda>st. Ok (sy', st))))"
proof -
  from chain have at: "l < length sy" "r < length sy" "l \<noteq> r" "sy_next (sy ! r) = link ys (- 1)"
    "sy_prev (sy ! l) = last_link (- 1) xs"
    by (auto simp: chain_ok_def linked_append)
  have linked: "linked (merged_symbols sy l r) (- 1) 0 (xs @ (l, wl @ wr) # ys) (- 1)"
    using chain_ok_merged [OF chain] by (simp add: chain_ok_def)
  then have ends: "sy_prev (merged_symbols sy l r ! l) = last_link (- 1) xs" "sy_next (merged_symbols sy l r ! l) = link ys (- 1)"
    by (auto simp: linked_append)
  have inside: "nat (link ys (- 1)) < length sy" if "0 \<le> link ys (- 1)"
    using that linked by (cases ys) (auto simp: linked_append)
  have eq: "(sy[l := (sy ! l)\<lparr>sy_n := n\<rparr>])[r := ((sy[l := (sy ! l)\<lparr>sy_n := n\<rparr>]) ! r)\<lparr>sy_n := 0\<rparr>] = sy[l := (sy ! l)\<lparr>sy_n := n\<rparr>, r := (sy ! r)\<lparr>sy_n := 0\<rparr>]" for n
    using at by simp
  have eq2: "(sy[l := (sy ! l)\<lparr>sy_n := n\<rparr>, r := z])[l := (sy ! l)\<lparr>sy_n := n, sy_next := m\<rparr>] = sy[l := (sy ! l)\<lparr>sy_n := n, sy_next := m\<rparr>, r := z]" for n m z
    using at by (simp add: list_update_swap)
  show ?thesis
    using fresh at inside ends unfolding b stale_def
    by (cases "0 \<le> link ys (- 1)")
      (simp_all add: merge_bigram_def b index_at_def list_get_def Let_def eq eq2 merged_symbols_def)
qed


text \<open>Adjacency around a merged pair: what stays adjacent, and which pairs are new.\<close>

lemma adjacent_drop_middle:
  assumes "(a, b) \<in> set (adjacent (us @ l # r # vs))" "a \<noteq> r" "b \<noteq> r"
  shows "(a, b) \<in> set (adjacent (us @ l # vs))"
  using assms adjacent_append [of us "l # r # vs"] adjacent_append [of us "l # vs"] adjacent_append [of "[l]" vs]
    adjacent_append [of "[l, r]" vs]
  by (auto split: if_splits)

lemma adjacent_merged:
  assumes "p \<in> set (adjacent (xs @ m # ys))"
  shows "p \<in> set (adjacent xs) \<or> p \<in> set (adjacent ys) \<or> (xs \<noteq> [] \<and> p = (last xs, m)) \<or> (ys \<noteq> [] \<and> p = (m, hd ys))"
  using assms adjacent_append [of xs "m # ys"] adjacent_append [of "[m]" ys] by (auto split: if_splits)

lemma adjacent_outer:
  "p \<in> set (adjacent xs) \<or> p \<in> set (adjacent ys) \<Longrightarrow> p \<in> set (adjacent (xs @ zs @ ys))"
  unfolding adjacent_append by blast

lemma adjacent_elems: "(a, b) \<in> set (adjacent xs) \<Longrightarrow> a \<in> set xs \<and> b \<in> set xs"
  by (induction xs rule: adjacent.induct) auto

lemma bigram_ok_merged:
  assumes "bigram_ok tk segment sy (xs @ (l, wl) # (r, wr) # ys) b" "distinct (map fst (xs @ (l, wl) # (r, wr) # ys))"
  shows "bigram_ok tk segment (merged_symbols sy l r) (xs @ (l, w) # ys) b"
proof -
  have "(bg_left b, bg_right b) \<in> set (adjacent (map fst xs @ l # map fst ys))"
    if live: "bg_left b \<in> fst ` set (xs @ (l, w) # ys)" "bg_right b \<in> fst ` set (xs @ (l, w) # ys)"
  proof (rule adjacent_drop_middle)
    show "(bg_left b, bg_right b) \<in> set (adjacent (map fst xs @ l # r # map fst ys))"
      using assms(1) live by (auto simp: bigram_ok_def)
    show "bg_left b \<noteq> r" "bg_right b \<noteq> r" using live assms(2) by auto
  qed
  with assms(1) show ?thesis by (simp add: bigram_ok_def)
qed

text \<open>Offering a pair of a chain keeps the invariant on the entries and the recorded merges, and queues the pair.\<close>

definition entries_ok :: "tokenizer \<Rightarrow> str \<Rightarrow> symbol list \<Rightarrow> (usize \<times> str) list \<Rightarrow> bigram list \<times> rev_merge \<Rightarrow> bool" where
  "entries_ok tk segment sy c st =
     ((\<forall>b \<in> set (fst st). bigram_ok tk segment sy c b) \<and> (\<forall>w. snd st w \<noteq> None \<longrightarrow> token_to_id tk w \<noteq> None))"

lemma offer_adjacent:
  assumes voc: "vocab_consistent tk" and chain: "chain_ok segment sy c" and c: "c = xs @ (l, wl) # (r, wr) # ys"
    and ok: "entries_ok tk segment sy c st"
  shows "\<exists>st'. try_add_bigram tk segment sy (int l) (int r) st = Ok st' \<and> entries_ok tk segment sy c st' \<and>
     set (fst st) \<subseteq> set (fst st') \<and> length (fst st') \<le> Suc (length (fst st)) \<and> queued tk (fst st') ((l, wl), (r, wr))"
proof -
  from try_add_bigram_adjacent [OF voc chain [unfolded c]] obtain st'
    where st': "try_add_bigram tk segment sy (int l) (int r) st = Ok st'" "offered tk l r (wl @ wr) st st'" by blast
  from chain c have lk: "l < length sy" "r < length sy" "sy_start (sy ! l) = str_len (spelled xs)"
    "segment = spelled xs @ (wl @ wr) @ spelled ys"
    by (auto simp: chain_ok_def linked_append)
  have adj: "(l, r) \<in> set (adjacent (map fst c))" unfolding c by (simp add: adjacent_middle)
  show ?thesis
  proof (cases "token_to_id tk (wl @ wr) = None")
    case True
    with st' ok show ?thesis by (auto simp: offered_def queued_def)
  next
    case False
    with st'(2) obtain score where eq: "st' = (fst st @ [\<lparr>bg_left = l, bg_right = r, bg_score = score, bg_size = str_len (wl @ wr)\<rparr>],
        (snd st)(wl @ wr \<mapsto> (l, r)))" by (auto simp: offered_def)
    have "bigram_ok tk segment sy c \<lparr>bg_left = l, bg_right = r, bg_score = score, bg_size = str_len (wl @ wr)\<rparr>"
      using lk adj get_range_middle [OF lk(4)] False by (auto simp: bigram_ok_def)
    with ok False have "entries_ok tk segment sy c st'" by (auto simp: entries_ok_def eq)
    with st'(1) show ?thesis by (auto simp: eq queued_def)
  qed
qed

lemma queued_mono: "set work \<subseteq> set work' \<Longrightarrow> queued tk work p \<Longrightarrow> queued tk work' p"
  by (auto simp: queued_def split: prod.splits)


lemma offer_left:
  assumes voc: "vocab_consistent tk" and chain: "chain_ok segment sy c" and c: "c = xs @ (l, w) # ys"
    and ok: "entries_ok tk segment sy c st"
  shows "\<exists>st'. try_add_bigram tk segment sy (last_link (- 1) xs) (int l) st = Ok st' \<and> entries_ok tk segment sy c st' \<and>
     set (fst st) \<subseteq> set (fst st') \<and> length (fst st') \<le> Suc (length (fst st)) \<and>
     (xs \<noteq> [] \<longrightarrow> queued tk (fst st') (last xs, (l, w)))"
proof (cases xs rule: rev_cases)
  case (snoc xs' x)
  obtain k wk where x: "x = (k, wk)" by (cases x)
  have "c = xs' @ (k, wk) # (l, w) # ys" using c snoc x by simp
  from offer_adjacent [OF voc chain this ok] snoc x show ?thesis by simp
qed (use ok in simp)

lemma offer_right:
  assumes voc: "vocab_consistent tk" and chain: "chain_ok segment sy c" and c: "c = xs @ (l, w) # ys"
    and ok: "entries_ok tk segment sy c st"
  shows "\<exists>st'. try_add_bigram tk segment sy (int l) (link ys (- 1)) st = Ok st' \<and> entries_ok tk segment sy c st' \<and>
     set (fst st) \<subseteq> set (fst st') \<and> length (fst st') \<le> Suc (length (fst st)) \<and>
     (ys \<noteq> [] \<longrightarrow> queued tk (fst st') ((l, w), hd ys))"
proof (cases ys)
  case (Cons y ys')
  obtain k wk where y: "y = (k, wk)" by (cases y)
  have "c = xs @ (l, w) # (k, wk) # ys'" using c Cons y by simp
  from offer_adjacent [OF voc chain this ok] Cons y show ?thesis by simp
qed (use ok in simp)

text \<open>The invariant: a chain, sound entries, every joinable neighbour pair queued, and pieces that are tokens or
  single characters.\<close>

definition session_ok ::
  "tokenizer \<Rightarrow> str \<Rightarrow> symbol list \<Rightarrow> bigram list \<times> rev_merge \<Rightarrow> (usize \<times> str) list \<Rightarrow> bool" where
  "session_ok tk segment sy st c =
     (chain_ok segment sy c \<and> entries_ok tk segment sy c st \<and>
      (\<forall>p \<in> set (adjacent c). queued tk (fst st) p) \<and>
      (\<forall>p \<in> set c. token_to_id tk (snd p) \<noteq> None \<or> length (snd p) = 1))"

lemma session_step_stale:
  assumes ok: "session_ok tk segment sy st c" and set: "set (fst st) = insert b (set work)" and stale: "stale sy b"
  shows "session_ok tk segment sy (work, snd st) c"
proof -
  from ok have chain: "chain_ok segment sy c" and q: "\<And>p. p \<in> set (adjacent c) \<Longrightarrow> queued tk (fst st) p"
    by (auto simp: session_ok_def)
  have "queued tk work p" if p: "p \<in> set (adjacent c)" for p
  proof -
    obtain l wl r wr where eq: "p = ((l, wl), (r, wr))" by (cases p) auto
    from adjacent_split [of "(l, wl)" "(r, wr)" c] p eq obtain xs ys where "c = xs @ (l, wl) # (r, wr) # ys" by auto
    with chain have "sy_n (sy ! l) = str_len wl" "sy_n (sy ! r) = str_len wr" "str_len wl \<noteq> 0" "str_len wr \<noteq> 0"
      by (auto simp: chain_ok_def linked_append)
    with stale have "\<not> (bg_left b = l \<and> bg_right b = r \<and> bg_size b = str_len (wl @ wr))" by (auto simp: stale_def)
    with q [OF p] show ?thesis unfolding eq queued_def set by auto
  qed
  with ok set show ?thesis by (auto simp: session_ok_def entries_ok_def)
qed

lemma session_step_fresh:
  assumes voc: "vocab_consistent tk" and ok: "session_ok tk segment sy st c"
    and set: "set (fst st) = insert b (set work)" and fresh: "\<not> stale sy b"
  shows "\<exists>sy' st' c'. merge_bigram tk segment b sy (work, snd st) = Ok (sy', st') \<and> session_ok tk segment sy' st' c' \<and>
     Suc (length c') = length c \<and> length (fst st') \<le> length work + 2"
proof -
  from ok have chain: "chain_ok segment sy c" and entries: "entries_ok tk segment sy c st"
    and q: "\<And>p. p \<in> set (adjacent c) \<Longrightarrow> queued tk (fst st) p" and pc: "\<And>p. p \<in> set c \<Longrightarrow> token_to_id tk (snd p) \<noteq> None \<or> length (snd p) = 1"
    by (auto simp: session_ok_def)
  have "bigram_ok tk segment sy c b" using entries set by (simp add: entries_ok_def)
  from fresh_split [OF chain this fresh] obtain xs wl wr ys
    where c: "c = xs @ (bg_left b, wl) # (bg_right b, wr) # ys" and tok: "token_to_id tk (wl @ wr) \<noteq> None" .
  define l where "l = bg_left b"
  define r where "r = bg_right b"
  define sy' where "sy' = merged_symbols sy l r"
  define c' where "c' = xs @ (l, wl @ wr) # ys"
  note c = c [folded l_def r_def]
  from chain have dist: "distinct (map fst c)" by (simp add: chain_ok_def)
  have chain': "chain_ok segment sy' c'" unfolding sy'_def c'_def using chain_ok_merged chain c by blast
  have e0: "entries_ok tk segment sy' c' (work, snd st)"
    using entries set bigram_ok_merged [of tk segment sy xs l wl r wr ys _ "wl @ wr"] dist
    by (auto simp: entries_ok_def sy'_def c'_def c)
  from offer_left [OF voc chain' c'_def e0] obtain st1 where st1:
    "try_add_bigram tk segment sy' (last_link (- 1) xs) (int l) (work, snd st) = Ok st1" "entries_ok tk segment sy' c' st1"
    "set work \<subseteq> set (fst st1)" "length (fst st1) \<le> Suc (length work)" "xs \<noteq> [] \<longrightarrow> queued tk (fst st1) (last xs, (l, wl @ wr))"
    by auto
  from offer_right [OF voc chain' c'_def st1(2)] obtain st2 where st2:
    "try_add_bigram tk segment sy' (int l) (link ys (- 1)) st1 = Ok st2" "entries_ok tk segment sy' c' st2"
    "set (fst st1) \<subseteq> set (fst st2)" "length (fst st2) \<le> Suc (length (fst st1))" "ys \<noteq> [] \<longrightarrow> queued tk (fst st2) ((l, wl @ wr), hd ys)"
    by auto
  have step: "merge_bigram tk segment b sy (work, snd st) = Ok (sy', st2)"
    using merge_bigram_fresh [OF chain [unfolded c] l_def [symmetric] r_def [symmetric] fresh, of tk "(work, snd st)"] st1(1) st2(1)
    by (simp add: Let_def sy'_def)
  have old: "queued tk (fst st2) p" if p: "p \<in> set (adjacent xs) \<or> p \<in> set (adjacent ys)" for p
  proof -
    obtain k wk n wn where eq: "p = ((k, wk), (n, wn))" by (cases p) auto
    have "(k, wk) \<in> set xs \<or> (k, wk) \<in> set ys" using p adjacent_elems [of "(k, wk)" "(n, wn)" xs] adjacent_elems [of "(k, wk)" "(n, wn)" ys] unfolding eq by blast
    moreover have "l \<notin> fst ` set xs" "l \<notin> fst ` set ys" using dist unfolding c by auto
    ultimately have "k \<noteq> l" by (metis fst_conv image_eqI)
    moreover have "p \<in> set (adjacent c)"
      using adjacent_outer [OF p, of "[(l, wl), (r, wr)]"] unfolding c by simp
    moreover have "b' \<in> set work" if "b' \<in> set (fst st)" "bg_left b' \<noteq> l" for b'
      using that set by (auto simp: l_def)
    ultimately have "queued tk work p" using q [of p] unfolding queued_def eq by auto
    then show ?thesis using queued_mono st1(3) st2(3) by (metis subset_trans)
  qed
  have "queued tk (fst st2) p" if "p \<in> set (adjacent c')" for p
    using adjacent_merged [OF that [unfolded c'_def]] old st1(5) st2(3,5) queued_mono by blast
  moreover have "token_to_id tk (snd p) \<noteq> None \<or> length (snd p) = 1" if "p \<in> set c'" for p
    using that pc [of p] tok by (auto simp: c'_def c)
  ultimately have "session_ok tk segment sy' st2 c'" using chain' st2(2) by (simp add: session_ok_def)
  moreover have "Suc (length c') = length c" by (simp add: c c'_def)
  moreover have "length (fst st2) \<le> length work + 2" using st1(4) st2(4) by simp
  ultimately show ?thesis using step by blast
qed

context entry_queue
begin

lemma spm_merge_loop_ends:
  assumes voc: "vocab_consistent tk"
  shows "session_ok tk segment sy st c \<Longrightarrow>
    \<exists>sy' rev_merge c'. spm_merge_loop pick tk segment sy st = Some (Ok (sy', rev_merge)) \<and>
      session_ok tk segment sy' ([], rev_merge) c'"
proof (induction "2 * length c + length (fst st)" arbitrary: sy st c rule: less_induct)
  case less
  show ?case
  proof (cases "heap_take pick (fst st)")
    case None
    then have "fst st = []" by (simp add: heap_take_def Let_def split: if_splits)
    then have "st = ([], snd st)" by (cases st) auto
    then show ?thesis using less(2) None by (subst spm_merge_loop.simps) auto
  next
    case (Some e)
    obtain b work where e: "e = (b, work)" by (cases e)
    note t = heap_take_Some [OF Some [unfolded e]]
    have "\<exists>sy' st' c'. merge_bigram tk segment b sy (work, snd st) = Ok (sy', st') \<and> session_ok tk segment sy' st' c' \<and>
        2 * length c' + length (fst st') < 2 * length c + length (fst st)"
    proof (cases "stale sy b")
      case True
      have "bg_left b < length sy" "bg_right b < length sy"
        using less(2) t(1) by (auto simp: session_ok_def entries_ok_def bigram_ok_def)
      from merge_bigram_stale [OF this True] session_step_stale [OF less(2) t(1) True] t(2) show ?thesis by fastforce
    next
      case False
      from session_step_fresh [OF voc less(2) t(1) False] t(2) show ?thesis by fastforce
    qed
    then obtain sy' st' c' where step: "merge_bigram tk segment b sy (work, snd st) = Ok (sy', st')"
      "session_ok tk segment sy' st' c'" "2 * length c' + length (fst st') < 2 * length c + length (fst st)" by blast
    from less(1) [OF step(3,2)] show ?thesis
      using Some e step(1) by (subst spm_merge_loop.simps) simp
  qed
qed


end

section \<open>The initial chain and its queue\<close>

definition initial_chain :: "str \<Rightarrow> (usize \<times> str) list" where
  "initial_chain segment = map (\<lambda>i. (i, [segment ! i])) [0..<length segment]"

lemma char_indices_nth: "i < length s \<Longrightarrow> char_indices k s ! i = (k + str_len (take i s), s ! i)"
proof (induction s arbitrary: i k)
  case (Cons c s)
  then show ?case by (cases i) auto
qed simp

lemma length_initial_symbols [simp]: "length (initial_symbols segment) = length segment"
  by (simp add: initial_symbols_def)

lemma str_len_take_end: "i < length s \<Longrightarrow> str_len (take (Suc i) s) = str_len s \<longleftrightarrow> Suc i = length s"
proof (induction s arbitrary: i)
  case (Cons c s)
  then show ?case by (cases i; cases s) auto
qed simp

lemma initial_symbols_nth:
  assumes "i < length segment"
  shows "initial_symbols segment ! i =
    \<lparr>sy_start = str_len (take i segment), sy_n = str_len [segment ! i], sy_prev = int i - 1,
     sy_next = (if Suc i = length segment then - 1 else int i + 1)\<rparr>"
proof -
  have "str_len (take i segment) + len_utf8 (segment ! i) = str_len (take (Suc i) segment)"
    using assms by (simp add: take_Suc_conv_app_nth)
  then show ?thesis
    using assms str_len_take_end [OF assms] by (simp add: initial_symbols_def nth_enumerate_eq char_indices_nth)
qed

lemma linked_initial:
  assumes "k \<le> length segment"
  shows "linked (initial_symbols segment) (int k - 1) (str_len (take k segment)) (drop k (initial_chain segment)) (- 1)"
  using assms
proof (induction "length segment - k" arbitrary: k)
  case (Suc n)
  then have k: "k < length segment" by simp
  have "drop k (initial_chain segment) = (k, [segment ! k]) # drop (Suc k) (initial_chain segment)"
    using k by (simp add: initial_chain_def drop_map upt_conv_Cons)
  moreover have "link (drop (Suc k) (initial_chain segment)) (- 1) = (if Suc k = length segment then - 1 else int k + 1)"
  proof (cases "Suc k = length segment")
    case False
    with k have "drop (Suc k) (initial_chain segment) = (Suc k, [segment ! Suc k]) # drop (Suc (Suc k)) (initial_chain segment)"
      by (simp add: initial_chain_def drop_map upt_conv_Cons)
    with False show ?thesis by simp
  qed (simp add: initial_chain_def)
  moreover have "str_len (take (Suc k) segment) = str_len (take k segment) + len_utf8 (segment ! k)"
    using k by (simp add: take_Suc_conv_app_nth)
  moreover have "linked (initial_symbols segment) (int k) (str_len (take (Suc k) segment)) (drop (Suc k) (initial_chain segment)) (- 1)"
    using Suc(1) [of "Suc k"] Suc(2) k by simp
  ultimately show ?case using k by (simp add: initial_symbols_nth)
qed (simp add: initial_chain_def)

lemma chain_ok_initial:
  assumes "segment \<noteq> []"
  shows "chain_ok segment (initial_symbols segment) (initial_chain segment)"
proof -
  have "concat (map (\<lambda>i. [segment ! i]) [0..<length segment]) = segment"
    using map_nth [of segment] by (simp add: concat_map_singleton)
  then have "spelled (initial_chain segment) = segment" by (simp add: spelled_def initial_chain_def comp_def)
  moreover have "fst ` set (initial_chain segment) = {0..<length segment}" by (force simp: initial_chain_def)
  moreover have "hd (initial_chain segment) = (0, [segment ! 0])" using assms by (simp add: initial_chain_def hd_map)
  ultimately show ?thesis
    using assms linked_initial [of 0 segment] by (auto simp: chain_ok_def initial_chain_def comp_def)
qed

lemma initial_chain_split:
  assumes "0 < i" "i < length segment"
  shows "initial_chain segment =
    take (i - 1) (initial_chain segment) @ (i - 1, [segment ! (i - 1)]) # (i, [segment ! i]) # drop (Suc i) (initial_chain segment)"
proof -
  have "initial_chain segment = take (i - 1) (initial_chain segment) @ drop (i - 1) (initial_chain segment)" by simp
  moreover have "drop (i - 1) (initial_chain segment) =
      (i - 1, [segment ! (i - 1)]) # (i, [segment ! i]) # drop (Suc i) (initial_chain segment)"
    using assms Cons_nth_drop_Suc [of "i - 1" "initial_chain segment"] Cons_nth_drop_Suc [of i "initial_chain segment"]
    by (simp add: initial_chain_def)
  ultimately show ?thesis by metis
qed

lemma seed_bigrams_queues:
  assumes voc: "vocab_consistent tk" and seg: "segment \<noteq> []"
  shows "set is \<subseteq> {1..<length segment} \<Longrightarrow> entries_ok tk segment (initial_symbols segment) (initial_chain segment) st \<Longrightarrow>
    \<exists>st'. seed_bigrams tk segment (initial_symbols segment) is st = Ok st' \<and>
      entries_ok tk segment (initial_symbols segment) (initial_chain segment) st' \<and> set (fst st) \<subseteq> set (fst st') \<and>
      (\<forall>i \<in> set is. queued tk (fst st') ((i - 1, [segment ! (i - 1)]), (i, [segment ! i])))"
proof (induction "is" arbitrary: st)
  case (Cons i "is")
  then have i: "0 < i" "i < length segment" by auto
  have "int i - 1 = int (i - 1)" using i by simp
  with offer_adjacent [OF voc chain_ok_initial [OF seg] initial_chain_split [OF i] Cons(3)] obtain st1
    where st1: "try_add_bigram tk segment (initial_symbols segment) (int i - 1) (int i) st = Ok st1"
      "entries_ok tk segment (initial_symbols segment) (initial_chain segment) st1" "set (fst st) \<subseteq> set (fst st1)"
      "queued tk (fst st1) ((i - 1, [segment ! (i - 1)]), (i, [segment ! i]))" by metis
  from Cons(1) [OF _ st1(2)] Cons(2) obtain st2
    where st2: "seed_bigrams tk segment (initial_symbols segment) is st1 = Ok st2"
      "entries_ok tk segment (initial_symbols segment) (initial_chain segment) st2" "set (fst st1) \<subseteq> set (fst st2)"
      "\<forall>i \<in> set is. queued tk (fst st2) ((i - 1, [segment ! (i - 1)]), (i, [segment ! i]))" by auto
  from st1 st2 queued_mono [OF st2(3) st1(4)] show ?case by auto
qed auto

lemma session_initial:
  assumes voc: "vocab_consistent tk" and seg: "segment \<noteq> []"
  shows "\<exists>st. seed_bigrams tk segment (initial_symbols segment) [1..<length (initial_symbols segment)] ([], Map.empty) = Ok st \<and>
    session_ok tk segment (initial_symbols segment) st (initial_chain segment)"
proof -
  have "entries_ok tk segment (initial_symbols segment) (initial_chain segment) ([], Map.empty)" by (simp add: entries_ok_def)
  with seed_bigrams_queues [OF voc seg, of "[1..<length segment]" "([], Map.empty)"] obtain st
    where st: "seed_bigrams tk segment (initial_symbols segment) [1..<length segment] ([], Map.empty) = Ok st"
      "entries_ok tk segment (initial_symbols segment) (initial_chain segment) st"
      "\<forall>i \<in> {1..<length segment}. queued tk (fst st) ((i - 1, [segment ! (i - 1)]), (i, [segment ! i]))" by auto
  have "queued tk (fst st) p" if "p \<in> set (adjacent (initial_chain segment))" for p
  proof -
    from that obtain j where "Suc j < length segment" "p = ((j, [segment ! j]), (Suc j, [segment ! Suc j]))"
      by (auto simp: adjacent_iff initial_chain_def)
    with st(3) show ?thesis by (metis One_nat_def Suc_leI atLeastLessThan_iff diff_Suc_1 zero_less_Suc)
  qed
  with st chain_ok_initial [OF seg] show ?thesis
    by (intro exI [of _ st]) (auto simp: session_ok_def initial_chain_def)
qed


section \<open>The walk\<close>

text \<open>What a partition of a segment encodes to: the id of each piece, or of its bytes.\<close>

fun emit :: "tokenizer \<Rightarrow> str list \<Rightarrow> token_id list \<Rightarrow> token_id list tres" where
  "emit tk [] out = Ok out"
| "emit tk (w # ws) out =
     (case token_to_id tk w of
        Some tid \<Rightarrow> emit tk ws (out @ [tid])
      | None \<Rightarrow> bindR (encode_unknown_symbol_bytes tk w out) (emit tk ws))"

text \<open>A span of the chain is a token or was never recorded as a merge, so it is not split again.\<close>

lemma resegment_piece:
  assumes "get_range segment start (start + n) = Some w" "token_to_id tk w = None \<Longrightarrow> rev_merge w = None"
  shows "resegment tk segment sy rev_merge [(start, n)] out =
     Some (case token_to_id tk w of Some tid \<Rightarrow> Ok (out @ [tid]) | None \<Rightarrow> encode_unknown_symbol_bytes tk w out)"
proof -
  have empty: "resegment tk segment sy rev_merge [] out' = Some (Ok out')" for out' by (subst resegment.simps) simp
  show ?thesis
    using assms
    by (subst resegment.simps) (auto simp: empty split: option.splits outcome.splits)
qed

lemma walk_symbols_emits:
  assumes ok: "session_ok tk segment sy ([], rev_merge) c"
  shows "c = xs @ ys \<Longrightarrow> walk_symbols tk segment sy rev_merge (link ys (- 1)) out = Some (emit tk (map snd ys) out)"
proof (induction ys arbitrary: xs out)
  case Nil
  show ?case by (subst walk_symbols.simps) simp
next
  case (Cons y ys)
  obtain i w where y: "y = (i, w)" by (cases y)
  from ok have chain: "chain_ok segment sy c" and rev: "token_to_id tk w = None \<Longrightarrow> rev_merge w = None"
    unfolding session_ok_def entries_ok_def by (simp, metis snd_conv)
  from chain Cons(2) y have at: "i < length sy"
    "sy ! i = \<lparr>sy_start = str_len (spelled xs), sy_n = str_len w, sy_prev = last_link (- 1) xs, sy_next = link ys (- 1)\<rparr>"
    and seg: "segment = spelled xs @ w @ spelled ys"
    by (auto simp: chain_ok_def linked_append)
  note re = resegment_piece [where tk = tk and rev_merge = rev_merge and sy = sy and out = out, OF get_range_middle [OF seg] rev]
  have step: "walk_symbols tk segment sy rev_merge (link ys (- 1)) out' = Some (emit tk (map snd ys) out')" for out'
    using Cons(1) [of "xs @ [y]"] Cons(2) by simp
  show ?case
    using at y re
    by (subst walk_symbols.simps)
      (auto simp: index_cast_def index_at_def list_get_def step split: option.splits outcome.splits)
qed

context entry_queue
begin

lemma spm_segment_partition:
  assumes voc: "vocab_consistent tk"
  shows "\<exists>pieces. encode_spm_segment_reference pick tk segment out = Some (emit tk pieces out) \<and> concat pieces = segment \<and>
    [] \<notin> set pieces \<and> (\<forall>w \<in> set pieces. token_to_id tk w \<noteq> None \<or> length w = 1) \<and>
    (\<forall>(v, w) \<in> set (adjacent pieces). token_to_id tk (v @ w) = None)"
proof (cases "segment = []")
  case True
  then have "encode_spm_segment_reference pick tk segment out = Some (emit tk [] out)"
    by (simp add: encode_spm_segment_reference_def initial_symbols_def)
  with True show ?thesis by (intro exI [of _ "[]"]) simp
next
  case False
  from session_initial [OF voc False] obtain st
    where st: "seed_bigrams tk segment (initial_symbols segment) [1..<length (initial_symbols segment)] ([], Map.empty) = Ok st"
      "session_ok tk segment (initial_symbols segment) st (initial_chain segment)" by blast
  from spm_merge_loop_ends [OF voc st(2)] obtain sy rev_merge c
    where lp: "spm_merge_loop pick tk segment (initial_symbols segment) st = Some (Ok (sy, rev_merge))"
      and ok: "session_ok tk segment sy ([], rev_merge) c" by blast
  from ok have "link c (- 1) = 0" by (cases c) (auto simp: session_ok_def chain_ok_def)
  with walk_symbols_emits [OF ok, of "[]" c out] have walk: "walk_symbols tk segment sy rev_merge 0 out = Some (emit tk (map snd c) out)"
    by simp
  have "initial_symbols segment \<noteq> []" using False by (metis length_0_conv length_initial_symbols)
  then have "encode_spm_segment_reference pick tk segment out = Some (emit tk (map snd c) out)"
    using st(1) lp walk by (simp add: encode_spm_segment_reference_def Let_def)
  moreover have "concat (map snd c) = segment" using ok by (simp add: session_ok_def chain_ok_def spelled_def)
  moreover have "[] \<notin> set (map snd c)"
    using ok linked_entry [of sy "- 1" 0 c "- 1"] by (force simp: session_ok_def chain_ok_def)
  moreover have "token_to_id tk w \<noteq> None \<or> length w = 1" if "w \<in> set (map snd c)" for w
    using ok that by (auto simp: session_ok_def)
  moreover have "token_to_id tk (v @ w) = None" if "(v, w) \<in> set (adjacent (map snd c))" for v w
  proof -
    from that obtain j where j: "Suc j < length c" "v = snd (c ! j)" "w = snd (c ! Suc j)" by (auto simp: adjacent_iff)
    then have "(c ! j, c ! Suc j) \<in> set (adjacent c)" by (auto simp: adjacent_iff)
    with ok have "queued tk [] (c ! j, c ! Suc j)" by (auto simp: session_ok_def)
    then show ?thesis unfolding j by (auto simp: queued_def split: prod.splits)
  qed
  ultimately show ?thesis by (intro exI [of _ "map snd c"]) blast
qed


end

section \<open>Properties\<close>

text \<open>C19. SentencePiece segmentation ends without a panic for every order in which the queue hands out its
  entries, and emits the ids of a partition of the segment: each piece is a vocabulary token or a single
  character (then spelled by byte tokens, or an error if one is missing), and no two neighbouring pieces join to a
  token. A recorded merge is therefore never split again.\<close>

theorem spm_segmentation_is_irreducible_partition:
  assumes "entry_queue pick" "vocab_consistent tk"
  shows "\<exists>pieces. encode_spm_segment_reference pick tk segment out = Some (emit tk pieces out) \<and> concat pieces = segment \<and>
    [] \<notin> set pieces \<and> (\<forall>w \<in> set pieces. token_to_id tk w \<noteq> None \<or> length w = 1) \<and>
    (\<forall>(v, w) \<in> set (adjacent pieces). token_to_id tk (v @ w) = None)"
  using assms by (rule entry_queue.spm_segment_partition)

definition spm_example :: tokenizer where
  "spm_example =
     tokenizer_of [(lit ''a'', Normal), (lit ''b'', Normal), (lit ''ab'', Normal), (lit ''ba'', Normal), (lit ''aba'', Normal)] []"

theorem spm_segmentation_is_irreducible_partition_witness:
  "encode_spm_segment_reference greatest_entry spm_example (lit ''abaab'') [] = Some (Ok [4, 2]) \<and>
   (\<exists>pieces. Ok [4, 2] = emit spm_example pieces [] \<and> concat pieces = lit ''abaab'')"
proof -
  have run: "encode_spm_segment_reference greatest_entry spm_example (lit ''abaab'') [] = Some (Ok [4, 2])" by code_simp
  have "vocab_consistent spm_example" unfolding spm_example_def by (rule vocab_consistent_of) simp
  from spm_segmentation_is_irreducible_partition [OF greatest.entry_queue_axioms this, of "lit ''abaab''" "[]"] run
  show ?thesis by auto
qed

end
