(* ===== verification/Spm_Encode.thy ===== *)
theory Spm_Encode
  imports Spm_Session "HOL-Library.Sublist"
begin

text \<open>
  SentencePiece encoding and decoding around the session (\<open>normalize_spm_text\<close>, \<open>encode_piece\<close>,
  \<open>encode_spm_segment\<close>, \<open>encode_piece_greedy\<close> and the SentencePiece half of \<open>decode\<close> in
  \<open>src/src/tokenizer/mod.rs\<close>): spaces become U+2581, special tokens are cut out, dummy prefixes go after
  them, and the segments between are split by the session or, with merge ranks, by rank and then
  greedily.
\<close>

section \<open>Dummy prefixes\<close>

definition in_vocab :: "tokenizer \<Rightarrow> str \<Rightarrow> bool" where
  "in_vocab tk s = (token_to_id tk s \<noteq> None)"

definition should_insert_dummy_after_control :: "tokenizer \<Rightarrow> str \<Rightarrow> str \<Rightarrow> bool \<Rightarrow> bool" where
  "should_insert_dummy_after_control tk tok rest next_is_control =
     (if rest = [] \<or> next_is_control then False
      else if token_text tk (sp_bos (tk_special tk)) = Some tok \<and> starts_with rest (lit ''[INST]'') \<and>
              in_vocab tk (lit ''[INST]'') \<and> in_vocab tk (lit ''[/INST]'') then False
      else if tok = lit ''[INST]'' \<and> in_vocab tk (lit ''[INST]'') \<and> in_vocab tk (lit ''[/INST]'') then True
      else \<not> starts_with rest [SPM_SPACE])"

partial_function (option) dummy_prefix_loop :: "tokenizer \<Rightarrow> str \<Rightarrow> usize \<Rightarrow> str \<Rightarrow> str tres option" where
  "dummy_prefix_loop tk s byte_start normalized =
     (if byte_start < str_len s then
        (case longest_control_token_at tk s byte_start True of
           Some (tok, token_len) \<Rightarrow>
             let byte_start = byte_start + token_len in
             (case slice_from s byte_start of
                Ok rest \<Rightarrow>
                  let next_is_control = longest_control_token_at tk s byte_start True \<noteq> None in
                  dummy_prefix_loop tk s byte_start
                    (if should_insert_dummy_after_control tk tok rest next_is_control
                     then normalized @ tok @ [SPM_SPACE] else normalized @ tok)
              | Err e \<Rightarrow> Some (Err e) | Panic \<Rightarrow> Some Panic)
         | None \<Rightarrow>
             (case slice_from s byte_start of
                Ok rest \<Rightarrow>
                  (case first_char rest of
                     Some ch \<Rightarrow> dummy_prefix_loop tk s (byte_start + len_utf8 ch) (normalized @ [ch])
                   | None \<Rightarrow> Some Panic)
              | Err e \<Rightarrow> Some (Err e) | Panic \<Rightarrow> Some Panic))
      else Some (Ok normalized))"

declare dummy_prefix_loop.simps [code]

definition add_dummy_prefix_after_control_tokens :: "tokenizer \<Rightarrow> str \<Rightarrow> str tres option" where
  "add_dummy_prefix_after_control_tokens tk s =
     (if \<not> add_space_prefix (tk_config tk) \<or> s = [] then Some (Ok s) else dummy_prefix_loop tk s 0 [])"

definition normalize_spm_text :: "tokenizer \<Rightarrow> str \<Rightarrow> bool \<Rightarrow> str tres option" where
  "normalize_spm_text tk s parse_special =
     (if s = [] then Some (Ok [])
      else
        let normalized =
              (if add_space_prefix (tk_config tk) \<and> \<not> (parse_special \<and> longest_control_token_at tk s 0 True \<noteq> None)
               then [SPM_SPACE] else []) @
              map (\<lambda>ch. if ch = 32 then SPM_SPACE else ch) s
        in if parse_special then Some (Ok normalized) else add_dummy_prefix_after_control_tokens tk normalized)"

section \<open>Greedy matching\<close>

text \<open>\<open>f32\<close> comparison on bits, and \<open>str::contains\<close> of two U+2581.\<close>

definition f32_le :: "u32 \<Rightarrow> u32 \<Rightarrow> bool" where
  "f32_le x y = (f32_partial_cmp x y = Some OLess \<or> f32_partial_cmp x y = Some OEqual)"

fun has_double_space :: "str \<Rightarrow> bool" where
  "has_double_space (a # b # s) = (a = SPM_SPACE \<and> b = SPM_SPACE \<or> has_double_space (b # s))"
| "has_double_space _ = False"

text \<open>The loop over the candidate ends.\<close>

fun greedy_best ::
  "tokenizer \<Rightarrow> str \<Rightarrow> usize \<Rightarrow> usize list \<Rightarrow> (usize \<times> token_id \<times> u32) option \<Rightarrow> (usize \<times> token_id \<times> u32) option tres" where
  "greedy_best tk s byte_start [] best = Ok best"
| "greedy_best tk s byte_start (byte_end # ends) best =
     bindR (slice_range s byte_start byte_end) (\<lambda>candidate.
       if has_double_space candidate then greedy_best tk s byte_start ends best
       else
         (case token_to_id tk candidate of
            None \<Rightarrow> greedy_best tk s byte_start ends best
          | Some tid \<Rightarrow>
              bindR (index_at (tk_tokens tk) (unat tid)) (\<lambda>t.
                let score = t_score t; len = byte_end - byte_start in
                greedy_best tk s byte_start ends
                  (case best of
                     Some (best_len, bid, best_score) \<Rightarrow>
                       if len < best_len \<or> (len = best_len \<and> f32_le score best_score) then best
                       else Some (len, tid, score)
                   | None \<Rightarrow> Some (len, tid, score)))))"

partial_function (option) greedy_loop :: "tokenizer \<Rightarrow> str \<Rightarrow> usize \<Rightarrow> token_id list \<Rightarrow> token_id list tres option" where
  "greedy_loop tk s byte_start out =
     (if byte_start < str_len s then
        (case bindR (slice_from s byte_start) (\<lambda>rest.
                greedy_best tk s byte_start
                  (map (\<lambda>(i, _). byte_start + i) (drop 1 (char_indices 0 rest)) @ [str_len s]) None) of
           Ok (Some (len, tid, _)) \<Rightarrow> greedy_loop tk s (byte_start + len) (out @ [tid])
         | Ok None \<Rightarrow>
             (case find (\<lambda>(i, _). i = byte_start) (char_indices 0 s) of
                None \<Rightarrow> Some (Err CursorError)
              | Some (_, ch) \<Rightarrow>
                  (case encode_unknown_symbol_bytes tk [ch] out of
                     Ok out' \<Rightarrow> greedy_loop tk s (byte_start + len_utf8 ch) out'
                   | Err e \<Rightarrow> Some (Err e) | Panic \<Rightarrow> Some Panic))
         | Err e \<Rightarrow> Some (Err e) | Panic \<Rightarrow> Some Panic)
      else Some (Ok out))"

declare greedy_loop.simps [code]

definition encode_piece_greedy :: "tokenizer \<Rightarrow> str \<Rightarrow> token_id list tres option" where
  "encode_piece_greedy tk s = greedy_loop tk s 0 []"

section \<open>Segments and pieces\<close>

text \<open>The loop over merged symbols; \<open>unresolved\<close> holds the ones without a token.\<close>

fun resolve_symbols :: "tokenizer \<Rightarrow> str list \<Rightarrow> str \<Rightarrow> token_id list \<Rightarrow> token_id list tres option" where
  "resolve_symbols tk [] unresolved out =
     (if unresolved = [] then Some (Ok out)
      else map_option (\<lambda>r. bindR r (\<lambda>ids. Ok (out @ ids))) (encode_piece_greedy tk unresolved))"
| "resolve_symbols tk (symbol # symbols) unresolved out =
     (if bpe_ranks tk = [] \<and> has_double_space symbol then resolve_symbols tk symbols (unresolved @ symbol) out
      else
        (case token_to_id tk symbol of
           Some tid \<Rightarrow>
             if unresolved = [] then resolve_symbols tk symbols [] (out @ [tid])
             else
               (case encode_piece_greedy tk unresolved of
                  None \<Rightarrow> None
                | Some (Ok ids) \<Rightarrow> resolve_symbols tk symbols [] (out @ ids @ [tid])
                | Some (Err e) \<Rightarrow> Some (Err e)
                | Some Panic \<Rightarrow> Some Panic)
         | None \<Rightarrow> resolve_symbols tk symbols (unresolved @ symbol) out))"

definition encode_spm_segment :: "heap_pick \<Rightarrow> tokenizer \<Rightarrow> str \<Rightarrow> token_id list \<Rightarrow> token_id list tres option" where
  "encode_spm_segment pick tk segment out =
     (if segment = [] then Some (Ok out)
      else if bpe_ranks tk = [] then encode_spm_segment_reference pick tk segment out
      else resolve_symbols tk (merge_symbols (tk_registry tk) (map (\<lambda>ch. [ch]) segment)) [] out)"

definition is_ascii_whitespace :: "rust_char \<Rightarrow> bool" where
  "is_ascii_whitespace c = (c = 32 \<or> c = 9 \<or> c = 10 \<or> c = 12 \<or> c = 13)"

definition chat_control_marker_rstrips :: "tokenizer \<Rightarrow> str \<Rightarrow> bool" where
  "chat_control_marker_rstrips tk tok = is_chat_control_marker_text (specials_index_of tk) tok"

text \<open>What follows a special token: whitespace is dropped after a chat marker, and a dummy prefix may be due.\<close>

definition after_special :: "tokenizer \<Rightarrow> str \<Rightarrow> str \<Rightarrow> usize \<Rightarrow> bool \<Rightarrow> (usize \<times> bool) tres" where
  "after_special tk s tok byte_start pending =
     bindR
       (if chat_control_marker_rstrips tk tok
        then bindR (slice_from s byte_start) (\<lambda>rest.
               Ok (str_len s - str_len (dropWhile (\<lambda>c. c = SPM_SPACE \<or> is_ascii_whitespace c) rest)))
        else Ok byte_start) (\<lambda>byte_start.
     bindR (slice_from s byte_start) (\<lambda>rest.
       let next_is_control = longest_control_token_at tk s byte_start True \<noteq> None in
       Ok (byte_start,
           if add_space_prefix (tk_config tk) \<and> should_insert_dummy_after_control tk tok rest next_is_control
           then True else pending)))"

partial_function (option) encode_piece_loop ::
  "heap_pick \<Rightarrow> tokenizer \<Rightarrow> str \<Rightarrow> bool \<Rightarrow> usize \<Rightarrow> bool \<Rightarrow> token_id list \<Rightarrow> token_id list tres option" where
  "encode_piece_loop pick tk s parse_special byte_start pending out =
     (if byte_start < str_len s then
        (case (if parse_special
               then Option.bind (longest_control_token_at tk s byte_start True)
                      (\<lambda>(tok, len). map_option (\<lambda>tid. (tok, len, tid)) (token_to_id tk tok))
               else None) of
           Some (tok, len, tid) \<Rightarrow>
             (case after_special tk s tok (byte_start + len) pending of
                Ok (byte_start, pending) \<Rightarrow> encode_piece_loop pick tk s parse_special byte_start pending (out @ [tid])
              | Err e \<Rightarrow> Some (Err e) | Panic \<Rightarrow> Some Panic)
         | None \<Rightarrow>
             let byte_end =
                   (if parse_special
                    then (case next_special_start tk s byte_start True of Some e \<Rightarrow> e | None \<Rightarrow> str_len s)
                    else str_len s) in
             (case slice_range s byte_start byte_end of
                Ok segment \<Rightarrow>
                  (case encode_spm_segment pick tk (if pending then SPM_SPACE # segment else segment) out of
                     None \<Rightarrow> None
                   | Some (Ok out') \<Rightarrow> encode_piece_loop pick tk s parse_special byte_end False out'
                   | Some (Err e) \<Rightarrow> Some (Err e)
                   | Some Panic \<Rightarrow> Some Panic)
              | Err e \<Rightarrow> Some (Err e) | Panic \<Rightarrow> Some Panic))
      else Some (Ok out))"

declare encode_piece_loop.simps [code]

definition encode_piece :: "heap_pick \<Rightarrow> tokenizer \<Rightarrow> str \<Rightarrow> bool \<Rightarrow> token_id list tres option" where
  "encode_piece pick tk s parse_special = encode_piece_loop pick tk s parse_special 0 False []"

text \<open>The SentencePiece arm of \<open>encode\<close>.\<close>

definition encode_spm_text :: "heap_pick \<Rightarrow> tokenizer \<Rightarrow> str \<Rightarrow> bool \<Rightarrow> token_id list tres option" where
  "encode_spm_text pick tk s parse_special =
     (case normalize_spm_text tk s parse_special of
        None \<Rightarrow> None
      | Some (Ok normalized) \<Rightarrow>
          if normalized = [] then Some (Ok []) else encode_piece pick tk normalized parse_special
      | Some (Err e) \<Rightarrow> Some (Err e)
      | Some Panic \<Rightarrow> Some Panic)"

section \<open>Decoding\<close>

definition spm_visible :: "str \<Rightarrow> str" where
  "spm_visible s = map (\<lambda>c. if c = SPM_SPACE then 32 else c) s"

fun decode_spm_loop :: "tokenizer \<Rightarrow> bool \<Rightarrow> token_id list \<Rightarrow> bytes \<Rightarrow> str \<Rightarrow> str tres" where
  "decode_spm_loop tk remove_special [] bs txt = Ok (flush_bytes bs txt)"
| "decode_spm_loop tk remove_special (tid # ids) bs txt =
     (if remove_special \<and> is_special tk tid then decode_spm_loop tk remove_special ids bs txt
      else
        bindR (ok_or (get_token tk tid) (TokenOutOfRange tid)) (\<lambda>t.
          if remove_special \<and> (t_kind t = Control \<or> is_chat_control_marker t) then
            decode_spm_loop tk remove_special ids bs txt
          else
            (case parse_byte_token (t_text t) of
               Some byte \<Rightarrow> decode_spm_loop tk remove_special ids (bs @ [byte]) txt
             | None \<Rightarrow> decode_spm_loop tk remove_special ids [] (flush_bytes bs txt @ spm_visible (t_text t)))))"

definition decode_spm :: "tokenizer \<Rightarrow> token_id list \<Rightarrow> bool \<Rightarrow> str tres" where
  "decode_spm tk ids remove_special = decode_spm_loop tk remove_special ids [] []"


section \<open>Emitting pieces\<close>

lemma push_byte_ids_cases:
  "(\<exists>ids. push_byte_ids tk bs out = Ok (out @ ids) \<and> set ids \<subseteq> known_ids tk) \<or>
   (\<exists>b. push_byte_ids tk bs out = Err (MissingByteToken b) \<and> byte_token_to_id tk b = None \<and> sp_unk (tk_special tk) = None)"
proof (induction bs arbitrary: out)
  case (Cons b bs)
  show ?case
  proof (cases "case byte_token_to_id tk b of Some tid \<Rightarrow> Some tid | None \<Rightarrow> sp_unk (tk_special tk)")
    case None
    then show ?thesis by (auto split: option.splits)
  next
    case (Some tid)
    then have "tid \<in> known_ids tk" by (auto split: option.splits dest: known_idsI)
    with Some Cons [of "out @ [tid]"] show ?thesis by auto
  qed
qed simp

lemma push_byte_ids_append: "push_byte_ids tk bs (o1 @ o2) = bindR (push_byte_ids tk bs o2) (\<lambda>r. Ok (o1 @ r))"
proof (induction bs arbitrary: o2)
  case (Cons b bs)
  then show ?case by (auto split: option.splits)
qed simp

lemma emit_out: "emit tk pieces (o1 @ o2) = bindR (emit tk pieces o2) (\<lambda>r. Ok (o1 @ r))"
proof (induction pieces arbitrary: o2)
  case (Cons w ws)
  show ?case
  proof (cases "token_to_id tk w")
    case None
    then show ?thesis
      using push_byte_ids_append [of tk "as_bytes w" o1 o2] Cons
      by (cases "push_byte_ids tk (as_bytes w) o2") (auto simp: encode_unknown_symbol_bytes_def)
  next
    case (Some tid)
    then show ?thesis using Cons [of "o2 @ [tid]"] by simp
  qed
qed simp

lemma emit_append: "emit tk (ps @ qs) out = bindR (emit tk ps out) (emit tk qs)"
proof (induction ps arbitrary: out)
  case (Cons w ws)
  then show ?case
    by (cases "encode_unknown_symbol_bytes tk w out") (auto split: option.splits)
qed simp

definition spm_outcome :: "tokenizer \<Rightarrow> token_id list \<Rightarrow> token_id list tres \<Rightarrow> bool" where
  "spm_outcome tk out res =
     ((\<exists>out'. res = Ok out' \<and> adds_known tk out out') \<or>
      (\<exists>b. res = Err (MissingByteToken b) \<and> byte_token_to_id tk b = None \<and> sp_unk (tk_special tk) = None))"

lemma spm_outcome_step: "adds_known tk out out1 \<Longrightarrow> spm_outcome tk out1 res \<Longrightarrow> spm_outcome tk out res"
  unfolding spm_outcome_def using adds_known_trans by blast

lemma emit_outcome: "spm_outcome tk out (emit tk pieces out)"
proof (induction pieces arbitrary: out)
  case (Cons w ws)
  show ?case
  proof (cases "token_to_id tk w")
    case None
    from push_byte_ids_cases [of tk "as_bytes w" out] show ?thesis
    proof
      assume "\<exists>ids. push_byte_ids tk (as_bytes w) out = Ok (out @ ids) \<and> set ids \<subseteq> known_ids tk"
      then obtain ids where ids: "push_byte_ids tk (as_bytes w) out = Ok (out @ ids)" "set ids \<subseteq> known_ids tk" by blast
      then have "adds_known tk out (out @ ids)" by (simp add: adds_known_def)
      from spm_outcome_step [OF this Cons] None ids(1) show ?thesis by (simp add: encode_unknown_symbol_bytes_def)
    qed (use None in \<open>auto simp: spm_outcome_def encode_unknown_symbol_bytes_def\<close>)
  next
    case (Some tid)
    from spm_outcome_step [OF adds_known_id [OF known_idsI(1) [OF Some]] Cons] Some show ?thesis by simp
  qed
qed (simp add: spm_outcome_def)

section \<open>Greedy matching emits pieces\<close>

definition ends_of :: "str \<Rightarrow> str \<Rightarrow> usize set" where
  "ends_of pre rest = {str_len pre + str_len u | u v. rest = u @ v \<and> u \<noteq> []}"

definition found_at :: "tokenizer \<Rightarrow> str \<Rightarrow> (usize \<times> token_id \<times> u32) option \<Rightarrow> bool" where
  "found_at tk rest best =
     (case best of None \<Rightarrow> True
      | Some (len, tid, _) \<Rightarrow> \<exists>u v. rest = u @ v \<and> u \<noteq> [] \<and> token_to_id tk u = Some tid \<and> len = str_len u)"

definition no_miss :: "tokenizer \<Rightarrow> str \<Rightarrow> str \<Rightarrow> usize list \<Rightarrow> (usize \<times> token_id \<times> u32) option \<Rightarrow> bool" where
  "no_miss tk pre rest ends best =
     (best = None \<longrightarrow>
       (\<forall>u v. rest = u @ v \<longrightarrow> str_len pre + str_len u \<in> set ends \<longrightarrow> has_double_space u \<or> token_to_id tk u = None))"

lemma no_missD:
  "no_miss tk pre rest ends None \<Longrightarrow> rest = u @ v \<Longrightarrow> str_len pre + str_len u \<in> set ends \<Longrightarrow> \<not> has_double_space u \<Longrightarrow>
    token_to_id tk u = None"
  by (auto simp: no_miss_def)

lemma consistent_index_at:
  "vocab_consistent tk \<Longrightarrow> token_to_id tk w = Some tid \<Longrightarrow> \<exists>t. index_at (tk_tokens tk) (unat tid) = Ok t"
  unfolding vocab_consistent_def by (force simp: index_at_def get_token_def)

lemma greedy_best_sound:
  assumes voc: "vocab_consistent tk"
  shows "set ends \<subseteq> ends_of pre rest \<Longrightarrow> found_at tk rest best \<Longrightarrow>
    \<exists>best'. greedy_best tk (pre @ rest) (str_len pre) ends best = Ok best' \<and> found_at tk rest best' \<and>
      (best \<noteq> None \<longrightarrow> best' \<noteq> None) \<and> no_miss tk pre rest ends best'"
proof (induction ends arbitrary: best)
  case (Cons e ends)
  from Cons.prems(1) obtain u v where u: "rest = u @ v" "u \<noteq> []" "e = str_len pre + str_len u"
    by (auto simp: ends_of_def)
  have sl: "slice_range (pre @ rest) (str_len pre) e = (Ok u :: str tres)" unfolding u by simp
  have same: "u' = u" if "rest = u' @ v'" "str_len pre + str_len u' = e" for u' v'
    using that u str_len_le_prefix [of u v u' v'] by auto
  have sub: "set ends \<subseteq> ends_of pre rest" using Cons.prems(1) by simp
  show ?case
  proof (cases "has_double_space u \<or> token_to_id tk u = None")
    case True
    from Cons.IH [OF sub Cons.prems(2)] obtain best' where
      best': "greedy_best tk (pre @ rest) (str_len pre) ends best = Ok best'" "found_at tk rest best'"
        "best \<noteq> None \<longrightarrow> best' \<noteq> None" "no_miss tk pre rest ends best'" by blast
    have "no_miss tk pre rest (e # ends) best'"
      unfolding no_miss_def
    proof (intro impI allI)
      fix u' v'
      assume n: "best' = None" and u': "rest = u' @ v'" "str_len pre + str_len u' \<in> set (e # ends)"
      show "has_double_space u' \<or> token_to_id tk u' = None"
      proof (cases "str_len pre + str_len u' = e")
        case True
        from same [OF u'(1) this] \<open>has_double_space u \<or> token_to_id tk u = None\<close> show ?thesis by simp
      next
        case False
        with u'(2) have "str_len pre + str_len u' \<in> set ends" by simp
        from no_missD [OF best'(4) [unfolded n] u'(1) this] show ?thesis by metis
      qed
    qed
    moreover have "greedy_best tk (pre @ rest) (str_len pre) (e # ends) best = Ok best'"
      using True sl best'(1) by auto
    ultimately show ?thesis using best'(2,3) by blast
  next
    case False
    then obtain tid where tid: "token_to_id tk u = Some tid" by auto
    from consistent_index_at [OF voc tid] obtain t where t: "index_at (tk_tokens tk) (unat tid) = Ok t" by blast
    define b where "b = (case best of
        Some (best_len, bid, best_score) \<Rightarrow>
          if str_len u < best_len \<or> (str_len u = best_len \<and> f32_le (t_score t) best_score) then best
          else Some (str_len u, tid, t_score t)
      | None \<Rightarrow> Some (str_len u, tid, t_score t))"
    have "found_at tk rest b" using Cons.prems(2) u tid by (auto simp: b_def found_at_def split: option.splits)
    moreover have "b \<noteq> None" by (auto simp: b_def split: option.splits)
    moreover have "greedy_best tk (pre @ rest) (str_len pre) (e # ends) best = greedy_best tk (pre @ rest) (str_len pre) ends b"
      using sl False tid t u(3) by (simp add: b_def Let_def)
    moreover from Cons.IH [OF sub calculation(1)] obtain best' where
      best': "greedy_best tk (pre @ rest) (str_len pre) ends b = Ok best'" "found_at tk rest best'" "b \<noteq> None \<longrightarrow> best' \<noteq> None"
      by blast
    ultimately have "greedy_best tk (pre @ rest) (str_len pre) (e # ends) best = Ok best'" "best' \<noteq> None" by simp_all
    moreover have "no_miss tk pre rest (e # ends) best'" using calculation(2) unfolding no_miss_def by blast
    ultimately show ?thesis using best'(2) by blast
  qed
qed (simp add: no_miss_def)

lemma candidate_ends:
  assumes "rest \<noteq> []"
  shows "set (map (\<lambda>(i, _). str_len pre + i) (drop 1 (char_indices 0 rest)) @ [str_len (pre @ rest)]) \<subseteq> ends_of pre rest"
    and "str_len pre + len_utf8 (hd rest) \<in>
      set (map (\<lambda>(i, _). str_len pre + i) (drop 1 (char_indices 0 rest)) @ [str_len (pre @ rest)])"
proof -
  have "str_len pre + i \<in> ends_of pre rest" if "(i, c) \<in> set (drop 1 (char_indices 0 rest))" for i c
  proof -
    from that obtain k where k: "k < length (drop 1 (char_indices 0 rest))" "drop 1 (char_indices 0 rest) ! k = (i, c)"
      by (auto simp: in_set_conv_nth)
    then have "char_indices 0 rest ! Suc k = (i, c)" "Suc k < length rest" by (simp_all add: nth_drop)
    then have i: "i = str_len (take (Suc k) rest)" by (simp add: char_indices_nth)
    have "rest = take (Suc k) rest @ drop (Suc k) rest" "take (Suc k) rest \<noteq> []" using assms by auto
    with i show ?thesis unfolding ends_of_def by blast
  qed
  moreover have "str_len (pre @ rest) \<in> ends_of pre rest" using assms by (force simp: ends_of_def)
  ultimately show "set (map (\<lambda>(i, _). str_len pre + i) (drop 1 (char_indices 0 rest)) @ [str_len (pre @ rest)]) \<subseteq> ends_of pre rest"
    by auto
  obtain c r where rest: "rest = c # r" using assms by (cases rest) auto
  show "str_len pre + len_utf8 (hd rest) \<in>
      set (map (\<lambda>(i, _). str_len pre + i) (drop 1 (char_indices 0 rest)) @ [str_len (pre @ rest)])"
    unfolding rest by (cases r) auto
qed

lemma greedy_step:
  assumes voc: "vocab_consistent tk"
  shows "\<exists>best. greedy_best tk (pre @ c # r) (str_len pre)
      (map (\<lambda>(i, _). str_len pre + i) (drop 1 (char_indices 0 (c # r))) @ [str_len (pre @ c # r)]) None = Ok best \<and>
    found_at tk (c # r) best \<and> (best = None \<longrightarrow> token_to_id tk [c] = None)"
proof -
  let ?ends = "map (\<lambda>(i, _). str_len pre + i) (drop 1 (char_indices 0 (c # r))) @ [str_len (pre @ c # r)]"
  have "found_at tk (c # r) None" by (simp add: found_at_def)
  from greedy_best_sound [OF voc candidate_ends(1) this, of pre] obtain best where
    best: "greedy_best tk (pre @ c # r) (str_len pre) ?ends None = Ok best" "found_at tk (c # r) best"
      "no_miss tk pre (c # r) ?ends best"
    by blast
  have "str_len pre + str_len [c] \<in> set ?ends" using candidate_ends(2) [of "c # r" pre] by simp
  then have "token_to_id tk [c] = None" if "best = None"
    using no_missD [OF best(3) [unfolded that], of "[c]" r] by (simp del: str_len_simps)
  with best(1,2) show ?thesis by blast
qed

lemma find_char_at: "find (\<lambda>(i, _). i = k + str_len pre) (char_indices k (pre @ c # r)) = Some (k + str_len pre, c)"
proof (induction pre arbitrary: k)
  case (Cons d pre)
  from Cons [of "k + len_utf8 d"] show ?case by (simp add: add.assoc)
qed simp

definition well_cut :: "tokenizer \<Rightarrow> str \<Rightarrow> str list \<Rightarrow> bool" where
  "well_cut tk s pieces =
     (concat pieces = s \<and> (\<forall>w \<in> set pieces. w \<noteq> [] \<and> (token_to_id tk w \<noteq> None \<or> length w = 1)))"

lemma well_cut_Nil [simp]: "well_cut tk s [] \<longleftrightarrow> s = []"
  by (auto simp: well_cut_def)

lemma well_cut_append: "well_cut tk s ps \<Longrightarrow> well_cut tk t qs \<Longrightarrow> well_cut tk (s @ t) (ps @ qs)"
  by (auto simp: well_cut_def)

lemma well_cut_single: "w \<noteq> [] \<Longrightarrow> token_to_id tk w \<noteq> None \<or> length w = 1 \<Longrightarrow> well_cut tk w [w]"
  by (simp add: well_cut_def)

lemma greedy_loop_emits:
  assumes voc: "vocab_consistent tk"
  shows "\<exists>pieces. greedy_loop tk (pre @ r) (str_len pre) out = Some (emit tk pieces out) \<and> well_cut tk r pieces"
proof (induction r arbitrary: pre out rule: length_induct)
  case (1 r)
  show ?case
  proof (cases r)
    case Nil
    then have "greedy_loop tk (pre @ r) (str_len pre) out = Some (emit tk [] out) \<and> well_cut tk r []"
      by (subst greedy_loop.simps) simp
    then show ?thesis by blast
  next
    case (Cons c r1)
    have lt: "str_len pre < str_len (pre @ r)" unfolding Cons by simp
    have sl: "slice_from (pre @ r) (str_len pre) = (Ok r :: str tres)" by simp
    from greedy_step [OF voc, of pre c r1] obtain best where best:
      "greedy_best tk (pre @ r) (str_len pre)
        (map (\<lambda>(i, _). str_len pre + i) (drop 1 (char_indices 0 r)) @ [str_len (pre @ r)]) None = Ok best"
      "found_at tk r best" "best = None \<longrightarrow> token_to_id tk [c] = None" unfolding Cons by blast
    show ?thesis
    proof (cases best)
      case None
      with best(3) have tok: "token_to_id tk [c] = None" by simp
      have loop: "greedy_loop tk (pre @ r) (str_len pre) out =
          (case encode_unknown_symbol_bytes tk [c] out of
             Ok out' \<Rightarrow> greedy_loop tk (pre @ r) (str_len pre + len_utf8 c) out'
           | Err e \<Rightarrow> Some (Err e) | Panic \<Rightarrow> Some Panic)"
        using lt best(1) None find_char_at [of 0 pre c r1] Cons by (subst greedy_loop.simps) (simp add: sl)
      show ?thesis
      proof (cases "encode_unknown_symbol_bytes tk [c] out")
        case (Ok out1)
        from 1 [rule_format, of r1 "pre @ [c]" out1] Cons obtain ps where
          ps: "greedy_loop tk (pre @ r) (str_len pre + len_utf8 c) out1 = Some (emit tk ps out1)" "well_cut tk r1 ps" by auto
        with loop Ok tok have "greedy_loop tk (pre @ r) (str_len pre) out = Some (emit tk ([c] # ps) out)" by simp
        moreover have "well_cut tk r ([c] # ps)" using well_cut_append [OF well_cut_single [of "[c]"] ps(2)] Cons by simp
        ultimately show ?thesis by blast
      next
        case (Err e)
        have "well_cut tk r (map (\<lambda>c. [c]) r)" by (auto simp: well_cut_def concat_map_singleton)
        moreover have "greedy_loop tk (pre @ r) (str_len pre) out = Some (emit tk (map (\<lambda>c. [c]) r) out)"
          using loop Err tok Cons by simp
        ultimately show ?thesis by blast
      next
        case Panic
        then show ?thesis using push_byte_ids_cases [of tk "as_bytes [c]" out] by (auto simp: encode_unknown_symbol_bytes_def)
      qed
    next
      case (Some b)
      obtain len tid sc where b: "b = (len, tid, sc)" by (cases b) auto
      with best(2) Some obtain u v where u: "r = u @ v" "u \<noteq> []" "token_to_id tk u = Some tid" "len = str_len u"
        by (auto simp: found_at_def)
      have "greedy_loop tk (pre @ r) (str_len pre) out = greedy_loop tk (pre @ r) (str_len pre + str_len u) (out @ [tid])"
        using lt best(1) Some b u(4) by (subst greedy_loop.simps) (simp add: sl)
      moreover from 1 [rule_format, of v "pre @ u" "out @ [tid]"] u obtain ps where
        ps: "greedy_loop tk (pre @ r) (str_len pre + str_len u) (out @ [tid]) = Some (emit tk ps (out @ [tid]))" "well_cut tk v ps"
        by auto
      ultimately have "greedy_loop tk (pre @ r) (str_len pre) out = Some (emit tk (u # ps) out)" using u(3) by simp
      moreover have "well_cut tk r (u # ps)" using well_cut_append [OF well_cut_single [of u] ps(2)] u by simp
      ultimately show ?thesis by blast
    qed
  qed
qed

lemma encode_piece_greedy_emits:
  "vocab_consistent tk \<Longrightarrow> \<exists>pieces. encode_piece_greedy tk s = Some (emit tk pieces []) \<and> well_cut tk s pieces"
  using greedy_loop_emits [of tk "[]" s "[]"] by (simp add: encode_piece_greedy_def)

section \<open>Segments\<close>

lemma resolve_symbols_emits:
  assumes voc: "vocab_consistent tk"
  shows "[] \<notin> set symbols \<Longrightarrow> \<exists>pieces. resolve_symbols tk symbols unresolved out = Some (emit tk pieces out) \<and>
    well_cut tk (unresolved @ concat symbols) pieces"
proof (induction symbols arbitrary: unresolved out)
  case Nil
  from encode_piece_greedy_emits [OF voc, of unresolved] obtain ps where
    ps: "encode_piece_greedy tk unresolved = Some (emit tk ps [])" "well_cut tk unresolved ps" by blast
  show ?case
  proof (cases "unresolved = []")
    case True
    then have "resolve_symbols tk [] unresolved out = Some (emit tk [] out) \<and> well_cut tk (unresolved @ concat []) []" by simp
    then show ?thesis by blast
  next
    case False
    then have "resolve_symbols tk [] unresolved out = Some (emit tk ps out)"
      using ps(1) emit_out [of tk ps out "[]"] by simp
    with ps(2) show ?thesis by (intro exI [of _ ps]) simp
  qed
next
  case (Cons symbol symbols)
  then have ne: "symbol \<noteq> []" "[] \<notin> set symbols" by auto
  show ?case
  proof (cases "(bpe_ranks tk = [] \<and> has_double_space symbol) \<or> token_to_id tk symbol = None")
    case True
    then have "resolve_symbols tk (symbol # symbols) unresolved out = resolve_symbols tk symbols (unresolved @ symbol) out" by auto
    with Cons.IH [OF ne(2), of "unresolved @ symbol" out] show ?thesis by simp
  next
    case False
    then obtain tid where tid: "token_to_id tk symbol = Some tid" by auto
    from encode_piece_greedy_emits [OF voc, of unresolved] obtain ps where
      ps: "encode_piece_greedy tk unresolved = Some (emit tk ps [])" "well_cut tk unresolved ps" by blast
    have cut: "well_cut tk (unresolved @ concat (symbol # symbols)) (ps @ symbol # qs)" if "well_cut tk (concat symbols) qs" for qs
      using well_cut_append [OF ps(2) well_cut_append [OF well_cut_single that], of symbol] ne(1) tid by simp
    show ?thesis
    proof (cases "emit tk ps []")
      case (Ok ids)
      have "resolve_symbols tk (symbol # symbols) unresolved out = resolve_symbols tk symbols [] (out @ ids @ [tid])"
      proof (cases "unresolved = []")
        case True
        with ps(2) have "ps = []" by (cases ps) (auto simp: well_cut_def)
        with Ok True False tid show ?thesis by auto
      qed (use False tid ps(1) Ok in auto)
      moreover from Cons.IH [OF ne(2), of "[]" "out @ ids @ [tid]"] obtain qs where
        qs: "resolve_symbols tk symbols [] (out @ ids @ [tid]) = Some (emit tk qs (out @ ids @ [tid]))" "well_cut tk (concat symbols) qs"
        by auto
      moreover have "emit tk ps out = Ok (out @ ids)" using emit_out [of tk ps out "[]"] Ok by simp
      then have "emit tk (ps @ symbol # qs) out = emit tk qs (out @ ids @ [tid])" using tid by (simp add: emit_append)
      ultimately show ?thesis using cut [OF qs(2)] by metis
    next
      case (Err e)
      then have "unresolved \<noteq> []" using ps(2) by (cases ps) (auto simp: well_cut_def)
      with Err False tid ps(1) have r: "resolve_symbols tk (symbol # symbols) unresolved out = Some (Err e)" by auto
      let ?qs = "map (\<lambda>c. [c]) (concat symbols)"
      have "emit tk (ps @ symbol # ?qs) out = Err e" using emit_out [of tk ps out "[]"] Err by (simp add: emit_append)
      moreover have "well_cut tk (concat symbols) ?qs" by (auto simp: well_cut_def concat_map_singleton)
      ultimately show ?thesis using cut [of ?qs] r by metis
    next
      case Panic
      with emit_outcome [of tk "[]" ps] show ?thesis by (simp add: spm_outcome_def)
    qed
  qed
qed


lemma encode_spm_segment_emits:
  assumes voc: "vocab_consistent tk" and pick: "entry_queue pick"
  shows "\<exists>pieces. encode_spm_segment pick tk segment out = Some (emit tk pieces out) \<and> well_cut tk segment pieces"
proof (cases "segment = []")
  case True
  then have "encode_spm_segment pick tk segment out = Some (emit tk [] out) \<and> well_cut tk segment []"
    by (simp add: encode_spm_segment_def)
  then show ?thesis by blast
next
  case False
  show ?thesis
  proof (cases "bpe_ranks tk = []")
    case True
    from entry_queue.spm_segment_partition [OF pick voc, of segment out] obtain ps where
      ps: "encode_spm_segment_reference pick tk segment out = Some (emit tk ps out)" "concat ps = segment" "[] \<notin> set ps"
        "\<forall>w \<in> set ps. token_to_id tk w \<noteq> None \<or> length w = 1" by blast
    then have "well_cut tk segment ps" by (metis well_cut_def)
    with ps(1) True False show ?thesis by (auto simp: encode_spm_segment_def)
  next
    case ranks: False
    let ?cs = "map (\<lambda>ch. [ch]) segment"
    have "[] \<notin> set (merge_symbols (tk_registry tk) ?cs)" by (rule merge_symbols_nonempty) auto
    from resolve_symbols_emits [OF voc this, of "[]" out] show ?thesis
      using ranks False by (simp add: encode_spm_segment_def merge_symbols_concat concat_map_singleton)
  qed
qed

section \<open>Texts with special tokens\<close>

lemma dummy_prefix_loop_ends:
  assumes voc: "vocab_consistent tk"
  shows "\<exists>n. dummy_prefix_loop tk (pre @ r) (str_len pre) acc = Some (Ok n) \<and>
    ((\<forall>i. longest_control_token_at tk (pre @ r) i True = None) \<longrightarrow> n = acc @ r)"
proof (induction r arbitrary: pre acc rule: length_induct)
  case (1 r)
  show ?case
  proof (cases r)
    case Nil
    then show ?thesis by (subst dummy_prefix_loop.simps) simp
  next
    case (Cons c r1)
    have lt: "str_len pre < str_len (pre @ r)" unfolding Cons by simp
    show ?thesis
    proof (cases "longest_control_token_at tk (pre @ r) (str_len pre) True")
      case None
      have "dummy_prefix_loop tk (pre @ r) (str_len pre) acc = dummy_prefix_loop tk (pre @ r) (str_len pre + len_utf8 c) (acc @ [c])"
        using lt None Cons by (subst dummy_prefix_loop.simps) (simp add: first_char_def)
      with 1 [rule_format, of r1 "pre @ [c]" "acc @ [c]"] Cons show ?thesis by simp
    next
      case (Some p)
      obtain w len where p: "p = (w, len)" by force
      note w = longest_special [OF voc Some [unfolded p]]
      from w(3) obtain r' where r: "r = w @ r'" by blast
      have sl: "slice_from (pre @ r) (str_len pre + len) = (Ok r' :: str tres)"
        using slice_from_append [of "pre @ w" r'] by (simp add: r w(2))
      define acc' where "acc' = (if should_insert_dummy_after_control tk w r' (longest_control_token_at tk (pre @ r) (str_len pre + len) True \<noteq> None)
        then acc @ w @ [SPM_SPACE] else acc @ w)"
      have "dummy_prefix_loop tk (pre @ r) (str_len pre) acc = dummy_prefix_loop tk (pre @ r) (str_len pre + len) acc'"
        using lt Some p sl by (subst dummy_prefix_loop.simps) (simp add: Let_def acc'_def)
      moreover from 1 [rule_format, of r' "pre @ w" acc'] w(1) r obtain n
        where "dummy_prefix_loop tk (pre @ r) (str_len pre + len) acc' = Some (Ok n)" by (auto simp: w(2))
      ultimately show ?thesis using Some by auto
    qed
  qed
qed

lemma after_special_Ok:
  "\<exists>u v pending'. after_special tk (pre @ r) tok (str_len pre) pending = Ok (str_len (pre @ u), pending') \<and> r = u @ v"
proof -
  let ?P = "\<lambda>c. c = SPM_SPACE \<or> is_ascii_whitespace c"
  define u where "u = (if chat_control_marker_rstrips tk tok then takeWhile ?P r else [])"
  define v where "v = (if chat_control_marker_rstrips tk tok then dropWhile ?P r else r)"
  have r: "r = u @ v" by (simp add: u_def v_def)
  have "str_len r = str_len u + str_len v" unfolding r by simp
  moreover have "slice_from (pre @ r) (str_len (pre @ u)) = (Ok v :: str tres)"
    using slice_from_append [of "pre @ u" v] unfolding r by simp
  ultimately have "\<exists>pending'. after_special tk (pre @ r) tok (str_len pre) pending = Ok (str_len (pre @ u), pending')"
    by (auto simp: after_special_def Let_def u_def v_def split: if_splits)
  with r show ?thesis by blast
qed

lemma encode_piece_loop_ends:
  assumes voc: "vocab_consistent tk" and pick: "entry_queue pick"
  shows "\<exists>res. encode_piece_loop pick tk (pre @ r) ps (str_len pre) pending out = Some res \<and> spm_outcome tk out res"
proof (induction r arbitrary: pre pending out rule: length_induct)
  case (1 r)
  show ?case
  proof (cases "r = []")
    case True
    then show ?thesis by (subst encode_piece_loop.simps) (simp add: spm_outcome_def)
  next
    case False
    then have lt: "str_len pre < str_len (pre @ r)" by (simp add: neq0_conv [symmetric] del: neq0_conv)
    show ?thesis
    proof (cases "if ps then longest_control_token_at tk (pre @ r) (str_len pre) True else None")
      case (Some p)
      then have ps: ps and lc: "longest_control_token_at tk (pre @ r) (str_len pre) True = Some p" by (auto split: if_splits)
      obtain w len where p: "p = (w, len)" by force
      note w = longest_special [OF voc lc [unfolded p]]
      from w(3) obtain r1 where r: "r = w @ r1" by blast
      from w(4) obtain tid where tid: "token_to_id tk w = Some tid" by blast
      from after_special_Ok [of tk "pre @ w" r1 w pending] obtain u v pending' where
        af: "after_special tk (pre @ r) w (str_len pre + len) pending = Ok (str_len (pre @ w @ u), pending')" "r1 = u @ v"
        by (auto simp: r w(2))
      have "encode_piece_loop pick tk (pre @ r) ps (str_len pre) pending out =
          encode_piece_loop pick tk (pre @ r) ps (str_len (pre @ w @ u)) pending' (out @ [tid])"
        using lt ps lc p tid af(1) by (subst encode_piece_loop.simps) simp
      moreover from 1 [rule_format, of v "pre @ w @ u" pending' "out @ [tid]"] w(1) r af(2) obtain res where
        "encode_piece_loop pick tk (pre @ r) ps (str_len (pre @ w @ u)) pending' (out @ [tid]) = Some res"
        "spm_outcome tk (out @ [tid]) res" by auto
      ultimately show ?thesis using spm_outcome_step [OF adds_known_id [OF known_idsI(1) [OF tid]]] by metis
    next
      case None
      have "\<exists>u r'. r = u @ r' \<and> u \<noteq> [] \<and>
          (if ps then (case next_special_start tk (pre @ r) (str_len pre) True of Some e \<Rightarrow> e | None \<Rightarrow> str_len (pre @ r))
           else str_len (pre @ r)) = str_len pre + str_len u"
      proof (cases ps)
        case True
        with None have "longest_control_token_at tk (pre @ r) (str_len pre) True = None" by simp
        from next_special_cases [OF this False] True show ?thesis by (metis (full_types))
      next
        case no: False
        have "r = r @ [] \<and> r \<noteq> [] \<and> str_len (pre @ r) = str_len pre + str_len r" using False by simp
        with no show ?thesis by auto
      qed
      then obtain u r' where u: "r = u @ r'" "u \<noteq> []"
        "(if ps then (case next_special_start tk (pre @ r) (str_len pre) True of Some e \<Rightarrow> e | None \<Rightarrow> str_len (pre @ r))
           else str_len (pre @ r)) = str_len pre + str_len u" by blast
      have sl: "slice_range (pre @ r) (str_len pre) (str_len pre + str_len u) = (Ok u :: str tres)" unfolding u(1) by simp
      have lc: "(if ps then Option.bind (longest_control_token_at tk (pre @ r) (str_len pre) True)
            (\<lambda>(tok, len). map_option (\<lambda>tid. (tok, len, tid)) (token_to_id tk tok)) else None) = None"
        using None by (simp split: if_splits)
      from encode_spm_segment_emits [OF voc pick, of "if pending then SPM_SPACE # u else u" out] obtain pieces where
        seg: "encode_spm_segment pick tk (if pending then SPM_SPACE # u else u) out = Some (emit tk pieces out)" by blast
      have loop: "encode_piece_loop pick tk (pre @ r) ps (str_len pre) pending out =
          (case emit tk pieces out of
             Ok out' \<Rightarrow> encode_piece_loop pick tk (pre @ r) ps (str_len pre + str_len u) False out'
           | Err e \<Rightarrow> Some (Err e) | Panic \<Rightarrow> Some Panic)"
        using lt u(3) sl seg lc by (subst encode_piece_loop.simps) (simp add: Let_def split: outcome.splits)
      show ?thesis
      proof (cases "emit tk pieces out")
        case (Ok out1)
        from 1 [rule_format, of r' "pre @ u" False out1] u(1,2) obtain res where
          "encode_piece_loop pick tk (pre @ r) ps (str_len pre + str_len u) False out1 = Some res" "spm_outcome tk out1 res" by auto
        moreover have "adds_known tk out out1" using emit_outcome [of tk out pieces] Ok by (simp add: spm_outcome_def)
        ultimately show ?thesis using loop Ok spm_outcome_step by simp
      qed (use loop emit_outcome [of tk out pieces] in \<open>simp_all\<close>)
    qed
  qed
qed

lemma normalize_spm_text_ends:
  assumes voc: "vocab_consistent tk"
  shows "\<exists>n. normalize_spm_text tk s ps = Some (Ok n)"
  using dummy_prefix_loop_ends [OF voc, of "[]", simplified]
  by (auto simp: normalize_spm_text_def add_dummy_prefix_after_control_tokens_def Let_def)

lemma encode_spm_text_ends:
  assumes voc: "vocab_consistent tk" and pick: "entry_queue pick"
  shows "\<exists>res. encode_spm_text pick tk s ps = Some res \<and> spm_outcome tk [] res"
proof -
  from normalize_spm_text_ends [OF voc] obtain n where n: "normalize_spm_text tk s ps = Some (Ok n)" by blast
  show ?thesis
  proof (cases "n = []")
    case True
    with n show ?thesis by (simp add: encode_spm_text_def spm_outcome_def)
  next
    case False
    with n encode_piece_loop_ends [OF voc pick, of "[]" n ps False "[]"] show ?thesis
      by (simp add: encode_spm_text_def encode_piece_def)
  qed
qed


section \<open>Round trip\<close>

text \<open>A character can be encoded without the unknown token: it is in the vocabulary, or it is no U+2581 and each of
  its bytes has a byte token.\<close>

definition byte_token_ok :: "tokenizer \<Rightarrow> u8 \<Rightarrow> bool" where
  "byte_token_ok tk b =
     (\<exists>tid t. byte_token_to_id tk b = Some tid \<and> get_token tk tid = Some t \<and> parse_byte_token (t_text t) = Some b)"

definition char_covered :: "tokenizer \<Rightarrow> rust_char \<Rightarrow> bool" where
  "char_covered tk c = (in_vocab tk [c] \<or> (c \<noteq> SPM_SPACE \<and> (\<forall>b \<in> set (encode_utf8 c). byte_token_ok tk b)))"

definition no_specials_in :: "tokenizer \<Rightarrow> str \<Rightarrow> bool" where
  "no_specials_in tk s = (\<forall>t \<in> set (tk_tokens tk). eligible True t \<longrightarrow> \<not> sublist (t_text t) s)"

definition spaced :: "tokenizer \<Rightarrow> str \<Rightarrow> str" where
  "spaced tk s =
     (if s = [] then []
      else (if add_space_prefix (tk_config tk) then [SPM_SPACE] else []) @ map (\<lambda>ch. if ch = 32 then SPM_SPACE else ch) s)"

lemma longest_control_token_at_None:
  assumes "vocab_consistent tk" "no_specials_in tk s"
  shows "longest_control_token_at tk s i True = None"
proof (rule ccontr)
  assume "longest_control_token_at tk s i True \<noteq> None"
  then obtain w len where some: "longest_control_token_at tk s i True = Some (w, len)" by auto
  then have "longest_at (specials_index_of tk) s i True \<noteq> None" by (simp add: longest_control_token_at_def)
  then have "is_char_boundary s i" using longest_at_may_start by blast
  then obtain pre r where s: "s = pre @ r" "i = str_len pre" by (auto simp: is_char_boundary_def get_from_Some_iff)
  from longest_special [OF assms(1) some [unfolded s]] obtain r' t where
    "r = w @ r'" "t \<in> set (tk_tokens tk)" "eligible True t" "t_text t = w" by blast
  with assms(2) s(1) show False by (force simp: no_specials_in_def sublist_def)
qed

lemma normalize_spm_text_plain:
  assumes "vocab_consistent tk" "no_specials_in tk (spaced tk s)"
  shows "normalize_spm_text tk s False = Some (Ok (spaced tk s))"
proof -
  have "longest_control_token_at tk (spaced tk s) i True = None" for i
    using assms by (rule longest_control_token_at_None)
  with dummy_prefix_loop_ends [OF assms(1), of "[]" "spaced tk s" "[]"]
  show ?thesis
    by (auto simp: normalize_spm_text_def add_dummy_prefix_after_control_tokens_def spaced_def Let_def)
qed

lemma decode_byte_ids:
  "\<forall>b \<in> set bs. byte_token_ok tk b \<Longrightarrow>
    decode_spm_loop tk False (map (\<lambda>b. the (byte_token_to_id tk b)) bs @ ids) p shown = decode_spm_loop tk False ids (p @ bs) shown"
proof (induction bs arbitrary: p)
  case (Cons b bs)
  then obtain tid t where "byte_token_to_id tk b = Some tid" "get_token tk tid = Some t" "parse_byte_token (t_text t) = Some b"
    by (auto simp: byte_token_ok_def)
  with Cons show ?case by simp
qed simp

lemma push_byte_ids_Ok:
  "\<forall>b \<in> set bs. byte_token_ok tk b \<Longrightarrow> push_byte_ids tk bs out = Ok (out @ map (\<lambda>b. the (byte_token_to_id tk b)) bs)"
  by (induction bs arbitrary: out) (auto simp: byte_token_ok_def)

lemma spm_visible_simps [simp]: "spm_visible [] = []" "spm_visible (s @ t) = spm_visible s @ spm_visible t"
  by (simp_all add: spm_visible_def)

lemma emit_decodes:
  assumes voc: "vocab_consistent tk"
  shows "\<forall>w \<in> set pieces. w \<noteq> [] \<and> (token_to_id tk w \<noteq> None \<or> length w = 1) \<and> parse_byte_token w = None \<Longrightarrow>
    \<forall>c \<in> set (concat pieces). char_covered tk c \<and> is_scalar c \<Longrightarrow> list_all is_scalar u \<Longrightarrow>
    \<exists>ids. emit tk pieces out = Ok (out @ ids) \<and>
      decode_spm_loop tk False ids (as_bytes u) shown = Ok (shown @ u @ spm_visible (concat pieces))"
proof (induction pieces arbitrary: out u shown)
  case Nil
  then show ?case by (simp add: flush_as_bytes)
next
  case (Cons w ws)
  have rest: "\<forall>w \<in> set ws. w \<noteq> [] \<and> (token_to_id tk w \<noteq> None \<or> length w = 1) \<and> parse_byte_token w = None"
    "\<forall>c \<in> set (concat ws). char_covered tk c \<and> is_scalar c" using Cons.prems by auto
  show ?case
  proof (cases "token_to_id tk w")
    case (Some tid)
    then obtain t where t: "get_token tk tid = Some t" "t_text t = w" using voc unfolding vocab_consistent_def by blast
    from Cons.IH [OF rest, of "[]" "out @ [tid]" "shown @ u @ spm_visible w"] obtain ids where
      ids: "emit tk ws (out @ [tid]) = Ok ((out @ [tid]) @ ids)"
        "decode_spm_loop tk False ids [] (shown @ u @ spm_visible w) = Ok ((shown @ u @ spm_visible w) @ spm_visible (concat ws))" by auto
    have "decode_spm_loop tk False (tid # ids) (as_bytes u) shown = Ok (shown @ u @ spm_visible (concat (w # ws)))"
      using t Cons.prems(1,3) ids(2) by (simp add: flush_as_bytes)
    with ids(1) Some show ?thesis by (intro exI [of _ "tid # ids"]) simp
  next
    case None
    then obtain c where w: "w = [c]" using Cons.prems(1) by (auto simp: length_Suc_conv)
    have c: "c \<noteq> SPM_SPACE" "\<forall>b \<in> set (encode_utf8 c). byte_token_ok tk b" "is_scalar c"
      using Cons.prems(2) None w by (auto simp: char_covered_def in_vocab_def)
    let ?b = "map (\<lambda>b. the (byte_token_to_id tk b)) (encode_utf8 c)"
    have "list_all is_scalar (u @ [c])" using Cons.prems(3) c(3) by simp
    from Cons.IH [OF rest this, of "out @ ?b" shown] obtain ids where
      ids: "emit tk ws (out @ ?b) = Ok ((out @ ?b) @ ids)"
        "decode_spm_loop tk False ids (as_bytes (u @ [c])) shown = Ok (shown @ (u @ [c]) @ spm_visible (concat ws))" by blast
    have "emit tk (w # ws) out = Ok (out @ ?b @ ids)"
      using None ids(1) push_byte_ids_Ok [OF c(2), of out] by (simp add: w encode_unknown_symbol_bytes_def)
    moreover have "decode_spm_loop tk False (?b @ ids) (as_bytes u) shown = Ok (shown @ u @ spm_visible (concat (w # ws)))"
      using decode_byte_ids [OF c(2), of ids "as_bytes u" shown] ids(2) c(1) by (simp add: w spm_visible_def)
    ultimately show ?thesis by blast
  qed
qed

lemma piece_not_byte:
  assumes "concat pieces = s" "w \<in> set pieces" "\<not> sublist [60, 48, 120] s"
  shows "parse_byte_token w = None"
proof (rule ccontr)
  assume "parse_byte_token w \<noteq> None"
  then have "starts_with w [60, 48, 120]"
    by (auto simp: parse_byte_token_def strip_prefix_def bind_eq_Some_conv split: if_splits)
  then obtain r where "w = [60, 48, 120] @ r" by (auto simp: starts_with_iff)
  moreover from assms(2) obtain xs ys where "pieces = xs @ w # ys" by (auto simp: in_set_conv_decomp)
  ultimately have "s = concat xs @ [60, 48, 120] @ (r @ concat ys)" using assms(1) by simp
  with assms(3) show False unfolding sublist_def by blast
qed

lemma map_split_middle:
  assumes "map f s = x @ y @ z"
  obtains a b c where "s = a @ b @ c" "map f b = y"
  using assms that by (metis map_eq_append_conv)

lemma no_byte_literal_spaced:
  assumes "\<not> sublist [60, 48, 120] s"
  shows "\<not> sublist [60, 48, 120] (spaced tk s)"
proof
  assume "sublist [60, 48, 120] (spaced tk s)"
  then obtain ps ss where eq: "spaced tk s = ps @ [60, 48, 120] @ ss" by (auto simp: sublist_def)
  let ?m = "\<lambda>ch. if ch = 32 then SPM_SPACE else ch"
  have unmap: "?m c = d \<Longrightarrow> d < 256 \<Longrightarrow> c = d" for c d by (simp add: SPM_SPACE_def split: if_splits)
  have "\<exists>qs. map ?m s = qs @ [60, 48, 120] @ ss"
  proof (cases "s \<noteq> [] \<and> add_space_prefix (tk_config tk)")
    case True
    with eq have "SPM_SPACE # map ?m s = ps @ [60, 48, 120] @ ss" by (simp add: spaced_def)
    then show ?thesis by (cases ps) (auto simp: SPM_SPACE_def)
  qed (use eq in \<open>auto simp: spaced_def split: if_splits\<close>)
  then obtain qs where "map ?m s = qs @ [60, 48, 120] @ ss" by blast
  then obtain xs bs ys where s: "s = xs @ bs @ ys" "map ?m bs = [60, 48, 120]" by (rule map_split_middle)
  have "length bs = 3" using arg_cong [OF s(2), of length] by simp
  moreover have "bs ! i = [60, 48, 120] ! i" if "i < 3" for i
    using unmap [of "bs ! i" "[60, 48, 120] ! i"] that arg_cong [OF s(2), of "\<lambda>l. l ! i"] calculation
    by (simp add: nth_Cons' del: list.map)
  ultimately have "bs = [60, 48, 120]" by (intro nth_equalityI) simp_all
  with s(1) assms show False unfolding sublist_def by blast
qed

lemma encode_piece_plain:
  assumes voc: "vocab_consistent tk" and pick: "entry_queue pick" and n: "n \<noteq> []"
  shows "\<exists>pieces. encode_piece pick tk n False = Some (emit tk pieces []) \<and> well_cut tk n pieces"
proof -
  from encode_spm_segment_emits [OF voc pick, of n "[]"] obtain pieces where
    seg: "encode_spm_segment pick tk n [] = Some (emit tk pieces [])" "well_cut tk n pieces" by blast
  have sl: "slice_range n 0 (str_len n) = (Ok n :: str tres)" using slice_range_append [of "[]" n "[]"] by simp
  have stop: "encode_piece_loop pick tk n False (str_len n) False out = Some (Ok out)" for out
    by (subst encode_piece_loop.simps) simp
  have "encode_piece pick tk n False = Some (emit tk pieces [])"
    unfolding encode_piece_def using n seg(1) sl
    by (subst encode_piece_loop.simps) (simp add: stop Let_def split: outcome.splits)
  with seg(2) show ?thesis by blast
qed

lemma spm_decode_encode_rx:
  assumes voc: "vocab_consistent tk" and pick: "entry_queue pick" and cov: "\<forall>c \<in> set (spaced tk s). char_covered tk c"
    and plain: "list_all is_scalar s" "SPM_SPACE \<notin> set s" "\<not> sublist [60, 48, 120] s" "no_specials_in tk (spaced tk s)"
  shows "\<exists>ids. encode_spm_text pick tk s False = Some (Ok ids) \<and> decode_spm tk ids False = Ok (spm_visible (spaced tk s))"
proof (cases "s = []")
  case True
  then show ?thesis by (simp add: encode_spm_text_def normalize_spm_text_def spaced_def decode_spm_def flush_bytes_def)
next
  case False
  let ?n = "spaced tk s"
  have n: "?n \<noteq> []" using False by (simp add: spaced_def)
  from encode_piece_plain [OF voc pick n] obtain pieces where
    ps: "encode_piece pick tk ?n False = Some (emit tk pieces [])" "well_cut tk ?n pieces" by blast
  have cut: "concat pieces = ?n" "\<forall>w \<in> set pieces. w \<noteq> [] \<and> (token_to_id tk w \<noteq> None \<or> length w = 1)"
    using ps(2) by (auto simp: well_cut_def)
  have "\<forall>c \<in> set (concat pieces). char_covered tk c \<and> is_scalar c"
    using cov plain(1) unfolding cut(1) by (auto simp: spaced_def list_all_iff is_scalar_def SPM_SPACE_def split: if_splits)
  moreover have "\<forall>w \<in> set pieces. w \<noteq> [] \<and> (token_to_id tk w \<noteq> None \<or> length w = 1) \<and> parse_byte_token w = None"
    using cut(2) piece_not_byte [OF cut(1) _ no_byte_literal_spaced [OF plain(3)]] by blast
  ultimately obtain ids where ids: "emit tk pieces [] = Ok ([] @ ids)"
    "decode_spm_loop tk False ids (as_bytes []) [] = Ok ([] @ [] @ spm_visible (concat pieces))"
    using emit_decodes [OF voc, of pieces "[]" "[]" "[]"] by auto
  have "encode_spm_text pick tk s False = Some (Ok ids)"
    using normalize_spm_text_plain [OF voc plain(4)] n ps(1) ids(1) by (simp add: encode_spm_text_def)
  with ids(2) cut(1) show ?thesis by (simp add: decode_spm_def)
qed

lemma spm_visible_spaced:
  "SPM_SPACE \<notin> set s \<Longrightarrow> spm_visible (spaced tk s) = (if s \<noteq> [] \<and> add_space_prefix (tk_config tk) then 32 # s else s)"
  by (auto simp: spm_visible_def spaced_def map_idI intro!: map_idI)


text \<open>C18. Decoding what the SentencePiece path encoded gives back the text, with the space of the dummy
  prefix in front where the configuration asks for one: for the score-driven session and the rank-driven path, every order
  of the queue, and every text whose characters have tokens or byte tokens, as long as it holds no U+2581, no spelling
  \<open><0x\<close> of a byte token and no special token. Characters that were split into byte tokens are put together
  again.\<close>

theorem spm_decode_encode:
  assumes "vocab_consistent tk" "entry_queue pick" "\<forall>c \<in> set (spaced tk s). char_covered tk c"
    and "list_all is_scalar s" "SPM_SPACE \<notin> set s" "\<not> sublist [60, 48, 120] s" "no_specials_in tk (spaced tk s)"
  shows "\<exists>ids. encode_spm_text pick tk s False = Some (Ok ids) \<and>
    decode_spm tk ids False = Ok (if s \<noteq> [] \<and> add_space_prefix (tk_config tk) then 32 # s else s)"
  using spm_decode_encode_rx [OF assms] spm_visible_spaced [OF assms(5)] by simp

definition spm_demo :: tokenizer where
  "spm_demo =
     (tokenizer_of [(lit ''a'', Normal), ([SPM_SPACE], Normal), ([SPM_SPACE, 97], Normal), (lit ''<0xC3>'', Byte),
        (lit ''<0xA9>'', Byte), (lit ''<s>'', Control)] [])
     \<lparr>tk_model := LlamaSpm, byte_token_to_id := (\<lambda>b. if b = 0xC3 then Some 3 else if b = 0xA9 then Some 4 else None),
      tk_config := \<lparr>add_bos = False, add_eos = False, add_sep = False, add_space_prefix = True, remove_extra_whitespaces = False\<rparr>\<rparr>"

lemma vocab_consistent_update:
  "vocab_consistent (tk\<lparr>tk_model := m, byte_token_to_id := f, tk_config := c\<rparr>) = vocab_consistent tk"
  by (cases "tk_specials_index tk") (simp_all add: vocab_consistent_def get_token_def specials_index_of_def)

lemma vocab_consistent_spm_demo: "vocab_consistent spm_demo"
  unfolding spm_demo_def vocab_consistent_update by (rule vocab_consistent_of) simp

theorem spm_decode_encode_witness:
  "encode_spm_text greatest_entry spm_demo [97, 32, 233] False = Some (Ok [2, 1, 3, 4]) \<and>
   decode_spm spm_demo [2, 1, 3, 4] False = Ok [32, 97, 32, 233]"
proof -
  have run: "encode_spm_text greatest_entry spm_demo [97, 32, 233] False = Some (Ok [2, 1, 3, 4])" by code_simp
  have spaced: "spaced spm_demo [97, 32, 233] = [SPM_SPACE, 97, SPM_SPACE, 233]" by code_simp
  have voc: "token_to_id spm_demo [SPM_SPACE] = Some 1" "token_to_id spm_demo [97] = Some 0" by code_simp+
  have bytes: "byte_token_to_id spm_demo 0xC3 = Some 3" "byte_token_to_id spm_demo 0xA9 = Some 4"
    "map_option (\<lambda>t. parse_byte_token (t_text t)) (get_token spm_demo 3) = Some (Some 0xC3)"
    "map_option (\<lambda>t. parse_byte_token (t_text t)) (get_token spm_demo 4) = Some (Some 0xA9)" "encode_utf8 233 = [0xC3, 0xA9]"
    by code_simp+
  have "char_covered spm_demo 233" using bytes by (auto simp: char_covered_def byte_token_ok_def SPM_SPACE_def)
  with voc have "\<forall>c \<in> set (spaced spm_demo [97, 32, 233]). char_covered spm_demo c"
    by (auto simp: spaced char_covered_def in_vocab_def)
  moreover have "list_all is_scalar [97, 32, 233]" "SPM_SPACE \<notin> set [97, 32, 233]" by (simp_all add: is_scalar_def SPM_SPACE_def)
  moreover have "\<not> sublist [60, 48, 120] [97, 32, 233 :: nat]" by (simp add: sublist_Cons_right)
  moreover have "no_specials_in spm_demo (spaced spm_demo [97, 32, 233])"
    unfolding spaced by (auto simp: no_specials_in_def spm_demo_def tokenizer_of_def tokens_of_def enumerate_eq_zip upt_rec
        eligible_def lit_def sublist_Cons_right SPM_SPACE_def)
  moreover have "add_space_prefix (tk_config spm_demo)" by (simp add: spm_demo_def)
  ultimately show ?thesis
    using spm_decode_encode [OF vocab_consistent_spm_demo greatest.entry_queue_axioms, of "[97, 32, 233]"] run by auto
qed

end
