(* ===== verification/Bpe_Regex.thy ===== *)
theory Bpe_Regex
  imports Bpe_Segments
begin

text \<open>
  The regular expressions that the comments of \<open>src/src/tokenizer/mod.rs\<close> give for the
  pre-tokenizers, with the leftmost-first backtracking semantics of the engines they are written
  for, and the proof that the hand-written splitters implement them.

  A regular expression yields the lengths of all its matches at the start of a string in the order
  in which a backtracking engine tries them; the first one counts. \<open>rx_split\<close> cuts a string into
  consecutive matches and is \<open>None\<close> if some rest does not match. The classes are parameters, so the
  equivalence says what the splitters do with the classes they really use.
\<close>

section \<open>Backtracking regular expressions\<close>

datatype rx =
    Word "(rust_char \<Rightarrow> bool) list"
  | Rep nat "nat option" "rust_char \<Rightarrow> bool"
  | NotAhead "rust_char \<Rightarrow> bool"
  | Opt rx
  | Seq rx rx
  | Alt rx rx

fun word_matches :: "(rust_char \<Rightarrow> bool) list \<Rightarrow> str \<Rightarrow> bool" where
  "word_matches [] s = True"
| "word_matches (p # ps) [] = False"
| "word_matches (p # ps) (c # s) = (p c \<and> word_matches ps s)"

fun rx_matches :: "rx \<Rightarrow> str \<Rightarrow> nat list" where
  "rx_matches (Word ps) s = (if word_matches ps s then [length ps] else [])"
| "rx_matches (Rep lo hi p) s =
     (let run = length (takeWhile p s); top = (case hi of None \<Rightarrow> run | Some m \<Rightarrow> min m run)
      in rev [lo..<Suc top])"
| "rx_matches (NotAhead p) s = (case s of c # _ \<Rightarrow> if p c then [] else [0] | [] \<Rightarrow> [0])"
| "rx_matches (Opt r) s = rx_matches r s @ [0]"
| "rx_matches (Seq a b) s = concat (map (\<lambda>n. map ((+) n) (rx_matches b (drop n s))) (rx_matches a s))"
| "rx_matches (Alt a b) s = rx_matches a s @ rx_matches b s"

definition head_opt :: "'a list \<Rightarrow> 'a option" where
  "head_opt xs = (case xs of [] \<Rightarrow> None | x # _ \<Rightarrow> Some x)"

definition rx_first :: "rx \<Rightarrow> str \<Rightarrow> nat option" where
  "rx_first r s = head_opt (rx_matches r s)"

function rx_split :: "rx \<Rightarrow> str \<Rightarrow> str list option" where
  "rx_split r s =
     (if s = [] then Some []
      else case rx_first r s of
             None \<Rightarrow> None
           | Some n \<Rightarrow> if n = 0 then None else map_option ((#) (take n s)) (rx_split r (drop n s)))"
  by pat_completeness auto
termination by (relation "measure (\<lambda>(_, s). length s)") auto

declare rx_split.simps [simp del]

text \<open>The expressions of the source comments. \<open>contraction_rx\<close> is
  \<open>'s|'t|'re|'ve|'m|'ll|'d\<close> with each literal character read as a class.\<close>

fun alts :: "rx list \<Rightarrow> rx" where
  "alts [r] = r"
| "alts (r # rs) = Alt r (alts rs)"
| "alts [] = Rep 1 (Some 0) (\<lambda>_. False)"

definition contraction_rx :: "(rust_char \<Rightarrow> rust_char \<Rightarrow> bool) \<Rightarrow> rx" where
  "contraction_rx same = alts (map (\<lambda>w. Word (map same w)) CONTRACTIONS)"

definition ignoring_ascii_case :: "rust_char \<Rightarrow> rust_char \<Rightarrow> bool" where
  "ignoring_ascii_case a b = (to_ascii_lowercase b = to_ascii_lowercase a)"

definition whitespace_rx :: rx where
  "whitespace_rx =
     Alt (Seq (Rep 0 None is_whitespace) (Rep 1 None is_newline))
      (Alt (Seq (Rep 1 None is_whitespace) (NotAhead (\<lambda>c. \<not> is_whitespace c)))
        (Rep 1 None is_whitespace))"

definition punctuation_rx ::
  "(rust_char \<Rightarrow> bool) \<Rightarrow> (rust_char \<Rightarrow> bool) \<Rightarrow> (rust_char \<Rightarrow> bool) \<Rightarrow> rx" where
  "punctuation_rx letter number tail =
     Seq (Opt (Word [\<lambda>c. c = 32]))
      (Seq (Rep 1 None (\<lambda>c. \<not> is_whitespace c \<and> \<not> letter c \<and> \<not> number c)) (Rep 0 None tail))"

definition word_prefix_rx :: "(rust_char \<Rightarrow> bool) \<Rightarrow> (rust_char \<Rightarrow> bool) \<Rightarrow> rx" where
  "word_prefix_rx letter number = Opt (Word [\<lambda>c. c \<noteq> 13 \<and> c \<noteq> 10 \<and> \<not> letter c \<and> \<not> number c])"

text \<open>\<open>(?i:'s|..)|[^\r\n\p{L}\p{N}]?\p{L}+|\p{N}{1,N}| ?[^\s\p{L}\p{N}]+[\r\n]*|\s*[\r\n]+|\s+(?!\S)|\s+\<close>\<close>

definition llama_bpe_rx :: "(rust_char \<Rightarrow> bool) \<Rightarrow> (rust_char \<Rightarrow> bool) \<Rightarrow> usize \<Rightarrow> rx" where
  "llama_bpe_rx letter number digit_group_max =
     alts [contraction_rx ignoring_ascii_case,
           Seq (word_prefix_rx letter number) (Rep 1 None letter),
           Rep 1 (Some digit_group_max) number,
           punctuation_rx letter number is_newline,
           whitespace_rx]"

text \<open>The case-run grammar \<open>prefix? UPPER* LOWER+ | prefix? UPPER+ LOWER*\<close> of GPT-4o and Tekken, each
  with the optional contraction of GPT-4o.\<close>

definition gpt4o_rx ::
  "(rust_char \<Rightarrow> bool) \<Rightarrow> (rust_char \<Rightarrow> bool) \<Rightarrow> (rust_char \<Rightarrow> bool) \<Rightarrow> (rust_char \<Rightarrow> bool) \<Rightarrow> usize \<Rightarrow> bool \<Rightarrow> rx" where
  "gpt4o_rx letter upper lower number digit_group_max contraction =
     (let tail = (if contraction then Opt (contraction_rx ignoring_ascii_case) else Word []) in
      alts [Seq (word_prefix_rx letter number) (Seq (Seq (Rep 0 None upper) (Rep 1 None lower)) tail),
            Seq (word_prefix_rx letter number) (Seq (Seq (Rep 1 None upper) (Rep 0 None lower)) tail),
            Rep 1 (Some digit_group_max) number,
            punctuation_rx letter number (\<lambda>c. c = 13 \<or> c = 10 \<or> c = 47),
            whitespace_rx])"

text \<open>The second pass of SmolLM and Command R:
  \<open>'s|..| ?\p{L}+| ?\p{N}+| ?[^\s\p{L}\p{N}]+|\s+(?!\S)\<close> and the fallback \<open>\s+\<close>.\<close>

definition smollm_rx :: "(rust_char \<Rightarrow> bool) \<Rightarrow> (rust_char \<Rightarrow> bool) \<Rightarrow> rx" where
  "smollm_rx letter number =
     alts [contraction_rx (=),
           Seq (Opt (Word [\<lambda>c. c = 32])) (Rep 1 None letter),
           Seq (Opt (Word [\<lambda>c. c = 32])) (Rep 1 None number),
           Seq (Opt (Word [\<lambda>c. c = 32])) (Rep 1 None (\<lambda>c. \<not> is_whitespace c \<and> \<not> letter c \<and> \<not> number c)),
           Alt (Seq (Rep 1 None is_whitespace) (NotAhead (\<lambda>c. \<not> is_whitespace c))) (Rep 1 None is_whitespace)]"

text \<open>The first pass, \<open>\p{N}\<close>, isolates every number; the second runs on each piece.\<close>

function isolate :: "(rust_char \<Rightarrow> bool) \<Rightarrow> str \<Rightarrow> str list" where
  "isolate p s =
     (let u = takeWhile (\<lambda>c. \<not> p c) s in
      (if u = [] then [] else [u]) @
      (case dropWhile (\<lambda>c. \<not> p c) s of [] \<Rightarrow> [] | c # r \<Rightarrow> [c] # isolate p r))"
  by pat_completeness auto
termination
proof (relation "measure (\<lambda>(_, s). length s)")
  fix p and s :: str and u c r
  assume "dropWhile (\<lambda>c. \<not> p c) s = c # r"
  then have "length r < length s" using length_dropWhile_le [of "\<lambda>c. \<not> p c" s] by simp
  then show "((p, r), (p, s)) \<in> measure (\<lambda>(_, s). length s)" by simp
qed simp

declare isolate.simps [simp del]

fun split_all :: "rx \<Rightarrow> str list \<Rightarrow> str list option" where
  "split_all r [] = Some []"
| "split_all r (p # ps) =
     (case rx_split r p of None \<Rightarrow> None | Some segments \<Rightarrow> map_option ((@) segments) (split_all r ps))"

text \<open>The Unicode data of the ASCII characters, for the examples.\<close>

definition ascii_data :: unicode_data where
  "ascii_data =
     \<lparr>ud_alphabetic = (\<lambda>c. is_ascii_lowercase c \<or> is_ascii_uppercase c), ud_numeric = (\<lambda>c. 48 \<le> c \<and> c \<le> 57),
      ud_category = (\<lambda>c. if is_ascii_lowercase c then LowercaseLetter else if is_ascii_uppercase c then UppercaseLetter
        else if 48 \<le> c \<and> c \<le> 57 then DecimalNumber else if c = 32 then SpaceSeparator
        else if c < 32 then Control_Cc else OtherPunctuation)\<rparr>"

section \<open>First matches\<close>

lemma head_opt_simps [simp]: "head_opt [] = None" "head_opt (x # xs) = Some x"
  by (simp_all add: head_opt_def)

lemma head_opt_append: "head_opt (xs @ ys) = (case head_opt xs of Some x \<Rightarrow> Some x | None \<Rightarrow> head_opt ys)"
  by (cases xs) simp_all

lemma head_opt_map: "head_opt (map f xs) = map_option f (head_opt xs)"
  by (cases xs) simp_all

lemma head_opt_concat:
  "head_opt (concat (map f xs)) = find_map (\<lambda>x. head_opt (f x)) xs"
  by (induction xs) (simp_all add: head_opt_append split: option.splits)

lemma rx_first_Alt: "rx_first (Alt a b) s = (case rx_first a s of Some n \<Rightarrow> Some n | None \<Rightarrow> rx_first b s)"
  by (simp add: rx_first_def head_opt_append split: option.splits)

lemma rx_first_Word: "rx_first (Word ps) s = (if word_matches ps s then Some (length ps) else None)"
  by (simp add: rx_first_def)

lemma rx_first_Opt: "rx_first (Opt r) s = (case rx_first r s of Some n \<Rightarrow> Some n | None \<Rightarrow> Some 0)"
  by (simp add: rx_first_def head_opt_append split: option.splits)

lemma rx_first_NotAhead: "rx_first (NotAhead p) s = (case s of c # _ \<Rightarrow> if p c then None else Some 0 | [] \<Rightarrow> Some 0)"
  by (simp add: rx_first_def split: list.splits)

lemma rx_first_Rep:
  "rx_first (Rep lo hi p) s =
     (let run = length (takeWhile p s); top = (case hi of None \<Rightarrow> run | Some m \<Rightarrow> min m run)
      in if lo \<le> top then Some top else None)"
  by (auto simp: rx_first_def Let_def split: option.splits)

lemma rx_first_Seq:
  "rx_first (Seq a b) s = find_map (\<lambda>n. map_option ((+) n) (rx_first b (drop n s))) (rx_matches a s)"
  by (simp add: rx_first_def head_opt_concat head_opt_map)

lemma find_map_append: "find_map f (xs @ ys) = (case find_map f xs of Some y \<Rightarrow> Some y | None \<Rightarrow> find_map f ys)"
  by (induction xs) (simp_all split: option.splits)

lemma find_map_map: "find_map f (map g xs) = find_map (f \<circ> g) xs"
  by (induction xs) (simp_all split: option.splits)

lemma find_map_option: "find_map (\<lambda>x. map_option g (f x)) xs = map_option g (find_map f xs)"
  by (induction xs) (simp_all split: option.splits)

lemma rx_first_Seq_Some:
  "rx_first a s = Some n \<Longrightarrow> rx_first b (drop n s) = Some m \<Longrightarrow> rx_first (Seq a b) s = Some (n + m)"
  unfolding rx_first_Seq by (cases "rx_matches a s") (simp_all add: rx_first_def)

lemma rx_first_Seq_None: "rx_first a s = None \<Longrightarrow> rx_first (Seq a b) s = None"
  unfolding rx_first_Seq by (cases "rx_matches a s") (simp_all add: rx_first_def)

lemma rx_first_Seq_Opt_Word:
  "rx_first (Seq (Opt (Word [q])) b) (c # s) =
     (if q c then (case rx_first b s of Some n \<Rightarrow> Some (Suc n) | None \<Rightarrow> rx_first b (c # s)) else rx_first b (c # s))"
  unfolding rx_first_Seq by (auto split: option.splits)

text \<open>A greedy star followed by something: peel off the first character.\<close>

lemma rx_matches_star_Cons:
  "p c \<Longrightarrow> rx_matches (Rep 0 None p) (c # s) = map Suc (rx_matches (Rep 0 None p) s) @ [0]"
  by (simp add: Let_def upt_rec [of 0] map_Suc_upt [symmetric] rev_map del: upt_Suc)

lemma rx_matches_plus_Cons:
  "p c \<Longrightarrow> rx_matches (Rep 1 None p) (c # s) = map Suc (rx_matches (Rep 0 None p) s)"
  by (simp add: Let_def map_Suc_upt [symmetric] rev_map del: upt_Suc)

lemma behind_Suc:
  "(\<lambda>n. map_option ((+) n) (rx_first b (drop n (c # s)))) \<circ> Suc =
     (\<lambda>n. map_option Suc (map_option ((+) n) (rx_first b (drop n s))))"
proof
  fix n
  show "((\<lambda>n. map_option ((+) n) (rx_first b (drop n (c # s)))) \<circ> Suc) n =
      map_option Suc (map_option ((+) n) (rx_first b (drop n s)))"
    by (cases "rx_first b (drop n s)") simp_all
qed

lemma rx_first_star_Seq:
  "rx_first (Seq (Rep 0 None p) b) (c # s) =
     (if p c then (case rx_first (Seq (Rep 0 None p) b) s of Some n \<Rightarrow> Some (Suc n) | None \<Rightarrow> rx_first b (c # s))
      else rx_first b (c # s))"
proof (cases "p c")
  case True
  then show ?thesis
    unfolding rx_first_Seq rx_matches_star_Cons [of p, OF True] find_map_append find_map_map behind_Suc
    by (simp only: find_map_option) (auto split: option.splits simp: option.map_id0)
next
  case False
  then show ?thesis unfolding rx_first_Seq by (simp add: option.map_id0 split: option.splits)
qed

lemma rx_first_plus_Seq:
  "rx_first (Seq (Rep 1 None p) b) (c # s) =
     (if p c then map_option Suc (rx_first (Seq (Rep 0 None p) b) s) else None)"
proof (cases "p c")
  case True
  then show ?thesis
    unfolding rx_first_Seq rx_matches_plus_Cons [of p, OF True] find_map_map behind_Suc
    by (simp only: find_map_option) simp
next
  case False
  then show ?thesis unfolding rx_first_Seq by simp
qed


lemma rx_first_alts: "rx_first (alts rs) s = find_map (\<lambda>r. rx_first r s) rs"
proof (induction rs rule: alts.induct)
  case (2 r r' rs)
  then show ?case by (simp add: rx_first_Alt split: option.splits)
qed (simp_all add: rx_first_Rep split: option.splits)

declare takeWhile_eq_all_conv [simp del]

lemma last_index_None_iff: "last_index f xs = None \<longleftrightarrow> (\<forall>x \<in> set xs. \<not> f x)"
  by (induction xs) (auto split: option.splits)

lemma newline_is_whitespace: "is_newline c \<Longrightarrow> is_whitespace c"
  by (auto simp: is_whitespace_def)

lemma is_whitespace_space [simp]: "is_whitespace 32"
  by (simp add: is_whitespace_def)

lemma rx_first_star_plus:
  assumes sub: "\<And>c. q c \<Longrightarrow> p c"
  shows "rx_first (Seq (Rep 0 None p) (Rep 1 None q)) s = map_option Suc (last_index q (takeWhile p s))"
proof (induction s)
  case Nil
  then show ?case by (simp add: rx_first_def)
next
  case (Cons c s)
  have none: "takeWhile q s = []" if "last_index q (takeWhile p s) = None"
    using that sub by (cases s) (auto simp: last_index_None_iff)
  show ?case
    unfolding rx_first_star_Seq Cons using none sub [of c]
    by (cases "last_index q (takeWhile p s)") (auto simp: rx_first_Rep Let_def)
qed

lemma rx_first_newlines:
  "rx_first (Seq (Rep 0 None is_whitespace) (Rep 1 None is_newline)) s =
     map_option Suc (last_index is_newline (takeWhile is_whitespace s))"
  by (rule rx_first_star_plus) (rule newline_is_whitespace)

lemma rx_first_star_lookahead:
  "rx_first (Seq (Rep 0 None is_whitespace) (NotAhead (\<lambda>c. \<not> is_whitespace c))) s =
     (let w = takeWhile is_whitespace s in
      if w = s then Some (length w) else if w = [] then None else Some (length w - 1))"
proof (induction s)
  case Nil
  then show ?case by (simp add: rx_first_def)
next
  case (Cons c s)
  then show ?case
    unfolding rx_first_star_Seq rx_first_NotAhead by (auto simp: Let_def split: if_splits)
qed

lemma rx_first_lookahead:
  "rx_first (Seq (Rep 1 None is_whitespace) (NotAhead (\<lambda>c. \<not> is_whitespace c))) (c # s) =
     (let w = takeWhile is_whitespace (c # s) in
      if w = [] then None else if w = c # s then Some (length w) else if 1 < length w then Some (length w - 1) else None)"
  unfolding rx_first_plus_Seq rx_first_star_lookahead by (auto simp: Let_def)

definition whitespace_end :: "str \<Rightarrow> nat" where
  "whitespace_end s =
     (let w = takeWhile is_whitespace s in if w \<noteq> s \<and> 1 < length w then length w - 1 else length w)"

lemma rx_first_spaces:
  "is_whitespace c \<Longrightarrow>
    rx_first (Alt (Seq (Rep 1 None is_whitespace) (NotAhead (\<lambda>c. \<not> is_whitespace c))) (Rep 1 None is_whitespace)) (c # s) =
      Some (whitespace_end (c # s))"
  "\<not> is_whitespace c \<Longrightarrow>
    rx_first (Alt (Seq (Rep 1 None is_whitespace) (NotAhead (\<lambda>c. \<not> is_whitespace c))) (Rep 1 None is_whitespace)) (c # s) = None"
  unfolding rx_first_Alt rx_first_lookahead
  by (auto simp: whitespace_end_def rx_first_Rep Let_def)

lemma rx_first_whitespace:
  "rx_first whitespace_rx (c # s) =
     (if is_whitespace c then
        Some (case last_index is_newline (takeWhile is_whitespace (c # s)) of
                Some k \<Rightarrow> Suc k | None \<Rightarrow> whitespace_end (c # s))
      else None)"
  unfolding whitespace_rx_def rx_first_Alt [of "Seq (Rep 0 None is_whitespace) (Rep 1 None is_newline)"]
    rx_first_newlines using rx_first_spaces [of c s]
  by (auto split: option.splits)

section \<open>The helpers match their alternatives\<close>

text \<open>\<open>match_end pre s m\<close> is the offset the source returns for a match of length \<open>m\<close> at the start of \<open>s\<close>.\<close>

definition match_end :: "str \<Rightarrow> str \<Rightarrow> nat \<Rightarrow> usize" where
  "match_end pre s m = str_len pre + str_len (take m s)"

lemma match_end_takeWhile: "match_end pre s (length (takeWhile p s)) = str_len pre + str_len (takeWhile p s)"
  by (simp add: match_end_def takeWhile_eq_take [symmetric])

lemma match_end_Suc: "match_end pre (c # s) (Suc m) = match_end (pre @ [c]) s m"
  by (simp add: match_end_def)

lemma match_end_Suc_plain: "match_end pre (c # s) (Suc m) = str_len pre + len_utf8 c + str_len (take m s)"
  by (simp add: match_end_def)

lemma whitespace_before_nonspace_rx:
  "consume_whitespace_before_nonspace (pre @ s) (str_len pre) = Ok (match_end pre s (whitespace_end s))"
proof -
  let ?w = "takeWhile is_whitespace s"
  have w: "take (length ?w) s = ?w" by (rule takeWhile_eq_take [symmetric])
  have "take (length ?w - 1) s = butlast ?w"
    by (metis butlast_conv_take butlast_take diff_le_self length_takeWhile_le take_take w min.absorb1 length_take)
  with w show ?thesis
    unfolding consume_whitespace_before_nonspace_at whitespace_end_def match_end_def Let_def
    by (cases "?w \<noteq> s"; cases "1 < length ?w") (simp_all only: simp_thms if_True if_False)
qed

lemma whitespace_with_newline_rx:
  "consume_whitespace_with_newline (pre @ c # s) (str_len pre) =
     Ok (map_option (\<lambda>k. match_end pre (c # s) (Suc k)) (last_index is_newline (takeWhile is_whitespace (c # s))))"
  by (simp add: consume_whitespace_with_newline_at match_end_def)

text \<open>Contractions.\<close>

lemma word_matches_iff: "word_matches (map same w) s \<longleftrightarrow> (\<exists>u r. s = u @ r \<and> list_all2 same w u)"
proof (induction w arbitrary: s)
  case (Cons x w)
  then show ?case by (cases s) (auto simp: list_all2_Cons1 Cons_eq_append_conv)
qed simp

lemma str_len_same:
  "list_all2 same w u \<Longrightarrow> (\<And>x c. same x c \<Longrightarrow> len_utf8 c = len_utf8 x) \<Longrightarrow> str_len u = str_len w"
  by (induction rule: list_all2_induct) auto

lemma find_suffix_rx:
  assumes same: "\<And>x c. same x c \<Longrightarrow> len_utf8 c = len_utf8 x"
    and eq: "\<And>u w. eq u w \<longleftrightarrow> list_all2 same w u"
  shows "find_suffix eq (pre @ s) (str_len pre) =
    Ok (map_option (match_end pre s) (rx_first (contraction_rx same) s))"
proof -
  have one: "(case get_to s (str_len w) of
        Some u \<Rightarrow> if eq u w then Some (str_len pre + str_len w) else None | None \<Rightarrow> None) =
      map_option (match_end pre s) (rx_first (Word (map same w)) s)" (is "?l = ?r") for w
  proof (cases "word_matches (map same w) s")
    case True
    then obtain u r where u: "s = u @ r" "list_all2 same w u" by (auto simp: word_matches_iff)
    have "str_len u = str_len w" "length u = length w"
      using str_len_same [OF u(2) same] list_all2_lengthD [OF u(2)] by auto
    moreover from this have "get_to s (str_len w) = Some u" using u by (metis get_to_append)
    ultimately show ?thesis using True u eq by (simp add: rx_first_Word match_end_def)
  next
    case False
    then have "get_to s (str_len w) = Some u \<Longrightarrow> \<not> eq u w" for u
      unfolding word_matches_iff eq get_to_Some_iff by blast
    with False show ?thesis by (auto simp: rx_first_Word split: option.splits)
  qed
  show ?thesis
    by (simp add: find_suffix_def contraction_rx_def rx_first_alts find_map_map comp_def find_map_option one del: alts.simps)
qed

lemma len_utf8_ascii_lowercase: "to_ascii_lowercase c = to_ascii_lowercase x \<Longrightarrow> len_utf8 c = len_utf8 x"
  by (auto simp: to_ascii_lowercase_def len_utf8_def split: if_splits)

lemma contraction_rx_consume:
  "consume_contraction (pre @ s) (str_len pre) =
     Ok (map_option (match_end pre s) (rx_first (contraction_rx ignoring_ascii_case) s))"
  unfolding consume_contraction_def
proof (rule find_suffix_rx)
  show "len_utf8 c = len_utf8 x" if "ignoring_ascii_case x c" for x c
    using that unfolding ignoring_ascii_case_def by (rule len_utf8_ascii_lowercase)
  show "eq_ignore_ascii_case u w \<longleftrightarrow> list_all2 ignoring_ascii_case w u" for u w
    unfolding eq_ignore_ascii_case_def ignoring_ascii_case_def
    by (simp only: list_all2_eq list.rel_map) (auto simp: list_all2_conv_all_nth)
qed

lemma smollm_contraction_rx:
  "consume_smollm_contraction (pre @ s) (str_len pre) = Ok (map_option (match_end pre s) (rx_first (contraction_rx (=)) s))"
  unfolding consume_smollm_contraction_def by (rule find_suffix_rx) (auto simp: list_all2_eq [symmetric])


text \<open>Runs of one class.\<close>

lemma rx_first_plus: "rx_first (Rep 1 None p) s = (if takeWhile p s = [] then None else Some (length (takeWhile p s)))"
  by (auto simp: rx_first_Rep Let_def Suc_le_eq)

lemmas rx_first_plus_Suc = rx_first_plus [unfolded One_nat_def]

lemma takeWhile_Nil_iff: "takeWhile p s = [] \<longleftrightarrow> (case first_char s of Some c \<Rightarrow> \<not> p c | None \<Rightarrow> True)"
  by (cases s) auto

lemma scan_while_rx: "scan_while p (pre @ s) (str_len pre) = Ok (Some (match_end pre s (length (takeWhile p s))))"
  by (simp add: scan_while_at match_end_takeWhile)

lemma scan_while_after:
  "scan_while q (pre @ s) (match_end pre s n) = Ok (Some (match_end pre s (n + length (takeWhile q (drop n s)))))"
proof -
  have "scan_while q ((pre @ take n s) @ drop n s) (str_len (pre @ take n s)) =
      Ok (Some (str_len (pre @ take n s) + str_len (takeWhile q (drop n s))))"
    by (rule scan_while_at)
  moreover have "take (n + length (takeWhile q (drop n s))) s = take n s @ takeWhile q (drop n s)"
    by (simp add: take_add takeWhile_eq_take [symmetric])
  ultimately show ?thesis by (simp add: match_end_def add.assoc)
qed

lemma match_end_1: "match_end pre (c # s) (Suc 0) = str_len pre + len_utf8 c"
  by (simp add: match_end_def)

lemma match_end_0: "match_end pre s 0 = str_len pre"
  by (simp add: match_end_def)

lemma next_char_match_end: "next_char (pre @ s) (match_end pre s n) = Ok (first_char (drop n s))"
  using next_char_append [of "pre @ take n s" "drop n s"] by (simp add: match_end_def)

lemma less_len_iff: "str_len pre + len_utf8 c < str_len (pre @ c # s) \<longleftrightarrow> s \<noteq> []"
  by (cases s) auto

lemma consume_letters_rx:
  "consume_letters ud (pre @ s) (match_end pre s n) m =
     Ok (match_end pre s (n + length (takeWhile (is_letter_class ud m) (drop n s))))"
  by (simp add: consume_letters_def scan_while_after)

lemma word_prefix_rx_first:
  assumes "\<And>t. takeWhile letter t = [] \<Longrightarrow> rx_first r t = None"
  shows "rx_first (Seq (word_prefix_rx letter number) r) (c # s) =
    (if letter c then rx_first r (c # s)
     else if c = 13 \<or> c = 10 \<or> number c then None
     else map_option Suc (rx_first r s))"
  unfolding word_prefix_rx_def rx_first_Seq_Opt_Word using assms [of "c # s"]
  by (auto split: option.splits)

lemma optional_prefix_letters_rx:
  "consume_optional_prefix_letters ud (pre @ c # s) (str_len pre) m =
     Ok (map_option (match_end pre (c # s))
       (rx_first (Seq (word_prefix_rx (is_letter_class ud m) (is_number ud)) (Rep 1 None (is_letter_class ud m))) (c # s)))"
proof -
  let ?L = "is_letter_class ud m"
  have first: "rx_first (Seq (word_prefix_rx ?L (is_number ud)) (Rep 1 None ?L)) (c # s) =
    (if ?L c then Some (length (takeWhile ?L (c # s)))
     else if c = 13 \<or> c = 10 \<or> is_number ud c \<or> takeWhile ?L s = [] then None
     else Some (Suc (length (takeWhile ?L s))))"
    by (subst word_prefix_rx_first) (simp_all add: rx_first_plus_Suc)
  have letters: "consume_letters ud (pre @ c # s) (str_len pre) m = Ok (match_end pre (c # s) (length (takeWhile ?L (c # s))))"
    "consume_letters ud (pre @ c # s) (str_len pre + len_utf8 c) m = Ok (match_end pre (c # s) (Suc (length (takeWhile ?L s))))"
    using consume_letters_rx [of ud pre "c # s" 0 m] consume_letters_rx [of ud pre "c # s" 1 m]
    by (simp_all add: match_end_0 match_end_1 del: takeWhile.simps)
  show ?thesis
    unfolding first consume_optional_prefix_letters_def Let_def less_len_iff using letters
    by (cases s) (simp_all del: takeWhile.simps append.simps add: takeWhile_Nil_iff)
qed

lemma rx_first_plus_star:
  "rx_first (Seq (Rep 1 None p) (Rep 0 None q)) s =
    (let run = length (takeWhile p s) in
     if takeWhile p s = [] then None else Some (run + length (takeWhile q (drop run s))))"
proof (cases "takeWhile p s = []")
  case True
  then have "rx_first (Rep 1 None p) s = None" by (simp add: rx_first_plus_Suc)
  from rx_first_Seq_None [OF this] True show ?thesis by simp
next
  case False
  then have "rx_first (Rep 1 None p) s = Some (length (takeWhile p s))" by (simp add: rx_first_plus_Suc)
  moreover have "rx_first (Rep 0 None q) t = Some (length (takeWhile q t))" for t by (simp add: rx_first_Rep)
  ultimately show ?thesis using False by (simp add: rx_first_Seq_Some Let_def)
qed

lemma rx_first_punctuation:
  fixes letter number tail
  defines "P \<equiv> \<lambda>c. \<not> is_whitespace c \<and> \<not> letter c \<and> \<not> number c"
  shows "rx_first (punctuation_rx letter number tail) (c # s) =
    (let k = (if c = 32 then 1 else 0); t = drop k (c # s); run = length (takeWhile P t) in
     if takeWhile P t = [] then None else Some (k + (run + length (takeWhile tail (drop run t)))))"
proof -
  have "\<not> P 32" by (simp add: P_def)
  then show ?thesis
    unfolding punctuation_rx_def rx_first_Seq_Opt_Word P_def [symmetric] rx_first_plus_star
    by (auto simp: Let_def)
qed


lemma consume_digits_rx:
  assumes "is_number ud c" "0 < digit_group_max"
  shows "consume_digits ud (pre @ c # s) (str_len pre) digit_group_max =
    Ok (match_end pre (c # s) (min digit_group_max (length (takeWhile (is_number ud) (c # s)))))"
proof -
  let ?w = "takeWhile (is_number ud) (c # s)"
  have "take digit_group_max ?w = take (min digit_group_max (length ?w)) (c # s)"
    using takeWhile_eq_take [of "is_number ud" "c # s"] take_take by metis
  then show ?thesis unfolding consume_digits_def digits_loop_at match_end_def by simp
qed

text \<open>Matches are never empty.\<close>

lemma rx_first_contraction_pos: "rx_first (contraction_rx same) s = Some n \<Longrightarrow> 0 < n"
  unfolding contraction_rx_def rx_first_alts CONTRACTIONS_def
  by (auto simp: rx_first_Word split: if_splits)

lemma rx_first_plus_pos: "rx_first (Rep 1 None p) s = Some n \<Longrightarrow> 0 < n"
  unfolding rx_first_plus by (auto split: if_splits)

lemma rx_first_prefixed_pos:
  assumes "\<And>t. takeWhile letter t = [] \<Longrightarrow> rx_first r t = None"
    and "rx_first (Seq (word_prefix_rx letter number) r) (c # s) = Some n" "\<And>t n. rx_first r t = Some n \<Longrightarrow> 0 < n"
  shows "0 < n"
  using assms(2,3) by (auto simp: word_prefix_rx_first [of letter r, OF assms(1)] split: if_splits)

lemma rx_first_punctuation_pos: "rx_first (punctuation_rx letter number tail) (c # s) = Some n \<Longrightarrow> 0 < n"
  unfolding rx_first_punctuation by (auto simp: Let_def split: if_splits)

lemma rx_first_punctuation_Some:
  "\<not> is_whitespace c \<Longrightarrow> \<not> letter c \<Longrightarrow> \<not> number c \<Longrightarrow> rx_first (punctuation_rx letter number tail) (c # s) \<noteq> None"
  unfolding rx_first_punctuation by (auto simp: Let_def)

lemma whitespace_end_pos: "is_whitespace c \<Longrightarrow> 0 < whitespace_end (c # s)"
  by (simp add: whitespace_end_def Let_def)

lemma optional_space_punctuation_rx:
  "consume_optional_space_punctuation ud (pre @ c # s) (str_len pre) m =
     Ok (map_option (match_end pre (c # s))
       (rx_first (punctuation_rx (is_letter_class ud m) (is_number ud) is_newline) (c # s)))"
proof -
  let ?P = "is_punctuation_for_bpe ud m"
  have P: "(\<lambda>c. \<not> is_whitespace c \<and> \<not> is_letter_class ud m c \<and> \<not> is_number ud c) = ?P"
    by (simp add: is_punctuation_for_bpe_def fun_eq_iff)
  define start where "start = (\<lambda>k. bindR (expectR (scan_while ?P (pre @ c # s) (match_end pre (c # s) k))) (\<lambda>idx.
    bindR (expectR (scan_while is_newline (pre @ c # s) idx)) (\<lambda>idx'. Ok (Some idx'))))"
  have start: "start k = (let t = drop k (c # s); run = length (takeWhile ?P t) in
      Ok (Some (match_end pre (c # s) (k + (run + length (takeWhile is_newline (drop run t)))))))" for k
    unfolding start_def scan_while_after expectR_simps bindR_simps Let_def
    by (simp add: add.assoc add.commute [of k])
  have code: "consume_optional_space_punctuation ud (pre @ c # s) (str_len pre) m =
    (if c = 32 then (if s \<noteq> [] \<and> ?P (hd s) then start 1 else Ok None)
     else if ?P c then start 0 else Ok None)"
    unfolding consume_optional_space_punctuation_def Let_def less_len_iff start_def match_end_0 One_nat_def match_end_1
    by (cases s) simp_all
  show ?thesis
    unfolding code rx_first_punctuation P start Let_def
    by (cases s) (auto simp: takeWhile_Nil_iff)
qed

lemma llama_bpe_segment_end_rx:
  assumes "0 < digit_group_max"
  shows "\<exists>n > 0. rx_first (llama_bpe_rx (is_letter_class ud m) (is_number ud) digit_group_max) (c # s) = Some n \<and>
    next_llama_bpe_segment_end ud digit_group_max m (pre @ c # s) (str_len pre) = Ok (match_end pre (c # s) n)"
proof -
  let ?L = "is_letter_class ud m" and ?N = "is_number ud" and ?t = "c # s"
  let ?con = "rx_first (contraction_rx ignoring_ascii_case) ?t"
  let ?word = "rx_first (Seq (word_prefix_rx ?L ?N) (Rep 1 None ?L)) ?t"
  let ?punct = "rx_first (punctuation_rx ?L ?N is_newline) ?t"
  let ?nl = "last_index is_newline (takeWhile is_whitespace ?t)"
  have rx: "rx_first (llama_bpe_rx ?L ?N digit_group_max) ?t =
    (case ?con of Some n \<Rightarrow> Some n | None \<Rightarrow>
     case ?word of Some n \<Rightarrow> Some n | None \<Rightarrow>
     if ?N c then Some (min digit_group_max (length (takeWhile ?N ?t))) else
     case ?punct of Some n \<Rightarrow> Some n | None \<Rightarrow>
     if is_whitespace c then Some (case ?nl of Some k \<Rightarrow> Suc k | None \<Rightarrow> whitespace_end ?t) else None)"
    unfolding llama_bpe_rx_def rx_first_alts find_map.simps rx_first_whitespace
    using assms by (auto simp: rx_first_Rep Let_def split: option.splits)
  have code: "next_llama_bpe_segment_end ud digit_group_max m (pre @ ?t) (str_len pre) =
    Ok (match_end pre ?t (case ?con of Some n \<Rightarrow> n | None \<Rightarrow>
     case ?word of Some n \<Rightarrow> n | None \<Rightarrow>
     if ?N c then min digit_group_max (length (takeWhile ?N ?t)) else
     case ?punct of Some n \<Rightarrow> n | None \<Rightarrow>
     case ?nl of Some k \<Rightarrow> Suc k | None \<Rightarrow> if is_whitespace c then whitespace_end ?t else 1))"
    unfolding next_llama_bpe_segment_end_def contraction_rx_consume optional_prefix_letters_rx
      optional_space_punctuation_rx whitespace_with_newline_rx whitespace_before_nonspace_rx
    using consume_digits_rx [OF _ assms, of ud c pre s]
    by (auto simp: match_end_1 split: option.splits simp del: takeWhile.simps last_index.simps)
  have none: "takeWhile ?L u = [] \<Longrightarrow> rx_first (Rep 1 None ?L) u = None" for u by (simp add: rx_first_plus_Suc)
  have word1: "?word = Some n \<Longrightarrow> 0 < n" for n by (rule rx_first_prefixed_pos [OF none _ rx_first_plus_pos])
  have word2: "?L c \<Longrightarrow> ?word \<noteq> None"
    by (subst word_prefix_rx_first) (simp_all add: rx_first_plus_Suc)
  note pos = rx_first_contraction_pos word1 rx_first_punctuation_pos whitespace_end_pos
  have some: "?punct \<noteq> None" if "\<not> is_whitespace c" "?word = None" "\<not> ?N c"
    using that word2 rx_first_punctuation_Some by blast
  have len: "?N c \<Longrightarrow> 0 < min digit_group_max (length (takeWhile ?N ?t))" using assms by simp
  have nl: "?nl = None" if "\<not> is_whitespace c" using that by simp
  show ?thesis
    unfolding rx code using pos len some nl
    by (cases ?con; cases ?word; cases "?N c"; cases ?punct; cases "is_whitespace c"; cases ?nl)
      (simp_all del: takeWhile.simps last_index.simps)
qed


section \<open>The splitting loop\<close>

lemma rx_split_Cons:
  "rx_first r (c # s) = Some n \<Longrightarrow> 0 < n \<Longrightarrow>
    rx_split r (c # s) = map_option ((#) (take n (c # s))) (rx_split r (drop n (c # s)))"
  by (subst rx_split.simps) simp

lemma rx_split_Nil [simp]: "rx_split r [] = Some []"
  by (subst rx_split.simps) simp

text \<open>The pieces of a split are nonempty and spell the string.\<close>

lemma rx_split_parts: "rx_split r s = Some segs \<Longrightarrow> concat segs = s \<and> [] \<notin> set segs"
proof (induction r s arbitrary: segs rule: rx_split.induct)
  case (1 r s)
  show ?case
  proof (cases "s = []")
    case True
    with 1(2) show ?thesis by (auto simp: rx_split.simps)
  next
    case False
    with 1(2) obtain n segs' where n: "rx_first r s = Some n" "n \<noteq> 0"
      and segs: "rx_split r (drop n s) = Some segs'" "segs = take n s # segs'"
      by (subst (asm) rx_split.simps) (auto split: option.splits if_splits)
    from 1(1) [OF False n segs(1)] False n segs(2) show ?thesis by auto
  qed
qed

lemma segment_loop_rx:
  assumes step: "\<And>pre c t. \<exists>n > 0. rx_first r (c # t) = Some n \<and>
    next_end (pre @ c # t) (str_len pre) = Ok (match_end pre (c # t) n)"
  shows "\<exists>segs. rx_split r s = Some segs \<and> segment_loop next_end (pre @ s) (str_len pre) acc = Some (Ok (acc @ segs))"
proof (induction s arbitrary: pre acc rule: length_induct)
  case (1 s)
  show ?case
  proof (cases s)
    case Nil
    then show ?thesis by (subst segment_loop.simps) simp
  next
    case (Cons c t)
    from step [of c t pre] obtain n where n: "0 < n" "rx_first r s = Some n"
      and e: "next_end (pre @ s) (str_len pre) = Ok (match_end pre s n)" unfolding Cons by blast
    have sl: "slice_range (pre @ s) (str_len pre) (match_end pre s n) = (Ok (take n s) :: str tres)"
      using slice_range_append [of pre "take n s" "drop n s"] by (simp add: match_end_def)
    have "length (drop n s) < length s" using n(1) Cons by simp
    with 1 [rule_format, of "drop n s" "pre @ take n s" "acc @ [take n s]"] obtain segs where segs: "rx_split r (drop n s) = Some segs"
      "segment_loop next_end (pre @ s) (match_end pre s n) (acc @ [take n s]) = Some (Ok (acc @ take n s # segs))"
      by (auto simp: match_end_def)
    have "rx_split r s = Some (take n s # segs)"
      using rx_split_Cons [of r c t n] n segs(1) by (simp add: Cons)
    moreover have "segment_loop next_end (pre @ s) (str_len pre) acc = Some (Ok (acc @ take n s # segs))"
      using e sl segs(2) Cons by (subst segment_loop.simps) simp
    ultimately show ?thesis by blast
  qed
qed

lemma bpe_pretokenize_with_rx:
  assumes "0 < digit_group_max"
  shows "\<exists>segments. rx_split (llama_bpe_rx (is_letter_class ud fold_marks) (is_number ud) digit_group_max) s = Some segments
    \<and> bpe_pretokenize_with ud s digit_group_max fold_marks = Some (Ok segments)"
  using segment_loop_rx [where pre = "[]" and acc = "[]" and s = s, OF llama_bpe_segment_end_rx [OF assms, of ud fold_marks]]
  by (auto simp: bpe_pretokenize_with_def)

text \<open>C23. The splitter of Llama 3 and the Qwen models implements the regular expression of its comment: for
  every text the loop ends, no slice panics, and the segments are the successive leftmost-first matches of
  \<open>(?i:'s|'t|'re|'ve|'m|'ll|'d)|[^\r\n\p{L}\p{N}]?\p{L}+|\p{N}{1,N}| ?[^\s\p{L}\p{N}]+[\r\n]*|\s*[\r\n]+|\s+(?!\S)|\s+\<close>,
  where \<open>\p{L}\<close> is the letter class the code uses, and every position has a match.\<close>

theorem llama_bpe_matches_regex:
  assumes "0 < digit_group_max"
  shows "\<exists>segments. rx_split (llama_bpe_rx (is_letter_class ud fold_marks) (is_number ud) digit_group_max) s = Some segments
    \<and> bpe_pretokenize_with ud s digit_group_max fold_marks = Some (Ok segments)"
  by (rule bpe_pretokenize_with_rx [OF assms])


theorem llama_bpe_matches_regex_witness:
  "bpe_pretokenize_with ascii_data (lit ''it'' @ [39] @ lit ''s 2024  ok'') 3 False =
     Some (Ok [lit ''it'', [39] @ lit ''s'', [32], lit ''202'', lit ''4'', [32], lit '' ok''])
   \<and> rx_split (llama_bpe_rx (is_letter_class ascii_data False) (is_number ascii_data) 3)
       (lit ''it'' @ [39] @ lit ''s 2024  ok'') =
     Some [lit ''it'', [39] @ lit ''s'', [32], lit ''202'', lit ''4'', [32], lit '' ok'']"
proof -
  let ?s = "lit ''it'' @ [39] @ lit ''s 2024  ok''"
  have run: "bpe_pretokenize_with ascii_data ?s 3 False =
     Some (Ok [lit ''it'', [39] @ lit ''s'', [32], lit ''202'', lit ''4'', [32], lit '' ok''])"
    by code_simp
  have "(0 :: nat) < 3" by simp
  from llama_bpe_matches_regex [OF this, of ascii_data False ?s] run show ?thesis by auto
qed

text \<open>The class the code uses for \<open>\p{L}\<close> is \<open>char::is_alphabetic\<close>, which contains the vowel signs of the Indic
  scripts; the general category of the comment does not. Devanagari KA with the vowel sign AA is one segment for the code
  and two for the expression as written.\<close>

definition devanagari_data :: unicode_data where
  "devanagari_data =
     \<lparr>ud_alphabetic = (\<lambda>c. c = 0x915 \<or> c = 0x93E), ud_numeric = (\<lambda>_. False),
      ud_category = (\<lambda>c. if c = 0x915 then OtherLetter else if c = 0x93E then SpacingMark else OtherSymbol)\<rparr>"

theorem letter_class_is_not_category_L:
  "bpe_pretokenize_with devanagari_data [0x915, 0x93E] 3 False = Some (Ok [[0x915, 0x93E]])
   \<and> rx_split (llama_bpe_rx (\<lambda>c. is_letter_category (ud_category devanagari_data c))
        (\<lambda>c. is_number_category (ud_category devanagari_data c)) 3) [0x915, 0x93E] = Some [[0x915], [0x93E]]"
  by code_simp

end
