(* ===== verification/Bpe_Dialects.thy ===== *)
theory Bpe_Dialects
  imports Bpe_Regex
begin

text \<open>
  The other two splitters against their regular expressions: the case-run grammar of GPT-4o and
  Tekken, where the code avoids the backtracking of the expression, and the two passes of SmolLM and
  Command R.
\<close>

section \<open>GPT-4o and Tekken\<close>

lemma last_index_Some: "last_index f xs = Some k \<Longrightarrow> k < length xs \<and> f (xs ! k)"
  by (induction xs arbitrary: k) (auto split: option.splits if_splits)

text \<open>The first word alternative: the upper-like run gives back characters only until one lower-like
  character can follow.\<close>

definition lower_start :: "(rust_char \<Rightarrow> bool) \<Rightarrow> (rust_char \<Rightarrow> bool) \<Rightarrow> str \<Rightarrow> nat option" where
  "lower_start U L s =
     (let w = takeWhile U s in
      if takeWhile L (drop (length w) s) \<noteq> [] then Some (length w) else last_index L w)"

lemma rx_first_case_run:
  "rx_first (Seq (Rep 0 None U) (Rep 1 None L)) s =
     map_option (\<lambda>k. k + length (takeWhile L (drop k s))) (lower_start U L s)"
proof (induction s)
  case Nil
  then show ?case by (simp add: rx_first_def lower_start_def)
next
  case (Cons c s)
  show ?case
  proof (cases "U c")
    case False
    then show ?thesis
      unfolding rx_first_star_Seq by (auto simp: lower_start_def rx_first_plus_Suc)
  next
    case True
    then show ?thesis
      unfolding rx_first_star_Seq Cons
      by (auto simp: lower_start_def Let_def rx_first_plus_Suc split: option.splits if_splits)
  qed
qed

lemma lower_start_nonempty:
  assumes "lower_start U L s = Some k"
  shows "takeWhile L (drop k s) \<noteq> []"
proof -
  let ?w = "takeWhile U s"
  show ?thesis
  proof (cases "takeWhile L (drop (length ?w) s) = []")
    case False
    with assms show ?thesis by (simp add: lower_start_def)
  next
    case True
    with assms have "last_index L ?w = Some k" by (simp add: lower_start_def)
    from last_index_Some [OF this] have k: "k < length ?w" "L (?w ! k)" by auto
    then have "?w ! k = s ! k" "k < length s"
      using takeWhile_nth [of k U s] length_takeWhile_le [of U s] by auto
    then have "drop k s = ?w ! k # drop (Suc k) s" by (simp add: Cons_nth_drop_Suc)
    then show ?thesis using k(2) by simp
  qed
qed

lemma match_end_less: "takeWhile p (drop k s) \<noteq> [] \<Longrightarrow> match_end pre s k < match_end pre s (k + length (takeWhile p (drop k s)))"
proof -
  assume "takeWhile p (drop k s) \<noteq> []"
  then have "0 < str_len (takeWhile p (drop k s))" by (simp add: neq0_conv [symmetric] del: neq0_conv)
  moreover have "take (k + length (takeWhile p (drop k s))) s = take k s @ takeWhile p (drop k s)"
    by (simp add: take_add takeWhile_eq_take [symmetric])
  ultimately show ?thesis by (simp add: match_end_def)
qed

lemma first_alternative_rx:
  "consume_gpt4o_first_word_alternative ud (pre @ s) (str_len pre) =
     Ok (map_option (match_end pre s)
       (rx_first (Seq (Rep 0 None (is_gpt4o_upper_like ud)) (Rep 1 None (is_gpt4o_lower_like ud))) s))"
proof -
  let ?U = "is_gpt4o_upper_like ud" and ?L = "is_gpt4o_lower_like ud"
  let ?w = "takeWhile ?U s"
  have up: "upper_loop ud (pre @ s) (str_len pre) None =
      Ok (Some (match_end pre s (length ?w), map_option (match_end pre s) (last_index ?L ?w)))"
    unfolding upper_loop_at match_end_takeWhile by (simp add: match_end_def split: option.splits)
  have nx: "(case first_char (drop (length ?w) s) of Some c \<Rightarrow> ?L c | None \<Rightarrow> False) \<longleftrightarrow> takeWhile ?L (drop (length ?w) s) \<noteq> []"
    by (auto simp: takeWhile_Nil_iff split: option.splits)
  have "consume_gpt4o_first_word_alternative ud (pre @ s) (str_len pre) =
    bindO (Ok (map_option (match_end pre s) (lower_start ?U ?L s))) (\<lambda>lower_start.
      bindO (scan_while ?L (pre @ s) lower_start) (\<lambda>e. Ok (if lower_start < e then Some e else None)))"
    unfolding consume_gpt4o_first_word_alternative_def up bindO_simps prod.case next_char_match_end bindR_simps nx
    by (simp add: lower_start_def Let_def)
  also have "\<dots> = Ok (map_option (match_end pre s) (map_option (\<lambda>k. k + length (takeWhile ?L (drop k s))) (lower_start ?U ?L s)))"
    using lower_start_nonempty [of ?U ?L s] match_end_less [of ?L _ s pre]
    by (cases "lower_start ?U ?L s") (auto simp: scan_while_after)
  finally show ?thesis unfolding rx_first_case_run .
qed

lemma second_alternative_rx:
  "consume_gpt4o_second_word_alternative ud (pre @ s) (str_len pre) =
     Ok (map_option (match_end pre s)
       (rx_first (Seq (Rep 1 None (is_gpt4o_upper_like ud)) (Rep 0 None (is_gpt4o_lower_like ud))) s))"
proof -
  let ?U = "is_gpt4o_upper_like ud"
  have "match_end pre s (length (takeWhile ?U s)) = str_len pre \<longleftrightarrow> takeWhile ?U s = []"
    by (simp add: match_end_takeWhile)
  then show ?thesis
    unfolding consume_gpt4o_second_word_alternative_def scan_while_rx rx_first_plus_star
    by (auto simp: scan_while_after Let_def)
qed


text \<open>A tail that always matches never makes the expression before it backtrack.\<close>

lemma rx_first_Seq_total:
  assumes "\<And>t. rx_first b t \<noteq> None"
  shows "rx_first (Seq a b) s = map_option (\<lambda>n. n + the (rx_first b (drop n s))) (rx_first a s)"
proof (cases "rx_first a s")
  case None
  then show ?thesis by (simp add: rx_first_Seq_None)
next
  case (Some n)
  from assms [of "drop n s"] obtain m where "rx_first b (drop n s) = Some m" by auto
  with rx_first_Seq_Some [OF Some] Some show ?thesis by simp
qed

definition contraction_tail :: "bool \<Rightarrow> rx" where
  "contraction_tail contraction = (if contraction then Opt (contraction_rx ignoring_ascii_case) else Word [])"

lemma contraction_tail_total: "rx_first (contraction_tail b) t \<noteq> None"
  by (auto simp: contraction_tail_def rx_first_Opt rx_first_Word split: option.splits)

definition word_end_of :: "bool \<Rightarrow> str \<Rightarrow> usize option \<Rightarrow> usize option tres" where
  "word_end_of contraction s r =
     bindO (Ok r) (\<lambda>word_end.
       if \<not> contraction then Ok (Some word_end)
       else bindR (consume_contraction s word_end) (\<lambda>e. Ok (Some (case e of Some e' \<Rightarrow> e' | None \<Rightarrow> word_end))))"

lemma word_end_rx:
  "word_end_of b (pre @ s) (map_option (match_end pre s) (rx_first a s)) =
     Ok (map_option (match_end pre s) (rx_first (Seq a (contraction_tail b)) s))"
proof (cases "rx_first a s")
  case None
  then show ?thesis by (simp add: word_end_of_def rx_first_Seq_None)
next
  case (Some n)
  have me: "match_end (pre @ take n s) (drop n s) = (\<lambda>m. match_end pre s (n + m))"
    by (simp add: match_end_def take_add fun_eq_iff)
  have con: "consume_contraction (pre @ s) (match_end pre s n) =
      Ok (map_option (\<lambda>m. match_end pre s (n + m)) (rx_first (contraction_rx ignoring_ascii_case) (drop n s)))"
    using contraction_rx_consume [of "pre @ take n s" "drop n s"] unfolding me by (simp add: match_end_def)
  show ?thesis
    unfolding rx_first_Seq_total [OF contraction_tail_total] Some
    by (auto simp: word_end_of_def con contraction_tail_def rx_first_Opt rx_first_Word split: option.splits)
qed

lemma gpt4o_word_rx:
  fixes ud b
  defines "U \<equiv> is_gpt4o_upper_like ud" and "L \<equiv> is_gpt4o_lower_like ud"
    and "prefix \<equiv> word_prefix_rx (is_gpt4o_letter ud) (is_gpt4o_number ud)"
  defines "A1 \<equiv> Seq (Seq (Rep 0 None U) (Rep 1 None L)) (contraction_tail b)"
    and "A2 \<equiv> Seq (Seq (Rep 1 None U) (Rep 0 None L)) (contraction_tail b)"
  shows "consume_gpt4o_word ud (pre @ c # s) (str_len pre) b =
    Ok (map_option (match_end pre (c # s))
      (case rx_first (Seq prefix A1) (c # s) of Some n \<Rightarrow> Some n | None \<Rightarrow> rx_first (Seq prefix A2) (c # s)))"
proof -
  define word where "word t = (case rx_first A1 t of Some n \<Rightarrow> Some n | None \<Rightarrow> rx_first A2 t)" for t
  have nl: "takeWhile U t = []" "takeWhile L t = []" if "takeWhile (is_gpt4o_letter ud) t = []" for t
    using that by (cases t; simp add: U_def L_def is_gpt4o_upper_like_def is_gpt4o_lower_like_def split: if_splits)+
  have none: "rx_first A1 t = None" "rx_first A2 t = None" if "takeWhile (is_gpt4o_letter ud) t = []" for t
    unfolding A1_def A2_def rx_first_Seq_total [OF contraction_tail_total] rx_first_case_run rx_first_plus_star
    using nl [OF that] by (auto simp: lower_start_def)
  have rx: "(case rx_first (Seq prefix A1) (c # s) of Some n \<Rightarrow> Some n | None \<Rightarrow> rx_first (Seq prefix A2) (c # s)) =
    (if is_gpt4o_letter ud c then word (c # s)
     else if c = 13 \<or> c = 10 \<or> is_gpt4o_number ud c then None else map_option Suc (word s))"
    unfolding prefix_def
    by (subst (1 2) word_prefix_rx_first) (auto simp: none word_def split: option.splits)
  define G where "G t i = bindO (orElseR (consume_gpt4o_first_word_alternative ud t i) (consume_gpt4o_second_word_alternative ud t i))
      (\<lambda>word_end. if \<not> b then Ok (Some word_end)
        else bindR (consume_contraction t word_end) (\<lambda>e. Ok (Some (case e of Some e' \<Rightarrow> e' | None \<Rightarrow> word_end))))" for t i
  have G: "G (q @ t) (str_len q) = Ok (map_option (match_end q t) (word t))" for q t
  proof -
    let ?k = "word_end_of b (q @ t)"
    have tails: "?k (map_option (match_end q t) (rx_first (Seq (Rep 0 None U) (Rep 1 None L)) t)) = Ok (map_option (match_end q t) (rx_first A1 t))"
      "?k (map_option (match_end q t) (rx_first (Seq (Rep 1 None U) (Rep 0 None L)) t)) = Ok (map_option (match_end q t) (rx_first A2 t))"
      unfolding A1_def A2_def by (rule word_end_rx)+
    show ?thesis
      using tails
      unfolding G_def first_alternative_rx second_alternative_rx U_def [symmetric] L_def [symmetric] word_def
        A1_def A2_def rx_first_Seq_total [OF contraction_tail_total] word_end_of_def
      by (cases "rx_first (Seq (Rep 0 None U) (Rep 1 None L)) t") simp_all
  qed
  have code: "consume_gpt4o_word ud (pre @ c # s) (str_len pre) b =
    (if is_gpt4o_letter ud c then G (pre @ c # s) (str_len pre)
     else if c = 13 \<or> c = 10 \<or> is_gpt4o_number ud c then Ok None
     else bindO (Ok (first_char s)) (\<lambda>nx. if is_gpt4o_letter ud nx then G (pre @ c # s) (str_len pre + len_utf8 c) else Ok None))"
    unfolding consume_gpt4o_word_def next_char_append first_char_simps bindO_simps Let_def next_char_behind G_def
    by (cases s) auto
  have "G (pre @ c # s) (str_len pre + len_utf8 c) = Ok (map_option (match_end (pre @ [c]) s) (word s))"
    using G [of "pre @ [c]" s] by simp
  moreover have "word t = None" if "takeWhile (is_gpt4o_letter ud) t = []" for t
    using none [OF that] by (simp add: word_def)
  ultimately show ?thesis
    unfolding rx code G by (cases s) (auto simp: match_end_Suc option.map_comp comp_def)
qed


text \<open>A word starts with a letter, is not empty, and starts at every letter.\<close>

lemma case_run_words:
  fixes ud t b
  defines "A1 \<equiv> Seq (Seq (Rep 0 None (is_gpt4o_upper_like ud)) (Rep 1 None (is_gpt4o_lower_like ud))) (contraction_tail b)"
    and "A2 \<equiv> Seq (Seq (Rep 1 None (is_gpt4o_upper_like ud)) (Rep 0 None (is_gpt4o_lower_like ud))) (contraction_tail b)"
  shows "takeWhile (is_gpt4o_letter ud) t = [] \<Longrightarrow> rx_first A1 t = None"
    "takeWhile (is_gpt4o_letter ud) t = [] \<Longrightarrow> rx_first A2 t = None"
    "rx_first A1 t = Some n \<Longrightarrow> 0 < n" "rx_first A2 t = Some n \<Longrightarrow> 0 < n"
    "is_gpt4o_letter ud c \<Longrightarrow> rx_first A1 (c # s) \<noteq> None \<or> rx_first A2 (c # s) \<noteq> None"
proof -
  let ?U = "is_gpt4o_upper_like ud" and ?L = "is_gpt4o_lower_like ud"
  have a1: "rx_first A1 u = map_option (\<lambda>n. n + the (rx_first (contraction_tail b) (drop n u)))
      (map_option (\<lambda>k. k + length (takeWhile ?L (drop k u))) (lower_start ?U ?L u))"
    and a2: "rx_first A2 u = map_option (\<lambda>n. n + the (rx_first (contraction_tail b) (drop n u)))
      (let run = length (takeWhile ?U u) in if takeWhile ?U u = [] then None else Some (run + length (takeWhile ?L (drop run u))))" for u
    unfolding A1_def A2_def rx_first_Seq_total [OF contraction_tail_total] rx_first_case_run rx_first_plus_star by (rule refl)+
  have sub: "takeWhile ?U t = []" "takeWhile ?L t = []" if "takeWhile (is_gpt4o_letter ud) t = []"
    using that by (cases t; simp add: is_gpt4o_upper_like_def is_gpt4o_lower_like_def split: if_splits)+
  show "takeWhile (is_gpt4o_letter ud) t = [] \<Longrightarrow> rx_first A1 t = None"
    unfolding a1 using sub by (simp add: lower_start_def)
  show "takeWhile (is_gpt4o_letter ud) t = [] \<Longrightarrow> rx_first A2 t = None"
    unfolding a2 using sub by simp
  show "rx_first A1 t = Some n \<Longrightarrow> 0 < n"
    unfolding a1 using lower_start_nonempty [of ?U ?L t] by auto
  show "rx_first A2 t = Some n \<Longrightarrow> 0 < n"
    unfolding a2 by (auto simp: Let_def split: if_splits)
  show "rx_first A1 (c # s) \<noteq> None \<or> rx_first A2 (c # s) \<noteq> None" if "is_gpt4o_letter ud c"
    unfolding a1 a2 using that
    by (cases "?U c") (auto simp: Let_def lower_start_def is_gpt4o_upper_like_def is_gpt4o_lower_like_def
        is_ascii_lowercase_def is_ascii_uppercase_def)
qed

lemma gpt4o_punctuation_rx:
  "consume_gpt4o_punctuation ud (pre @ c # s) (str_len pre) =
     Ok (map_option (match_end pre (c # s))
       (rx_first (punctuation_rx (is_gpt4o_letter ud) (is_gpt4o_number ud) (\<lambda>c. c = 13 \<or> c = 10 \<or> c = 47)) (c # s)))"
proof -
  let ?P = "is_gpt4o_punctuation ud" and ?T = "\<lambda>c. c = 13 \<or> c = 10 \<or> c = (47 :: rust_char)"
  have P: "(\<lambda>c. \<not> is_whitespace c \<and> \<not> is_gpt4o_letter ud c \<and> \<not> is_gpt4o_number ud c) = ?P"
    by (simp add: is_gpt4o_punctuation_def fun_eq_iff)
  define start where "start = (\<lambda>k. bindO (scan_while ?P (pre @ c # s) (match_end pre (c # s) k)) (\<lambda>idx.
    scan_while ?T (pre @ c # s) idx))"
  have start: "start k = (let t = drop k (c # s); run = length (takeWhile ?P t) in
      Ok (Some (match_end pre (c # s) (k + (run + length (takeWhile ?T (drop run t)))))))" for k
    unfolding start_def scan_while_after bindO_simps Let_def
    by (simp add: add.assoc add.commute [of k])
  have code: "consume_gpt4o_punctuation ud (pre @ c # s) (str_len pre) =
    (if c = 32 then (if s \<noteq> [] \<and> ?P (hd s) then start 1 else Ok None)
     else if ?P c then start 0 else Ok None)"
    unfolding consume_gpt4o_punctuation_def Let_def start_def match_end_0 One_nat_def match_end_1
    by (cases s) simp_all
  show ?thesis
    unfolding code rx_first_punctuation P start Let_def
    by (cases s) (auto simp: takeWhile_Nil_iff)
qed

lemma gpt4o_segment_end_rx:
  assumes "0 < digit_group_max" and numbers: "\<And>c. is_gpt4o_number ud c = is_number ud c"
  shows "\<exists>n > 0. rx_first (gpt4o_rx (is_gpt4o_letter ud) (is_gpt4o_upper_like ud) (is_gpt4o_lower_like ud)
      (is_gpt4o_number ud) digit_group_max b) (c # s) = Some n \<and>
    next_gpt4o_segment_end ud digit_group_max b (pre @ c # s) (str_len pre) = Ok (match_end pre (c # s) n)"
proof -
  let ?L = "is_gpt4o_letter ud" and ?N = "is_gpt4o_number ud" and ?t = "c # s"
  define A1 A2 where "A1 = Seq (Seq (Rep 0 None (is_gpt4o_upper_like ud)) (Rep 1 None (is_gpt4o_lower_like ud))) (contraction_tail b)"
    and "A2 = Seq (Seq (Rep 1 None (is_gpt4o_upper_like ud)) (Rep 0 None (is_gpt4o_lower_like ud))) (contraction_tail b)"
  let ?P = "word_prefix_rx ?L ?N"
  let ?word = "case rx_first (Seq ?P A1) ?t of Some n \<Rightarrow> Some n | None \<Rightarrow> rx_first (Seq ?P A2) ?t"
  let ?punct = "rx_first (punctuation_rx ?L ?N (\<lambda>c. c = 13 \<or> c = 10 \<or> c = 47)) ?t"
  let ?nl = "last_index is_newline (takeWhile is_whitespace ?t)"
  have N: "is_number ud = ?N" using numbers by auto
  have rx: "rx_first (gpt4o_rx ?L (is_gpt4o_upper_like ud) (is_gpt4o_lower_like ud) ?N digit_group_max b) ?t =
    (case ?word of Some n \<Rightarrow> Some n | None \<Rightarrow>
     if ?N c then Some (min digit_group_max (length (takeWhile ?N ?t))) else
     case ?punct of Some n \<Rightarrow> Some n | None \<Rightarrow>
     if is_whitespace c then Some (case ?nl of Some k \<Rightarrow> Suc k | None \<Rightarrow> whitespace_end ?t) else None)"
    unfolding gpt4o_rx_def contraction_tail_def [symmetric] Let_def A1_def [symmetric] A2_def [symmetric]
      rx_first_alts find_map.simps rx_first_whitespace
    using assms(1) by (auto simp: rx_first_Rep Let_def split: option.splits)
  have code: "next_gpt4o_segment_end ud digit_group_max b (pre @ ?t) (str_len pre) =
    Ok (match_end pre ?t (case ?word of Some n \<Rightarrow> n | None \<Rightarrow>
     if ?N c then min digit_group_max (length (takeWhile ?N ?t)) else
     case ?punct of Some n \<Rightarrow> n | None \<Rightarrow>
     case ?nl of Some k \<Rightarrow> Suc k | None \<Rightarrow> if is_whitespace c then whitespace_end ?t else 1))"
    unfolding next_gpt4o_segment_end_def gpt4o_word_rx A1_def [symmetric] A2_def [symmetric]
      gpt4o_punctuation_rx whitespace_with_newline_rx whitespace_before_nonspace_rx
    using consume_digits_rx [OF _ assms(1), of ud c pre s, unfolded N]
    by (auto simp: match_end_1 split: option.splits simp del: takeWhile.simps last_index.simps)
  note facts = case_run_words [where ud = ud and b = b, folded A1_def A2_def]
  have word1: "?word = Some n \<Longrightarrow> 0 < n" for n
    using rx_first_prefixed_pos [OF facts(1) _ facts(3)] rx_first_prefixed_pos [OF facts(2) _ facts(4)]
    by (auto split: option.splits)
  have word2: "?L c \<Longrightarrow> ?word \<noteq> None"
    using facts(5) [of c s] by (subst (1 2) word_prefix_rx_first) (auto simp: facts(1,2) split: option.splits)
  note pos = word1 rx_first_punctuation_pos whitespace_end_pos
  have some: "?punct \<noteq> None" if "\<not> is_whitespace c" "?word = None" "\<not> ?N c"
    using that word2 rx_first_punctuation_Some by blast
  have len: "?N c \<Longrightarrow> 0 < min digit_group_max (length (takeWhile ?N ?t))" using assms by simp
  have nl: "?nl = None" if "\<not> is_whitespace c" using that by simp
  show ?thesis
    unfolding rx code using pos len some nl
    by (cases ?word; cases "?N c"; cases ?punct; cases "is_whitespace c"; cases ?nl)
      (simp_all del: takeWhile.simps last_index.simps)
qed


lemma bpe_pretokenize_gpt4o_rx:
  assumes "0 < digit_group_max" and "\<forall>c. is_gpt4o_number ud c = is_number ud c"
  shows "\<exists>segments. rx_split (gpt4o_rx (is_gpt4o_letter ud) (is_gpt4o_upper_like ud) (is_gpt4o_lower_like ud)
        (is_gpt4o_number ud) digit_group_max contraction) s = Some segments
    \<and> bpe_pretokenize_gpt4o ud s digit_group_max contraction = Some (Ok segments)"
  using segment_loop_rx [where pre = "[]" and acc = "[]" and s = s,
      OF gpt4o_segment_end_rx [OF assms(1) assms(2) [rule_format], of contraction]]
  by (simp add: bpe_pretokenize_gpt4o_def)

text \<open>C24. The case-run splitter of GPT-4o and Tekken implements its regular expression, including the
  backtracking of \<open>UPPER* LOWER+\<close> which the code replaces by remembering the last lower-like character, for
  every text, provided that \<open>char::is_numeric\<close> and the general category agree on what a number is (\<open>consume_digits\<close>
  uses the former and its caller the latter).\<close>

theorem gpt4o_matches_regex:
  assumes "0 < digit_group_max" and "\<forall>c. is_gpt4o_number ud c = is_number ud c"
  shows "\<exists>segments. rx_split (gpt4o_rx (is_gpt4o_letter ud) (is_gpt4o_upper_like ud) (is_gpt4o_lower_like ud)
        (is_gpt4o_number ud) digit_group_max contraction) s = Some segments
    \<and> bpe_pretokenize_gpt4o ud s digit_group_max contraction = Some (Ok segments)"
  by (rule bpe_pretokenize_gpt4o_rx [OF assms])


theorem gpt4o_matches_regex_witness:
  "bpe_pretokenize_gpt4o ascii_data (lit ''McDonald'' @ [39] @ lit ''s HTTPServer'') 3 True =
     Some (Ok [lit ''Mc'', lit ''Donald'' @ [39] @ lit ''s'', lit '' HTTPServer''])
   \<and> rx_split (gpt4o_rx (is_gpt4o_letter ascii_data) (is_gpt4o_upper_like ascii_data) (is_gpt4o_lower_like ascii_data)
        (is_gpt4o_number ascii_data) 3 True) (lit ''McDonald'' @ [39] @ lit ''s HTTPServer'') =
     Some [lit ''Mc'', lit ''Donald'' @ [39] @ lit ''s'', lit '' HTTPServer'']"
proof -
  let ?s = "lit ''McDonald'' @ [39] @ lit ''s HTTPServer''"
  have run: "bpe_pretokenize_gpt4o ascii_data ?s 3 True =
     Some (Ok [lit ''Mc'', lit ''Donald'' @ [39] @ lit ''s'', lit '' HTTPServer''])"
    by code_simp
  have pos: "(0 :: nat) < 3" by simp
  have "\<forall>c. is_gpt4o_number ascii_data c = is_number ascii_data c"
    by (auto simp: is_gpt4o_number_def is_number_def ascii_data_def is_number_category_def
        is_ascii_lowercase_def is_ascii_uppercase_def)
  from gpt4o_matches_regex [OF pos this, of True ?s] run show ?thesis by auto
qed

section \<open>SmolLM and Command R\<close>

lemma rx_first_optional_space:
  assumes "\<not> p 32"
  shows "rx_first (Seq (Opt (Word [\<lambda>c. c = 32])) (Rep 1 None p)) (c # s) =
    (let k = (if c = 32 then 1 else 0); t = drop k (c # s) in
     if takeWhile p t = [] then None else Some (k + length (takeWhile p t)))"
  unfolding rx_first_Seq_Opt_Word rx_first_plus using assms by (auto simp: Let_def)

lemma optional_space_run_rx:
  assumes "\<not> p 32"
  shows "optional_space_run p (pre @ c # s) (str_len pre) =
    Ok (map_option (match_end pre (c # s)) (rx_first (Seq (Opt (Word [\<lambda>c. c = 32])) (Rep 1 None p)) (c # s)))"
proof -
  have k: "(if c = 32 then str_len pre + 1 else str_len pre) = match_end pre (c # s) (if c = 32 then 1 else 0)"
    by (simp add: match_end_1 match_end_0 len_utf8_def)
  show ?thesis
    unfolding optional_space_run_def next_char_append first_char_simps bindO_simps Let_def k
      next_char_match_end bindR_simps scan_while_after rx_first_optional_space [of p, OF assms]
    by (auto simp: takeWhile_Nil_iff split: option.splits)
qed

lemma optional_space_runs:
  assumes "\<not> p 32"
  shows "p c \<Longrightarrow> rx_first (Seq (Opt (Word [\<lambda>c. c = 32])) (Rep 1 None p)) (c # s) \<noteq> None"
    "rx_first (Seq (Opt (Word [\<lambda>c. c = 32])) (Rep 1 None p)) (c # s) = Some n \<Longrightarrow> 0 < n"
proof -
  assume c: "p c"
  with assms have "c \<noteq> 32" by metis
  with c show "rx_first (Seq (Opt (Word [\<lambda>c. c = 32])) (Rep 1 None p)) (c # s) \<noteq> None"
    unfolding rx_first_optional_space [of p, OF assms] by simp
next
  assume "rx_first (Seq (Opt (Word [\<lambda>c. c = 32])) (Rep 1 None p)) (c # s) = Some n"
  then show "0 < n"
    unfolding rx_first_optional_space [of p, OF assms] Let_def
    by (simp only: split: if_splits) auto
qed

lemma smollm_segment_end_rx:
  assumes "ud_category ud 32 = SpaceSeparator"
  shows "\<exists>n > 0. rx_first (smollm_rx (is_smollm_letter ud) (is_smollm_number ud)) (c # s) = Some n \<and>
    next_smollm_gpt2_segment_end ud (pre @ c # s) (str_len pre) = Ok (match_end pre (c # s) n)"
proof -
  let ?t = "c # s"
  let ?run = "\<lambda>p. rx_first (Seq (Opt (Word [\<lambda>c. c = 32])) (Rep 1 None p)) ?t"
  let ?con = "rx_first (contraction_rx (=)) ?t"
  let ?L = "is_smollm_letter ud" and ?N = "is_smollm_number ud" and ?P = "is_smollm_punctuation ud"
  have space: "\<not> ?L 32" "\<not> ?N 32" "\<not> ?P 32"
    using assms by (simp_all add: is_smollm_letter_def is_smollm_number_def is_smollm_punctuation_def
        is_letter_category_def is_number_category_def)
  have P: "(\<lambda>c. \<not> is_whitespace c \<and> \<not> ?L c \<and> \<not> ?N c) = ?P"
    by (simp add: is_smollm_punctuation_def fun_eq_iff)
  have rx: "rx_first (smollm_rx ?L ?N) ?t =
    (case ?con of Some n \<Rightarrow> Some n | None \<Rightarrow> case ?run ?L of Some n \<Rightarrow> Some n | None \<Rightarrow>
     case ?run ?N of Some n \<Rightarrow> Some n | None \<Rightarrow> case ?run ?P of Some n \<Rightarrow> Some n | None \<Rightarrow>
     if is_whitespace c then Some (whitespace_end ?t) else None)"
    unfolding smollm_rx_def rx_first_alts find_map.simps P using rx_first_spaces [of c s]
    by (auto split: option.splits)
  have code: "next_smollm_gpt2_segment_end ud (pre @ ?t) (str_len pre) =
    Ok (match_end pre ?t
     (case ?con of Some n \<Rightarrow> n | None \<Rightarrow> case ?run ?L of Some n \<Rightarrow> n | None \<Rightarrow>
      case ?run ?N of Some n \<Rightarrow> n | None \<Rightarrow> case ?run ?P of Some n \<Rightarrow> n | None \<Rightarrow>
      if is_whitespace c then whitespace_end ?t else 1))"
    unfolding next_smollm_gpt2_segment_end_def smollm_contraction_rx consume_smollm_optional_space_letters_def
      consume_smollm_optional_space_numbers_def consume_smollm_optional_space_punctuation_def
      optional_space_run_rx [of ?L, OF space(1)] optional_space_run_rx [of ?N, OF space(2)]
      optional_space_run_rx [of ?P, OF space(3)] whitespace_before_nonspace_rx
    by (auto simp: match_end_1 split: option.splits)
  have pos: "?con = Some n \<Longrightarrow> 0 < n" "?run ?L = Some n \<Longrightarrow> 0 < n" "?run ?N = Some n \<Longrightarrow> 0 < n" "?run ?P = Some n \<Longrightarrow> 0 < n" for n
    by (erule rx_first_contraction_pos optional_space_runs(2) [of ?L, OF space(1)]
        optional_space_runs(2) [of ?N, OF space(2)] optional_space_runs(2) [of ?P, OF space(3)])+
  have some: "?run ?L \<noteq> None \<or> ?run ?N \<noteq> None \<or> ?run ?P \<noteq> None" if "\<not> is_whitespace c"
    using optional_space_runs(1) [of ?L c s, OF space(1)] optional_space_runs(1) [of ?N c s, OF space(2)]
      optional_space_runs(1) [of ?P c s, OF space(3)] that is_smollm_punctuation_def [of ud c] by argo
  show ?thesis
    unfolding rx code using pos some whitespace_end_pos [of c s]
    by (cases ?con; cases "?run ?L"; cases "?run ?N"; cases "?run ?P"; cases "is_whitespace c") simp_all
qed


lemma isolate_free: "\<forall>c \<in> set s. \<not> p c \<Longrightarrow> isolate p s = (if s = [] then [] else [s])"
  by (subst isolate.simps) (simp add: Let_def takeWhile_eq_all_conv [THEN iffD2] dropWhile_eq_Nil_conv [THEN iffD2])

lemma isolate_number:
  "\<forall>c \<in> set u. \<not> p c \<Longrightarrow> p c \<Longrightarrow> isolate p (u @ c # s) = (if u = [] then [] else [u]) @ [c] # isolate p s"
  by (subst isolate.simps) (simp add: Let_def)

lemma split_all_append:
  "split_all r ps = Some a \<Longrightarrow> split_all r qs = Some b \<Longrightarrow> split_all r (ps @ qs) = Some (a @ b)"
  by (induction ps arbitrary: a) (auto split: option.splits)

lemma andThen_simps [simp]: "andThen (Some (Ok x)) k = k x"
  by (simp add: andThen_def)

lemma append_smollm_rx:
  assumes "ud_category ud 32 = SpaceSeparator"
  shows "\<exists>segs. split_all (smollm_rx (is_smollm_letter ud) (is_smollm_number ud)) (if s = [] then [] else [s]) = Some segs
    \<and> append_smollm_gpt2_segments ud s acc = Some (Ok (acc @ segs))"
  using segment_loop_rx [where pre = "[]" and acc = acc and s = s, OF smollm_segment_end_rx [OF assms]]
  by (auto simp: append_smollm_gpt2_segments_def)

text \<open>A lone number is one match of the second pass.\<close>

lemma rx_split_number:
  assumes "is_smollm_number ud c" "ud_category ud 32 = SpaceSeparator"
  shows "rx_split (smollm_rx (is_smollm_letter ud) (is_smollm_number ud)) [c] = Some [[c]]"
proof -
  have c: "c \<noteq> 32" "\<not> is_smollm_letter ud c"
    using assms by (auto simp: is_smollm_letter_def is_smollm_number_def is_letter_category_def is_number_category_def
        split: general_category.splits)
  have "rx_first (contraction_rx (=)) [c] = None"
    unfolding contraction_rx_def rx_first_alts CONTRACTIONS_def by (simp add: rx_first_Word)
  then have "rx_first (smollm_rx (is_smollm_letter ud) (is_smollm_number ud)) [c] = Some 1"
    using c assms(1)
    unfolding smollm_rx_def rx_first_alts by (simp add: rx_first_Seq_Opt_Word rx_first_plus_Suc)
  then show ?thesis using rx_split_Cons by simp
qed

lemma smollm_loop_rx:
  assumes space: "ud_category ud 32 = SpaceSeparator"
  shows "\<forall>c \<in> set part. \<not> is_smollm_number ud c \<Longrightarrow>
    \<exists>segs. split_all (smollm_rx (is_smollm_letter ud) (is_smollm_number ud)) (isolate (is_smollm_number ud) (part @ rest)) = Some segs
      \<and> smollm_loop ud (pre @ part @ rest) (char_indices (str_len (pre @ part)) rest) (str_len pre) acc = Some (Ok (acc @ segs))"
proof (induction rest arbitrary: pre part acc)
  case Nil
  then show ?case using append_smollm_rx [OF space, of part acc] by (auto simp: isolate_free)
next
  case (Cons c rest)
  let ?r = "smollm_rx (is_smollm_letter ud) (is_smollm_number ud)" and ?N = "is_smollm_number ud"
  show ?case
  proof (cases "?N c")
    case False
    with Cons.IH [of "part @ [c]" pre acc] Cons.prems show ?thesis by (simp add: add.assoc)
  next
    case True
    obtain a where a: "split_all ?r (if part = [] then [] else [part]) = Some a"
      "append_smollm_gpt2_segments ud part acc = Some (Ok (acc @ a))"
      using append_smollm_rx [OF space] by blast
    obtain b where b: "split_all ?r (isolate ?N rest) = Some b"
      "smollm_loop ud (pre @ part @ c # rest) (char_indices (str_len pre + str_len part + len_utf8 c) rest)
        (str_len pre + str_len part + len_utf8 c) (acc @ a @ [[c]]) = Some (Ok (acc @ a @ [c] # b))"
      using Cons.IH [of "[]" "pre @ part @ [c]" "acc @ a @ [[c]]"] by (auto simp: add.assoc)
    have "split_all ?r ([c] # isolate ?N rest) = Some ([c] # b)"
      using b(1) by (simp add: rx_split_number [OF True space])
    from split_all_append [OF a(1) this] have "split_all ?r (isolate ?N (part @ c # rest)) = Some (a @ [c] # b)"
      by (simp add: isolate_number Cons.prems True)
    moreover have "slice_range (pre @ part @ c # rest) (str_len pre) (str_len (pre @ part)) = (Ok part :: str tres)"
      using slice_range_append [of pre part "c # rest"] by simp
    moreover have "slice_range (pre @ part @ c # rest) (str_len (pre @ part)) (str_len (pre @ part) + len_utf8 c) = (Ok [c] :: str tres)"
      using slice_range_append [of "pre @ part" "[c]" rest] by simp
    ultimately show ?thesis using True a(2) b(2) by (simp add: Let_def)
  qed
qed

lemma bpe_pretokenize_smollm_rx:
  assumes "ud_category ud 32 = SpaceSeparator"
  shows "\<exists>segments. split_all (smollm_rx (is_smollm_letter ud) (is_smollm_number ud)) (isolate (is_smollm_number ud) s) = Some segments
    \<and> bpe_pretokenize_smollm ud s = Some (Ok segments)"
  using smollm_loop_rx [OF assms, of "[]" s "[]" "[]"] by (auto simp: bpe_pretokenize_smollm_def)

lemma concat_isolate [simp]: "concat (isolate p s) = s"
proof (induction p s rule: isolate.induct)
  case (1 p s)
  let ?u = "takeWhile (\<lambda>c. \<not> p c) s" and ?d = "dropWhile (\<lambda>c. \<not> p c) s"
  have "concat (isolate p s) = ?u @ ?d"
  proof (cases ?d)
    case Nil
    then show ?thesis unfolding Nil by (subst isolate.simps) (simp only: Let_def Nil list.case, simp)
  next
    case (Cons c r)
    show ?thesis unfolding Cons using 1 [OF refl Cons]
      by (subst isolate.simps) (simp only: Let_def Cons list.case, simp)
  qed
  then show ?case by (simp only: takeWhile_dropWhile_id)
qed

lemma split_all_parts: "split_all r ps = Some segs \<Longrightarrow> concat segs = concat ps \<and> [] \<notin> set segs"
  by (induction ps arbitrary: segs) (auto split: option.splits dest!: rx_split_parts)

text \<open>C25. The splitter of SmolLM and Command R implements its two passes for every text: \<open>\p{N}\<close> isolates every
  number, and each piece in between is cut into the successive matches of
  \<open>'s|'t|'re|'ve|'m|'ll|'d| ?\p{L}+| ?\p{N}+| ?[^\s\p{L}\p{N}]+|\s+(?!\S)|\s+\<close>, provided that a space has its Unicode
  category.\<close>

theorem smollm_matches_regexes:
  assumes "ud_category ud 32 = SpaceSeparator"
  shows "\<exists>segments. split_all (smollm_rx (is_smollm_letter ud) (is_smollm_number ud)) (isolate (is_smollm_number ud) s) = Some segments
    \<and> bpe_pretokenize_smollm ud s = Some (Ok segments)"
  by (rule bpe_pretokenize_smollm_rx [OF assms])


theorem smollm_matches_regexes_witness:
  "bpe_pretokenize_smollm ascii_data (lit ''it'' @ [39] @ lit ''s v42'') =
     Some (Ok [lit ''it'', [39] @ lit ''s'', lit '' v'', lit ''4'', lit ''2''])
   \<and> split_all (smollm_rx (is_smollm_letter ascii_data) (is_smollm_number ascii_data))
       (isolate (is_smollm_number ascii_data) (lit ''it'' @ [39] @ lit ''s v42'')) =
     Some [lit ''it'', [39] @ lit ''s'', lit '' v'', lit ''4'', lit ''2'']"
proof -
  let ?s = "lit ''it'' @ [39] @ lit ''s v42''"
  have run: "bpe_pretokenize_smollm ascii_data ?s =
     Some (Ok [lit ''it'', [39] @ lit ''s'', lit '' v'', lit ''4'', lit ''2''])"
    by code_simp
  have "ud_category ascii_data 32 = SpaceSeparator" by code_simp
  from smollm_matches_regexes [OF this, of ?s] run show ?thesis by auto
qed

end
