(* ===== verification/Bpe_Roundtrip.thy ===== *)
theory Bpe_Roundtrip
  imports Tokenizer Bpe_Dialects
begin

text \<open>
  Byte-level BPE as a whole: encoding ends on every text, and decoding gives back what was encoded.

  The conditions are named predicates. \<open>unicode_consistent\<close> says of the Unicode tables what the
  standard says; \<open>vocab_consistent\<close> is what loading a model establishes between the token list and
  its hash map; \<open>printable_specials\<close> restricts the texts of special tokens to visible ASCII, without which
  decoding fails, as the last theorem shows.
\<close>

section \<open>Conditions\<close>

definition unicode_consistent :: "unicode_data \<Rightarrow> bool" where
  "unicode_consistent ud =
     ((\<forall>c. is_number ud c = is_number_category (ud_category ud c)) \<and> ud_category ud 32 = SpaceSeparator)"

definition printable :: "str \<Rightarrow> bool" where
  "printable s = (\<forall>c \<in> set s. 33 \<le> c \<and> c \<le> 126)"

definition printable_specials :: "tokenizer \<Rightarrow> bool" where
  "printable_specials tk =
     (\<forall>t \<in> set (tk_tokens tk). t_kind t = Control \<or> t_kind t = UserDefined \<longrightarrow> printable (t_text t))"

section \<open>The byte alphabet is a bijection\<close>

lemma invisible_count_mono:
  assumes "a < b" "\<not> visible_byte a"
  shows "length (filter (\<lambda>c. \<not> visible_byte c) [0..<a]) < length (filter (\<lambda>c. \<not> visible_byte c) [0..<b])"
proof -
  have "[0..<b] = [0..<a] @ a # [Suc a..<b]"
    using assms(1) upt_add_eq_append [of 0 a "b - a"] upt_conv_Cons [of a b] by simp
  then show ?thesis using assms(2) by simp
qed

lemma bpe_byte_to_char_inj: "bpe_byte_to_char a = bpe_byte_to_char b \<Longrightarrow> a = b"
proof -
  assume eq: "bpe_byte_to_char a = bpe_byte_to_char b"
  have lt: "unat a < 256" "unat b < 256" by (rule unat_u8_less)+
  have "unat a = unat b"
  proof (rule ccontr)
    assume "unat a \<noteq> unat b"
    then consider "unat a < unat b" | "unat b < unat a" by linarith
    then show False
      using eq lt invisible_count_mono [of "unat a" "unat b"] invisible_count_mono [of "unat b" "unat a"]
      by cases (auto simp: bpe_byte_to_char_def Let_def split: if_splits)
  qed
  then show ?thesis by (simp add: word_unat_eq_iff)
qed

lemma bpe_char_to_byte_inverse [simp]: "bpe_char_to_byte (bpe_byte_to_char b) = Some b"
proof -
  let ?all = "map of_nat [0..<256] :: u8 list" and ?p = "\<lambda>x. bpe_byte_to_char x = bpe_byte_to_char b"
  have "b = of_nat (unat b)" by simp
  then have "b \<in> set ?all" using unat_u8_less [of b] by (metis atLeastLessThan_iff image_eqI le0 set_map set_upt)
  then have "find ?p ?all \<noteq> None" unfolding find_None_iff by blast
  then obtain a where a: "find ?p ?all = Some a" by blast
  then have "bpe_byte_to_char a = bpe_byte_to_char b" by (auto simp: find_Some_iff)
  with a show ?thesis unfolding bpe_char_to_byte_def using bpe_byte_to_char_inj by simp
qed

lemma printable_byte:
  assumes "33 \<le> c" "c \<le> 126"
  shows "bpe_byte_to_char (of_nat c) = c" "bpe_char_to_byte c = Some (of_nat c)" "encode_utf8 c = [of_nat c]"
proof -
  have "unat (of_nat c :: u8) = c" using assms by (intro unat_u8) simp
  with assms show 1: "bpe_byte_to_char (of_nat c) = c" by (simp add: bpe_byte_to_char_def visible_byte_def)
  show "bpe_char_to_byte c = Some (of_nat c)" using bpe_char_to_byte_inverse [of "of_nat c"] unfolding 1 .
  show "encode_utf8 c = [of_nat c]" using assms by (simp add: encode_utf8_def)
qed

lemma printable_as_bytes:
  "printable s \<Longrightarrow> as_bytes s = map (the \<circ> bpe_char_to_byte) s"
  by (induction s) (simp_all add: printable_def printable_byte)

section \<open>Splitting partitions the text\<close>

lemma pretokenize_parts:
  assumes "unicode_consistent ud"
  shows "\<exists>segments. pretokenize ud pre s = Some (Ok segments) \<and> concat segments = s \<and> [] \<notin> set segments"
proof -
  have numbers: "\<forall>c. is_gpt4o_number ud c = is_number ud c" and space: "ud_category ud 32 = SpaceSeparator"
    using assms by (simp_all add: unicode_consistent_def is_gpt4o_number_def)
  have d: "0 < digit_group_max pre" by (simp add: digit_group_max_def split: bpe_pre_tokenizer.splits)
  show ?thesis
  proof (cases "pre = CommandR \<or> pre = SmolLm")
    case True
    with bpe_pretokenize_smollm_rx [OF space, of s] split_all_parts show ?thesis
      by (fastforce simp: pretokenize_def)
  next
    case False
    with bpe_pretokenize_gpt4o_rx [OF d numbers, of "word_takes_contraction pre" s]
      bpe_pretokenize_with_rx [OF d, of ud "fold_marks pre" s] rx_split_parts
    show ?thesis by (auto simp: pretokenize_def)
  qed
qed


section \<open>What a token spells\<close>

definition shown_as_text :: "token \<Rightarrow> bool" where
  "shown_as_text t = (t_kind t = Control \<or> is_chat_control_marker t)"

definition piece :: "tokenizer \<Rightarrow> token_id \<Rightarrow> bytes" where
  "piece tk tid =
     (case get_token tk tid of
        None \<Rightarrow> []
      | Some t \<Rightarrow> if shown_as_text t then as_bytes (t_text t) else map (the \<circ> bpe_char_to_byte) (t_text t))"

definition decodable :: "tokenizer \<Rightarrow> token_id \<Rightarrow> bool" where
  "decodable tk tid =
     (\<exists>t. get_token tk tid = Some t \<and>
        (if shown_as_text t then t_text t \<noteq> [] \<and> printable (t_text t)
         else \<forall>c \<in> set (t_text t). bpe_char_to_byte c \<noteq> None))"

definition spells :: "tokenizer \<Rightarrow> token_id list \<Rightarrow> bytes \<Rightarrow> bool" where
  "spells tk ids bs = ((\<forall>tid \<in> set ids. decodable tk tid) \<and> concat (map (piece tk) ids) = bs)"

lemma spells_Nil [simp]: "spells tk [] bs \<longleftrightarrow> bs = []"
  by (auto simp: spells_def)

lemma spells_append: "spells tk xs a \<Longrightarrow> spells tk ys b \<Longrightarrow> spells tk (xs @ ys) (a @ b)"
  by (auto simp: spells_def)

lemma shown_as_text_printable:
  "printable_specials tk \<Longrightarrow> get_token tk tid = Some t \<Longrightarrow> shown_as_text t \<Longrightarrow> printable (t_text t)"
  by (auto simp: printable_specials_def shown_as_text_def is_chat_control_marker_def get_token_def list_get_Some_iff)

text \<open>A token that was looked up by a nonempty word over the byte alphabet spells the word's bytes.\<close>

lemma symbol_spells:
  assumes "vocab_consistent tk" "printable_specials tk" "token_to_id tk (map bpe_byte_to_char bs) = Some tid" "bs \<noteq> []"
  shows "spells tk [tid] bs"
proof -
  from assms obtain t where t: "get_token tk tid = Some t" "t_text t = map bpe_byte_to_char bs"
    unfolding vocab_consistent_def by blast
  have bytes: "map (the \<circ> bpe_char_to_byte) (t_text t) = bs" by (simp add: t comp_def)
  show ?thesis
  proof (cases "shown_as_text t")
    case True
    with assms(2) t(1) have "printable (t_text t)" by (rule shown_as_text_printable)
    with True t bytes assms(4) show ?thesis by (simp add: spells_def decodable_def piece_def printable_as_bytes)
  next
    case False
    with t bytes show ?thesis by (simp add: spells_def decodable_def piece_def)
  qed
qed

lemma special_spells:
  assumes "vocab_consistent tk" "printable_specials tk" "token_to_id tk w = Some tid" "w \<noteq> []" "printable w"
  shows "spells tk [tid] (as_bytes w)"
proof -
  have "w = map bpe_byte_to_char (map of_nat w)"
    using assms(5) by (induction w) (simp_all add: printable_def printable_byte)
  moreover have "as_bytes w = map of_nat w"
    using assms(5) by (induction w) (simp_all add: printable_def printable_byte)
  ultimately show ?thesis using symbol_spells [OF assms(1,2), of "map of_nat w" tid] assms(3,4) by simp
qed

section \<open>Encoding\<close>

lemma concat_map_split:
  assumes "concat ss = map f bs"
  shows "\<exists>bss. ss = map (map f) bss \<and> concat bss = bs"
  using assms
proof (induction ss arbitrary: bs)
  case Nil
  then show ?case by (intro exI [of _ "[]"]) simp
next
  case (Cons s ss)
  from Cons.prems have eq: "s @ concat ss = map f bs" by simp
  have s: "s = map f (take (length s) bs)" using eq by (metis append_eq_conv_conj take_map)
  have "concat ss = map f (drop (length s) bs)" using eq by (metis append_eq_conv_conj drop_map)
  with Cons.IH obtain bss where "ss = map (map f) bss" "concat bss = drop (length s) bs" by blast
  with s have "s # ss = map (map f) (take (length s) bs # bss) \<and> concat (take (length s) bs # bss) = bs" by simp
  then show ?case by (rule exI)
qed

lemma push_symbols_cases:
  "push_symbols tk symbols out \<noteq> Panic \<and>
   (\<forall>e. push_symbols tk symbols out = Err e \<longrightarrow> (\<exists>sym. e = MissingBpeToken sym \<and> token_to_id tk sym = None))"
proof (induction symbols arbitrary: out)
  case (Cons symbol symbols)
  then show ?case by (cases "token_to_id tk symbol") auto
qed simp

lemma push_symbols_spells:
  assumes "vocab_consistent tk" "printable_specials tk"
  shows "push_symbols tk (map (map bpe_byte_to_char) bss) out = Ok out' \<Longrightarrow> [] \<notin> set bss \<Longrightarrow>
    \<exists>ids. out' = out @ ids \<and> spells tk ids (concat bss)"
proof (induction bss arbitrary: out)
  case (Cons bs bss)
  then obtain tid where tid: "token_to_id tk (map bpe_byte_to_char bs) = Some tid"
    and rest: "push_symbols tk (map (map bpe_byte_to_char) bss) (out @ [tid]) = Ok out'"
    by (auto simp: bindR_Ok_iff)
  from Cons.prems have bs: "bs \<noteq> []" by auto
  from Cons.IH [OF rest] Cons.prems obtain ids where "out' = (out @ [tid]) @ ids" "spells tk ids (concat bss)" by auto
  with spells_append [OF symbol_spells [OF assms tid bs]] show ?case
    by (intro exI [of _ "tid # ids"]) auto
qed simp

lemma encode_bpe_segment_spells:
  assumes "vocab_consistent tk" "printable_specials tk" "encode_bpe_segment tk segment out = Ok out'"
  shows "\<exists>ids. out' = out @ ids \<and> spells tk ids (as_bytes segment)"
proof (cases "segment = []")
  case True
  with assms(3) show ?thesis by (simp add: encode_bpe_segment_def)
next
  case False
  let ?start = "map (\<lambda>byte. [bpe_byte_to_char byte]) (as_bytes segment)"
  let ?symbols = "merge_symbols (tk_registry tk) ?start"
  have start: "concat ?start = map bpe_byte_to_char (as_bytes segment)" "[] \<notin> set ?start"
    by (auto simp: concat_map_singleton)
  then have "concat ?symbols = map bpe_byte_to_char (as_bytes segment)" by (simp add: merge_symbols_concat)
  from concat_map_split [OF this] obtain bss where bss: "?symbols = map (map bpe_byte_to_char) bss" "concat bss = as_bytes segment"
    by blast
  have "[] \<notin> set ?symbols" by (rule merge_symbols_nonempty [OF start(2)])
  then have "[] \<notin> set bss" unfolding bss(1) by auto
  with push_symbols_spells [OF assms(1,2), of bss out out'] assms(3) False bss show ?thesis
    by (simp add: encode_bpe_segment_def Let_def)
qed

lemma encode_bpe_segments_spells:
  assumes "vocab_consistent tk" "printable_specials tk"
  shows "encode_bpe_segments tk segments out = Ok out' \<Longrightarrow> \<exists>ids. out' = out @ ids \<and> spells tk ids (as_bytes (concat segments))"
proof (induction segments arbitrary: out)
  case (Cons seg segments)
  then obtain out1 where a: "encode_bpe_segment tk seg out = Ok out1" "encode_bpe_segments tk segments out1 = Ok out'"
    by (auto simp: bindR_Ok_iff)
  from encode_bpe_segment_spells [OF assms a(1)] obtain xs where xs: "out1 = out @ xs" "spells tk xs (as_bytes seg)" by blast
  from Cons.IH [OF a(2)] obtain ys where ys: "out' = out1 @ ys" "spells tk ys (as_bytes (concat segments))" by blast
  from spells_append [OF xs(2) ys(2)] xs(1) ys(1) show ?case by (intro exI [of _ "xs @ ys"]) simp
qed simp

lemma encode_bpe_segments_cases:
  "encode_bpe_segments tk segments out \<noteq> Panic \<and>
   (\<forall>e. encode_bpe_segments tk segments out = Err e \<longrightarrow> (\<exists>sym. e = MissingBpeToken sym \<and> token_to_id tk sym = None))"
proof (induction segments arbitrary: out)
  case (Cons seg segments)
  have "encode_bpe_segment tk seg out \<noteq> Panic \<and>
      (\<forall>e. encode_bpe_segment tk seg out = Err e \<longrightarrow> (\<exists>sym. e = MissingBpeToken sym \<and> token_to_id tk sym = None))"
    using push_symbols_cases [of tk "merge_symbols (tk_registry tk) (map (\<lambda>byte. [bpe_byte_to_char byte]) (as_bytes seg))" out]
    by (simp add: encode_bpe_segment_def Let_def)
  with Cons show ?case by (cases "encode_bpe_segment tk seg out") auto
qed simp


lemma longest_special_printable:
  assumes "vocab_consistent tk" "longest_control_token_at tk (pre @ r) (str_len pre) ps = Some (w, len)" "printable_specials tk"
  shows "printable w"
  using longest_special(5) [OF assms(1,2)] assms(3) by (auto simp: printable_specials_def eligible_def)

definition encode_outcome :: "tokenizer \<Rightarrow> str \<Rightarrow> token_id list \<Rightarrow> token_id list tres \<Rightarrow> bool" where
  "encode_outcome tk r out res =
     (res \<noteq> Panic \<and> (\<forall>e. res = Err e \<longrightarrow> (\<exists>sym. e = MissingBpeToken sym \<and> token_to_id tk sym = None)) \<and>
      (\<forall>out'. res = Ok out' \<longrightarrow> adds_known tk out out') \<and>
      (\<forall>out'. res = Ok out' \<longrightarrow> printable_specials tk \<longrightarrow> (\<exists>ids. out' = out @ ids \<and> spells tk ids (as_bytes r))))"

lemma encode_outcome_step:
  assumes "encode_outcome tk r' out1 res"
    and "adds_known tk out out1"
    and "printable_specials tk \<Longrightarrow> \<exists>xs. out1 = out @ xs \<and> spells tk xs (as_bytes u)"
  shows "encode_outcome tk (u @ r') out res"
  unfolding encode_outcome_def
proof (intro conjI allI impI)
  fix out'
  assume a: "res = Ok out'" "printable_specials tk"
  from assms(3) [OF a(2)] obtain xs where xs: "out1 = out @ xs" "spells tk xs (as_bytes u)" by blast
  with assms(1) a obtain ids where "out' = out @ xs @ ids" "spells tk ids (as_bytes r')"
    unfolding encode_outcome_def by auto
  with spells_append [OF xs(2)]
  show "\<exists>ids. out' = out @ ids \<and> spells tk ids (as_bytes (u @ r'))" by auto
next
  show "adds_known tk out out'" if "res = Ok out'" for out'
    using assms(1,2) that adds_known_trans by (auto simp: encode_outcome_def)
qed (use assms(1) in \<open>auto simp: encode_outcome_def\<close>)

lemma encode_bpe_loop_ends:
  assumes ud: "unicode_consistent ud" and voc: "vocab_consistent tk"
  shows "\<exists>res. encode_bpe_loop ud tk (pre @ r) ps (str_len pre) out = Some res \<and> encode_outcome tk r out res"
proof (induction r arbitrary: pre out rule: length_induct)
  case (1 r)
  show ?case
  proof (cases "r = []")
    case True
    then show ?thesis by (subst encode_bpe_loop.simps) (simp add: encode_outcome_def)
  next
    case False
    then have lt: "str_len pre < str_len (pre @ r)" by (simp add: neq0_conv [symmetric] del: neq0_conv)
    show ?thesis
    proof (cases "longest_control_token_at tk (pre @ r) (str_len pre) ps")
      case (Some p)
      obtain w len where p: "p = (w, len)" by force
      note w = longest_special [OF voc Some [unfolded p]]
      from w(3) obtain r' where r: "r = w @ r'" by blast
      from w(4) obtain tid where tid: "token_to_id tk w = Some tid" by blast
      from 1 [rule_format, of r' "pre @ w" "out @ [tid]"] w(1) r obtain res where
        res: "encode_bpe_loop ud tk (pre @ r) ps (str_len pre + len) (out @ [tid]) = Some res"
          "encode_outcome tk r' (out @ [tid]) res"
        by (auto simp: w(2))
      from encode_outcome_step [OF res(2) adds_known_id [OF known_idsI(1) [OF tid]]] special_spells [OF voc _ tid w(1)] longest_special_printable [OF voc Some [unfolded p]]
      have "encode_outcome tk r out res" unfolding r by blast
      with res(1) lt Some p tid show ?thesis by (subst encode_bpe_loop.simps) auto
    next
      case None
      obtain u r' where u: "r = u @ r'" "u \<noteq> []" and e: "(case next_special_start tk (pre @ r) (str_len pre) ps of
          Some e \<Rightarrow> e | None \<Rightarrow> str_len (pre @ r)) = str_len pre + str_len u"
        using next_special_cases [OF None False] by blast
      have sl: "slice_range (pre @ r) (str_len pre) (str_len pre + str_len u) = (Ok u :: str tres)" unfolding u by simp
      from pretokenize_parts [OF ud, of "tk_pre tk" u] obtain segs where
        segs: "pretokenize ud (tk_pre tk) u = Some (Ok segs)" "concat segs = u" by blast
      have loop: "encode_bpe_loop ud tk (pre @ r) ps (str_len pre) out =
          (case encode_bpe_segments tk segs out of
             Ok out' \<Rightarrow> encode_bpe_loop ud tk (pre @ r) ps (str_len pre + str_len u) out'
           | Err e \<Rightarrow> Some (Err e) | Panic \<Rightarrow> Some Panic)"
        using lt None by (subst encode_bpe_loop.simps) (simp add: e sl segs Let_def)
      show ?thesis
      proof (cases "encode_bpe_segments tk segs out")
        case (Ok out1)
        from 1 [rule_format, of r' "pre @ u" out1] u obtain res where
          res: "encode_bpe_loop ud tk (pre @ r) ps (str_len pre + str_len u) out1 = Some res" "encode_outcome tk r' out1 res"
          by auto
        have "encode_outcome tk r out res"
          unfolding u using encode_bpe_segments_spells [OF voc _ Ok] segs(2)
          by (intro encode_outcome_step [OF res(2) encode_bpe_segments_known [OF Ok]]) auto
        with res(1) Ok loop show ?thesis by simp
      next
        case (Err e)
        with loop encode_bpe_segments_cases [of tk segs out] show ?thesis by (auto simp: encode_outcome_def)
      next
        case Panic
        with encode_bpe_segments_cases [of tk segs out] show ?thesis by simp
      qed
    qed
  qed
qed


section \<open>Decoding\<close>

lemma encode_utf8_cont: "0 < i \<Longrightarrow> i < len_utf8 c \<Longrightarrow> cont_byte (encode_utf8 c ! i)"
proof -
  assume i: "0 < i" "i < len_utf8 c"
  have tl: "\<forall>b \<in> set (tl (encode_utf8 c)). cont_byte b"
    unfolding encode_utf8_def using cont_byte_of [of c] cont_byte_of [of "c div 64"] cont_byte_of [of "c div 4096"]
    by (simp del: of_nat_add)
  have "encode_utf8 c ! i = tl (encode_utf8 c) ! (i - 1)" using i by (simp add: nth_tl)
  with tl i show ?thesis by simp
qed

text \<open>A byte that is not a continuation byte starts a character.\<close>

lemma boundary_before:
  "as_bytes s = x @ a # y \<Longrightarrow> \<not> cont_byte a \<Longrightarrow> \<exists>s1 s2. s = s1 @ s2 \<and> x = as_bytes s1"
proof (induction s arbitrary: x)
  case Nil
  then show ?case by simp
next
  case (Cons c s)
  show ?case
  proof (cases "x = []")
    case True
    then show ?thesis by (metis append_Nil as_bytes_simps(1))
  next
    case False
    have eq: "encode_utf8 c @ as_bytes s = x @ a # y" using Cons.prems by simp
    have "len_utf8 c \<le> length x"
    proof (rule ccontr)
      assume "\<not> len_utf8 c \<le> length x"
      then have "encode_utf8 c ! length x = a"
        using eq by (metis length_encode_utf8 not_le nth_append nth_append_length)
      moreover have "cont_byte (encode_utf8 c ! length x)"
        using False \<open>\<not> len_utf8 c \<le> length x\<close> by (intro encode_utf8_cont) auto
      ultimately show False using Cons.prems(2) by simp
    qed
    then have "length (encode_utf8 c) \<le> length x" by simp
    then obtain x' where x: "x = encode_utf8 c @ x'"
      using eq by (metis append_eq_append_conv_if append_take_drop_id)
    with eq have x2: "as_bytes s = x' @ a # y" by simp
    from Cons.IH [OF x2 Cons.prems(2)] obtain s1 s2 where "s = s1 @ s2" "x' = as_bytes s1" by blast
    with x have "c # s = (c # s1) @ s2 \<and> x = as_bytes (c # s1)" by simp
    then show ?thesis by blast
  qed
qed

lemma as_bytes_prefix:
  assumes "as_bytes t @ b = as_bytes s" "list_all is_scalar t" "list_all is_scalar s"
  shows "\<exists>u. s = t @ u \<and> b = as_bytes u"
proof -
  from utf8_prefix_as_bytes [OF assms(2), of b] utf8_prefix_as_bytes [OF assms(3), of "[]"] assms(1)
  have p: "t @ fst (utf8_prefix b) = s" "snd (utf8_prefix b) = []" by simp_all
  then have "utf8_prefix b = (fst (utf8_prefix b), [])" by (metis prod.collapse)
  from utf8_prefix_sound [OF this] p(1) show ?thesis by auto
qed

lemma push_token_bytes_Ok:
  "\<forall>c \<in> set chs. bpe_char_to_byte c \<noteq> None \<Longrightarrow>
    push_token_bytes t rs chs bs = Ok (bs @ map (the \<circ> bpe_char_to_byte) chs)"
  by (induction chs arbitrary: bs) auto

lemma printable_scalar: "printable w \<Longrightarrow> list_all is_scalar w"
  by (induction w) (auto simp: printable_def is_scalar_def)

lemma printable_not_cont: "printable (c # w) \<Longrightarrow> \<exists>a r. as_bytes (c # w) = a # r \<and> \<not> cont_byte a"
  using unat_u8 [of c] by (auto simp: printable_def printable_byte in_range_def)

lemma decode_bpe_spells:
  assumes "list_all is_scalar s"
  shows "spells tk ids p \<Longrightarrow> list_all is_scalar t \<Longrightarrow> as_bytes t @ b @ p = as_bytes s \<Longrightarrow>
    decode_bpe_loop tk False ids b t = Ok s"
proof (induction ids arbitrary: b t p)
  case Nil
  then have "as_bytes t @ b = as_bytes s" by simp
  from as_bytes_prefix [OF this Nil(2) assms] obtain u where "s = t @ u" "b = as_bytes u" by blast
  with assms show ?case by (simp add: flush_as_bytes)
next
  case (Cons tid ids)
  from Cons.prems(1) obtain p' where p: "p = piece tk tid @ p'" "spells tk ids p'" and dec: "decodable tk tid"
    by (auto simp: spells_def)
  from dec obtain tok where tok: "get_token tk tid = Some tok"
    "if shown_as_text tok then t_text tok \<noteq> [] \<and> printable (t_text tok) else \<forall>c \<in> set (t_text tok). bpe_char_to_byte c \<noteq> None"
    by (auto simp: decodable_def)
  show ?case
  proof (cases "shown_as_text tok")
    case False
    then have "decode_bpe_loop tk False (tid # ids) b t = decode_bpe_loop tk False ids (b @ piece tk tid) t"
      using tok push_token_bytes_Ok [of "t_text tok" tok False b] by (simp add: shown_as_text_def piece_def)
    with Cons.IH [OF p(2) Cons.prems(2), of "b @ piece tk tid"] Cons.prems(3) p(1) show ?thesis by simp
  next
    case True
    with tok obtain c w where w: "t_text tok = c # w" "printable (c # w)" by (cases "t_text tok") auto
    then obtain a r where a: "as_bytes (c # w) = a # r" "\<not> cont_byte a" using printable_not_cont by blast
    have pc: "piece tk tid = as_bytes (t_text tok)" using tok(1) True by (simp add: piece_def)
    have "p = a # r @ p'" using p(1) pc w(1) a(1) by (simp only: append_Cons)
    then have "as_bytes s = (as_bytes t @ b) @ a # r @ p'" using Cons.prems(3) by simp
    from boundary_before [OF this a(2)] obtain s1 s2 where s: "s = s1 @ s2" "as_bytes t @ b = as_bytes s1" by blast
    from as_bytes_prefix [OF s(2) Cons.prems(2)] assms s(1) obtain u where u: "s1 = t @ u" "b = as_bytes u" by auto
    have "decode_bpe_loop tk False (tid # ids) b t = decode_bpe_loop tk False ids [] ((t @ u) @ t_text tok)"
      using tok(1) True u assms s(1) by (simp add: shown_as_text_def flush_as_bytes)
    moreover have "list_all is_scalar ((t @ u) @ t_text tok)"
      using assms s(1) u(1) printable_scalar [OF w(2)] w(1) by simp
    moreover have "as_bytes ((t @ u) @ t_text tok) @ [] @ p' = as_bytes s"
      using Cons.prems(3) p(1) pc u(2) by simp
    ultimately show ?thesis using Cons.IH [OF p(2)] by simp
  qed
qed


section \<open>The theorems\<close>

text \<open>Encoding a text with a byte-level BPE vocabulary ends, whatever the text, the dialect and the special
  tokens are: it gives token ids, or the error that names a merged symbol without a token, and never panics on a slice or
  stays at an offset.\<close>

theorem encode_bpe_text_terminates:
  assumes "unicode_consistent ud" "vocab_consistent tk"
  shows "(\<exists>ids. encode_bpe_text ud tk s parse_special = Some (Ok ids)) \<or>
    (\<exists>symbol. encode_bpe_text ud tk s parse_special = Some (Err (MissingBpeToken symbol)) \<and> token_to_id tk symbol = None)"
proof -
  obtain res where res: "encode_bpe_text ud tk s parse_special = Some res" "encode_outcome tk s [] res"
    using encode_bpe_loop_ends [OF assms, of "[]" s parse_special "[]"] by (auto simp: encode_bpe_text_def)
  then show ?thesis by (cases res) (auto simp: encode_outcome_def)
qed

text \<open>A small vocabulary: bytes of ASCII and of a two-byte character, one merge, one control token.\<close>

definition demo_texts :: "(str \<times> token_kind) list" where
  "demo_texts = [([104], Normal), ([105], Normal), ([104, 105], Normal), ([288], Normal), ([195], Normal), ([169], Normal),
     ([60, 124, 101, 124, 62], Control)]"

lemma unicode_consistent_ascii: "unicode_consistent ascii_data"
  by (auto simp: unicode_consistent_def is_number_def ascii_data_def is_number_category_def
      is_ascii_lowercase_def is_ascii_uppercase_def)

definition demo_tokenizer :: tokenizer where
  "demo_tokenizer = tokenizer_of demo_texts [[104, 32, 105]]"

theorem encode_bpe_text_terminates_witness:
  "encode_bpe_text ascii_data demo_tokenizer [104, 105, 120] True = Some (Err (MissingBpeToken [120])) \<and>
   token_to_id demo_tokenizer [120] = None"
proof -
  have "vocab_consistent demo_tokenizer"
    unfolding demo_tokenizer_def by (rule vocab_consistent_of) (simp add: demo_texts_def)
  from encode_bpe_text_terminates [OF unicode_consistent_ascii this, of "[104, 105, 120]" True]
  have "encode_bpe_text ascii_data demo_tokenizer [104, 105, 120] True \<noteq> None" by auto
  moreover have "encode_bpe_text ascii_data demo_tokenizer [104, 105, 120] True = Some (Err (MissingBpeToken [120]))"
    by code_simp
  moreover have "token_to_id demo_tokenizer [120] = None" by code_simp
  ultimately show ?thesis by blast
qed

text \<open>C16. Decoding what was encoded gives back the text, character for character, for every text, dialect and
  setting of the special-token parsing, whenever encoding succeeds and the special tokens are spelled in visible ASCII: bytes
  that are split over several tokens are reassembled, and special tokens in the text flush them at character boundaries.\<close>

theorem bpe_decode_encode:
  assumes "unicode_consistent ud" "vocab_consistent tk" "printable_specials tk" "list_all is_scalar s"
    and "encode_bpe_text ud tk s parse_special = Some (Ok ids)"
  shows "decode_bpe tk ids False = Ok s"
proof -
  obtain res where "encode_bpe_text ud tk s parse_special = Some res" "encode_outcome tk s [] res"
    using encode_bpe_loop_ends [OF assms(1,2), of "[]" s parse_special "[]"] by (auto simp: encode_bpe_text_def)
  with assms(3,5) have "spells tk ids (as_bytes s)" by (auto simp: encode_outcome_def)
  from decode_bpe_spells [OF assms(4) this, of "[]" "[]"] show ?thesis by (simp add: decode_bpe_def)
qed


theorem bpe_decode_encode_witness:
  "encode_bpe_text ascii_data demo_tokenizer ([104, 105, 32, 233] @ lit ''<|e|>hi'') True = Some (Ok [2, 3, 4, 5, 6, 2]) \<and>
   decode_bpe demo_tokenizer [2, 3, 4, 5, 6, 2] False = Ok ([104, 105, 32, 233] @ lit ''<|e|>hi'')"
proof -
  let ?s = "[104, 105, 32, 233] @ lit ''<|e|>hi''"
  have voc: "vocab_consistent demo_tokenizer"
    unfolding demo_tokenizer_def by (rule vocab_consistent_of) (simp add: demo_texts_def)
  have run: "encode_bpe_text ascii_data demo_tokenizer ?s True = Some (Ok [2, 3, 4, 5, 6, 2])" by code_simp
  have "printable_specials demo_tokenizer"
    by (simp add: printable_specials_def demo_tokenizer_def tokenizer_of_def tokens_of_def demo_texts_def
        enumerate_eq_zip printable_def upt_rec)
  moreover have "list_all is_scalar ?s" by code_simp
  ultimately show ?thesis
    using bpe_decode_encode [OF unicode_consistent_ascii voc _ _ run] run by blast
qed

lemma space_has_no_byte: "bpe_char_to_byte 32 = None"
  by (auto simp: bpe_char_to_byte_def find_None_iff bpe_byte_to_char_def visible_byte_def Let_def)

text \<open>A special token is found in its own text, whole.\<close>

lemma longest_control_token_at_self:
  assumes voc: "vocab_consistent tk" and t: "t \<in> set (tk_tokens tk)" "t_kind t = UserDefined" "t_text t \<noteq> []"
  shows "longest_control_token_at tk (t_text t) 0 ps = Some (t_text t, str_len (t_text t))"
proof -
  let ?M = "filter (starts_with (t_text t)) (map t_text (filter (eligible ps) (tk_tokens tk)))"
  have self: "t_text t \<in> set ?M" using t by (auto simp: eligible_def starts_with_iff)
  then have "?M \<noteq> []" by (cases ?M) auto
  then obtain m where m: "max_by_len ?M = Some m" using max_by_len_None by blast
  note max = max_by_len_Some [OF m]
  from max have st: "starts_with (t_text t) m" by auto
  have "str_len (t_text t) \<le> str_len m" using max self by blast
  moreover from st obtain u where u: "t_text t = m @ u" by (auto simp: starts_with_iff)
  ultimately have "m = t_text t" by simp
  moreover have "get_from (t_text t) 0 = Some (t_text t)" using get_from_append [of "[]" "t_text t"] by simp
  ultimately show ?thesis using m voc
    by (simp add: longest_control_token_at_def vocab_consistent_def longest_at_scan scan_longest_at_def)
qed

lemma push_token_bytes_rejects:
  assumes "bpe_char_to_byte c = None" "\<forall>x \<in> set front. bpe_char_to_byte x \<noteq> None"
  shows "push_token_bytes t False (front @ c # rest) bs = Err (NonByteCharacter (t_text t) c)"
  using assms by (induction front arbitrary: bs) auto

lemma decode_bpe_loop_rejects:
  assumes "get_token tk tid = Some t" "t_kind t = UserDefined" "\<not> is_chat_control_marker t"
    and "c \<in> set (t_text t)" "bpe_char_to_byte c = None"
  shows "tid \<in> set ids \<Longrightarrow> decode_bpe_loop tk False ids bs out \<noteq> Ok r"
proof (induction ids arbitrary: bs out)
  case (Cons i ids)
  from assms(4,5) obtain front d rest where d: "t_text t = front @ d # rest" "bpe_char_to_byte d = None"
    "\<forall>x \<in> set front. bpe_char_to_byte x \<noteq> None"
    using split_list_first_prop [of "t_text t" "\<lambda>x. bpe_char_to_byte x = None"] by blast
  show ?case
  proof (cases "i = tid")
    case True
    with assms(1-3) d push_token_bytes_rejects [OF d(2,3)] show ?thesis by simp
  next
    case False
    with Cons have "decode_bpe_loop tk False ids bs' out' \<noteq> Ok r" for bs' out' by simp
    then show ?thesis by (auto simp: bindR_Ok_iff split: if_splits)
  qed
qed simp

text \<open>C38. Without that restriction the round trip fails. Take any user-defined token that is not a \<open><|...|>\<close> marker and
  whose text holds a character outside the byte alphabet, such as the runs of spaces that some vocabularies add. Encoding
  its text gives its id alone, whatever the text holds otherwise; but \<open>decode_bpe\<close> reads the characters of the token in the byte
  alphabet and rejects the id at the first character that is outside, and with it every list of ids that contains it.\<close>

theorem user_defined_token_not_decodable:
  assumes "vocab_consistent tk" "token_to_id tk (t_text t) = Some tid" "get_token tk tid = Some t"
    and "t_kind t = UserDefined" "\<not> is_chat_control_marker t"
    and "t_text t = front @ c # rest" "bpe_char_to_byte c = None" "\<forall>x \<in> set front. bpe_char_to_byte x \<noteq> None"
  shows "encode_bpe_text ud tk (t_text t) ps = Some (Ok [tid]) \<and>
    decode_bpe tk [tid] False = Err (NonByteCharacter (t_text t) c) \<and>
    (tid \<in> set ids \<longrightarrow> decode_bpe tk ids False \<noteq> Ok s)"
proof -
  from assms(3) have mem: "t \<in> set (tk_tokens tk)" by (auto simp: get_token_def list_get_def split: if_splits)
  have "t_text t \<noteq> []" by (simp add: assms(6))
  then have found: "longest_control_token_at tk (t_text t) 0 ps = Some (t_text t, str_len (t_text t))"
    by (rule longest_control_token_at_self [OF assms(1) mem assms(4)])
  have pos: "0 < str_len (t_text t)" using \<open>t_text t \<noteq> []\<close> by (meson gr0I str_len_0_iff)
  have "encode_bpe_text ud tk (t_text t) ps = Some (Ok [tid])"
    using pos assms(2) found by (simp add: encode_bpe_text_def encode_bpe_loop.simps)
  moreover have "decode_bpe tk [tid] False = Err (NonByteCharacter (t_text t) c)"
    using push_token_bytes_rejects [OF assms(7,8), of t rest "[]"] assms(3-6) by (simp add: decode_bpe_def)
  moreover have "tid \<in> set ids \<longrightarrow> decode_bpe tk ids False \<noteq> Ok s"
    unfolding decode_bpe_def using decode_bpe_loop_rejects [OF assms(3-5) _ assms(7)] assms(6) by simp
  ultimately show ?thesis by blast
qed

theorem user_defined_token_not_decodable_witness:
  "encode_bpe_text ascii_data (tokenizer_of [([97], Normal), ([98], Normal), ([32, 32], UserDefined)] []) [32, 32] False = Some (Ok [2]) \<and>
   decode_bpe (tokenizer_of [([97], Normal), ([98], Normal), ([32, 32], UserDefined)] []) [2] False = Err (NonByteCharacter [32, 32] 32) \<and>
   decode_bpe (tokenizer_of [([97], Normal), ([98], Normal), ([32, 32], UserDefined)] []) [0, 2, 1] False \<noteq> Ok (lit ''a  b'')"
proof -
  let ?tk = "tokenizer_of [([97], Normal), ([98], Normal), ([32, 32], UserDefined)] []"
  let ?t = "\<lparr>t_id = 2, t_text = [32, 32], t_score = 0, t_kind = UserDefined\<rparr>"
  have voc: "vocab_consistent ?tk" by (rule vocab_consistent_of) simp
  have look: "token_to_id ?tk (t_text ?t) = Some 2" "get_token ?tk 2 = Some ?t" "\<not> is_chat_control_marker ?t" by code_simp+
  show ?thesis
    using user_defined_token_not_decodable [OF voc look(1,2) _ look(3), of "[]" 32 "[32]" ascii_data False "[0, 2, 1]" "lit ''a  b''"]
      user_defined_token_not_decodable [OF voc look(1,2) _ look(3), of "[]" 32 "[32]" ascii_data False "[2]"]
      space_has_no_byte by simp
qed

end
