(* ===== verification/Wordpiece.thy ===== *)
theory Wordpiece
  imports Tokenizer Bpe_Regex
begin

text \<open>
  WordPiece (\<open>encode_wordpiece_text\<close> and \<open>decode_wordpiece\<close> of \<open>src/src/tokenizer/mod.rs\<close>): normalisation,
  the basic split at white space, punctuation and ideographs, and longest-match-first pieces for each
  word.

  Normalisation form D and \<open>char::to_lowercase\<close> are parameters, as the Unicode tables are; nothing is assumed
  of them.

  The theorems: the piece loop ends and finds exactly the longest-match segmentation, or fails when
  there is none; the basic split gives exactly the words of the text, which \<open>text_words\<close> defines by rules.
\<close>

section \<open>Characters\<close>

definition is_ascii_punctuation :: "rust_char \<Rightarrow> bool" where
  "is_ascii_punctuation c =
     ((33 \<le> c \<and> c \<le> 47) \<or> (58 \<le> c \<and> c \<le> 64) \<or> (91 \<le> c \<and> c \<le> 96) \<or> (123 \<le> c \<and> c \<le> 126))"

definition is_control :: "rust_char \<Rightarrow> bool" where
  "is_control c = (c \<le> 31 \<or> (127 \<le> c \<and> c \<le> 159))"

definition is_bert_punctuation :: "unicode_data \<Rightarrow> rust_char \<Rightarrow> bool" where
  "is_bert_punctuation ud ch =
     (is_ascii_punctuation ch \<or>
      (case ud_category ud ch of
         ConnectorPunctuation \<Rightarrow> True | DashPunctuation \<Rightarrow> True | OpenPunctuation \<Rightarrow> True | ClosePunctuation \<Rightarrow> True
       | InitialPunctuation \<Rightarrow> True | FinalPunctuation \<Rightarrow> True | OtherPunctuation \<Rightarrow> True | _ \<Rightarrow> False))"

definition is_single_bert_punctuation :: "unicode_data \<Rightarrow> str \<Rightarrow> bool" where
  "is_single_bert_punctuation ud s = (case s of [ch] \<Rightarrow> is_bert_punctuation ud ch | _ \<Rightarrow> False)"

definition is_cjk :: "rust_char \<Rightarrow> bool" where
  "is_cjk c =
     ((0x3400 \<le> c \<and> c \<le> 0x4dbf) \<or> (0x4e00 \<le> c \<and> c \<le> 0x9fff) \<or> (0x20000 \<le> c \<and> c \<le> 0x2a6df) \<or>
      (0x2a700 \<le> c \<and> c \<le> 0x2b73f) \<or> (0x2b740 \<le> c \<and> c \<le> 0x2b81f) \<or> (0x2b820 \<le> c \<and> c \<le> 0x2ceaf) \<or>
      (0xf900 \<le> c \<and> c \<le> 0xfaff) \<or> (0x2f800 \<le> c \<and> c \<le> 0x2fa1f))"

section \<open>Normalisation and the basic split\<close>

definition wordpiece_normalize :: "(str \<Rightarrow> str) \<Rightarrow> (rust_char \<Rightarrow> str) \<Rightarrow> unicode_data \<Rightarrow> str \<Rightarrow> str" where
  "wordpiece_normalize nfd to_lowercase ud s =
     filter (\<lambda>ch. \<not> (case ud_category ud ch of NonspacingMark \<Rightarrow> True | SpacingMark \<Rightarrow> True | EnclosingMark \<Rightarrow> True | _ \<Rightarrow> False))
       (concat (map to_lowercase (nfd s)))"

definition take_word :: "str \<Rightarrow> str list \<Rightarrow> str list" where
  "take_word current basic = (if current = [] then basic else basic @ [current])"

fun basic_split :: "unicode_data \<Rightarrow> str \<Rightarrow> str \<Rightarrow> str list \<Rightarrow> str list" where
  "basic_split ud [] current basic = take_word current basic"
| "basic_split ud (ch # chs) current basic =
     (if is_whitespace ch \<or> is_control ch then basic_split ud chs [] (take_word current basic)
      else if is_bert_punctuation ud ch \<or> is_cjk ch then basic_split ud chs [] (take_word current basic @ [[ch]])
      else basic_split ud chs (current @ [ch]) basic)"

section \<open>Pieces of a word\<close>

definition uses_gguf_word_start :: "tokenizer \<Rightarrow> bool" where
  "uses_gguf_word_start tk = list_ex (\<lambda>t. starts_with (t_text t) [SPM_SPACE]) (tk_tokens tk)"

text \<open>The lookup of \<open>primary\<close>, then \<open>fallback\<close>, for a body at the start of a word or later.\<close>

definition piece_id :: "tokenizer \<Rightarrow> bool \<Rightarrow> bool \<Rightarrow> str \<Rightarrow> token_id option" where
  "piece_id tk gguf first body =
     (let primary =
            (if gguf then (if first then SPM_SPACE # body else body)
             else if first then body else lit ''##'' @ body);
          fallback = (if first then body else lit ''##'' @ body)
      in case token_to_id tk primary of Some tid \<Rightarrow> Some tid | None \<Rightarrow> token_to_id tk fallback)"

text \<open>\<open>while start < end\<close>: the longest body that has a token.\<close>

function longest_piece :: "tokenizer \<Rightarrow> bool \<Rightarrow> str \<Rightarrow> usize \<Rightarrow> usize \<Rightarrow> (token_id \<times> usize) option" where
  "longest_piece tk gguf chars start end' =
     (if start < end' then
        (case piece_id tk gguf (start = 0) (take (end' - start) (drop start chars)) of
           Some tid \<Rightarrow> Some (tid, end')
         | None \<Rightarrow> longest_piece tk gguf chars start (end' - 1))
      else None)"
  by pat_completeness auto
termination by (relation "measure (\<lambda>(tk, gguf, chars, start, end'). end')") auto

declare longest_piece.simps [simp del]

lemma longest_piece_bounds: "longest_piece tk gguf chars start e = Some (tid, nx) \<Longrightarrow> start < nx \<and> nx \<le> e"
proof (induction e)
  case 0
  then show ?case by (simp add: longest_piece.simps)
next
  case (Suc e)
  then show ?case by (subst (asm) (2) longest_piece.simps) (auto split: if_splits option.splits)
qed

text \<open>\<open>while start < chars.len()\<close>; no result is the \<open>failed\<close> flag.\<close>

function word_pieces :: "tokenizer \<Rightarrow> bool \<Rightarrow> str \<Rightarrow> usize \<Rightarrow> token_id list \<Rightarrow> token_id list option" where
  "word_pieces tk gguf chars start pieces =
     (if start < length chars then
        (case longest_piece tk gguf chars start (length chars) of
           Some (tid, nx) \<Rightarrow> word_pieces tk gguf chars nx (pieces @ [tid])
         | None \<Rightarrow> None)
      else Some pieces)"
  by pat_completeness auto
termination
  by (relation "measure (\<lambda>(tk, gguf, chars, start, pieces). length chars - start)")
    (auto dest!: longest_piece_bounds)

declare word_pieces.simps [simp del]

fun encode_words :: "tokenizer \<Rightarrow> bool \<Rightarrow> token_id \<Rightarrow> str list \<Rightarrow> token_id list \<Rightarrow> token_id list" where
  "encode_words tk gguf unk [] out = out"
| "encode_words tk gguf unk (word # words) out =
     (if length word > 100 then encode_words tk gguf unk words (out @ [unk])
      else
        (case word_pieces tk gguf word 0 [] of
           None \<Rightarrow> encode_words tk gguf unk words (out @ [unk])
         | Some pieces \<Rightarrow> encode_words tk gguf unk words (out @ pieces)))"

definition encode_wordpiece_text ::
  "(str \<Rightarrow> str) \<Rightarrow> (rust_char \<Rightarrow> str) \<Rightarrow> unicode_data \<Rightarrow> tokenizer \<Rightarrow> str \<Rightarrow> token_id list tres" where
  "encode_wordpiece_text nfd to_lowercase ud tk s =
     (let basic = basic_split ud (wordpiece_normalize nfd to_lowercase ud s) [] [] in
      bindR (ok_or (sp_unk (tk_special tk)) NoUnknownToken) (\<lambda>unk.
        Ok (encode_words tk (uses_gguf_word_start tk) unk basic [])))"

section \<open>Decoding\<close>

definition push_word :: "str \<Rightarrow> str \<Rightarrow> str" where
  "push_word text word = (if text = [] then word else text @ [32] @ word)"

fun decode_wordpiece_loop :: "unicode_data \<Rightarrow> tokenizer \<Rightarrow> bool \<Rightarrow> bool \<Rightarrow> token_id list \<Rightarrow> str \<Rightarrow> str tres" where
  "decode_wordpiece_loop ud tk gguf remove_special [] text = Ok text"
| "decode_wordpiece_loop ud tk gguf remove_special (tid # ids) text =
     bindR (ok_or (get_token tk tid) (TokenOutOfRange tid)) (\<lambda>t.
       if remove_special \<and>
          (is_special tk tid \<or> t_kind t = Control \<or> (starts_with (t_text t) [91] \<and> ends_with (t_text t) [93]))
       then decode_wordpiece_loop ud tk gguf remove_special ids text
       else
         decode_wordpiece_loop ud tk gguf remove_special ids
           (case strip_prefix (t_text t) (lit ''##'') of
              Some suf \<Rightarrow> text @ suf
            | None \<Rightarrow>
                (case strip_prefix (t_text t) [SPM_SPACE] of
                   Some word \<Rightarrow>
                     if is_single_bert_punctuation ud word then text @ word else push_word text word
                 | None \<Rightarrow>
                     if is_single_bert_punctuation ud (t_text t) \<or> gguf then text @ t_text t
                     else push_word text (t_text t))))"

definition decode_wordpiece :: "unicode_data \<Rightarrow> tokenizer \<Rightarrow> token_id list \<Rightarrow> bool \<Rightarrow> str tres" where
  "decode_wordpiece ud tk ids remove_special =
     decode_wordpiece_loop ud tk (uses_gguf_word_start tk) remove_special ids []"

section \<open>Longest match\<close>

text \<open>A longest-match segmentation of what is left of a word: every piece is nonempty and has a token in its
  place, and no longer piece there has one.\<close>

fun longest_match :: "tokenizer \<Rightarrow> bool \<Rightarrow> bool \<Rightarrow> str \<Rightarrow> str list \<Rightarrow> bool" where
  "longest_match tk gguf first rest [] = (rest = [])"
| "longest_match tk gguf first rest (p # ps) =
     (p \<noteq> [] \<and> p = take (length p) rest \<and> piece_id tk gguf first p \<noteq> None \<and>
      (\<forall>n. length p < n \<and> n \<le> length rest \<longrightarrow> piece_id tk gguf first (take n rest) = None) \<and>
      longest_match tk gguf False (drop (length p) rest) ps)"

definition piece_ids :: "tokenizer \<Rightarrow> bool \<Rightarrow> bool \<Rightarrow> str list \<Rightarrow> token_id list" where
  "piece_ids tk gguf first ps =
     (case ps of [] \<Rightarrow> [] | p # qs \<Rightarrow> the (piece_id tk gguf first p) # map (\<lambda>q. the (piece_id tk gguf False q)) qs)"

lemma piece_ids_simps [simp]:
  "piece_ids tk gguf first [] = []"
  "piece_ids tk gguf first (p # ps) = the (piece_id tk gguf first p) # piece_ids tk gguf False ps"
  by (cases ps; simp add: piece_ids_def)+

lemma longest_piece_Some:
  "longest_piece tk gguf chars start e = Some (tid, nx) \<Longrightarrow>
    piece_id tk gguf (start = 0) (take (nx - start) (drop start chars)) = Some tid \<and>
    (\<forall>n. nx < n \<and> n \<le> e \<longrightarrow> piece_id tk gguf (start = 0) (take (n - start) (drop start chars)) = None)"
proof (induction e)
  case 0
  then show ?case by (simp add: longest_piece.simps)
next
  case (Suc e)
  show ?case
  proof (cases "start < Suc e \<and> piece_id tk gguf (start = 0) (take (Suc e - start) (drop start chars)) \<noteq> None")
    case True
    with Suc.prems show ?thesis by (subst (asm) longest_piece.simps) auto
  next
    case False
    with Suc.prems have "longest_piece tk gguf chars start e = Some (tid, nx)"
      and "piece_id tk gguf (start = 0) (take (Suc e - start) (drop start chars)) = None"
      by (simp_all add: longest_piece.simps [of tk gguf chars start "Suc e"] split: if_splits option.splits)
    with Suc.IH show ?thesis by (auto simp: le_Suc_eq)
  qed
qed

lemma longest_piece_None:
  "longest_piece tk gguf chars start e = None \<Longrightarrow> start < n \<Longrightarrow> n \<le> e \<Longrightarrow>
    piece_id tk gguf (start = 0) (take (n - start) (drop start chars)) = None"
proof (induction e)
  case (Suc e)
  from Suc.prems have "piece_id tk gguf (start = 0) (take (Suc e - start) (drop start chars)) = None"
    "longest_piece tk gguf chars start e = None"
    by (simp_all add: longest_piece.simps [of tk gguf chars start "Suc e"] split: if_splits option.splits)
  with Suc show ?case by (cases "n = Suc e") auto
qed simp


lemma longest_match_step:
  assumes "longest_piece tk gguf chars start (length chars) = Some (tid, nx)"
  shows "longest_match tk gguf (start = 0) (drop start chars) ps \<longleftrightarrow>
    (\<exists>qs. ps = take (nx - start) (drop start chars) # qs \<and> longest_match tk gguf (nx = 0) (drop nx chars) qs)"
proof -
  note b = longest_piece_bounds [OF assms]
  note l = longest_piece_Some [OF assms]
  let ?rest = "drop start chars" and ?p = "take (nx - start) (drop start chars)"
  have len: "length ?p = nx - start" "?p \<noteq> []" "drop (length ?p) ?rest = drop nx chars" using b by auto
  have top: "piece_id tk gguf (start = 0) (take n ?rest) = None" if "nx - start < n" "n \<le> length ?rest" for n
    using l b that by (auto dest: spec [of _ "n + start"])
  show ?thesis
  proof
    assume m: "longest_match tk gguf (start = 0) ?rest ps"
    then obtain p qs where ps: "ps = p # qs" using b by (cases ps) auto
    with m have p: "p \<noteq> []" "p = take (length p) ?rest" "piece_id tk gguf (start = 0) p \<noteq> None"
      "\<And>n. length p < n \<Longrightarrow> n \<le> length ?rest \<Longrightarrow> piece_id tk gguf (start = 0) (take n ?rest) = None"
      and rest: "longest_match tk gguf False (drop (length p) ?rest) qs" by auto
    have "length p \<le> length ?rest" using p(2) by (metis length_take min.cobounded1)
    have "length p = nx - start"
    proof (rule linorder_cases [of "length p" "nx - start"])
      assume "length p < nx - start"
      moreover have "nx - start \<le> length ?rest" using b by (simp add: diff_le_mono)
      ultimately show ?thesis using p(4) [of "nx - start"] l by simp
    next
      assume "nx - start < length p"
      then show ?thesis using top [of "length p"] p(2,3) \<open>length p \<le> length ?rest\<close> by simp
    qed
    with p(2) rest len b ps show "\<exists>qs. ps = ?p # qs \<and> longest_match tk gguf (nx = 0) (drop nx chars) qs" by auto
  next
    assume "\<exists>qs. ps = ?p # qs \<and> longest_match tk gguf (nx = 0) (drop nx chars) qs"
    with len l top b show "longest_match tk gguf (start = 0) ?rest ps" by (auto simp del: take_drop drop_drop)
  qed
qed

lemma longest_match_none:
  assumes "longest_piece tk gguf chars start (length chars) = None" "start < length chars"
  shows "\<not> longest_match tk gguf (start = 0) (drop start chars) ps"
proof
  assume m: "longest_match tk gguf (start = 0) (drop start chars) ps"
  then obtain p qs where ps: "ps = p # qs" using assms(2) by (cases ps) auto
  with m have p: "p \<noteq> []" "p = take (length p) (drop start chars)" "piece_id tk gguf (start = 0) p \<noteq> None" by auto
  have "length p \<le> length chars - start" using p(2) by (metis length_drop length_take min.cobounded1)
  then have "length p + start \<le> length chars" using assms(2) by simp
  with longest_piece_None [OF assms(1), of "length p + start"] p show False by auto
qed

lemma word_pieces_iff:
  "start \<le> length chars \<Longrightarrow>
    word_pieces tk gguf chars start acc = Some ids \<longleftrightarrow>
      (\<exists>ps. longest_match tk gguf (start = 0) (drop start chars) ps \<and> ids = acc @ piece_ids tk gguf (start = 0) ps)"
proof (induction tk gguf chars start acc rule: word_pieces.induct)
  case (1 tk gguf chars start acc)
  show ?case
  proof (cases "start < length chars")
    case False
    then have "longest_match tk gguf (start = 0) (drop start chars) ps \<longleftrightarrow> ps = []" for ps by (cases ps) auto
    with False show ?thesis by (subst word_pieces.simps) auto
  next
    case True
    show ?thesis
    proof (cases "longest_piece tk gguf chars start (length chars)")
      case None
      with longest_match_none [OF None True] True show ?thesis by (subst word_pieces.simps) simp
    next
      case (Some x)
      obtain tid nx where x: "x = (tid, nx)" by (cases x)
      note some = Some [unfolded x]
      note b = longest_piece_bounds [OF some] and l = longest_piece_Some [OF some]
      have "word_pieces tk gguf chars start acc = word_pieces tk gguf chars nx (acc @ [tid])"
        using True some by (subst word_pieces.simps) simp
      with 1(1) [OF True some refl] b have
        "word_pieces tk gguf chars start acc = Some ids \<longleftrightarrow>
          (\<exists>qs. longest_match tk gguf (nx = 0) (drop nx chars) qs \<and> ids = (acc @ [tid]) @ piece_ids tk gguf (nx = 0) qs)"
        by simp
      then show ?thesis unfolding longest_match_step [OF some] using l b by auto
    qed
  qed
qed

section \<open>The words of a text\<close>

definition separator :: "rust_char \<Rightarrow> bool" where
  "separator ch = (is_whitespace ch \<or> is_control ch)"

definition stands_alone :: "unicode_data \<Rightarrow> rust_char \<Rightarrow> bool" where
  "stands_alone ud ch = (\<not> separator ch \<and> (is_bert_punctuation ud ch \<or> is_cjk ch))"

definition in_word :: "unicode_data \<Rightarrow> rust_char \<Rightarrow> bool" where
  "in_word ud ch = (\<not> separator ch \<and> \<not> stands_alone ud ch)"

text \<open>
  What the words of a text are, without an algorithm: between gaps of separators, a word is one
  character that stands alone, or a longest run of characters that belong to words, so between two
  runs there is a gap that is not empty. The flag says whether a run was just before.
\<close>

inductive text_words :: "unicode_data \<Rightarrow> bool \<Rightarrow> str \<Rightarrow> str list \<Rightarrow> bool" for ud where
  text_end: "\<forall>c \<in> set gap. separator c \<Longrightarrow> text_words ud after_run gap []"
| text_single: "\<forall>c \<in> set gap. separator c \<Longrightarrow> stands_alone ud ch \<Longrightarrow> text_words ud False rest ws \<Longrightarrow>
    text_words ud after_run (gap @ [ch] @ rest) ([ch] # ws)"
| text_run: "\<forall>c \<in> set gap. separator c \<Longrightarrow> after_run \<longrightarrow> gap \<noteq> [] \<Longrightarrow> w \<noteq> [] \<Longrightarrow> \<forall>c \<in> set w. in_word ud c \<Longrightarrow>
    text_words ud True rest ws \<Longrightarrow> text_words ud after_run (gap @ w @ rest) (w # ws)"

lemma text_words_gap:
  assumes "text_words ud after_run t ws" "separator ch"
  shows "text_words ud after_run' (ch # t) ws"
  using assms(1)
proof cases
  case text_end
  then show ?thesis using assms(2) text_words.text_end [of "ch # t" ud after_run'] by simp
next
  case (text_single gap c rest ws')
  then show ?thesis using assms(2) text_words.text_single [of "ch # gap" ud c rest ws' after_run'] by simp
next
  case (text_run gap w rest ws')
  then show ?thesis using assms(2) text_words.text_run [of "ch # gap" after_run' w ud rest ws'] by simp
qed

lemma basic_split_acc: "basic_split ud s current basic = basic @ basic_split ud s current []"
proof (induction s arbitrary: current basic)
  case (Cons c s)
  have t: "take_word current basic = basic @ take_word current []" by (simp add: take_word_def)
  show ?case
    using Cons.IH [of "[]" "take_word current basic"] Cons.IH [of "[]" "take_word current []"]
      Cons.IH [of "[]" "take_word current basic @ [[c]]"] Cons.IH [of "[]" "take_word current [] @ [[c]]"]
      Cons.IH [of "current @ [c]" basic] t by auto
qed (simp add: take_word_def)

lemma basic_split_words:
  "\<forall>c \<in> set current. in_word ud c \<Longrightarrow> text_words ud False (current @ s) (basic_split ud s current [])"
proof (induction s arbitrary: current)
  case Nil
  have "text_words ud False (current @ []) [current]" if "current \<noteq> []"
    using text_run [of "[]" False current ud "[]" "[]"] text_end [of "[]" ud True] that Nil by simp
  then show ?case using text_end [of "[]" ud False] by (simp add: take_word_def)
next
  case (Cons ch s)
  note rest = Cons.IH [of "[]", simplified]
  have ended: "text_words ud False (current @ t) (take_word current [] @ ws)" if "text_words ud False t ws" "text_words ud True t ws" for t ws
    using that text_run [of "[]" False current ud t ws] Cons.prems by (simp add: take_word_def)
  consider "separator ch" | "stands_alone ud ch" | "in_word ud ch" by (auto simp: in_word_def)
  then show ?case
  proof cases
    case 1
    then have "basic_split ud (ch # s) current [] = take_word current [] @ basic_split ud s [] []"
      using basic_split_acc [of ud s "[]" "take_word current []"] by (simp add: separator_def)
    with ended [OF text_words_gap [OF rest 1] text_words_gap [OF rest 1]] show ?thesis by simp
  next
    case 2
    then have "basic_split ud (ch # s) current [] = take_word current [] @ [ch] # basic_split ud s [] []"
      using basic_split_acc [of ud s "[]" "take_word current [] @ [[ch]]"] by (auto simp: separator_def stands_alone_def)
    moreover have "text_words ud p (ch # s) ([ch] # basic_split ud s [] [])" for p
      using text_single [of "[]" ud ch s _ p, OF _ 2 rest] by simp
    ultimately show ?thesis using ended by simp
  next
    case 3
    then have "basic_split ud (ch # s) current [] = basic_split ud s (current @ [ch]) []"
      by (auto simp: separator_def in_word_def stands_alone_def)
    with Cons.IH [of "current @ [ch]"] Cons.prems 3 show ?thesis by simp
  qed
qed

section \<open>The theorem\<close>

definition word_spec :: "tokenizer \<Rightarrow> bool \<Rightarrow> token_id \<Rightarrow> str \<Rightarrow> token_id list \<Rightarrow> bool" where
  "word_spec tk gguf unk word ids =
     (if length word > 100 \<or> (\<forall>ps. \<not> longest_match tk gguf True word ps) then ids = [unk]
      else \<exists>ps. longest_match tk gguf True word ps \<and> ids = piece_ids tk gguf True ps)"

lemma encode_words_spec:
  "\<exists>idss. encode_words tk gguf unk words out = out @ concat idss \<and> list_all2 (word_spec tk gguf unk) words idss"
proof (induction words arbitrary: out)
  case (Cons word words)
  have w: "word_pieces tk gguf word 0 [] = Some ids \<longleftrightarrow>
      (\<exists>ps. longest_match tk gguf True word ps \<and> ids = piece_ids tk gguf True ps)" for ids
    using word_pieces_iff [of 0 word tk gguf "[]" ids] by simp
  obtain ids where ids: "word_spec tk gguf unk word ids"
    "encode_words tk gguf unk (word # words) out = encode_words tk gguf unk words (out @ ids)"
  proof (cases "word_pieces tk gguf word 0 []")
    case None
    then have "\<forall>ps. \<not> longest_match tk gguf True word ps" using w by fastforce
    with None that [of "[unk]"] show thesis by (simp add: word_spec_def)
  next
    case (Some pieces)
    then obtain ps where "longest_match tk gguf True word ps" "pieces = piece_ids tk gguf True ps" using w by blast
    then have "word_spec tk gguf unk word (if length word > 100 then [unk] else pieces)" by (auto simp: word_spec_def)
    with Some that [of "if length word > 100 then [unk] else pieces"] show thesis by simp
  qed
  from Cons [of "out @ ids"] obtain idss where
    "encode_words tk gguf unk words (out @ ids) = (out @ ids) @ concat idss" "list_all2 (word_spec tk gguf unk) words idss" by blast
  with ids show ?case by (intro exI [of _ "ids # idss"]) simp
qed simp

text \<open>C20. WordPiece encoding gives, for the words of the normalised text, each word's longest-match-first
  segmentation, or the unknown token for a word that has none or is longer than a hundred characters: at no place of a word
  could a longer piece with a token have been taken. The words are those of \<open>text_words\<close>: the punctuation characters and
  ideographs one by one, and the longest runs of other characters between them, white space and control characters.
  The tokenizer has an unknown token.\<close>

theorem wordpiece_is_longest_match:
  assumes "sp_unk (tk_special tk) = Some unk"
  shows "\<exists>words idss. encode_wordpiece_text nfd to_lowercase ud tk s = Ok (concat idss) \<and>
    text_words ud False (wordpiece_normalize nfd to_lowercase ud s) words \<and>
    list_all2 (word_spec tk (uses_gguf_word_start tk) unk) words idss"
proof -
  let ?words = "basic_split ud (wordpiece_normalize nfd to_lowercase ud s) [] []"
  from encode_words_spec [of tk "uses_gguf_word_start tk" unk ?words "[]"] obtain idss where
    "encode_words tk (uses_gguf_word_start tk) unk ?words [] = concat idss"
    "list_all2 (word_spec tk (uses_gguf_word_start tk) unk) ?words idss" by auto
  moreover have "text_words ud False (wordpiece_normalize nfd to_lowercase ud s) ?words"
    using basic_split_words [of "[]" ud "wordpiece_normalize nfd to_lowercase ud s"] by simp
  ultimately show ?thesis using assms by (intro exI [of _ ?words] exI [of _ idss]) (simp add: encode_wordpiece_text_def)
qed


definition wordpiece_demo :: tokenizer where
  "wordpiece_demo =
     (tokenizer_of [(lit ''[UNK]'', Unknown), (lit ''un'', Normal), (lit ''##aff'', Normal), (lit ''##able'', Normal),
        (lit ''##a'', Normal), (lit ''!'', Normal)] [])
     \<lparr>tk_model := BertWordPiece, tk_special := \<lparr>sp_bos = None, sp_eos = None, sp_eot = None, sp_eom = None,
        sp_unk = Some 0, sp_sep = None, sp_pad = None, sp_mask = None, sp_eog = {}\<rparr>\<rparr>"

theorem wordpiece_is_longest_match_witness:
  "encode_wordpiece_text id (\<lambda>c. [to_ascii_lowercase c]) ascii_data wordpiece_demo (lit ''Unaffable! xyz'') = Ok [1, 2, 3, 5, 0] \<and>
   (\<exists>words idss. concat idss = [1, 2, 3, 5, 0] \<and> text_words ascii_data False (lit ''unaffable! xyz'') words \<and>
      list_all2 (word_spec wordpiece_demo (uses_gguf_word_start wordpiece_demo) 0) words idss)"
proof -
  have run: "encode_wordpiece_text id (\<lambda>c. [to_ascii_lowercase c]) ascii_data wordpiece_demo (lit ''Unaffable! xyz'') = Ok [1, 2, 3, 5, 0]"
    by code_simp
  have "wordpiece_normalize id (\<lambda>c. [to_ascii_lowercase c]) ascii_data (lit ''Unaffable! xyz'') = lit ''unaffable! xyz''" by code_simp
  moreover have "sp_unk (tk_special wordpiece_demo) = Some 0" by (simp add: wordpiece_demo_def)
  ultimately show ?thesis
    using wordpiece_is_longest_match [of wordpiece_demo 0 id "\<lambda>c. [to_ascii_lowercase c]" ascii_data "lit ''Unaffable! xyz''"] run
    by (auto simp: eq_commute [of "concat _"])
qed

end
