(* ===== verification/Gguf_Metadata.thy ===== *)
theory Gguf_Metadata
  imports Gguf_Directory Utf8_Text
begin

text \<open>
  The typed accessors on the metadata of a parsed file (\<open>impl GgufFile\<close> of \<open>src/src/gguf/reader.rs\<close>). Keys are
  the bytes of their UTF-8 text, as in the parsed map; a string value is given as the characters its
  bytes encode. An \<open>i32\<close> is given as an integer.
\<close>

type_synonym 'a gres = "('a, gguf_error) outcome"

definition metadata_string :: "gguf_file \<Rightarrow> string \<Rightarrow> str option" where
  "metadata_string gf key =
     (case gf_metadata gf (ascii key) of Some (MString v) \<Rightarrow> Some (fst (utf8_prefix v)) | _ \<Rightarrow> None)"

definition gf_architecture :: "gguf_file \<Rightarrow> str option" where
  "gf_architecture gf = metadata_string gf ''general.architecture''"

definition gf_model_name :: "gguf_file \<Rightarrow> str option" where
  "gf_model_name gf = metadata_string gf ''general.name''"

definition metadata_bool :: "gguf_file \<Rightarrow> string \<Rightarrow> bool option" where
  "metadata_bool gf key = (case gf_metadata gf (ascii key) of Some (MBool v) \<Rightarrow> Some v | _ \<Rightarrow> None)"

definition metadata_u32 :: "gguf_file \<Rightarrow> string \<Rightarrow> u32 option" where
  "metadata_u32 gf key =
     (case gf_metadata gf (ascii key) of
        Some (MU32 v) \<Rightarrow> Some v
      | Some (MU64 v) \<Rightarrow> (if unat v < 2 ^ 32 then Some (of_nat (unat v)) else None)
      | _ \<Rightarrow> None)"

text \<open>\<open>collect\<close> into a \<open>Result\<close>: the first error ends it.\<close>

fun collectR :: "('a \<Rightarrow> ('b, 'e) outcome) \<Rightarrow> 'a list \<Rightarrow> ('b list, 'e) outcome" where
  "collectR f [] = Ok []"
| "collectR f (x # xs) = bindR (f x) (\<lambda>y. bindR (collectR f xs) (\<lambda>ys. Ok (y # ys)))"

definition array_element_string :: "string \<Rightarrow> metadata_value \<Rightarrow> str gres" where
  "array_element_string key v =
     (case v of MString b \<Rightarrow> Ok (fst (utf8_prefix b)) | _ \<Rightarrow> Err (WrongMetadataType (ascii key)))"

definition metadata_array_optional :: "(string \<Rightarrow> metadata_value \<Rightarrow> 'a gres) \<Rightarrow> gguf_file \<Rightarrow> string \<Rightarrow> 'a list option gres" where
  "metadata_array_optional element gf key =
     (case gf_metadata gf (ascii key) of
        Some (MArray vs) \<Rightarrow> bindR (collectR (element key) vs) (\<lambda>xs. Ok (Some xs))
      | Some _ \<Rightarrow> Err (WrongMetadataType (ascii key))
      | None \<Rightarrow> Ok None)"

definition metadata_array_strings :: "gguf_file \<Rightarrow> string \<Rightarrow> str list gres" where
  "metadata_array_strings gf key =
     (case gf_metadata gf (ascii key) of
        Some (MArray vs) \<Rightarrow> collectR (array_element_string key) vs
      | Some _ \<Rightarrow> Err (WrongMetadataType (ascii key))
      | None \<Rightarrow> Err (MissingMetadata (ascii key)))"

definition metadata_array_strings_optional :: "gguf_file \<Rightarrow> string \<Rightarrow> str list option gres" where
  "metadata_array_strings_optional = metadata_array_optional array_element_string"

definition array_element_f32 :: "string \<Rightarrow> metadata_value \<Rightarrow> u32 gres" where
  "array_element_f32 key v = (case v of MF32 x \<Rightarrow> Ok x | _ \<Rightarrow> Err (WrongMetadataType (ascii key)))"

definition metadata_array_f32_optional :: "gguf_file \<Rightarrow> string \<Rightarrow> u32 list option gres" where
  "metadata_array_f32_optional = metadata_array_optional array_element_f32"

definition array_element_u32 :: "string \<Rightarrow> metadata_value \<Rightarrow> u32 gres" where
  "array_element_u32 key v =
     (case v of
        MU32 x \<Rightarrow> Ok x
      | MI32 x \<Rightarrow> if 0 \<le> sint x then Ok x else Err (MetadataOutOfRange (ascii key))
      | MU64 x \<Rightarrow> if unat x < 2 ^ 32 then Ok (of_nat (unat x)) else Err (MetadataOutOfRange (ascii key))
      | _ \<Rightarrow> Err (WrongMetadataType (ascii key)))"

definition metadata_array_u32_optional :: "gguf_file \<Rightarrow> string \<Rightarrow> u32 list option gres" where
  "metadata_array_u32_optional = metadata_array_optional array_element_u32"

definition array_element_bool :: "string \<Rightarrow> metadata_value \<Rightarrow> bool gres" where
  "array_element_bool key v = (case v of MBool x \<Rightarrow> Ok x | _ \<Rightarrow> Err (WrongMetadataType (ascii key)))"

definition metadata_array_bools_optional :: "gguf_file \<Rightarrow> string \<Rightarrow> bool list option gres" where
  "metadata_array_bools_optional = metadata_array_optional array_element_bool"

definition array_element_i32 :: "string \<Rightarrow> metadata_value \<Rightarrow> int gres" where
  "array_element_i32 key v =
     (case v of
        MI32 x \<Rightarrow> Ok (sint x)
      | MU32 x \<Rightarrow> if unat x < 2 ^ 31 then Ok (int (unat x)) else Err (MetadataOutOfRange (ascii key))
      | _ \<Rightarrow> Err (WrongMetadataType (ascii key)))"

definition metadata_array_i32_optional :: "gguf_file \<Rightarrow> string \<Rightarrow> int list option gres" where
  "metadata_array_i32_optional = metadata_array_optional array_element_i32"

text \<open>A collected list has the length of the array and its elements are the converted ones.\<close>

lemma collectR_Ok_iff: "collectR f xs = Ok ys \<longleftrightarrow> list_all2 (\<lambda>x y. f x = Ok y) xs ys"
proof (induction xs arbitrary: ys)
  case (Cons x xs)
  then show ?case by (cases ys) (auto simp: bindR_Ok_iff)
qed (auto simp: list_all2_Nil)

end
