(* ===== verification/Tokenizer_Load.thy ===== *)
theory Tokenizer_Load
  imports Spm_Encode Bpe_Roundtrip Wordpiece Gguf_Metadata
begin

text \<open>
  Loading a tokenizer from the metadata of a model file, and the operations a loaded tokenizer offers
  (\<open>Tokenizer::from_gguf\<close>, \<open>encode\<close>, \<open>decode\<close>, \<open>constraint_token_bytes\<close> of \<open>src/src/tokenizer/mod.rs\<close>).

  The name of the file and the SHA-256 of its header, by which the one artifact with the \<open>gpt-4o\<close> dialect is
  admitted, are parameters.

  The theorems: what loads is well typed (every id it mentions is an index of its vocabulary, the maps agree
  with the token list); a loaded tokenizer encodes every text to valid ids, or reports a token that
  its vocabulary lacks, and never panics or hangs.
\<close>

section \<open>Dialects and defaults\<close>

definition is_llama3_bpe_signature :: "str list \<Rightarrow> bool" where
  "is_llama3_bpe_signature texts =
     (length texts = 128256 \<and> list_get texts 128000 = Some (lit ''<|begin_of_text|>'') \<and>
      list_get texts 128001 = Some (lit ''<|end_of_text|>'') \<and> list_get texts 128006 = Some (lit ''<|start_header_id|>'') \<and>
      list_get texts 128007 = Some (lit ''<|end_header_id|>'') \<and> list_get texts 128009 = Some (lit ''<|eot_id|>''))"

definition resolve_gpt2_pre_tokenizer :: "str option \<Rightarrow> str list \<Rightarrow> bool \<Rightarrow> bpe_pre_tokenizer tres" where
  "resolve_gpt2_pre_tokenizer pre texts allow_gpt4o =
     (if pre = Some (lit ''llama-bpe'') then Ok Llama3
      else if pre = Some (lit ''command-r'') then Ok CommandR
      else if pre = Some (lit ''qwen2'') then Ok Qwen2
      else if pre = Some (lit ''deepseek-r1-qwen'') then Ok Qwen2
      else if pre = Some (lit ''stablelm2'') then Ok Qwen2
      else if pre = Some (lit ''lfm2'') then Ok Llama3
      else if pre = Some (lit ''smaug-bpe'') then Ok Llama3
      else if pre = Some (lit ''smollm'') then Ok SmolLm
      else if pre = Some (lit ''tekken'') then Ok Tekken
      else if pre = Some (lit ''qwen35'') then Ok Qwen35
      else if pre = Some (lit ''gpt-4o'') then (if allow_gpt4o then Ok Gpt4o else Err Gpt4oNotAdmitted)
      else if pre = None \<and> is_llama3_bpe_signature texts then Ok Llama3
      else Err (UnsupportedPre pre))"

definition resolve_add_bos :: "str \<Rightarrow> str option \<Rightarrow> bool option \<Rightarrow> bool" where
  "resolve_add_bos model_name tokenizer_pre explicit_add_bos =
     (if starts_with model_name (lit ''gemma'') then True
      else case explicit_add_bos of Some b \<Rightarrow> b | None \<Rightarrow> tokenizer_pre \<noteq> Some (lit ''smaug-bpe''))"

definition is_pinned_phi4_mini_gpt4o_header :: "str option \<Rightarrow> str \<Rightarrow> bool" where
  "is_pinned_phi4_mini_gpt4o_header file_name sha =
     ((file_name = Some (lit ''Phi-4-mini-instruct-Q4_K_M.gguf'') \<and>
       sha = lit ''971d9aac49438815528a5036221d85b2b0cbaf8c13e05f412c4574e16d186312'') \<or>
      (file_name = Some (lit ''Phi-4-mini-instruct.Q8_0.gguf'') \<and>
       sha = lit ''fa7fa727c8b63338ceac32be0a0311e3af58c7826c1fee82c6689694eeb39931''))"

record file_identity =
  fi_name :: "str option"
  fi_header_sha256 :: "str option"

definition is_exact_phi4_mini_gpt4o :: "file_identity \<Rightarrow> gguf_file \<Rightarrow> bool" where
  "is_exact_phi4_mini_gpt4o fi gf =
     (if gf_architecture gf \<noteq> Some (lit ''phi3'') \<or> gf_model_name gf \<noteq> Some (lit ''Phi 4 Mini Instruct'') then False
      else case fi_header_sha256 fi of None \<Rightarrow> False | Some sha \<Rightarrow> is_pinned_phi4_mini_gpt4o_header (fi_name fi) sha)"

definition validate_token_id :: "special_name \<Rightarrow> token_id option \<Rightarrow> usize \<Rightarrow> unit tres" where
  "validate_token_id name tid len =
     (case tid of None \<Rightarrow> Ok () | Some i \<Rightarrow> if len \<le> unat i then Err (SpecialOutOfRange name i len) else Ok ())"

section \<open>Loading\<close>

definition tokenizer_model_of :: "str \<Rightarrow> tokenizer_model tres" where
  "tokenizer_model_of name =
     (if name = lit ''llama'' \<or> name = lit ''gemma2'' \<or> name = lit ''gemma3'' \<or> name = lit ''gemma4'' then Ok LlamaSpm
      else if name = lit ''gpt2'' then Ok Gpt2Bpe
      else if name = lit ''bert'' then Ok BertWordPiece
      else Err (UnsupportedModel name))"

text \<open>All neighbours of the scores equal, as floats.\<close>

definition scores_are_flat :: "u32 list \<Rightarrow> bool" where
  "scores_are_flat scores = (\<forall>(x, y) \<in> set (adjacent scores). f32_partial_cmp x y = Some OEqual)"

type_synonym vocab = "token list \<times> (str \<Rightarrow> token_id option) \<times> (u8 \<Rightarrow> token_id option)"

text \<open>The loop that fills the token list and the two maps.\<close>

fun load_vocab :: "u32 list \<Rightarrow> int list \<Rightarrow> usize \<Rightarrow> str list \<Rightarrow> vocab \<Rightarrow> vocab tres" where
  "load_vocab scores kinds idx [] v = Ok v"
| "load_vocab scores kinds idx (tx # tail) (tokens, by_text, by_byte) =
     bindR (index_at kinds idx) (\<lambda>k. bindR (kind_from_i32 k) (\<lambda>kind. bindR (index_at scores idx) (\<lambda>score.
       let tid = of_nat idx in
       load_vocab scores kinds (idx + 1) tail
         (tokens @ [\<lparr>t_id = tid, t_text = tx, t_score = score, t_kind = kind\<rparr>],
          by_text(tx \<mapsto> tid),
          (case parse_byte_token tx of Some byte \<Rightarrow> by_byte(byte \<mapsto> tid) | None \<Rightarrow> by_byte)))))"

definition or_option :: "'a option \<Rightarrow> 'a option \<Rightarrow> 'a option" where
  "or_option a b = (case a of Some x \<Rightarrow> Some x | None \<Rightarrow> b)"

definition EOG_MARKER_TEXTS :: "str list" where
  "EOG_MARKER_TEXTS =
     [lit ''<|end|>'', lit ''<|eot_id|>'', lit ''<|im_end|>'', lit ''<end_of_turn>'', lit ''<|eom_id|>'']"

definition resolve_specials :: "gguf_file \<Rightarrow> tokenizer_model \<Rightarrow> (str \<Rightarrow> token_id option) \<Rightarrow> special_tokens" where
  "resolve_specials gf model by_text =
     (let default_bos = (case model of LlamaSpm \<Rightarrow> Some 1 | Gpt2Bpe \<Rightarrow> by_text (lit ''<|begin_of_text|>'')
                         | BertWordPiece \<Rightarrow> or_option (by_text (lit ''[CLS]'')) (Some 101));
          default_eos = (case model of LlamaSpm \<Rightarrow> Some 2 | Gpt2Bpe \<Rightarrow> by_text (lit ''<|end_of_text|>'')
                         | BertWordPiece \<Rightarrow> or_option (by_text (lit ''[SEP]'')) (Some 102));
          default_unk = (case model of LlamaSpm \<Rightarrow> Some 0 | Gpt2Bpe \<Rightarrow> None
                         | BertWordPiece \<Rightarrow> or_option (by_text (lit ''[UNK]'')) (Some 100));
          bos = or_option (metadata_u32 gf ''tokenizer.ggml.bos_token_id'') default_bos;
          eos = or_option (metadata_u32 gf ''tokenizer.ggml.eos_token_id'') default_eos;
          unk = or_option (metadata_u32 gf ''tokenizer.ggml.unknown_token_id'') default_unk;
          eot = or_option (metadata_u32 gf ''tokenizer.ggml.eot_token_id'') (by_text (lit ''<|eot_id|>''));
          eom = metadata_u32 gf ''tokenizer.ggml.eom_token_id'';
          sep = or_option (metadata_u32 gf ''tokenizer.ggml.separator_token_id'')
                  (metadata_u32 gf ''tokenizer.ggml.seperator_token_id'');
          pad = metadata_u32 gf ''tokenizer.ggml.padding_token_id'';
          mask = metadata_u32 gf ''tokenizer.ggml.mask_token_id''
      in \<lparr>sp_bos = bos, sp_eos = eos, sp_eot = eot, sp_eom = eom, sp_unk = unk, sp_sep = sep, sp_pad = pad, sp_mask = mask,
          sp_eog = set_option eos \<union> set_option eot \<union> set_option eom \<union> \<Union> (set (map (set_option \<circ> by_text) EOG_MARKER_TEXTS))\<rparr>)"

definition validate_specials :: "special_tokens \<Rightarrow> usize \<Rightarrow> unit tres" where
  "validate_specials sp len =
     iterR (\<lambda>(name, tid). validate_token_id name tid len)
       [(NBos, sp_bos sp), (NEos, sp_eos sp), (NUnk, sp_unk sp), (NEot, sp_eot sp), (NEom, sp_eom sp), (NSep, sp_sep sp),
        (NPad, sp_pad sp), (NMask, sp_mask sp)]"

definition meta :: "'a gres \<Rightarrow> 'a tres" where
  "meta r = map_err MetadataError r"

definition check_len :: "(usize \<Rightarrow> usize \<Rightarrow> tokenizer_error) \<Rightarrow> 'a list \<Rightarrow> usize \<Rightarrow> unit tres" where
  "check_len e xs n = (if length xs < n then Err (e (length xs) n) else Ok ())"

definition from_gguf :: "file_identity \<Rightarrow> gguf_file \<Rightarrow> tokenizer tres" where
  "from_gguf fi gf =
     bindR (ok_or (metadata_string gf ''tokenizer.ggml.model'') TokenizerNotAvailable) (\<lambda>model_name.
     bindR (tokenizer_model_of model_name) (\<lambda>model.
     bindR (meta (metadata_array_strings gf ''tokenizer.ggml.tokens'')) (\<lambda>texts.
     bindR (if texts = [] then Err EmptyTokens else Ok ()) (\<lambda>_.
     bindR (if model = Gpt2Bpe
            then resolve_gpt2_pre_tokenizer (metadata_string gf ''tokenizer.ggml.pre'') texts (is_exact_phi4_mini_gpt4o fi gf)
            else Ok Llama3) (\<lambda>pre.
     bindR (meta (metadata_array_f32_optional gf ''tokenizer.ggml.scores'')) (\<lambda>o_scores.
     let scores = (case o_scores of Some x \<Rightarrow> x | None \<Rightarrow> replicate (length texts) 0) in
     bindR (check_len ScoresTooShort scores (length texts)) (\<lambda>_.
     bindR (meta (metadata_array_i32_optional gf ''tokenizer.ggml.token_type'')) (\<lambda>o_kinds.
     let kinds = (case o_kinds of Some x \<Rightarrow> x | None \<Rightarrow> replicate (length texts) 1) in
     bindR (check_len TokenTypeTooShort kinds (length texts)) (\<lambda>_.
     let spm_ignores_merges = (model_name = lit ''llama'' \<and> \<not> scores_are_flat (take (length texts) scores)) in
     bindR (if spm_ignores_merges then Ok []
            else bindR (meta (metadata_array_strings_optional gf ''tokenizer.ggml.merges''))
                   (\<lambda>om. Ok (case om of Some x \<Rightarrow> x | None \<Rightarrow> []))) (\<lambda>merges.
     let registry = from_merges merges in
     bindR (load_vocab scores kinds 0 texts ([], Map.empty, Map.empty)) (\<lambda>(tokens, by_text, by_byte).
     let sp = resolve_specials gf model by_text in
     bindR (validate_specials sp (length tokens)) (\<lambda>_.
     Ok \<lparr>tk_model = model, tk_pre = pre, tk_tokens = tokens, token_to_id = by_text, byte_token_to_id = by_byte,
         bpe_ranks = ranks registry, tk_registry = registry, tk_special = sp,
         tk_config =
           \<lparr>add_bos = resolve_add_bos model_name (metadata_string gf ''tokenizer.ggml.pre'')
                      (metadata_bool gf ''tokenizer.ggml.add_bos_token''),
            add_eos = (case metadata_bool gf ''tokenizer.ggml.add_eos_token'' of Some b \<Rightarrow> b | None \<Rightarrow> False),
            add_sep = (case metadata_bool gf ''tokenizer.ggml.add_sep_token'' of Some b \<Rightarrow> b | None \<Rightarrow> model = BertWordPiece),
            add_space_prefix = (case metadata_bool gf ''tokenizer.ggml.add_space_prefix'' of Some b \<Rightarrow> b | None \<Rightarrow> True),
            remove_extra_whitespaces =
              (case metadata_bool gf ''tokenizer.ggml.remove_extra_whitespaces'' of Some b \<Rightarrow> b | None \<Rightarrow> False)\<rparr>,
         tk_chat_template = metadata_string gf ''tokenizer.chat_template'',
         tk_specials_index = Some (index_build tokens)\<rparr>))))))))))))"

section \<open>Operations\<close>

definition push_option :: "'a option \<Rightarrow> 'a list \<Rightarrow> 'a list" where
  "push_option a xs = (case a of Some x \<Rightarrow> xs @ [x] | None \<Rightarrow> xs)"

text \<open>What \<open>encode\<close> depends on beside the tokenizer: the queue and the Unicode data.\<close>

record encode_env =
  ee_pick :: heap_pick
  ee_nfd :: "str \<Rightarrow> str"
  ee_to_lowercase :: "rust_char \<Rightarrow> str"
  ee_unicode :: unicode_data

definition encode_model_text :: "encode_env \<Rightarrow> tokenizer \<Rightarrow> str \<Rightarrow> bool \<Rightarrow> token_id list tres option" where
  "encode_model_text env tk text parse_special =
     (case tk_model tk of
        LlamaSpm \<Rightarrow> encode_spm_text (ee_pick env) tk text parse_special
      | Gpt2Bpe \<Rightarrow> if text \<noteq> [] then encode_bpe_text (ee_unicode env) tk text parse_special else Some (Ok [])
      | BertWordPiece \<Rightarrow>
          if text \<noteq> [] then Some (encode_wordpiece_text (ee_nfd env) (ee_to_lowercase env) (ee_unicode env) tk text)
          else Some (Ok []))"

definition encode :: "encode_env \<Rightarrow> tokenizer \<Rightarrow> str \<Rightarrow> bool \<Rightarrow> bool \<Rightarrow> token_id list tres option" where
  "encode env tk text add_special parse_special =
     (let out = (if add_special \<and> add_bos (tk_config tk) then push_option (sp_bos (tk_special tk)) [] else []) in
      map_option (\<lambda>r. bindR r (\<lambda>ids.
          let out = out @ ids in
          Ok (if add_special
              then (if add_sep (tk_config tk)
                    then push_option (or_option (sp_sep (tk_special tk)) (sp_eos (tk_special tk))) out
                    else if add_eos (tk_config tk) then push_option (sp_eos (tk_special tk)) out else out)
              else out)))
        (encode_model_text env tk text parse_special))"

definition decode :: "unicode_data \<Rightarrow> tokenizer \<Rightarrow> token_id list \<Rightarrow> bool \<Rightarrow> str tres" where
  "decode ud tk ids remove_special =
     (case tk_model tk of
        Gpt2Bpe \<Rightarrow> decode_bpe tk ids remove_special
      | BertWordPiece \<Rightarrow> decode_wordpiece ud tk ids remove_special
      | LlamaSpm \<Rightarrow> decode_spm tk ids remove_special)"

definition SPECIAL_TOKEN_MARKER :: u8 where
  "SPECIAL_TOKEN_MARKER = 0xff"

definition constraint_token_bytes :: "tokenizer \<Rightarrow> token_id \<Rightarrow> bytes tres" where
  "constraint_token_bytes tk tid =
     bindR (ok_or (get_token tk tid) (TokenOutOfRange tid)) (\<lambda>t.
       if t_kind t = Control \<or> tid \<in> sp_eog (tk_special tk) \<or> is_special tk tid \<or> is_chat_control_marker t
       then Ok (SPECIAL_TOKEN_MARKER # as_bytes (t_text t))
       else
         (case tk_model tk of
            LlamaSpm \<Rightarrow>
              (case parse_byte_token (t_text t) of Some byte \<Rightarrow> Ok [byte] | None \<Rightarrow> Ok (as_bytes (spm_visible (t_text t))))
          | Gpt2Bpe \<Rightarrow> collectR (\<lambda>ch. ok_or (bpe_char_to_byte ch) (NonByteCharacter (t_text t) ch)) (t_text t)
          | BertWordPiece \<Rightarrow>
              let piece = (case strip_prefix (t_text t) (lit ''##'') of Some r \<Rightarrow> r | None \<Rightarrow> t_text t);
                  body = (case strip_prefix piece [SPM_SPACE] of Some r \<Rightarrow> r | None \<Rightarrow> piece)
              in Ok (as_bytes body)))"


section \<open>What loading establishes\<close>

definition valid_id :: "tokenizer \<Rightarrow> token_id \<Rightarrow> bool" where
  "valid_id tk tid = (get_token tk tid \<noteq> None)"

definition valid_option :: "tokenizer \<Rightarrow> token_id option \<Rightarrow> bool" where
  "valid_option tk o_id = (case o_id of None \<Rightarrow> True | Some tid \<Rightarrow> valid_id tk tid)"

definition specials_valid :: "tokenizer \<Rightarrow> bool" where
  "specials_valid tk =
     (let sp = tk_special tk in
      list_all (valid_option tk) [sp_bos sp, sp_eos sp, sp_eot sp, sp_eom sp, sp_unk sp, sp_sep sp, sp_pad sp, sp_mask sp] \<and>
      (\<forall>tid \<in> sp_eog sp. valid_id tk tid))"

definition well_typed :: "tokenizer \<Rightarrow> bool" where
  "well_typed tk =
     (tk_tokens tk \<noteq> [] \<and> vocab_consistent tk \<and> specials_valid tk \<and> bpe_ranks tk = ranks (tk_registry tk) \<and>
      (\<forall>k < length (tk_tokens tk). t_id (tk_tokens tk ! k) = of_nat k) \<and>
      (\<forall>b tid. byte_token_to_id tk b = Some tid \<longrightarrow>
         (\<exists>t. get_token tk tid = Some t \<and> parse_byte_token (t_text t) = Some b)))"

definition vocab_inv :: "vocab \<Rightarrow> bool" where
  "vocab_inv v =
     (case v of (tokens, by_text, by_byte) \<Rightarrow>
        (\<forall>k < length tokens. t_id (tokens ! k) = of_nat k) \<and>
        (\<forall>w tid. by_text w = Some tid \<longrightarrow> (\<exists>k < length tokens. tid = of_nat k \<and> t_text (tokens ! k) = w)) \<and>
        (\<forall>t \<in> set tokens. by_text (t_text t) \<noteq> None) \<and>
        (\<forall>b tid. by_byte b = Some tid \<longrightarrow> (\<exists>k < length tokens. tid = of_nat k \<and> parse_byte_token (t_text (tokens ! k)) = Some b)))"

lemma vocab_inv_step:
  assumes "vocab_inv (tokens, by_text, by_byte)" "t_id t = of_nat (length tokens)" "t_text t = w"
  shows "vocab_inv (tokens @ [t], by_text(w \<mapsto> of_nat (length tokens)),
    (case parse_byte_token w of Some byte \<Rightarrow> by_byte(byte \<mapsto> of_nat (length tokens)) | None \<Rightarrow> by_byte))"
proof -
  let ?n = "length tokens"
  have inv: "\<exists>k < ?n. tid = of_nat k \<and> t_text (tokens ! k) = v" if "by_text v = Some tid" for v tid
    using assms(1) that unfolding vocab_inv_def by blast
  have ids: "\<forall>k < length (tokens @ [t]). t_id ((tokens @ [t]) ! k) = of_nat k"
    using assms(1,2) by (auto simp: vocab_inv_def nth_append less_Suc_eq)
  have tx: "\<exists>k < length (tokens @ [t]). tid = of_nat k \<and> t_text ((tokens @ [t]) ! k) = v"
    if "(by_text(w \<mapsto> of_nat ?n)) v = Some tid" for v tid
  proof (cases "v = w")
    case True
    with that assms(3) show ?thesis by (intro exI [of _ ?n]) simp
  next
    case False
    with that have "by_text v = Some tid" by simp
    from inv [OF this] obtain k where "k < ?n" "tid = of_nat k" "t_text (tokens ! k) = v" by blast
    then show ?thesis by (intro exI [of _ k]) (simp add: nth_append)
  qed
  have all: "\<forall>u \<in> set (tokens @ [t]). (by_text(w \<mapsto> of_nat ?n)) (t_text u) \<noteq> None"
    using assms(1,3) by (auto simp: vocab_inv_def)
  have old: "\<exists>k < length (tokens @ [t]). tid = of_nat k \<and> parse_byte_token (t_text ((tokens @ [t]) ! k)) = Some b"
    if "by_byte b = Some tid" for b tid
  proof -
    from that assms(1) obtain k where "k < ?n" "tid = of_nat k" "parse_byte_token (t_text (tokens ! k)) = Some b"
      unfolding vocab_inv_def by blast
    then show ?thesis by (intro exI [of _ k]) (simp add: nth_append)
  qed
  have byte: "\<exists>k < length (tokens @ [t]). tid = of_nat k \<and> parse_byte_token (t_text ((tokens @ [t]) ! k)) = Some b"
    if "(case parse_byte_token w of Some byte \<Rightarrow> by_byte(byte \<mapsto> of_nat ?n) | None \<Rightarrow> by_byte) b = Some tid" for b tid
  proof (cases "parse_byte_token w = Some b")
    case True
    with that assms(3) show ?thesis by (intro exI [of _ ?n]) simp
  next
    case False
    with that have "by_byte b = Some tid" by (auto split: option.splits if_splits)
    then show ?thesis by (rule old)
  qed
  from ids tx all byte show ?thesis unfolding vocab_inv_def by simp
qed

lemma load_vocab_inv:
  "load_vocab scores kinds (length tokens) tail (tokens, by_text, by_byte) = Ok v \<Longrightarrow> vocab_inv (tokens, by_text, by_byte) \<Longrightarrow>
    vocab_inv v \<and> map t_text (fst v) = map t_text tokens @ tail"
proof (induction tail arbitrary: tokens by_text by_byte)
  case (Cons tx tail)
  from Cons.prems(1) obtain kind score where
    st: "load_vocab scores kinds (length (tokens @ [\<lparr>t_id = of_nat (length tokens), t_text = tx, t_score = score, t_kind = kind\<rparr>])) tail
      (tokens @ [\<lparr>t_id = of_nat (length tokens), t_text = tx, t_score = score, t_kind = kind\<rparr>],
       by_text(tx \<mapsto> of_nat (length tokens)),
       (case parse_byte_token tx of Some byte \<Rightarrow> by_byte(byte \<mapsto> of_nat (length tokens)) | None \<Rightarrow> by_byte)) = Ok v"
    by (auto simp: bindR_Ok_iff Let_def)
  from Cons.IH [OF st vocab_inv_step [OF Cons.prems(2)]] show ?case by simp
qed auto

lemma load_vocab_no_panic:
  "idx + length tail \<le> length scores \<Longrightarrow> idx + length tail \<le> length kinds \<Longrightarrow> load_vocab scores kinds idx tail v \<noteq> Panic"
proof (induction tail arbitrary: idx v)
  case (Cons tx tail)
  obtain tokens by_text by_byte where v: "v = (tokens, by_text, by_byte)" by (cases v) auto
  have "list_get kinds idx = Some (kinds ! idx)" "list_get scores idx = Some (scores ! idx)"
    using Cons.prems by (simp_all add: list_get_def)
  moreover have "kind_from_i32 k \<noteq> Panic" for k by (simp add: kind_from_i32_def)
  ultimately show ?case
    using Cons.IH [of "Suc idx"] Cons.prems
    by (cases "kind_from_i32 (kinds ! idx)") (auto simp: v index_at_def Let_def)
qed (cases v; simp)

lemma validate_token_id_Ok:
  "validate_token_id name tid len = Ok () \<longleftrightarrow> (\<forall>i. tid = Some i \<longrightarrow> unat i < len)"
  by (auto simp: validate_token_id_def split: option.splits)

lemma validate_token_id_no_panic: "validate_token_id name tid len \<noteq> Panic"
  by (simp add: validate_token_id_def split: option.splits)

lemma validate_specials_Ok:
  "validate_specials sp len = Ok () \<longleftrightarrow>
     (\<forall>tid \<in> {sp_bos sp, sp_eos sp, sp_unk sp, sp_eot sp, sp_eom sp, sp_sep sp, sp_pad sp, sp_mask sp}.
        \<forall>i. tid = Some i \<longrightarrow> unat i < len)"
  unfolding validate_specials_def iterR_Ok_iff by (simp add: validate_token_id_Ok)

text \<open>Extracting the pieces of a successful load.\<close>

lemma from_gguf_Ok:
  assumes "from_gguf fi gf = Ok tk"
  obtains scores kinds texts where
    "texts \<noteq> []" "load_vocab scores kinds 0 texts ([], Map.empty, Map.empty) = Ok (tk_tokens tk, token_to_id tk, byte_token_to_id tk)"
    "tk_special tk = resolve_specials gf (tk_model tk) (token_to_id tk)" "validate_specials (tk_special tk) (length (tk_tokens tk)) = Ok ()"
    "bpe_ranks tk = ranks (tk_registry tk)" "tk_specials_index tk = Some (index_build (tk_tokens tk))"
  using assms unfolding from_gguf_def Let_def
  by (auto simp: bindR_Ok_iff split: if_splits)


lemma from_gguf_well_typed:
  assumes ok: "from_gguf fi gf = Ok tk" and small: "length (tk_tokens tk) \<le> 2 ^ 32"
  shows "well_typed tk"
proof -
  from from_gguf_Ok [OF ok] obtain scores kinds texts where
    load: "texts \<noteq> []" "load_vocab scores kinds 0 texts ([], Map.empty, Map.empty) = Ok (tk_tokens tk, token_to_id tk, byte_token_to_id tk)"
    and sp: "tk_special tk = resolve_specials gf (tk_model tk) (token_to_id tk)" "validate_specials (tk_special tk) (length (tk_tokens tk)) = Ok ()"
    and rest: "bpe_ranks tk = ranks (tk_registry tk)" "tk_specials_index tk = Some (index_build (tk_tokens tk))" .
  have "vocab_inv ([], Map.empty, Map.empty)" by (simp add: vocab_inv_def)
  with load_vocab_inv [of scores kinds "[]" texts Map.empty Map.empty] load(2)
  have inv: "vocab_inv (tk_tokens tk, token_to_id tk, byte_token_to_id tk)" and texts: "map t_text (tk_tokens tk) = texts" by auto
  have at: "get_token tk (of_nat k) = Some (tk_tokens tk ! k)" if "k < length (tk_tokens tk)" for k
  proof -
    have "unat (of_nat k :: u32) = k" using that small by (intro unat_of_nat_small) simp
    with that show ?thesis by (simp add: get_token_def list_get_def)
  qed
  have valid: "valid_id tk i" if "unat i < length (tk_tokens tk)" for i
    using that by (simp add: valid_id_def get_token_def list_get_def)
  have by_text: "\<exists>t. get_token tk tid = Some t \<and> t_text t = w" if "token_to_id tk w = Some tid" for w tid
  proof -
    from that inv obtain k where "k < length (tk_tokens tk)" "tid = of_nat k" "t_text (tk_tokens tk ! k) = w"
      unfolding vocab_inv_def by blast
    with at show ?thesis by blast
  qed
  have by_byte: "\<exists>t. get_token tk tid = Some t \<and> parse_byte_token (t_text t) = Some b" if "byte_token_to_id tk b = Some tid" for b tid
  proof -
    from that inv obtain k where "k < length (tk_tokens tk)" "tid = of_nat k" "parse_byte_token (t_text (tk_tokens tk ! k)) = Some b"
      unfolding vocab_inv_def by blast
    with at show ?thesis by blast
  qed
  have voc: "vocab_consistent tk"
    unfolding vocab_consistent_def using by_text inv rest(2) by (simp add: vocab_inv_def specials_index_of_def)
  have ids: "\<forall>k < length (tk_tokens tk). t_id (tk_tokens tk ! k) = of_nat k" using inv by (simp add: vocab_inv_def)
  have range: "\<And>tid i. tid \<in> {sp_bos (tk_special tk), sp_eos (tk_special tk), sp_unk (tk_special tk), sp_eot (tk_special tk),
      sp_eom (tk_special tk), sp_sep (tk_special tk), sp_pad (tk_special tk), sp_mask (tk_special tk)} \<Longrightarrow> tid = Some i \<Longrightarrow> valid_id tk i"
    using sp(2) valid unfolding validate_specials_Ok by blast
  have known: "valid_id tk i" if "token_to_id tk w = Some i" for w i
    using by_text [OF that] by (auto simp: valid_id_def)
  have "sp_eog (tk_special tk) = set_option (sp_eos (tk_special tk)) \<union> set_option (sp_eot (tk_special tk)) \<union>
      set_option (sp_eom (tk_special tk)) \<union> \<Union> (set (map (set_option \<circ> token_to_id tk) EOG_MARKER_TEXTS))"
    unfolding sp(1) by (simp add: resolve_specials_def Let_def)
  then have "\<forall>i \<in> sp_eog (tk_special tk). valid_id tk i" using range known by auto
  moreover have "valid_option tk x" if "x \<in> {sp_bos (tk_special tk), sp_eos (tk_special tk), sp_unk (tk_special tk), sp_eot (tk_special tk),
      sp_eom (tk_special tk), sp_sep (tk_special tk), sp_pad (tk_special tk), sp_mask (tk_special tk)}" for x
    using range [OF that] by (cases x) (auto simp: valid_option_def)
  ultimately have "specials_valid tk" by (simp add: specials_valid_def Let_def)
  with voc ids by_byte rest(1) texts load(1) show ?thesis by (auto simp: well_typed_def)
qed

lemma collectR_no_panic: "(\<And>x. f x \<noteq> Panic) \<Longrightarrow> collectR f xs \<noteq> Panic"
  by (induction xs) (auto simp: bindR_Panic_iff)

lemma metadata_no_panic:
  "metadata_array_strings gf key \<noteq> Panic" "metadata_array_strings_optional gf key \<noteq> Panic"
  "metadata_array_f32_optional gf key \<noteq> Panic" "metadata_array_i32_optional gf key \<noteq> Panic"
proof -
  have el: "array_element_string key v \<noteq> Panic" "array_element_f32 key v \<noteq> Panic" "array_element_i32 key v \<noteq> Panic" for v
    by (simp_all add: array_element_string_def array_element_f32_def array_element_i32_def split: metadata_value.splits)
  show "metadata_array_strings gf key \<noteq> Panic" "metadata_array_strings_optional gf key \<noteq> Panic"
    "metadata_array_f32_optional gf key \<noteq> Panic" "metadata_array_i32_optional gf key \<noteq> Panic"
    using el collectR_no_panic [of "array_element_string key"] collectR_no_panic [of "array_element_f32 key"]
      collectR_no_panic [of "array_element_i32 key"]
    by (auto simp: metadata_array_strings_def metadata_array_strings_optional_def metadata_array_f32_optional_def
        metadata_array_i32_optional_def metadata_array_optional_def bindR_Panic_iff
        split: option.splits metadata_value.splits)
qed

lemma meta_no_panic: "r \<noteq> Panic \<Longrightarrow> meta r \<noteq> Panic"
  by (cases r) (auto simp: meta_def map_err_def)

lemma small_no_panic:
  "ok_or x e \<noteq> Panic" "tokenizer_model_of name \<noteq> Panic" "check_len er xs n \<noteq> Panic"
  "resolve_gpt2_pre_tokenizer pre texts allow \<noteq> Panic" "validate_specials sp len \<noteq> Panic"
proof -
  show "validate_specials sp len \<noteq> Panic"
    by (simp add: validate_specials_def bindR_Panic_iff validate_token_id_no_panic)
qed (auto simp: ok_or_def tokenizer_model_of_def check_len_def resolve_gpt2_pre_tokenizer_def split: option.splits)

lemma check_len_Ok: "check_len er xs n = Ok u \<longleftrightarrow> n \<le> length xs"
  by (auto simp: check_len_def)

text \<open>C22. Loading never panics: for every metadata map it gives a tokenizer or one of the errors.\<close>

theorem from_gguf_no_panic: "from_gguf fi gf \<noteq> Panic"
  unfolding from_gguf_def Let_def
  by (auto simp: bindR_Panic_iff small_no_panic meta_no_panic metadata_no_panic load_vocab_no_panic check_len_Ok
      split: if_splits)


text \<open>C21. A tokenizer that loads is well typed: its vocabulary is not empty, token ids are positions, the text and byte
  maps point to tokens with that text and that byte, every special id and every end-of-generation id is an index of
  the vocabulary, and the index of special tokens is the one of its tokens. The bound is that of the id type: at 2^32 tokens
  positions still fit.\<close>

theorem loaded_tokenizer_well_typed:
  assumes "from_gguf fi gf = Ok tk" "length (tk_tokens tk) \<le> 2 ^ 32"
  shows "well_typed tk"
  using assms by (rule from_gguf_well_typed)

definition demo_gguf :: gguf_file where
  "demo_gguf =
     \<lparr>gf_version = 3, gf_tensor_count = 0, gf_metadata_count = 2, gf_alignment = 32, gf_data_start = 0,
      gf_metadata = [ascii ''tokenizer.ggml.model'' \<mapsto> MString (ascii ''llama''),
        ascii ''tokenizer.ggml.tokens'' \<mapsto> MArray [MString (ascii ''<unk>''), MString (ascii ''a''), MString (ascii ''<0x41>'')]],
      gf_tensors = []\<rparr>"

definition no_file :: file_identity where
  "no_file = \<lparr>fi_name = None, fi_header_sha256 = None\<rparr>"

lemma three_small: "length (xs :: 'a list) = 3 \<Longrightarrow> length xs \<le> 2 ^ 32"
  by (rule order_trans [of _ 3]) simp_all

lemma demo_gguf_result: "\<exists>tk. from_gguf no_file demo_gguf = Ok tk \<and> map t_text (tk_tokens tk) = [lit ''<unk>'', lit ''a'', lit ''<0x41>''] \<and>
  tk_model tk = LlamaSpm"
proof -
  have m: "metadata_string demo_gguf ''tokenizer.ggml.model'' = Some (lit ''llama'')"
    "metadata_array_strings demo_gguf ''tokenizer.ggml.tokens'' = Ok [lit ''<unk>'', lit ''a'', lit ''<0x41>'']"
    "metadata_array_f32_optional demo_gguf ''tokenizer.ggml.scores'' = Ok None"
    "metadata_array_i32_optional demo_gguf ''tokenizer.ggml.token_type'' = Ok None"
    "metadata_array_strings_optional demo_gguf ''tokenizer.ggml.merges'' = Ok None"
    "tokenizer_model_of (lit ''llama'') = Ok LlamaSpm"
    by code_simp+
  have flat: "scores_are_flat (take 3 (replicate 3 0))" by code_simp
  have u: "metadata_u32 demo_gguf ''tokenizer.ggml.bos_token_id'' = None" "metadata_u32 demo_gguf ''tokenizer.ggml.eos_token_id'' = None"
    "metadata_u32 demo_gguf ''tokenizer.ggml.unknown_token_id'' = None" "metadata_u32 demo_gguf ''tokenizer.ggml.eot_token_id'' = None"
    "metadata_u32 demo_gguf ''tokenizer.ggml.eom_token_id'' = None" "metadata_u32 demo_gguf ''tokenizer.ggml.separator_token_id'' = None"
    "metadata_u32 demo_gguf ''tokenizer.ggml.seperator_token_id'' = None" "metadata_u32 demo_gguf ''tokenizer.ggml.padding_token_id'' = None"
    "metadata_u32 demo_gguf ''tokenizer.ggml.mask_token_id'' = None"
    by code_simp+
  obtain tokens by_text by_byte where
    load: "load_vocab (replicate 3 0) (replicate 3 1) 0 [lit ''<unk>'', lit ''a'', lit ''<0x41>''] ([], Map.empty, Map.empty) = Ok (tokens, by_text, by_byte)"
    "by_text (lit ''<|eot_id|>'') = None"
  proof -
    have "case load_vocab (replicate 3 0) (replicate 3 1) 0 [lit ''<unk>'', lit ''a'', lit ''<0x41>''] ([], Map.empty, Map.empty) of
        Ok (tokens, by_text, by_byte) \<Rightarrow> by_text (lit ''<|eot_id|>'') = None | _ \<Rightarrow> False" by code_simp
    with that show thesis by (auto split: outcome.splits)
  qed
  have "vocab_inv ([], Map.empty, Map.empty)" by (simp add: vocab_inv_def)
  with load_vocab_inv [of "replicate 3 0" "replicate 3 1" "[]" _ Map.empty Map.empty, unfolded list.size, OF load(1)]
  have inv: "map t_text tokens = [lit ''<unk>'', lit ''a'', lit ''<0x41>'']" by simp
  have "length (map t_text tokens) = 3" unfolding inv by simp
  then have len: "length tokens = 3" by simp
  have "validate_specials (resolve_specials demo_gguf LlamaSpm by_text) 3 = Ok ()"
    unfolding validate_specials_Ok using load(2) by (auto simp: resolve_specials_def u or_option_def Let_def)
  then show ?thesis
    using load(1) flat inv len
    by (auto simp: from_gguf_def m meta_def map_err_def check_len_def Let_def ok_or_def numeral_3_eq_3)
qed


lemma demo_gguf_loads:
  obtains tk where "from_gguf no_file demo_gguf = Ok tk" "map t_text (tk_tokens tk) = [lit ''<unk>'', lit ''a'', lit ''<0x41>'']"
    "length (tk_tokens tk) \<le> 2 ^ 32"
proof -
  from demo_gguf_result obtain tk where tk: "from_gguf no_file demo_gguf = Ok tk"
    "map t_text (tk_tokens tk) = [lit ''<unk>'', lit ''a'', lit ''<0x41>'']" by (elim exE conjE)
  have "length (map t_text (tk_tokens tk)) = 3" unfolding tk(2) by simp
  then have "length (tk_tokens tk) \<le> 2 ^ 32" unfolding length_map by (rule three_small)
  with tk show thesis by (rule that)
qed

theorem loaded_tokenizer_well_typed_witness:
  "\<exists>tk. from_gguf no_file demo_gguf = Ok tk \<and> map t_text (tk_tokens tk) = [lit ''<unk>'', lit ''a'', lit ''<0x41>''] \<and> well_typed tk"
proof -
  obtain tk where tk: "from_gguf no_file demo_gguf = Ok tk" "map t_text (tk_tokens tk) = [lit ''<unk>'', lit ''a'', lit ''<0x41>'']"
    "length (tk_tokens tk) \<le> 2 ^ 32" by (rule demo_gguf_loads)
  note wt = loaded_tokenizer_well_typed [OF tk(1,3)]
  show ?thesis by (intro exI [of _ tk] conjI tk(1,2) wt)
qed

section \<open>Encoding with a loaded tokenizer\<close>

lemma known_ids_valid:
  assumes "well_typed tk" "tid \<in> known_ids tk"
  shows "valid_id tk tid"
proof -
  from assms(2) consider w where "token_to_id tk w = Some tid" | b where "byte_token_to_id tk b = Some tid"
    | "sp_unk (tk_special tk) = Some tid"
    by (auto simp: known_ids_def ran_def)
  then show ?thesis
  proof cases
    case 1
    with assms(1) show ?thesis unfolding well_typed_def vocab_consistent_def valid_id_def by (metis option.distinct(1))
  next
    case 2
    with assms(1) show ?thesis unfolding well_typed_def valid_id_def by (metis option.distinct(1))
  next
    case 3
    with assms(1) show ?thesis by (auto simp: well_typed_def specials_valid_def Let_def valid_option_def)
  qed
qed

lemma piece_id_known: "piece_id tk gguf first p = Some tid \<Longrightarrow> tid \<in> known_ids tk"
  by (auto simp: piece_id_def Let_def intro: known_idsI split: option.splits)

lemma longest_match_known: "longest_match tk gguf first w ps \<Longrightarrow> set (piece_ids tk gguf first ps) \<subseteq> known_ids tk"
proof (induction ps arbitrary: first w)
  case (Cons p ps)
  then show ?case using piece_id_known [of tk gguf first p] by (auto 4 3)
qed simp

lemma encode_wordpiece_known:
  "encode_wordpiece_text nfd lower ud tk s =
     (case sp_unk (tk_special tk) of None \<Rightarrow> Err NoUnknownToken
      | Some unk \<Rightarrow> Ok (encode_words tk (uses_gguf_word_start tk) unk (basic_split ud (wordpiece_normalize nfd lower ud s) [] []) [])) \<and>
   (\<forall>unk gguf words. sp_unk (tk_special tk) = Some unk \<longrightarrow> set (encode_words tk gguf unk words []) \<subseteq> known_ids tk)"
proof (intro conjI allI impI)
  fix unk gguf words
  assume unk: "sp_unk (tk_special tk) = Some unk"
  from encode_words_spec [of tk gguf unk words "[]"] obtain idss where
    idss: "encode_words tk gguf unk words [] = concat idss" "list_all2 (word_spec tk gguf unk) words idss" by auto
  have "set ids \<subseteq> known_ids tk" if "word_spec tk gguf unk w ids" for w ids
  proof (cases "ids = [unk]")
    case True
    then show ?thesis using known_idsI(3) [OF unk] by simp
  next
    case False
    with that obtain ps where "longest_match tk gguf True w ps" "ids = piece_ids tk gguf True ps"
      by (auto simp: word_spec_def split: if_splits)
    then show ?thesis using longest_match_known [of tk gguf True w ps] by simp
  qed
  with idss(2) have "set (idss ! i) \<subseteq> known_ids tk" if "i < length idss" for i
    using that list_all2_nthD2 [OF idss(2) that] by blast
  then have "\<forall>ids \<in> set idss. set ids \<subseteq> known_ids tk" by (metis in_set_conv_nth)
  with idss(1) show "set (encode_words tk gguf unk words []) \<subseteq> known_ids tk" by auto
qed (simp add: encode_wordpiece_text_def ok_or_def split: option.splits)

text \<open>The errors that a well-typed tokenizer can give, each with what its vocabulary lacks.\<close>

definition lacks :: "tokenizer \<Rightarrow> tokenizer_error \<Rightarrow> bool" where
  "lacks tk e =
     (case e of
        MissingBpeToken symbol \<Rightarrow> token_to_id tk symbol = None
      | MissingByteToken b \<Rightarrow> byte_token_to_id tk b = None \<and> sp_unk (tk_special tk) = None
      | NoUnknownToken \<Rightarrow> sp_unk (tk_special tk) = None
      | _ \<Rightarrow> False)"

lemma encode_model_text_ends:
  assumes "well_typed tk" "unicode_consistent (ee_unicode env)" "entry_queue (ee_pick env)"
  shows "(\<exists>ids. encode_model_text env tk s ps = Some (Ok ids) \<and> set ids \<subseteq> known_ids tk) \<or>
    (\<exists>e. encode_model_text env tk s ps = Some (Err e) \<and> lacks tk e)"
proof -
  have voc: "vocab_consistent tk" using assms(1) by (simp add: well_typed_def)
  show ?thesis
  proof (cases "tk_model tk")
    case LlamaSpm
    from encode_spm_text_ends [OF voc assms(3), of s ps] LlamaSpm show ?thesis
      by (auto simp: encode_model_text_def spm_outcome_def adds_known_def lacks_def)
  next
    case Gpt2Bpe
    from encode_bpe_loop_ends [OF assms(2) voc, of "[]" s ps "[]"] obtain res where
      "encode_bpe_text (ee_unicode env) tk s ps = Some res" "encode_outcome tk s [] res" by (auto simp: encode_bpe_text_def)
    with Gpt2Bpe show ?thesis
      by (cases res) (auto simp: encode_model_text_def encode_outcome_def adds_known_def lacks_def)
  next
    case BertWordPiece
    with encode_wordpiece_known [of "ee_nfd env" "ee_to_lowercase env" "ee_unicode env" tk s] show ?thesis
      by (auto simp: encode_model_text_def lacks_def split: option.splits)
  qed
qed

text \<open>C17. A tokenizer that loads encodes every s, for all three kinds of model and all settings: it gives
  ids that are all indices of its vocabulary, special tokens included, or the error that names what the vocabulary
  lacks. It ends, and no slice, index or cast of the encoders panics.\<close>

theorem loaded_tokenizer_encodes:
  assumes "from_gguf fi gf = Ok tk" "length (tk_tokens tk) \<le> 2 ^ 32"
    and "unicode_consistent (ee_unicode env)" "entry_queue (ee_pick env)"
  shows "(\<exists>ids. encode env tk s add_special parse_special = Some (Ok ids) \<and> list_all (valid_id tk) ids) \<or>
    (\<exists>e. encode env tk s add_special parse_special = Some (Err e) \<and> lacks tk e)"
proof -
  have wt: "well_typed tk" using assms(1,2) by (rule from_gguf_well_typed)
  have sp: "list_all (valid_id tk) (push_option x ids) = list_all (valid_id tk) ids"
    if "x \<in> {sp_bos (tk_special tk), sp_eos (tk_special tk), sp_sep (tk_special tk)}" for x ids
    using wt that by (auto simp: well_typed_def specials_valid_def Let_def valid_option_def push_option_def split: option.splits)
  from encode_model_text_ends [OF wt assms(3,4), of s parse_special] show ?thesis
  proof
    assume "\<exists>ids. encode_model_text env tk s parse_special = Some (Ok ids) \<and> set ids \<subseteq> known_ids tk"
    then obtain ids where ids: "encode_model_text env tk s parse_special = Some (Ok ids)" "set ids \<subseteq> known_ids tk" by blast
    then have "list_all (valid_id tk) ids" using known_ids_valid [OF wt] by (auto simp: list_all_iff)
    moreover have "or_option (sp_sep (tk_special tk)) (sp_eos (tk_special tk)) \<in>
        {sp_bos (tk_special tk), sp_eos (tk_special tk), sp_sep (tk_special tk)}"
      by (simp add: or_option_def split: option.splits)
    ultimately show ?thesis
      using sp [of "sp_bos (tk_special tk)"] sp [of "sp_eos (tk_special tk)"] sp
      by (simp add: encode_def Let_def ids(1))
  next
    assume "\<exists>e. encode_model_text env tk s parse_special = Some (Err e) \<and> lacks tk e"
    then show ?thesis by (auto simp: encode_def Let_def)
  qed
qed

definition demo_env :: encode_env where
  "demo_env = \<lparr>ee_pick = greatest_entry, ee_nfd = id, ee_to_lowercase = (\<lambda>c. [to_ascii_lowercase c]), ee_unicode = ascii_data\<rparr>"

theorem loaded_tokenizer_encodes_witness:
  "\<exists>tk. from_gguf no_file demo_gguf = Ok tk \<and>
     ((\<exists>ids. encode demo_env tk (lit ''aA'') True False = Some (Ok ids) \<and> list_all (valid_id tk) ids) \<or>
      (\<exists>e. encode demo_env tk (lit ''aA'') True False = Some (Err e) \<and> lacks tk e))"
proof -
  obtain tk where tk: "from_gguf no_file demo_gguf = Ok tk" and small: "length (tk_tokens tk) \<le> 2 ^ 32"
    by (rule demo_gguf_loads)
  have "unicode_consistent (ee_unicode demo_env)" "entry_queue (ee_pick demo_env)"
    by (simp_all add: demo_env_def unicode_consistent_ascii greatest.entry_queue_axioms)
  from loaded_tokenizer_encodes [OF tk(1) small this, of "lit ''aA''" True False] tk show ?thesis by (intro exI [of _ tk] conjI)
qed

end
