(* ===== verification/Kv_Cache.thy ===== *)
theory Kv_Cache
  imports Prelude
begin

text \<open>
  The host KV cache (\<open>src/src/inference/kv_cache.rs\<close>, \<open>LlamaKvCache\<close>): physical layouts, growth
  under a byte budget, the canonical row store and the row reads, rollback and the
  materialized-through watermark.

  A cache has one pair of live buffers, the one its element type selects; the other pairs of the
  source stay empty. The live buffers are lists of storage units of a type \<open>'e\<close>: one unit per
  value for \<open>f32\<close> and \<open>f16\<close>, one per block of 32 values for the quantized types. The conversion
  of a row to units and back is floating-point code and a parameter (\<open>enc\<close>, \<open>dec\<close>).

  The strides and the bytes per token are unchecked \<open>usize\<close> and \<open>u64\<close> products in the source; they wrap
  here (\<open>wrap_us\<close>) as in a build without overflow checks, such as the release profile.

  The abstract view of a cache is the row a layer, a position and a head have. The theorems:
  storing changes that row and no other, in both layouts; growing, which moves every byte of the
  head-major layout, changes no row; so both layouts implement the same map. The byte projection
  used for budgets is exact for plans whose value buffer has the width of the value heads; for
  compressed (MLA) plans with a quantized type it counts value blocks that are never allocated.
\<close>

section \<open>Plans, layouts and element types\<close>

record kv_plan =
  max_sequence_length :: usize
  kp_layer_count :: usize
  kp_kv_head_count :: usize
  k_head_dim :: usize
  v_head_dim :: usize
  key_width :: usize
  value_width :: usize

text \<open>\<open>key_width\<close> and \<open>value_width\<close> are \<open>key_shape[3]\<close> and \<open>value_shape[3]\<close>. \<open>from_config\<close> on the
  dimensions it reads from the model configuration; \<open>mla\<close> is \<open>(kv_lora_rank, rope_head_dim)\<close>.\<close>

definition plan_from_config :: "usize \<Rightarrow> usize \<Rightarrow> usize \<Rightarrow> usize \<Rightarrow> (u32 \<times> u32) option \<Rightarrow> kv_plan" where
  "plan_from_config context_length block_count attention_head_count_kv head_dim mla =
     (case mla of
        Some (kv_lora_rank, rope_head_dim) \<Rightarrow>
          \<lparr>max_sequence_length = context_length, kp_layer_count = block_count, kp_kv_head_count = 1,
           k_head_dim = unat (kv_lora_rank + rope_head_dim), v_head_dim = unat kv_lora_rank,
           key_width = unat (kv_lora_rank + rope_head_dim), value_width = 0\<rparr>
      | None \<Rightarrow>
          \<lparr>max_sequence_length = context_length, kp_layer_count = block_count,
           kp_kv_head_count = attention_head_count_kv,
           k_head_dim = head_dim, v_head_dim = head_dim, key_width = head_dim, value_width = head_dim\<rparr>)"

datatype kv_layout = PositionMajor | HeadMajor

datatype kv_dtype = KF32 | KF16 | KQ8_0 | KQ4_0 | KFp8E4m3 | KFp8E5m2

definition KV_QUANT_BLOCK_VALUES :: usize where "KV_QUANT_BLOCK_VALUES = 32"

text \<open>Units of a row of \<open>dim\<close> values, and \<open>size_of\<close> one unit (the blocks are \<open>repr(C)\<close>: an f16 scale
  and the packed values).\<close>

fun row_units :: "kv_dtype \<Rightarrow> usize \<Rightarrow> usize" where
  "row_units KF32 dim = dim"
| "row_units KF16 dim = dim"
| "row_units KQ8_0 dim = div_ceil dim KV_QUANT_BLOCK_VALUES"
| "row_units KQ4_0 dim = div_ceil dim KV_QUANT_BLOCK_VALUES"
| "row_units KFp8E4m3 dim = div_ceil dim KV_QUANT_BLOCK_VALUES"
| "row_units KFp8E5m2 dim = div_ceil dim KV_QUANT_BLOCK_VALUES"

fun unit_bytes :: "kv_dtype \<Rightarrow> nat" where
  "unit_bytes KF32 = 4"
| "unit_bytes KF16 = 2"
| "unit_bytes KQ8_0 = 34"
| "unit_bytes KQ4_0 = 18"
| "unit_bytes KFp8E4m3 = 34"
| "unit_bytes KFp8E5m2 = 34"

record 'e kv_cache =
  kc_plan :: kv_plan
  kc_layout :: kv_layout
  kc_dtype :: kv_dtype
  kc_keys :: "'e list"
  kc_values :: "'e list"
  allocated_sequence_length :: usize
  position :: usize
  materialized_through :: usize
  kv_budget_bytes :: nat

datatype kv_error =
    RollbackBeyondPosition usize usize
  | PositionBeyondContext usize usize
  | KvCacheBudgetExceeded usize nat nat
  | KvRowCountOverflow
  | KvKeyCountOverflow
  | KvValueCountOverflow

definition kv_cache_new :: "kv_plan \<Rightarrow> kv_layout \<Rightarrow> kv_dtype \<Rightarrow> nat \<Rightarrow> 'e kv_cache" where
  "kv_cache_new p l d budget =
     \<lparr>kc_plan = p, kc_layout = l, kc_dtype = d, kc_keys = [], kc_values = [],
      allocated_sequence_length = 0, position = 0, materialized_through = 0, kv_budget_bytes = budget\<rparr>"

definition can_append :: "'e kv_cache \<Rightarrow> bool" where
  "can_append c = (position c < max_sequence_length (kc_plan c))"

definition rollback_to_position :: "usize \<Rightarrow> 'e kv_cache \<Rightarrow> (unit, kv_error) outcome \<times> 'e kv_cache" where
  "rollback_to_position pos c =
     (if position c < pos then (Err (RollbackBeyondPosition pos (position c)), c)
      else (Ok (), c\<lparr>position := pos, materialized_through := min (materialized_through c) pos\<rparr>))"

definition history_materialized :: "'e kv_cache \<Rightarrow> usize \<Rightarrow> bool" where
  "history_materialized c pos = (pos \<le> materialized_through c)"

section \<open>Budgets and growth\<close>

text \<open>\<open>kv_cache_grow_tokens\<close>; the argument \<open>grow_env\<close> is the parsed environment variable.\<close>

definition kv_cache_grow_tokens :: "usize option \<Rightarrow> usize \<Rightarrow> usize" where
  "kv_cache_grow_tokens grow_env max_seq =
     (if max_seq < 512 then 1
      else case grow_env of Some v \<Rightarrow> if v > 0 then v else 256 | None \<Rightarrow> 256)"

definition grow_sequence_length :: "usize option \<Rightarrow> 'e kv_cache \<Rightarrow> usize \<Rightarrow> usize" where
  "grow_sequence_length grow_env c required =
     (let grow = kv_cache_grow_tokens grow_env (max_sequence_length (kc_plan c)) in
      if grow \<le> 1 then required
      else min (sat_mul_us (div_ceil required grow) grow) (max_sequence_length (kc_plan c)))"

definition kv_streams :: "kv_plan \<Rightarrow> nat" where
  "kv_streams p = kp_layer_count p * kp_kv_head_count p"

text \<open>These products and sums are unchecked: in the release build they wrap (a debug build panics when one
  overflows).\<close>

definition wrap_us :: "nat \<Rightarrow> usize" where
  "wrap_us n = n mod 2 ^ 64"

lemma wrap_us_code [code]: "wrap_us n = (if n < 18446744073709551616 then n else n mod 18446744073709551616)"
  by (simp add: wrap_us_def)

definition position_stride :: "kv_plan \<Rightarrow> usize" where
  "position_stride p = wrap_us (wrap_us (kp_layer_count p * kp_kv_head_count p) * key_width p)"

definition value_position_stride :: "kv_plan \<Rightarrow> usize" where
  "value_position_stride p = wrap_us (wrap_us (kp_layer_count p * kp_kv_head_count p) * value_width p)"

definition kv_bytes_per_token :: "'e kv_cache \<Rightarrow> nat" where
  "kv_bytes_per_token c =
     (let p = kc_plan c; total_elements = wrap_us (position_stride p + value_position_stride p);
          blocks_per_stream =
            wrap_us (div_ceil (k_head_dim p) KV_QUANT_BLOCK_VALUES + div_ceil (v_head_dim p) KV_QUANT_BLOCK_VALUES)
      in case kc_dtype c of
           KF32 \<Rightarrow> wrap_us (total_elements * 4)
         | KF16 \<Rightarrow> wrap_us (total_elements * 2)
         | d \<Rightarrow> wrap_us (wrap_us (wrap_us (kp_layer_count p * kp_kv_head_count p) * blocks_per_stream) * unit_bytes d))"

definition allocated_bytes :: "'e kv_cache \<Rightarrow> nat" where
  "allocated_bytes c = (length (kc_keys c) + length (kc_values c)) * unit_bytes (kc_dtype c)"

definition projected_allocated_bytes :: "usize option \<Rightarrow> 'e kv_cache \<Rightarrow> usize \<Rightarrow> (nat, kv_error) outcome" where
  "projected_allocated_bytes grow_env c required =
     (if max_sequence_length (kc_plan c) < required
      then Err (PositionBeyondContext required (max_sequence_length (kc_plan c)))
      else
        let target = (if required \<le> allocated_sequence_length c then allocated_sequence_length c
                      else grow_sequence_length grow_env c required)
        in Ok (sat_mul_us target (kv_bytes_per_token c)))"

text \<open>\<open>Vec::resize\<close>, and \<open>copy_from_slice\<close> into a position of a buffer.\<close>

definition resize :: "nat \<Rightarrow> 'e \<Rightarrow> 'e list \<Rightarrow> 'e list" where
  "resize n z xs = take n xs @ replicate (n - length xs) z"

definition splice :: "nat \<Rightarrow> 'e list \<Rightarrow> 'e list \<Rightarrow> 'e list" where
  "splice i ys xs = take i xs @ ys @ drop (i + length ys) xs"

text \<open>The loop of the head-major branch of \<open>grow_buffers\<close>, on one buffer, after \<open>n\<close> streams. A range out
  of bounds panics.\<close>

fun copy_streams :: "nat \<Rightarrow> nat \<Rightarrow> nat \<Rightarrow> 'e list \<Rightarrow> 'e list \<Rightarrow> ('e list, kv_error) outcome" where
  "copy_streams old_len new_len 0 old new = Ok new"
| "copy_streams old_len new_len (Suc s) old new =
     bindR (copy_streams old_len new_len s old new) (\<lambda>acc.
       if old_len = 0 then Ok acc
       else if length old < s * old_len + old_len \<or> length acc < s * new_len + old_len then Panic
       else Ok (splice (s * new_len) (take old_len (drop (s * old_len) old)) acc))"

definition grow_buffer ::
  "kv_layout \<Rightarrow> 'e \<Rightarrow> nat \<Rightarrow> nat \<Rightarrow> nat \<Rightarrow> nat \<Rightarrow> nat \<Rightarrow> 'e list \<Rightarrow> ('e list, kv_error) outcome" where
  "grow_buffer layout z elements old_alloc new_alloc units streams buf =
     (case layout of
        PositionMajor \<Rightarrow> Ok (resize elements z buf)
      | HeadMajor \<Rightarrow>
          copy_streams (old_alloc * units) (new_alloc * units) streams buf (replicate elements z))"

definition ensure_position_capacity ::
  "usize option \<Rightarrow> 'e \<Rightarrow> usize \<Rightarrow> 'e kv_cache \<Rightarrow> (unit, kv_error) outcome \<times> 'e kv_cache" where
  "ensure_position_capacity grow_env z required c =
     (let p = kc_plan c; d = kc_dtype c in
      if max_sequence_length p < required then (Err (PositionBeyondContext required (max_sequence_length p)), c)
      else if required \<le> allocated_sequence_length c then (Ok (), c)
      else
        let target = grow_sequence_length grow_env c required;
            projected = sat_mul_us target (kv_bytes_per_token c)
        in
        if kv_budget_bytes c < projected
        then (Err (KvCacheBudgetExceeded target projected (kv_budget_bytes c)), c)
        else
          case Option.bind (checked_mul_us target (kp_layer_count p)) (\<lambda>v. checked_mul_us v (kp_kv_head_count p)) of
            None \<Rightarrow> (Err KvRowCountOverflow, c)
          | Some row_count \<Rightarrow>
              if checked_mul_us row_count (key_width p) = None then (Err KvKeyCountOverflow, c)
              else if checked_mul_us row_count (value_width p) = None then (Err KvValueCountOverflow, c)
              else
                bindS (grow_buffer (kc_layout c) z (row_count * row_units d (key_width p))
                         (allocated_sequence_length c) target (row_units d (key_width p)) (kv_streams p) (kc_keys c), c) (\<lambda>ks _.
                bindS (grow_buffer (kc_layout c) z (row_count * row_units d (value_width p))
                         (allocated_sequence_length c) target (row_units d (value_width p)) (kv_streams p) (kc_values c), c) (\<lambda>vs _.
                  (Ok (), c\<lparr>kc_keys := ks, kc_values := vs, allocated_sequence_length := target\<rparr>))))"

section \<open>Addresses, stores and reads\<close>

text \<open>The number of a row in its buffer; \<open>offset\<close> and \<open>quantized_offset\<close> multiply it by the width of a
  row, in values or in blocks.\<close>

definition row_index :: "'e kv_cache \<Rightarrow> usize \<Rightarrow> usize \<Rightarrow> usize \<Rightarrow> usize" where
  "row_index c layer_idx pos kv_head =
     (case kc_layout c of
        PositionMajor \<Rightarrow> ((pos * kp_layer_count (kc_plan c)) + layer_idx) * kp_kv_head_count (kc_plan c) + kv_head
      | HeadMajor \<Rightarrow> ((layer_idx * kp_kv_head_count (kc_plan c)) + kv_head) * allocated_sequence_length c + pos)"

definition offset :: "'e kv_cache \<Rightarrow> usize \<Rightarrow> usize \<Rightarrow> usize \<Rightarrow> usize" where
  "offset c layer_idx pos kv_head = row_index c layer_idx pos kv_head * k_head_dim (kc_plan c)"

definition quantized_offset :: "'e kv_cache \<Rightarrow> usize \<Rightarrow> usize \<Rightarrow> usize \<Rightarrow> usize \<Rightarrow> usize" where
  "quantized_offset c layer_idx pos kv_head blocks_per_row = row_index c layer_idx pos kv_head * blocks_per_row"

text \<open>Where the key row and the value row of a head begin: for unquantized types the value offset is
  \<open>dst / k_head_dim * v_dim\<close>.\<close>

definition key_offset :: "'e kv_cache \<Rightarrow> usize \<Rightarrow> usize \<Rightarrow> usize \<Rightarrow> usize" where
  "key_offset c l p h =
     (case kc_dtype c of
        KF32 \<Rightarrow> offset c l p h
      | KF16 \<Rightarrow> offset c l p h
      | d \<Rightarrow> quantized_offset c l p h (row_units d (k_head_dim (kc_plan c))))"

definition value_offset :: "'e kv_cache \<Rightarrow> usize \<Rightarrow> usize \<Rightarrow> usize \<Rightarrow> usize \<Rightarrow> (usize, kv_error) outcome" where
  "value_offset c v_dim l p h =
     (let plain = (if k_head_dim (kc_plan c) = 0 then Panic
                   else Ok (offset c l p h div k_head_dim (kc_plan c) * v_dim))
      in case kc_dtype c of
           KF32 \<Rightarrow> plain
         | KF16 \<Rightarrow> plain
         | d \<Rightarrow> Ok (quantized_offset c l p h (row_units d v_dim)))"

definition write_row :: "nat \<Rightarrow> 'e list \<Rightarrow> 'e list \<Rightarrow> ('e list, kv_error) outcome" where
  "write_row i ys xs = (if length xs < i + length ys then Panic else Ok (splice i ys xs))"

definition read_row :: "nat \<Rightarrow> nat \<Rightarrow> 'e list \<Rightarrow> ('e list, kv_error) outcome" where
  "read_row i n xs = (if length xs < i + n then Panic else Ok (take n (drop i xs)))"

definition store_kv_head_row ::
  "('f list \<Rightarrow> 'e list) \<Rightarrow> usize \<Rightarrow> usize \<Rightarrow> usize \<Rightarrow> 'f list \<Rightarrow> 'f list \<Rightarrow> 'e kv_cache \<Rightarrow>
    (unit, kv_error) outcome \<times> 'e kv_cache" where
  "store_kv_head_row enc layer_idx pos kv_head key_row value_row c0 =
     (let c = c0\<lparr>materialized_through := max (materialized_through c0) (pos + 1)\<rparr> in
      bindS (write_row (key_offset c layer_idx pos kv_head) (enc key_row) (kc_keys c), c) (\<lambda>ks _.
        let c1 = c\<lparr>kc_keys := ks\<rparr> in
        if length value_row = 0 then (Ok (), c1)
        else
          bindS (value_offset c1 (length value_row) layer_idx pos kv_head, c1) (\<lambda>dst _.
          bindS (write_row dst (enc value_row) (kc_values c1), c1) (\<lambda>vs _.
            (Ok (), c1\<lparr>kc_values := vs\<rparr>)))))"

definition copy_key_row :: "('e list \<Rightarrow> 'f list) \<Rightarrow> 'e kv_cache \<Rightarrow> usize \<Rightarrow> usize \<Rightarrow> usize \<Rightarrow> ('f list, kv_error) outcome" where
  "copy_key_row dec c layer_idx pos kv_head =
     bindR (read_row (key_offset c layer_idx pos kv_head) (row_units (kc_dtype c) (k_head_dim (kc_plan c))) (kc_keys c))
       (\<lambda>us. Ok (dec us))"

definition copy_value_row :: "('e list \<Rightarrow> 'f list) \<Rightarrow> 'e kv_cache \<Rightarrow> usize \<Rightarrow> usize \<Rightarrow> usize \<Rightarrow> ('f list, kv_error) outcome" where
  "copy_value_row dec c layer_idx pos kv_head =
     (let p = kc_plan c; n = row_units (kc_dtype c) (v_head_dim p) in
      if value_width p = 0
      then bindR (read_row (key_offset c layer_idx pos kv_head) n (kc_keys c)) (\<lambda>us. Ok (dec us))
      else bindR (value_offset c (v_head_dim p) layer_idx pos kv_head) (\<lambda>i.
           bindR (read_row i n (kc_values c)) (\<lambda>us. Ok (dec us))))"

text \<open>\<open>kv_cache_budget_from\<close>; the first argument is the trimmed, parsed override, if it parsed.\<close>

definition kv_cache_budget_from :: "nat option \<Rightarrow> (nat \<times> nat) option \<Rightarrow> nat" where
  "kv_cache_budget_from env_value ram =
     (case env_value of
        Some b \<Rightarrow> b
      | None \<Rightarrow>
          (case ram of
             Some (total_ram, available) \<Rightarrow> max (sat_mul_us available 80 div 100) (sat_mul_us total_ram 25 div 100)
           | None \<Rightarrow> usize_max))"

section \<open>Rows of a buffer\<close>

definition buf_row :: "nat \<Rightarrow> nat \<Rightarrow> 'e list \<Rightarrow> 'e list" where
  "buf_row u i xs = take u (drop (i * u) xs)"

lemma length_splice: "i + length ys \<le> length xs \<Longrightarrow> length (splice i ys xs) = length xs"
  by (simp add: splice_def)

lemma nth_splice:
  "i + length ys \<le> length xs \<Longrightarrow> k < length xs \<Longrightarrow>
    splice i ys xs ! k = (if i \<le> k \<and> k < i + length ys then ys ! (k - i) else xs ! k)"
  by (auto simp: splice_def nth_append min_def)

lemma nth_buf_row: "k < u \<Longrightarrow> i * u + u \<le> length xs \<Longrightarrow> buf_row u i xs ! k = xs ! (i * u + k)"
  by (simp add: buf_row_def)

lemma length_buf_row: "i * u + u \<le> length xs \<Longrightarrow> length (buf_row u i xs) = u"
  by (simp add: buf_row_def)

lemma row_end: "i < n \<Longrightarrow> i * u + u \<le> n * (u::nat)"
proof -
  assume "i < n"
  then have "Suc i * u \<le> n * u" by (intro mult_le_mono1) simp
  then show ?thesis by simp
qed

lemma buf_row_eqI:
  assumes "i * u + u \<le> length xs" "j * u + u \<le> length ys"
    and "\<And>k. k < u \<Longrightarrow> xs ! (i * u + k) = ys ! (j * u + k)"
  shows "buf_row u i xs = buf_row u j ys"
  by (rule nth_equalityI) (use assms in \<open>simp_all add: length_buf_row nth_buf_row\<close>)

lemma buf_row_splice_same:
  assumes "i * u + u \<le> length xs" "length ys = u"
  shows "buf_row u i (splice (i * u) ys xs) = ys"
  by (rule nth_equalityI) (use assms in \<open>simp_all add: length_buf_row nth_buf_row length_splice nth_splice\<close>)

lemma buf_row_splice_other:
  assumes i: "i * u + u \<le> length xs" and j: "j * u + u \<le> length xs" and ys: "length ys = u" and ne: "j \<noteq> i"
  shows "buf_row u j (splice (i * u) ys xs) = buf_row u j xs"
proof (rule buf_row_eqI)
  fix k assume k: "k < u"
  have "\<not> (i * u \<le> j * u + k \<and> j * u + k < i * u + u)"
    using ne row_end [of j i u] row_end [of i j u] k by (cases "j < i") auto
  then show "splice (i * u) ys xs ! (j * u + k) = xs ! (j * u + k)"
    using i j ys k by (auto simp: nth_splice)
qed (use i j ys in \<open>simp_all add: length_splice\<close>)

section \<open>Growing a buffer\<close>

lemma copy_streams_Ok:
  assumes "old_len \<le> new_len" "length old = streams * old_len" "length new = streams * new_len"
  shows "n \<le> streams \<Longrightarrow> \<exists>acc. copy_streams old_len new_len n old new = Ok acc \<and> length acc = length new \<and>
    (\<forall>s < n. \<forall>k < old_len. acc ! (s * new_len + k) = old ! (s * old_len + k)) \<and>
    (\<forall>s < streams. \<forall>k < new_len. old_len \<le> k \<longrightarrow> acc ! (s * new_len + k) = new ! (s * new_len + k))"
proof (induction n)
  case 0
  then show ?case by simp
next
  case (Suc n)
  then obtain acc where acc: "copy_streams old_len new_len n old new = Ok acc" "length acc = length new"
    "\<forall>s < n. \<forall>k < old_len. acc ! (s * new_len + k) = old ! (s * old_len + k)"
    "\<forall>s < streams. \<forall>k < new_len. old_len \<le> k \<longrightarrow> acc ! (s * new_len + k) = new ! (s * new_len + k)" by auto
  have b: "n * old_len + old_len \<le> length old" "n * new_len + new_len \<le> length acc"
    using Suc.prems row_end [of n streams] assms(2,3) acc(2) by auto
  show ?case
  proof (cases "old_len = 0")
    case True
    with acc show ?thesis by simp
  next
    case False
    let ?blk = "take old_len (drop (n * old_len) old)"
    have len: "length ?blk = old_len" using b(1) by simp
    have fit: "n * new_len + length ?blk \<le> length acc" using b(2) assms(1) len by simp
    have run: "copy_streams old_len new_len (Suc n) old new = Ok (splice (n * new_len) ?blk acc)"
      using acc(1) False b assms(1) by simp
    have "splice (n * new_len) ?blk acc ! (s * new_len + k) = old ! (s * old_len + k)"
      if s: "s < Suc n" and k: "k < old_len" for s k
    proof (cases "s = n")
      case True
      with k len fit b show ?thesis by (simp add: nth_splice)
    next
      case False
      with s have sn: "s < n" by simp
      have "s * new_len + k < n * new_len" using row_end [OF sn, of new_len] k assms(1) by linarith
      with sn k acc(3) len fit b show ?thesis by (simp add: nth_splice)
    qed
    moreover have "splice (n * new_len) ?blk acc ! (s * new_len + k) = new ! (s * new_len + k)"
      if s: "s < streams" and k: "k < new_len" "old_len \<le> k" for s k
    proof -
      have "\<not> (n * new_len \<le> s * new_len + k \<and> s * new_len + k < n * new_len + old_len)"
        using row_end [of s n new_len] row_end [of n s new_len] k assms(1) by (cases s n rule: linorder_cases) auto
      moreover have "s * new_len + k < length acc" using row_end [OF s, of new_len] k assms(3) acc(2) by simp
      ultimately show ?thesis using acc(4) s k len fit by (auto simp: nth_splice)
    qed
    ultimately show ?thesis using run fit by (simp add: length_splice acc(2))
  qed
qed

text \<open>The rows of a buffer, addressed by stream and position.\<close>

definition stream_row :: "kv_layout \<Rightarrow> nat \<Rightarrow> nat \<Rightarrow> nat \<Rightarrow> nat \<Rightarrow> nat" where
  "stream_row layout streams alloc s pos =
     (case layout of PositionMajor \<Rightarrow> pos * streams + s | HeadMajor \<Rightarrow> s * alloc + pos)"

lemma stream_row_less:
  assumes "s < streams" "pos < alloc"
  shows "stream_row layout streams alloc s pos < alloc * streams"
proof (cases layout)
  case PositionMajor
  have "pos * streams + s < pos * streams + streams" using assms by simp
  also have "\<dots> \<le> alloc * streams" by (rule row_end [OF assms(2)])
  finally show ?thesis using PositionMajor by (simp add: stream_row_def)
next
  case HeadMajor
  have "s * alloc + pos < s * alloc + alloc" using assms by simp
  also have "\<dots> \<le> streams * alloc" by (rule row_end [OF assms(1)])
  finally show ?thesis using HeadMajor by (simp add: stream_row_def mult.commute)
qed

lemma stream_row_inj:
  assumes "s < streams" "s' < streams" "pos < alloc" "pos' < alloc"
    "stream_row layout streams alloc s pos = stream_row layout streams alloc s' pos'"
  shows "s = s' \<and> pos = pos'"
proof (cases layout)
  case PositionMajor
  have "(pos * streams + s) div streams = pos" "(pos * streams + s) mod streams = s"
    "(pos' * streams + s') div streams = pos'" "(pos' * streams + s') mod streams = s'"
    using assms by auto
  with assms(5) PositionMajor show ?thesis by (metis kv_layout.simps(3) stream_row_def)
next
  case HeadMajor
  have "(s * alloc + pos) div alloc = s" "(s * alloc + pos) mod alloc = pos"
    "(s' * alloc + pos') div alloc = s'" "(s' * alloc + pos') mod alloc = pos'"
    using assms by auto
  with assms(5) HeadMajor show ?thesis by (metis kv_layout.simps(4) stream_row_def)
qed

lemma grow_buffer_law:
  assumes len: "length buf = old * streams * u" and le: "old \<le> new"
  shows "\<exists>buf'. grow_buffer layout z (new * streams * u) old new u streams buf = Ok buf' \<and>
    length buf' = new * streams * u \<and>
    (\<forall>s < streams. \<forall>pos < old.
      buf_row u (stream_row layout streams new s pos) buf' = buf_row u (stream_row layout streams old s pos) buf) \<and>
    (\<forall>s < streams. \<forall>pos < new. old \<le> pos \<longrightarrow>
      buf_row u (stream_row layout streams new s pos) buf' = replicate u z)"
proof (cases layout)
  case PositionMajor
  let ?n = "new * streams * u"
  have ln: "length buf \<le> ?n" using len le by simp
  have "buf_row u (pos * streams + s) (resize ?n z buf) = buf_row u (pos * streams + s) buf"
    if "s < streams" "pos < old" for s pos
  proof (rule buf_row_eqI)
    have e: "(pos * streams + s) * u + u \<le> length buf"
      using row_end [OF stream_row_less [OF that, of PositionMajor], of u] len by (simp add: stream_row_def)
    then show "(pos * streams + s) * u + u \<le> length buf" .
    with ln show "(pos * streams + s) * u + u \<le> length (resize ?n z buf)" by (simp add: resize_def)
    show "resize ?n z buf ! ((pos * streams + s) * u + k) = buf ! ((pos * streams + s) * u + k)" if "k < u" for k
      using e ln that by (simp add: resize_def nth_append)
  qed
  moreover have "buf_row u (pos * streams + s) (resize ?n z buf) = replicate u z"
    if "s < streams" "pos < new" "old \<le> pos" for s pos
  proof (rule nth_equalityI)
    have e: "(pos * streams + s) * u + u \<le> ?n"
      using row_end [OF stream_row_less [OF that(1,2), of PositionMajor], of u] by (simp add: stream_row_def)
    have lr: "length (resize ?n z buf) = ?n" using ln by (simp add: resize_def)
    show "length (buf_row u (pos * streams + s) (resize ?n z buf)) = length (replicate u z)"
      using e lr by (simp add: length_buf_row)
    have "old * streams \<le> pos * streams + s" using that(3) by (simp add: trans_le_add1)
    then have "length buf \<le> (pos * streams + s) * u" unfolding len by (rule mult_le_mono1)
    then show "buf_row u (pos * streams + s) (resize ?n z buf) ! k = replicate u z ! k"
      if "k < length (buf_row u (pos * streams + s) (resize ?n z buf))" for k
      using e lr that ln by (simp add: length_buf_row nth_buf_row) (simp add: resize_def nth_append)
  qed
  ultimately show ?thesis using PositionMajor ln by (auto simp: grow_buffer_def stream_row_def resize_def)
next
  case HeadMajor
  let ?n = "new * streams * u"
  have a: "old * u \<le> new * u" "length buf = streams * (old * u)" "length (replicate ?n z) = streams * (new * u)"
    using len le by (simp_all add: ac_simps)
  from copy_streams_Ok [OF a order_refl] obtain acc where
    acc: "copy_streams (old * u) (new * u) streams buf (replicate ?n z) = Ok acc" "length acc = ?n"
      "\<forall>s < streams. \<forall>k < old * u. acc ! (s * (new * u) + k) = buf ! (s * (old * u) + k)"
      "\<forall>s < streams. \<forall>k < new * u. old * u \<le> k \<longrightarrow> acc ! (s * (new * u) + k) = replicate ?n z ! (s * (new * u) + k)"
    by auto
  have "buf_row u (s * new + pos) acc = buf_row u (s * old + pos) buf" if sp: "s < streams" "pos < old" for s pos
  proof (rule buf_row_eqI)
    show "(s * new + pos) * u + u \<le> length acc"
      using row_end [OF stream_row_less [of s streams pos new HeadMajor], of u] sp le acc(2) by (simp add: stream_row_def)
    show "(s * old + pos) * u + u \<le> length buf"
      using row_end [OF stream_row_less [OF sp, of HeadMajor], of u] len by (simp add: stream_row_def)
    show "acc ! ((s * new + pos) * u + k) = buf ! ((s * old + pos) * u + k)" if k: "k < u" for k
    proof -
      have "pos * u + k < old * u" using row_end [OF sp(2), of u] k by linarith
      then have "acc ! (s * (new * u) + (pos * u + k)) = buf ! (s * (old * u) + (pos * u + k))"
        using acc(3) sp(1) by blast
      then show ?thesis by (simp add: algebra_simps)
    qed
  qed
  moreover have "buf_row u (s * new + pos) acc = replicate u z" if sp: "s < streams" "pos < new" "old \<le> pos" for s pos
  proof (rule nth_equalityI)
    have e: "(s * new + pos) * u + u \<le> length acc"
      using row_end [OF stream_row_less [OF sp(1,2), of HeadMajor], of u] acc(2) by (simp add: stream_row_def)
    then show "length (buf_row u (s * new + pos) acc) = length (replicate u z)" by (simp add: length_buf_row)
    show "buf_row u (s * new + pos) acc ! k = replicate u z ! k" if k: "k < length (buf_row u (s * new + pos) acc)" for k
    proof -
      have ku: "k < u" using k e by (simp add: length_buf_row)
      have a1: "pos * u + k < new * u" using row_end [OF sp(2), of u] ku by linarith
      have "old * u \<le> pos * u" using sp(3) by (rule mult_le_mono1)
      then have a2: "old * u \<le> pos * u + k" by linarith
      have "s * (new * u) + (pos * u + k) < ?n" using e ku acc(2) by (simp add: algebra_simps)
      then have "acc ! (s * (new * u) + (pos * u + k)) = z" using acc(4) sp(1) a1 a2 by simp
      then show ?thesis using ku e by (simp add: nth_buf_row algebra_simps)
    qed
  qed
  ultimately show ?thesis using HeadMajor acc by (auto simp: grow_buffer_def stream_row_def)
qed

section \<open>The cache as a map of rows\<close>

definition plan_ok :: "kv_plan \<Rightarrow> bool" where
  "plan_ok p \<longleftrightarrow> 0 < k_head_dim p \<and> key_width p = k_head_dim p \<and>
     (value_width p = v_head_dim p \<or> value_width p = 0) \<and> max_sequence_length p \<le> usize_max"

definition cache_inv :: "'e kv_cache \<Rightarrow> bool" where
  "cache_inv c \<longleftrightarrow>
     (let p = kc_plan c; rows = allocated_sequence_length c * kv_streams p in
      plan_ok p \<and> allocated_sequence_length c \<le> max_sequence_length p \<and>
      length (kc_keys c) = rows * row_units (kc_dtype c) (key_width p) \<and>
      length (kc_values c) = rows * row_units (kc_dtype c) (value_width p))"

text \<open>A row that is allocated, and the two rows of units it has.\<close>

definition row_valid :: "'e kv_cache \<Rightarrow> nat \<Rightarrow> nat \<Rightarrow> nat \<Rightarrow> bool" where
  "row_valid c l pos h \<longleftrightarrow> l < kp_layer_count (kc_plan c) \<and> h < kp_kv_head_count (kc_plan c) \<and>
     pos < allocated_sequence_length c"

definition key_row :: "'e kv_cache \<Rightarrow> nat \<Rightarrow> nat \<Rightarrow> nat \<Rightarrow> 'e list" where
  "key_row c l pos h = buf_row (row_units (kc_dtype c) (key_width (kc_plan c))) (row_index c l pos h) (kc_keys c)"

definition value_row :: "'e kv_cache \<Rightarrow> nat \<Rightarrow> nat \<Rightarrow> nat \<Rightarrow> 'e list" where
  "value_row c l pos h = buf_row (row_units (kc_dtype c) (value_width (kc_plan c))) (row_index c l pos h) (kc_values c)"

lemma row_index_stream:
  "row_index c l pos h = stream_row (kc_layout c) (kv_streams (kc_plan c)) (allocated_sequence_length c)
     (l * kp_kv_head_count (kc_plan c) + h) pos"
  by (cases "kc_layout c") (simp_all add: row_index_def stream_row_def kv_streams_def algebra_simps)

lemma stream_less: "row_valid c l pos h \<Longrightarrow> l * kp_kv_head_count (kc_plan c) + h < kv_streams (kc_plan c)"
  using row_end [of l "kp_layer_count (kc_plan c)" "kp_kv_head_count (kc_plan c)"]
  by (simp add: row_valid_def kv_streams_def)

lemma row_index_less:
  "row_valid c l pos h \<Longrightarrow> row_index c l pos h < allocated_sequence_length c * kv_streams (kc_plan c)"
  unfolding row_index_stream by (rule stream_row_less) (use stream_less in \<open>auto simp: row_valid_def\<close>)

lemma row_index_inj:
  assumes "row_valid c l pos h" "row_valid c l' pos' h'" "row_index c l pos h = row_index c l' pos' h'"
  shows "l = l' \<and> pos = pos' \<and> h = h'"
proof -
  have e: "l * kp_kv_head_count (kc_plan c) + h = l' * kp_kv_head_count (kc_plan c) + h' \<and> pos = pos'"
    by (rule stream_row_inj [OF stream_less [OF assms(1)] stream_less [OF assms(2)]])
      (use assms in \<open>auto simp: row_valid_def row_index_stream\<close>)
  have "(l * kp_kv_head_count (kc_plan c) + h) div kp_kv_head_count (kc_plan c) = l"
    "(l' * kp_kv_head_count (kc_plan c) + h') div kp_kv_head_count (kc_plan c) = l'"
    using assms(1,2) by (auto simp: row_valid_def)
  with e show ?thesis by auto
qed

lemma row_fits:
  assumes "row_valid c l pos h" "n = allocated_sequence_length c * kv_streams (kc_plan c) * u"
  shows "row_index c l pos h * u + u \<le> n"
  using row_end [OF row_index_less [OF assms(1)], of u] assms(2) by simp

lemma grow_sequence_length_bounds:
  assumes "plan_ok (kc_plan c)" "required \<le> max_sequence_length (kc_plan c)"
  shows "required \<le> grow_sequence_length e c required" "grow_sequence_length e c required \<le> max_sequence_length (kc_plan c)"
proof -
  let ?g = "kv_cache_grow_tokens e (max_sequence_length (kc_plan c))"
  show "grow_sequence_length e c required \<le> max_sequence_length (kc_plan c)"
    using assms(2) by (simp add: grow_sequence_length_def Let_def)
  show "required \<le> grow_sequence_length e c required"
  proof (cases "?g \<le> 1")
    case False
    then have "required \<le> div_ceil required ?g * ?g" using div_ceil_bounds [of ?g required] by simp
    with False assms show ?thesis by (simp add: grow_sequence_length_def Let_def sat_mul_us_def plan_ok_def)
  qed (simp add: grow_sequence_length_def Let_def)
qed

lemma ensure_position_capacity_law:
  assumes inv: "cache_inv c"
  shows "(case ensure_position_capacity e z required c of
      (Ok _, c') \<Rightarrow> required \<le> allocated_sequence_length c' \<and> cache_inv c' \<and>
        allocated_sequence_length c \<le> allocated_sequence_length c' \<and>
        kc_plan c' = kc_plan c \<and> kc_layout c' = kc_layout c \<and> kc_dtype c' = kc_dtype c \<and>
        position c' = position c \<and> materialized_through c' = materialized_through c \<and>
        allocated_sequence_length c' = (if required \<le> allocated_sequence_length c then allocated_sequence_length c
          else grow_sequence_length e c required) \<and>
        (\<forall>l pos h. row_valid c l pos h \<longrightarrow> key_row c' l pos h = key_row c l pos h \<and> value_row c' l pos h = value_row c l pos h) \<and>
        (\<forall>l pos h. row_valid c' l pos h \<and> \<not> row_valid c l pos h \<longrightarrow>
          key_row c' l pos h = replicate (row_units (kc_dtype c) (key_width (kc_plan c))) z \<and>
          value_row c' l pos h = replicate (row_units (kc_dtype c) (value_width (kc_plan c))) z)
    | (Err _, c') \<Rightarrow> c' = c
    | (Panic, c') \<Rightarrow> False)"
proof (cases "required \<le> max_sequence_length (kc_plan c) \<and> allocated_sequence_length c < required")
  case False
  with inv show ?thesis by (auto simp: ensure_position_capacity_def Let_def)
next
  case True
  let ?p = "kc_plan c" and ?d = "kc_dtype c" and ?old = "allocated_sequence_length c"
  let ?new = "grow_sequence_length e c required"
  have po: "plan_ok ?p" using inv by (simp add: cache_inv_def Let_def)
  note g = grow_sequence_length_bounds [OF po conjunct1 [OF True], of e]
  have le: "?old \<le> ?new" using g True by simp
  have lk: "length (kc_keys c) = ?old * kv_streams ?p * row_units ?d (key_width ?p)"
    and lv: "length (kc_values c) = ?old * kv_streams ?p * row_units ?d (value_width ?p)"
    using inv by (simp_all add: cache_inv_def Let_def)
  from grow_buffer_law [OF lk le, of "kc_layout c" z] obtain ks where
    ks: "grow_buffer (kc_layout c) z (?new * kv_streams ?p * row_units ?d (key_width ?p)) ?old ?new
        (row_units ?d (key_width ?p)) (kv_streams ?p) (kc_keys c) = Ok ks"
      "length ks = ?new * kv_streams ?p * row_units ?d (key_width ?p)"
      "\<forall>s < kv_streams ?p. \<forall>pos < ?old. buf_row (row_units ?d (key_width ?p)) (stream_row (kc_layout c) (kv_streams ?p) ?new s pos) ks =
         buf_row (row_units ?d (key_width ?p)) (stream_row (kc_layout c) (kv_streams ?p) ?old s pos) (kc_keys c)"
      "\<forall>s < kv_streams ?p. \<forall>pos < ?new. ?old \<le> pos \<longrightarrow>
         buf_row (row_units ?d (key_width ?p)) (stream_row (kc_layout c) (kv_streams ?p) ?new s pos) ks = replicate (row_units ?d (key_width ?p)) z"
    by blast
  from grow_buffer_law [OF lv le, of "kc_layout c" z] obtain vs where
    vs: "grow_buffer (kc_layout c) z (?new * kv_streams ?p * row_units ?d (value_width ?p)) ?old ?new
        (row_units ?d (value_width ?p)) (kv_streams ?p) (kc_values c) = Ok vs"
      "length vs = ?new * kv_streams ?p * row_units ?d (value_width ?p)"
      "\<forall>s < kv_streams ?p. \<forall>pos < ?old. buf_row (row_units ?d (value_width ?p)) (stream_row (kc_layout c) (kv_streams ?p) ?new s pos) vs =
         buf_row (row_units ?d (value_width ?p)) (stream_row (kc_layout c) (kv_streams ?p) ?old s pos) (kc_values c)"
      "\<forall>s < kv_streams ?p. \<forall>pos < ?new. ?old \<le> pos \<longrightarrow>
         buf_row (row_units ?d (value_width ?p)) (stream_row (kc_layout c) (kv_streams ?p) ?new s pos) vs = replicate (row_units ?d (value_width ?p)) z"
    by blast
  let ?c = "c\<lparr>kc_keys := ks, kc_values := vs, allocated_sequence_length := ?new\<rparr>"
  have rc: "row_count = ?new * kv_streams ?p"
    if "Option.bind (checked_mul_us ?new (kp_layer_count ?p)) (\<lambda>v. checked_mul_us v (kp_kv_head_count ?p)) = Some row_count"
    for row_count
    using that by (auto simp: bind_eq_Some_conv checked_mul_us_Some_iff kv_streams_def)
  have "ensure_position_capacity e z required c = (Ok (), ?c) \<or>
      (\<exists>err. ensure_position_capacity e z required c = (Err err, c))"
    using True ks(1) vs(1) by (auto simp: ensure_position_capacity_def Let_def dest!: rc split: option.splits)
  moreover have "cache_inv ?c"
    using po g ks(2) vs(2) by (simp add: cache_inv_def Let_def)
  moreover have "key_row ?c l pos h = key_row c l pos h \<and> value_row ?c l pos h = value_row c l pos h" if "row_valid c l pos h" for l pos h
    using ks(3) vs(3) stream_less [OF that] that
    by (simp add: key_row_def value_row_def row_index_stream row_valid_def)
  moreover have "key_row ?c l pos h = replicate (row_units ?d (key_width ?p)) z \<and>
      value_row ?c l pos h = replicate (row_units ?d (value_width ?p)) z" if "row_valid ?c l pos h" "\<not> row_valid c l pos h" for l pos h
    using ks(4) vs(4) stream_less [OF that(1)] that
    by (simp add: key_row_def value_row_def row_index_stream row_valid_def)
  ultimately show ?thesis using True g le by auto
qed

section \<open>Storing and reading rows\<close>

lemma key_offset_row: "plan_ok (kc_plan c) \<Longrightarrow>
    key_offset c l pos h = row_index c l pos h * row_units (kc_dtype c) (key_width (kc_plan c))"
  by (auto simp: key_offset_def offset_def quantized_offset_def plan_ok_def split: kv_dtype.splits)

lemma value_offset_row: "plan_ok (kc_plan c) \<Longrightarrow>
    value_offset c n l pos h = Ok (row_index c l pos h * row_units (kc_dtype c) n)"
  by (auto simp: value_offset_def offset_def quantized_offset_def plan_ok_def Let_def split: kv_dtype.splits)

text \<open>The units a row is converted to fill the place of the row.\<close>

definition row_codec :: "'e kv_cache \<Rightarrow> ('f list \<Rightarrow> 'e list) \<Rightarrow> bool" where
  "row_codec c enc \<longleftrightarrow> (\<forall>r. length (enc r) = row_units (kc_dtype c) (length r))"

lemma row_units_0 [simp]: "row_units d 0 = 0"
  by (cases d) auto

lemma write_row_law:
  assumes v: "row_valid c l pos h" and len: "length xs = allocated_sequence_length c * kv_streams (kc_plan c) * u"
    and ys: "length ys = u"
  shows "\<exists>xs'. write_row (row_index c l pos h * u) ys xs = Ok xs' \<and> length xs' = length xs \<and>
    buf_row u (row_index c l pos h) xs' = ys \<and>
    (\<forall>l' pos' h'. row_valid c l' pos' h' \<and> (l', pos', h') \<noteq> (l, pos, h) \<longrightarrow>
      buf_row u (row_index c l' pos' h') xs' = buf_row u (row_index c l' pos' h') xs)"
proof -
  have f: "row_index c l' pos' h' * u + u \<le> length xs" if "row_valid c l' pos' h'" for l' pos' h'
    by (rule row_fits [OF that len])
  have "buf_row u (row_index c l' pos' h') (splice (row_index c l pos h * u) ys xs) = buf_row u (row_index c l' pos' h') xs"
    if "row_valid c l' pos' h'" "(l', pos', h') \<noteq> (l, pos, h)" for l' pos' h'
    using buf_row_splice_other [OF f [OF v] f [OF that(1)] ys] row_index_inj [OF that(1) v] that(2) by auto
  with f [OF v] ys buf_row_splice_same [OF f [OF v] ys] show ?thesis
    by (auto simp: write_row_def length_splice)
qed

lemma row_index_cong [simp]:
  "row_index (c\<lparr>kc_keys := ks\<rparr>) = row_index c" "row_index (c\<lparr>kc_values := ks\<rparr>) = row_index c"
  "row_index (c\<lparr>materialized_through := m\<rparr>) = row_index c"
  by (auto simp: fun_eq_iff row_index_def split: kv_layout.splits)

lemma row_valid_cong [simp]:
  "row_valid (c\<lparr>kc_keys := ks\<rparr>) = row_valid c" "row_valid (c\<lparr>kc_values := ks\<rparr>) = row_valid c"
  "row_valid (c\<lparr>materialized_through := m\<rparr>) = row_valid c"
  by (auto simp: fun_eq_iff row_valid_def)

lemma store_kv_head_row_law:
  assumes inv: "cache_inv c" and v: "row_valid c l pos h" and codec: "row_codec c enc"
    and k: "length kr = key_width (kc_plan c)" and vr: "length vrow = value_width (kc_plan c)"
  shows "\<exists>c'. store_kv_head_row enc l pos h kr vrow c = (Ok (), c') \<and> cache_inv c' \<and>
    allocated_sequence_length c' = allocated_sequence_length c \<and> kc_plan c' = kc_plan c \<and>
    kc_layout c' = kc_layout c \<and> kc_dtype c' = kc_dtype c \<and> position c' = position c \<and>
    materialized_through c' = max (materialized_through c) (pos + 1) \<and>
    key_row c' l pos h = enc kr \<and> value_row c' l pos h = enc vrow \<and>
    (\<forall>l' pos' h'. row_valid c l' pos' h' \<and> (l', pos', h') \<noteq> (l, pos, h) \<longrightarrow>
      key_row c' l' pos' h' = key_row c l' pos' h' \<and> value_row c' l' pos' h' = value_row c l' pos' h')"
proof -
  let ?p = "kc_plan c" and ?d = "kc_dtype c"
  let ?c = "c\<lparr>materialized_through := max (materialized_through c) (pos + 1)\<rparr>"
  have po: "plan_ok ?p" using inv by (simp add: cache_inv_def Let_def)
  have lk: "length (kc_keys c) = allocated_sequence_length c * kv_streams ?p * row_units ?d (key_width ?p)"
    and lv: "length (kc_values c) = allocated_sequence_length c * kv_streams ?p * row_units ?d (value_width ?p)"
    using inv by (simp_all add: cache_inv_def Let_def)
  have ek: "length (enc kr) = row_units ?d (key_width ?p)" and ev: "length (enc vrow) = row_units ?d (value_width ?p)"
    using codec k vr by (simp_all add: row_codec_def)
  from write_row_law [OF v lk ek] obtain ks where
    ks: "write_row (row_index c l pos h * row_units ?d (key_width ?p)) (enc kr) (kc_keys c) = Ok ks"
      "length ks = length (kc_keys c)" "buf_row (row_units ?d (key_width ?p)) (row_index c l pos h) ks = enc kr"
      "\<forall>l' pos' h'. row_valid c l' pos' h' \<and> (l', pos', h') \<noteq> (l, pos, h) \<longrightarrow>
        buf_row (row_units ?d (key_width ?p)) (row_index c l' pos' h') ks = buf_row (row_units ?d (key_width ?p)) (row_index c l' pos' h') (kc_keys c)"
    by blast
  from write_row_law [OF v lv ev] obtain vs where
    vs: "write_row (row_index c l pos h * row_units ?d (value_width ?p)) (enc vrow) (kc_values c) = Ok vs"
      "length vs = length (kc_values c)" "buf_row (row_units ?d (value_width ?p)) (row_index c l pos h) vs = enc vrow"
      "\<forall>l' pos' h'. row_valid c l' pos' h' \<and> (l', pos', h') \<noteq> (l, pos, h) \<longrightarrow>
        buf_row (row_units ?d (value_width ?p)) (row_index c l' pos' h') vs = buf_row (row_units ?d (value_width ?p)) (row_index c l' pos' h') (kc_values c)"
    by blast
  have ko: "key_offset ?c l pos h = row_index c l pos h * row_units ?d (key_width ?p)"
    using key_offset_row [of ?c] po by simp
  have vo: "value_offset (?c\<lparr>kc_keys := ks\<rparr>) n l pos h = Ok (row_index c l pos h * row_units ?d n)" for n
    using value_offset_row [of "?c\<lparr>kc_keys := ks\<rparr>"] po by simp
  have vs0: "vs = kc_values c" if "value_width ?p = 0"
    using vs(2) lv that by simp
  have run: "store_kv_head_row enc l pos h kr vrow c = (Ok (), ?c\<lparr>kc_keys := ks, kc_values := vs\<rparr>)"
  proof (cases "value_width ?p = 0")
    case True
    then show ?thesis
      using ks(1) ko vr vs0 [OF True] by (simp add: store_kv_head_row_def Let_def)
  next
    case False
    then show ?thesis
      using ks(1) vs(1) ko vo vr by (simp add: store_kv_head_row_def Let_def)
  qed
  have "cache_inv (?c\<lparr>kc_keys := ks, kc_values := vs\<rparr>)"
    using inv ks(2) vs(2) by (simp add: cache_inv_def Let_def)
  with run ks vs show ?thesis by (simp add: key_row_def value_row_def)
qed

lemma copy_key_row_eq:
  assumes "cache_inv c" "row_valid c l pos h"
  shows "copy_key_row dec c l pos h = Ok (dec (key_row c l pos h))"
proof -
  have po: "plan_ok (kc_plan c)" using assms by (simp add: cache_inv_def Let_def)
  have len: "length (kc_keys c) = allocated_sequence_length c * kv_streams (kc_plan c) * row_units (kc_dtype c) (key_width (kc_plan c))"
    using assms(1) by (simp add: cache_inv_def Let_def)
  have kw: "key_width (kc_plan c) = k_head_dim (kc_plan c)" using po by (simp add: plan_ok_def)
  from row_fits [OF assms(2) len] show ?thesis
    by (simp add: copy_key_row_def key_offset_row [OF po] read_row_def key_row_def buf_row_def kw)
qed

lemma copy_value_row_eq:
  assumes "cache_inv c" "row_valid c l pos h" "value_width (kc_plan c) \<noteq> 0"
  shows "copy_value_row dec c l pos h = Ok (dec (value_row c l pos h))"
proof -
  have po: "plan_ok (kc_plan c)" using assms by (simp add: cache_inv_def Let_def)
  have len: "length (kc_values c) = allocated_sequence_length c * kv_streams (kc_plan c) * row_units (kc_dtype c) (value_width (kc_plan c))"
    using assms(1) by (simp add: cache_inv_def Let_def)
  have vw: "value_width (kc_plan c) = v_head_dim (kc_plan c)" using po assms(3) by (auto simp: plan_ok_def)
  from row_fits [OF assms(2) len] assms(3) show ?thesis
    by (simp add: copy_value_row_def value_offset_row [OF po] read_row_def value_row_def buf_row_def vw Let_def)
qed

section \<open>Runs of cache operations\<close>

datatype 'f kv_op = Grow usize | Store usize usize usize "'f list" "'f list" | Rollback usize

definition kv_exec ::
  "usize option \<Rightarrow> 'e \<Rightarrow> ('f list \<Rightarrow> 'e list) \<Rightarrow> 'f kv_op \<Rightarrow> 'e kv_cache \<Rightarrow> (unit, kv_error) outcome \<times> 'e kv_cache" where
  "kv_exec e z enc oper c =
     (case oper of
        Grow n \<Rightarrow> ensure_position_capacity e z n c
      | Store l pos h kr vr \<Rightarrow> store_kv_head_row enc l pos h kr vr c
      | Rollback n \<Rightarrow> rollback_to_position n c)"











fun kv_execs ::
  "usize option \<Rightarrow> 'e \<Rightarrow> ('f list \<Rightarrow> 'e list) \<Rightarrow> 'f kv_op list \<Rightarrow> 'e kv_cache \<Rightarrow> (unit, kv_error) outcome list \<times> 'e kv_cache" where
  "kv_execs e z enc [] c = ([], c)"
| "kv_execs e z enc (oper # ops) c =
     (let (r, c1) = kv_exec e z enc oper c; (rs, c2) = kv_execs e z enc ops c1 in (r # rs, c2))"





section \<open>Properties\<close>


text \<open>Growing a cache changes no row that was allocated, in either layout: \<open>ensure_position_capacity\<close> does
  not panic; when it fails the cache is unchanged; when it succeeds the required positions are
  allocated, the length never exceeds the context, and every row allocated before is still the
  same.\<close>

theorem growth_keeps_rows:
  assumes "cache_inv c"
  shows "(case ensure_position_capacity e z required c of
      (Ok _, c') \<Rightarrow> required \<le> allocated_sequence_length c' \<and> cache_inv c' \<and>
        (\<forall>l pos h. row_valid c l pos h \<longrightarrow> key_row c' l pos h = key_row c l pos h \<and> value_row c' l pos h = value_row c l pos h)
    | (Err _, c') \<Rightarrow> c' = c
    | (Panic, c') \<Rightarrow> False)"
  using ensure_position_capacity_law [OF assms, where e = e and z = z and required = required]
  by (auto split: prod.splits outcome.splits)

text \<open>The canonical row store is exact: storing a key row and a value row for an allocated layer,
  position and head succeeds, the rows read back are the stored ones after one conversion, every
  other row reads as before, and the watermark covers the position.\<close>

theorem stored_row_reads_back:
  assumes "cache_inv c" "row_valid c l pos h" "row_codec c enc"
    and "length kr = key_width (kc_plan c)" "length vrow = value_width (kc_plan c)" "value_width (kc_plan c) \<noteq> 0"
    and "row_valid c l' pos' h'" "(l', pos', h') \<noteq> (l, pos, h)"
  shows "\<exists>c'. store_kv_head_row enc l pos h kr vrow c = (Ok (), c') \<and>
    copy_key_row dec c' l pos h = Ok (dec (enc kr)) \<and> copy_value_row dec c' l pos h = Ok (dec (enc vrow)) \<and>
    copy_key_row dec c' l' pos' h' = copy_key_row dec c l' pos' h' \<and>
    copy_value_row dec c' l' pos' h' = copy_value_row dec c l' pos' h' \<and>
    history_materialized c' (pos + 1)"
proof -
  from store_kv_head_row_law [OF assms(1-5)] obtain c' where
    c: "store_kv_head_row enc l pos h kr vrow c = (Ok (), c')" "cache_inv c'"
      "allocated_sequence_length c' = allocated_sequence_length c" "kc_plan c' = kc_plan c"
      "materialized_through c' = max (materialized_through c) (pos + 1)"
      "key_row c' l pos h = enc kr" "value_row c' l pos h = enc vrow"
      "key_row c' l' pos' h' = key_row c l' pos' h' \<and> value_row c' l' pos' h' = value_row c l' pos' h'"
    using assms(7,8) by blast
  have v: "row_valid c' l pos h" "row_valid c' l' pos' h'" "value_width (kc_plan c') \<noteq> 0"
    using assms c(3,4) by (auto simp: row_valid_def)
  have m: "history_materialized c' (pos + 1)" by (simp add: history_materialized_def c(5))
  show ?thesis
    using c(1,6,7,8) m copy_key_row_eq [OF c(2) v(1), of dec] copy_key_row_eq [OF c(2) v(2), of dec]
      copy_value_row_eq [OF c(2) v(1,3), of dec] copy_value_row_eq [OF c(2) v(2,3), of dec]
      copy_key_row_eq [OF assms(1,7), of dec] copy_value_row_eq [OF assms(1,7,6), of dec]
    by auto
qed

text \<open>The bytes per token without the wrap-around, and when \<open>kv_bytes_per_token\<close> computes them.\<close>

definition token_bytes :: "'e kv_cache \<Rightarrow> nat" where
  "token_bytes c =
     (let p = kc_plan c; d = kc_dtype c in
      kv_streams p * (row_units d (k_head_dim p) +
        (if d = KF32 \<or> d = KF16 then value_width p else row_units d (v_head_dim p))) * unit_bytes d)"

lemma wrap_us_absorb:
  "wrap_us (wrap_us a * b) = wrap_us (a * b)" "wrap_us (a * wrap_us b) = wrap_us (a * b)"
  "wrap_us (wrap_us a + b) = wrap_us (a + b)" "wrap_us (a + wrap_us b) = wrap_us (a + b)"
  by (simp_all only: wrap_us_def mod_simps)

lemma wrap_us_absorb3: "wrap_us (a * wrap_us b * c) = wrap_us (a * b * c)"
  by (metis wrap_us_absorb(1,2))

lemma kv_bytes_per_token_wraps:
  assumes "plan_ok (kc_plan c)"
  shows "kv_bytes_per_token c = wrap_us (token_bytes c)"
proof -
  note defs = kv_bytes_per_token_def token_bytes_def position_stride_def value_position_stride_def kv_streams_def
    Let_def wrap_us_absorb wrap_us_absorb3
  have k: "key_width (kc_plan c) = k_head_dim (kc_plan c)" using assms by (simp add: plan_ok_def)
  show ?thesis
    by (cases "kc_dtype c") (simp_all add: defs k, simp_all add: algebra_simps)
qed

lemma kv_bytes_per_token_fits:
  "plan_ok (kc_plan c) \<Longrightarrow> token_bytes c \<le> usize_max \<Longrightarrow> kv_bytes_per_token c = token_bytes c"
  by (simp add: kv_bytes_per_token_wraps wrap_us_def usize_max_def)

lemma token_bytes_exact:
  assumes "plan_ok (kc_plan c)" "value_width (kc_plan c) = v_head_dim (kc_plan c)"
  shows "token_bytes c = kv_streams (kc_plan c) *
    (row_units (kc_dtype c) (key_width (kc_plan c)) + row_units (kc_dtype c) (value_width (kc_plan c))) * unit_bytes (kc_dtype c)"
  using assms by (cases "kc_dtype c") (simp_all add: token_bytes_def plan_ok_def Let_def)

lemma allocated_bytes_exact:
  "cache_inv c \<Longrightarrow> allocated_bytes c = allocated_sequence_length c * (kv_streams (kc_plan c) *
    (row_units (kc_dtype c) (key_width (kc_plan c)) + row_units (kc_dtype c) (value_width (kc_plan c))) * unit_bytes (kc_dtype c))"
  by (simp add: allocated_bytes_def cache_inv_def Let_def algebra_simps)

lemma sat_token_bytes:
  assumes "plan_ok (kc_plan c)" "b = n * token_bytes c" "b \<le> usize_max"
  shows "sat_mul_us n (kv_bytes_per_token c) = b"
proof (cases "n = 0")
  case True
  with assms(2) show ?thesis by (simp add: sat_mul_us_def)
next
  case False
  then have "token_bytes c \<le> n * token_bytes c" by (cases n) simp_all
  with assms(2,3) have "token_bytes c \<le> usize_max" by linarith
  with assms show ?thesis by (simp add: kv_bytes_per_token_fits sat_mul_us_def)
qed

lemma ensured_bytes:
  assumes inv: "cache_inv c" and ok: "ensure_position_capacity e z required c = (Ok (), c')"
  shows "projected_allocated_bytes e c required = Ok (sat_mul_us (allocated_sequence_length c') (kv_bytes_per_token c))"
    "allocated_bytes c' = allocated_sequence_length c' * (kv_streams (kc_plan c) *
       (row_units (kc_dtype c) (key_width (kc_plan c)) + row_units (kc_dtype c) (value_width (kc_plan c))) * unit_bytes (kc_dtype c))"
    "allocated_sequence_length c < required \<longrightarrow>
       sat_mul_us (allocated_sequence_length c') (kv_bytes_per_token c) \<le> kv_budget_bytes c"
proof -
  have l: "cache_inv c'" "kc_plan c' = kc_plan c" "kc_dtype c' = kc_dtype c"
    "allocated_sequence_length c' = (if required \<le> allocated_sequence_length c then allocated_sequence_length c
          else grow_sequence_length e c required)"
    using ensure_position_capacity_law [OF inv, where e = e and z = z and required = required] by (auto simp: ok)
  show "allocated_bytes c' = allocated_sequence_length c' * (kv_streams (kc_plan c) *
       (row_units (kc_dtype c) (key_width (kc_plan c)) + row_units (kc_dtype c) (value_width (kc_plan c))) * unit_bytes (kc_dtype c))"
    using allocated_bytes_exact [OF l(1)] by (simp add: l(2,3))
  have "required \<le> max_sequence_length (kc_plan c)" using ok by (auto simp: ensure_position_capacity_def Let_def split: if_splits)
  then show "projected_allocated_bytes e c required = Ok (sat_mul_us (allocated_sequence_length c') (kv_bytes_per_token c))"
    using l(4) by (simp add: projected_allocated_bytes_def Let_def)
  show "allocated_sequence_length c < required \<longrightarrow>
       sat_mul_us (allocated_sequence_length c') (kv_bytes_per_token c) \<le> kv_budget_bytes c"
  proof
    assume less: "allocated_sequence_length c < required"
    then have t: "allocated_sequence_length c' = grow_sequence_length e c required" using l(4) by simp
    have "sat_mul_us (grow_sequence_length e c required) (kv_bytes_per_token c) \<le> kv_budget_bytes c"
    proof (rule ccontr)
      assume "\<not> ?thesis"
      with ok less show False by (auto simp: ensure_position_capacity_def Let_def split: if_splits)
    qed
    then show "sat_mul_us (allocated_sequence_length c') (kv_bytes_per_token c) \<le> kv_budget_bytes c" unfolding t .
  qed
qed

text \<open>C36. Budgets are enforced on exact numbers, for a plan whose value buffer has the width of its value
  heads (every plan but the compressed MLA ones) and bytes that a \<open>u64\<close> can count: the bytes that
  \<open>projected_allocated_bytes\<close> announces for a reservation are the bytes that are allocated once the
  reservation succeeds, and a growth that succeeds stays within the budget of the cache.\<close>

theorem projected_bytes_exact:
  assumes inv: "cache_inv c" and vw: "value_width (kc_plan c) = v_head_dim (kc_plan c)"
    and ok: "ensure_position_capacity e z required c = (Ok (), c')" and fits: "allocated_bytes c' \<le> usize_max"
  shows "projected_allocated_bytes e c required = Ok (allocated_bytes c') \<and>
    (allocated_sequence_length c < required \<longrightarrow> allocated_bytes c' \<le> kv_budget_bytes c)"
proof -
  have po: "plan_ok (kc_plan c)" using inv by (simp add: cache_inv_def Let_def)
  note g = ensured_bytes [OF inv ok]
  have b: "allocated_bytes c' = allocated_sequence_length c' * token_bytes c"
    using g(2) token_bytes_exact [OF po vw] by simp
  have "sat_mul_us (allocated_sequence_length c') (kv_bytes_per_token c) = allocated_bytes c'"
    by (rule sat_token_bytes [OF po b fits])
  with g(1,3) show ?thesis by simp
qed

text \<open>C39. For a compressed (MLA) plan with a quantized element type the projection is not exact: the
  value buffer is empty, but the bytes per token still count the blocks of the value heads. For every
  such plan, cache and reservation (whose bytes a \<open>u64\<close> can count) that succeeds, the projection
  exceeds the bytes allocated by exactly those blocks: for every allocated position and layer one
  value row of \<open>kv_lora_rank\<close> values, which is also charged to the budget.\<close>

theorem mla_quantized_projection_overcounts:
  assumes inv: "cache_inv c" and plan: "kc_plan c = plan_from_config ctx layers heads dim (Some (kv_lora_rank, rope_head_dim))"
    and quantized: "kc_dtype c \<noteq> KF32" "kc_dtype c \<noteq> KF16"
    and ok: "ensure_position_capacity e z required c = (Ok (), c')"
    and fits: "allocated_bytes c' + allocated_sequence_length c' * layers * div_ceil (unat kv_lora_rank) 32 * unit_bytes (kc_dtype c) \<le> usize_max"
  shows "projected_allocated_bytes e c required =
    Ok (allocated_bytes c' + allocated_sequence_length c' * layers * div_ceil (unat kv_lora_rank) 32 * unit_bytes (kc_dtype c))"
proof -
  let ?extra = "allocated_sequence_length c' * layers * div_ceil (unat kv_lora_rank) 32 * unit_bytes (kc_dtype c)"
  have po: "plan_ok (kc_plan c)" using inv by (simp add: cache_inv_def Let_def)
  note g = ensured_bytes [OF inv ok]
  have p: "kv_streams (kc_plan c) = layers" "key_width (kc_plan c) = k_head_dim (kc_plan c)"
    "value_width (kc_plan c) = 0" "v_head_dim (kc_plan c) = unat kv_lora_rank"
    by (simp_all add: plan plan_from_config_def kv_streams_def)
  have u: "row_units (kc_dtype c) n = div_ceil n 32" for n
    using quantized by (cases "kc_dtype c") (simp_all add: KV_QUANT_BLOCK_VALUES_def)
  have u0: "row_units (kc_dtype c) 0 = 0" unfolding u by (simp add: div_ceil_def)
  have t: "token_bytes c = layers * (row_units (kc_dtype c) (k_head_dim (kc_plan c)) + div_ceil (unat kv_lora_rank) 32) *
      unit_bytes (kc_dtype c)"
    using quantized p u by (simp add: token_bytes_def Let_def)
  have b: "allocated_bytes c' + ?extra = allocated_sequence_length c' * token_bytes c"
    unfolding g(2) t p u0 by (simp add: distrib_left distrib_right mult.assoc)
  have "sat_mul_us (allocated_sequence_length c') (kv_bytes_per_token c) = allocated_bytes c' + ?extra"
    by (rule sat_token_bytes [OF po b fits])
  with g(1) show ?thesis by simp
qed

text \<open>Rolling back never leaves the watermark vouching for discarded rows: a rollback to an earlier
  position succeeds, no position past it counts as materialized, and what was materialized up to
  it still does; a rollback forward is refused and changes nothing.\<close>

theorem rollback_clamps_watermark:
  "if n \<le> position c then
     (\<exists>c'. rollback_to_position n c = (Ok (), c') \<and> position c' = n \<and>
       (\<forall>m. history_materialized c' m \<longleftrightarrow> history_materialized c m \<and> m \<le> n) \<and>
       kc_keys c' = kc_keys c \<and> kc_values c' = kc_values c)
   else rollback_to_position n c = (Err (RollbackBeyondPosition n (position c)), c)"
  by (auto simp: rollback_to_position_def history_materialized_def)

section \<open>A concrete cache\<close>

definition small_plan :: kv_plan where
  "small_plan = plan_from_config 64 2 2 2 None"


definition small_cache :: "kv_layout \<Rightarrow> nat kv_cache" where
  "small_cache l = snd (kv_execs None 0 id [Grow 2, Store 0 0 1 [7, 8] [9, 10 :: nat]] (kv_cache_new small_plan l KF32 usize_max))"





lemma small_cache_inv: "cache_inv (small_cache HeadMajor)" "row_valid (small_cache HeadMajor) 0 0 1"
  "row_valid (small_cache HeadMajor) 1 1 0"
  by code_simp+

theorem growth_keeps_rows_witness:
  "key_row (snd (ensure_position_capacity None 0 5 (small_cache HeadMajor))) 0 0 1 = [7, 8]"
proof -
  have ok: "fst (ensure_position_capacity None 0 5 (small_cache HeadMajor)) = Ok ()" by code_simp
  have k: "key_row (small_cache HeadMajor) 0 0 1 = [7, 8]" by code_simp
  from growth_keeps_rows [OF small_cache_inv(1), where e = None and z = 0 and required = 5] ok k small_cache_inv(2) show ?thesis
    by (auto split: prod.splits)
qed

theorem stored_row_reads_back_witness:
  "\<exists>c'. store_kv_head_row id 1 1 0 [5, 6] [3, 4] (small_cache HeadMajor) = (Ok (), c') \<and>
    copy_key_row id c' 1 1 0 = Ok [5, 6] \<and> copy_key_row id c' 0 0 1 = Ok [7, 8]"
proof -
  have codec: "row_codec (small_cache HeadMajor) (id :: nat list \<Rightarrow> nat list)"
  proof -
    have "kc_dtype (small_cache HeadMajor) = KF32" by code_simp
    then show ?thesis by (simp add: row_codec_def)
  qed
  have w: "length [5, 6::nat] = key_width (kc_plan (small_cache HeadMajor))"
    "length [3, 4::nat] = value_width (kc_plan (small_cache HeadMajor))"
    "value_width (kc_plan (small_cache HeadMajor)) \<noteq> 0" by code_simp+
  have k: "copy_key_row id (small_cache HeadMajor) 0 0 1 = Ok [7, 8]" by code_simp
  from stored_row_reads_back [OF small_cache_inv(1,3) codec w small_cache_inv(2), of id] k
  show ?thesis by auto
qed

theorem projected_bytes_exact_witness:
  "projected_allocated_bytes None (small_cache HeadMajor) 5 =
    Ok (allocated_bytes (snd (ensure_position_capacity None 0 5 (small_cache HeadMajor))))"
proof -
  have vw: "value_width (kc_plan (small_cache HeadMajor)) = v_head_dim (kc_plan (small_cache HeadMajor))" by code_simp
  have ok: "fst (ensure_position_capacity None 0 5 (small_cache HeadMajor)) = Ok ()" by code_simp
  then have run: "ensure_position_capacity None 0 5 (small_cache HeadMajor) =
      (Ok (), snd (ensure_position_capacity None 0 5 (small_cache HeadMajor)))" by (metis prod.collapse)
  have fits: "allocated_bytes (snd (ensure_position_capacity None 0 5 (small_cache HeadMajor))) \<le> usize_max" by code_simp
  from projected_bytes_exact [OF small_cache_inv(1) vw run fits] show ?thesis by blast
qed

definition mla_cache :: "nat kv_cache" where
  "mla_cache = kv_cache_new (plan_from_config 64 1 8 64 (Some (32, 32))) PositionMajor KQ8_0 usize_max"

theorem mla_quantized_projection_overcounts_witness:
  "projected_allocated_bytes None mla_cache 1 = Ok 102 \<and> allocated_bytes (snd (ensure_position_capacity None 0 1 mla_cache)) = 68"
proof -
  let ?c' = "snd (ensure_position_capacity None 0 1 mla_cache)"
  have c: "cache_inv mla_cache" "kc_dtype mla_cache = KQ8_0"
    "kc_plan mla_cache = plan_from_config 64 1 8 64 (Some (32, 32))" by code_simp+
  have run: "ensure_position_capacity None 0 1 mla_cache = (Ok (), ?c')"
    by (rule prod_eqI) (code_simp, simp)
  have b: "allocated_bytes ?c' = 68" "allocated_sequence_length ?c' = 1" by code_simp+
  have u: "allocated_bytes ?c' + allocated_sequence_length ?c' * 1 * div_ceil (unat (32::u32)) 32 * unit_bytes (kc_dtype mla_cache) = 102"
    unfolding b c(2) by code_simp
  have "(102::nat) \<le> usize_max" by (simp add: usize_max_def)
  from mla_quantized_projection_overcounts [OF c(1,3) _ _ run, unfolded u, OF _ _ this] show ?thesis using b c(2) by simp
qed

end
