(* ===== verification/Kv_Pool.thy ===== *)
theory Kv_Pool
  imports Kv_Cache
begin

text \<open>
  The budgeted pool of KV caches (\<open>src/src/inference/kv_pool.rs\<close>, \<open>UnifiedKvCachePool\<close>): sequence
  identities, idle and active sequences, a byte budget over all caches, eviction of idle
  sequences in least-recently-used order, reservations and checkpoints. The hash map of the
  source is an association list in the order of the map's iteration, about which nothing is
  assumed. \<open>u64\<close> byte counts are numbers, with the saturation of the source written out.

  What the pool needs of a cache is stated as the locale \<open>projecting_cache\<close>: a reservation that
  succeeds allocates no more than was projected. \<open>Kv_Cache\<close> provides it. The theorems: no run of
  pool operations exceeds the budget by more than what borrowers of a cache (\<open>cache_mut\<close>) allocate
  in it themselves; eviction takes idle, unprotected sequences only, oldest
  first, and only while the budget requires it; the eviction loop ends.
\<close>

section \<open>State\<close>

datatype seq_state = Idle | Active

record 'e kv_entry =
  ke_cache :: "'e kv_cache"
  ke_state :: seq_state
  ke_last_used :: u64

record 'e kv_pool =
  pl_entries :: "(u64 \<times> 'e kv_entry) list"
  pl_budget :: nat
  pl_next_id :: u64
  pl_clock :: u64
  pl_evictions :: nat

record checkpoint =
  cp_sequence_id :: u64
  cp_position :: usize

datatype pool_error =
    UnknownSequence u64
  | AlreadyActive u64
  | NotActive u64
  | BudgetExceeded nat nat
  | ActiveSequence u64
  | CacheError kv_error

definition kv_pool_new :: "nat \<Rightarrow> 'e kv_pool" where
  "kv_pool_new budget = \<lparr>pl_entries = [], pl_budget = max budget 1, pl_next_id = 1, pl_clock = 0, pl_evictions = 0\<rparr>"

section \<open>Accounting and eviction\<close>

definition pool_allocated_bytes :: "'e kv_pool \<Rightarrow> nat" where
  "pool_allocated_bytes p = foldl sat_add_us 0 (map (\<lambda>(_, e). allocated_bytes (ke_cache e)) (pl_entries p))"

definition tick :: "'e kv_pool \<Rightarrow> u64 \<times> 'e kv_pool" where
  "tick p = (pl_clock p + 1, p\<lparr>pl_clock := pl_clock p + 1\<rparr>)"

text \<open>\<open>filter(..).min_by_key(last_used)\<close>: the first of the entries with the least key.\<close>

definition evictable :: "u64 option \<Rightarrow> u64 \<times> 'e kv_entry \<Rightarrow> bool" where
  "evictable protected ie = (Some (fst ie) \<noteq> protected \<and> ke_state (snd ie) = Idle)"

fun min_by_last_used :: "(u64 \<times> 'e kv_entry) list \<Rightarrow> (u64 \<times> 'e kv_entry) option" where
  "min_by_last_used [] = None"
| "min_by_last_used (ie # ies) =
     (case min_by_last_used ies of
        None \<Rightarrow> Some ie
      | Some m \<Rightarrow> if ke_last_used (snd ie) \<le> ke_last_used (snd m) then Some ie else Some m)"

definition choose_victim :: "u64 option \<Rightarrow> 'e kv_pool \<Rightarrow> u64 option" where
  "choose_victim protected p = map_option fst (min_by_last_used (filter (evictable protected) (pl_entries p)))"

definition remove_entry :: "u64 \<Rightarrow> (u64 \<times> 'e kv_entry) list \<Rightarrow> (u64 \<times> 'e kv_entry) list" where
  "remove_entry i ies = filter (\<lambda>ie. fst ie \<noteq> i) ies"

lemma min_by_last_used_mem: "min_by_last_used ies = Some m \<Longrightarrow> m \<in> set ies"
  by (induction ies arbitrary: m) (auto split: option.splits if_splits)

lemma min_by_last_used_None: "min_by_last_used ies = None \<longleftrightarrow> ies = []"
  by (cases ies) (auto split: option.splits)

lemma choose_victim_mem:
  assumes "choose_victim protected p = Some i"
  shows "\<exists>e. (i, e) \<in> set (pl_entries p) \<and> evictable protected (i, e)"
  using assms by (auto simp: choose_victim_def dest!: min_by_last_used_mem)

lemma remove_entry_shorter: "(i, e) \<in> set ies \<Longrightarrow> length (remove_entry i ies) < length ies"
  by (auto simp: remove_entry_def intro: length_filter_less)

function make_room :: "nat \<Rightarrow> u64 option \<Rightarrow> 'e kv_pool \<Rightarrow> (unit, pool_error) outcome \<times> 'e kv_pool" where
  "make_room additional protected p =
     (let needed = sat_add_us (pool_allocated_bytes p) additional in
      if needed \<le> pl_budget p then (Ok (), p)
      else
        case choose_victim protected p of
          None \<Rightarrow> (Err (BudgetExceeded needed (pl_budget p)), p)
        | Some victim \<Rightarrow>
            make_room additional protected
              (p\<lparr>pl_entries := remove_entry victim (pl_entries p),
                 pl_evictions := sat_add_us (pl_evictions p) 1\<rparr>))"
  by pat_completeness auto
termination
  by (relation "measure (\<lambda>(_, _, p). length (pl_entries p))")
    (auto dest!: choose_victim_mem dest: remove_entry_shorter)

declare make_room.simps [simp del]

section \<open>Operations\<close>

definition find_entry :: "u64 \<Rightarrow> 'e kv_pool \<Rightarrow> 'e kv_entry option" where
  "find_entry i p = map_of (pl_entries p) i"

definition update_entry :: "u64 \<Rightarrow> ('e kv_entry \<Rightarrow> 'e kv_entry) \<Rightarrow> 'e kv_pool \<Rightarrow> 'e kv_pool" where
  "update_entry i f p = p\<lparr>pl_entries := map (\<lambda>(j, e). if j = i then (j, f e) else (j, e)) (pl_entries p)\<rparr>"

definition pool_insert :: "'e kv_cache \<Rightarrow> 'e kv_pool \<Rightarrow> (u64, pool_error) outcome \<times> 'e kv_pool" where
  "pool_insert c p =
     bindS (make_room (allocated_bytes c) None p) (\<lambda>_ p1.
       let i = pl_next_id p1;
           (last_used, p2) = tick (p1\<lparr>pl_next_id := next_generation (pl_next_id p1)\<rparr>)
       in (Ok i, p2\<lparr>pl_entries := remove_entry i (pl_entries p2) @
             [(i, \<lparr>ke_cache = c, ke_state = Idle, ke_last_used = last_used\<rparr>)]\<rparr>))"

definition pool_activate :: "u64 \<Rightarrow> 'e kv_pool \<Rightarrow> (unit, pool_error) outcome \<times> 'e kv_pool" where
  "pool_activate i p =
     (let (last_used, p1) = tick p in
      case find_entry i p1 of
        None \<Rightarrow> (Err (UnknownSequence i), p1)
      | Some e \<Rightarrow>
          if ke_state e = Active then (Err (AlreadyActive i), p1)
          else (Ok (), update_entry i (\<lambda>e. e\<lparr>ke_state := Active, ke_last_used := last_used\<rparr>) p1))"

definition pool_deactivate :: "u64 \<Rightarrow> 'e kv_pool \<Rightarrow> (unit, pool_error) outcome \<times> 'e kv_pool" where
  "pool_deactivate i p =
     (let (last_used, p1) = tick p in
      case find_entry i p1 of
        None \<Rightarrow> (Err (UnknownSequence i), p1)
      | Some e \<Rightarrow>
          if ke_state e \<noteq> Active then (Err (NotActive i), p1)
          else (Ok (), update_entry i (\<lambda>e. e\<lparr>ke_state := Idle, ke_last_used := last_used\<rparr>) p1))"

text \<open>\<open>entry.cache.op(..).map_err(..)?; entry.last_used = ..\<close>: the cache keeps what the operation did to
  it; the stamp is set only on success.\<close>

definition on_cache ::
  "u64 \<Rightarrow> u64 \<Rightarrow> ('e kv_cache \<Rightarrow> (unit, kv_error) outcome \<times> 'e kv_cache) \<Rightarrow> 'e kv_pool \<Rightarrow>
    (unit, pool_error) outcome \<times> 'e kv_pool" where
  "on_cache i last_used f p =
     (case find_entry i p of
        None \<Rightarrow> (Err (UnknownSequence i), p)
      | Some e \<Rightarrow>
          (case f (ke_cache e) of
             (Ok _, c) \<Rightarrow> (Ok (), update_entry i (\<lambda>e. e\<lparr>ke_cache := c, ke_last_used := last_used\<rparr>) p)
           | (Err x, c) \<Rightarrow> (Err (CacheError x), update_entry i (\<lambda>e. e\<lparr>ke_cache := c\<rparr>) p)
           | (Panic, c) \<Rightarrow> (Panic, p)))"

definition pool_reserve ::
  "usize option \<Rightarrow> 'e \<Rightarrow> u64 \<Rightarrow> usize \<Rightarrow> 'e kv_pool \<Rightarrow> (unit, pool_error) outcome \<times> 'e kv_pool" where
  "pool_reserve grow_env z i required p =
     (case find_entry i p of
        None \<Rightarrow> (Err (UnknownSequence i), p)
      | Some e \<Rightarrow>
          bindS (map_err CacheError (projected_allocated_bytes grow_env (ke_cache e) required), p) (\<lambda>projected p.
          bindS (make_room (projected - allocated_bytes (ke_cache e)) (Some i) p) (\<lambda>_ p1.
            let (last_used, p2) = tick p1
            in on_cache i last_used (ensure_position_capacity grow_env z required) p2)))"

definition pool_checkpoint :: "u64 \<Rightarrow> 'e kv_pool \<Rightarrow> (checkpoint, pool_error) outcome \<times> 'e kv_pool" where
  "pool_checkpoint i p =
     (let (last_used, p1) = tick p in
      case find_entry i p1 of
        None \<Rightarrow> (Err (UnknownSequence i), p1)
      | Some e \<Rightarrow>
          (Ok \<lparr>cp_sequence_id = i, cp_position = position (ke_cache e)\<rparr>,
           update_entry i (\<lambda>e. e\<lparr>ke_last_used := last_used\<rparr>) p1))"

definition pool_rollback :: "checkpoint \<Rightarrow> 'e kv_pool \<Rightarrow> (unit, pool_error) outcome \<times> 'e kv_pool" where
  "pool_rollback cp p =
     (let (last_used, p1) = tick p
      in on_cache (cp_sequence_id cp) last_used (rollback_to_position (cp_position cp)) p1)"

definition pool_remove :: "u64 \<Rightarrow> 'e kv_pool \<Rightarrow> ('e kv_cache, pool_error) outcome \<times> 'e kv_pool" where
  "pool_remove i p =
     (case find_entry i p of
        None \<Rightarrow> (Err (UnknownSequence i), p)
      | Some e \<Rightarrow>
          if ke_state e = Active then (Err (ActiveSequence i), p)
          else (Ok (ke_cache e), p\<lparr>pl_entries := remove_entry i (pl_entries p)\<rparr>))"

text \<open>\<open>cache_mut\<close> stamps the entry and lends the cache out; \<open>f\<close> is what the borrower does with it.\<close>

definition pool_cache :: "u64 \<Rightarrow> 'e kv_pool \<Rightarrow> ('e kv_cache, pool_error) outcome" where
  "pool_cache i p = ok_or (map_option ke_cache (find_entry i p)) (UnknownSequence i)"

definition pool_cache_mut ::
  "u64 \<Rightarrow> ('e kv_cache \<Rightarrow> 'e kv_cache) \<Rightarrow> 'e kv_pool \<Rightarrow> (unit, pool_error) outcome \<times> 'e kv_pool" where
  "pool_cache_mut i f p =
     (let (last_used, p1) = tick p in
      case find_entry i p1 of
        None \<Rightarrow> (Err (UnknownSequence i), p1)
      | Some e \<Rightarrow> (Ok (), update_entry i (\<lambda>e. e\<lparr>ke_cache := f (ke_cache e), ke_last_used := last_used\<rparr>) p1))"

record pool_snap =
  sequence_count :: usize
  active_sequences :: usize
  snap_allocated_bytes :: nat
  snap_budget_bytes :: nat
  snap_evictions :: nat

definition kv_snapshot :: "'e kv_pool \<Rightarrow> pool_snap" where
  "kv_snapshot p =
     \<lparr>sequence_count = length (pl_entries p),
      active_sequences = length (filter (\<lambda>(_, e). ke_state e = Active) (pl_entries p)),
      snap_allocated_bytes = pool_allocated_bytes p, snap_budget_bytes = pl_budget p, snap_evictions = pl_evictions p\<rparr>"

section \<open>Runs of pool operations\<close>

datatype 'e pool_op =
    PInsert "'e kv_cache"
  | PActivate u64
  | PDeactivate u64
  | PReserve u64 usize
  | PCheckpoint u64
  | PRollback checkpoint
  | PCacheMut u64 "'e kv_cache \<Rightarrow> 'e kv_cache"
  | PRemove u64

definition discard :: "('a, pool_error) outcome \<times> 'e kv_pool \<Rightarrow> (unit, pool_error) outcome \<times> 'e kv_pool" where
  "discard m = bindS m (\<lambda>_ p. (Ok (), p))"

definition pool_exec ::
  "usize option \<Rightarrow> 'e \<Rightarrow> 'e pool_op \<Rightarrow> 'e kv_pool \<Rightarrow> (unit, pool_error) outcome \<times> 'e kv_pool" where
  "pool_exec grow_env z oper p =
     (case oper of
        PInsert c \<Rightarrow> discard (pool_insert c p)
      | PActivate i \<Rightarrow> pool_activate i p
      | PDeactivate i \<Rightarrow> pool_deactivate i p
      | PReserve i n \<Rightarrow> pool_reserve grow_env z i n p
      | PCheckpoint i \<Rightarrow> discard (pool_checkpoint i p)
      | PRollback cp \<Rightarrow> pool_rollback cp p
      | PCacheMut i f \<Rightarrow> pool_cache_mut i f p
      | PRemove i \<Rightarrow> discard (pool_remove i p))"

fun pool_execs ::
  "usize option \<Rightarrow> 'e \<Rightarrow> 'e pool_op list \<Rightarrow> 'e kv_pool \<Rightarrow> (unit, pool_error) outcome list \<times> 'e kv_pool" where
  "pool_execs grow_env z [] p = ([], p)"
| "pool_execs grow_env z (oper # ops) p =
     (let (r, p1) = pool_exec grow_env z oper p; (rs, p2) = pool_execs grow_env z ops p1 in (r # rs, p2))"

text \<open>A cache as the pool is given it: well formed, of a plan whose bytes per token a \<open>u64\<close> can count.\<close>

definition pooled_cache :: "'e kv_cache \<Rightarrow> bool" where
  "pooled_cache c \<longleftrightarrow> cache_inv c \<and> token_bytes c \<le> usize_max"

text \<open>The source lends a cache out as \<open>&mut\<close>: a borrower may do anything with it that leaves such a
  cache behind, growing it included.\<close>

definition pool_op_fits :: "'e pool_op \<Rightarrow> bool" where
  "pool_op_fits oper \<longleftrightarrow>
     (case oper of
        PInsert c \<Rightarrow> pooled_cache c
      | PCacheMut i f \<Rightarrow> (\<forall>c. pooled_cache c \<longrightarrow> pooled_cache (f c))
      | _ \<Rightarrow> True)"

text \<open>By how many bytes borrowers grew caches behind the pool's back, in one operation and in a run.\<close>

definition lent_growth :: "'e pool_op \<Rightarrow> 'e kv_pool \<Rightarrow> nat" where
  "lent_growth oper p =
     (case oper of
        PCacheMut i f \<Rightarrow>
          (case find_entry i p of
             None \<Rightarrow> 0
           | Some e \<Rightarrow> allocated_bytes (f (ke_cache e)) - allocated_bytes (ke_cache e))
      | _ \<Rightarrow> 0)"

fun lent_growths :: "usize option \<Rightarrow> 'e \<Rightarrow> 'e pool_op list \<Rightarrow> 'e kv_pool \<Rightarrow> nat" where
  "lent_growths grow_env z [] p = 0"
| "lent_growths grow_env z (oper # ops) p =
     lent_growth oper p + lent_growths grow_env z ops (snd (pool_exec grow_env z oper p))"

section \<open>The contract of the caches\<close>

locale projecting_cache =
  fixes inv :: "'c \<Rightarrow> bool"
    and bytes :: "'c \<Rightarrow> nat"
    and project :: "'c \<Rightarrow> usize \<Rightarrow> (nat, 'x) outcome"
    and grow :: "usize \<Rightarrow> 'c \<Rightarrow> (unit, 'x) outcome \<times> 'c"
  assumes grow_inv: "inv c \<Longrightarrow> inv (snd (grow n c))"
    and grow_projected: "inv c \<Longrightarrow> project c n = Ok b \<Longrightarrow> b < usize_max \<Longrightarrow>
      bytes (snd (grow n c)) \<le> max b (bytes c)"
begin

text \<open>A reservation that was granted room leaves the total within the budget.\<close>

lemma reserve_within:
  assumes "inv c" "project c n = Ok b" "others + bytes c + (b - bytes c) \<le> budget" "budget < usize_max"
  shows "others + bytes (snd (grow n c)) \<le> budget"
  using grow_projected [OF assms(1,2)] assms(3,4) by linarith

end

lemma token_bytes_ge:
  assumes "plan_ok (kc_plan c)"
  shows "kv_streams (kc_plan c) * (row_units (kc_dtype c) (key_width (kc_plan c)) +
    row_units (kc_dtype c) (value_width (kc_plan c))) * unit_bytes (kc_dtype c) \<le> token_bytes c"
proof (cases "value_width (kc_plan c) = v_head_dim (kc_plan c)")
  case True
  then show ?thesis using token_bytes_exact [OF assms] by simp
next
  case False
  with assms have "value_width (kc_plan c) = 0" by (simp add: plan_ok_def)
  with assms show ?thesis
    by (cases "kc_dtype c") (simp_all add: token_bytes_def plan_ok_def div_ceil_def Let_def)
qed

lemma token_bytes_cong: "kc_plan c' = kc_plan c \<Longrightarrow> kc_dtype c' = kc_dtype c \<Longrightarrow> token_bytes c' = token_bytes c"
  by (simp add: token_bytes_def)

interpretation kc: projecting_cache pooled_cache allocated_bytes "projected_allocated_bytes e" "ensure_position_capacity e z"
  for e z
proof
  fix c :: "'a kv_cache" and n b
  assume pc: "pooled_cache c"
  then have inv: "cache_inv c" by (simp add: pooled_cache_def)
  obtain r c' where g: "ensure_position_capacity e z n c = (r, c')" by (cases "ensure_position_capacity e z n c")
  note law = ensure_position_capacity_law [OF inv, where e = e and z = z and required = n, unfolded g prod.case]
  show "pooled_cache (snd (ensure_position_capacity e z n c))"
    using law g pc token_bytes_cong [of c' c] by (cases r) (auto simp: pooled_cache_def)
  assume pr: "projected_allocated_bytes e c n = Ok b" and small: "b < usize_max"
  show "allocated_bytes (snd (ensure_position_capacity e z n c)) \<le> max b (allocated_bytes c)"
  proof (cases r)
    case (Ok u)
    with g have ok: "ensure_position_capacity e z n c = (Ok (), c')" by simp
    note bytes = ensured_bytes [OF inv ok]
    have po: "plan_ok (kc_plan c)" using inv by (simp add: cache_inv_def Let_def)
    have t: "kv_bytes_per_token c = token_bytes c"
      using pc by (intro kv_bytes_per_token_fits po) (simp add: pooled_cache_def)
    have "allocated_bytes c' \<le> allocated_sequence_length c' * token_bytes c"
      unfolding bytes(2) by (intro mult_le_mono2 token_bytes_ge po)
    also have "\<dots> = b" using pr small bytes(1) t by (auto simp: sat_mul_us_def)
    finally show ?thesis using g by simp
  qed (use law g in auto)
qed

section \<open>Accounting\<close>

definition total_bytes :: "(u64 \<times> 'e kv_entry) list \<Rightarrow> nat" where
  "total_bytes ies = sum_list (map (\<lambda>ie. allocated_bytes (ke_cache (snd ie))) ies)"

lemma total_bytes_simps [simp]:
  "total_bytes [] = 0" "total_bytes (ie # ies) = allocated_bytes (ke_cache (snd ie)) + total_bytes ies"
  "total_bytes (xs @ ys) = total_bytes xs + total_bytes ys"
  by (simp_all add: total_bytes_def)

lemma foldl_sat_add: "foldl sat_add_us a xs = (if xs = [] then a else min (a + sum_list xs) usize_max)"
  by (induction xs arbitrary: a) (auto simp: sat_add_us_def min_def)

lemma pool_allocated_bytes_eq: "pool_allocated_bytes p = min (total_bytes (pl_entries p)) usize_max"
proof -
  have eq: "map (\<lambda>(_, e). allocated_bytes (ke_cache e)) (pl_entries p) = map (\<lambda>ie. allocated_bytes (ke_cache (snd ie))) (pl_entries p)"
    by (simp add: split_beta)
  show ?thesis unfolding pool_allocated_bytes_def eq by (auto simp: foldl_sat_add total_bytes_def)
qed

lemma total_bytes_remove_le: "total_bytes (remove_entry i ies) \<le> total_bytes ies"
  by (induction ies) (auto simp: remove_entry_def)

lemma total_bytes_remove:
  "distinct (map fst ies) \<Longrightarrow> (i, e) \<in> set ies \<Longrightarrow>
    total_bytes ies = total_bytes (remove_entry i ies) + allocated_bytes (ke_cache e)"
proof (induction ies)
  case Nil
  then show ?case by simp
next
  case (Cons ie ies)
  show ?case
  proof (cases "ie = (i, e)")
    case True
    with Cons.prems(1) have "i \<notin> fst ` set ies" by auto
    then have "remove_entry i ies = ies" by (auto simp: remove_entry_def filter_id_conv)
    with True show ?thesis by (simp add: remove_entry_def)
  next
    case False
    with Cons.prems(2) have m: "(i, e) \<in> set ies" by auto
    then have "i \<in> set (map fst ies)" by force
    with Cons.prems(1) have "fst ie \<noteq> i" by auto
    with m Cons show ?thesis by (simp add: remove_entry_def)
  qed
qed

lemma min_by_last_used_least:
  "min_by_last_used ies = Some m \<Longrightarrow> ie \<in> set ies \<Longrightarrow> ke_last_used (snd m) \<le> ke_last_used (snd ie)"
proof (induction ies arbitrary: m)
  case Nil
  then show ?case by simp
next
  case (Cons x ies)
  show ?case
  proof (cases "min_by_last_used ies")
    case None
    with Cons.prems show ?thesis by (auto simp: min_by_last_used_None)
  next
    case (Some k)
    with Cons.prems Cons.IH [OF Some] show ?thesis by (auto split: if_splits)
  qed
qed

lemma choose_victim_law:
  assumes "choose_victim protected p = Some v" "distinct (map fst (pl_entries p))"
  shows "\<exists>e. (v, e) \<in> set (pl_entries p) \<and> evictable protected (v, e) \<and>
    (\<forall>ie \<in> set (pl_entries p). evictable protected ie \<longrightarrow> ke_last_used e \<le> ke_last_used (snd ie))"
proof -
  from assms(1) obtain m where m: "min_by_last_used (filter (evictable protected) (pl_entries p)) = Some m" "v = fst m"
    by (auto simp: choose_victim_def)
  have "m \<in> set (pl_entries p)" "evictable protected m" using min_by_last_used_mem [OF m(1)] by auto
  moreover have "ke_last_used (snd m) \<le> ke_last_used (snd ie)" if "ie \<in> set (pl_entries p)" "evictable protected ie" for ie
    by (rule min_by_last_used_least [OF m(1)]) (use that in simp)
  ultimately show ?thesis using m(2) by (intro exI [of _ "snd m"]) auto
qed

text \<open>Everything the eviction loop does.\<close>

definition eviction_law :: "nat \<Rightarrow> u64 option \<Rightarrow> 'e kv_pool \<Rightarrow> (unit, pool_error) outcome \<Rightarrow> 'e kv_pool \<Rightarrow> bool" where
  "eviction_law additional protected p r p' \<longleftrightarrow>
     pl_budget p' = pl_budget p \<and> pl_next_id p' = pl_next_id p \<and> pl_clock p' = pl_clock p \<and>
     (\<exists>P. pl_entries p' = filter P (pl_entries p)) \<and>
     (\<forall>ie \<in> set (pl_entries p). \<not> evictable protected ie \<longrightarrow> ie \<in> set (pl_entries p')) \<and>
     (\<forall>v \<in> set (pl_entries p) - set (pl_entries p'). \<forall>k \<in> set (pl_entries p').
        evictable protected k \<longrightarrow> ke_last_used (snd v) \<le> ke_last_used (snd k)) \<and>
     (pl_entries p' \<noteq> pl_entries p \<longrightarrow> (\<exists>v \<in> set (pl_entries p) - set (pl_entries p').
        pl_budget p < total_bytes (pl_entries p') + allocated_bytes (ke_cache (snd v)) + additional)) \<and>
     (r = Ok () \<and> sat_add_us (pool_allocated_bytes p') additional \<le> pl_budget p \<or>
      (\<exists>n. r = Err (BudgetExceeded n (pl_budget p))) \<and> (\<forall>ie \<in> set (pl_entries p'). \<not> evictable protected ie) \<and>
      pl_budget p < sat_add_us (pool_allocated_bytes p') additional)"

lemma filter_conj_set: "filter P (filter Q xs) = filter (\<lambda>x. Q x \<and> P x) xs"
  by simp

lemma make_room_law:
  "distinct (map fst (pl_entries p)) \<Longrightarrow>
    eviction_law additional protected p (fst (make_room additional protected p)) (snd (make_room additional protected p))"
proof (induction additional protected p rule: make_room.induct)
  case (1 additional protected p)
  let ?needed = "sat_add_us (pool_allocated_bytes p) additional"
  show ?case
  proof (cases "?needed \<le> pl_budget p")
    case True
    then have "make_room additional protected p = (Ok (), p)" by (subst make_room.simps) simp
    with True show ?thesis by (auto simp: eviction_law_def intro!: exI [of _ "\<lambda>_. True"])
  next
    case over: False
    show ?thesis
    proof (cases "choose_victim protected p")
      case None
      then have "make_room additional protected p = (Err (BudgetExceeded ?needed (pl_budget p)), p)"
        using over by (subst make_room.simps) simp
      moreover have "\<forall>ie \<in> set (pl_entries p). \<not> evictable protected ie"
        using None by (auto simp: choose_victim_def min_by_last_used_None filter_empty_conv)
      ultimately show ?thesis using over by (auto simp: eviction_law_def intro!: exI [of _ "\<lambda>_. True"])
    next
      case (Some v)
      let ?p = "p\<lparr>pl_entries := remove_entry v (pl_entries p), pl_evictions := sat_add_us (pl_evictions p) 1\<rparr>"
      have run: "make_room additional protected p = make_room additional protected ?p"
        using over Some by (subst make_room.simps) simp
      have d: "distinct (map fst (pl_entries ?p))" using "1.prems" by (simp add: remove_entry_def distinct_map_filter)
      note IH = "1.IH" [OF refl over Some d, unfolded eviction_law_def]
      from choose_victim_law [OF Some "1.prems"] obtain e where
        e: "(v, e) \<in> set (pl_entries p)" "evictable protected (v, e)"
          "\<forall>ie \<in> set (pl_entries p). evictable protected ie \<longrightarrow> ke_last_used e \<le> ke_last_used (snd ie)" by blast
      have only: "ie = (v, e)" if "ie \<in> set (pl_entries p)" "ie \<notin> set (remove_entry v (pl_entries p))" for ie
      proof -
        obtain j x where ie: "ie = (j, x)" by (metis surj_pair)
        with that have "j = v" by (auto simp: remove_entry_def)
        with that ie show ?thesis using eq_key_imp_eq_value [OF "1.prems"] e(1) by auto
      qed
      have tot: "total_bytes (pl_entries p) = total_bytes (remove_entry v (pl_entries p)) + allocated_bytes (ke_cache e)"
        by (rule total_bytes_remove [OF "1.prems" e(1)])
      have big: "pl_budget p < total_bytes (pl_entries p) + additional"
        using over by (auto simp: sat_add_us_def pool_allocated_bytes_eq)
      obtain r p' where rp: "make_room additional protected ?p = (r, p')" by (cases "make_room additional protected ?p")
      obtain P where P: "pl_entries p' = filter P (remove_entry v (pl_entries p))" using IH rp by auto
      have vn: "(v, e) \<notin> set (pl_entries p')" by (simp add: P remove_entry_def)
      have "eviction_law additional protected p r p'"
        unfolding eviction_law_def
      proof (intro conjI)
        show "pl_budget p' = pl_budget p" "pl_next_id p' = pl_next_id p" "pl_clock p' = pl_clock p" using IH rp by auto
        show "\<exists>P. pl_entries p' = filter P (pl_entries p)"
          unfolding P remove_entry_def filter_conj_set by blast
        show "\<forall>ie \<in> set (pl_entries p). \<not> evictable protected ie \<longrightarrow> ie \<in> set (pl_entries p')"
          using IH rp only e(2) by auto
        show "\<forall>v \<in> set (pl_entries p) - set (pl_entries p'). \<forall>k \<in> set (pl_entries p').
            evictable protected k \<longrightarrow> ke_last_used (snd v) \<le> ke_last_used (snd k)"
        proof (intro ballI impI)
          fix x k assume x: "x \<in> set (pl_entries p) - set (pl_entries p')" and k: "k \<in> set (pl_entries p')" "evictable protected k"
          show "ke_last_used (snd x) \<le> ke_last_used (snd k)"
          proof (cases "x = (v, e)")
            case True
            with e(3) k P show ?thesis by (auto simp: remove_entry_def)
          next
            case False
            then have "x \<in> set (remove_entry v (pl_entries p)) - set (pl_entries p')" using x only by blast
            with IH rp k show ?thesis by auto
          qed
        qed
        show "pl_entries p' \<noteq> pl_entries p \<longrightarrow> (\<exists>v \<in> set (pl_entries p) - set (pl_entries p').
            pl_budget p < total_bytes (pl_entries p') + allocated_bytes (ke_cache (snd v)) + additional)"
        proof
          show "\<exists>v \<in> set (pl_entries p) - set (pl_entries p').
            pl_budget p < total_bytes (pl_entries p') + allocated_bytes (ke_cache (snd v)) + additional"
          proof (cases "pl_entries p' = remove_entry v (pl_entries p)")
            case True
            with big tot e(1) vn show ?thesis by (intro bexI [of _ "(v, e)"]) auto
          next
            case False
            with IH rp obtain w where "w \<in> set (remove_entry v (pl_entries p)) - set (pl_entries p')"
              "pl_budget p < total_bytes (pl_entries p') + allocated_bytes (ke_cache (snd w)) + additional" by auto
            then show ?thesis by (intro bexI [of _ w]) (auto simp: remove_entry_def)
          qed
        qed
      qed (use IH rp in auto)
      then show ?thesis unfolding run rp by simp
    qed
  qed
qed

section \<open>The invariant\<close>

text \<open>Without growth by borrowers (\<open>g\<close> bytes) the total is within the budget.\<close>

definition pool_ok :: "nat \<Rightarrow> 'e kv_pool \<Rightarrow> bool" where
  "pool_ok g p \<longleftrightarrow> distinct (map fst (pl_entries p)) \<and> (\<forall>ie \<in> set (pl_entries p). pooled_cache (ke_cache (snd ie))) \<and>
     pl_budget p < usize_max \<and> total_bytes (pl_entries p) \<le> pl_budget p + g"

lemma eviction_ok:
  assumes "pool_ok g p" "eviction_law additional protected p r p'"
  shows "pool_ok g p'" "r = Ok () \<Longrightarrow> total_bytes (pl_entries p') + additional \<le> pl_budget p'" "r \<noteq> Panic"
proof -
  from assms(2) obtain P where P: "pl_entries p' = filter P (pl_entries p)" and b: "pl_budget p' = pl_budget p"
    by (auto simp: eviction_law_def)
  have le: "total_bytes (filter P ies) \<le> total_bytes ies" for ies :: "(u64 \<times> 'a kv_entry) list"
    by (induction ies) auto
  show "pool_ok g p'"
    using assms(1) le [of "pl_entries p"] by (auto simp: pool_ok_def P b distinct_map_filter)
  show "r \<noteq> Panic" using assms(2) by (auto simp: eviction_law_def)
  show "total_bytes (pl_entries p') + additional \<le> pl_budget p'" if "r = Ok ()"
    using assms that by (auto simp: eviction_law_def pool_ok_def sat_add_us_def pool_allocated_bytes_eq b min_def split: if_splits)
qed

lemma eviction_protected:
  assumes "eviction_law additional (Some i) p r p'" "find_entry i p = Some e" "distinct (map fst (pl_entries p))"
  shows "find_entry i p' = Some e"
proof -
  have "(i, e) \<in> set (pl_entries p)" using assms(2) by (auto simp: find_entry_def dest: map_of_SomeD)
  then have m: "(i, e) \<in> set (pl_entries p')" using assms(1) by (auto simp: eviction_law_def evictable_def)
  have "distinct (map fst (pl_entries p'))" using assms(1,3) by (auto simp: eviction_law_def distinct_map_filter)
  with m show ?thesis by (simp add: find_entry_def)
qed

lemma update_entry_fields [simp]:
  "pl_budget (update_entry i f p) = pl_budget p"
  "map fst (pl_entries (update_entry i f p)) = map fst (pl_entries p)"
  by (auto simp: update_entry_def)

lemma total_bytes_update:
  assumes "distinct (map fst (pl_entries p))" "find_entry i p = Some e"
  shows "total_bytes (pl_entries (update_entry i f p)) + allocated_bytes (ke_cache e) =
    total_bytes (pl_entries p) + allocated_bytes (ke_cache (f e))"
proof -
  have gen: "distinct (map fst ies) \<Longrightarrow> map_of ies i = Some e \<Longrightarrow>
    total_bytes (map (\<lambda>(j, e). if j = i then (j, f e) else (j, e)) ies) + allocated_bytes (ke_cache e) =
    total_bytes ies + allocated_bytes (ke_cache (f e))" for ies
  proof (induction ies)
    case Nil
    then show ?case by simp
  next
    case (Cons ie ies)
    obtain j x where ie: "ie = (j, x)" by (cases ie)
    show ?case
    proof (cases "j = i")
      case True
      with Cons.prems ie have "i \<notin> fst ` set ies" by auto
      then have "map (\<lambda>(j, e). if j = i then (j, f e) else (j, e)) ies = ies"
        by (intro map_idI) (auto simp: rev_image_eqI split: prod.splits)
      with True Cons.prems ie show ?thesis by simp
    next
      case False
      with Cons ie show ?thesis by simp
    qed
  qed
  from gen [of "pl_entries p"] assms show ?thesis by (simp add: update_entry_def find_entry_def)
qed

lemma update_entry_ok:
  assumes "pool_ok g p" "find_entry i p = Some e" "pooled_cache (ke_cache (f e))"
    "total_bytes (pl_entries p) - allocated_bytes (ke_cache e) + allocated_bytes (ke_cache (f e)) \<le> pl_budget p + g"
  shows "pool_ok g (update_entry i f p)"
proof -
  have d: "distinct (map fst (pl_entries p))" using assms(1) by (simp add: pool_ok_def)
  have mem: "(i, e) \<in> set (pl_entries p)" using assms(2) by (auto simp: find_entry_def dest: map_of_SomeD)
  have "pooled_cache (ke_cache (snd ie))" if "ie \<in> set (pl_entries (update_entry i f p))" for ie
  proof -
    from that obtain j b where jb: "(j, b) \<in> set (pl_entries p)" "ie = (if j = i then (j, f b) else (j, b))"
      by (auto simp: update_entry_def)
    show ?thesis
    proof (cases "j = i")
      case True
      with jb mem have "b = e" using eq_key_imp_eq_value [OF d] by auto
      with True jb assms(3) show ?thesis by simp
    next
      case False
      with jb assms(1) show ?thesis by (force simp: pool_ok_def)
    qed
  qed
  moreover have "total_bytes (pl_entries (update_entry i f p)) \<le> pl_budget p + g"
  proof -
    have "allocated_bytes (ke_cache e) \<le> total_bytes (pl_entries p)" using total_bytes_remove [OF d mem] by simp
    then show ?thesis using total_bytes_update [OF d assms(2), of f] assms(4) by linarith
  qed
  ultimately show ?thesis using assms(1) d by (simp add: pool_ok_def)
qed

lemma tick_ok [simp]:
  "pool_ok g (snd (tick p)) = pool_ok g p" "find_entry i (snd (tick p)) = find_entry i p"
  "pl_entries (snd (tick p)) = pl_entries p" "pl_budget (snd (tick p)) = pl_budget p"
  by (simp_all add: tick_def pool_ok_def find_entry_def)

lemma find_entry_inv: "pool_ok g p \<Longrightarrow> find_entry i p = Some e \<Longrightarrow> pooled_cache (ke_cache e)"
  by (auto simp: pool_ok_def find_entry_def dest!: map_of_SomeD)

lemma find_entry_bytes: "pool_ok g p \<Longrightarrow> find_entry i p = Some e \<Longrightarrow> allocated_bytes (ke_cache e) \<le> total_bytes (pl_entries p)"
  using total_bytes_remove [of "pl_entries p" i e] by (auto simp: pool_ok_def find_entry_def dest!: map_of_SomeD)

lemma update_stamp_ok:
  assumes "pool_ok g p" "find_entry i p = Some e" "ke_cache (f e) = ke_cache e"
  shows "pool_ok g (update_entry i f p)"
  by (rule update_entry_ok [OF assms(1,2)])
    (use assms find_entry_inv [OF assms(1,2)] find_entry_bytes [OF assms(1,2)] in \<open>auto simp: pool_ok_def\<close>)


lemma update_same_bytes:
  assumes "pool_ok g p" "find_entry i p = Some e" "pooled_cache (ke_cache (f e))"
    "allocated_bytes (ke_cache (f e)) \<le> allocated_bytes (ke_cache e)"
  shows "pool_ok g (update_entry i f p)"
proof (rule update_entry_ok [where f = f, OF assms(1-3)])
  have "total_bytes (pl_entries p) \<le> pl_budget p + g" using assms(1) by (simp add: pool_ok_def)
  then show "total_bytes (pl_entries p) - allocated_bytes (ke_cache e) + allocated_bytes (ke_cache (f e)) \<le> pl_budget p + g"
    using assms(4) find_entry_bytes [OF assms(1,2)] by linarith
qed

section \<open>Every operation keeps the invariant\<close>

lemma pool_new_ok: "budget < usize_max \<Longrightarrow> 1 < usize_max \<Longrightarrow> pool_ok g (kv_pool_new budget)"
  by (simp add: pool_ok_def kv_pool_new_def)

lemma pool_insert_ok:
  assumes "pool_ok g p" "pooled_cache c"
  shows "pool_ok g (snd (pool_insert c p))" "fst (pool_insert c p) \<noteq> Panic"
    "pl_budget (snd (pool_insert c p)) = pl_budget p"
proof -
  obtain r p1 where m: "make_room (allocated_bytes c) None p = (r, p1)" by (cases "make_room (allocated_bytes c) None p")
  have law: "eviction_law (allocated_bytes c) None p r p1"
    using make_room_law [of p "allocated_bytes c" None] assms(1) by (simp add: m pool_ok_def)
  note ok = eviction_ok [OF assms(1) law]
  have le: "total_bytes (remove_entry i (pl_entries p1)) \<le> total_bytes (pl_entries p1)" for i
    by (rule total_bytes_remove_le)
  have room: "total_bytes (remove_entry i (pl_entries p1)) + allocated_bytes c \<le> pl_budget p1" if "r = Ok ()" for i
    using ok(2) [OF that] le [of i] by linarith
  have "pl_budget p1 = pl_budget p" using law by (simp add: eviction_law_def)
  then show "pl_budget (snd (pool_insert c p)) = pl_budget p"
    by (cases r) (simp_all add: pool_insert_def m tick_def Let_def)
  show "pool_ok g (snd (pool_insert c p))"
    using ok(1) assms(2) room
    by (cases r) (auto simp: pool_insert_def m tick_def pool_ok_def Let_def remove_entry_def distinct_map_filter intro: trans_le_add1)
  show "fst (pool_insert c p) \<noteq> Panic" using ok(3) by (cases r) (auto simp: pool_insert_def m tick_def Let_def)
qed


lemma on_cache_ok:
  assumes "pool_ok g p"
    and "\<And>e. find_entry i p = Some e \<Longrightarrow> pooled_cache (snd (f (ke_cache e))) \<and> fst (f (ke_cache e)) \<noteq> Panic \<and>
      total_bytes (pl_entries p) - allocated_bytes (ke_cache e) + allocated_bytes (snd (f (ke_cache e))) \<le> pl_budget p + g"
  shows "pool_ok g (snd (on_cache i t f p))" "fst (on_cache i t f p) \<noteq> Panic" "pl_budget (snd (on_cache i t f p)) = pl_budget p"
proof -
  show "pool_ok g (snd (on_cache i t f p))"
  proof (cases "find_entry i p")
    case None
    then show ?thesis using assms(1) by (simp add: on_cache_def)
  next
    case (Some e)
    obtain r c where rc: "f (ke_cache e) = (r, c)" by (cases "f (ke_cache e)")
    have "pool_ok g (update_entry i (\<lambda>e. e\<lparr>ke_cache := c, ke_last_used := t\<rparr>) p)"
      "pool_ok g (update_entry i (\<lambda>e. e\<lparr>ke_cache := c\<rparr>) p)"
      by (rule update_entry_ok [OF assms(1) Some]; use assms(2) [OF Some] rc in simp)+
    then show ?thesis using Some rc assms(1) by (cases r) (simp_all add: on_cache_def)
  qed
  show "fst (on_cache i t f p) \<noteq> Panic" "pl_budget (snd (on_cache i t f p)) = pl_budget p"
    using assms(2) by (auto simp: on_cache_def split: option.splits prod.splits outcome.splits)
qed

lemma pool_reserve_ok:
  fixes z :: 'e
  assumes "pool_ok g p"
  shows "pool_ok g (snd (pool_reserve grow_env z i n p)) \<and> fst (pool_reserve grow_env z i n p) \<noteq> Panic \<and>
    pl_budget (snd (pool_reserve grow_env z i n p)) = pl_budget p"
proof (cases "find_entry i p")
  case None
  then show ?thesis using assms by (simp add: pool_reserve_def)
next
  case (Some e)
  let ?pr = "projected_allocated_bytes grow_env (ke_cache e) n"
  have pc: "pooled_cache (ke_cache e)" by (rule find_entry_inv [OF assms Some])
  then have inv: "cache_inv (ke_cache e)" by (simp add: pooled_cache_def)
  have np: "?pr \<noteq> Panic" by (simp add: projected_allocated_bytes_def Let_def)
  show ?thesis
  proof (cases ?pr)
    case (Ok b)
    let ?add = "b - allocated_bytes (ke_cache e)"
    obtain r p1 where m: "make_room ?add (Some i) p = (r, p1)" by (cases "make_room ?add (Some i) p")
    have d: "distinct (map fst (pl_entries p))" using assms by (simp add: pool_ok_def)
    have law: "eviction_law ?add (Some i) p r p1" using make_room_law [OF d, of ?add "Some i"] by (simp add: m)
    note ok = eviction_ok [OF assms law]
    have bud: "pl_budget p1 = pl_budget p" using law by (simp add: eviction_law_def)
    show ?thesis
    proof (cases r)
      case r: (Ok u)
      have fe: "find_entry i p1 = Some e" by (rule eviction_protected [OF law Some d])
      let ?g = "ensure_position_capacity grow_env z n"
      have le: "allocated_bytes (ke_cache e) \<le> total_bytes (pl_entries p1)" by (rule find_entry_bytes [OF ok(1) fe])
      have b1: "pl_budget p1 < usize_max" using ok(1) by (simp add: pool_ok_def)
      have room: "total_bytes (pl_entries p1) - allocated_bytes (ke_cache e) + allocated_bytes (snd (?g (ke_cache e))) \<le> pl_budget p1"
        by (rule kc.reserve_within [OF pc Ok _ b1]) (use ok(2) r le in simp)
      have grow: "pooled_cache (snd (?g (ke_cache e)))" "fst (?g (ke_cache e)) \<noteq> Panic"
        using kc.grow_inv [OF pc, of grow_env z n] ensure_position_capacity_law [OF inv, where e = grow_env and z = z and required = n]
        by (auto split: prod.splits outcome.splits)
      have oc: "pool_ok g (snd (tick p1))" using ok(1) by simp
      have pre: "pooled_cache (snd (?g (ke_cache e'))) \<and> fst (?g (ke_cache e')) \<noteq> Panic \<and>
        total_bytes (pl_entries (snd (tick p1))) - allocated_bytes (ke_cache e') + allocated_bytes (snd (?g (ke_cache e'))) \<le> pl_budget (snd (tick p1)) + g"
        if "find_entry i (snd (tick p1)) = Some e'" for e'
        using that fe room grow by simp
      have run: "pool_reserve grow_env z i n p = on_cache i (fst (tick p1)) ?g (snd (tick p1))"
        using Some Ok m r by (simp add: pool_reserve_def map_err_def Let_def split_beta)
      show ?thesis unfolding run using on_cache_ok [OF oc pre] bud by simp
    qed (use Some Ok m ok bud in \<open>simp_all add: pool_reserve_def map_err_def\<close>)
  qed (use Some np assms in \<open>simp_all add: pool_reserve_def map_err_def\<close>)
qed

lemma stamped_ok:
  assumes "pool_ok g p" "find_entry i p = Some e" "\<And>e. ke_cache (f e) = ke_cache e"
  shows "pool_ok g (update_entry i f p)"
  by (rule update_same_bytes [OF assms(1,2)]) (use assms find_entry_inv [OF assms(1,2)] in simp_all)

lemma pool_activate_ok:
  assumes "pool_ok g p"
  shows "pool_ok g (snd (pool_activate i p))" "pool_ok g (snd (pool_deactivate i p))" "pool_ok g (snd (pool_checkpoint i p))"
proof -
  note st = stamped_ok [of g "snd (tick p)" i]
  show "pool_ok g (snd (pool_activate i p))"
    using assms st [where f = "\<lambda>e. e\<lparr>ke_state := Active, ke_last_used := fst (tick p)\<rparr>"]
    by (auto simp: pool_activate_def split_beta Let_def split: option.splits)
  show "pool_ok g (snd (pool_deactivate i p))"
    using assms st [where f = "\<lambda>e. e\<lparr>ke_state := Idle, ke_last_used := fst (tick p)\<rparr>"]
    by (auto simp: pool_deactivate_def split_beta Let_def split: option.splits)
  show "pool_ok g (snd (pool_checkpoint i p))"
    using assms st [where f = "\<lambda>e. e\<lparr>ke_last_used := fst (tick p)\<rparr>"]
    by (auto simp: pool_checkpoint_def split_beta Let_def split: option.splits)
qed


lemma pool_rollback_ok:
  assumes "pool_ok g p"
  shows "pool_ok g (snd (pool_rollback cp p))" "fst (pool_rollback cp p) \<noteq> Panic" "pl_budget (snd (pool_rollback cp p)) = pl_budget p"
proof -
  let ?f = "rollback_to_position (cp_position cp)" and ?p = "snd (tick p)"
  have keep: "pooled_cache (snd (?f c)) = pooled_cache c" "allocated_bytes (snd (?f c)) = allocated_bytes c" "fst (?f c) \<noteq> Panic" for c :: "'a kv_cache"
    by (simp_all add: rollback_to_position_def pooled_cache_def cache_inv_def token_bytes_def allocated_bytes_def Let_def)
  have pre: "pooled_cache (snd (?f (ke_cache e))) \<and> fst (?f (ke_cache e)) \<noteq> Panic \<and>
      total_bytes (pl_entries ?p) - allocated_bytes (ke_cache e) + allocated_bytes (snd (?f (ke_cache e))) \<le> pl_budget ?p + g"
    if "find_entry (cp_sequence_id cp) ?p = Some e" for e
    using that assms find_entry_inv [OF assms, where e = e] find_entry_bytes [OF assms, where e = e] keep by (auto simp: pool_ok_def)
  have run: "pool_rollback cp p = on_cache (cp_sequence_id cp) (fst (tick p)) ?f ?p"
    by (simp add: pool_rollback_def split_beta Let_def)
  have ok: "pool_ok g ?p" using assms by simp
  show "pool_ok g (snd (pool_rollback cp p))" "fst (pool_rollback cp p) \<noteq> Panic" "pl_budget (snd (pool_rollback cp p)) = pl_budget p"
    unfolding run using on_cache_ok [OF ok pre] by simp_all
qed

lemma pool_cache_mut_ok:
  assumes "pool_ok g p" "\<And>c. pooled_cache c \<Longrightarrow> pooled_cache (f c)"
  shows "pool_ok (g + lent_growth (PCacheMut i f) p) (snd (pool_cache_mut i f p))"
proof (cases "find_entry i p")
  case None
  then show ?thesis using assms(1) by (simp add: pool_cache_mut_def lent_growth_def split_beta Let_def)
next
  case (Some e)
  let ?g = "g + lent_growth (PCacheMut i f) p"
  have ok: "pool_ok ?g (snd (tick p))" using assms(1) by (auto simp: pool_ok_def)
  have "pool_ok ?g (update_entry i (\<lambda>e. e\<lparr>ke_cache := f (ke_cache e), ke_last_used := fst (tick p)\<rparr>) (snd (tick p)))"
  proof (rule update_entry_ok [OF ok])
    show "find_entry i (snd (tick p)) = Some e" using Some by simp
    show "pooled_cache (ke_cache (e\<lparr>ke_cache := f (ke_cache e), ke_last_used := fst (tick p)\<rparr>))"
      using assms(2) find_entry_inv [OF assms(1) Some] by simp
    have "total_bytes (pl_entries p) \<le> pl_budget p + g" using assms(1) by (simp add: pool_ok_def)
    then show "total_bytes (pl_entries (snd (tick p))) - allocated_bytes (ke_cache e) +
        allocated_bytes (ke_cache (e\<lparr>ke_cache := f (ke_cache e), ke_last_used := fst (tick p)\<rparr>)) \<le> pl_budget (snd (tick p)) + ?g"
      using find_entry_bytes [OF assms(1) Some] Some by (simp add: lent_growth_def)
  qed
  then show ?thesis using Some by (simp add: pool_cache_mut_def split_beta Let_def)
qed

lemma pool_remove_ok: "pool_ok g p \<Longrightarrow> pool_ok g (snd (pool_remove i p))"
  using total_bytes_remove_le [of i "pl_entries p"]
  by (auto simp: pool_remove_def pool_ok_def remove_entry_def distinct_map_filter split: option.splits)

lemma discard_simps [simp]:
  "snd (discard m) = snd m" "fst (discard m) = Panic \<longleftrightarrow> fst m = Panic"
  by (auto simp: discard_def bindS_def split: prod.splits outcome.splits)

lemma pool_exec_ok:
  assumes "pool_ok g p" "pool_op_fits oper"
  shows "pool_ok (g + lent_growth oper p) (snd (pool_exec grow_env z oper p)) \<and> fst (pool_exec grow_env z oper p) \<noteq> Panic \<and>
    pl_budget (snd (pool_exec grow_env z oper p)) = pl_budget p"
proof (cases oper)
  case (PInsert c)
  with assms pool_insert_ok [of g p c] show ?thesis by (simp add: pool_exec_def pool_op_fits_def lent_growth_def)
next
  case (PReserve i n)
  with pool_reserve_ok [OF assms(1)] show ?thesis by (simp add: pool_exec_def lent_growth_def)
next
  case (PRollback cp)
  with pool_rollback_ok [OF assms(1)] show ?thesis by (simp add: pool_exec_def lent_growth_def)
next
  case (PCacheMut i f)
  with pool_cache_mut_ok [of g p f i] assms show ?thesis
    by (auto simp: pool_exec_def pool_op_fits_def pool_cache_mut_def split_beta Let_def split: option.splits)
next
  case (PRemove i)
  with pool_remove_ok [OF assms(1), of i] show ?thesis
    by (auto simp: pool_exec_def pool_remove_def lent_growth_def split: option.splits)
qed (use pool_activate_ok [OF assms(1)] in
  \<open>auto simp: pool_exec_def pool_activate_def pool_deactivate_def pool_checkpoint_def lent_growth_def split_beta Let_def
    split: option.splits\<close>)

lemma pool_execs_ok:
  "pool_ok g p \<Longrightarrow> \<forall>oper \<in> set ops. pool_op_fits oper \<Longrightarrow>
    pool_ok (g + lent_growths grow_env z ops p) (snd (pool_execs grow_env z ops p)) \<and>
    Panic \<notin> set (fst (pool_execs grow_env z ops p)) \<and>
    pl_budget (snd (pool_execs grow_env z ops p)) = pl_budget p"
proof (induction ops arbitrary: g p)
  case Nil
  then show ?case by simp
next
  case (Cons oper ops)
  from pool_exec_ok [OF Cons.prems(1), of oper grow_env z] Cons.prems(2)
    Cons.IH [of "g + lent_growth oper p" "snd (pool_exec grow_env z oper p)"] show ?case
    by (auto simp: split_beta Let_def add.assoc)
qed


section \<open>What an operation does to the other sequences\<close>

fun op_target :: "'e pool_op \<Rightarrow> u64 option" where
  "op_target (PInsert c) = None"
| "op_target (PActivate i) = Some i"
| "op_target (PDeactivate i) = Some i"
| "op_target (PReserve i n) = Some i"
| "op_target (PCheckpoint i) = Some i"
| "op_target (PRollback cp) = Some (cp_sequence_id cp)"
| "op_target (PCacheMut i f) = Some i"
| "op_target (PRemove i) = Some i"

lemma find_update_entry [simp]:
  "find_entry j (update_entry i f p) = (if j = i then map_option f (find_entry i p) else find_entry j p)"
proof -
  have "map_of (map (\<lambda>(j, e). if j = i then (j, f e) else (j, e)) ies) j =
    (if j = i then map_option f (map_of ies i) else map_of ies j)" for ies
    by (induction ies) auto
  then show ?thesis by (simp add: find_entry_def update_entry_def)
qed

lemma map_of_remove_entry: "j \<noteq> i \<Longrightarrow> map_of (remove_entry i ies) j = map_of ies j"
  by (induction ies) (auto simp: remove_entry_def)

lemma eviction_keeps:
  assumes "eviction_law additional protected p r p'" "find_entry i p = Some e" "distinct (map fst (pl_entries p))"
    "\<not> evictable protected (i, e)"
  shows "find_entry i p' = Some e"
proof -
  have "(i, e) \<in> set (pl_entries p)" using assms(2) by (auto simp: find_entry_def dest: map_of_SomeD)
  then have m: "(i, e) \<in> set (pl_entries p')" using assms(1,4) by (auto simp: eviction_law_def)
  have "distinct (map fst (pl_entries p'))" using assms(1,3) by (auto simp: eviction_law_def distinct_map_filter)
  with m show ?thesis by (simp add: find_entry_def)
qed

lemma on_cache_keeps_state:
  "find_entry i p = Some e \<Longrightarrow> \<exists>e'. find_entry i (snd (on_cache j t f p)) = Some e' \<and>
    ke_state e' = ke_state e \<and> (j \<noteq> i \<longrightarrow> e' = e)"
  by (auto simp: on_cache_def split: option.splits prod.splits outcome.splits)

lemma make_room_keeps_active:
  assumes "distinct (map fst (pl_entries p))" "find_entry i p = Some e" "ke_state e = Active"
  shows "find_entry i (snd (make_room n protected p)) = Some e"
  by (rule eviction_keeps [OF make_room_law]) (use assms in \<open>auto simp: pool_ok_def evictable_def\<close>)

lemma pool_insert_keeps_active:
  assumes "distinct (map fst (pl_entries p))" "find_entry i p = Some e" "ke_state e = Active" "i \<noteq> pl_next_id p"
  shows "find_entry i (snd (pool_insert c p)) = Some e"
proof -
  obtain r p1 where m: "make_room (allocated_bytes c) None p = (r, p1)" by (cases "make_room (allocated_bytes c) None p")
  have f: "find_entry i p1 = Some e" using make_room_keeps_active [OF assms(1-3)] m by (metis snd_conv)
  have "pl_next_id p1 = pl_next_id p"
    using make_room_law [of p "allocated_bytes c" None] assms(1) by (simp add: m eviction_law_def)
  with f assms(4) show ?thesis
    by (cases r) (simp_all add: pool_insert_def m tick_def Let_def find_entry_def map_add_def map_of_remove_entry split: option.split)
qed

lemma pool_reserve_keeps_active:
  assumes "distinct (map fst (pl_entries p))" "find_entry i p = Some e" "ke_state e = Active"
  shows "\<exists>e'. find_entry i (snd (pool_reserve grow_env z j n p)) = Some e' \<and> ke_state e' = Active \<and> (j \<noteq> i \<longrightarrow> e' = e)"
proof (cases "find_entry j p")
  case None
  then show ?thesis using assms by (simp add: pool_reserve_def)
next
  case (Some x)
  show ?thesis
  proof (cases "projected_allocated_bytes grow_env (ke_cache x) n")
    case (Ok b)
    let ?add = "b - allocated_bytes (ke_cache x)"
    obtain r p1 where m: "make_room ?add (Some j) p = (r, p1)" by (cases "make_room ?add (Some j) p")
    have f: "find_entry i p1 = Some e" using make_room_keeps_active [OF assms] m by (metis snd_conv)
    then have "find_entry i (snd (tick p1)) = Some e" by simp
    from on_cache_keeps_state [OF this] f Some Ok m assms(3) show ?thesis
      by (cases r) (simp_all add: pool_reserve_def map_err_def Let_def split_beta)
  qed (use Some assms in \<open>simp_all add: pool_reserve_def map_err_def\<close>)
qed

section \<open>Properties\<close>

text \<open>C11. No run of pool operations, from an empty pool with a budget below \<open>u64::MAX\<close>, holds more
  bytes of KV cache than the budget (which is at least one byte) and what the borrowers of
  \<open>cache_mut\<close> allocated themselves, in caches the pool lent them, while it ran: whatever mixture of
  inserts, reservations, activations, rollbacks, borrowings and removals it is and whichever of them
  fail, and exactly the budget when no borrower grows a cache. The figure the snapshot reports is
  the sum, saturated, and no operation panics. The caches inserted and given back are well formed
  and have a number of bytes per token that a \<open>u64\<close> holds.\<close>

theorem pool_never_over_budget:
  assumes "budget < usize_max" "\<forall>oper \<in> set ops. pool_op_fits oper"
  shows "case pool_execs grow_env z ops (kv_pool_new budget) of (rs, p) \<Rightarrow>
    total_bytes (pl_entries p) \<le> max budget 1 + lent_growths grow_env z ops (kv_pool_new budget) \<and>
    snap_allocated_bytes (kv_snapshot p) = min (total_bytes (pl_entries p)) usize_max \<and>
    distinct (map fst (pl_entries p)) \<and> Panic \<notin> set rs"
proof -
  have "pool_ok 0 (kv_pool_new budget :: 'a kv_pool)" using assms(1) by (intro pool_new_ok) (simp_all add: usize_max_def)
  from pool_execs_ok [OF this assms(2), of grow_env z] show ?thesis
    by (auto simp: split_beta pool_ok_def kv_snapshot_def pool_allocated_bytes_eq kv_pool_new_def)
qed

definition pool_demo :: "nat pool_op list" where
  "pool_demo = [PInsert (small_cache HeadMajor), PInsert (small_cache PositionMajor), PActivate 2, PReserve 2 5, PReserve 1 1]"

theorem pool_never_over_budget_witness:
  "total_bytes (pl_entries (snd (pool_execs (Some 1) 0 pool_demo (kv_pool_new 400)))) \<le> 400 \<and>
   map fst (pl_entries (snd (pool_execs (Some 1) 0 pool_demo (kv_pool_new 400)))) = [2]"
proof -
  have fits: "\<forall>oper \<in> set pool_demo. pool_op_fits oper"
    unfolding pool_demo_def by (simp add: pool_op_fits_def) code_simp
  have b: "(400 :: nat) < usize_max" by (simp add: usize_max_def)
  have "map fst (pl_entries (snd (pool_execs (Some 1) 0 pool_demo (kv_pool_new 400)))) = [2]"
    "lent_growths (Some 1) 0 pool_demo (kv_pool_new 400) = 0" by code_simp+
  with pool_never_over_budget [OF b fits, where grow_env = "Some 1" and z = 0] show ?thesis by (simp add: split_beta)
qed

text \<open>C12. Eviction. Making room always ends. It drops only idle sequences other than the protected
  one, never a more recently used one while it keeps a less recently used one, and nothing at all
  unless the last victim was still needed to fit; it succeeds exactly when the rest fits, and
  reports the budget error only when nothing evictable is left.\<close>

theorem make_room_evicts_lru:
  assumes "distinct (map fst (pl_entries p))"
  shows "case make_room additional protected p of (r, p') \<Rightarrow>
    set (pl_entries p') \<subseteq> set (pl_entries p) \<and>
    (\<forall>v \<in> set (pl_entries p) - set (pl_entries p').
       ke_state (snd v) = Idle \<and> protected \<noteq> Some (fst v) \<and>
       (\<forall>k \<in> set (pl_entries p'). ke_state (snd k) = Idle \<and> protected \<noteq> Some (fst k) \<longrightarrow>
          ke_last_used (snd v) \<le> ke_last_used (snd k))) \<and>
    (pl_entries p' \<noteq> pl_entries p \<longrightarrow> (\<exists>v \<in> set (pl_entries p) - set (pl_entries p').
       pl_budget p < total_bytes (pl_entries p') + allocated_bytes (ke_cache (snd v)) + additional)) \<and>
    (r = Ok () \<longleftrightarrow> sat_add_us (pool_allocated_bytes p') additional \<le> pl_budget p) \<and>
    (r \<noteq> Ok () \<longrightarrow> (\<exists>n. r = Err (BudgetExceeded n (pl_budget p))) \<and>
       (\<forall>k \<in> set (pl_entries p'). ke_state (snd k) = Active \<or> protected = Some (fst k)))"
proof -
  obtain r p' where m: "make_room additional protected p = (r, p')" by (cases "make_room additional protected p")
  have law: "eviction_law additional protected p r p'" using make_room_law [OF assms] m by (metis fst_conv snd_conv)
  from law obtain P where P: "pl_entries p' = filter P (pl_entries p)" by (auto simp: eviction_law_def)
  have idle: "ke_state e = Idle \<longleftrightarrow> ke_state e \<noteq> Active" for e :: "'a kv_entry" by (cases "ke_state e") simp_all
  have lost: "evictable protected v" if "v \<in> set (pl_entries p) - set (pl_entries p')" for v
    using law that by (auto simp: eviction_law_def)
  have old: "ke_last_used (snd v) \<le> ke_last_used (snd k)"
    if "v \<in> set (pl_entries p) - set (pl_entries p')" "k \<in> set (pl_entries p')" "evictable protected k" for v k
    using law that unfolding eviction_law_def by blast
  have need: "pl_entries p' \<noteq> pl_entries p \<longrightarrow> (\<exists>v \<in> set (pl_entries p) - set (pl_entries p').
       pl_budget p < total_bytes (pl_entries p') + allocated_bytes (ke_cache (snd v)) + additional)"
    using law unfolding eviction_law_def by blast
  have res: "r = Ok () \<and> sat_add_us (pool_allocated_bytes p') additional \<le> pl_budget p \<or>
      (\<exists>n. r = Err (BudgetExceeded n (pl_budget p))) \<and> (\<forall>ie \<in> set (pl_entries p'). \<not> evictable protected ie) \<and>
      pl_budget p < sat_add_us (pool_allocated_bytes p') additional"
    using law unfolding eviction_law_def by blast
  have "set (pl_entries p') \<subseteq> set (pl_entries p)" by (auto simp: P)
  moreover have "\<forall>v \<in> set (pl_entries p) - set (pl_entries p').
       ke_state (snd v) = Idle \<and> protected \<noteq> Some (fst v) \<and>
       (\<forall>k \<in> set (pl_entries p'). ke_state (snd k) = Idle \<and> protected \<noteq> Some (fst k) \<longrightarrow>
          ke_last_used (snd v) \<le> ke_last_used (snd k))"
    using lost old by (fastforce simp: evictable_def)
  moreover have "r = Ok () \<longleftrightarrow> sat_add_us (pool_allocated_bytes p') additional \<le> pl_budget p" using res by auto
  moreover have "r \<noteq> Ok () \<longrightarrow> (\<exists>n. r = Err (BudgetExceeded n (pl_budget p))) \<and>
       (\<forall>k \<in> set (pl_entries p'). ke_state (snd k) = Active \<or> protected = Some (fst k))"
    using res idle by (auto simp: evictable_def)
  ultimately show ?thesis using need m by simp
qed

definition pool_full :: "nat kv_pool" where
  "pool_full = snd (pool_execs (Some 1) 0 [PInsert (small_cache HeadMajor), PInsert (small_cache HeadMajor), PCheckpoint 1] (kv_pool_new 300))"

theorem make_room_evicts_lru_witness:
  "\<exists>p'. make_room 100 None pool_full = (Ok (), p') \<and> map fst (pl_entries p') = [1] \<and>
     (\<exists>v \<in> set (pl_entries pool_full) - set (pl_entries p'). 300 < total_bytes (pl_entries p') + allocated_bytes (ke_cache (snd v)) + 100)"
proof -
  have d: "distinct (map fst (pl_entries pool_full))" by code_simp
  have r: "fst (make_room 100 None pool_full) = Ok ()" "map fst (pl_entries (snd (make_room 100 None pool_full))) = [1]"
    and s: "map fst (pl_entries pool_full) = [1, 2]" and b: "pl_budget pool_full = 300" by code_simp+
  then have ne: "pl_entries (snd (make_room 100 None pool_full)) \<noteq> pl_entries pool_full" by auto
  from make_room_evicts_lru [OF d, where additional = 100 and protected = None] r ne b show ?thesis
    by (intro exI [of _ "snd (make_room 100 None pool_full)"]) (auto simp: split_beta prod_eq_iff)
qed

text \<open>C13. A sequence that is active is never lost, and never touched by operations on others: whatever
  operation runs, except its own deactivation and an insertion that draws its identity again (the
  identities are 64-bit numbers that wrap around), it is still in the pool and active afterwards,
  and unless the operation names it its entry is the same.\<close>

theorem active_sequence_survives:
  assumes "distinct (map fst (pl_entries p))" "find_entry i p = Some e" "ke_state e = Active" "oper \<noteq> PDeactivate i"
    and "\<And>c. oper = PInsert c \<Longrightarrow> i \<noteq> pl_next_id p"
  shows "\<exists>e'. find_entry i (snd (pool_exec grow_env z oper p)) = Some e' \<and> ke_state e' = Active \<and>
    (op_target oper \<noteq> Some i \<longrightarrow> e' = e)"
proof (cases oper)
  case (PInsert c)
  with pool_insert_keeps_active [OF assms(1-3)] assms(3,5) show ?thesis by (simp add: pool_exec_def)
next
  case (PReserve j n)
  with pool_reserve_keeps_active [OF assms(1-3), of grow_env z j n] show ?thesis by (auto simp: pool_exec_def)
next
  case (PRollback cp)
  have "find_entry i (snd (tick p)) = Some e" using assms(2) by simp
  from on_cache_keeps_state [OF this] PRollback assms(3) show ?thesis
    by (auto simp: pool_exec_def pool_rollback_def split_beta Let_def)
next
  case (PRemove j)
  with assms show ?thesis
    by (cases "i = j") (auto simp: pool_exec_def pool_remove_def find_entry_def map_of_remove_entry split: option.splits)
qed (use assms in \<open>auto simp: pool_exec_def pool_activate_def pool_deactivate_def pool_checkpoint_def pool_cache_mut_def
      split_beta Let_def split: option.splits\<close>)

theorem active_sequence_survives_witness:
  "\<exists>p e. find_entry 1 p = Some e \<and> ke_state e = Active \<and>
     find_entry 1 (snd (pool_exec (Some 1) 0 (PInsert (small_cache PositionMajor)) p)) = Some (e :: nat kv_entry) \<and>
     find_entry 2 (snd (pool_exec (Some 1) 0 (PInsert (small_cache PositionMajor)) p)) = None"
proof -
  let ?p = "snd (pool_exec (Some 1) 0 (PActivate 1) pool_full)" and ?o = "PInsert (small_cache PositionMajor)"
  have ok: "distinct (map fst (pl_entries ?p))" by code_simp
  have f: "find_entry 1 ?p \<noteq> None" "ke_state (the (find_entry 1 ?p)) = Active" "pl_next_id ?p \<noteq> 1"
    "find_entry 2 (snd (pool_exec (Some 1) 0 ?o ?p)) = None" by code_simp+
  then obtain e where e: "find_entry 1 ?p = Some e" by blast
  have st: "ke_state e = Active" using f(2) e by simp
  from active_sequence_survives [OF ok e st, of ?o "Some 1" 0] f(3)
  have "find_entry 1 (snd (pool_exec (Some 1) 0 ?o ?p)) = Some e" by simp
  with e st f(4) show ?thesis by blast
qed

end
