(* ===== verification/Spec_Tree.thy ===== *)
theory Spec_Tree
  imports Prelude
begin

text \<open>
  Draft trees of speculative decoding (\<open>src/src/inference/spec_tree.rs\<close>, \<open>TokenTree\<close>): the tree in
  its array form, root-to-node paths, the ancestor bitset and the packed-forest plan that the
  verification kernels read, and the acceptance of the longest path.

  The casts \<open>as i32\<close>, \<open>as u16\<close> and \<open>as u32\<close> are written out. The loops that walk up the parent
  array need not end on an arbitrary tree; they are partial functions and \<open>None\<close> is a walk that
  does not end. The theorems hold for well-formed trees (\<open>tree_ok\<close>): every parent precedes its
  child and depths count the edges.

  The main theorem is that speculation is lossless: when the predictions are those of a model, the
  accepted tokens are exactly the tokens the model decodes greedily without any draft.
\<close>

section \<open>Trees\<close>

definition as_i32 :: "nat \<Rightarrow> int" where
  "as_i32 n = signed_take_bit 31 (int n)"

definition as_u16 :: "nat \<Rightarrow> nat" where
  "as_u16 n = n mod 2 ^ 16"

definition as_u32 :: "nat \<Rightarrow> nat" where
  "as_u32 n = n mod 2 ^ 32"

record token_tree =
  tt_tokens :: "u32 list"
  tt_parent :: "int list"
  tt_depth :: "nat list"

definition TREE_MAX_NODES :: usize where "TREE_MAX_NODES = 16"

definition linear :: "u32 \<Rightarrow> u32 list \<Rightarrow> token_tree" where
  "linear anchor drafts =
     \<lparr>tt_tokens = anchor # drafts,
      tt_parent = -1 # map as_i32 [0..<length drafts],
      tt_depth = 0 # map (\<lambda>i. as_u16 (i + 1)) [0..<length drafts]\<rparr>"

definition nodes :: "token_tree \<Rightarrow> usize" where
  "nodes t = length (tt_tokens t)"

definition tree_max_depth :: "token_tree \<Rightarrow> usize" where
  "tree_max_depth t = foldr max (tt_depth t) 0"

text \<open>\<open>path_to\<close>: push the nodes on the way up, reverse at the end.\<close>

partial_function (option) path_up :: "token_tree \<Rightarrow> int \<Rightarrow> usize list \<Rightarrow> (usize list, unit) outcome option" where
  "path_up t cur path =
     (if cur < 0 then Some (Ok path)
      else case list_get (tt_parent t) (nat cur) of
             None \<Rightarrow> Some Panic
           | Some p \<Rightarrow> path_up t p (nat cur # path))"

declare path_up.simps [code]

definition path_to :: "token_tree \<Rightarrow> usize \<Rightarrow> (usize list, unit) outcome option" where
  "path_to t leaf = path_up t (as_i32 leaf) []"

section \<open>What the kernels read\<close>

definition node_depth :: "token_tree \<Rightarrow> int list" where
  "node_depth t = map int (tt_depth t)"

definition node_kvslot :: "token_tree \<Rightarrow> usize \<Rightarrow> int list" where
  "node_kvslot t base = map (\<lambda>i. as_i32 (base + i)) [0..<nodes t]"

text \<open>The inner loop of \<open>ancestor_bitset\<close>: set the bit of every node from \<open>cur\<close> up in the words of row
  \<open>i\<close>.\<close>

partial_function (option) mark_up ::
  "token_tree \<Rightarrow> nat \<Rightarrow> nat \<Rightarrow> int \<Rightarrow> u32 list \<Rightarrow> (u32 list, unit) outcome option" where
  "mark_up t words i cur bits =
     (if cur < 0 then Some (Ok bits)
      else
        let c = nat cur; w = i * words + c div 32 in
        if length bits \<le> w then Some Panic
        else
          case list_get (tt_parent t) c of
            None \<Rightarrow> Some Panic
          | Some p \<Rightarrow> mark_up t words i p (bits[w := or (bits ! w) (push_bit (c mod 32) 1)]))"

declare mark_up.simps [code]

fun mark_rows :: "token_tree \<Rightarrow> nat \<Rightarrow> nat list \<Rightarrow> u32 list \<Rightarrow> (u32 list, unit) outcome option" where
  "mark_rows t words [] bits = Some (Ok bits)"
| "mark_rows t words (i # is) bits =
     (case mark_up t words i (as_i32 i) bits of
        Some (Ok bits') \<Rightarrow> mark_rows t words is bits'
      | r \<Rightarrow> r)"

definition ancestor_bitset :: "token_tree \<Rightarrow> (u32 list, unit) outcome option \<times> nat" where
  "ancestor_bitset t =
     (let n = nodes t; words = div_ceil n 32
      in (mark_rows t words [0..<n] (replicate (n * words) 0), words))"

record packed_forest =
  path_offsets :: "nat list"
  path_rows :: "nat list"

fun pack_rows :: "token_tree \<Rightarrow> usize list \<Rightarrow> packed_forest \<Rightarrow> (packed_forest, unit) outcome option" where
  "pack_rows t [] plan = Some (Ok plan)"
| "pack_rows t (row # rows) plan =
     (case path_to t row of
        None \<Rightarrow> None
      | Some Panic \<Rightarrow> Some Panic
      | Some (Err e) \<Rightarrow> Some (Err e)
      | Some (Ok path) \<Rightarrow>
          let rs = path_rows plan @ map as_u32 path
          in pack_rows t rows \<lparr>path_offsets = path_offsets plan @ [as_u32 (length rs)], path_rows = rs\<rparr>)"

definition packed_forest_plan :: "token_tree \<Rightarrow> (packed_forest, unit) outcome option" where
  "packed_forest_plan t = pack_rows t [0..<nodes t] \<lparr>path_offsets = [0], path_rows = []\<rparr>"

text \<open>\<open>PackedForestPlan::path\<close>; \<open>Vec::get\<close> of a range is \<open>None\<close> when it is not within the vector.\<close>

definition plan_path :: "packed_forest \<Rightarrow> usize \<Rightarrow> nat list option" where
  "plan_path plan row =
     (case (list_get (path_offsets plan) row, list_get (path_offsets plan) (row + 1)) of
        (Some start, Some end_off) \<Rightarrow>
          if start \<le> end_off \<and> end_off \<le> length (path_rows plan)
          then Some (take (end_off - start) (drop start (path_rows plan)))
          else None
      | _ \<Rightarrow> None)"

section \<open>Acceptance\<close>

text \<open>The search for the child that carries the predicted token.\<close>

fun scan_child :: "token_tree \<Rightarrow> usize \<Rightarrow> u32 \<Rightarrow> usize list \<Rightarrow> (usize option, unit) outcome" where
  "scan_child t c next [] = Ok None"
| "scan_child t c next (ch # chs) =
     (case list_get (tt_parent t) ch of
        None \<Rightarrow> Panic
      | Some p \<Rightarrow>
          if p = as_i32 c \<and> tt_tokens t ! ch = next then Ok (Some ch) else scan_child t c next chs)"

lemma scan_child_mem: "scan_child t c next chs = Ok (Some ch) \<Longrightarrow> ch \<in> set chs"
  by (induction chs) (auto split: option.splits if_splits)

function accept_from ::
  "token_tree \<Rightarrow> u32 list \<Rightarrow> usize \<Rightarrow> u32 list \<Rightarrow> (u32 list \<times> usize, unit) outcome" where
  "accept_from t predicted c emitted =
     (case list_get predicted c of
        None \<Rightarrow> Panic
      | Some next \<Rightarrow>
          (case scan_child t c next [c + 1..<nodes t] of
             Ok (Some ch) \<Rightarrow> accept_from t predicted ch (emitted @ [next])
           | Ok None \<Rightarrow> Ok (emitted @ [next], c)
           | Err e \<Rightarrow> Err e
           | Panic \<Rightarrow> Panic))"
  by pat_completeness auto
termination
  by (relation "measure (\<lambda>(t, _, c, _). nodes t - c)") (auto dest!: scan_child_mem)

declare accept_from.simps [simp del]

definition accept_longest_path :: "token_tree \<Rightarrow> u32 list \<Rightarrow> (u32 list \<times> usize, unit) outcome" where
  "accept_longest_path t predicted = accept_from t predicted 0 []"

text \<open>The acceptance of a linear draft (\<open>accepted_draft_prefix\<close> of \<open>src/src/inference/speculative.rs\<close>).\<close>

definition accepted_draft_prefix :: "u32 list \<Rightarrow> u32 list \<Rightarrow> usize" where
  "accepted_draft_prefix drafts target_predictions =
     length (takeWhile (\<lambda>(d, p). d = p) (zip drafts target_predictions))"

section \<open>Well-formed trees\<close>

definition tree_ok :: "token_tree \<Rightarrow> bool" where
  "tree_ok t \<longleftrightarrow> tt_tokens t \<noteq> [] \<and> length (tt_parent t) = nodes t \<and> length (tt_depth t) = nodes t \<and>
     nodes t \<le> 2 ^ 31 \<and> tt_parent t ! 0 = -1 \<and> tt_depth t ! 0 = 0 \<and>
     (\<forall>i \<in> {1..<nodes t}. 0 \<le> tt_parent t ! i \<and> tt_parent t ! i < int i \<and>
        tt_depth t ! i = tt_depth t ! nat (tt_parent t ! i) + 1)"

text \<open>The path from the root to a node, as a specification.\<close>

function node_path :: "token_tree \<Rightarrow> nat \<Rightarrow> nat list" where
  "node_path t i =
     (if 0 \<le> tt_parent t ! i \<and> tt_parent t ! i < int i then node_path t (nat (tt_parent t ! i)) @ [i] else [i])"
  by pat_completeness auto
termination
  by (relation "measure snd") auto

declare node_path.simps [simp del]

definition path_tokens :: "token_tree \<Rightarrow> nat \<Rightarrow> u32 list" where
  "path_tokens t i = map ((!) (tt_tokens t)) (tl (node_path t i))"

lemma as_i32_small: "n < 2 ^ 31 \<Longrightarrow> as_i32 n = int n"
  unfolding as_i32_def by (rule signed_take_bit_int_eq_self) simp_all

lemma as_u32_small: "n < 2 ^ 32 \<Longrightarrow> as_u32 n = n"
  by (simp add: as_u32_def)

lemma as_u16_small: "n < 2 ^ 16 \<Longrightarrow> as_u16 n = n"
  by (simp add: as_u16_def)

lemma tree_ok_node: "tree_ok t \<Longrightarrow> i < nodes t \<Longrightarrow> as_i32 i = int i"
  by (rule as_i32_small) (auto simp: tree_ok_def)

lemma tree_ok_parent:
  assumes "tree_ok t" "i < nodes t" "i \<noteq> 0"
  shows "\<exists>p. tt_parent t ! i = int p \<and> p < i \<and> p < nodes t \<and> tt_depth t ! i = tt_depth t ! p + 1"
proof -
  from assms have "0 \<le> tt_parent t ! i" "tt_parent t ! i < int i" "tt_depth t ! i = tt_depth t ! nat (tt_parent t ! i) + 1"
    by (auto simp: tree_ok_def)
  with assms(2) show ?thesis by (intro exI [of _ "nat (tt_parent t ! i)"]) auto
qed

lemma tree_ok_pos: "tree_ok t \<Longrightarrow> 0 < nodes t"
  by (simp add: tree_ok_def nodes_def)

lemma list_get_parent: "tree_ok t \<Longrightarrow> i < nodes t \<Longrightarrow> list_get (tt_parent t) i = Some (tt_parent t ! i)"
  by (simp add: tree_ok_def list_get_def)

lemma node_path_root: "tree_ok t \<Longrightarrow> node_path t 0 = [0]"
  by (subst node_path.simps) (simp add: tree_ok_def)

lemma node_path_step: "tt_parent t ! i = int p \<Longrightarrow> p < i \<Longrightarrow> node_path t i = node_path t p @ [i]"
  by (subst node_path.simps) simp

lemma node_path_not_Nil [simp]: "node_path t i \<noteq> []"
  by (subst node_path.simps) simp

text \<open>Induction over a tree from the root down.\<close>

lemma tree_induct [consumes 2, case_names root child]:
  assumes "tree_ok t" "i < nodes t"
    and "P 0"
    and "\<And>i p. i < nodes t \<Longrightarrow> p < i \<Longrightarrow> tt_parent t ! i = int p \<Longrightarrow> node_path t i = node_path t p @ [i] \<Longrightarrow>
      tt_depth t ! i = tt_depth t ! p + 1 \<Longrightarrow> P p \<Longrightarrow> P i"
  shows "P i"
  using assms(2)
proof (induction i rule: less_induct)
  case (less i)
  show ?case
  proof (cases "i = 0")
    case False
    from tree_ok_parent [OF assms(1) less.prems False] obtain p where
      p: "tt_parent t ! i = int p" "p < i" "p < nodes t" "tt_depth t ! i = tt_depth t ! p + 1" by blast
    show ?thesis by (rule assms(4) [OF less.prems p(2,1) node_path_step [OF p(1,2)] p(4) less.IH [OF p(2,3)]])
  qed (use assms(3) in simp)
qed

lemma node_path_below:
  assumes "tree_ok t" "i < nodes t"
  shows "set (node_path t i) \<subseteq> {..i} \<and> distinct (node_path t i) \<and> hd (node_path t i) = 0 \<and>
    length (node_path t i) = tt_depth t ! i + 1"
  using assms
proof (induction i rule: tree_induct)
  case root
  have "tt_depth t ! 0 = 0" using assms(1) by (simp add: tree_ok_def)
  then show ?case by (simp add: node_path_root [OF assms(1)])
next
  case (child i p)
  then show ?case by (auto simp: hd_append)
qed

lemma path_up_eq:
  assumes "tree_ok t" "i < nodes t"
  shows "path_up t (int i) path = Some (Ok (node_path t i @ path))"
  using assms
proof (induction i arbitrary: path rule: tree_induct)
  case root
  have "list_get (tt_parent t) 0 = Some (-1)"
    using list_get_parent [OF assms(1) tree_ok_pos [OF assms(1)]] assms(1) by (simp add: tree_ok_def)
  then show ?case by (subst path_up.simps) (simp add: node_path_root [OF assms(1)] path_up.simps)
next
  case (child i p)
  then show ?case by (subst path_up.simps) (simp add: list_get_parent [OF assms(1)])
qed

lemma path_to_eq: "tree_ok t \<Longrightarrow> i < nodes t \<Longrightarrow> path_to t i = Some (Ok (node_path t i))"
  by (simp add: path_to_def tree_ok_node path_up_eq)

section \<open>The ancestor bitset\<close>

lemma bit_set_one: "k < 32 \<Longrightarrow> bit (2 ^ m :: u32) k \<longleftrightarrow> k = m"
  by (auto simp: bit_exp_iff)

lemma word_index_less:
  assumes "j < n" "words = div_ceil n 32" "i < n"
  shows "j div 32 < words" "i * words + j div 32 < n * words"
proof -
  have "n \<le> words * 32" using div_ceil_bounds [of 32 n] assms(2) by simp
  with assms(1) show w: "j div 32 < words" by linarith
  have "(i + 1) * words \<le> n * words" using assms(3) by (intro mult_le_mono1) simp
  with w show "i * words + j div 32 < n * words" by simp
qed

lemma mark_up_step:
  assumes "tree_ok t" "c < nodes t" "words = div_ceil (nodes t) 32" "i < nodes t" "length bits = nodes t * words"
  shows "\<exists>b. mark_up t words i (int c) bits = mark_up t words i (tt_parent t ! c) b \<and> length b = length bits \<and>
    (\<forall>w k. w < length bits \<longrightarrow> k < 32 \<longrightarrow> (bit (b ! w) k \<longleftrightarrow> bit (bits ! w) k \<or> w = i * words + c div 32 \<and> k = c mod 32))"
proof -
  let ?w = "i * words + c div 32"
  have w: "?w < length bits" using word_index_less(2) [OF assms(2,3,4)] assms(5) by simp
  show ?thesis
  proof (intro exI conjI)
    show "mark_up t words i (int c) bits = mark_up t words i (tt_parent t ! c) (bits[?w := or (bits ! ?w) (push_bit (c mod 32) 1)])"
      using w assms(1,2) by (subst mark_up.simps) (simp add: Let_def list_get_parent not_le)
  qed (use w in \<open>auto simp: nth_list_update bit_or_iff bit_set_one\<close>)
qed

lemma mark_up_law:
  assumes "tree_ok t" "c < nodes t" "words = div_ceil (nodes t) 32" "i < nodes t" "length bits = nodes t * words"
  shows "\<exists>b. mark_up t words i (int c) bits = Some (Ok b) \<and> length b = length bits \<and>
    (\<forall>w k. w < length bits \<longrightarrow> k < 32 \<longrightarrow> (bit (b ! w) k \<longleftrightarrow> bit (bits ! w) k \<or>
       (\<exists>j \<in> set (node_path t c). w = i * words + j div 32 \<and> k = j mod 32)))"
  using assms(1,2,5)
proof (induction c arbitrary: bits rule: tree_induct)
  case root
  have "tt_parent t ! 0 = -1" using assms(1) by (simp add: tree_ok_def)
  with mark_up_step [OF assms(1) tree_ok_pos [OF assms(1)] assms(3,4) root] show ?case
    by (auto simp: node_path_root [OF assms(1)] mark_up.simps)
next
  case (child c p)
  from mark_up_step [OF assms(1) child.hyps(1) assms(3,4) child.prems] obtain b where
    b: "mark_up t words i (int c) bits = mark_up t words i (int p) b" "length b = length bits"
      "\<forall>w k. w < length bits \<longrightarrow> k < 32 \<longrightarrow> (bit (b ! w) k \<longleftrightarrow> bit (bits ! w) k \<or> w = i * words + c div 32 \<and> k = c mod 32)"
    using child.hyps(3) by auto
  from child.IH [of b] b child.prems obtain b' where
    "mark_up t words i (int p) b = Some (Ok b')" "length b' = length b"
    "\<forall>w k. w < length b \<longrightarrow> k < 32 \<longrightarrow> (bit (b' ! w) k \<longleftrightarrow> bit (b ! w) k \<or>
       (\<exists>j \<in> set (node_path t p). w = i * words + j div 32 \<and> k = j mod 32))" by auto
  with b child.hyps(4) show ?case by (intro exI [of _ b']) auto
qed

lemma mark_rows_law:
  assumes "tree_ok t" "words = div_ceil (nodes t) 32" "set rows \<subseteq> {..<nodes t}" "length bits = nodes t * words"
  shows "\<exists>b. mark_rows t words rows bits = Some (Ok b) \<and> length b = length bits \<and>
    (\<forall>w k. w < length bits \<longrightarrow> k < 32 \<longrightarrow> (bit (b ! w) k \<longleftrightarrow> bit (bits ! w) k \<or>
       (\<exists>i \<in> set rows. \<exists>j \<in> set (node_path t i). w = i * words + j div 32 \<and> k = j mod 32)))"
  using assms(3,4)
proof (induction rows arbitrary: bits)
  case Nil
  then show ?case by simp
next
  case (Cons i rows)
  have i: "i < nodes t" using Cons.prems(1) by simp
  from mark_up_law [OF assms(1) i assms(2) i Cons.prems(2)] obtain b where
    b: "mark_up t words i (int i) bits = Some (Ok b)" "length b = length bits"
      "\<forall>w k. w < length bits \<longrightarrow> k < 32 \<longrightarrow> (bit (b ! w) k \<longleftrightarrow> bit (bits ! w) k \<or>
        (\<exists>j \<in> set (node_path t i). w = i * words + j div 32 \<and> k = j mod 32))" by blast
  from Cons.IH [of b] Cons.prems b obtain b' where
    "mark_rows t words rows b = Some (Ok b')" "length b' = length b"
    "\<forall>w k. w < length b \<longrightarrow> k < 32 \<longrightarrow> (bit (b' ! w) k \<longleftrightarrow> bit (b ! w) k \<or>
       (\<exists>i \<in> set rows. \<exists>j \<in> set (node_path t i). w = i * words + j div 32 \<and> k = j mod 32))" by auto
  with b tree_ok_node [OF assms(1) i] show ?case by (intro exI [of _ b']) auto
qed

lemma ancestor_bits:
  assumes "tree_ok t" "words = div_ceil (nodes t) 32"
  shows "\<exists>b. ancestor_bitset t = (Some (Ok b), words) \<and> length b = nodes t * words \<and>
    (\<forall>i < nodes t. \<forall>j < 32 * words. bit (b ! (i * words + j div 32)) (j mod 32) \<longleftrightarrow> j \<in> set (node_path t i))"
proof -
  have "set [0..<nodes t] \<subseteq> {..<nodes t}" by auto
  from mark_rows_law [OF assms this, of "replicate (nodes t * words) 0"] obtain b where
    b: "mark_rows t words [0..<nodes t] (replicate (nodes t * words) 0) = Some (Ok b)" "length b = nodes t * words"
      "\<And>w k. w < nodes t * words \<Longrightarrow> k < 32 \<Longrightarrow> (bit (b ! w) k \<longleftrightarrow>
        (\<exists>i < nodes t. \<exists>j \<in> set (node_path t i). w = i * words + j div 32 \<and> k = j mod 32))" by (auto simp: atLeast0LessThan lessThan_def)
  have "bit (b ! (i * words + j div 32)) (j mod 32) \<longleftrightarrow> j \<in> set (node_path t i)"
    if i: "i < nodes t" and j: "j < 32 * words" for i j
  proof -
    have jw: "j div 32 < words" using j by auto
    have "(i + 1) * words \<le> nodes t * words" using i by (intro mult_le_mono1) simp
    with jw have w: "i * words + j div 32 < nodes t * words" by simp
    have uniq: "i' = i \<and> j' = j"
      if "i' < nodes t" "j' \<in> set (node_path t i')" "i * words + j div 32 = i' * words + j' div 32" "j mod 32 = j' mod 32" for i' j'
    proof -
      have "j' < nodes t" using node_path_below [OF assms(1) that(1)] that(1,2) by auto
      from word_index_less(1) [OF this assms(2) that(1)] have jw': "j' div 32 < words" .
      have "i = (i * words + j div 32) div words" "i' = (i' * words + j' div 32) div words"
        using jw jw' by simp_all
      with that(3) have "i = i'" by simp
      with that(3) have "j div 32 = j' div 32" by simp
      with that(4) have "j = j'" by (metis div_mult_mod_eq)
      with \<open>i = i'\<close> show ?thesis by simp
    qed
    show ?thesis using b(3) [OF w, of "j mod 32"] uniq i by auto
  qed
  with b assms(2) show ?thesis by (intro exI [of _ b]) (simp add: ancestor_bitset_def Let_def)
qed

section \<open>The packed forest\<close>

definition rows_before :: "token_tree \<Rightarrow> nat \<Rightarrow> nat list" where
  "rows_before t n = concat (map (node_path t) [0..<n])"

lemma rows_before_Suc [simp]: "rows_before t (Suc n) = rows_before t n @ node_path t n"
  by (simp add: rows_before_def)

lemma rows_before_mono: "m \<le> n \<Longrightarrow> length (rows_before t m) \<le> length (rows_before t n)"
  by (induction n) (auto simp: le_Suc_eq)

lemma rows_before_bound:
  assumes "tree_ok t" "n \<le> nodes t"
  shows "length (rows_before t n) \<le> n * nodes t"
  using assms(2)
proof (induction n)
  case 0
  then show ?case by (simp add: rows_before_def)
next
  case (Suc n)
  then have n: "n < nodes t" by simp
  have "set (node_path t n) \<subseteq> {..n}" "distinct (node_path t n)" using node_path_below [OF assms(1) n] by auto
  then have "length (node_path t n) \<le> card {..n}" by (metis card_mono distinct_card finite_atMost)
  with Suc n show ?case by simp
qed

lemma pack_rows_law:
  assumes "tree_ok t" "length (rows_before t (nodes t)) < 2 ^ 32"
  shows "k \<le> m \<Longrightarrow> m \<le> nodes t \<Longrightarrow>
    pack_rows t [k..<m] \<lparr>path_offsets = map (\<lambda>i. length (rows_before t i)) [0..<Suc k], path_rows = rows_before t k\<rparr> =
    Some (Ok \<lparr>path_offsets = map (\<lambda>i. length (rows_before t i)) [0..<Suc m], path_rows = rows_before t m\<rparr>)"
proof (induction "m - k" arbitrary: k)
  case 0
  then show ?case by simp
next
  case (Suc d)
  then have k: "k < m" "k < nodes t" by simp_all
  have small: "map as_u32 (node_path t k) = node_path t k"
  proof (intro map_idI as_u32_small)
    fix j assume "j \<in> set (node_path t k)"
    then have "j < nodes t" using node_path_below [OF assms(1) k(2)] k(2) by auto
    moreover have "nodes t \<le> 2 ^ 31" using assms(1) by (simp add: tree_ok_def)
    ultimately show "j < 2 ^ 32" by simp
  qed
  have "length (rows_before t (Suc k)) < 2 ^ 32"
    using rows_before_mono [of "Suc k" "nodes t" t] k(2) assms(2) by linarith
  then have len: "as_u32 (length (rows_before t k) + length (node_path t k)) = length (rows_before t k) + length (node_path t k)"
    using as_u32_small by simp
  have "pack_rows t [k..<m] \<lparr>path_offsets = map (\<lambda>i. length (rows_before t i)) [0..<Suc k], path_rows = rows_before t k\<rparr> =
    pack_rows t [Suc k..<m] \<lparr>path_offsets = map (\<lambda>i. length (rows_before t i)) [0..<Suc (Suc k)], path_rows = rows_before t (Suc k)\<rparr>"
    using k by (simp add: upt_conv_Cons path_to_eq [OF assms(1)] small len Let_def)
  also have "\<dots> = Some (Ok \<lparr>path_offsets = map (\<lambda>i. length (rows_before t i)) [0..<Suc m], path_rows = rows_before t m\<rparr>)"
    using Suc.hyps(1) [of "Suc k"] Suc.hyps(2) Suc.prems k by simp
  finally show ?case .
qed

lemma packed_forest_plan_eq:
  assumes "tree_ok t" "length (rows_before t (nodes t)) < 2 ^ 32"
  shows "packed_forest_plan t =
    Some (Ok \<lparr>path_offsets = map (\<lambda>i. length (rows_before t i)) [0..<Suc (nodes t)], path_rows = rows_before t (nodes t)\<rparr>)"
  using pack_rows_law [OF assms, of 0 "nodes t"] by (simp add: packed_forest_plan_def rows_before_def)

lemma rows_before_split: "m \<le> n \<Longrightarrow> rows_before t n = rows_before t m @ concat (map (node_path t) [m..<n])"
  unfolding rows_before_def by (metis concat_append map_append upt_add_eq_append le_add_diff_inverse zero_le)

lemma plan_path_eq:
  assumes "plan = \<lparr>path_offsets = map (\<lambda>i. length (rows_before t i)) [0..<Suc n], path_rows = rows_before t n\<rparr>"
  shows "plan_path plan row = (if row < n then Some (node_path t row) else None)"
proof (cases "row < n")
  case True
  have off: "list_get (path_offsets plan) row = Some (length (rows_before t row))"
    "list_get (path_offsets plan) (row + 1) = Some (length (rows_before t (row + 1)))"
    using True unfolding assms list_get_def by (simp_all add: nth_append del: upt_Suc)
  have "rows_before t n = rows_before t row @ node_path t row @ concat (map (node_path t) [Suc row..<n])"
    using rows_before_split [of row n t] True by (simp add: upt_conv_Cons)
  then have "take (length (node_path t row)) (drop (length (rows_before t row)) (path_rows plan)) = node_path t row"
    by (simp add: assms)
  with True off rows_before_mono [of "Suc row" n t] show ?thesis
    by (simp add: plan_path_def assms)
next
  case False
  then show ?thesis by (auto simp: plan_path_def assms list_get_def split: option.splits)
qed

section \<open>Acceptance is greedy decoding\<close>

text \<open>What the target model decodes by itself: every token is its choice after the context and the
  tokens before.\<close>

fun greedy_decode :: "(u32 list \<Rightarrow> u32) \<Rightarrow> u32 list \<Rightarrow> nat \<Rightarrow> u32 list" where
  "greedy_decode model ctx 0 = []"
| "greedy_decode model ctx (Suc n) =
     (let out = greedy_decode model ctx n in out @ [model (ctx @ out)])"

text \<open>The predictions of a verification pass: at every node the model's choice after the context and
  the drafted tokens on the path to the node.\<close>

definition predicts :: "(u32 list \<Rightarrow> u32) \<Rightarrow> u32 list \<Rightarrow> token_tree \<Rightarrow> u32 list \<Rightarrow> bool" where
  "predicts model ctx t predicted \<longleftrightarrow>
     predicted = map (\<lambda>i. model (ctx @ path_tokens t i)) [0..<nodes t]"

lemma length_greedy_decode [simp]: "length (greedy_decode model ctx n) = n"
  by (induction n) (simp_all add: Let_def)

lemma scan_child_law:
  assumes "tree_ok t" "set chs \<subseteq> {..<nodes t}" "c < nodes t"
  shows "case scan_child t c next chs of
      Ok (Some ch) \<Rightarrow> ch \<in> set chs \<and> tt_parent t ! ch = int c \<and> tt_tokens t ! ch = next
    | Ok None \<Rightarrow> \<forall>ch \<in> set chs. tt_parent t ! ch = int c \<longrightarrow> tt_tokens t ! ch \<noteq> next
    | _ \<Rightarrow> False"
  using assms(2)
  by (induction chs) (auto simp: list_get_parent [OF assms(1)] tree_ok_node [OF assms(1,3)] split: outcome.splits option.splits)

lemma path_tokens_child:
  "tt_parent t ! ch = int c \<Longrightarrow> c < ch \<Longrightarrow> path_tokens t ch = path_tokens t c @ [tt_tokens t ! ch]"
  by (simp add: path_tokens_def node_path_step tl_append split: list.splits)

definition accept_ok :: "(u32 list \<Rightarrow> u32) \<Rightarrow> u32 list \<Rightarrow> token_tree \<Rightarrow> u32 list \<Rightarrow> nat \<Rightarrow> bool" where
  "accept_ok model ctx t emitted leaf \<longleftrightarrow> leaf < nodes t \<and>
     emitted = greedy_decode model ctx (length emitted) \<and> emitted = path_tokens t leaf @ [model (ctx @ path_tokens t leaf)] \<and>
     (\<forall>ch < nodes t. tt_parent t ! ch = int leaf \<longrightarrow> tt_tokens t ! ch \<noteq> last emitted)"

lemma accept_from_law:
  assumes "tree_ok t" "predicts model ctx t predicted"
  shows "c < nodes t \<Longrightarrow> path_tokens t c = greedy_decode model ctx (length (path_tokens t c)) \<Longrightarrow>
    \<exists>emitted leaf. accept_from t predicted c (path_tokens t c) = Ok (emitted, leaf) \<and> accept_ok model ctx t emitted leaf"
proof (induction "nodes t - c" arbitrary: c rule: less_induct)
  case less
  let ?next = "model (ctx @ path_tokens t c)"
  have get: "list_get predicted c = Some ?next" using assms(2) less.prems(1) by (simp add: predicts_def list_get_def)
  have sub: "set [c + 1..<nodes t] \<subseteq> {..<nodes t}" by auto
  have ext: "path_tokens t c @ [?next] = greedy_decode model ctx (length (path_tokens t c @ [?next]))"
    using less.prems(2) by (simp add: Let_def)
  note law = scan_child_law [OF assms(1) sub less.prems(1), of ?next]
  show ?case
  proof (cases "scan_child t c ?next [c + 1..<nodes t]")
    case (Ok m)
    show ?thesis
    proof (cases m)
      case None
      have "tt_tokens t ! ch \<noteq> ?next" if "ch < nodes t" "tt_parent t ! ch = int c" for ch
      proof -
        have "ch \<noteq> 0" using that(2) assms(1) by (cases "ch = 0") (simp_all add: tree_ok_def)
        with tree_ok_parent [OF assms(1) that(1)] that(2) have "c < ch" by auto
        with law Ok None that show ?thesis by auto
      qed
      then have "accept_ok model ctx t (path_tokens t c @ [?next]) c"
        unfolding accept_ok_def by (intro conjI less.prems(1) ext refl) simp
      with Ok None get show ?thesis by (subst accept_from.simps) simp
    next
      case (Some ch)
      with law Ok have ch: "c < ch" "ch < nodes t" "tt_parent t ! ch = int c" "tt_tokens t ! ch = ?next" by auto
      then have pt: "path_tokens t ch = path_tokens t c @ [?next]" by (simp add: path_tokens_child)
      have "\<exists>emitted leaf. accept_from t predicted ch (path_tokens t ch) = Ok (emitted, leaf) \<and> accept_ok model ctx t emitted leaf"
      proof (rule less.hyps)
        show "path_tokens t ch = greedy_decode model ctx (length (path_tokens t ch))" unfolding pt by (rule ext)
      qed (use ch in simp_all)
      then show ?thesis using Ok Some get pt by (subst accept_from.simps) simp
    qed
  qed (use law in auto)
qed

lemma accept_longest_path_law:
  assumes "tree_ok t" "predicts model ctx t predicted"
  shows "\<exists>emitted leaf. accept_longest_path t predicted = Ok (emitted, leaf) \<and> accept_ok model ctx t emitted leaf"
proof -
  have "path_tokens t 0 = []" by (simp add: path_tokens_def node_path_root [OF assms(1)])
  with accept_from_law [OF assms tree_ok_pos [OF assms(1)]] show ?thesis by (simp add: accept_longest_path_def)
qed

section \<open>Linear drafts\<close>

lemma nodes_linear [simp]: "nodes (linear a ds) = Suc (length ds)"
  by (simp add: nodes_def linear_def)

lemma linear_node:
  assumes "length ds < 2 ^ 16" "i \<le> length ds"
  shows "tt_depth (linear a ds) ! i = i" "i \<noteq> 0 \<Longrightarrow> tt_parent (linear a ds) ! i = int (i - 1)"
  using assms by (cases i; simp add: linear_def as_i32_small as_u16_small)+

lemma tree_ok_linear:
  assumes "length ds < 2 ^ 16"
  shows "tree_ok (linear a ds)"
proof -
  have "0 \<le> tt_parent (linear a ds) ! i \<and> tt_parent (linear a ds) ! i < int i \<and>
      tt_depth (linear a ds) ! i = tt_depth (linear a ds) ! nat (tt_parent (linear a ds) ! i) + 1"
    if "i \<in> {1..<Suc (length ds)}" for i
  proof -
    from that have i: "i \<le> length ds" "i \<noteq> 0" "i - 1 \<le> length ds" by auto
    then show ?thesis
      unfolding linear_node [OF assms i(1)] linear_node(2) [OF assms i(1,2)] nat_int linear_node(1) [OF assms i(3)] by simp
  qed
  moreover have "tt_parent (linear a ds) ! 0 = -1" "tt_depth (linear a ds) ! 0 = 0"
    "length (tt_parent (linear a ds)) = Suc (length ds)" "length (tt_depth (linear a ds)) = Suc (length ds)"
    "tt_tokens (linear a ds) \<noteq> []"
    by (simp_all add: linear_def)
  ultimately show ?thesis using assms unfolding tree_ok_def nodes_linear by simp
qed

lemma scan_linear_tail:
  "length ds < 2 ^ 31 \<Longrightarrow> c + 1 < i \<Longrightarrow> scan_child (linear a ds) c next [i..<Suc (length ds)] = Ok None"
proof (induction "Suc (length ds) - i" arbitrary: i)
  case 0
  then show ?case by simp
next
  case (Suc d)
  then have i: "i < Suc (length ds)" by simp
  have "tt_parent (linear a ds) ! i = int (i - 1)" "c < 2 ^ 31" "int (i - 1) \<noteq> int c"
    using Suc.prems i by (simp_all add: linear_def nth_Cons' as_i32_small del: upt_Suc)
  then have "scan_child (linear a ds) c next [i..<Suc (length ds)] = scan_child (linear a ds) c next [Suc i..<Suc (length ds)]"
    using i by (simp add: upt_conv_Cons list_get_def as_i32_small del: upt_Suc) (simp add: linear_def)
  also have "\<dots> = Ok None" by (rule Suc.hyps(1)) (use Suc in simp_all)
  finally show ?case .
qed

lemma scan_linear:
  assumes "length ds < 2 ^ 31" "c \<le> length ds"
  shows "scan_child (linear a ds) c next [c + 1..<Suc (length ds)] =
    Ok (if c < length ds \<and> ds ! c = next then Some (c + 1) else None)"
proof (cases "c < length ds")
  case True
  have "tt_parent (linear a ds) ! (c + 1) = int c" "tt_tokens (linear a ds) ! (c + 1) = ds ! c"
    "length (tt_parent (linear a ds)) = Suc (length ds)"
    using True assms(1) by (simp_all add: linear_def as_i32_small del: upt_Suc)
  then show ?thesis using True assms(1) scan_linear_tail [OF assms(1), of c "c + 2"]
    by (simp add: upt_conv_Cons list_get_def as_i32_small del: upt_Suc)
qed (use assms in simp)

lemma accept_linear:
  assumes "length ds < 2 ^ 31" "length ps = Suc (length ds)"
  shows "c \<le> length ds \<Longrightarrow> accept_from (linear a ds) ps c em =
    Ok (em @ take (Suc (accepted_draft_prefix (drop c ds) (drop c ps))) (drop c ps), c + accepted_draft_prefix (drop c ds) (drop c ps))"
proof (induction "length ds - c" arbitrary: c em)
  case 0
  then have c: "c = length ds" by simp
  then have "drop c ps = [ps ! c]" using assms(2) by (simp add: Cons_nth_drop_Suc [symmetric])
  with c assms show ?case
    by (subst accept_from.simps) (simp add: list_get_def scan_linear accepted_draft_prefix_def)
next
  case (Suc d)
  then have c: "c < length ds" "c < length ps" using assms(2) by simp_all
  have ds: "drop c ds = ds ! c # drop (Suc c) ds" and ps: "drop c ps = ps ! c # drop (Suc c) ps"
    using c by (simp_all add: Cons_nth_drop_Suc)
  have sc: "scan_child (linear a ds) c (ps ! c) [Suc c..<Suc (length ds)] = Ok (if ds ! c = ps ! c then Some (Suc c) else None)"
    using scan_linear [OF assms(1), of c a "ps ! c"] c by simp
  show ?case
  proof (cases "ds ! c = ps ! c")
    case True
    have "accept_from (linear a ds) ps c em = accept_from (linear a ds) ps (Suc c) (em @ [ps ! c])"
      using True c sc by (subst accept_from.simps) (simp add: list_get_def del: upt_Suc)
    also have "\<dots> = Ok ((em @ [ps ! c]) @ take (Suc (accepted_draft_prefix (drop (Suc c) ds) (drop (Suc c) ps))) (drop (Suc c) ps),
        Suc c + accepted_draft_prefix (drop (Suc c) ds) (drop (Suc c) ps))"
      by (rule Suc.hyps(1)) (use Suc c in simp_all)
    finally show ?thesis using True by (simp add: ds ps accepted_draft_prefix_def)
  next
    case False
    then show ?thesis using c sc
      by (subst accept_from.simps) (simp add: list_get_def ds ps accepted_draft_prefix_def del: upt_Suc)
  qed
qed

section \<open>Properties\<close>

text \<open>C28. Speculative decoding with a draft tree is lossless. When every prediction is the target
  model's choice after the context and the drafted tokens on the path to its node, acceptance
  returns, its tokens are exactly the tokens the model decodes greedily without any draft, they
  are the drafted tokens on the path to the leaf and one more, and the path is as long as possible:
  no child of the leaf carries that last token.\<close>

theorem tree_speculation_lossless:
  assumes "tree_ok t" "predicts model ctx t predicted"
  shows "\<exists>emitted leaf. accept_longest_path t predicted = Ok (emitted, leaf) \<and> leaf < nodes t \<and>
    emitted = greedy_decode model ctx (length emitted) \<and> length emitted = tt_depth t ! leaf + 1 \<and>
    butlast emitted = path_tokens t leaf \<and>
    (\<forall>ch < nodes t. tt_parent t ! ch = int leaf \<longrightarrow> tt_tokens t ! ch \<noteq> last emitted)"
proof -
  from accept_longest_path_law [OF assms] obtain emitted leaf where
    a: "accept_longest_path t predicted = Ok (emitted, leaf)" and ok: "accept_ok model ctx t emitted leaf" by blast
  have "length (node_path t leaf) = tt_depth t ! leaf + 1" using node_path_below [OF assms(1)] ok by (simp add: accept_ok_def)
  then have "length emitted = tt_depth t ! leaf + 1" using ok by (simp add: accept_ok_def path_tokens_def)
  with a ok show ?thesis unfolding accept_ok_def by (intro exI [of _ emitted] exI [of _ leaf]) auto
qed

definition two_branch :: token_tree where
  "two_branch = \<lparr>tt_tokens = [5, 6, 7, 8], tt_parent = [-1, 0, 0, 2], tt_depth = [0, 1, 1, 2]\<rparr>"

definition count_up :: "u32 list \<Rightarrow> u32" where
  "count_up ctx = last ctx + (if length ctx = 2 then 2 else 1)"

theorem tree_speculation_lossless_witness:
  "\<exists>emitted leaf. accept_longest_path two_branch [7, 7, 8, 9] = Ok (emitted, leaf) \<and> leaf = 3 \<and>
    emitted = greedy_decode count_up [1, 5] 3"
proof -
  have ok: "tree_ok two_branch" by code_simp
  have p: "predicts count_up [1, 5] two_branch [7, 7, 8, 9]" by code_simp
  have a: "accept_longest_path two_branch [7, 7, 8, 9] = Ok ([7, 8, 9], 3)" by code_simp
  from tree_speculation_lossless [OF ok p] obtain emitted leaf where
    e: "accept_longest_path two_branch [7, 7, 8, 9] = Ok (emitted, leaf)" "emitted = greedy_decode count_up [1, 5] (length emitted)"
    by blast
  from e(1) a have "length emitted = 3" "leaf = 3" by auto
  with e show ?thesis by metis
qed

text \<open>The tree lane reproduces the linear lane: on a single-branch tree, acceptance emits the
  accepted prefix of the drafts and the model's next token after it, exactly as the comparison of
  drafts with predictions position by position does.\<close>

theorem linear_tree_is_chain:
  assumes "length drafts < 2 ^ 31" "length predicted = length drafts + 1"
  shows "accept_longest_path (linear anchor drafts) predicted =
    (let k = accepted_draft_prefix drafts predicted in Ok (take (k + 1) predicted, k)) \<and>
    take (accepted_draft_prefix drafts predicted) predicted = take (accepted_draft_prefix drafts predicted) drafts"
proof -
  have "take (accepted_draft_prefix drafts ps) ps = take (accepted_draft_prefix drafts ps) drafts" for ps
  proof (induction drafts arbitrary: ps)
    case (Cons d ds)
    then show ?case by (cases ps) (auto simp: accepted_draft_prefix_def)
  qed (simp add: accepted_draft_prefix_def)
  with accept_linear [OF assms(1), of predicted 0 anchor "[]"] assms(2) show ?thesis
    by (simp add: accept_longest_path_def Let_def)
qed

theorem linear_tree_is_chain_witness:
  "accept_longest_path (linear 1 [2, 3, 9]) [2, 3, 4, 5] = Ok ([2, 3, 4], 2)"
proof -
  have "accepted_draft_prefix [2, 3, 9] [2, 3, 4, 5] = 2" by code_simp
  with linear_tree_is_chain [of "[2, 3, 9]" "[2, 3, 4, 5]" 1] show ?thesis by (simp add: Let_def)
qed

text \<open>The mask the tree attention reads is the ancestor relation: on a well-formed tree the bitset
  is built without a panic, has one row of \<open>ceil(n / 32)\<close> words for each node, and in the row of
  node \<open>i\<close> exactly the bits of the nodes on the path from the root to \<open>i\<close> are set, the unused bits of
  the last word included.\<close>

theorem ancestor_bitset_exact:
  assumes "tree_ok t" "i < nodes t" "j < 32 * div_ceil (nodes t) 32"
  shows "\<exists>bits path. ancestor_bitset t = (Some (Ok bits), div_ceil (nodes t) 32) \<and>
    length bits = nodes t * div_ceil (nodes t) 32 \<and> path_to t i = Some (Ok path) \<and>
    (bit (bits ! (i * div_ceil (nodes t) 32 + j div 32)) (j mod 32) \<longleftrightarrow> j \<in> set path)"
  using ancestor_bits [OF assms(1) refl] path_to_eq [OF assms(1,2)] assms(2,3) by auto

theorem ancestor_bitset_exact_witness:
  "\<exists>bits. fst (ancestor_bitset two_branch) = Some (Ok bits) \<and> bit (bits ! 3) 2 \<and> \<not> bit (bits ! 3) 1"
proof -
  have ok: "tree_ok two_branch" by code_simp
  have n: "nodes two_branch = 4" "div_ceil 4 32 = 1" by code_simp+
  have p: "path_to two_branch 3 = Some (Ok [0, 2, 3])" by code_simp
  from ancestor_bitset_exact [OF ok, of 3 2] ancestor_bitset_exact [OF ok, of 3 1] n p show ?thesis by auto
qed

text \<open>The packed forest gives every row its own path: for a well-formed tree of fewer than \<open>2 ^ 16\<close>
  nodes the plan is built without a panic, and the slice it returns for a row is the path from the
  root to that row; for a row that does not exist there is none.\<close>

theorem packed_forest_paths:
  assumes "tree_ok t" "nodes t < 2 ^ 16"
  shows "\<exists>plan. packed_forest_plan t = Some (Ok plan) \<and>
    (\<forall>row. plan_path plan row = (if row < nodes t then Some (node_path t row) else None)) \<and>
    (\<forall>row < nodes t. path_to t row = Some (Ok (node_path t row)))"
proof -
  have "length (rows_before t (nodes t)) \<le> nodes t * nodes t" by (rule rows_before_bound [OF assms(1) order_refl])
  also have "\<dots> < 2 ^ 16 * 2 ^ 16" by (rule mult_strict_mono) (use assms(2) in simp_all)
  finally have b: "length (rows_before t (nodes t)) < 2 ^ 32" by simp
  from packed_forest_plan_eq [OF assms(1) b] plan_path_eq [OF refl] path_to_eq [OF assms(1)] show ?thesis by auto
qed

theorem packed_forest_paths_witness:
  "\<exists>plan. packed_forest_plan two_branch = Some (Ok plan) \<and> plan_path plan 3 = Some [0, 2, 3] \<and> plan_path plan 4 = None"
proof -
  have ok: "tree_ok two_branch" and n: "nodes two_branch = 4" and p: "path_to two_branch 3 = Some (Ok [0, 2, 3])" by code_simp+
  have "nodes two_branch < 2 ^ 16" by (simp add: n)
  from packed_forest_paths [OF ok this] n p show ?thesis by fastforce
qed

end
