(* ===== verification/Draft_Lattice.thy ===== *)
theory Draft_Lattice
  imports Spec_Tree "HOL-Library.Product_Lexorder"
begin

text \<open>
  The dynamic draft lattice (\<open>src/src/inference/spec_tree.rs\<close>, \<open>DynamicDraftLattice\<close>): a learned head
  expands a temporary lattice of scored candidates, and \<open>rerank_connected\<close> selects the best nodes
  for the verifier.

  Scores are floating-point numbers in the source. Here they are a linear order (the total order of
  \<open>total_cmp\<close>), and what the source computes with them is a parameter: \<open>add\<close> is the sum of a path
  score and a conditional log probability, \<open>valid\<close> the check that a log probability is finite and
  not positive, \<open>over\<close> the check that the probabilities of siblings sum to more than one. The theorem
  about growth relies on one fact about them, for the scores a path can have (\<open>reached\<close>): adding a
  valid log probability to such a score gives such a score, which is not above it. For \<open>f32\<close> these
  scores are \<open>+0.0\<close> (the root), the negative numbers and minus infinity: from \<open>+0.0\<close> a sum with a
  number that is not positive is \<open>+0.0\<close> or negative, rounding is monotone, and an overflow gives
  minus infinity. The fact is false of other scores: \<open>-0.0 + 0.0\<close> is \<open>+0.0\<close>, which \<open>total_cmp\<close> puts
  above \<open>-0.0\<close>; but no path has the score \<open>-0.0\<close> or a NaN.

  The theorem is the claim of the source's comments: truncating the ranking never drops the root or
  orphans a node, so reranking always succeeds and gives the verifier a well-formed tree of the
  best nodes.
\<close>

section \<open>The lattice\<close>

record 'f draft_candidate =
  dc_token :: u32
  dc_log_probability :: 'f

record 'f draft_node =
  dn_token :: u32
  dn_parent :: "usize option"
  dn_depth :: nat
  dn_score :: 'f

type_synonym 'f lattice = "'f draft_node list"

datatype lattice_error =
    ParentOutOfRange usize
  | DepthExceedsU16
  | InvalidLogProbability usize
  | DuplicateChild usize u32
  | ProbabilitiesAboveOne
  | NoRoomForRoot
  | DroppedRoot
  | SelectedWithoutParent usize usize
  | RowExceedsI32

definition lattice_new :: "'f \<Rightarrow> u32 \<Rightarrow> 'f lattice" where
  "lattice_new zero anchor = [\<lparr>dn_token = anchor, dn_parent = None, dn_depth = 0, dn_score = zero\<rparr>]"

text \<open>The loop over the candidates of \<open>expand\<close>.\<close>

fun check_candidates ::
  "('f \<Rightarrow> bool) \<Rightarrow> usize \<Rightarrow> 'f lattice \<Rightarrow> usize \<Rightarrow> u32 list \<Rightarrow> 'f draft_candidate list \<Rightarrow> (unit, lattice_error) outcome" where
  "check_candidates valid parent lat slot earlier [] = Ok ()"
| "check_candidates valid parent lat slot earlier (c # cs) =
     (if \<not> valid (dc_log_probability c) then Err (InvalidLogProbability slot)
      else if dc_token c \<in> set earlier \<or> (\<exists>n \<in> set lat. dn_parent n = Some parent \<and> dn_token n = dc_token c)
      then Err (DuplicateChild parent (dc_token c))
      else check_candidates valid parent lat (slot + 1) (earlier @ [dc_token c]) cs)"

definition expand ::
  "('f \<Rightarrow> 'f \<Rightarrow> 'f) \<Rightarrow> ('f \<Rightarrow> bool) \<Rightarrow> ('f list \<Rightarrow> bool) \<Rightarrow> usize \<Rightarrow> 'f draft_candidate list \<Rightarrow> 'f lattice \<Rightarrow>
    (usize list, lattice_error) outcome \<times> 'f lattice" where
  "expand add valid over parent candidates lat =
     (case list_get lat parent of
        None \<Rightarrow> (Err (ParentOutOfRange parent), lat)
      | Some pn \<Rightarrow>
          if 2 ^ 16 \<le> dn_depth pn + 1 then (Err DepthExceedsU16, lat)
          else
            bindS (check_candidates valid parent lat 0 [] candidates, lat) (\<lambda>_ lat.
              if over (map dc_log_probability candidates) then (Err ProbabilitiesAboveOne, lat)
              else
                (Ok [length lat..<length lat + length candidates],
                 lat @ map (\<lambda>c. \<lparr>dn_token = dc_token c, dn_parent = Some parent, dn_depth = dn_depth pn + 1,
                   dn_score = add (dn_score pn) (dc_log_probability c)\<rparr>) candidates)))"

section \<open>Reranking\<close>

text \<open>The comparison of \<open>sort_by\<close>: score descending, depth ascending, index ascending. It is a strict
  total order, so the sorted vector is determined; insertion sort computes it.\<close>

definition ranks_before :: "'f::linorder lattice \<Rightarrow> usize \<Rightarrow> usize \<Rightarrow> bool" where
  "ranks_before lat l r \<longleftrightarrow>
     dn_score (lat ! r) < dn_score (lat ! l) \<or>
     dn_score (lat ! r) = dn_score (lat ! l) \<and>
       (dn_depth (lat ! l) < dn_depth (lat ! r) \<or> dn_depth (lat ! l) = dn_depth (lat ! r) \<and> l < r)"

fun insert_ranked :: "'f::linorder lattice \<Rightarrow> usize \<Rightarrow> usize list \<Rightarrow> usize list" where
  "insert_ranked lat i [] = [i]"
| "insert_ranked lat i (j # js) = (if ranks_before lat i j then i # j # js else j # insert_ranked lat i js)"

definition rank_sort :: "'f::linorder lattice \<Rightarrow> usize list \<Rightarrow> usize list" where
  "rank_sort lat is = foldr (insert_ranked lat) is []"

text \<open>The check that every selected node has its parent selected.\<close>

fun check_closed :: "'f lattice \<Rightarrow> usize list \<Rightarrow> usize list \<Rightarrow> (unit, lattice_error) outcome" where
  "check_closed lat selected [] = Ok ()"
| "check_closed lat selected (i # is) =
     (case dn_parent (lat ! i) of
        None \<Rightarrow> check_closed lat selected is
      | Some p \<Rightarrow>
          if p \<in> set selected then check_closed lat selected is else Err (SelectedWithoutParent i p))"

definition remap_rows :: "'f lattice \<Rightarrow> usize list \<Rightarrow> usize list" where
  "remap_rows lat selected =
     foldl (\<lambda>remap (row, source). remap[source := row]) (replicate (length lat) usize_max) (enumerate 0 selected)"

text \<open>The parent row of a selected node.\<close>

definition parent_row :: "usize list \<Rightarrow> 'f draft_node \<Rightarrow> (int, lattice_error) outcome" where
  "parent_row remap n =
     (case dn_parent n of
        None \<Rightarrow> Ok (-1)
      | Some p \<Rightarrow>
          (case list_get remap p of
             None \<Rightarrow> Panic
           | Some row \<Rightarrow> if row < 2 ^ 31 then Ok (int row) else Err RowExceedsI32))"

fun parent_rows :: "usize list \<Rightarrow> 'f draft_node list \<Rightarrow> (int list, lattice_error) outcome" where
  "parent_rows remap [] = Ok []"
| "parent_rows remap (n # ns) =
     bindR (parent_row remap n) (\<lambda>p. bindR (parent_rows remap ns) (\<lambda>ps. Ok (p # ps)))"

record 'f scored_tree =
  st_tree :: token_tree
  st_scores :: "'f list"
  st_source :: "usize list"

definition rerank_connected ::
  "usize \<Rightarrow> usize \<Rightarrow> 'f::linorder lattice \<Rightarrow> ('f scored_tree, lattice_error) outcome" where
  "rerank_connected max_nodes max_depth lat =
     (if max_nodes = 0 then Err NoRoomForRoot
      else
        let eligible = filter (\<lambda>i. dn_depth (lat ! i) \<le> max_depth) [0..<length lat];
            selected = take max_nodes (rank_sort lat eligible)
        in if 0 \<notin> set selected then Err DroppedRoot
           else bindR (check_closed lat selected selected) (\<lambda>_.
             let rows = sort_key (\<lambda>i. (dn_depth (lat ! i), i)) selected;
                 remap = remap_rows lat rows;
                 ns = map ((!) lat) rows
             in bindR (parent_rows remap ns) (\<lambda>ps.
                  Ok \<lparr>st_tree = \<lparr>tt_tokens = map dn_token ns, tt_parent = ps, tt_depth = map dn_depth ns\<rparr>,
                      st_scores = map dn_score ns, st_source = rows\<rparr>)))"

section \<open>The ranking\<close>

lemma ranks_before_trans: "ranks_before lat i j \<Longrightarrow> ranks_before lat j k \<Longrightarrow> ranks_before lat i k"
  by (auto simp: ranks_before_def)

lemma ranks_before_asym: "ranks_before lat i j \<Longrightarrow> \<not> ranks_before lat j i"
  by (auto simp: ranks_before_def)

lemma ranks_before_total: "i \<noteq> j \<Longrightarrow> \<not> ranks_before lat i j \<Longrightarrow> ranks_before lat j i"
  by (auto simp: ranks_before_def)

lemma mset_insert_ranked [simp]: "mset (insert_ranked lat i js) = add_mset i (mset js)"
  by (induction js) auto

lemma set_insert_ranked [simp]: "set (insert_ranked lat i js) = insert i (set js)"
  by (induction js) auto

lemma sorted_insert_ranked:
  "sorted_wrt (ranks_before lat) js \<Longrightarrow> i \<notin> set js \<Longrightarrow> sorted_wrt (ranks_before lat) (insert_ranked lat i js)"
proof (induction js)
  case (Cons j js)
  then show ?case using ranks_before_total [of i j lat] by (auto intro: ranks_before_trans)
qed simp

lemma rank_sort_law: "mset (rank_sort lat is) = mset is \<and> (distinct is \<longrightarrow> sorted_wrt (ranks_before lat) (rank_sort lat is))"
proof (induction "is")
  case (Cons i "is")
  then have "set (rank_sort lat is) = set is" by (metis set_mset_mset)
  with Cons show ?case by (simp add: rank_sort_def sorted_insert_ranked)
qed (simp add: rank_sort_def)

text \<open>A prefix of the ranking contains everything that ranks before one of its members.\<close>

lemma rank_prefix_closed:
  assumes "distinct is" "j \<in> set (take k (rank_sort lat is))" "i \<in> set is" "ranks_before lat i j"
  shows "i \<in> set (take k (rank_sort lat is))"
proof (rule ccontr)
  let ?xs = "rank_sort lat is"
  assume n: "i \<notin> set (take k ?xs)"
  have "set ?xs = set is" using rank_sort_law [of lat "is"] by (metis set_mset_mset)
  with assms(3) have "i \<in> set (take k ?xs @ drop k ?xs)" by simp
  with n have d: "i \<in> set (drop k ?xs)" unfolding set_append by blast
  have "sorted_wrt (ranks_before lat) (take k ?xs @ drop k ?xs)" using rank_sort_law [of lat "is"] assms(1) by simp
  then have "ranks_before lat j i" using d assms(2) unfolding sorted_wrt_append by blast
  with assms(4) show False using ranks_before_asym by blast
qed

section \<open>Well-formed lattices\<close>

definition lattice_ok :: "'f::linorder lattice \<Rightarrow> bool" where
  "lattice_ok lat \<longleftrightarrow> lat \<noteq> [] \<and> dn_parent (lat ! 0) = None \<and> dn_depth (lat ! 0) = 0 \<and>
     (\<forall>i \<in> {1..<length lat}. \<exists>p < i. dn_parent (lat ! i) = Some p \<and> dn_depth (lat ! i) = dn_depth (lat ! p) + 1 \<and>
        dn_score (lat ! i) \<le> dn_score (lat ! p))"

text \<open>What the scores of a growing lattice need of the arithmetic.\<close>

definition scores_fall :: "('f::linorder \<Rightarrow> bool) \<Rightarrow> ('f \<Rightarrow> 'f \<Rightarrow> 'f) \<Rightarrow> ('f \<Rightarrow> bool) \<Rightarrow> bool" where
  "scores_fall reached add valid \<longleftrightarrow> (\<forall>s q. reached s \<longrightarrow> valid q \<longrightarrow> reached (add s q) \<and> add s q \<le> s)"

definition lattice_scores :: "('f \<Rightarrow> bool) \<Rightarrow> 'f lattice \<Rightarrow> bool" where
  "lattice_scores reached lat \<longleftrightarrow> (\<forall>n \<in> set lat. reached (dn_score n))"

lemma lattice_parent:
  assumes "lattice_ok lat" "i < length lat" "i \<noteq> 0"
  shows "\<exists>p < i. dn_parent (lat ! i) = Some p \<and> dn_depth (lat ! i) = dn_depth (lat ! p) + 1 \<and> ranks_before lat p i"
proof -
  have "i \<in> {1..<length lat}" using assms by simp
  with assms(1) obtain p where "p < i" "dn_parent (lat ! i) = Some p" "dn_depth (lat ! i) = dn_depth (lat ! p) + 1"
    "dn_score (lat ! i) \<le> dn_score (lat ! p)" unfolding lattice_ok_def by blast
  then show ?thesis by (intro exI [of _ p]) (auto simp: ranks_before_def)
qed

lemma lattice_ok_expand:
  assumes "lattice_ok lat" "lattice_scores reached lat" "scores_fall reached add valid"
  shows "lattice_ok (snd (expand add valid over parent cs lat)) \<and>
    lattice_scores reached (snd (expand add valid over parent cs lat))"
proof -
  have valid_cs: "\<forall>c \<in> set cs. valid (dc_log_probability c)" if "check_candidates valid parent lat slot earlier cs = Ok ()" for slot earlier
    using that by (induction cs arbitrary: slot earlier) (auto split: if_splits)
  let ?new = "\<lambda>pn. map (\<lambda>c. \<lparr>dn_token = dc_token c, dn_parent = Some parent, dn_depth = dn_depth pn + 1,
      dn_score = add (dn_score pn) (dc_log_probability c)\<rparr>) cs"
  have ext: "lattice_ok (lat @ ?new (lat ! parent))" if p: "parent < length lat" and v: "\<forall>c \<in> set cs. valid (dc_log_probability c)"
    unfolding lattice_ok_def
  proof (intro conjI ballI)
    show "lat @ ?new (lat ! parent) \<noteq> []" "dn_parent ((lat @ ?new (lat ! parent)) ! 0) = None" "dn_depth ((lat @ ?new (lat ! parent)) ! 0) = 0"
      using assms(1) by (auto simp: lattice_ok_def nth_append)
    fix i assume i: "i \<in> {1..<length (lat @ ?new (lat ! parent))}"
    show "\<exists>p < i. dn_parent ((lat @ ?new (lat ! parent)) ! i) = Some p \<and>
        dn_depth ((lat @ ?new (lat ! parent)) ! i) = dn_depth ((lat @ ?new (lat ! parent)) ! p) + 1 \<and>
        dn_score ((lat @ ?new (lat ! parent)) ! i) \<le> dn_score ((lat @ ?new (lat ! parent)) ! p)"
    proof (cases "i < length lat")
      case True
      with i have "i \<in> {1..<length lat}" by simp
      with assms(1) obtain q where "q < i" "dn_parent (lat ! i) = Some q" "dn_depth (lat ! i) = dn_depth (lat ! q) + 1"
        "dn_score (lat ! i) \<le> dn_score (lat ! q)" unfolding lattice_ok_def by blast
      with True show ?thesis by (intro exI [of _ q]) (simp add: nth_append)
    next
      case False
      then have k: "i - length lat < length cs" using i by auto
      then have "valid (dc_log_probability (cs ! (i - length lat)))" using v by simp
      moreover have "reached (dn_score (lat ! parent))" using assms(2) p by (simp add: lattice_scores_def)
      ultimately have "add (dn_score (lat ! parent)) (dc_log_probability (cs ! (i - length lat))) \<le> dn_score (lat ! parent)"
        using assms(3) by (simp add: scores_fall_def)
      with False p k show ?thesis by (intro exI [of _ parent]) (simp add: nth_append)
    qed
  qed
  have sc: "lattice_scores reached (lat @ ?new (lat ! parent))" if p: "parent < length lat" and v: "\<forall>c \<in> set cs. valid (dc_log_probability c)"
    using assms(2,3) p v by (auto simp: lattice_scores_def scores_fall_def)
  show ?thesis
  proof (cases "expand add valid over parent cs lat")
    case (Pair r l)
    show ?thesis
    proof (cases "l = lat")
      case False
      with Pair have p: "parent < length lat" and chk: "check_candidates valid parent lat 0 [] cs = Ok ()"
        and l: "l = lat @ ?new (lat ! parent)"
        by (auto simp: expand_def list_get_def bindS_def split: if_splits outcome.splits prod.splits)
      from ext [OF p valid_cs [OF chk]] sc [OF p valid_cs [OF chk]] l Pair show ?thesis by simp
    qed (use Pair assms(1,2) in simp)
  qed
qed

section \<open>Reranking a well-formed lattice\<close>

lemma root_first: "lattice_ok lat \<Longrightarrow> i < length lat \<Longrightarrow> i \<noteq> 0 \<Longrightarrow> ranks_before lat 0 i"
proof (induction i rule: less_induct)
  case (less i)
  from lattice_parent [OF less.prems] obtain p where p: "p < i" "ranks_before lat p i" by blast
  show ?case
  proof (cases "p = 0")
    case False
    with less.IH [OF p(1) less.prems(1)] p less.prems(2) show ?thesis by (auto intro: ranks_before_trans)
  qed (use p in simp)
qed

lemma remap_rows_law:
  assumes "distinct rows" "set rows \<subseteq> {..<length lat}"
  shows "length (remap_rows lat rows) = length lat \<and> (\<forall>r < length rows. remap_rows lat rows ! (rows ! r) = r)"
  using assms
proof (induction rows rule: rev_induct)
  case Nil
  then show ?case by (simp add: remap_rows_def)
next
  case (snoc i rows)
  have step: "remap_rows lat (rows @ [i]) = (remap_rows lat rows)[i := length rows]"
    by (simp add: remap_rows_def enumerate_append_eq)
  have "i \<noteq> rows ! r" if "r < length rows" for r using snoc.prems(1) that by auto
  with snoc show ?case unfolding step by (auto simp: nth_append less_Suc_eq)
qed

lemma check_closed_Ok: "\<forall>i \<in> set is. \<forall>p. dn_parent (lat ! i) = Some p \<longrightarrow> p \<in> set selected \<Longrightarrow> check_closed lat selected is = Ok ()"
  by (induction "is") (auto split: option.splits)

text \<open>The layout of a parent-closed selection.\<close>

definition row_parent :: "'f lattice \<Rightarrow> usize list \<Rightarrow> usize \<Rightarrow> int" where
  "row_parent lat rows i = (case dn_parent (lat ! i) of None \<Rightarrow> -1 | Some p \<Rightarrow> int (remap_rows lat rows ! p))"

lemma layout_rows:
  assumes ok: "lattice_ok lat" and small: "length lat \<le> 2 ^ 31"
    and sel: "distinct selected" "set selected \<subseteq> {..<length lat}" "0 \<in> set selected"
    and closed: "\<forall>i \<in> set selected. \<forall>p. dn_parent (lat ! i) = Some p \<longrightarrow> p \<in> set selected"
    and rows: "rows = sort_key (\<lambda>i. (dn_depth (lat ! i), i)) selected"
  shows "rows ! 0 = 0" "length rows = length selected" "distinct rows" "set rows = set selected" "length rows \<le> length lat"
    "parent_rows (remap_rows lat rows) (map ((!) lat) rows) = Ok (map (row_parent lat rows) rows)"
    "r < length rows \<Longrightarrow> r \<noteq> 0 \<Longrightarrow> \<exists>q < r. row_parent lat rows (rows ! r) = int q \<and> dn_parent (lat ! (rows ! r)) = Some (rows ! q) \<and>
      dn_depth (lat ! (rows ! r)) = dn_depth (lat ! (rows ! q)) + 1"
proof -
  let ?key = "\<lambda>i. (dn_depth (lat ! i), i)"
  show len: "length rows = length selected" and d: "distinct rows" and set: "set rows = set selected" using sel(1) by (simp_all add: rows)
  have sorted: "sorted (map ?key rows)" by (simp add: rows)
  have key_le: "?key (rows ! a) \<le> ?key (rows ! b)" if "a \<le> b" "b < length rows" for a b
    using sorted_nth_mono [OF sorted that(1)] that by simp
  have sub: "set rows \<subseteq> {..<length lat}" using sel(2) set by simp
  have "card (set rows) \<le> card {..<length lat}" by (intro card_mono sub) simp
  then show le: "length rows \<le> length lat" using d by (simp add: distinct_card)
  obtain z where z: "z < length rows" "rows ! z = 0" using sel(3) set by (metis in_set_conv_nth)
  have "?key (rows ! 0) \<le> ?key 0" using key_le [of 0 z] z by simp
  moreover have "dn_depth (lat ! 0) = 0" using ok by (simp add: lattice_ok_def)
  ultimately show r0: "rows ! 0 = 0" by simp
  note remap = remap_rows_law [OF d sub]
  have at: "\<exists>q < r. dn_parent (lat ! (rows ! r)) = Some (rows ! q) \<and> dn_depth (lat ! (rows ! r)) = dn_depth (lat ! (rows ! q)) + 1 \<and>
      remap_rows lat rows ! (rows ! q) = q" if r: "r < length rows" "r \<noteq> 0" for r
  proof -
    have "rows ! r \<noteq> 0" using r r0 d by (metis nth_eq_iff_index_eq bot_nat_0.not_eq_extremum length_greater_0_conv list.size(3) not_less_zero)
    moreover have "rows ! r < length lat" using sub r by (meson lessThan_iff nth_mem subsetD)
    ultimately obtain p where p: "dn_parent (lat ! (rows ! r)) = Some p" "dn_depth (lat ! (rows ! r)) = dn_depth (lat ! p) + 1"
      using lattice_parent [OF ok] by blast
    have "rows ! r \<in> set selected" using r set nth_mem by blast
    with closed p(1) have "p \<in> set rows" unfolding set by blast
    then obtain q where q: "q < length rows" "rows ! q = p" by (metis in_set_conv_nth)
    have "q < r"
    proof (rule ccontr)
      assume "\<not> q < r"
      then have "?key (rows ! r) \<le> ?key (rows ! q)" using key_le q(1) by simp
      with p(2) q(2) show False by simp
    qed
    with p q remap show ?thesis by blast
  qed
  show "\<exists>q < r. row_parent lat rows (rows ! r) = int q \<and> dn_parent (lat ! (rows ! r)) = Some (rows ! q) \<and>
      dn_depth (lat ! (rows ! r)) = dn_depth (lat ! (rows ! q)) + 1" if "r < length rows" "r \<noteq> 0"
    using at [OF that] by (auto simp: row_parent_def)
  have "parent_row (remap_rows lat rows) (lat ! i) = Ok (row_parent lat rows i)" if "i \<in> set rows" for i
  proof (cases "dn_parent (lat ! i)")
    case None
    then show ?thesis by (simp add: parent_row_def row_parent_def)
  next
    case (Some p)
    obtain r where r: "r < length rows" "i = rows ! r" using \<open>i \<in> set rows\<close> by (metis in_set_conv_nth)
    have "r \<noteq> 0" using Some r r0 ok by (cases "r = 0") (simp_all add: lattice_ok_def)
    from at [OF r(1) this] r Some obtain q where q: "q < r" "p = rows ! q" "remap_rows lat rows ! p = q" by auto
    have "p < length lat" using sub q r(1) by (metis lessThan_iff less_trans nth_mem subsetD)
    moreover have "q < 2 ^ 31" using q(1) r(1) le small by simp
    ultimately show ?thesis using Some q(3) remap by (simp add: parent_row_def row_parent_def list_get_def)
  qed
  then have rp: "\<forall>i \<in> set rows. parent_row (remap_rows lat rows) (lat ! i) = Ok (row_parent lat rows i)" by blast
  have gen: "\<forall>i \<in> set is. parent_row m (lat ! i) = Ok (f i) \<Longrightarrow> parent_rows m (map ((!) lat) is) = Ok (map f is)" for m f "is"
    by (induction "is") auto
  show "parent_rows (remap_rows lat rows) (map ((!) lat) rows) = Ok (map (row_parent lat rows) rows)" by (rule gen [OF rp])
qed

text \<open>The selection: the root and closure under parents.\<close>

lemma selection_law:
  assumes ok: "lattice_ok lat" and k: "0 < k"
    and el: "eligible = filter (\<lambda>i. dn_depth (lat ! i) \<le> d) [0..<length lat]"
    and sel: "selected = take k (rank_sort lat eligible)"
  shows "0 \<in> set selected" "distinct selected" "set selected \<subseteq> set eligible" "length selected = min k (length eligible)"
    "\<forall>i \<in> set selected. \<forall>p. dn_parent (lat ! i) = Some p \<longrightarrow> p \<in> set selected"
    "\<forall>i \<in> set selected. \<forall>j \<in> set eligible - set selected. ranks_before lat i j"
proof -
  have de: "distinct eligible" by (simp add: el)
  have perm: "mset (rank_sort lat eligible) = mset eligible" and sorted: "sorted_wrt (ranks_before lat) (rank_sort lat eligible)"
    using rank_sort_law [of lat eligible] de by simp_all
  have sets: "set (rank_sort lat eligible) = set eligible" and ds: "distinct (rank_sort lat eligible)"
    and ls: "length (rank_sort lat eligible) = length eligible"
    using perm de by (metis set_mset_mset, metis mset_eq_imp_distinct_iff, metis size_mset)
  show "distinct selected" and sub: "set selected \<subseteq> set eligible" and len: "length selected = min k (length eligible)"
    using ds sets ls by (auto simp: sel dest: in_set_takeD)
  have cl: "i \<in> set selected" if "j \<in> set selected" "i \<in> set eligible" "ranks_before lat i j" for i j
    unfolding sel by (rule rank_prefix_closed [OF de that(1) [unfolded sel] that(2,3)])
  have e0: "0 \<in> set eligible" using ok by (simp add: el lattice_ok_def)
  then have "selected \<noteq> []" using len k by (auto simp: min_def split: if_splits)
  then obtain j where j: "j \<in> set selected" by (cases selected) auto
  show "0 \<in> set selected"
  proof (cases "j = 0")
    case False
    have "j < length lat" using j sub by (auto simp: el)
    from cl [OF j e0 root_first [OF ok this False]] show ?thesis .
  qed (use j in simp)
  show "\<forall>i \<in> set selected. \<forall>p. dn_parent (lat ! i) = Some p \<longrightarrow> p \<in> set selected"
  proof (intro ballI allI impI)
    fix i p assume i: "i \<in> set selected" and p: "dn_parent (lat ! i) = Some p"
    have il: "i < length lat" "dn_depth (lat ! i) \<le> d" using i sub by (auto simp: el)
    have "i \<noteq> 0" using p ok by (cases "i = 0") (simp_all add: lattice_ok_def)
    with lattice_parent [OF ok il(1)] p have "p < i" "dn_depth (lat ! i) = dn_depth (lat ! p) + 1" "ranks_before lat p i" by auto
    with cl [OF i] il show "p \<in> set selected" by (simp add: el)
  qed
  show "\<forall>i \<in> set selected. \<forall>j \<in> set eligible - set selected. ranks_before lat i j"
  proof (intro ballI)
    fix i j assume i: "i \<in> set selected" and j: "j \<in> set eligible - set selected"
    then have "i \<noteq> j" by auto
    with cl [OF i] j show "ranks_before lat i j" using ranks_before_total [of j i lat] by auto
  qed
qed

lemma tree_ok_layout:
  assumes t: "t = \<lparr>tt_tokens = map dn_token (map ((!) lat) rows), tt_parent = map f rows, tt_depth = map dn_depth (map ((!) lat) rows)\<rparr>"
    and rows: "rows \<noteq> []" "length rows \<le> 2 ^ 31" "rows ! 0 = 0" and ok: "lattice_ok lat"
    and par: "\<And>r. r < length rows \<Longrightarrow> r \<noteq> 0 \<Longrightarrow> \<exists>q < r. f (rows ! r) = int q \<and>
      dn_depth (lat ! (rows ! r)) = dn_depth (lat ! (rows ! q)) + 1" and root: "f 0 = -1"
  shows "tree_ok t"
proof -
  have n: "nodes t = length rows" by (simp add: t nodes_def)
  have "0 \<le> tt_parent t ! i \<and> tt_parent t ! i < int i \<and> tt_depth t ! i = tt_depth t ! nat (tt_parent t ! i) + 1"
    if "i \<in> {1..<nodes t}" for i
    using par [of i] that by (auto simp: t nodes_def)
  then show ?thesis using rows ok root unfolding tree_ok_def n by (simp add: t lattice_ok_def)
qed

section \<open>Growing a lattice\<close>

fun grow ::
  "('f \<Rightarrow> 'f \<Rightarrow> 'f) \<Rightarrow> ('f \<Rightarrow> bool) \<Rightarrow> ('f list \<Rightarrow> bool) \<Rightarrow> (usize \<times> 'f draft_candidate list) list \<Rightarrow> 'f lattice \<Rightarrow> 'f lattice" where
  "grow add valid over [] lat = lat"
| "grow add valid over ((parent, cs) # steps) lat = grow add valid over steps (snd (expand add valid over parent cs lat))"

lemma lattice_ok_new: "lattice_ok (lattice_new zero anchor)"
  by (simp add: lattice_ok_def lattice_new_def)

lemma lattice_ok_grow:
  assumes "scores_fall reached add valid"
  shows "lattice_ok lat \<Longrightarrow> lattice_scores reached lat \<Longrightarrow> lattice_ok (grow add valid over steps lat)"
proof (induction steps arbitrary: lat)
  case (Cons st steps)
  obtain parent cs where st: "st = (parent, cs)" by (cases st)
  note e = lattice_ok_expand [OF Cons.prems assms, of over parent cs]
  with Cons.IH [of "snd (expand add valid over parent cs lat)"] st show ?case by simp
qed simp

section \<open>Properties\<close>

text \<open>C29. Reranking never drops the root and never orphans a node. A lattice of at most 2^31 nodes, grown
  from its anchor by any sequence of expansions, accepted or refused, reranks successfully for every
  positive node budget and every depth bound; the verifier gets a well-formed tree (parents before
  children, depths counting edges) of as many nodes as budget and depth allow; every row carries the
  token of its source node and its parent row is the row of the source's parent; and every selected
  node ranks before every eligible node left out. The arithmetic of scores is a parameter of which
  \<open>scores_fall\<close> is assumed, on the scores reachable from the root's.\<close>

theorem rerank_connected_complete:
  assumes falls: "scores_fall reached add valid" "reached zero"
    and lat: "lat = grow add valid over steps (lattice_new zero anchor)" and small: "length lat \<le> 2 ^ 31" and k: "0 < max_nodes"
  shows "\<exists>st. rerank_connected max_nodes max_depth lat = Ok st \<and> tree_ok (st_tree st) \<and>
    nodes (st_tree st) = min max_nodes (length (filter (\<lambda>i. dn_depth (lat ! i) \<le> max_depth) [0..<length lat])) \<and>
    length (st_source st) = nodes (st_tree st) \<and> distinct (st_source st) \<and> st_source st ! 0 = 0 \<and>
    (\<forall>r < nodes (st_tree st). st_source st ! r < length lat \<and> dn_depth (lat ! (st_source st ! r)) \<le> max_depth \<and>
       tt_tokens (st_tree st) ! r = dn_token (lat ! (st_source st ! r)) \<and>
       (r \<noteq> 0 \<longrightarrow> dn_parent (lat ! (st_source st ! r)) = Some (st_source st ! nat (tt_parent (st_tree st) ! r)))) \<and>
    (\<forall>i \<in> set (st_source st). \<forall>j < length lat. dn_depth (lat ! j) \<le> max_depth \<and> j \<notin> set (st_source st) \<longrightarrow> ranks_before lat i j)"
proof -
  have "lattice_scores reached (lattice_new zero anchor)" using falls(2) by (simp add: lattice_scores_def lattice_new_def)
  then have ok: "lattice_ok lat" unfolding lat by (rule lattice_ok_grow [OF falls(1) lattice_ok_new])
  define eligible where "eligible = filter (\<lambda>i. dn_depth (lat ! i) \<le> max_depth) [0..<length lat]"
  define selected where "selected = take max_nodes (rank_sort lat eligible)"
  define rows where "rows = sort_key (\<lambda>i. (dn_depth (lat ! i), i)) selected"
  note sel = selection_law [OF ok k eligible_def selected_def]
  have sub: "set selected \<subseteq> {..<length lat}" using sel(3) by (auto simp: eligible_def)
  note lay = layout_rows [OF ok small sel(2) sub sel(1) sel(5) rows_def]
  have chk: "check_closed lat selected selected = Ok ()" by (rule check_closed_Ok) (use sel(5) in blast)
  let ?ns = "map ((!) lat) rows"
  let ?t = "\<lparr>tt_tokens = map dn_token ?ns, tt_parent = map (row_parent lat rows) rows, tt_depth = map dn_depth ?ns\<rparr>"
  have run: "rerank_connected max_nodes max_depth lat = Ok \<lparr>st_tree = ?t, st_scores = map dn_score ?ns, st_source = rows\<rparr>"
    using k sel(1) chk lay(6)
    by (simp add: rerank_connected_def Let_def eligible_def [symmetric] selected_def [symmetric] rows_def [symmetric])
  have "row_parent lat rows 0 = -1" using ok by (simp add: row_parent_def lattice_ok_def)
  moreover have "rows \<noteq> []" using sel(1) lay(4) by auto
  moreover have "length rows \<le> 2 ^ 31" using lay(5) small by linarith
  ultimately have tok: "tree_ok ?t" using lay(1,7) ok by (intro tree_ok_layout [OF refl]) blast+
  have n: "nodes ?t = length rows" by (simp add: nodes_def)
  have el: "i < length lat \<and> dn_depth (lat ! i) \<le> max_depth" if "i \<in> set rows" for i
    using that lay(4) sel(3) by (auto simp: eligible_def)
  have par: "dn_parent (lat ! (rows ! r)) = Some (rows ! nat (tt_parent ?t ! r))" if "r < length rows" "r \<noteq> 0" for r
    using lay(7) [OF that] that by auto
  have best: "ranks_before lat i j" if "i \<in> set rows" "j < length lat" "dn_depth (lat ! j) \<le> max_depth" "j \<notin> set rows" for i j
    using sel(6) that lay(4) by (auto simp: eligible_def)
  have len: "length rows = min max_nodes (length eligible)" using lay(2) sel(4) by simp
  show ?thesis
    by (rule exI [of _ "\<lparr>st_tree = ?t, st_scores = map dn_score ?ns, st_source = rows\<rparr>"])
      (use run tok n el par best len lay(1,3) in \<open>simp add: eligible_def\<close>)
qed


text \<open>A small arithmetic with the two zeros of floating-point numbers: 0 stands for \<open>+0.0\<close>, -1 for \<open>-0.0\<close> and
  what is below for the negative numbers, in the order of \<open>total_cmp\<close>.\<close>

definition demo_add :: "int \<Rightarrow> int \<Rightarrow> int" where
  "demo_add s q =
     (if -1 \<le> q then (if -1 \<le> s then (if s = -1 \<and> q = -1 then -1 else 0) else s)
      else if -1 \<le> s then q else s + q)"

definition demo_reached :: "int \<Rightarrow> bool" where
  "demo_reached s \<longleftrightarrow> s = 0 \<or> s \<le> -2"

lemma demo_falls: "scores_fall demo_reached demo_add (\<lambda>q. q \<le> 0)" "demo_reached 0"
  by (auto simp: scores_fall_def demo_reached_def demo_add_def)

definition demo_steps :: "(usize \<times> int draft_candidate list) list" where
  "demo_steps =
     [(0, [\<lparr>dc_token = 11, dc_log_probability = -2\<rparr>, \<lparr>dc_token = 12, dc_log_probability = -4\<rparr>]),
      (1, [\<lparr>dc_token = 13, dc_log_probability = -1\<rparr>, \<lparr>dc_token = 14, dc_log_probability = -5\<rparr>])]"

theorem rerank_connected_complete_witness:
  "\<exists>st. rerank_connected 3 4 (grow demo_add (\<lambda>q. q \<le> 0) (\<lambda>_. False) demo_steps (lattice_new 0 10)) = Ok st \<and>
    tree_ok (st_tree st) \<and> st_source st = [0, 1, 3] \<and> tt_tokens (st_tree st) = [10, 11, 13]"
proof -
  let ?lat = "grow demo_add (\<lambda>q. q \<le> 0) (\<lambda>_. False) demo_steps (lattice_new 0 10)"
  have "length ?lat = 5" by code_simp
  then have small: "length ?lat \<le> 2 ^ 31" by simp
  have src: "(case rerank_connected 3 4 ?lat of Ok st \<Rightarrow> st_source st = [0, 1, 3] \<and> tt_tokens (st_tree st) = [10, 11, 13] | _ \<Rightarrow> False)"
    by code_simp
  from rerank_connected_complete [where max_nodes = 3 and max_depth = 4, OF demo_falls refl small]
  obtain st where "rerank_connected 3 4 ?lat = Ok st" "tree_ok (st_tree st)" by auto
  with src show ?thesis by auto
qed

end
