(* ===== verification/Ngram_Index.thy ===== *)
theory Ngram_Index
  imports Prelude "HOL-Library.Sublist"
begin

text \<open>
  Prompt-lookup drafting (\<open>src/src/inference/speculative.rs\<close>, \<open>NGramDrafter\<close> and its bounded index):
  the drafter proposes the tokens that followed an earlier occurrence of a suffix of the history.
  The index is kept incrementally, is bounded, and is keyed by an FNV-1a hash of the n-gram.

  The reference is the scan of the whole history that the source's tests use. The theorems: the
  index is a function of the last history alone, whatever was drafted from before; as long as
  the index has room for every n-gram of the history the indexed draft equals the scan, collisions of the hash included; a
  bounded index that has evicted records can return another continuation than the scan.
\<close>

section \<open>Hashing\<close>

definition to_le_bytes :: "u32 \<Rightarrow> u64 list" where
  "to_le_bytes w = map (\<lambda>k. ucast (take_bit 8 (drop_bit (8 * k) w))) [0, 1, 2, 3]"

definition hash_ngram :: "u32 list \<Rightarrow> u64" where
  "hash_ngram tokens =
     foldl (\<lambda>hash byte. xor hash byte * 0x100000001b3) 0xcbf29ce484222325 (concat (map to_le_bytes tokens))"

section \<open>The index\<close>

record ngram_key =
  nk_len :: usize
  nk_hash :: u64

record ngram_index =
  ni_history :: "u32 list"
  ni_occurrences :: "ngram_key \<rightharpoonup> usize list"
  ni_insertion_order :: "(ngram_key \<times> usize) list"
  ni_max_entries :: usize
  ni_min_ngram :: usize
  ni_max_ngram :: usize
  ni_rebuilds :: nat
  ni_appended_tokens :: nat

definition index_new :: "usize \<Rightarrow> usize \<Rightarrow> usize \<Rightarrow> ngram_index" where
  "index_new min_ngram max_ngram max_entries =
     \<lparr>ni_history = [], ni_occurrences = (\<lambda>_. None), ni_insertion_order = [], ni_max_entries = max max_entries 1,
      ni_min_ngram = min_ngram, ni_max_ngram = max_ngram, ni_rebuilds = 0, ni_appended_tokens = 0\<rparr>"

definition slice_of :: "nat \<Rightarrow> nat \<Rightarrow> 'a list \<Rightarrow> 'a list" where
  "slice_of a b xs = take (b - a) (drop a xs)"

definition ngram_key_of :: "u32 list \<Rightarrow> ngram_key" where
  "ngram_key_of tokens = \<lparr>nk_len = length tokens, nk_hash = hash_ngram tokens\<rparr>"

text \<open>\<open>occurrences.entry(key).or_default().push_back(start)\<close> and the record of the insertion.\<close>

definition push_record :: "ngram_key \<Rightarrow> usize \<Rightarrow> ngram_index \<Rightarrow> ngram_index" where
  "push_record key start idx =
     idx\<lparr>ni_occurrences := (ni_occurrences idx)(key \<mapsto>
           (case ni_occurrences idx key of None \<Rightarrow> [] | Some starts \<Rightarrow> starts) @ [start]),
         ni_insertion_order := ni_insertion_order idx @ [(key, start)]\<rparr>"

text \<open>One round of the eviction loop.\<close>

definition pop_record :: "ngram_index \<Rightarrow> ngram_index" where
  "pop_record idx =
     (case ni_insertion_order idx of
        [] \<Rightarrow> idx
      | (key, start) # order \<Rightarrow>
          let occ = ni_occurrences idx;
              occ' = (case occ key of
                        None \<Rightarrow> occ
                      | Some starts \<Rightarrow>
                          let starts' = (if starts \<noteq> [] \<and> hd starts = start then tl starts else remove1 start starts)
                          in if starts' = [] then occ(key := None) else occ(key \<mapsto> starts'))
          in idx\<lparr>ni_occurrences := occ', ni_insertion_order := order\<rparr>)"

function trim :: "ngram_index \<Rightarrow> ngram_index" where
  "trim idx = (if ni_max_entries idx < length (ni_insertion_order idx) then trim (pop_record idx) else idx)"
  by pat_completeness auto
termination
  by (relation "measure (\<lambda>idx. length (ni_insertion_order idx))")
    (auto simp: pop_record_def Let_def split: list.splits prod.splits)

declare trim.simps [simp del]

definition index_new_tail :: "ngram_index \<Rightarrow> ngram_index" where
  "index_new_tail idx =
     (let h = ni_history idx; end_pos = length h
      in trim (foldl (\<lambda>ix len. push_record (ngram_key_of (slice_of (end_pos - len) end_pos h)) (end_pos - len) ix) idx
           [ni_min_ngram idx..<Suc (min (ni_max_ngram idx) end_pos)]))"

definition push_token :: "ngram_index \<Rightarrow> u32 \<Rightarrow> ngram_index" where
  "push_token idx token = index_new_tail (idx\<lparr>ni_history := ni_history idx @ [token]\<rparr>)"

definition sync :: "u32 list \<Rightarrow> ngram_index \<Rightarrow> ngram_index" where
  "sync history idx =
     (let append_only = (length (ni_history idx) \<le> length history \<and> prefix (ni_history idx) history);
          idx1 = (if append_only then idx
                  else idx\<lparr>ni_history := [], ni_occurrences := (\<lambda>_. None), ni_insertion_order := [],
                           ni_rebuilds := sat_add_us (ni_rebuilds idx) 1\<rparr>);
          old_len = length (ni_history idx1);
          idx2 = foldl push_token idx1 (drop old_len history)
      in idx2\<lparr>ni_appended_tokens := sat_add_us (ni_appended_tokens idx2) (length history - old_len)\<rparr>)"

text \<open>\<open>draft\<close>: the search goes through the lengths from the longest down, and for each through the
  starts from the latest back. A start below \<open>suffix_start\<close> keeps every slice within the history. The
  end of the continuation is an unchecked sum: when it overflows, a debug build panics there and a
  release build, in which it wraps, panics at the slice, whose end is then before its start.\<close>

definition draft_at :: "u32 list \<Rightarrow> nat \<Rightarrow> nat \<Rightarrow> nat \<Rightarrow> (u32 list, unit) outcome" where
  "draft_at h max_tokens n start =
     (case checked_add_us (start + n) max_tokens of
        None \<Rightarrow> Panic
      | Some end_sum \<Rightarrow> Ok (slice_of (start + n) (min end_sum (length h)) h))"

definition usable :: "u32 list \<Rightarrow> nat \<Rightarrow> nat \<Rightarrow> bool" where
  "usable h n start \<longleftrightarrow>
     \<not> (length h - n \<le> start \<or> slice_of start (start + n) h \<noteq> drop (length h - n) h \<or> length h \<le> start + n)"

fun draft_lengths :: "ngram_index \<Rightarrow> nat \<Rightarrow> nat list \<Rightarrow> (u32 list, unit) outcome" where
  "draft_lengths idx max_tokens [] = Ok []"
| "draft_lengths idx max_tokens (n # ns) =
     (let h = ni_history idx in
      case ni_occurrences idx (ngram_key_of (drop (length h - n) h)) of
        None \<Rightarrow> draft_lengths idx max_tokens ns
      | Some starts \<Rightarrow>
          (case List.find (usable h n) (rev starts) of
             None \<Rightarrow> draft_lengths idx max_tokens ns
           | Some start \<Rightarrow> draft_at h max_tokens n start))"

definition index_draft :: "nat \<Rightarrow> ngram_index \<Rightarrow> (u32 list, unit) outcome" where
  "index_draft max_tokens idx =
     draft_lengths idx max_tokens
       (rev [ni_min_ngram idx..<Suc (min (ni_max_ngram idx) (length (ni_history idx) - 1))])"

record ngram_stats =
  indexed_tokens :: usize
  records :: usize
  stat_rebuilds :: nat
  appended_tokens :: nat

definition index_stats :: "ngram_index \<Rightarrow> ngram_stats" where
  "index_stats idx =
     \<lparr>indexed_tokens = length (ni_history idx), records = length (ni_insertion_order idx),
      stat_rebuilds = ni_rebuilds idx, appended_tokens = ni_appended_tokens idx\<rparr>"

section \<open>The drafter\<close>

record ngram_drafter =
  nd_min_ngram :: usize
  nd_max_ngram :: usize
  nd_index :: ngram_index

definition drafter_new :: "usize \<Rightarrow> usize \<Rightarrow> usize \<Rightarrow> ngram_drafter" where
  "drafter_new min_ngram max_ngram max_entries =
     (let mn = max min_ngram 1; mx = max max_ngram mn
      in \<lparr>nd_min_ngram = mn, nd_max_ngram = mx, nd_index = index_new mn mx max_entries\<rparr>)"

definition ngram_draft :: "u32 list \<Rightarrow> nat \<Rightarrow> ngram_drafter \<Rightarrow> (u32 list, unit) outcome \<times> ngram_drafter" where
  "ngram_draft history max_tokens d =
     (if max_tokens = 0 \<or> nd_min_ngram d = 0 \<or> length history \<le> nd_min_ngram d then (Ok [], d)
      else
        let idx = sync history (nd_index d)
        in (index_draft max_tokens idx, d\<lparr>nd_index := idx\<rparr>))"

section \<open>The reference scan\<close>

text \<open>\<open>reference_ngram_draft\<close> of the source's tests.\<close>

fun scan_lengths :: "u32 list \<Rightarrow> nat \<Rightarrow> nat list \<Rightarrow> (u32 list, unit) outcome" where
  "scan_lengths h max_tokens [] = Ok []"
| "scan_lengths h max_tokens (n # ns) =
     (case List.find (\<lambda>start. slice_of start (start + n) h = drop (length h - n) h) (rev [0..<length h - n]) of
        None \<Rightarrow> scan_lengths h max_tokens ns
      | Some start \<Rightarrow>
          (case checked_add_us (start + n) max_tokens of
             None \<Rightarrow> Panic
           | Some end_sum \<Rightarrow>
               if start + n < min end_sum (length h) then Ok (slice_of (start + n) (min end_sum (length h)) h)
               else scan_lengths h max_tokens ns))"

definition reference_ngram_draft :: "u32 list \<Rightarrow> usize \<Rightarrow> usize \<Rightarrow> nat \<Rightarrow> (u32 list, unit) outcome" where
  "reference_ngram_draft h min_ngram max_ngram max_tokens =
     (if max_tokens = 0 \<or> length h \<le> min_ngram then Ok []
      else scan_lengths h max_tokens (rev [min_ngram..<Suc (min max_ngram (length h - 1))]))"

section \<open>The index as a function of the history\<close>

text \<open>All records of a history, in the order of insertion.\<close>

definition records_at :: "u32 list \<Rightarrow> usize \<Rightarrow> usize \<Rightarrow> nat \<Rightarrow> (ngram_key \<times> usize) list" where
  "records_at h mn mx e = map (\<lambda>len. (ngram_key_of (slice_of (e - len) e h), e - len)) [mn..<Suc (min mx e)]"

definition all_records :: "u32 list \<Rightarrow> usize \<Rightarrow> usize \<Rightarrow> (ngram_key \<times> usize) list" where
  "all_records h mn mx = concat (map (records_at h mn mx) [1..<Suc (length h)])"

definition last_n :: "nat \<Rightarrow> 'a list \<Rightarrow> 'a list" where
  "last_n k xs = drop (length xs - k) xs"

definition starts_of :: "(ngram_key \<times> usize) list \<Rightarrow> ngram_key \<Rightarrow> usize list" where
  "starts_of order key = map snd (filter (\<lambda>r. fst r = key) order)"

definition occ_of :: "(ngram_key \<times> usize) list \<Rightarrow> (ngram_key \<rightharpoonup> usize list)" where
  "occ_of order = (\<lambda>key. if starts_of order key = [] then None else Some (starts_of order key))"

definition index_inv :: "ngram_index \<Rightarrow> bool" where
  "index_inv idx \<longleftrightarrow> 0 < ni_max_entries idx \<and> ni_occurrences idx = occ_of (ni_insertion_order idx) \<and>
     ni_insertion_order idx = last_n (ni_max_entries idx) (all_records (ni_history idx) (ni_min_ngram idx) (ni_max_ngram idx))"

lemma push_record_occ:
  assumes "ni_occurrences idx = occ_of (ni_insertion_order idx)"
  shows "ni_occurrences (push_record key start idx) = occ_of (ni_insertion_order (push_record key start idx))"
  using assms by (auto simp: push_record_def occ_of_def starts_of_def fun_eq_iff split: option.splits)

lemma pop_record_occ:
  assumes "ni_occurrences idx = occ_of (ni_insertion_order idx)"
  shows "ni_occurrences (pop_record idx) = occ_of (ni_insertion_order (pop_record idx))"
  using assms by (auto simp: pop_record_def occ_of_def starts_of_def fun_eq_iff Let_def split: list.splits prod.splits)

lemma pop_record_fields [simp]:
  "ni_insertion_order (pop_record idx) = tl (ni_insertion_order idx)" "ni_history (pop_record idx) = ni_history idx"
  "ni_max_entries (pop_record idx) = ni_max_entries idx" "ni_min_ngram (pop_record idx) = ni_min_ngram idx"
  "ni_max_ngram (pop_record idx) = ni_max_ngram idx"
  by (auto simp: pop_record_def Let_def split: list.splits prod.splits)

lemma push_record_fields [simp]:
  "ni_insertion_order (push_record k s idx) = ni_insertion_order idx @ [(k, s)]" "ni_history (push_record k s idx) = ni_history idx"
  "ni_max_entries (push_record k s idx) = ni_max_entries idx" "ni_min_ngram (push_record k s idx) = ni_min_ngram idx"
  "ni_max_ngram (push_record k s idx) = ni_max_ngram idx"
  by (simp_all add: push_record_def)

lemma trim_law:
  "ni_occurrences idx = occ_of (ni_insertion_order idx) \<Longrightarrow>
    ni_occurrences (trim idx) = occ_of (ni_insertion_order (trim idx)) \<and>
    ni_insertion_order (trim idx) = last_n (ni_max_entries idx) (ni_insertion_order idx) \<and>
    ni_history (trim idx) = ni_history idx \<and> ni_max_entries (trim idx) = ni_max_entries idx \<and>
    ni_min_ngram (trim idx) = ni_min_ngram idx \<and> ni_max_ngram (trim idx) = ni_max_ngram idx"
proof (induction idx rule: trim.induct)
  case (1 idx)
  show ?case
  proof (cases "ni_max_entries idx < length (ni_insertion_order idx)")
    case True
    have "last_n (ni_max_entries idx) (tl (ni_insertion_order idx)) = last_n (ni_max_entries idx) (ni_insertion_order idx)"
      using True by (simp add: last_n_def drop_Suc [symmetric] Suc_diff_Suc)
    with "1.IH" [OF True pop_record_occ [OF "1.prems"]] True show ?thesis by (subst (1 2 3 4 5 6 7) trim.simps) simp
  next
    case False
    with "1.prems" show ?thesis by (simp add: trim.simps [of idx] last_n_def)
  qed
qed

lemma push_records_law:
  "ni_occurrences idx = occ_of (ni_insertion_order idx) \<Longrightarrow>
    (let ix = foldl (\<lambda>ix len. push_record (k len) (s len) ix) idx lens in
     ni_occurrences ix = occ_of (ni_insertion_order ix) \<and>
     ni_insertion_order ix = ni_insertion_order idx @ map (\<lambda>len. (k len, s len)) lens \<and>
     ni_history ix = ni_history idx \<and> ni_max_entries ix = ni_max_entries idx \<and>
     ni_min_ngram ix = ni_min_ngram idx \<and> ni_max_ngram ix = ni_max_ngram idx)"
  by (induction lens arbitrary: idx) (auto simp: Let_def push_record_occ)

lemma last_n_last_n_append: "last_n k (last_n k xs @ ys) = last_n k (xs @ ys)"
  by (cases "k \<le> length xs") (auto simp: last_n_def add.commute)

lemma all_records_snoc: "all_records (h @ [x]) mn mx = all_records h mn mx @ records_at (h @ [x]) mn mx (length h + 1)"
proof -
  have "records_at (h @ [x]) mn mx e = records_at h mn mx e" if "e \<le> length h" for e
    using that by (auto simp: records_at_def slice_of_def)
  then have "map (records_at (h @ [x]) mn mx) [1..<Suc (length h)] = map (records_at h mn mx) [1..<Suc (length h)]" by auto
  moreover have "[1..<Suc (Suc (length h))] = [1..<Suc (length h)] @ [Suc (length h)]" by (rule upt_Suc_append) simp
  ultimately show ?thesis by (simp only: all_records_def map_append concat_append length_append_singleton) simp
qed

lemma push_token_inv:
  assumes "index_inv idx"
  shows "index_inv (push_token idx x) \<and> ni_history (push_token idx x) = ni_history idx @ [x] \<and>
    ni_max_entries (push_token idx x) = ni_max_entries idx \<and> ni_min_ngram (push_token idx x) = ni_min_ngram idx \<and>
    ni_max_ngram (push_token idx x) = ni_max_ngram idx"
proof -
  let ?i = "idx\<lparr>ni_history := ni_history idx @ [x]\<rparr>" and ?e = "length (ni_history idx) + 1"
  let ?ix = "foldl (\<lambda>ix len. push_record (ngram_key_of (slice_of (?e - len) ?e (ni_history ?i))) (?e - len) ix) ?i
      [ni_min_ngram idx..<Suc (min (ni_max_ngram idx) ?e)]"
  have run: "push_token idx x = trim ?ix" by (simp add: push_token_def index_new_tail_def Let_def)
  have "ni_occurrences ?i = occ_of (ni_insertion_order ?i)" using assms by (simp add: index_inv_def)
  note p = push_records_law [OF this, where k = "\<lambda>len. ngram_key_of (slice_of (?e - len) ?e (ni_history ?i))" and s = "\<lambda>len. ?e - len"
      and lens = "[ni_min_ngram idx..<Suc (min (ni_max_ngram idx) ?e)]", unfolded Let_def]
  have "ni_insertion_order ?ix = ni_insertion_order idx @ records_at (ni_history idx @ [x]) (ni_min_ngram idx) (ni_max_ngram idx) ?e"
    using p by (simp add: records_at_def)
  then have "last_n (ni_max_entries idx) (ni_insertion_order ?ix) =
      last_n (ni_max_entries idx) (all_records (ni_history idx @ [x]) (ni_min_ngram idx) (ni_max_ngram idx))"
    using assms unfolding all_records_snoc by (simp add: index_inv_def last_n_last_n_append)
  with trim_law [of ?ix] p assms show ?thesis unfolding run index_inv_def by simp
qed

lemma push_tokens_inv:
  "index_inv idx \<Longrightarrow> index_inv (foldl push_token idx xs) \<and> ni_history (foldl push_token idx xs) = ni_history idx @ xs \<and>
    ni_max_entries (foldl push_token idx xs) = ni_max_entries idx \<and> ni_min_ngram (foldl push_token idx xs) = ni_min_ngram idx \<and>
    ni_max_ngram (foldl push_token idx xs) = ni_max_ngram idx"
proof (induction xs arbitrary: idx)
  case (Cons x xs)
  with push_token_inv [OF Cons.prems, of x] show ?case by simp
qed simp

lemma sync_inv:
  assumes "index_inv idx"
  shows "index_inv (sync h idx) \<and> ni_history (sync h idx) = h \<and> ni_max_entries (sync h idx) = ni_max_entries idx \<and>
    ni_min_ngram (sync h idx) = ni_min_ngram idx \<and> ni_max_ngram (sync h idx) = ni_max_ngram idx"
proof -
  define start where "start = (if length (ni_history idx) \<le> length h \<and> prefix (ni_history idx) h then idx
      else idx\<lparr>ni_history := [], ni_occurrences := (\<lambda>_. None), ni_insertion_order := [], ni_rebuilds := sat_add_us (ni_rebuilds idx) 1\<rparr>)"
  have inv: "index_inv start" using assms
    by (auto simp: start_def index_inv_def occ_of_def starts_of_def all_records_def last_n_def)
  have pre: "ni_history start @ drop (length (ni_history start)) h = h"
    by (auto simp: start_def elim!: prefixE)
  have same: "ni_max_entries start = ni_max_entries idx" "ni_min_ngram start = ni_min_ngram idx" "ni_max_ngram start = ni_max_ngram idx"
    by (simp_all add: start_def)
  have run: "sync h idx = (let idx2 = foldl push_token start (drop (length (ni_history start)) h)
      in idx2\<lparr>ni_appended_tokens := sat_add_us (ni_appended_tokens idx2) (length h - length (ni_history start))\<rparr>)"
    by (simp add: sync_def start_def Let_def)
  from push_tokens_inv [OF inv, of "drop (length (ni_history start)) h"] pre same show ?thesis
    unfolding run Let_def by (simp add: index_inv_def)
qed

section \<open>The index against scans\<close>

text \<open>A scan without hashes over the records a bounded index holds: \<open>starts n\<close> are the starts of its
  n-grams of length \<open>n\<close>.\<close>

definition all_positions :: "u32 list \<Rightarrow> usize \<Rightarrow> usize \<Rightarrow> (nat \<times> nat) list" where
  "all_positions h mn mx = concat (map (\<lambda>e. map (\<lambda>len. (len, e - len)) [mn..<Suc (min mx e)]) [1..<Suc (length h)])"

definition bounded_starts :: "u32 list \<Rightarrow> usize \<Rightarrow> usize \<Rightarrow> usize \<Rightarrow> nat \<Rightarrow> nat list" where
  "bounded_starts h mn mx cap n = map snd (filter (\<lambda>q. fst q = n) (last_n cap (all_positions h mn mx)))"

fun bounded_lengths :: "(nat \<Rightarrow> nat list) \<Rightarrow> u32 list \<Rightarrow> nat \<Rightarrow> nat list \<Rightarrow> (u32 list, unit) outcome" where
  "bounded_lengths starts h max_tokens [] = Ok []"
| "bounded_lengths starts h max_tokens (n # ns) =
     (case List.find (usable h n) (rev (starts n)) of
        None \<Rightarrow> bounded_lengths starts h max_tokens ns
      | Some start \<Rightarrow> draft_at h max_tokens n start)"

definition bounded_ngram_draft :: "u32 list \<Rightarrow> usize \<Rightarrow> usize \<Rightarrow> usize \<Rightarrow> nat \<Rightarrow> (u32 list, unit) outcome" where
  "bounded_ngram_draft h mn mx cap max_tokens =
     (if max_tokens = 0 \<or> length h \<le> mn then Ok []
      else bounded_lengths (bounded_starts h mn mx cap) h max_tokens (rev [mn..<Suc (min mx (length h - 1))]))"

definition record_of :: "u32 list \<Rightarrow> nat \<times> nat \<Rightarrow> ngram_key \<times> nat" where
  "record_of h q = (ngram_key_of (slice_of (snd q) (snd q + fst q) h), snd q)"

lemma all_records_positions: "all_records h mn mx = map (record_of h) (all_positions h mn mx)"
  unfolding all_records_def all_positions_def map_concat map_map o_def records_at_def
  by (intro arg_cong [of _ _ concat] map_cong refl) (auto simp: record_of_def)

lemma all_positions_bound: "q \<in> set (all_positions h mn mx) \<Longrightarrow> snd q + fst q \<le> length h"
  by (auto simp: all_positions_def simp del: upt_Suc)

lemma last_n_map: "last_n k (map f xs) = map f (last_n k xs)"
  by (simp add: last_n_def drop_map)

lemma last_n_subset: "set (last_n k xs) \<subseteq> set xs"
  by (simp add: last_n_def set_drop_subset)

lemma find_map_snd: "List.find P (map snd qs) = map_option snd (List.find (\<lambda>q. P (snd q)) qs)"
  by (induction qs) auto

lemma find_filter: "\<forall>x \<in> set xs. P x \<longrightarrow> Q x \<Longrightarrow> List.find P (filter Q xs) = List.find P xs"
  by (induction xs) auto

lemma find_SomeD: "List.find P xs = Some x \<Longrightarrow> x \<in> set xs \<and> P x"
  by (induction xs) (auto split: if_splits)

lemma find_cong: "\<forall>x \<in> set xs. P x = Q x \<Longrightarrow> List.find P xs = List.find Q xs"
  by (induction xs) auto

lemma find_usable:
  assumes inv: "index_inv idx" and h: "ni_history idx = h" and n: "n \<le> length h"
  shows "List.find (usable h n) (rev (starts_of (ni_insertion_order idx) (ngram_key_of (drop (length h - n) h)))) =
    List.find (usable h n) (rev (bounded_starts h (ni_min_ngram idx) (ni_max_ngram idx) (ni_max_entries idx) n))"
proof -
  let ?pat = "drop (length h - n) h"
  let ?pos = "last_n (ni_max_entries idx) (all_positions h (ni_min_ngram idx) (ni_max_ngram idx))"
  let ?K = "\<lambda>q. ngram_key_of (slice_of (snd q) (snd q + fst q) h) = ngram_key_of ?pat"
  have order: "ni_insertion_order idx = map (record_of h) ?pos"
    using inv h by (simp add: index_inv_def all_records_positions last_n_map)
  have len: "fst q = n" if "q \<in> set ?pos" "?K q" for q
  proof -
    have "snd q + fst q \<le> length h" using that(1) last_n_subset all_positions_bound by fastforce
    then have "length (slice_of (snd q) (snd q + fst q) h) = fst q" by (simp add: slice_of_def)
    with that(2) n show ?thesis by (simp add: ngram_key_of_def)
  qed
  have "starts_of (ni_insertion_order idx) (ngram_key_of ?pat) = map snd (filter ?K ?pos)"
    unfolding order by (simp add: starts_of_def filter_map o_def record_of_def split_beta)
  also have "filter ?K ?pos = filter ?K (filter (\<lambda>q. fst q = n) ?pos)"
    unfolding filter_filter by (rule filter_cong) (use len in auto)
  finally have "rev (starts_of (ni_insertion_order idx) (ngram_key_of ?pat)) =
      map snd (filter ?K (rev (filter (\<lambda>q. fst q = n) ?pos)))"
    by (simp add: rev_map rev_filter)
  then show ?thesis unfolding bounded_starts_def
    by (simp add: find_map_snd rev_map) (intro arg_cong [of _ _ "map_option snd"] find_filter, auto simp: usable_def)
qed

lemma draft_lengths_bounded:
  assumes inv: "index_inv idx" and h: "ni_history idx = h"
  shows "\<forall>n \<in> set ns. n \<le> length h \<Longrightarrow>
    draft_lengths idx max_tokens ns =
    bounded_lengths (bounded_starts h (ni_min_ngram idx) (ni_max_ngram idx) (ni_max_entries idx)) h max_tokens ns"
proof (induction ns)
  case (Cons n ns)
  then have n: "n \<le> length h" by simp
  let ?key = "ngram_key_of (drop (length h - n) h)"
  have occ: "ni_occurrences idx = occ_of (ni_insertion_order idx)" using inv by (simp add: index_inv_def)
  note f = find_usable [OF inv h n]
  show ?case
  proof (cases "starts_of (ni_insertion_order idx) ?key = []")
    case True
    then have "List.find (usable h n) (rev (bounded_starts h (ni_min_ngram idx) (ni_max_ngram idx) (ni_max_entries idx) n)) = None"
      using f by simp
    with True Cons show ?thesis by (simp add: Let_def h occ occ_of_def)
  next
    case False
    with f Cons show ?thesis by (auto simp: Let_def h occ occ_of_def split: option.splits)
  qed
qed simp

text \<open>When nothing has been dropped the bounded scan is the scan.\<close>

lemma filter_len_upt: "filter (\<lambda>q. fst q = n) (map (\<lambda>len. (len, e - len)) [a..<b]) = (if a \<le> n \<and> n < b then [(n, e - n)] else [])"
  by (induction b) auto

lemma concat_ends:
  assumes "0 < n"
  shows "concat (map (\<lambda>e. if n \<le> e then [e - n] else []) [1..<Suc m]) = [0..<Suc m - n]"
proof (induction m)
  case (Suc m)
  have e: "[1..<Suc (Suc m)] = [1..<Suc m] @ [Suc m]" by (rule upt_Suc_append) simp
  show ?case
  proof (cases "n \<le> Suc m")
    case True
    then have "[0..<Suc (Suc m) - n] = [0..<Suc m - n] @ [Suc m - n]" by (simp add: Suc_diff_le)
    with Suc True show ?thesis unfolding e map_append concat_append by simp
  next
    case False
    with Suc show ?thesis unfolding e map_append concat_append by simp
  qed
qed (use assms in simp)

lemma bounded_starts_all:
  assumes "length (all_positions h mn mx) \<le> cap" "mn \<le> n" "n \<le> mx" "0 < n"
  shows "bounded_starts h mn mx cap n = [0..<Suc (length h) - n]"
proof -
  have "bounded_starts h mn mx cap n = map snd (filter (\<lambda>q. fst q = n) (all_positions h mn mx))"
    using assms(1) by (simp add: bounded_starts_def last_n_def)
  also have "\<dots> = concat (map (\<lambda>e. if n \<le> e then [e - n] else []) [1..<Suc (length h)])"
    unfolding all_positions_def filter_concat map_concat map_map o_def filter_len_upt
    by (intro arg_cong [of _ _ concat] map_cong refl) (use assms in auto)
  finally show ?thesis using concat_ends [OF assms(4)] by simp
qed

lemma bounded_lengths_scan:
  assumes cap: "length (all_positions h mn mx) \<le> cap" and mt: "0 < max_tokens"
  shows "\<forall>n \<in> set ns. 0 < n \<and> n < length h \<and> mn \<le> n \<and> n \<le> mx \<Longrightarrow>
    bounded_lengths (bounded_starts h mn mx cap) h max_tokens ns = scan_lengths h max_tokens ns"
proof (induction ns)
  case (Cons n ns)
  then have n: "0 < n" "n < length h" "mn \<le> n" "n \<le> mx" by auto
  let ?same = "\<lambda>start. slice_of start (start + n) h = drop (length h - n) h"
  have split: "[0..<Suc (length h) - n] = [0..<length h - n] @ [length h - n]" using n(2) by (simp add: Suc_diff_le)
  have "List.find (usable h n) (rev (bounded_starts h mn mx cap n)) = List.find (usable h n) (rev [0..<length h - n])"
    unfolding bounded_starts_all [OF cap n(3,4,1)] split by (simp add: usable_def)
  also have "\<dots> = List.find ?same (rev [0..<length h - n])" by (rule find_cong) (use n(2) in \<open>auto simp: usable_def\<close>)
  finally have f: "List.find (usable h n) (rev (bounded_starts h mn mx cap n)) = List.find ?same (rev [0..<length h - n])" .
  have "start + n < min e (length h)"
    if "List.find ?same (rev [0..<length h - n]) = Some start" "checked_add_us (start + n) max_tokens = Some e" for start e
    using that mt n(2) by (auto dest!: find_SomeD simp: checked_add_us_Some_iff)
  with Cons f show ?case by (auto simp: draft_at_def split: option.splits)
qed simp

lemma bounded_lengths_sound:
  "bounded_lengths starts h max_tokens ns \<noteq> Ok [] \<Longrightarrow>
    \<exists>n \<in> set ns. \<exists>start. usable h n start \<and> bounded_lengths starts h max_tokens ns = draft_at h max_tokens n start"
  by (induction ns) (auto dest: find_SomeD split: option.splits)

text \<open>A draft is short, and without the overflow it is returned.\<close>

lemma draft_at_Ok:
  assumes "start + n < length h" "length h + max_tokens \<le> usize_max"
  shows "draft_at h max_tokens n start = Ok (take max_tokens (drop (start + n) h))"
proof -
  have "checked_add_us (start + n) max_tokens = Some (start + n + max_tokens)"
    using assms by (simp add: checked_add_us_def)
  then show ?thesis by (auto simp: draft_at_def slice_of_def min_def)
qed

lemma draft_lengths_Ok:
  "length (ni_history idx) + max_tokens \<le> usize_max \<Longrightarrow>
    \<exists>drafts. draft_lengths idx max_tokens ns = Ok drafts \<and> length drafts \<le> max_tokens"
proof (induction ns)
  case (Cons n ns)
  have "\<exists>drafts. draft_at (ni_history idx) max_tokens n start = Ok drafts \<and> length drafts \<le> max_tokens"
    if "List.find (usable (ni_history idx) n) xs = Some start" for start xs
    using find_SomeD [OF that] draft_at_Ok [of start n "ni_history idx" max_tokens] Cons.prems by (auto simp: usable_def)
  then show ?case using Cons by (auto simp: Let_def split: option.splits)
qed simp

section \<open>Runs of a drafter\<close>

definition drafter_inv :: "ngram_drafter \<Rightarrow> bool" where
  "drafter_inv d \<longleftrightarrow> index_inv (nd_index d) \<and> 0 < nd_min_ngram d \<and> nd_min_ngram d \<le> nd_max_ngram d \<and>
     ni_min_ngram (nd_index d) = nd_min_ngram d \<and> ni_max_ngram (nd_index d) = nd_max_ngram d"

fun ngram_drafts :: "(u32 list \<times> nat) list \<Rightarrow> ngram_drafter \<Rightarrow> ngram_drafter" where
  "ngram_drafts [] d = d"
| "ngram_drafts ((h, max_tokens) # calls) d = ngram_drafts calls (snd (ngram_draft h max_tokens d))"

lemma drafter_new_inv: "drafter_inv (drafter_new mn mx cap)"
  by (auto simp: drafter_inv_def drafter_new_def index_new_def index_inv_def occ_of_def starts_of_def all_records_def
      last_n_def Let_def)

lemma ngram_draft_inv:
  assumes "drafter_inv d"
  shows "drafter_inv (snd (ngram_draft h mt d)) \<and> nd_min_ngram (snd (ngram_draft h mt d)) = nd_min_ngram d \<and>
    nd_max_ngram (snd (ngram_draft h mt d)) = nd_max_ngram d \<and>
    ni_max_entries (nd_index (snd (ngram_draft h mt d))) = ni_max_entries (nd_index d)"
  using assms sync_inv [of "nd_index d" h] by (simp add: ngram_draft_def drafter_inv_def Let_def)

lemma ngram_draft_Ok:
  assumes "drafter_inv d" "length history + max_tokens \<le> usize_max"
  shows "\<exists>drafts d'. ngram_draft history max_tokens d = (Ok drafts, d') \<and> length drafts \<le> max_tokens"
proof -
  have "ni_history (sync history (nd_index d)) = history" using assms(1) sync_inv by (simp add: drafter_inv_def)
  with draft_lengths_Ok [of "sync history (nd_index d)" max_tokens] assms(2) show ?thesis
    by (auto simp: ngram_draft_def index_draft_def Let_def)
qed

lemma ngram_drafts_inv:
  "drafter_inv d \<Longrightarrow> drafter_inv (ngram_drafts calls d) \<and> nd_min_ngram (ngram_drafts calls d) = nd_min_ngram d \<and>
    nd_max_ngram (ngram_drafts calls d) = nd_max_ngram d \<and>
    ni_max_entries (nd_index (ngram_drafts calls d)) = ni_max_entries (nd_index d)"
proof (induction calls arbitrary: d)
  case (Cons c calls)
  obtain h mt where "c = (h, mt)" by (cases c)
  with ngram_draft_inv [OF Cons.prems, of h mt] Cons.IH [of "snd (ngram_draft h mt d)"] show ?case by simp
qed simp

lemma ngram_draft_bounded:
  assumes "drafter_inv d"
  shows "fst (ngram_draft h max_tokens d) =
    bounded_ngram_draft h (nd_min_ngram d) (nd_max_ngram d) (ni_max_entries (nd_index d)) max_tokens"
proof (cases "max_tokens = 0 \<or> length h \<le> nd_min_ngram d")
  case True
  then show ?thesis by (auto simp: ngram_draft_def bounded_ngram_draft_def)
next
  case False
  let ?i = "sync h (nd_index d)" and ?ns = "rev [nd_min_ngram d..<Suc (min (nd_max_ngram d) (length h - 1))]"
  have i: "index_inv ?i" "ni_history ?i = h" "ni_min_ngram ?i = nd_min_ngram d" "ni_max_ngram ?i = nd_max_ngram d"
    "ni_max_entries ?i = ni_max_entries (nd_index d)"
    using sync_inv [of "nd_index d" h] assms by (auto simp: drafter_inv_def)
  have ns: "\<forall>n \<in> set ?ns. n \<le> length h" by auto
  have "fst (ngram_draft h max_tokens d) = draft_lengths ?i max_tokens ?ns"
    using False assms i by (simp add: ngram_draft_def index_draft_def Let_def drafter_inv_def)
  also have "\<dots> = bounded_ngram_draft h (nd_min_ngram d) (nd_max_ngram d) (ni_max_entries (nd_index d)) max_tokens"
    using False unfolding draft_lengths_bounded [OF i(1,2) ns] i(3-5) by (simp add: bounded_ngram_draft_def)
  finally show ?thesis .
qed

lemma run_fields:
  "nd_min_ngram (ngram_drafts calls (drafter_new mn mx cap)) = max mn 1"
  "nd_max_ngram (ngram_drafts calls (drafter_new mn mx cap)) = max mx (max mn 1)"
  "ni_max_entries (nd_index (ngram_drafts calls (drafter_new mn mx cap))) = max cap 1"
  "drafter_inv (ngram_drafts calls (drafter_new mn mx cap))"
  using ngram_drafts_inv [OF drafter_new_inv, of calls mn mx cap]
  by (simp_all add: drafter_new_def index_new_def Let_def)

lemma bounded_is_reference:
  assumes "length (all_positions h mn mx) \<le> cap" "0 < mn"
  shows "bounded_ngram_draft h mn mx cap max_tokens = reference_ngram_draft h mn mx max_tokens"
proof (cases "max_tokens = 0 \<or> length h \<le> mn")
  case False
  have "bounded_lengths (bounded_starts h mn mx cap) h max_tokens (rev [mn..<Suc (min mx (length h - 1))]) =
      scan_lengths h max_tokens (rev [mn..<Suc (min mx (length h - 1))])"
    by (rule bounded_lengths_scan [OF assms(1)]) (use False assms(2) in auto)
  with False show ?thesis by (simp only: bounded_ngram_draft_def reference_ngram_draft_def if_False)
qed (auto simp: bounded_ngram_draft_def reference_ngram_draft_def)

section \<open>Properties\<close>

text \<open>C31. The incremental, hashed, bounded index is a scan: whatever histories were drafted from
  before (growing, rolled back or unrelated), the proposal depends only on the present history and
  is the one that a scan without hashes over the last \<open>capacity\<close> n-grams finds, collisions of the
  hash included; and when the index has room for all n-grams of the present history (one for each
  position and length within the bounds, \<open>all_positions\<close>) it is the result of the reference scan
  over the whole history. Both panic alike when the end of the continuation overflows.\<close>

theorem ngram_index_matches_scan:
  "fst (ngram_draft h max_tokens (ngram_drafts calls (drafter_new mn mx capacity))) =
     bounded_ngram_draft h (max mn 1) (max mx (max mn 1)) (max capacity 1) max_tokens \<and>
   (length (all_positions h (max mn 1) (max mx (max mn 1))) \<le> max capacity 1 \<longrightarrow>
     fst (ngram_draft h max_tokens (ngram_drafts calls (drafter_new mn mx capacity))) =
     reference_ngram_draft h (max mn 1) (max mx (max mn 1)) max_tokens)"
proof -
  have eq: "fst (ngram_draft h max_tokens (ngram_drafts calls (drafter_new mn mx capacity))) =
     bounded_ngram_draft h (max mn 1) (max mx (max mn 1)) (max capacity 1) max_tokens"
    by (simp only: ngram_draft_bounded [OF run_fields(4)] run_fields(1-3))
  have "bounded_ngram_draft h (max mn 1) (max mx (max mn 1)) (max capacity 1) max_tokens =
      reference_ngram_draft h (max mn 1) (max mx (max mn 1)) max_tokens"
    if "length (all_positions h (max mn 1) (max mx (max mn 1))) \<le> max capacity 1"
    by (rule bounded_is_reference [OF that]) simp
  with eq show ?thesis by simp
qed

theorem ngram_index_matches_scan_witness:
  "fst (ngram_draft [1, 2, 3, 9, 1, 2] 2 (ngram_drafts [([7, 7, 7, 7], 3), ([1, 2, 3], 1)] (drafter_new 2 3 9))) = Ok [3, 9]"
proof -
  have "reference_ngram_draft [1, 2, 3, 9, 1, 2] 2 3 2 = Ok [3, 9]" "length (all_positions [1, 2, 3, 9, 1, 2] 2 3) = 9"
    by code_simp+
  moreover have "max 2 1 = (2::nat)" "max 3 (2::nat) = 3" "max 9 1 = (9::nat)" by simp_all
  ultimately show ?thesis
    using conjunct2 [OF ngram_index_matches_scan [of "[1, 2, 3, 9, 1, 2]" 2 "[([7, 7, 7, 7], 3), ([1, 2, 3], 1)]" 2 3 9]]
    by (simp only:)
qed

text \<open>At any capacity a proposal is a real continuation: if the drafter proposes anything, then
  some suffix of the history, of a length between the two bounds, occurs earlier in the history,
  and the proposal is what followed there, at most \<open>max_tokens\<close> long.\<close>

theorem ngram_draft_sound:
  assumes "fst (ngram_draft h max_tokens (ngram_drafts calls (drafter_new mn mx capacity))) \<noteq> Ok []"
    and "length h + max_tokens \<le> usize_max"
  shows "\<exists>n start. max mn 1 \<le> n \<and> n \<le> max mx (max mn 1) \<and> start + n < length h \<and>
    take n (drop start h) = drop (length h - n) h \<and>
    fst (ngram_draft h max_tokens (ngram_drafts calls (drafter_new mn mx capacity))) = Ok (take max_tokens (drop (start + n) h))"
proof -
  let ?mn = "max mn 1" and ?mx = "max mx (max mn 1)"
  have eq: "fst (ngram_draft h max_tokens (ngram_drafts calls (drafter_new mn mx capacity))) =
     bounded_ngram_draft h ?mn ?mx (max capacity 1) max_tokens"
    by (simp only: ngram_draft_bounded [OF run_fields(4)] run_fields(1-3))
  from assms(1) obtain n start where n: "?mn \<le> n" "n \<le> ?mx" "usable h n start"
      "bounded_ngram_draft h ?mn ?mx (max capacity 1) max_tokens = draft_at h max_tokens n start"
    unfolding eq bounded_ngram_draft_def
    using bounded_lengths_sound [of "bounded_starts h ?mn ?mx (max capacity 1)" h max_tokens "rev [?mn..<Suc (min ?mx (length h - 1))]"]
    by (auto split: if_splits simp del: upt_Suc)
  have "draft_at h max_tokens n start = Ok (take max_tokens (drop (start + n) h))"
    using n(3) by (intro draft_at_Ok assms(2)) (simp add: usable_def)
  moreover have "start + n < length h" "take n (drop start h) = drop (length h - n) h"
    using n(3) by (auto simp: usable_def slice_of_def)
  ultimately show ?thesis unfolding eq n(4) using n(1,2) by blast
qed

theorem ngram_draft_sound_witness:
  "\<exists>n start. 2 \<le> n \<and> n \<le> 3 \<and> start + n < 6 \<and>
    fst (ngram_draft [1, 2, 3, 9, 1, 2] 2 (ngram_drafts [] (drafter_new 2 3 9))) = Ok (take 2 (drop (start + n) [1, 2, 3, 9, 1, 2]))"
proof -
  have "bounded_ngram_draft [1, 2, 3, 9, 1, 2] 2 3 9 2 \<noteq> Ok []" by code_simp
  then have "fst (ngram_draft [1, 2, 3, 9, 1, 2] 2 (ngram_drafts [] (drafter_new 2 3 9))) \<noteq> Ok []"
    by (simp only: ngram_draft_bounded [OF run_fields(4)] run_fields(1-3)) (simp add: max_def)
  from ngram_draft_sound [OF this] have "\<exists>n start. max 2 1 \<le> n \<and> n \<le> max 3 (max 2 1) \<and> start + n < length [1, 2, 3, 9, 1, 2 :: u32] \<and>
      fst (ngram_draft [1, 2, 3, 9, 1, 2] 2 (ngram_drafts [] (drafter_new 2 3 9))) = Ok (take 2 (drop (start + n) [1, 2, 3, 9, 1, 2]))"
    by (simp add: usize_max_def) blast
  then obtain n start where
    n: "max 2 1 \<le> n" "n \<le> max 3 (max 2 1)" "start + n < length [1, 2, 3, 9, 1, 2 :: u32]"
      "fst (ngram_draft [1, 2, 3, 9, 1, 2] 2 (ngram_drafts [] (drafter_new 2 3 9))) = Ok (take 2 (drop (start + n) [1, 2, 3, 9, 1, 2]))"
    by blast
  moreover from n(1-3) have "2 \<le> n" "n \<le> 3" "start + n < 6" by simp_all
  ultimately show ?thesis by blast
qed

text \<open>C32. A bounded index that has evicted records is not a restriction of the scan: it can return the
  continuation of a shorter match although a longer one occurs in the history. With room for
  twelve records, the scan continues the last three tokens with 4, the index with 5.\<close>

theorem bounded_index_differs_from_scan:
  "let h = [1, 2, 3, 4, 9, 2, 3, 5, 1, 2, 3] in
   reference_ngram_draft h 2 3 1 = Ok [4] \<and> fst (ngram_draft h 1 (drafter_new 2 3 12)) = Ok [5]"
proof -
  let ?h = "[1, 2, 3, 4, 9, 2, 3, 5, 1, 2, 3] :: u32 list"
  have r: "reference_ngram_draft ?h 2 3 1 = Ok [4]" and b: "bounded_ngram_draft ?h 2 3 12 1 = Ok [5]" by code_simp+
  have "fst (ngram_draft ?h 1 (ngram_drafts [] (drafter_new 2 3 12))) = bounded_ngram_draft ?h 2 3 12 1"
    unfolding ngram_draft_bounded [OF run_fields(4)] run_fields(1-3) by (simp add: max_def)
  with r b show ?thesis by (simp add: Let_def)
qed

end
