(* ===== verification/Drafters.thy ===== *)
theory Drafters
  imports Spec_Tree Ngram_Index
begin

text \<open>
  The model-free tree drafters: the adapter of the n-gram drafter (\<open>src/src/inference/spec_tree.rs\<close>),
  suffix decoding (\<open>src/src/inference/suffix_decoding.rs\<close>) and token recycling
  (\<open>src/src/inference/token_recycling.rs\<close>).

  Every drafter returns a well-formed tree within its budgets (\<open>drafted\<close>), and each edge of the tree is
  a continuation the drafter has seen (\<open>edges_ok\<close>). Hash maps are association lists where the source
  iterates over them, and maps where it only looks up.
\<close>

section \<open>Growing a tree\<close>

text \<open>Three pushes onto the vectors of a tree.\<close>

definition push_node :: "usize \<Rightarrow> u32 \<Rightarrow> nat \<Rightarrow> token_tree \<Rightarrow> token_tree" where
  "push_node p tok d t =
     t\<lparr>tt_tokens := tt_tokens t @ [tok], tt_parent := tt_parent t @ [as_i32 p], tt_depth := tt_depth t @ [d]\<rparr>"

text \<open>The loop that attaches the chosen successors below a node, with the new nodes.\<close>

fun attach :: "usize \<Rightarrow> nat \<Rightarrow> usize \<Rightarrow> u32 list \<Rightarrow> token_tree \<Rightarrow> token_tree \<times> usize list" where
  "attach node ndepth max_nodes [] t = (t, [])"
| "attach node ndepth max_nodes (tok # toks) t =
     (if max_nodes \<le> nodes t then (t, [])
      else
        let (t', cs) = attach node ndepth max_nodes toks (push_node node tok (as_u16 (ndepth + 1)) t)
        in (t', nodes t # cs))"

lemma nodes_push [simp]: "nodes (push_node p tok d t) = Suc (nodes t)"
  by (simp add: push_node_def nodes_def)

lemma attach_count: "attach node d mx toks t = (t', cs) \<Longrightarrow> nodes t' = nodes t + length cs \<and> nodes t' \<le> max mx (nodes t)"
proof (induction toks arbitrary: t cs)
  case (Cons tok toks)
  then show ?case by (fastforce simp: Let_def split: if_splits prod.splits)
qed simp

section \<open>Suffix decoding\<close>

record suffix_drafter =
  sd_max_match :: usize
  sd_min_match :: usize
  sd_window :: usize
  sd_branch :: usize

definition suffix_default :: suffix_drafter where
  "suffix_default = \<lparr>sd_max_match = 4, sd_min_match = 2, sd_window = 512, sd_branch = 2\<rparr>"

definition suffix_for_chain :: suffix_drafter where
  "suffix_for_chain = \<lparr>sd_max_match = 32, sd_min_match = 3, sd_window = 8192, sd_branch = 1\<rparr>"

text \<open>The length-\<open>n\<close> suffix of \<open>hist @ path\<close>.\<close>

definition build_pattern :: "u32 list \<Rightarrow> u32 list \<Rightarrow> nat \<Rightarrow> u32 list" where
  "build_pattern hist path n =
     (if length hist + length path < n then []
      else if n \<le> length path then drop (length path - n) path
      else drop (length hist - (n - length path)) hist @ path)"

text \<open>Counts per token, in the order of the map's iteration; counts are 32 bits and wrap.\<close>

type_synonym freqs = "(u32 \<times> u32) list"

fun bump :: "u32 \<Rightarrow> freqs \<Rightarrow> freqs" where
  "bump tok [] = [(tok, 1)]"
| "bump tok ((t, c) # fs) = (if t = tok then (t, c + 1) # fs else (t, c) # bump tok fs)"

definition successor_freqs :: "u32 list \<Rightarrow> u32 list \<Rightarrow> freqs" where
  "successor_freqs hist pattern =
     (let n = length pattern in
      if n = 0 \<or> length hist \<le> n then []
      else foldl (\<lambda>fs start. if take n (drop start hist) = pattern \<and> start + n < length hist
                              then bump (hist ! (start + n)) fs else fs) [] [0..<length hist - n])"

text \<open>\<open>sort_unstable_by\<close> with count descending and token ascending: the tokens are distinct, so the
  order is total and the result determined.\<close>

definition freq_before :: "u32 \<times> u32 \<Rightarrow> u32 \<times> u32 \<Rightarrow> bool" where
  "freq_before a b \<longleftrightarrow> snd b < snd a \<or> snd a = snd b \<and> fst a < fst b"

fun insert_freq :: "u32 \<times> u32 \<Rightarrow> freqs \<Rightarrow> freqs" where
  "insert_freq a [] = [a]"
| "insert_freq a (b # bs) = (if freq_before a b then a # b # bs else b # insert_freq a bs)"

definition sort_freqs :: "freqs \<Rightarrow> freqs" where
  "sort_freqs fs = foldr insert_freq fs []"

definition top_successors :: "freqs \<Rightarrow> nat \<Rightarrow> u32 list" where
  "top_successors fs branch = map fst (take branch (sort_freqs fs))"

text \<open>The loop over match lengths: the first length, from the longest, whose pattern was followed by
  anything.\<close>

fun choose_successors :: "u32 list \<Rightarrow> u32 list \<Rightarrow> nat \<Rightarrow> nat list \<Rightarrow> u32 list" where
  "choose_successors hist path branch [] = []"
| "choose_successors hist path branch (n # ns) =
     (let pattern = build_pattern hist path n in
      if length pattern < n then choose_successors hist path branch ns
      else
        let fs = successor_freqs hist pattern
        in if fs \<noteq> [] then top_successors fs branch else choose_successors hist path branch ns)"

definition match_lengths :: "suffix_drafter \<Rightarrow> u32 list \<Rightarrow> u32 list \<Rightarrow> nat list" where
  "match_lengths sd hist path =
     rev [sd_min_match sd..<Suc (min (sd_max_match sd) (length hist - 1 + length path))]"

definition windowed :: "suffix_drafter \<Rightarrow> u32 list \<Rightarrow> u32 list" where
  "windowed sd history = drop (length history - sd_window sd) history"

text \<open>\<open>path_tokens.insert(child, child_path)\<close> for every attached child.\<close>

fun insert_paths :: "u32 list \<Rightarrow> usize list \<Rightarrow> u32 list \<Rightarrow> (usize \<rightharpoonup> u32 list) \<Rightarrow> (usize \<rightharpoonup> u32 list)" where
  "insert_paths path (c # cs) (tok # toks) m = insert_paths path cs toks (m(c \<mapsto> path @ [tok]))"
| "insert_paths path _ _ m = m"

function suffix_loop ::
  "suffix_drafter \<Rightarrow> u32 list \<Rightarrow> usize \<Rightarrow> usize \<Rightarrow> usize list \<Rightarrow> (usize \<rightharpoonup> u32 list) \<Rightarrow> token_tree \<Rightarrow> token_tree" where
  "suffix_loop sd hist max_nodes max_depth frontier paths t =
     (case frontier of
        [] \<Rightarrow> t
      | node # rest \<Rightarrow>
          if max_nodes \<le> nodes t then t
          else
            let ndepth = tt_depth t ! node in
            if max_depth \<le> ndepth then suffix_loop sd hist max_nodes max_depth rest paths t
            else
              let path = (case paths node of None \<Rightarrow> [] | Some path \<Rightarrow> path);
                  chosen = choose_successors hist path (sd_branch sd) (match_lengths sd hist path);
                  (t', cs) = attach node ndepth max_nodes chosen t;
                  paths' = insert_paths path cs chosen paths
              in suffix_loop sd hist max_nodes max_depth (rest @ cs) paths' t')"
  by pat_completeness auto
termination
  by (relation "measure (\<lambda>(sd, hist, mx, md, frontier, paths, t). (mx - nodes t) + length frontier)")
    (auto dest!: attach_count [OF sym] simp: not_le)

declare suffix_loop.simps [simp del]

definition suffix_draft_tree ::
  "suffix_drafter \<Rightarrow> u32 list \<Rightarrow> u32 \<Rightarrow> usize \<Rightarrow> usize \<Rightarrow> token_tree \<times> suffix_drafter" where
  "suffix_draft_tree sd history anchor max_nodes max_depth =
     (let t = linear anchor []; hist = windowed sd history in
      if max_nodes \<le> 1 \<or> max_depth = 0 \<or> sd_branch sd = 0 then (t, sd)
      else if length hist \<le> sd_min_match sd then (t, sd)
      else (suffix_loop sd hist max_nodes max_depth [0] [0 \<mapsto> []] t, sd))"

text \<open>\<open>draft_chain\<close>: the most frequent successor at each step.\<close>

fun best_of :: "freqs \<Rightarrow> u32 option" where
  "best_of [] = None"
| "best_of (a # fs) =
     (case sort_freqs (a # fs) of [] \<Rightarrow> None | b # _ \<Rightarrow> Some (fst b))"

fun chain_next :: "u32 list \<Rightarrow> u32 list \<Rightarrow> nat list \<Rightarrow> u32 option" where
  "chain_next hist path [] = None"
| "chain_next hist path (n # ns) =
     (let pattern = build_pattern hist path n in
      if length pattern < n then chain_next hist path ns
      else case best_of (successor_freqs hist pattern) of
             None \<Rightarrow> chain_next hist path ns
           | Some tok \<Rightarrow> Some tok)"

fun chain_loop :: "suffix_drafter \<Rightarrow> u32 list \<Rightarrow> nat \<Rightarrow> u32 list \<Rightarrow> u32 list" where
  "chain_loop sd hist 0 path = path"
| "chain_loop sd hist (Suc k) path =
     (case chain_next hist path (match_lengths sd hist path) of
        None \<Rightarrow> path
      | Some tok \<Rightarrow> chain_loop sd hist k (path @ [tok]))"

definition draft_chain :: "suffix_drafter \<Rightarrow> u32 list \<Rightarrow> usize \<Rightarrow> u32 list" where
  "draft_chain sd history max_tokens =
     (let hist = windowed sd history in
      if sd_min_match sd = 0 \<or> length hist \<le> sd_min_match sd then [] else chain_loop sd hist max_tokens [])"

section \<open>Token recycling\<close>

record recycling_drafter =
  rd_succ :: "u32 \<rightharpoonup> freqs"
  rd_topk :: usize
  rd_branch :: usize
  rd_max_succ :: usize

definition recycling_new :: recycling_drafter where
  "recycling_new = \<lparr>rd_succ = (\<lambda>_. None), rd_topk = 4, rd_branch = 2, rd_max_succ = 16\<rparr>"

text \<open>\<open>min_by_key\<close> over the counts: the first entry with the least count, in the order of the hash map's
  iteration. The language leaves that order open: \<open>iter\<close> stands for it below, and no lemma restricts it.\<close>

fun least_frequent :: "freqs \<Rightarrow> (u32 \<times> u32) option" where
  "least_frequent [] = None"
| "least_frequent (a # fs) =
     (case least_frequent fs of
        None \<Rightarrow> Some a
      | Some m \<Rightarrow> if snd a \<le> snd m then Some a else Some m)"

definition recycling_observe :: "(freqs \<Rightarrow> freqs) \<Rightarrow> u32 \<Rightarrow> u32 \<Rightarrow> recycling_drafter \<Rightarrow> recycling_drafter" where
  "recycling_observe iter from to d =
     (let entry = bump to (case rd_succ d from of None \<Rightarrow> [] | Some fs \<Rightarrow> fs);
          entry' = (if rd_max_succ d < length entry then
                      (case least_frequent (iter entry) of
                         None \<Rightarrow> entry
                       | Some (victim, _) \<Rightarrow> filter (\<lambda>f. fst f \<noteq> victim) entry)
                    else entry)
      in d\<lparr>rd_succ := (rd_succ d)(from \<mapsto> entry')\<rparr>)"

fun recycling_learn :: "(freqs \<Rightarrow> freqs) \<Rightarrow> u32 list \<Rightarrow> recycling_drafter \<Rightarrow> recycling_drafter" where
  "recycling_learn iter (x # y # rest) d = recycling_learn iter (y # rest) (recycling_observe iter x y d)"
| "recycling_learn iter _ d = d"

definition recycling_successors :: "recycling_drafter \<Rightarrow> u32 \<Rightarrow> nat \<Rightarrow> u32 list" where
  "recycling_successors d token n =
     (case rd_succ d token of None \<Rightarrow> [] | Some fs \<Rightarrow> top_successors fs n)"

function recycling_loop ::
  "recycling_drafter \<Rightarrow> usize \<Rightarrow> usize \<Rightarrow> usize list \<Rightarrow> token_tree \<Rightarrow> token_tree" where
  "recycling_loop d max_nodes max_depth frontier t =
     (case frontier of
        [] \<Rightarrow> t
      | node # rest \<Rightarrow>
          if max_nodes \<le> nodes t then t
          else
            let ndepth = tt_depth t ! node in
            if max_depth \<le> ndepth then recycling_loop d max_nodes max_depth rest t
            else
              let succ = recycling_successors d (tt_tokens t ! node) (min (rd_branch d) (rd_topk d));
                  (t', cs) = attach node ndepth max_nodes succ t
              in recycling_loop d max_nodes max_depth (rest @ cs) t')"
  by pat_completeness auto
termination
  by (relation "measure (\<lambda>(d, mx, md, frontier, t). (mx - nodes t) + length frontier)")
    (auto dest!: attach_count [OF sym] simp: not_le)

declare recycling_loop.simps [simp del]

definition recycling_draft_tree ::
  "(freqs \<Rightarrow> freqs) \<Rightarrow> recycling_drafter \<Rightarrow> u32 list \<Rightarrow> u32 \<Rightarrow> usize \<Rightarrow> usize \<Rightarrow> token_tree \<times> recycling_drafter" where
  "recycling_draft_tree iter d history anchor max_nodes max_depth =
     (let n = length history;
          d' = (if 2 \<le> n then recycling_observe iter (history ! (n - 2)) (history ! (n - 1)) d else d);
          t = linear anchor []
      in if max_nodes \<le> 1 \<or> max_depth = 0 \<or> rd_branch d' = 0 then (t, d')
         else (recycling_loop d' max_nodes max_depth [0] t, d'))"

section \<open>The n-gram adapter\<close>

definition ngram_draft_tree ::
  "ngram_drafter \<Rightarrow> u32 list \<Rightarrow> u32 \<Rightarrow> usize \<Rightarrow> usize \<Rightarrow> (token_tree, unit) outcome \<times> ngram_drafter" where
  "ngram_draft_tree d history anchor max_nodes max_depth =
     (let max_drafts = min (max_nodes - 1) max_depth;
          (drafts, d') = ngram_draft history max_drafts d
      in (bindR drafts (\<lambda>drafts. Ok (linear anchor drafts)), d'))"

section \<open>Trees that grow stay well-formed\<close>

lemma tree_ok_push:
  assumes "tree_ok t" "p < nodes t" "nodes t < 2 ^ 31" "d = tt_depth t ! p + 1"
  shows "tree_ok (push_node p tok d t)"
proof -
  let ?t = "push_node p tok d t"
  have p: "as_i32 p = int p" by (rule tree_ok_node [OF assms(1,2)])
  have len: "length (tt_parent t) = nodes t" "length (tt_depth t) = nodes t" "0 < nodes t"
    using assms(1) tree_ok_pos by (auto simp: tree_ok_def)
  have "0 \<le> tt_parent ?t ! i \<and> tt_parent ?t ! i < int i \<and> tt_depth ?t ! i = tt_depth ?t ! nat (tt_parent ?t ! i) + 1"
    if i: "i \<in> {1..<Suc (nodes t)}" for i
  proof (cases "i < nodes t")
    case True
    with i have "i \<noteq> 0" by simp
    from tree_ok_parent [OF assms(1) True this] obtain q where
      q: "tt_parent t ! i = int q" "q < i" "q < nodes t" "tt_depth t ! i = tt_depth t ! q + 1" by blast
    then show ?thesis using True len by (simp add: push_node_def nth_append)
  next
    case False
    with i have "i = nodes t" by simp
    then show ?thesis using len assms(2,4) p by (simp add: push_node_def nth_append)
  qed
  moreover have "tt_parent ?t ! 0 = -1" "tt_depth ?t ! 0 = 0" "length (tt_parent ?t) = Suc (nodes t)" "length (tt_depth ?t) = Suc (nodes t)"
    "tt_tokens ?t \<noteq> []"
    using assms(1) len by (auto simp: push_node_def nth_append tree_ok_def)
  ultimately show ?thesis using assms(3) unfolding tree_ok_def nodes_push by simp
qed

lemma push_nth [simp]:
  "tree_ok t \<Longrightarrow> i < nodes t \<Longrightarrow> tt_parent (push_node p tok d t) ! i = tt_parent t ! i"
  "tree_ok t \<Longrightarrow> i < nodes t \<Longrightarrow> tt_depth (push_node p tok d t) ! i = tt_depth t ! i"
  "i < nodes t \<Longrightarrow> tt_tokens (push_node p tok d t) ! i = tt_tokens t ! i"
  "tree_ok t \<Longrightarrow> tt_depth (push_node p tok d t) ! nodes t = d"
  "tt_tokens (push_node p tok d t) ! nodes t = tok"
  by (simp_all add: push_node_def nth_append tree_ok_def nodes_def)

lemma node_path_push:
  assumes "tree_ok t" "i < nodes t"
  shows "node_path (push_node p tok d t) i = node_path t i"
  using assms
proof (induction i rule: tree_induct)
  case root
  have "tt_parent (push_node p tok d t) ! 0 = -1" using assms(1) tree_ok_pos [OF assms(1)] by (simp add: tree_ok_def)
  then show ?case by (subst node_path.simps) (simp add: node_path_root [OF assms(1)])
next
  case (child i q)
  then show ?case using push_nth(1) [OF assms(1) child.hyps(1), of p tok d] by (simp add: node_path_step)
qed

lemma path_tokens_push:
  assumes "tree_ok t"
  shows "i < nodes t \<Longrightarrow> path_tokens (push_node p tok d t) i = path_tokens t i"
    "p < nodes t \<Longrightarrow> path_tokens (push_node p tok d t) (nodes t) = path_tokens t p @ [tok]"
proof -
  have old: "path_tokens (push_node p tok d t) i = path_tokens t i" if i: "i < nodes t" for i
  proof -
    have "set (tl (node_path t i)) \<subseteq> set (node_path t i)" by (cases "node_path t i") auto
    then have "set (tl (node_path t i)) \<subseteq> {..<nodes t}" using node_path_below [OF assms i] i by auto
    then show ?thesis unfolding path_tokens_def node_path_push [OF assms i] by (auto intro!: map_cong)
  qed
  then show "i < nodes t \<Longrightarrow> path_tokens (push_node p tok d t) i = path_tokens t i" .
  assume p: "p < nodes t"
  have "tt_parent (push_node p tok d t) ! nodes t = int p"
    using assms tree_ok_node [OF assms p] by (simp add: push_node_def nth_append tree_ok_def)
  from path_tokens_child [OF this p] old [OF p] show "path_tokens (push_node p tok d t) (nodes t) = path_tokens t p @ [tok]" by simp
qed

text \<open>What a drafter promises of its tree, and what it keeps of a tree while it grows.\<close>

definition drafted :: "u32 \<Rightarrow> usize \<Rightarrow> usize \<Rightarrow> token_tree \<Rightarrow> bool" where
  "drafted anchor max_nodes max_depth t \<longleftrightarrow> tree_ok t \<and> tt_tokens t ! 0 = anchor \<and> nodes t \<le> max max_nodes 1 \<and>
     (\<forall>i < nodes t. tt_depth t ! i \<le> max_depth)"

definition extends :: "token_tree \<Rightarrow> token_tree \<Rightarrow> bool" where
  "extends t t' \<longleftrightarrow> nodes t \<le> nodes t' \<and>
     (\<forall>i < nodes t. path_tokens t' i = path_tokens t i \<and> tt_tokens t' ! i = tt_tokens t ! i \<and> tt_depth t' ! i = tt_depth t ! i)"

lemma extends_refl [simp]: "extends t t"
  by (simp add: extends_def)

lemma extends_trans: "extends t u \<Longrightarrow> extends u v \<Longrightarrow> extends t v"
  by (auto simp: extends_def)

lemma extends_push: "tree_ok t \<Longrightarrow> extends t (push_node p tok d t)"
  by (simp add: extends_def path_tokens_push)

lemma extends_nodes: "extends t t' \<Longrightarrow> nodes t \<le> nodes t'"
  by (simp add: extends_def)

lemma extends_nth:
  "extends t t' \<Longrightarrow> i < nodes t \<Longrightarrow> path_tokens t' i = path_tokens t i"
  "extends t t' \<Longrightarrow> i < nodes t \<Longrightarrow> tt_depth t' ! i = tt_depth t ! i"
  by (auto simp: extends_def)

lemma drafted_push:
  assumes "drafted a mx md t" "p < nodes t" "nodes t < mx" "mx \<le> 2 ^ 31" "tt_depth t ! p < md" "d = tt_depth t ! p + 1"
  shows "drafted a mx md (push_node p tok d t)"
proof -
  have ok: "tree_ok t" using assms(1) by (simp add: drafted_def)
  have ok': "tree_ok (push_node p tok d t)" by (rule tree_ok_push) (use ok assms in auto)
  have "tt_depth (push_node p tok d t) ! i \<le> md" if "i < Suc (nodes t)" for i
    using that assms ok by (cases "i = nodes t") (auto simp: drafted_def)
  then show ?thesis using assms ok ok' tree_ok_pos [OF ok] by (auto simp: drafted_def)
qed

lemma attach_law:
  assumes "drafted a mx md t" "node < nodes t" "tt_depth t ! node < md" "md < 2 ^ 16" "mx \<le> 2 ^ 31"
    "attach node (tt_depth t ! node) mx toks t = (t', cs)"
  shows "drafted a mx md t' \<and> extends t t' \<and> cs = [nodes t..<nodes t'] \<and> length cs \<le> length toks \<and>
    (\<forall>k < length cs. path_tokens t' (nodes t + k) = path_tokens t node @ [toks ! k])"
  using assms
proof (induction toks arbitrary: t cs)
  case (Cons tok toks)
  show ?case
  proof (cases "mx \<le> nodes t")
    case False
    let ?d = "as_u16 (tt_depth t ! node + 1)" and ?u = "push_node node tok (as_u16 (tt_depth t ! node + 1)) t"
    have d: "?d = tt_depth t ! node + 1" using Cons.prems(3,4) by (intro as_u16_small) simp
    have ok: "tree_ok t" using Cons.prems(1) by (simp add: drafted_def)
    have u: "drafted a mx md ?u" by (rule drafted_push) (use Cons.prems False d in auto)
    obtain cs' where a: "attach node (tt_depth t ! node) mx toks ?u = (t', cs')" "cs = nodes t # cs'"
      using Cons.prems(6) False by (auto simp: Let_def split: prod.splits)
    have same: "tt_depth ?u ! node = tt_depth t ! node" using ok Cons.prems(2) by simp
    have IH: "drafted a mx md t'" "extends ?u t'" "cs' = [Suc (nodes t)..<nodes t']" "length cs' \<le> length toks"
      "\<And>k. k < length cs' \<Longrightarrow> path_tokens t' (Suc (nodes t + k)) = path_tokens ?u node @ [toks ! k]"
      using Cons.IH [OF u] Cons.prems(2-5) a(1) same by auto
    have nt: "nodes t < nodes t'" using extends_nodes [OF IH(2)] by simp
    have first: "path_tokens t' (nodes t) = path_tokens t node @ [tok]"
      using extends_nth(1) [OF IH(2), of "nodes t"] path_tokens_push(2) [OF ok Cons.prems(2)] by simp
    have "path_tokens t' (nodes t + k) = path_tokens t node @ [(tok # toks) ! k]" if "k < length cs" for k
    proof (cases k)
      case (Suc j)
      then have "j < length cs'" using that a(2) by simp
      with IH(5) [OF this] Suc path_tokens_push(1) [OF ok Cons.prems(2)] show ?thesis by simp
    qed (use first in simp)
    moreover have "extends t t'" using extends_trans [OF extends_push [OF ok] IH(2)] .
    moreover have "cs = [nodes t..<nodes t']" using a(2) IH(3) nt by (simp add: upt_conv_Cons)
    ultimately show ?thesis using IH a(2) by simp
  qed (use Cons.prems in simp)
qed simp

text \<open>Every edge of a tree satisfies a relation between the path to its parent and its token.\<close>

definition edges_ok :: "(u32 list \<Rightarrow> u32 \<Rightarrow> bool) \<Rightarrow> token_tree \<Rightarrow> bool" where
  "edges_ok E t \<longleftrightarrow> (\<forall>i \<in> {1..<nodes t}. \<exists>p tok. path_tokens t i = p @ [tok] \<and> E p tok)"

lemma edges_ok_attach:
  assumes "edges_ok E t" "drafted a mx md t" "node < nodes t" "tt_depth t ! node < md" "md < 2 ^ 16" "mx \<le> 2 ^ 31"
    "attach node (tt_depth t ! node) mx toks t = (t', cs)" "\<And>tok. tok \<in> set toks \<Longrightarrow> E (path_tokens t node) tok"
  shows "edges_ok E t'"
  unfolding edges_ok_def
proof
  note law = attach_law [OF assms(2-7)]
  fix i assume i: "i \<in> {1..<nodes t'}"
  show "\<exists>p tok. path_tokens t' i = p @ [tok] \<and> E p tok"
  proof (cases "i < nodes t")
    case True
    with i assms(1) have "\<exists>p tok. path_tokens t i = p @ [tok] \<and> E p tok" unfolding edges_ok_def by auto
    with True law show ?thesis by (auto simp: extends_nth)
  next
    case False
    then obtain k where k: "i = nodes t + k" by (metis le_add_diff_inverse not_less)
    have "k < length cs" using i k law by auto
    with law k have "path_tokens t' i = path_tokens t node @ [toks ! k]" "toks ! k \<in> set toks" by auto
    with assms(8) show ?thesis by blast
  qed
qed

lemma drafted_anchor: "drafted a mx md (linear a [])"
proof -
  have "tree_ok (linear a [])" by (rule tree_ok_linear) simp
  moreover have "tt_depth (linear a []) ! 0 = 0" "tt_tokens (linear a []) ! 0 = a" by (simp_all add: linear_def)
  ultimately show ?thesis by (simp add: drafted_def)
qed

lemma edges_ok_anchor: "edges_ok E (linear a [])"
  by (simp add: edges_ok_def)

section \<open>What the drafters choose\<close>

lemma fst_bump: "fst ` set (bump tok fs) = insert tok (fst ` set fs)"
  by (induction tok fs rule: bump.induct) auto

lemma set_insert_freq [simp]: "set (insert_freq a bs) = insert a (set bs)"
  by (induction bs) auto

lemma set_sort_freqs [simp]: "set (sort_freqs fs) = set fs"
  by (induction fs) (simp_all add: sort_freqs_def)

lemma top_successors_subset: "set (top_successors fs n) \<subseteq> fst ` set fs"
  by (auto simp: top_successors_def dest!: in_set_takeD)

text \<open>The token \<open>tok\<close> followed an earlier occurrence of a suffix of \<open>hist @ path\<close> of length at least
  \<open>min_match\<close>.\<close>

definition observed_after :: "suffix_drafter \<Rightarrow> u32 list \<Rightarrow> u32 list \<Rightarrow> u32 \<Rightarrow> bool" where
  "observed_after sd hist path tok \<longleftrightarrow>
     (\<exists>pat start. sd_min_match sd \<le> length pat \<and> pat \<noteq> [] \<and> suffix pat (hist @ path) \<and> start + length pat < length hist \<and>
        take (length pat) (drop start hist) = pat \<and> hist ! (start + length pat) = tok)"

lemma successor_freqs_sound:
  assumes "tok \<in> fst ` set (successor_freqs hist pat)"
  shows "pat \<noteq> [] \<and> (\<exists>start. start + length pat < length hist \<and> take (length pat) (drop start hist) = pat \<and>
    hist ! (start + length pat) = tok)"
proof -
  let ?n = "length pat"
  let ?step = "\<lambda>fs start. if take ?n (drop start hist) = pat \<and> start + ?n < length hist then bump (hist ! (start + ?n)) fs else fs"
  have gen: "\<exists>start. start + ?n < length hist \<and> take ?n (drop start hist) = pat \<and> hist ! (start + ?n) = tok"
    if "tok \<in> fst ` set (foldl ?step fs starts)" "tok \<notin> fst ` set fs" for fs starts
    using that
  proof (induction starts arbitrary: fs)
    case (Cons st starts)
    then show ?case by (cases "tok \<in> fst ` set (?step fs st)") (auto simp: fst_bump split: if_splits)
  qed simp
  from assms have ne: "?n \<noteq> 0" "\<not> length hist \<le> ?n" by (auto simp: successor_freqs_def Let_def split: if_splits)
  then have "successor_freqs hist pat = foldl ?step [] [0..<length hist - ?n]" by (simp add: successor_freqs_def Let_def)
  with gen [of "[]" "[0..<length hist - ?n]"] assms ne show ?thesis by auto
qed

lemma build_pattern_suffix: "n \<le> length (build_pattern hist path n) \<Longrightarrow> suffix (build_pattern hist path n) (hist @ path)"
  by (auto simp: build_pattern_def suffix_append intro: suffix_drop)

lemma choose_successors_sound:
  assumes "tok \<in> set (choose_successors hist path branch ns)" "\<forall>n \<in> set ns. sd_min_match sd \<le> n"
  shows "observed_after sd hist path tok"
  using assms
proof (induction ns)
  case (Cons n ns)
  let ?pat = "build_pattern hist path n"
  show ?case
  proof (cases "n \<le> length ?pat \<and> successor_freqs hist ?pat \<noteq> []")
    case True
    then have "tok \<in> fst ` set (successor_freqs hist ?pat)"
      using Cons.prems(1) top_successors_subset by (auto simp: Let_def)
    from successor_freqs_sound [OF this] obtain start where
      st: "?pat \<noteq> []" "start + length ?pat < length hist" "take (length ?pat) (drop start hist) = ?pat" "hist ! (start + length ?pat) = tok"
      by blast
    moreover have "sd_min_match sd \<le> length ?pat" using True Cons.prems(2) by simp
    moreover have "suffix ?pat (hist @ path)" using True build_pattern_suffix by blast
    ultimately show ?thesis unfolding observed_after_def by blast
  next
    case False
    with Cons show ?thesis by (auto simp: Let_def split: if_splits)
  qed
qed simp

lemma match_lengths_min: "n \<in> set (match_lengths sd hist path) \<Longrightarrow> sd_min_match sd \<le> n"
  by (auto simp: match_lengths_def simp del: upt_Suc)

lemma paths_update: "c \<notin> set cs \<Longrightarrow> insert_paths path cs toks m c = m c"
  by (induction path cs toks m rule: insert_paths.induct) auto

lemma paths_update_new:
  "distinct cs \<Longrightarrow> k < length cs \<Longrightarrow> length cs \<le> length toks \<Longrightarrow> insert_paths path cs toks m (cs ! k) = Some (path @ [toks ! k])"
proof (induction path cs toks m arbitrary: k rule: insert_paths.induct)
  case (1 path c cs tok toks m)
  show ?case
  proof (cases k)
    case 0
    with "1.prems" show ?thesis by (simp add: paths_update)
  next
    case (Suc j)
    with "1.IH" [of j] "1.prems" show ?thesis by (simp del: fun_upd_apply)
  qed
qed simp_all

section \<open>The drafting loops\<close>

definition paths_ok :: "(usize \<rightharpoonup> u32 list) \<Rightarrow> token_tree \<Rightarrow> bool" where
  "paths_ok paths t \<longleftrightarrow> (\<forall>i < nodes t. paths i = Some (path_tokens t i))"

lemma suffix_loop_law:
  assumes "md < 2 ^ 16" "mx \<le> 2 ^ 31"
  shows "drafted a mx md t \<Longrightarrow> edges_ok (observed_after sd hist) t \<Longrightarrow> paths_ok paths t \<Longrightarrow> set frontier \<subseteq> {..<nodes t} \<Longrightarrow>
    drafted a mx md (suffix_loop sd hist mx md frontier paths t) \<and>
    edges_ok (observed_after sd hist) (suffix_loop sd hist mx md frontier paths t)"
  using assms
proof (induction sd hist mx md frontier paths t rule: suffix_loop.induct)
  case (1 sd hist mx md frontier paths t)
  show ?case
  proof (cases frontier)
    case Nil
    with "1.prems" show ?thesis by (simp add: suffix_loop.simps)
  next
    case (Cons node rest)
    show ?thesis
    proof (cases "mx \<le> nodes t")
      case True
      with "1.prems" Cons show ?thesis by (simp add: suffix_loop.simps)
    next
      case room: False
      show ?thesis
      proof (cases "md \<le> tt_depth t ! node")
        case True
        have "suffix_loop sd hist mx md frontier paths t = suffix_loop sd hist mx md rest paths t"
          using Cons room True by (subst suffix_loop.simps) (simp add: Let_def)
        with "1.IH"(1) [OF Cons room refl True] "1.prems" Cons show ?thesis by simp
      next
        case deep: False
        have node: "node < nodes t" using "1.prems"(4) Cons by simp
        define path where "path = path_tokens t node"
        have path: "(case paths node of None \<Rightarrow> [] | Some path \<Rightarrow> path) = path"
          using "1.prems"(3) node by (simp add: paths_ok_def path_def)
        define chosen where "chosen = choose_successors hist path (sd_branch sd) (match_lengths sd hist path)"
        obtain t' cs where at: "attach node (tt_depth t ! node) mx chosen t = (t', cs)"
          by (cases "attach node (tt_depth t ! node) mx chosen t")
        define paths' where "paths' = insert_paths path cs chosen paths"
        have d: "tt_depth t ! node < md" using deep by simp
        note law = attach_law [OF "1.prems"(1) node d "1.prems"(5,6) at]
        have E: "observed_after sd hist (path_tokens t node) tok" if "tok \<in> set chosen" for tok
          using choose_successors_sound [of tok hist path "sd_branch sd" "match_lengths sd hist path" sd] that match_lengths_min
          by (auto simp: chosen_def path_def)
        have edges: "edges_ok (observed_after sd hist) t'"
          by (rule edges_ok_attach [OF "1.prems"(2,1) node d "1.prems"(5,6) at E])
        have "paths' i = Some (path_tokens t' i)" if i: "i < nodes t'" for i
        proof (cases "i < nodes t")
          case True
          with law have "i \<notin> set cs" by simp
          then have "paths' i = paths i" by (simp add: paths'_def paths_update)
          moreover have "path_tokens t' i = path_tokens t i" using extends_nth(1) [OF _ True] law by blast
          ultimately show ?thesis using True "1.prems"(3) by (simp add: paths_ok_def)
        next
          case False
          then obtain k where k: "i = nodes t + k" by (metis le_add_diff_inverse not_less)
          with i law have kl: "k < length cs" "cs ! k = i" "distinct cs" by auto
          moreover have "length cs \<le> length chosen" "path_tokens t' i = path_tokens t node @ [chosen ! k]" using law kl(1) k by auto
          ultimately show ?thesis using paths_update_new [OF kl(3,1), of chosen path paths] by (simp only: paths'_def path_def)
        qed
        then have po: "paths_ok paths' t'" by (simp add: paths_ok_def)
        have fr: "set (rest @ cs) \<subseteq> {..<nodes t'}"
          using "1.prems"(4) Cons law extends_nodes [of t t'] by auto
        have step: "suffix_loop sd hist mx md frontier paths t = suffix_loop sd hist mx md (rest @ cs) paths' t'"
          using Cons room deep at by (subst suffix_loop.simps) (simp add: Let_def path chosen_def [symmetric] paths'_def)
        show ?thesis unfolding step
          by (rule "1.IH"(2) [OF Cons room refl deep path [symmetric] chosen_def refl at [symmetric] paths'_def])
            (use law edges po fr "1.prems"(5,6) in auto)
      qed
    qed
  qed
qed

definition recorded_after :: "recycling_drafter \<Rightarrow> u32 \<Rightarrow> u32 list \<Rightarrow> u32 \<Rightarrow> bool" where
  "recorded_after d anchor path tok \<longleftrightarrow> (\<exists>fs. rd_succ d (last (anchor # path)) = Some fs \<and> tok \<in> fst ` set fs)"

lemma node_token:
  assumes "tree_ok t" "i < nodes t"
  shows "last (tt_tokens t ! 0 # path_tokens t i) = tt_tokens t ! i"
  using assms
proof (induction i rule: tree_induct)
  case root
  then show ?case by (simp add: path_tokens_def node_path_root [OF assms(1)])
next
  case (child i p)
  then show ?case by (simp add: path_tokens_child)
qed

lemma recycling_loop_law:
  assumes "md < 2 ^ 16" "mx \<le> 2 ^ 31"
  shows "drafted a mx md t \<Longrightarrow> edges_ok (recorded_after d a) t \<Longrightarrow> set frontier \<subseteq> {..<nodes t} \<Longrightarrow>
    drafted a mx md (recycling_loop d mx md frontier t) \<and> edges_ok (recorded_after d a) (recycling_loop d mx md frontier t)"
  using assms
proof (induction d mx md frontier t rule: recycling_loop.induct)
  case (1 d mx md frontier t)
  show ?case
  proof (cases "frontier = [] \<or> mx \<le> nodes t")
    case True
    with "1.prems" show ?thesis by (auto simp: recycling_loop.simps split: list.splits)
  next
    case False
    then obtain node rest where Cons: "frontier = node # rest" and room: "\<not> mx \<le> nodes t" by (cases frontier) auto
    show ?thesis
    proof (cases "md \<le> tt_depth t ! node")
      case True
      have "recycling_loop d mx md frontier t = recycling_loop d mx md rest t"
        using Cons room True by (subst recycling_loop.simps) (simp add: Let_def)
      with "1.IH"(1) [OF Cons room refl True] "1.prems" Cons show ?thesis by simp
    next
      case deep: False
      have node: "node < nodes t" using "1.prems"(3) Cons by simp
      define chosen where "chosen = recycling_successors d (tt_tokens t ! node) (min (rd_branch d) (rd_topk d))"
      obtain t' cs where at: "attach node (tt_depth t ! node) mx chosen t = (t', cs)"
        by (cases "attach node (tt_depth t ! node) mx chosen t")
      have depth: "tt_depth t ! node < md" using deep by simp
      note law = attach_law [OF "1.prems"(1) node depth "1.prems"(4,5) at]
      have E: "recorded_after d a (path_tokens t node) tok" if "tok \<in> set chosen" for tok
      proof (cases "rd_succ d (tt_tokens t ! node)")
        case None
        with that show ?thesis by (simp add: chosen_def recycling_successors_def)
      next
        case (Some fs)
        with that have "tok \<in> fst ` set fs"
          using top_successors_subset [of fs] by (auto simp: chosen_def recycling_successors_def)
        with Some show ?thesis
          using node_token [OF _ node] "1.prems"(1) by (auto simp: recorded_after_def drafted_def)
      qed
      have edges: "edges_ok (recorded_after d a) t'"
        by (rule edges_ok_attach [OF "1.prems"(2,1) node depth "1.prems"(4,5) at E])
      have step: "recycling_loop d mx md frontier t = recycling_loop d mx md (rest @ cs) t'"
        using Cons room deep at by (subst recycling_loop.simps) (simp add: Let_def chosen_def [symmetric])
      have "set (rest @ cs) \<subseteq> {..<nodes t'}" using "1.prems"(3) Cons law extends_nodes [of t t'] by auto
      then show ?thesis unfolding step
        by (intro "1.IH"(2) [OF Cons room refl deep chosen_def refl at [symmetric]]) (use law edges "1.prems"(4,5) in auto)
    qed
  qed
qed

lemma suffix_drafts:
  assumes "max_depth < 2 ^ 16" "max_nodes \<le> 2 ^ 31"
  shows "drafted anchor max_nodes max_depth (fst (suffix_draft_tree sd history anchor max_nodes max_depth)) \<and>
    edges_ok (observed_after sd (windowed sd history)) (fst (suffix_draft_tree sd history anchor max_nodes max_depth))"
proof -
  have "paths_ok [0 \<mapsto> []] (linear anchor [])"
    using node_path_root [OF tree_ok_linear, of "[]" anchor] by (simp add: paths_ok_def path_tokens_def)
  with suffix_loop_law [OF assms drafted_anchor edges_ok_anchor] drafted_anchor edges_ok_anchor show ?thesis
    by (auto simp: suffix_draft_tree_def Let_def)
qed

lemma recycling_drafts:
  assumes "max_depth < 2 ^ 16" "max_nodes \<le> 2 ^ 31" "recycling_draft_tree iter d history anchor max_nodes max_depth = (t, d')"
  shows "drafted anchor max_nodes max_depth t \<and> edges_ok (recorded_after d' anchor) t"
  using assms recycling_loop_law [OF assms(1,2) drafted_anchor edges_ok_anchor, of "[0]" anchor d'] drafted_anchor edges_ok_anchor
  by (auto simp: recycling_draft_tree_def Let_def split: if_splits)

lemma ngram_drafts_tree:
  assumes "max_depth < 2 ^ 16" "drafter_inv d" "length history + max_depth \<le> usize_max"
  shows "\<exists>t d'. ngram_draft_tree d history anchor max_nodes max_depth = (Ok t, d') \<and> drafter_inv d' \<and>
    drafted anchor max_nodes max_depth t"
proof -
  let ?m = "min (max_nodes - 1) max_depth"
  have "length history + ?m \<le> usize_max" using assms(3) by simp
  from ngram_draft_Ok [OF assms(2) this] obtain drafts d' where
    dr: "ngram_draft history ?m d = (Ok drafts, d')" "length drafts \<le> ?m" by blast
  then have run: "ngram_draft_tree d history anchor max_nodes max_depth = (Ok (linear anchor drafts), d')"
    by (simp add: ngram_draft_tree_def Let_def)
  have l: "length drafts < 2 ^ 16" "length drafts \<le> max_depth" "Suc (length drafts) \<le> max max_nodes 1"
    using assms(1) dr(2) by auto
  have "tt_depth (linear anchor drafts) ! i \<le> max_depth" if "i < Suc (length drafts)" for i
    using that linear_node(1) [OF l(1), of i anchor] l(2) by simp
  with tree_ok_linear [OF l(1)] l(3) have "drafted anchor max_nodes max_depth (linear anchor drafts)"
    by (simp add: drafted_def) (simp add: linear_def)
  with run ngram_draft_inv [OF assms(2), of history ?m] dr(1) show ?thesis by auto
qed

end
