(* ===== verification/Draft_Merge.thy ===== *)
theory Draft_Merge
  imports Drafters
begin

text \<open>
  Merging the trees of several drafters (\<open>src/src/inference/draft_merge.rs\<close>), and the decoding loop that
  drafts, verifies and accepts (the driver of \<open>src/src/inference/spec_tree_lossless.rs\<close>).

  A tree stands for the list of its token paths, in the order of its nodes. On that abstraction the merge
  is a short program: concatenate the lists, sort by length, keep the first occurrence of every path and
  take as many as the node budget allows.

  The trait \<open>TreeDrafter\<close> is the locale \<open>tree_drafter\<close>; the three drafters and their merge interpret it,
  and the losslessness of the decoding loop is proved once, from the contract. The loop keeps the assertions of
  the source and its limit of 10000 rounds; where one fails its value is \<open>Panic\<close>.
\<close>

section \<open>The merge\<close>

text \<open>The vector \<open>node_path\<close>, built front to back: the path of a node is the path of its parent and its own
  token. The parent \<open>as usize\<close> is out of range when it is negative or not before the node.\<close>

fun path_vector :: "token_tree \<Rightarrow> usize list \<Rightarrow> u32 list list \<Rightarrow> (u32 list list, unit) outcome" where
  "path_vector t [] acc = Ok acc"
| "path_vector t (i # is) acc =
     (if i = 0 then path_vector t is (acc @ [[]])
      else case list_get (tt_parent t) i of
             None \<Rightarrow> Panic
           | Some p \<Rightarrow>
               if 0 \<le> p \<and> nat p < length acc
               then path_vector t is (acc @ [acc ! nat p @ [tt_tokens t ! i]])
               else Panic)"

definition node_paths :: "token_tree \<Rightarrow> (u32 list list, unit) outcome" where
  "node_paths t = path_vector t [0..<nodes t] []"

text \<open>The tuples \<open>(depth, parent_path, token)\<close> one tree contributes.\<close>

type_synonym merge_entry = "nat \<times> u32 list \<times> u32"

fun collect_entries :: "token_tree \<Rightarrow> u32 list list \<Rightarrow> usize list \<Rightarrow> (merge_entry list, unit) outcome" where
  "collect_entries t paths [] = Ok []"
| "collect_entries t paths (i # is) =
     (case (list_get (tt_parent t) i, list_get (tt_depth t) i) of
        (Some p, Some d) \<Rightarrow>
          if 0 \<le> p \<and> nat p < length paths
          then (case collect_entries t paths is of
                  Ok es \<Rightarrow> Ok ((d, paths ! nat p, tt_tokens t ! i) # es)
                | r \<Rightarrow> r)
          else Panic
      | _ \<Rightarrow> Panic)"

definition tree_entries :: "token_tree \<Rightarrow> (merge_entry list, unit) outcome" where
  "tree_entries t =
     (case node_paths t of
        Ok paths \<Rightarrow> collect_entries t paths [1..<nodes t]
      | Err e \<Rightarrow> Err e
      | Panic \<Rightarrow> Panic)"

fun by_depth :: "token_tree list \<Rightarrow> (merge_entry list, unit) outcome" where
  "by_depth [] = Ok []"
| "by_depth (t # ts) =
     (case tree_entries t of
        Ok es \<Rightarrow> (case by_depth ts of Ok rest \<Rightarrow> Ok (es @ rest) | r \<Rightarrow> r)
      | r \<Rightarrow> r)"

fun merge_loop :: "usize \<Rightarrow> merge_entry list \<Rightarrow> (u32 list \<rightharpoonup> usize) \<Rightarrow> token_tree \<Rightarrow> token_tree" where
  "merge_loop cap [] path_to_idx out = out"
| "merge_loop cap ((d, parent_path, tok) # es) path_to_idx out =
     (if cap \<le> nodes out then out
      else case path_to_idx parent_path of
             None \<Rightarrow> merge_loop cap es path_to_idx out
           | Some parent_idx \<Rightarrow>
               let child_path = parent_path @ [tok] in
               if path_to_idx child_path \<noteq> None then merge_loop cap es path_to_idx out
               else merge_loop cap es (path_to_idx(child_path \<mapsto> nodes out)) (push_node parent_idx tok d out))"

definition merge_anchor :: "token_tree list \<Rightarrow> u32" where
  "merge_anchor trees = (case find (\<lambda>t. tt_tokens t \<noteq> []) trees of None \<Rightarrow> 0 | Some t \<Rightarrow> hd (tt_tokens t))"

definition merge_trees :: "token_tree list \<Rightarrow> usize \<Rightarrow> (token_tree, unit) outcome" where
  "merge_trees trees max_nodes =
     (let cap = min (max max_nodes 1) TREE_MAX_NODES;
          out = linear (merge_anchor trees) []
      in case by_depth trees of
           Ok es \<Rightarrow> Ok (merge_loop cap (sort_key fst es) [[] \<mapsto> 0] out)
         | Err e \<Rightarrow> Err e
         | Panic \<Rightarrow> Panic)"

section \<open>Several drafters\<close>

text \<open>The implementations behind \<open>&mut dyn TreeDrafter\<close>.\<close>

datatype any_drafter = NGram ngram_drafter | Suffix suffix_drafter | Recycling recycling_drafter

fun draft_any ::
  "(freqs \<Rightarrow> freqs) \<Rightarrow> any_drafter \<Rightarrow> u32 list \<Rightarrow> u32 \<Rightarrow> usize \<Rightarrow> usize \<Rightarrow> (token_tree, unit) outcome \<times> any_drafter" where
  "draft_any iter (NGram d) h a mx md = map_prod id NGram (ngram_draft_tree d h a mx md)"
| "draft_any iter (Suffix d) h a mx md = map_prod Ok Suffix (suffix_draft_tree d h a mx md)"
| "draft_any iter (Recycling d) h a mx md = map_prod Ok Recycling (recycling_draft_tree iter d h a mx md)"

fun draft_each ::
  "(freqs \<Rightarrow> freqs) \<Rightarrow> any_drafter list \<Rightarrow> u32 list \<Rightarrow> u32 \<Rightarrow> usize \<Rightarrow> usize \<Rightarrow>
   (token_tree list, unit) outcome \<times> any_drafter list" where
  "draft_each iter [] h a mx md = (Ok [], [])"
| "draft_each iter (d # ds) h a mx md =
     (case draft_any iter d h a mx md of
        (Ok t, d') \<Rightarrow>
          (let (ts, ds') = draft_each iter ds h a mx md in (bindR ts (\<lambda>ts. Ok (t # ts)), d' # ds'))
      | (Err e, d') \<Rightarrow> (Err e, d' # ds)
      | (Panic, d') \<Rightarrow> (Panic, d' # ds))"

definition draft_and_merge ::
  "(freqs \<Rightarrow> freqs) \<Rightarrow> any_drafter list \<Rightarrow> u32 list \<Rightarrow> u32 \<Rightarrow> usize \<Rightarrow> usize \<Rightarrow> (token_tree, unit) outcome \<times> any_drafter list" where
  "draft_and_merge iter ds h a mx md =
     (let (trees, ds') = draft_each iter ds h a mx md in (bindR trees (\<lambda>trees. merge_trees trees mx), ds'))"

section \<open>The decoding loop\<close>

text \<open>What the target model predicts at every node of a tree.\<close>

definition predicted_for_tree :: "(u32 list \<Rightarrow> u32) \<Rightarrow> token_tree \<Rightarrow> u32 list \<Rightarrow> (u32 list, unit) outcome" where
  "predicted_for_tree model t history =
     (case node_paths t of
        Ok paths \<Rightarrow> Ok (map (\<lambda>path. model (history @ path)) paths)
      | Err e \<Rightarrow> Err e
      | Panic \<Rightarrow> Panic)"

definition spec_round :: "(u32 list \<Rightarrow> u32) \<Rightarrow> token_tree \<Rightarrow> u32 list \<Rightarrow> (u32 list, unit) outcome" where
  "spec_round model t history =
     (case predicted_for_tree model t history of
        Ok predicted \<Rightarrow>
          (case accept_longest_path t predicted of
             Ok (emitted, leaf) \<Rightarrow> Ok emitted
           | Err e \<Rightarrow> Err e
           | Panic \<Rightarrow> Panic)
      | Err e \<Rightarrow> Err e
      | Panic \<Rightarrow> Panic)"

text \<open>
  \<open>assert_drafter_lossless\<close>: draft, verify, accept, until \<open>cnt\<close> tokens have been emitted. The assertions of the
  source are \<open>Panic\<close>: the loop may take fewer than 10000 rounds, the history must have a last token, the root
  of the tree must be that token, every round must emit something, and the result must be the greedy decoding.
\<close>

function decode_loop ::
  "('d \<Rightarrow> u32 list \<Rightarrow> u32 \<Rightarrow> usize \<Rightarrow> usize \<Rightarrow> (token_tree, unit) outcome \<times> 'd) \<Rightarrow> (u32 list \<Rightarrow> u32) \<Rightarrow> nat \<Rightarrow>
   'd \<Rightarrow> u32 list \<Rightarrow> u32 list \<Rightarrow> nat \<Rightarrow> (u32 list, unit) outcome" where
  "decode_loop draft_tree model cnt d history emitted_all rounds =
     (if cnt \<le> length emitted_all then Ok emitted_all
      else if 10000 \<le> rounds + 1 then Panic
      else if history = [] then Panic
      else
        (case draft_tree d history (last history) TREE_MAX_NODES 8 of
           (Ok t, d') \<Rightarrow>
             if list_get (tt_tokens t) 0 \<noteq> Some (last history) then Panic
             else
               (case spec_round model t history of
                  Ok emitted \<Rightarrow>
                    if emitted = [] then Panic
                    else
                      let new = take (cnt - length emitted_all) emitted
                      in decode_loop draft_tree model cnt d' (history @ new) (emitted_all @ new) (rounds + 1)
                | Err e \<Rightarrow> Err e
                | Panic \<Rightarrow> Panic)
         | (Err e, d') \<Rightarrow> Err e
         | (Panic, d') \<Rightarrow> Panic))"
  by pat_completeness auto
termination
  by (relation "measure (\<lambda>(_, _, _, _, _, _, rounds). 10000 - rounds)") auto

declare decode_loop.simps [simp del]

definition assert_drafter_lossless ::
  "('d \<Rightarrow> u32 list \<Rightarrow> u32 \<Rightarrow> usize \<Rightarrow> usize \<Rightarrow> (token_tree, unit) outcome \<times> 'd) \<Rightarrow> (u32 list \<Rightarrow> u32) \<Rightarrow>
   'd \<Rightarrow> u32 list \<Rightarrow> nat \<Rightarrow> (u32 list, unit) outcome" where
  "assert_drafter_lossless draft_tree model d prompt cnt =
     (let truth = greedy_decode model prompt cnt in
      bindR (decode_loop draft_tree model cnt d prompt [] 0) (\<lambda>emitted_all.
        if take cnt emitted_all = truth then Ok (take cnt emitted_all) else Panic))"

section \<open>The paths of a tree\<close>

definition tree_list :: "token_tree \<Rightarrow> u32 list list" where
  "tree_list t = map (path_tokens t) [0..<nodes t]"

definition keep_first :: "'a list \<Rightarrow> 'a list \<Rightarrow> 'a list" where
  "keep_first = foldl (\<lambda>ps p. if p \<in> set ps then ps else ps @ [p])"

lemma path_tokens_root [simp]: "tree_ok t \<Longrightarrow> path_tokens t 0 = []"
  by (simp add: path_tokens_def node_path_root)

lemma path_tokens_parent:
  assumes "tree_ok t" "0 < i" "i < nodes t"
  obtains p where "tt_parent t ! i = int p" "p < i" "path_tokens t i = path_tokens t p @ [tt_tokens t ! i]"
    "tt_depth t ! i = length (path_tokens t i)"
proof -
  from assms tree_ok_parent [OF assms(1,3)] obtain p where p: "tt_parent t ! i = int p" "p < i" by blast
  have "tt_depth t ! i = length (path_tokens t i)" using node_path_below [OF assms(1,3)] by (simp add: path_tokens_def)
  with p path_tokens_child [OF p] that show ?thesis by blast
qed

lemma length_tree_list [simp]: "length (tree_list t) = nodes t"
  by (simp add: tree_list_def)

lemma nth_tree_list [simp]: "i < nodes t \<Longrightarrow> tree_list t ! i = path_tokens t i"
  by (simp add: tree_list_def)

lemma tree_list_Cons: "tree_ok t \<Longrightarrow> tree_list t = [] # map (path_tokens t) [1..<nodes t]"
  using tree_ok_pos [of t] by (simp add: tree_list_def upt_conv_Cons)

lemma path_vector_eq:
  assumes "tree_ok t"
  shows "k \<le> nodes t \<Longrightarrow> path_vector t [k..<nodes t] (map (path_tokens t) [0..<k]) = Ok (tree_list t)"
proof (induction "nodes t - k" arbitrary: k)
  case 0
  then show ?case by (simp add: tree_list_def)
next
  case (Suc m)
  then have k: "k < nodes t" by simp
  have IH: "path_vector t [Suc k..<nodes t] (map (path_tokens t) [0..<Suc k]) = Ok (tree_list t)"
    by (rule Suc.hyps(1)) (use Suc.hyps(2) k in simp_all)
  show ?case
  proof (cases "k = 0")
    case True
    with IH k assms show ?thesis by (simp add: upt_conv_Cons)
  next
    case False
    with k path_tokens_parent [OF assms _ k] obtain p where
      "tt_parent t ! k = int p" "p < k" "path_tokens t k = path_tokens t p @ [tt_tokens t ! k]" by blast
    with IH k False show ?thesis by (simp add: upt_conv_Cons [OF k] list_get_parent [OF assms])
  qed
qed

lemma node_paths_eq: "tree_ok t \<Longrightarrow> node_paths t = Ok (tree_list t)"
  using path_vector_eq [of t 0] by (simp add: node_paths_def)

fun entry_path :: "merge_entry \<Rightarrow> u32 list" where
  "entry_path (d, parent_path, tok) = parent_path @ [tok]"

lemma collect_entries_eq:
  assumes "tree_ok t"
  shows "set is \<subseteq> {1..<nodes t} \<Longrightarrow> \<exists>es. collect_entries t (tree_list t) is = Ok es \<and> map entry_path es = map (path_tokens t) is \<and>
    (\<forall>e \<in> set es. fst e = length (entry_path e))"
proof (induction "is")
  case (Cons i "is")
  then obtain es where es: "collect_entries t (tree_list t) is = Ok es" "map entry_path es = map (path_tokens t) is"
    "\<forall>e \<in> set es. fst e = length (entry_path e)" by auto
  from Cons.prems have i: "0 < i" "i < nodes t" by auto
  from path_tokens_parent [OF assms i] obtain p where p: "tt_parent t ! i = int p" "p < i"
    "path_tokens t i = path_tokens t p @ [tt_tokens t ! i]" "tt_depth t ! i = length (path_tokens t i)" .
  have "list_get (tt_depth t) i = Some (tt_depth t ! i)" using assms i by (simp add: list_get_def tree_ok_def)
  with p i es show ?case by (simp add: list_get_parent [OF assms])
qed simp

lemma tree_entries_eq:
  assumes "tree_ok t"
  shows "\<exists>es. tree_entries t = Ok es \<and> map entry_path es = tl (tree_list t) \<and> (\<forall>e \<in> set es. fst e = length (entry_path e))"
  using collect_entries_eq [OF assms, of "[1..<nodes t]"]
  by (auto simp: tree_entries_def node_paths_eq [OF assms] tree_list_Cons [OF assms])

lemma by_depth_eq:
  "\<forall>t \<in> set trees. tree_ok t \<Longrightarrow> \<exists>es. by_depth trees = Ok es \<and> map entry_path es = concat (map (\<lambda>t. tl (tree_list t)) trees) \<and>
    (\<forall>e \<in> set es. fst e = length (entry_path e))"
proof (induction trees)
  case (Cons t trees)
  then obtain es where es: "by_depth trees = Ok es" "map entry_path es = concat (map (\<lambda>t. tl (tree_list t)) trees)"
    "\<forall>e \<in> set es. fst e = length (entry_path e)" by auto
  from tree_entries_eq [of t] Cons.prems obtain es' where es': "tree_entries t = Ok es'" "map entry_path es' = tl (tree_list t)"
    "\<forall>e \<in> set es'. fst e = length (entry_path e)" by auto
  have "by_depth (t # trees) = Ok (es' @ es)" using es(1) es'(1) by simp
  then show ?case using es es' by (intro exI [of _ "es' @ es"]) auto
qed simp

lemma map_insort_key: "\<forall>y \<in> set (x # xs). f y = g (h y) \<Longrightarrow> map h (insort_key f x xs) = insort_key g (h x) (map h xs)"
  by (induction xs) auto

lemma map_sort_key: "\<forall>x \<in> set xs. f x = g (h x) \<Longrightarrow> map h (sort_key f xs) = sort_key g (map h xs)"
proof (induction xs)
  case (Cons x xs)
  then have "map h (insort_key f x (sort_key f xs)) = insort_key g (h x) (map h (sort_key f xs))" by (intro map_insort_key) simp
  with Cons show ?case by simp
qed simp

section \<open>The merge on paths\<close>

definition prefix_order :: "'a list set \<Rightarrow> 'a list list \<Rightarrow> bool" where
  "prefix_order S ps \<longleftrightarrow> (\<forall>as p bs. ps = as @ p # bs \<longrightarrow> butlast p \<in> S \<union> set as)"

lemma prefix_order_Cons: "prefix_order S (p # ps) \<longleftrightarrow> butlast p \<in> S \<and> prefix_order (insert p S) ps"
proof
  assume l: "prefix_order S (p # ps)"
  have "butlast q \<in> insert p S \<union> set as" if "ps = as @ q # bs" for as q bs
    using l [unfolded prefix_order_def, rule_format, of "p # as" q bs] that by simp
  moreover have "butlast p \<in> S" using l [unfolded prefix_order_def, rule_format, of "[]" p ps] by simp
  ultimately show "butlast p \<in> S \<and> prefix_order (insert p S) ps" by (simp add: prefix_order_def)
next
  assume r: "butlast p \<in> S \<and> prefix_order (insert p S) ps"
  have "butlast q \<in> S \<union> set as" if e: "p # ps = as @ q # bs" for as q bs
  proof (cases as)
    case (Cons a as')
    with e r have "butlast q \<in> insert p S \<union> set as'" unfolding prefix_order_def by auto
    with Cons e show ?thesis by auto
  qed (use e r in simp)
  then show "prefix_order S (p # ps)" by (simp add: prefix_order_def)
qed

lemma prefix_order_sort:
  assumes "\<And>p. p \<in> set ps \<Longrightarrow> p \<noteq> [] \<and> (butlast p = [] \<or> butlast p \<in> set ps)"
  shows "prefix_order {[]} (sort_key length ps)"
  unfolding prefix_order_def
proof (intro allI impI)
  fix as p bs assume e: "sort_key length ps = as @ p # bs"
  then have p: "p \<in> set ps" by (metis in_set_conv_decomp set_sort)
  have s: "sorted (map length (as @ p # bs))" using sorted_sort_key [of length ps] e by simp
  have "length (butlast p) < length p" using assms [OF p] by simp
  moreover from this have "butlast p \<noteq> p" by (metis less_irrefl)
  ultimately have "butlast p \<noteq> p" "butlast p \<notin> set bs" using s by (auto simp: sorted_append)
  moreover have "butlast p = [] \<or> butlast p \<in> set (as @ p # bs)" using assms [OF p] e by (metis set_sort)
  ultimately show "butlast p \<in> {[]} \<union> set as" by auto
qed

lemma keep_first_simps [simp]:
  "keep_first ps [] = ps"
  "keep_first ps (p # qs) = (if p \<in> set ps then keep_first ps qs else keep_first (ps @ [p]) qs)"
  by (simp_all add: keep_first_def)

lemma keep_first_extends: "\<exists>rs. keep_first ps qs = ps @ rs"
proof (induction qs arbitrary: ps)
  case (Cons q qs)
  then show ?case by (metis append.assoc keep_first_simps(2))
qed simp

lemma set_keep_first: "set (keep_first ps qs) = set ps \<union> set qs"
  by (induction qs arbitrary: ps) auto

lemma distinct_keep_first: "distinct ps \<Longrightarrow> distinct (keep_first ps qs)"
  by (induction qs arbitrary: ps) auto

text \<open>The map of the merge names exactly the nodes of the merged tree.\<close>

definition idx_ok :: "(u32 list \<rightharpoonup> usize) \<Rightarrow> token_tree \<Rightarrow> bool" where
  "idx_ok m t \<longleftrightarrow> (\<forall>p. m p \<noteq> None \<longleftrightarrow> p \<in> set (tree_list t)) \<and> (\<forall>p i. m p = Some i \<longrightarrow> i < nodes t \<and> path_tokens t i = p)"

lemma tree_list_push:
  assumes "tree_ok t" "p < nodes t"
  shows "tree_list (push_node p tok d t) = tree_list t @ [path_tokens t p @ [tok]]"
  using path_tokens_push(1) [OF assms(1), where p = p and tok = tok and d = d] path_tokens_push(2) [OF assms]
  by (simp add: tree_list_def)

lemma merge_loop_law:
  assumes "cap \<le> 2 ^ 31"
  shows "tree_ok out \<Longrightarrow> idx_ok m out \<Longrightarrow> nodes out \<le> cap \<Longrightarrow> prefix_order (set (tree_list out)) (map entry_path es) \<Longrightarrow>
    \<forall>e \<in> set es. fst e = length (entry_path e) \<Longrightarrow>
    tree_ok (merge_loop cap es m out) \<and> tt_tokens (merge_loop cap es m out) ! 0 = tt_tokens out ! 0 \<and>
    tree_list (merge_loop cap es m out) = take cap (keep_first (tree_list out) (map entry_path es))"
proof (induction es arbitrary: m out)
  case (Cons e es)
  obtain d pp tok where e: "e = (d, pp, tok)" by (cases e)
  show ?case
  proof (cases "cap \<le> nodes out")
    case True
    with Cons.prems(3) have "nodes out = cap" by simp
    with keep_first_extends [of "tree_list out" "map entry_path (e # es)"] obtain rs where
      "keep_first (tree_list out) (map entry_path (e # es)) = tree_list out @ rs" "length (tree_list out) = cap" by auto
    with True Cons.prems(1) e show ?thesis by simp
  next
    case room: False
    have pp: "pp \<in> set (tree_list out)" and po: "prefix_order (insert (pp @ [tok]) (set (tree_list out))) (map entry_path es)"
      using Cons.prems(4) e by (simp_all add: prefix_order_Cons)
    with Cons.prems(2) obtain pi where pi: "m pp = Some pi" "pi < nodes out" "path_tokens out pi = pp"
      unfolding idx_ok_def by (metis option.exhaust)
    have rest: "\<forall>e \<in> set es. fst e = length (entry_path e)" "d = length pp + 1" using Cons.prems(5) e by auto
    show ?thesis
    proof (cases "pp @ [tok] \<in> set (tree_list out)")
      case True
      then have "m (pp @ [tok]) \<noteq> None" using Cons.prems(2) by (simp add: idx_ok_def)
      moreover have "prefix_order (set (tree_list out)) (map entry_path es)" using po True by (simp add: insert_absorb)
      ultimately show ?thesis using Cons.IH [OF Cons.prems(1-3) _ rest(1)] room pi True e by auto
    next
      case False
      let ?out = "push_node pi tok d out" and ?m = "m(pp @ [tok] \<mapsto> nodes out)"
      have none: "m (pp @ [tok]) = None" using False Cons.prems(2) unfolding idx_ok_def by auto
      have "length (node_path out pi) = tt_depth out ! pi + 1" using node_path_below [OF Cons.prems(1) pi(2)] by simp
      then have "d = tt_depth out ! pi + 1" using rest(2) pi(3) by (auto simp: path_tokens_def)
      then have ok: "tree_ok ?out" using tree_ok_push [OF Cons.prems(1) pi(2)] room assms by simp
      have tl: "tree_list ?out = tree_list out @ [pp @ [tok]]" using tree_list_push [OF Cons.prems(1) pi(2)] pi(3) by simp
      have "i < nodes ?out \<and> path_tokens ?out i = p" if "?m p = Some i" for p i
        using that Cons.prems(2) pi path_tokens_push(1) [OF Cons.prems(1)] path_tokens_push(2) [OF Cons.prems(1) pi(2)]
        by (cases "p = pp @ [tok]") (auto simp: idx_ok_def less_Suc_eq)
      moreover have "?m p \<noteq> None \<longleftrightarrow> p \<in> set (tree_list ?out)" for p
        using Cons.prems(2) unfolding tl by (auto simp: idx_ok_def)
      ultimately have idx: "idx_ok ?m ?out" by (simp only: idx_ok_def) blast
      have root: "tt_tokens ?out ! 0 = tt_tokens out ! 0" using tree_ok_pos [OF Cons.prems(1)] by simp
      have "tree_ok (merge_loop cap es ?m ?out) \<and> tt_tokens (merge_loop cap es ?m ?out) ! 0 = tt_tokens ?out ! 0 \<and>
          tree_list (merge_loop cap es ?m ?out) = take cap (keep_first (tree_list ?out) (map entry_path es))"
        by (rule Cons.IH [OF ok idx]) (use room po tl rest(1) in auto)
      then show ?thesis using room pi none False e root tl by simp
    qed
  qed
qed (simp add: take_all)

lemma sort_key_first: "\<forall>x \<in> set xs. f a \<le> f x \<Longrightarrow> insort_key f a xs = a # xs"
  by (cases xs) auto

lemma keep_first_filter: "keep_first ps qs = keep_first ps (filter (\<lambda>q. q \<notin> set ps) qs)"
proof -
  have "keep_first ps qs = keep_first ps (filter (\<lambda>q. q \<notin> S) qs)" if "S \<subseteq> set ps" for S
    using that
  proof (induction qs arbitrary: ps)
    case (Cons q qs)
    from Cons.prems have "S \<subseteq> set (ps @ [q])" by auto
    with Cons.IH [OF Cons.prems] Cons.IH [OF this] Cons.prems show ?case by auto
  qed simp
  then show ?thesis by blast
qed

text \<open>The specification of the merge: the paths of all trees, shortest first and in the order of the trees
  among paths of the same length, without repetition, up to the budget.\<close>

definition merge_spec :: "usize \<Rightarrow> u32 list list list \<Rightarrow> u32 list list" where
  "merge_spec cap pss = take cap (keep_first [] (sort_key length ([] # concat pss)))"

lemma merge_spec_eq:
  assumes "\<And>l. l \<in> set pss \<Longrightarrow> \<exists>ps. l = [] # ps \<and> [] \<notin> set ps"
  shows "merge_spec cap pss = take cap (keep_first [[]] (sort_key length (concat (map tl pss))))"
proof -
  have f: "filter (\<lambda>p. p \<noteq> []) (concat pss) = concat (map tl pss)"
    using assms
  proof (induction pss)
    case (Cons l pss)
    then obtain ps where l: "l = [] # ps" "[] \<notin> set ps" by (meson list.set_intros(1))
    then have "filter (\<lambda>p. p \<noteq> []) ps = ps" by (intro filter_True) auto
    with Cons l show ?case by simp
  qed simp
  have "sort_key length ([] # concat pss) = [] # sort_key length (concat pss)" by (simp add: sort_key_first)
  then have "merge_spec cap pss = take cap (keep_first [[]] (sort_key length (concat pss)))" by (simp add: merge_spec_def)
  then show ?thesis using keep_first_filter [of "[[]]" "sort_key length (concat pss)"] f by (simp add: filter_sort)
qed

lemma path_tokens_not_Nil:
  assumes "tree_ok t" "i \<in> {1..<nodes t}"
  shows "path_tokens t i \<noteq> [] \<and> butlast (path_tokens t i) \<in> set (tree_list t)"
proof -
  from assms have i: "0 < i" "i < nodes t" by auto
  from path_tokens_parent [OF assms(1) i] obtain p where p: "p < i" "path_tokens t i = path_tokens t p @ [tt_tokens t ! i]" .
  with i have "path_tokens t p \<in> set (tree_list t)" by (auto simp: tree_list_def)
  with p show ?thesis by simp
qed

lemma tl_tree_list: "tree_ok t \<Longrightarrow> tl (tree_list t) = map (path_tokens t) [1..<nodes t]"
  by (simp add: tree_list_Cons)

lemma merge_trees_law:
  assumes ok: "\<forall>t \<in> set trees. tree_ok t"
  shows "\<exists>t. merge_trees trees max_nodes = Ok t \<and> tree_ok t \<and> tt_tokens t ! 0 = merge_anchor trees \<and>
    tree_list t = merge_spec (min (max max_nodes 1) TREE_MAX_NODES) (map tree_list trees)"
proof -
  let ?cap = "min (max max_nodes 1) TREE_MAX_NODES" and ?a = "merge_anchor trees"
  let ?paths = "concat (map (\<lambda>t. tl (tree_list t)) trees)"
  from by_depth_eq [OF ok] obtain es where es: "by_depth trees = Ok es" "map entry_path es = ?paths"
    "\<forall>e \<in> set es. fst e = length (entry_path e)" by blast
  have sorted: "map entry_path (sort_key fst es) = sort_key length ?paths" using map_sort_key [of es fst length entry_path] es(2,3) by simp
  have po: "prefix_order {[]} (map entry_path (sort_key fst es))"
    unfolding sorted
  proof (rule prefix_order_sort)
    fix p assume "p \<in> set ?paths"
    then obtain t where t: "t \<in> set trees" "p \<in> set (tl (tree_list t))" by auto
    with ok have "p \<noteq> [] \<and> butlast p \<in> set (tree_list t)" using path_tokens_not_Nil [of t] by (auto simp: tl_tree_list)
    with t ok show "p \<noteq> [] \<and> (butlast p = [] \<or> butlast p \<in> set ?paths)" by (auto simp: tree_list_Cons tl_tree_list)
  qed
  have root: "tree_ok (linear ?a [])" by (rule tree_ok_linear) simp
  have tl: "tree_list (linear ?a []) = [[]]" using root by (simp add: tree_list_def)
  have idx: "idx_ok [[] \<mapsto> 0] (linear ?a [])" using root by (simp add: idx_ok_def tl)
  have cap: "?cap \<le> 2 ^ 31" "nodes (linear ?a []) \<le> ?cap" by (simp_all add: TREE_MAX_NODES_def)
  have po': "prefix_order (set (tree_list (linear ?a []))) (map entry_path (sort_key fst es))" using po by (simp add: tl)
  have key: "\<forall>e \<in> set (sort_key fst es). fst e = length (entry_path e)" using es(3) by simp
  have "tt_tokens (linear ?a []) ! 0 = ?a" by (simp add: linear_def)
  note m = merge_loop_law [OF cap(1) root idx cap(2) po' key, unfolded tl sorted this]
  have "merge_spec ?cap (map tree_list trees) = take ?cap (keep_first [[]] (sort_key length ?paths))"
  proof (subst merge_spec_eq)
    fix l assume "l \<in> set (map tree_list trees)"
    then obtain t where t: "t \<in> set trees" "l = tree_list t" by auto
    then show "\<exists>ps. l = [] # ps \<and> [] \<notin> set ps" using ok path_tokens_not_Nil [of t] by (fastforce simp: tree_list_Cons)
  qed (simp add: comp_def)
  then show ?thesis using m es(1) by (simp add: merge_trees_def Let_def)
qed

text \<open>What the specification keeps: distinct paths, all of them or as many as the budget allows, and no
  path is dropped for a longer one.\<close>

lemma sorted_keep_first:
  assumes "sorted (map f (ps @ qs))"
  shows "sorted (map f (keep_first ps qs))"
  using assms
proof (induction qs arbitrary: ps)
  case (Cons q qs)
  then have "sorted (map f (ps @ qs))" "sorted (map f ((ps @ [q]) @ qs))" by (auto simp: sorted_append)
  with Cons.IH show ?case by auto
qed simp

lemma merge_spec_props:
  defines "U \<equiv> \<lambda>pss. insert [] (\<Union>l \<in> set pss. set l)"
  shows "distinct (merge_spec cap pss)" "set (merge_spec cap pss) \<subseteq> U pss"
    "length (merge_spec cap pss) = min cap (card (U pss))"
    "p \<in> set (merge_spec cap pss) \<Longrightarrow> q \<in> U pss - set (merge_spec cap pss) \<Longrightarrow> length p \<le> length q"
    "sorted (map length (merge_spec cap pss))"
proof -
  let ?ps = "keep_first [] (sort_key length ([] # concat pss))"
  have d: "distinct ?ps" by (rule distinct_keep_first) simp
  have s: "set ?ps = U pss" by (simp only: set_keep_first) (simp add: U_def set_insort_key)
  have o: "sorted (map length ?ps)" by (rule sorted_keep_first) (simp only: append_Nil sorted_sort_key)
  show "distinct (merge_spec cap pss)" using d by (simp add: merge_spec_def)
  show "set (merge_spec cap pss) \<subseteq> U pss" using s set_take_subset [of cap ?ps] by (simp add: merge_spec_def)
  show "length (merge_spec cap pss) = min cap (card (U pss))"
    using distinct_card [OF d] s by (simp add: merge_spec_def)
  show "sorted (map length (merge_spec cap pss))" using o by (simp add: merge_spec_def take_map [symmetric] sorted_wrt_take)
  assume p: "p \<in> set (merge_spec cap pss)" and q: "q \<in> U pss - set (merge_spec cap pss)"
  have "set ?ps = set (take cap ?ps) \<union> set (drop cap ?ps)" by (metis append_take_drop_id set_append)
  with q s have "q \<in> set (drop cap ?ps)" unfolding merge_spec_def by blast
  moreover have "sorted (map length (take cap ?ps @ drop cap ?ps))" using o by simp
  moreover have "length p \<le> length q" if "sorted (map length (xs @ ys))" "p \<in> set xs" "q \<in> set ys" for xs ys
    using that by (auto simp: sorted_append)
  ultimately show "length p \<le> length q" using p unfolding merge_spec_def by blast
qed

section \<open>The contract of the drafters\<close>

lemma greedy_decode_add: "greedy_decode model ctx (m + n) = greedy_decode model ctx m @ greedy_decode model (ctx @ greedy_decode model ctx m) n"
  by (induction n) (simp_all add: Let_def)

lemma take_greedy_decode: "take k (greedy_decode model ctx n) = greedy_decode model ctx (min k n)"
proof (cases "k \<le> n")
  case True
  then show ?thesis using greedy_decode_add [of model ctx k "n - k"] by simp
qed simp

locale tree_drafter =
  fixes inv :: "'d \<Rightarrow> bool"
    and draft_tree :: "'d \<Rightarrow> u32 list \<Rightarrow> u32 \<Rightarrow> usize \<Rightarrow> usize \<Rightarrow> (token_tree, unit) outcome \<times> 'd"
  assumes draft_ok: "inv d \<Longrightarrow> max_depth < 2 ^ 16 \<Longrightarrow> max_nodes \<le> 2 ^ 31 \<Longrightarrow>
    length history + max_depth \<le> usize_max \<Longrightarrow> \<exists>t d'. draft_tree d history anchor max_nodes max_depth = (Ok t, d') \<and> inv d' \<and> drafted anchor max_nodes max_depth t"
begin

text \<open>A round of speculation emits what the model decodes greedily, at least one token.\<close>

lemma round_lossless:
  assumes "inv d" "max_depth < 2 ^ 16" "max_nodes \<le> 2 ^ 31" "length history + max_depth \<le> usize_max"
  shows "\<exists>t d' emitted. draft_tree d history (last history) max_nodes max_depth = (Ok t, d') \<and> inv d' \<and>
    spec_round model t history = Ok emitted \<and> emitted = greedy_decode model history (length emitted) \<and> emitted \<noteq> [] \<and>
    list_get (tt_tokens t) 0 = Some (last history)"
proof -
  from draft_ok [OF assms, of "last history"] obtain t d' where t: "draft_tree d history (last history) max_nodes max_depth = (Ok t, d')" "inv d'"
    and ok: "tree_ok t" and root: "tt_tokens t ! 0 = last history" by (meson drafted_def)
  let ?p = "map (\<lambda>i. model (history @ path_tokens t i)) [0..<nodes t]"
  have pred: "predicted_for_tree model t history = Ok ?p"
    by (simp add: predicted_for_tree_def node_paths_eq [OF ok] tree_list_def comp_def)
  from accept_longest_path_law [OF ok, of model history ?p] obtain emitted leaf where
    a: "accept_longest_path t ?p = Ok (emitted, leaf)" and l: "accept_ok model history t emitted leaf" by (auto simp: predicts_def)
  have "spec_round model t history = Ok emitted" by (simp add: spec_round_def pred a)
  moreover have "emitted \<noteq> []" "emitted = greedy_decode model history (length emitted)" using l unfolding accept_ok_def by auto
  moreover have "list_get (tt_tokens t) 0 = Some (last history)" using ok root by (simp add: list_get_def tree_ok_def)
  ultimately show ?thesis using t by blast
qed

lemma decode_loop_from:
  assumes "inv d" "k \<le> cnt" "prompt \<noteq> []" "rounds \<le> k" "cnt < 10000" "length prompt + 10008 \<le> usize_max"
  shows "decode_loop draft_tree model cnt d (prompt @ greedy_decode model prompt k) (greedy_decode model prompt k) rounds =
    Ok (greedy_decode model prompt cnt)"
  using assms
proof (induction "cnt - k" arbitrary: k d rounds rule: less_induct)
  case less
  show ?case
  proof (cases "k = cnt")
    case True
    then show ?thesis by (subst decode_loop.simps) simp
  next
    case False
    let ?h = "prompt @ greedy_decode model prompt k"
    have "8 < (2::nat) ^ 16" "TREE_MAX_NODES \<le> 2 ^ 31" "length ?h + 8 \<le> usize_max"
      using less.prems(2,5,6) by (simp_all add: TREE_MAX_NODES_def)
    from round_lossless [OF less.prems(1) this, of model] obtain t d' emitted where
      t: "draft_tree d ?h (last ?h) TREE_MAX_NODES 8 = (Ok t, d')" "inv d'" "spec_round model t ?h = Ok emitted"
        "list_get (tt_tokens t) 0 = Some (last ?h)"
      and e: "emitted = greedy_decode model ?h (length emitted)" "emitted \<noteq> []" by blast
    let ?n = "min (cnt - k) (length emitted)"
    have new: "take (cnt - k) emitted = greedy_decode model ?h ?n" using e(1) take_greedy_decode by metis
    have n: "k + ?n \<le> cnt" "cnt - (k + ?n) < cnt - k" "rounds + 1 \<le> k + ?n"
      using less.prems(2,4) False e(2) by (cases emitted; simp)+
    from less.hyps [OF n(2) t(2) n(1) less.prems(3) n(3) less.prems(5,6)] show ?thesis
      using t False less.prems(2-5) new e(2) by (subst decode_loop.simps) (simp add: Let_def greedy_decode_add)
  qed
qed

text \<open>Decoding with the drafter ends and gives the greedy continuation of the prompt.\<close>

lemma decode_lossless:
  "inv d \<Longrightarrow> prompt \<noteq> [] \<Longrightarrow> cnt < 10000 \<Longrightarrow> length prompt + 10008 \<le> usize_max \<Longrightarrow>
    assert_drafter_lossless draft_tree model d prompt cnt = Ok (greedy_decode model prompt cnt)"
  using decode_loop_from [of d 0 cnt prompt 0 model] by (simp add: assert_drafter_lossless_def)

end

interpretation sx: tree_drafter "\<lambda>_. True" "\<lambda>d h a mx md. apfst Ok (suffix_draft_tree d h a mx md)"
  by unfold_locales (use suffix_drafts in \<open>simp add: apfst_def map_prod_def split_beta\<close>)

interpretation rc: tree_drafter "\<lambda>_. True" "\<lambda>d h a mx md. apfst Ok (recycling_draft_tree iter d h a mx md)" for iter
  by unfold_locales (use recycling_drafts [OF _ _ prod.collapse [symmetric]] in \<open>simp add: apfst_def map_prod_def split_beta\<close>)

interpretation ng: tree_drafter drafter_inv ngram_draft_tree
  by unfold_locales (use ngram_drafts_tree in blast)

text \<open>The merge of any drafters is a drafter.\<close>

fun any_inv :: "any_drafter \<Rightarrow> bool" where
  "any_inv (NGram d) = drafter_inv d"
| "any_inv _ = True"

lemma draft_any_ok:
  assumes "any_inv d" "md < 2 ^ 16" "mx \<le> 2 ^ 31" "length h + md \<le> usize_max"
  shows "\<exists>t d'. draft_any iter d h a mx md = (Ok t, d') \<and> drafted a mx md t \<and> any_inv d'"
proof (cases d)
  case (NGram n)
  then show ?thesis using assms ngram_drafts_tree [of md n h a mx] by auto
next
  case (Suffix n)
  then show ?thesis using suffix_drafts [OF assms(2,3), of a n h] by (simp add: map_prod_def split_beta)
next
  case (Recycling n)
  then show ?thesis
    using recycling_drafts [OF assms(2,3) prod.collapse [symmetric], of a iter n h] by (simp add: map_prod_def split_beta)
qed

lemma draft_each_ok:
  assumes "md < 2 ^ 16" "mx \<le> 2 ^ 31" "length h + md \<le> usize_max"
  shows "\<forall>d \<in> set ds. any_inv d \<Longrightarrow> \<exists>ts ds'. draft_each iter ds h a mx md = (Ok ts, ds') \<and> length ts = length ds \<and>
    length ds' = length ds \<and> (\<forall>t \<in> set ts. drafted a mx md t) \<and> (\<forall>d \<in> set ds'. any_inv d)"
proof (induction ds)
  case (Cons d ds)
  from draft_any_ok [OF _ assms, where d = d and iter = iter and a = a] Cons.prems obtain t d' where
    "draft_any iter d h a mx md = (Ok t, d')" "drafted a mx md t" "any_inv d'" by auto
  with Cons show ?case by auto
qed simp

lemma depth_is_path_length: "tree_ok t \<Longrightarrow> i < nodes t \<Longrightarrow> tt_depth t ! i = length (path_tokens t i)"
  using node_path_below [of t i] by (simp add: path_tokens_def)

lemma merged_drafted:
  assumes "trees \<noteq> []" "\<forall>t \<in> set trees. drafted a mx md t"
  shows "\<exists>t. merge_trees trees mx = Ok t \<and> drafted a mx md t"
proof -
  have oks: "\<forall>t \<in> set trees. tree_ok t" using assms(2) by (simp add: drafted_def)
  from merge_trees_law [OF oks] obtain t where t: "merge_trees trees mx = Ok t" "tree_ok t" "tt_tokens t ! 0 = merge_anchor trees"
    "tree_list t = merge_spec (min (max mx 1) TREE_MAX_NODES) (map tree_list trees)" by blast
  obtain u us where u: "trees = u # us" using assms(1) by (cases trees) auto
  with assms(2) have ua: "tt_tokens u \<noteq> []" "tt_tokens u ! 0 = a" by (auto simp: drafted_def tree_ok_def)
  then have "merge_anchor trees = a" by (simp add: merge_anchor_def u hd_conv_nth)
  moreover have "nodes t \<le> max mx 1"
    using arg_cong [OF t(4), of length] by (simp add: merge_spec_def)
  moreover have "tt_depth t ! i \<le> md" if i: "i < nodes t" for i
  proof -
    have "path_tokens t i \<in> set (tree_list t)" using i by (simp add: tree_list_def)
    then have "path_tokens t i \<in> insert [] (\<Union>l \<in> set (map tree_list trees). set l)"
      using merge_spec_props(2) [of "min (max mx 1) TREE_MAX_NODES" "map tree_list trees"] unfolding t(4) by blast
    then consider "path_tokens t i = []" | v j where "v \<in> set trees" "j < nodes v" "path_tokens t i = path_tokens v j"
      by (auto simp: tree_list_def)
    then show ?thesis
    proof cases
      case 2
      then have "tt_depth v ! j \<le> md" "tree_ok v" using assms(2) by (auto simp: drafted_def)
      with 2 t(2) i depth_is_path_length show ?thesis by metis
    qed (use depth_is_path_length [OF t(2) i] in simp)
  qed
  ultimately show ?thesis using t by (auto simp: drafted_def)
qed

interpretation mg: tree_drafter "\<lambda>ds. ds \<noteq> [] \<and> (\<forall>d \<in> set ds. any_inv d)" "draft_and_merge iter" for iter
proof
  fix ds and md mx :: nat and h :: "u32 list" and a
  assume ds: "ds \<noteq> [] \<and> (\<forall>d \<in> set ds. any_inv d)" and b: "md < 2 ^ 16" "mx \<le> 2 ^ 31" "length h + md \<le> usize_max"
  from draft_each_ok [OF b, where ds = ds and iter = iter and a = a] ds obtain ts ds' where each: "draft_each iter ds h a mx md = (Ok ts, ds')"
    "length ts = length ds" "length ds' = length ds" "\<forall>t \<in> set ts. drafted a mx md t" "\<forall>d \<in> set ds'. any_inv d" by auto
  from this(2,3) ds have "ts \<noteq> []" "ds' \<noteq> []" by auto
  then show "\<exists>t d'. draft_and_merge iter ds h a mx md = (Ok t, d') \<and> (d' \<noteq> [] \<and> (\<forall>d \<in> set d'. any_inv d)) \<and> drafted a mx md t"
    using merged_drafted [of ts a mx md] each by (auto simp: draft_and_merge_def)
qed

section \<open>What token recycling has learnt\<close>

text \<open>The uses of a recycling drafter, and the token streams it was given.\<close>

datatype recycling_op = Learn "u32 list" | Draft "u32 list" u32 usize usize

fun recycling_use :: "(freqs \<Rightarrow> freqs) \<Rightarrow> recycling_op \<Rightarrow> recycling_drafter \<Rightarrow> recycling_drafter" where
  "recycling_use iter (Learn stream) d = recycling_learn iter stream d"
| "recycling_use iter (Draft history anchor max_nodes max_depth) d =
     snd (recycling_draft_tree iter d history anchor max_nodes max_depth)"

definition recycling_run :: "(freqs \<Rightarrow> freqs) \<Rightarrow> recycling_op list \<Rightarrow> recycling_drafter \<Rightarrow> recycling_drafter" where
  "recycling_run iter ops d = foldl (\<lambda>d oper. recycling_use iter oper d) d ops"

fun stream_of :: "recycling_op \<Rightarrow> u32 list" where
  "stream_of (Learn stream) = stream"
| "stream_of (Draft history anchor max_nodes max_depth) = history"

definition streams_of :: "recycling_op list \<Rightarrow> u32 list list" where
  "streams_of ops = map stream_of ops"

text \<open>Every successor the map has stands next to its token in one of the streams.\<close>

definition learnt :: "u32 list set \<Rightarrow> recycling_drafter \<Rightarrow> bool" where
  "learnt S d \<longleftrightarrow> (\<forall>x fs tok. rd_succ d x = Some fs \<longrightarrow> tok \<in> fst ` set fs \<longrightarrow> (\<exists>s \<in> S. sublist [x, tok] s))"

lemma learnt_mono: "learnt S d \<Longrightarrow> S \<subseteq> T \<Longrightarrow> learnt T d"
  unfolding learnt_def by blast

lemma learnt_observe:
  assumes "learnt S d" "s \<in> S" "sublist [x, y] s"
  shows "learnt S (recycling_observe iter x y d)"
  unfolding learnt_def
proof (intro allI impI)
  fix z fs tok
  assume z: "rd_succ (recycling_observe iter x y d) z = Some fs" and tok: "tok \<in> fst ` set fs"
  show "\<exists>s \<in> S. sublist [z, tok] s"
  proof (cases "z = x")
    case True
    let ?old = "case rd_succ d x of None \<Rightarrow> [] | Some fs \<Rightarrow> fs"
    have "set fs \<subseteq> set (bump y ?old)"
      using z True by (auto simp: recycling_observe_def Let_def split: if_splits option.splits)
    then have "tok = y \<or> tok \<in> fst ` set ?old" using tok fst_bump [of y ?old] by blast
    then show ?thesis
    proof
      assume "tok \<in> fst ` set ?old"
      then obtain old where "rd_succ d x = Some old" "tok \<in> fst ` set old" by (cases "rd_succ d x") auto
      then show ?thesis using assms(1) True unfolding learnt_def by blast
    qed (use assms(2,3) True in blast)
  next
    case False
    then have "rd_succ d z = Some fs" using z by (simp add: recycling_observe_def Let_def)
    then show ?thesis using assms(1) tok unfolding learnt_def by blast
  qed
qed

lemma learnt_learn:
  "learnt S d \<Longrightarrow> s \<in> S \<Longrightarrow> s = us @ stream \<Longrightarrow> learnt S (recycling_learn iter stream d)"
proof (induction iter stream d arbitrary: us rule: recycling_learn.induct)
  case (1 iter x y rest d)
  have "sublist [x, y] s" unfolding sublist_def using "1.prems"(3) by (intro exI [of _ us] exI [of _ rest]) simp
  then show ?case using "1.IH" [of "us @ [x]"] "1.prems" learnt_observe by simp
qed simp_all

lemma learnt_draft:
  assumes "learnt S d"
  shows "learnt (insert history S) (snd (recycling_draft_tree iter d history anchor max_nodes max_depth))"
proof (cases "2 \<le> length history")
  case True
  let ?n = "length history"
  obtain us y where y: "history = us @ [y]" using True by (cases history rule: rev_cases) auto
  then obtain vs x where "us = vs @ [x]" using True by (cases us rule: rev_cases) auto
  with y have h: "history = vs @ [x, y] @ []" "?n = length vs + 2" by simp_all
  then have "history ! (?n - 2) = x" "history ! (?n - 1) = y" by (simp_all add: nth_append)
  moreover have "sublist [x, y] history" unfolding sublist_def using h(1) by blast
  ultimately have "sublist [history ! (?n - 2), history ! (?n - 1)] history" by simp
  then have "learnt (insert history S) (recycling_observe iter (history ! (?n - 2)) (history ! (?n - 1)) d)"
    using learnt_observe [OF learnt_mono [OF assms]] by blast
  then show ?thesis using True by (auto simp: recycling_draft_tree_def Let_def)
next
  case False
  then show ?thesis using learnt_mono [OF assms, of "insert history S"] by (auto simp: recycling_draft_tree_def Let_def)
qed

lemma learnt_run: "learnt S d \<Longrightarrow> learnt (S \<union> set (streams_of ops)) (recycling_run iter ops d)"
proof (induction ops arbitrary: S d)
  case Nil
  then show ?case by (simp add: recycling_run_def streams_of_def)
next
  case (Cons oper ops)
  have "learnt (insert (stream_of oper) S) (recycling_use iter oper d)"
  proof (cases oper)
    case (Learn stream)
    then show ?thesis using learnt_learn [OF learnt_mono [OF Cons.prems], of "insert stream S" stream "[]"] by auto
  next
    case (Draft history anchor max_nodes max_depth)
    then show ?thesis using learnt_draft [OF Cons.prems] by simp
  qed
  from Cons.IH [OF this] show ?case by (simp add: recycling_run_def streams_of_def)
qed

section \<open>Properties\<close>

text \<open>C15. Merging implements its specification. For well-formed trees the merge returns a well-formed
  tree with the common anchor, and the list of its paths is the specification applied to the lists of
  paths of its inputs. So no path is duplicated or invented, the budget is used up before any path is
  dropped, and a dropped path is at least as long as every kept one.\<close>

theorem merge_trees_refines:
  assumes "\<forall>t \<in> set trees. tree_ok t"
  shows "\<exists>t. merge_trees trees max_nodes = Ok t \<and> tree_ok t \<and> tt_tokens t ! 0 = merge_anchor trees \<and>
    tree_list t = merge_spec (min (max max_nodes 1) TREE_MAX_NODES) (map tree_list trees) \<and>
    distinct (tree_list t) \<and>
    nodes t = min (min (max max_nodes 1) TREE_MAX_NODES) (card (insert [] (\<Union>u \<in> set trees. set (tree_list u)))) \<and>
    (\<forall>p q. p \<in> set (tree_list t) \<and> q \<in> (\<Union>u \<in> set trees. set (tree_list u)) - set (tree_list t) \<longrightarrow> length p \<le> length q)"
proof -
  let ?cap = "min (max max_nodes 1) TREE_MAX_NODES" and ?pss = "map tree_list trees"
  from merge_trees_law [OF assms] obtain t where t: "merge_trees trees max_nodes = Ok t" "tree_ok t"
    "tt_tokens t ! 0 = merge_anchor trees" "tree_list t = merge_spec ?cap ?pss" by blast
  have "(\<Union>l \<in> set ?pss. set l) = (\<Union>u \<in> set trees. set (tree_list u))" by simp
  note props = merge_spec_props [where cap = ?cap and pss = ?pss, unfolded this, folded t(4)]
  have "length p \<le> length q" if "p \<in> set (tree_list t)" "q \<in> (\<Union>u \<in> set trees. set (tree_list u)) - set (tree_list t)" for p q
    by (rule props(4) [OF that(1)]) (use that(2) in blast)
  then show ?thesis using t props(1) props(3) [unfolded length_tree_list] by (intro exI [of _ t] conjI) blast+
qed

theorem merge_trees_refines_witness:
  "\<exists>t. merge_trees [linear 5 [6, 7], two_branch, linear 5 [9, 9]] 4 = Ok t \<and> tree_list t = [[], [6], [7], [9]] \<and> tt_tokens t ! 0 = 5"
proof -
  have ok: "\<forall>t \<in> set [linear 5 [6, 7], two_branch, linear 5 [9, 9]]. tree_ok t" by code_simp
  have s: "merge_spec (min (max 4 1) TREE_MAX_NODES) (map tree_list [linear 5 [6, 7], two_branch, linear 5 [9, 9]]) = [[], [6], [7], [9]]"
    by code_simp
  have a: "merge_anchor [linear 5 [6, 7], two_branch, linear 5 [9, 9]] = 5" by code_simp
  from merge_trees_refines [OF ok, of 4] show ?thesis unfolding s a by blast
qed

text \<open>C14. Decoding with any mixture of drafters ends and is lossless. From a prompt that is not empty (and is shorter than
  2^64 - 10008 tokens, which every vector is), and for fewer than 10000 tokens (the loop may take fewer than 10000 rounds,
  and every round emits at least one token), whatever the target
  model predicts, whatever order the hash maps iterate in and however the n-gram, suffix and recycling drafters
  are configured, the loop that drafts, merges, verifies and accepts returns, none of its assertions fails, and
  its tokens are exactly the tokens the model decodes greedily without any draft. From an empty prompt it panics.\<close>

theorem merged_decoding_lossless:
  assumes "drafters \<noteq> []" "\<forall>d \<in> set drafters. any_inv d" "cnt < 10000" "length prompt + 10008 \<le> usize_max"
  shows "assert_drafter_lossless (draft_and_merge iter) model drafters prompt cnt =
    (if prompt = [] \<and> cnt \<noteq> 0 then Panic else Ok (greedy_decode model prompt cnt))"
proof (cases "prompt = []")
  case True
  then show ?thesis by (cases "cnt = 0") (simp_all add: assert_drafter_lossless_def decode_loop.simps)
next
  case False
  then show ?thesis using mg.decode_lossless assms by simp
qed

definition next_token :: "u32 list \<Rightarrow> u32" where
  "next_token ctx = (last ctx + 1) mod 3"

theorem merged_decoding_lossless_witness:
  "assert_drafter_lossless (draft_and_merge rev) next_token
     [NGram (drafter_new 1 3 8), Suffix suffix_default, Recycling recycling_new] [0, 1, 2] 5 = Ok [0, 1, 2, 0, 1]"
proof -
  have inv: "\<forall>d \<in> set [NGram (drafter_new 1 3 8), Suffix suffix_default, Recycling recycling_new]. any_inv d"
    by (simp add: drafter_new_inv)
  have g: "greedy_decode next_token [0, 1, 2] 5 = [0, 1, 2, 0, 1]" by code_simp
  have "length [0, 1, 2 :: u32] + 10008 \<le> usize_max" by (simp add: usize_max_def)
  from merged_decoding_lossless [OF _ inv _ this, of 5 rev next_token] show ?thesis by (simp add: g)
qed

text \<open>C30. Model-free drafters propose only what they have seen. Every edge of a tree drafted by suffix
  decoding continues an earlier occurrence, in the window, of a suffix of the history extended by the path
  of at least the configured length. Every edge of a tree drafted by token recycling, after any sequence of
  learnt streams and drafts from a drafter with an empty map, is a pair of tokens that stand next to each
  other, in this order, in one of those streams or histories. Both trees are well-formed, start at the anchor
  and stay within the budgets of nodes (at most 2^31) and depth (below 2^16).\<close>

theorem drafts_were_observed:
  assumes "max_depth < 2 ^ 16" "max_nodes \<le> 2 ^ 31" "rd_succ d0 = (\<lambda>_. None)"
    and "recycling_draft_tree iter (recycling_run iter ops d0) history anchor max_nodes max_depth = (t, d')"
  shows "drafted anchor max_nodes max_depth (fst (suffix_draft_tree sd history anchor max_nodes max_depth)) \<and>
    edges_ok (observed_after sd (windowed sd history)) (fst (suffix_draft_tree sd history anchor max_nodes max_depth)) \<and>
    drafted anchor max_nodes max_depth t \<and>
    edges_ok (\<lambda>path tok. \<exists>s \<in> set (streams_of ops @ [history]). sublist [last (anchor # path), tok] s) t"
proof -
  have "learnt (set (streams_of ops)) (recycling_run iter ops d0)"
    using learnt_run [of "{}" d0 ops iter] assms(3) by (simp add: learnt_def)
  then have "learnt (insert history (set (streams_of ops))) d'" using learnt_draft assms(4) by (metis snd_conv)
  then have "edges_ok (\<lambda>path tok. \<exists>s \<in> set (streams_of ops @ [history]). sublist [last (anchor # path), tok] s) t"
    if "edges_ok (recorded_after d' anchor) t"
    using that unfolding edges_ok_def recorded_after_def learnt_def by fastforce
  then show ?thesis using suffix_drafts [OF assms(1,2), of anchor sd history] recycling_drafts [OF assms(1,2,4)] by blast
qed

definition demo_ops :: "recycling_op list" where
  "demo_ops = [Learn [1, 2, 3, 1, 2, 4], Draft [2, 4, 1] 1 4 2]"

theorem drafts_were_observed_witness:
  "tree_list (fst (suffix_draft_tree suffix_default [1, 2, 3, 1, 2] 2 4 2)) = [[], [3], [3, 1]] \<and>
    edges_ok (observed_after suffix_default [1, 2, 3, 1, 2]) (fst (suffix_draft_tree suffix_default [1, 2, 3, 1, 2] 2 4 2)) \<and>
    tree_list (fst (recycling_draft_tree id (recycling_run id demo_ops recycling_new) [1, 2, 3, 1, 2] 2 4 2)) = [[], [3], [4], [3, 1]] \<and>
    edges_ok (\<lambda>path tok. \<exists>s \<in> set (streams_of demo_ops @ [[1, 2, 3, 1, 2]]). sublist [last (2 # path), tok] s)
      (fst (recycling_draft_tree id (recycling_run id demo_ops recycling_new) [1, 2, 3, 1, 2] 2 4 2))"
proof -
  have b: "2 < (2::nat) ^ 16" "4 \<le> (2::nat) ^ 31" by simp_all
  have w: "windowed suffix_default [1, 2, 3, 1, 2] = [1, 2, 3, 1, 2]" by code_simp
  have n: "rd_succ recycling_new = (\<lambda>_. None)" by (simp add: recycling_new_def)
  have "tree_list (fst (suffix_draft_tree suffix_default [1, 2, 3, 1, 2] 2 4 2)) = [[], [3], [3, 1]]"
    "tree_list (fst (recycling_draft_tree id (recycling_run id demo_ops recycling_new) [1, 2, 3, 1, 2] 2 4 2)) = [[], [3], [4], [3, 1]]"
    by code_simp+
  with drafts_were_observed [OF b n prod.collapse [symmetric], of 2 suffix_default "[1, 2, 3, 1, 2]" id demo_ops] show ?thesis
    unfolding w by blast
qed

end
