(* ===== verification/Spec_Latch.thy ===== *)
theory Spec_Latch
  imports Prelude
begin

text \<open>
  The latch that switches speculation on and off (\<open>SpecLatch\<close> of \<open>src/src/inference/speculative.rs\<close>).

  A round asks the latch whether to draft. When it may not, the round reports the skip; when it may, it
  reports how many drafts the target accepted, or nothing when no draft could be verified. The rounds of a
  stream are a step relation; the counters are 32 and 64 bits and saturate.
\<close>

section \<open>The latch\<close>

record spec_latch =
  productive_drafts :: nat
  exit_run :: nat
  enter_drafts :: nat
  warmup_rounds :: nat
  low_reprobe :: nat
  rounds_done :: nat
  consecutive_skips :: nat
  nonproductive_run :: nat
  speculating :: bool

definition u32_max :: nat where "u32_max = 2 ^ 32 - 1"
definition u64_max :: nat where "u64_max = 2 ^ 64 - 1"

definition latch_default :: spec_latch where
  "latch_default = \<lparr>productive_drafts = 2, exit_run = 4, enter_drafts = 2, warmup_rounds = 1, low_reprobe = 64,
     rounds_done = 0, consecutive_skips = 0, nonproductive_run = 0, speculating = True\<rparr>"

definition should_speculate :: "spec_latch \<Rightarrow> bool" where
  "should_speculate l \<longleftrightarrow> rounds_done l < warmup_rounds l \<or> speculating l \<or> low_reprobe l \<le> consecutive_skips l"

definition note_skip :: "spec_latch \<Rightarrow> spec_latch" where
  "note_skip l = l\<lparr>consecutive_skips := min u32_max (consecutive_skips l + 1)\<rparr>"

definition note_verified :: "nat \<Rightarrow> spec_latch \<Rightarrow> spec_latch" where
  "note_verified accepted l =
     (let l0 = l\<lparr>consecutive_skips := 0\<rparr>;
          l1 = (if productive_drafts l0 \<le> accepted then
                  let l2 = l0\<lparr>nonproductive_run := 0\<rparr>
                  in if \<not> speculating l2 \<and> enter_drafts l2 \<le> accepted then l2\<lparr>speculating := True\<rparr> else l2
                else
                  let l2 = l0\<lparr>nonproductive_run := min u32_max (nonproductive_run l0 + 1)\<rparr>
                  in if speculating l2 \<and> exit_run l2 \<le> nonproductive_run l2
                     then l2\<lparr>speculating := False, nonproductive_run := 0\<rparr> else l2)
      in l1\<lparr>rounds_done := min u64_max (rounds_done l1 + 1)\<rparr>)"

section \<open>The rounds of a stream\<close>

text \<open>What a round was: skipped, verified with so many accepted drafts, or neither (no draft, or the engine
  was not ready), which is not reported.\<close>

datatype round = Skipped | Verified nat | Unreported

inductive latch_step :: "spec_latch \<Rightarrow> round \<Rightarrow> spec_latch \<Rightarrow> bool" where
  skip: "\<not> should_speculate l \<Longrightarrow> latch_step l Skipped (note_skip l)"
| verified: "should_speculate l \<Longrightarrow> latch_step l (Verified n) (note_verified n l)"
| unreported: "should_speculate l \<Longrightarrow> latch_step l Unreported l"

inductive latch_run :: "spec_latch \<Rightarrow> round list \<Rightarrow> spec_latch \<Rightarrow> bool" where
  none: "latch_run l [] l"
| more: "latch_run l rs l' \<Longrightarrow> latch_step l' r l'' \<Longrightarrow> latch_run l (rs @ [r]) l''"

code_pred latch_step .
code_pred latch_run .

inductive_cases latch_step_cases [elim!]: "latch_step l r l'"
inductive_simps latch_step_simps [simp]: "latch_step l Skipped l'" "latch_step l (Verified n) l'" "latch_step l Unreported l'"

lemma latch_config [simp]:
  "low_reprobe (note_skip l) = low_reprobe l" "low_reprobe (note_verified n l) = low_reprobe l"
  "exit_run (note_skip l) = exit_run l" "exit_run (note_verified n l) = exit_run l"
  "productive_drafts (note_skip l) = productive_drafts l" "productive_drafts (note_verified n l) = productive_drafts l"
  by (simp_all add: note_skip_def note_verified_def Let_def)

lemma step_config: "latch_step l r l' \<Longrightarrow> low_reprobe l' = low_reprobe l \<and> exit_run l' = exit_run l \<and> productive_drafts l' = productive_drafts l"
  by auto

lemma run_config: "latch_run l rs l' \<Longrightarrow> low_reprobe l' = low_reprobe l \<and> exit_run l' = exit_run l \<and> productive_drafts l' = productive_drafts l"
  by (induction rule: latch_run.induct) (auto dest: step_config)

section \<open>Skips do not last\<close>

text \<open>A run of skips counts itself.\<close>

lemma skips_counted:
  assumes "latch_run l rs l'" "set rs \<subseteq> {Skipped}" "low_reprobe l \<le> u32_max"
  shows "(rs \<noteq> [] \<longrightarrow> length rs \<le> low_reprobe l) \<and> min u32_max (length rs) \<le> consecutive_skips l'"
  using assms
proof (induction rule: latch_run.induct)
  case (more l rs l' r l'')
  then have IH: "length rs \<le> low_reprobe l" "length rs \<le> consecutive_skips l'" and r: "r = Skipped"
    by (cases "rs = []"; auto)+
  from r more.hyps(2) have "\<not> should_speculate l'" and l'': "l'' = note_skip l'" by auto
  then have "consecutive_skips l' < low_reprobe l" using run_config [OF more.hyps(1)] by (auto simp: should_speculate_def)
  then show ?case using IH l'' by (auto simp: note_skip_def)
qed simp

section \<open>Leaving speculation\<close>

text \<open>The accepted drafts of the verified rounds, in order.\<close>

fun verdicts :: "round list \<Rightarrow> nat list" where
  "verdicts [] = []"
| "verdicts (Verified n # rs) = n # verdicts rs"
| "verdicts (_ # rs) = verdicts rs"

lemma verdicts_snoc: "verdicts (rs @ [r]) = verdicts rs @ (case r of Verified n \<Rightarrow> [n] | _ \<Rightarrow> [])"
  by (induction rs rule: verdicts.induct) (auto split: round.splits)

text \<open>The counter of non-productive rounds never exceeds the rounds at the end that were.\<close>

definition run_inv :: "spec_latch \<Rightarrow> nat list \<Rightarrow> bool" where
  "run_inv l ns \<longleftrightarrow> nonproductive_run l \<le> length ns \<and> (\<forall>n \<in> set (drop (length ns - nonproductive_run l) ns). n < productive_drafts l)"

lemma run_inv_verified:
  assumes "run_inv l ns"
  shows "run_inv (note_verified n l) (ns @ [n])"
    and "speculating l \<Longrightarrow> \<not> speculating (note_verified n l) \<Longrightarrow>
      exit_run l \<le> length (ns @ [n]) \<and> (\<forall>k \<in> set (drop (length (ns @ [n]) - exit_run l) (ns @ [n])). k < productive_drafts l)"
proof -
  let ?m = "min u32_max (nonproductive_run l + 1)"
  have sub: "set (drop i xs) \<subseteq> set (drop j xs)" if "j \<le> i" for i j and xs :: "nat list"
    using that set_drop_subset_set_drop by metis
  have low: "k < productive_drafts l" if "n < productive_drafts l" "k \<in> set (drop (length (ns @ [n]) - i) (ns @ [n]))" "i \<le> nonproductive_run l + 1" for k i
  proof -
    have "length ns - nonproductive_run l \<le> length (ns @ [n]) - i" using that(3) by simp
    from sub [OF this] that(2) have "k \<in> set (drop (length ns - nonproductive_run l) (ns @ [n]))" by (rule subsetD)
    then have "k \<in> set (drop (length ns - nonproductive_run l) ns) \<or> k = n" by auto
    with assms that(1) show ?thesis by (auto simp: run_inv_def)
  qed
  have len: "?m \<le> length (ns @ [n])" using assms by (simp add: run_inv_def min.coboundedI2)
  show "run_inv (note_verified n l) (ns @ [n])"
  proof (cases "n < productive_drafts l")
    case True
    have "nonproductive_run (note_verified n l) \<in> {0, ?m}" using True by (simp add: note_verified_def Let_def)
    then have "nonproductive_run (note_verified n l) \<le> ?m" by auto
    with len low [OF True, of _ "nonproductive_run (note_verified n l)"] show ?thesis by (auto simp: run_inv_def)
  qed (simp add: run_inv_def note_verified_def Let_def)
  assume "speculating l" "\<not> speculating (note_verified n l)"
  then have n: "n < productive_drafts l" and e: "exit_run l \<le> ?m" by (auto simp: note_verified_def Let_def split: if_splits)
  with len low [OF n, of _ "exit_run l"] show "exit_run l \<le> length (ns @ [n]) \<and>
      (\<forall>k \<in> set (drop (length (ns @ [n]) - exit_run l) (ns @ [n])). k < productive_drafts l)" by auto
qed

lemma run_inv_run:
  assumes "latch_run l rs l'" "nonproductive_run l = 0"
  shows "run_inv l' (verdicts rs)"
  using assms
proof (induction rule: latch_run.induct)
  case (more l rs l' r l'')
  from more.hyps(2) show ?case
  proof cases
    case skip
    then show ?thesis using more by (simp add: run_inv_def note_skip_def verdicts_snoc)
  next
    case (verified n)
    then show ?thesis using more run_inv_verified(1) by (simp add: verdicts_snoc)
  next
    case unreported
    then show ?thesis using more by (simp add: verdicts_snoc)
  qed
qed (simp add: run_inv_def)

section \<open>Properties\<close>

text \<open>Speculation is never abandoned for good. Whatever was accepted before, a stream never skips more
  than \<open>low_reprobe\<close> rounds in a row: in every run of one more round, at least one may draft.\<close>

theorem latch_reprobes:
  assumes "latch_run l0 before l" "latch_run l rs l'" "low_reprobe l0 \<le> u32_max" "low_reprobe l0 < length rs"
  shows "\<exists>r \<in> set rs. r \<noteq> Skipped"
proof (rule ccontr)
  assume "\<not> ?thesis"
  then have "set rs \<subseteq> {Skipped}" by auto
  from skips_counted [OF assms(2) this] run_config [OF assms(1)] assms(3,4) show False by auto
qed

text \<open>The latch leaves speculation only after a run of bad rounds. When a verified round switches a
  stream off, it and the verified rounds before it, \<open>exit_run\<close> in all, each accepted fewer drafts than
  count as productive, however many rounds were skipped or not reported in between.\<close>

theorem latch_exits_after_run:
  assumes "latch_run latch0 rs l" "nonproductive_run latch0 = 0" "speculating l" "latch_step l r l'" "\<not> speculating l'"
  shows "\<exists>n. r = Verified n \<and> exit_run latch0 \<le> length (verdicts rs @ [n]) \<and>
    (\<forall>k \<in> set (drop (length (verdicts rs @ [n]) - exit_run latch0) (verdicts rs @ [n])). k < productive_drafts latch0)"
  using assms(4)
proof cases
  case (verified n)
  then show ?thesis using run_inv_verified(2) [OF run_inv_run [OF assms(1,2)], of n] run_config [OF assms(1)] assms(3,5) by simp
qed (use assms(3,5) in \<open>auto simp: note_skip_def\<close>)

definition hasty_latch :: spec_latch where
  "hasty_latch = latch_default\<lparr>exit_run := 2, low_reprobe := 1\<rparr>"

lemma hasty_run:
  "latch_run hasty_latch [Verified 1, Verified 0] (note_verified 0 (note_verified 1 hasty_latch))"
  "latch_run hasty_latch [Verified 1] (note_verified 1 hasty_latch)"
  "latch_run (note_verified 0 (note_verified 1 hasty_latch)) [Skipped, Verified 3]
     (note_verified 3 (note_skip (note_verified 0 (note_verified 1 hasty_latch))))"
proof -
  let ?a = "note_verified 1 hasty_latch"
  let ?b = "note_verified 0 ?a"
  have d: "should_speculate hasty_latch" "should_speculate ?a" "\<not> should_speculate ?b" "should_speculate (note_skip ?b)" by code_simp+
  show "latch_run hasty_latch [Verified 1] ?a"
    using latch_run.more [OF latch_run.none verified [OF d(1)], of 1] by simp
  from latch_run.more [OF this verified [OF d(2)], of 0] show "latch_run hasty_latch [Verified 1, Verified 0] ?b" by simp
  show "latch_run ?b [Skipped, Verified 3] (note_verified 3 (note_skip ?b))"
    using latch_run.more [OF latch_run.more [OF latch_run.none skip [OF d(3)]] verified [OF d(4)], of 3] by simp
qed

theorem latch_reprobes_witness: "\<exists>r \<in> set [Skipped, Verified 3]. r \<noteq> Skipped"
proof (rule latch_reprobes [OF hasty_run(1,3)])
  show "low_reprobe hasty_latch \<le> u32_max" "low_reprobe hasty_latch < length [Skipped, Verified 3]" by code_simp+
qed

theorem latch_exits_after_run_witness:
  "\<exists>n. Verified 0 = Verified n \<and> exit_run hasty_latch \<le> length (verdicts [Verified 1] @ [n]) \<and>
    list_all (\<lambda>k. k < 2) (drop (length (verdicts [Verified 1] @ [n]) - exit_run hasty_latch) (verdicts [Verified 1] @ [n]))"
proof -
  let ?a = "note_verified 1 hasty_latch"
  have s: "latch_step ?a (Verified 0) (note_verified 0 ?a)" by (rule verified) code_simp
  have c: "nonproductive_run hasty_latch = 0" "speculating ?a" "\<not> speculating (note_verified 0 ?a)" "productive_drafts hasty_latch = 2"
    by code_simp+
  from latch_exits_after_run [OF hasty_run(2) c(1,2) s c(3)] show ?thesis unfolding c(4) list_all_iff .
qed

end
