(* ===== verification/Spec2Isabelle.thy ===== *)
theory Spec2Isabelle
  imports Paged_Memory Resident_Sequences Continuous_Batch Gguf_Directory Tokenizer_Load Kv_Pool Draft_Lattice Draft_Merge Spec_Latch
begin

text \<open>
  Camelid is a local inference engine: it reads a model in GGUF format, keeps the key/value (KV) rows of the
  sequences it serves, schedules their decoding steps and speculates on the tokens to come. This library models
  the logic around the numeric kernels, the part where a mistake corrupts another sequence, leaks memory or changes
  the tokens that are emitted.

  \<^bold>\<open>The parts and how they interact.\<close>
  \<^item> The GGUF reader turns the bytes of a file into metadata and a directory of tensors.
  \<^item> The tokenizer turns text into token ids and ids into text, with special tokens cut out of the text first.
  \<^item> The scheduler of continuous batching owns the queues of requests and calls back into the engine for every step.
  \<^item> A sequence served by the resident CUDA engine holds a lease on a slot; in the paged lane it owns a page table, whose
    pages come from a reference-counted pool and have their bytes in a device store. Finished sequences leave their pages
    behind as a prefix the next one can share; shared pages are copied before they are written.
  \<^item> On the host, KV caches live in a pool under a byte budget that evicts idle sequences.
  \<^item> Drafters propose trees of tokens from earlier text; the target model verifies a whole tree at once and the longest
    path it agrees with is accepted; a latch switches speculation off while it does not pay.

  \<^bold>\<open>Theories and sources\<close> (paths under \<open>src/src/\<close>).
  \<^item> \<open>Prelude\<close>: results that may also panic, the \<open>?\<close> operator with and without state, bounded integers, the lemmas about
    lists, multisets and words that the components share.
  \<^item> \<open>Paged_Pool\<close>, \<open>Paged_Table\<close> (\<open>inference/cuda_paged_kv.rs\<close>): \<open>CudaKvPagePool\<close> as the record \<open>page_pool\<close> and
    \<open>CudaKvPageTable\<close> as \<open>page_table\<close>, one definition per method under the method's name. The pool's contract is the
    multiset \<open>held\<close> of outstanding references (locale \<open>refcounted_pages\<close>, interpreted by the pool). Shown: reservation is
    atomic, a released handle stays stale through any operations that reissue its page fewer than 2^64 - 1 times, a batch append is a transaction.
  \<^item> \<open>Paged_Memory\<close> (\<open>prepare_paged_append\<close> and \<open>commit_paged_append\<close> of \<open>inference.rs\<close>): rows in pages, page copies and
    kernel writes. Shown: an appending sequence reads its old rows and the new ones, every other sequence reads what it read
    before.
  \<^item> \<open>Device_Pages\<close> (\<open>CudaDeviceKvPageStore\<close> of \<open>cuda_resident.rs\<close>): the store as a map from handles to bytes, with
    every driver call a possible failure.
  \<^item> \<open>Paged_Client\<close>, \<open>Paged_Lifecycle\<close>, \<open>Paged_Batch\<close> (\<open>ResidentCudaPagedKv\<close> and the paged methods of \<open>ResidentCudaSlot\<close>
    in \<open>inference.rs\<close>): opening, adopting, prefill and decode appends, batches, token records, release and eviction, with all
    their rollbacks. The invariant \<open>kv_inv\<close> carries the references of appends under way; \<open>client_step\<close> is the step relation
    of all operations. Shown: pages are owned exactly, on pool and device, in every reachable state; batches are atomic when
    the rows own their tail pages; adoption shares the longest common prefix and nothing else. A batch whose rows share a tail
    page with the prefix, which the step relation excludes, can evict the prefix under its own feet and leak pages; an example
    is run at the end of \<open>Paged_Batch\<close>.
  \<^item> \<open>Sequence_Slots\<close> (\<open>inference/cuda_sequence.rs\<close>): slots, leases, poison and teardown as a step relation. Shown: leases
    are exclusive and stay stale once given back.
  \<^item> \<open>Kv_Banks\<close> (\<open>select_kv_slot\<close> and \<open>clear_kv_slot\<close> of \<open>cuda_resident.rs\<close>): the two contiguous banks of the lane without
    pages, as a map from slots to banks. Shown: slots are isolated.
  \<^item> \<open>Resident_Sequences\<close> (\<open>select_resident_cuda_sequence\<close> and \<open>release_resident_cuda_sequence\<close> of \<open>inference.rs\<close>): slots, page
    client and banks composed, with sessions that select, work and end, and engines that are torn down and rebuilt. Shown: page
    tables, occupied slots and session leases always agree, so selecting never fails.
  \<^item> \<open>Continuous_Batch\<close> (\<open>api/continuous_batch.rs\<close>): queues and the three kinds of rounds. Shown: order is kept, no task is
    lost, duplicated, or stepped twice in a round, and each leaves or stays as its callback answered; when the prioritized
    pairing round panics.
  \<^item> \<open>Gguf_Wire\<close>, \<open>Gguf_Directory\<close> (\<open>gguf/reader.rs\<close>): cursor, values, header and tensor directory. Shown: values are read
    back as written, every file gives a header or an error, accepted directories are sound, a header needs no bytes past it.
  \<^item> \<open>Utf8_Text\<close>, \<open>Tokenizer_Base\<close>, \<open>Bpe_Segments\<close>, \<open>Bpe_Regex\<close>, \<open>Bpe_Dialects\<close>, \<open>Bpe_Merge\<close>, \<open>Special_Index\<close>, \<open>Tokenizer\<close>,
    \<open>Bpe_Roundtrip\<close> (\<open>tokenizer/mod.rs\<close>, \<open>tokenizer/mark_ranges.rs.inc\<close>): strings with byte offsets, character classes and the table
    of combining marks, the three splitters, pair merging, the index of special tokens, and byte-level BPE encoding and
    decoding. Shown: the splitters are the regular expressions of their comments (with the letter class the code uses), merging is
    the textbook algorithm, the index finds what a vocabulary scan finds, encoding ends, decoding inverts it when special
    tokens are visible ASCII, and fails on user-defined tokens with characters outside the byte alphabet.
  \<^item> \<open>Spm_Session\<close>, \<open>Spm_Encode\<close> (\<open>tokenizer/mod.rs\<close>): the SentencePiece session on its linked symbols, with the heap as the
    locale \<open>entry_queue\<close>, and normalisation, dummy prefixes, the rank-driven path, greedy matching and decoding around it. Shown:
    for every order of the heap the session ends on a partition that cannot be merged further; decoding inverts encoding on
    texts without special tokens and U+2581.
  \<^item> \<open>Wordpiece\<close> (\<open>tokenizer/mod.rs\<close>): normalisation, the basic split and the pieces of a word. Shown: the words are those of an
    inductive definition, and the pieces of each its longest-match segmentation.
  \<^item> \<open>Gguf_Metadata\<close> (\<open>gguf/reader.rs\<close>), \<open>Tokenizer_Load\<close> (\<open>tokenizer/mod.rs\<close>): the typed accessors, loading a tokenizer, and
    the operations of a loaded one. Shown: loading never panics; what loads is well typed and encodes every text to valid ids or
    to the error that names the missing token.
  \<^item> \<open>Kv_Cache\<close>, \<open>Kv_Pool\<close> (\<open>inference/kv_cache.rs\<close>, \<open>inference/kv_pool.rs\<close>): both physical layouts with growth, stores
    and rollback; the pool over the locale \<open>projecting_cache\<close>, which the cache interprets. Shown: the layouts implement the
    same map from positions to rows, projections are exact (for compressed plans with quantized storage they exceed the
    allocation by a computed amount), the pool holds at most its budget and what borrowers of a cache allocate themselves, evicts in least-recently-used order and never an active sequence.
  \<^item> \<open>Spec_Tree\<close>, \<open>Draft_Lattice\<close> (\<open>inference/spec_tree.rs\<close>), \<open>Ngram_Index\<close>, \<open>Spec_Latch\<close> (\<open>inference/speculative.rs\<close>),
    \<open>Drafters\<close> (\<open>inference/suffix_decoding.rs\<close>, \<open>inference/token_recycling.rs\<close>), \<open>Draft_Merge\<close>
    (\<open>inference/draft_merge.rs\<close>, the driver of \<open>inference/spec_tree_lossless.rs\<close>): trees in their array form, their packed
    layouts, acceptance, the scored lattice, the three model-free drafters, their merge and the decoding loop. The trait
    \<open>TreeDrafter\<close> is the locale \<open>tree_drafter\<close>, interpreted by every drafter and by the merge. Shown: acceptance and the whole
    decoding loop emit the tokens of greedy decoding, the merge refines a list program on token paths, reranking a lattice
    gives a well-formed tree, drafts were observed, the n-gram index equals the scan while it has room for all n-grams, the latch re-probes.

  \<^bold>\<open>Conventions.\<close> A \<open>usize\<close> is a natural number with the bound \<open>usize_max\<close> written out where the source checks,
  saturates or could overflow: the unchecked products of the KV strides wrap (\<open>wrap_us\<close>, the release profile), and the end of a
  drafted continuation that overflows is \<open>Panic\<close>, since in a build that wraps the slice is out of order; other integers are words where the source wraps or masks. A hash map is a function where the
  source only looks up, and an association list in an arbitrary order (or with the order as a parameter) where it iterates.
  Operations on \<open>&mut self\<close> return the state on every path, errors included; a panic of the source is the value \<open>Panic\<close>, so
  that its absence is a theorem.

  \<^bold>\<open>Loops.\<close> Loops over collections are structural. Loops that walk up an arbitrary parent array are partial
  functions with \<open>None\<close> for a walk that does not end; the theorems show that they end on well-formed trees. The splitting
  loops and the encoding loops are partial functions too, and their theorems say that they return. The eviction loop, the
  scheduler's group loop and the decoding loop (which counts its rounds) have termination proofs. No definition has fuel.

  \<^bold>\<open>Parameters.\<close> Code outside the modelled sources is an argument of the definitions: the engine's kernels (assumed only to
  leave the set of pages alone), the CUDA driver (allocations and copies may fail at any call; where a theorem needs the
  synchronization to work it says so), the callbacks of the scheduler, the conversions of rows to storage units, the Unicode
  tables, normalisation form D and case mapping, the entry a heap of bigrams pops, the hash of a file's header, the scores of the draft lattice, the target model's predictions, the iteration order of hash maps.

  \<^bold>\<open>Not modelled.\<close> The numeric kernels and tensors, rejection sampling and the rescaling of draft logits compute
  floating-point values; the CUDA, Metal and Vulkan back ends are kernel code and launches; the draft-model source runs an
  inference session; the HTTP API, the desktop application and the command line are input and output; the counters of the page
  pool and the trace records are telemetry. The chat templates are expanded by a third-party engine.
\<close>

end
